(* ===== verification/CString.thy ===== *)
theory CString
  imports Main "HOL-Library.Word"
begin

text \<open>
  The prelude of the development: C strings and the string routines of the C
  library and of GLib that the modelled files call.

  A \<open>char *\<close> that is never null is a \<open>string\<close>, the bytes before the
  terminating zero; a pointer that may be null is a \<open>string option\<close>. A
  pointer into a string is the suffix that starts there. The routines below are
  written from their documented behaviour: \<open>strchr\<close>, \<open>strstr\<close>, \<open>strtol\<close>,
  \<open>strcasecmp\<close>, \<open>strncmp\<close> of the C library and \<open>g_strsplit\<close>,
  \<open>g_strstrip\<close>, \<open>g_ascii_*\<close>, \<open>g_str_has_prefix\<close> of GLib.
\<close>

named_theorems cstr_simps \<open>evaluation rules of the string routines\<close>

type_synonym cptr = "string option"

section \<open>Characters\<close>

abbreviation code :: "char \<Rightarrow> nat" where
  "code c \<equiv> of_char c"

abbreviation LF :: char where "LF \<equiv> CHR 0x0A"
abbreviation CR :: char where "CR \<equiv> CHR 0x0D"
abbreviation HT :: char where "HT \<equiv> CHR 0x09"
abbreviation FF :: char where "FF \<equiv> CHR 0x0C"
abbreviation VT :: char where "VT \<equiv> CHR 0x0B"
abbreviation NUL :: char where "NUL \<equiv> CHR 0x00"
abbreviation US :: char where "US \<equiv> CHR 0x1F"
abbreviation SP :: char where "SP \<equiv> CHR 0x20"
abbreviation DQ :: char where "DQ \<equiv> CHR 0x22"
abbreviation SQ :: char where "SQ \<equiv> CHR 0x27"
abbreviation BSL :: char where "BSL \<equiv> CHR 0x5C"

definition ascii_isdigit :: "char \<Rightarrow> bool" where
  "ascii_isdigit c = (48 \<le> code c \<and> code c \<le> 57)"

definition ascii_isupper :: "char \<Rightarrow> bool" where
  "ascii_isupper c = (65 \<le> code c \<and> code c \<le> 90)"

definition ascii_islower :: "char \<Rightarrow> bool" where
  "ascii_islower c = (97 \<le> code c \<and> code c \<le> 122)"

definition ascii_isalpha :: "char \<Rightarrow> bool" where
  "ascii_isalpha c = (ascii_isupper c \<or> ascii_islower c)"

definition ascii_isalnum :: "char \<Rightarrow> bool" where
  "ascii_isalnum c = (ascii_isalpha c \<or> ascii_isdigit c)"

definition ascii_isxdigit :: "char \<Rightarrow> bool" where
  "ascii_isxdigit c = (ascii_isdigit c \<or> (65 \<le> code c \<and> code c \<le> 70)
     \<or> (97 \<le> code c \<and> code c \<le> 102))"

text \<open>\<open>g_ascii_isspace\<close>: space, tab, newline, form feed, carriage return.\<close>

definition ascii_isspace :: "char \<Rightarrow> bool" where
  "ascii_isspace c = (c \<in> {SP, HT, LF, FF, CR})"

text \<open>\<open>isspace\<close> of the C locale, as \<open>strtol\<close> uses it, also has the vertical tab.\<close>

definition c_isspace :: "char \<Rightarrow> bool" where
  "c_isspace c = (ascii_isspace c \<or> c = VT)"

definition is_blank :: "char \<Rightarrow> bool" where
  "is_blank c = (c = SP \<or> c = HT)"

definition ascii_tolower :: "char \<Rightarrow> char" where
  "ascii_tolower c = (if ascii_isupper c then char_of (code c + 32) else c)"

abbreviation strdown :: "string \<Rightarrow> string" where
  "strdown s \<equiv> map ascii_tolower s"

lemmas ascii_class_defs =
  ascii_isdigit_def ascii_isupper_def ascii_islower_def ascii_isalpha_def
  ascii_isalnum_def ascii_isxdigit_def ascii_isspace_def c_isspace_def

lemma code_tolower:
  "code (ascii_tolower c) = (if 65 \<le> code c \<and> code c \<le> 90 then code c + 32 else code c)"
  by (simp add: ascii_tolower_def ascii_isupper_def)

lemma ascii_tolower_idem [simp]: "ascii_tolower (ascii_tolower c) = ascii_tolower c"
proof -
  have "\<not> ascii_isupper (ascii_tolower c)"
    unfolding ascii_isupper_def code_tolower by auto
  then show ?thesis by (simp add: ascii_tolower_def [of "ascii_tolower c"])
qed

lemma strdown_idem [simp]: "strdown (strdown s) = strdown s"
  by simp

lemma code_less_256 [simp]: "code c < 256"
  by (rule nat_of_char_less_256)

section \<open>Searching and comparing\<close>

definition strchr :: "string \<Rightarrow> char \<Rightarrow> cptr" where
  "strchr s c = (case dropWhile (\<lambda>x. x \<noteq> c) s of [] \<Rightarrow> None | r \<Rightarrow> Some r)"

fun starts_with :: "string \<Rightarrow> string \<Rightarrow> bool" where
  "starts_with [] s = True"
| "starts_with (p # ps) [] = False"
| "starts_with (p # ps) (c # cs) = (p = c \<and> starts_with ps cs)"

fun strstr :: "string \<Rightarrow> string \<Rightarrow> cptr" where
  "strstr [] needle = (if needle = [] then Some [] else None)"
| "strstr (c # cs) needle =
     (if starts_with needle (c # cs) then Some (c # cs) else strstr cs needle)"

definition str_contains :: "string \<Rightarrow> string \<Rightarrow> bool" where
  "str_contains s needle = (strstr s needle \<noteq> None)"

definition strcaseeq :: "string \<Rightarrow> string \<Rightarrow> bool" where
  "strcaseeq a b = (strdown a = strdown b)"

definition strncaseeq :: "nat \<Rightarrow> string \<Rightarrow> string \<Rightarrow> bool" where
  "strncaseeq n a b = (strdown (take n a) = strdown (take n b))"

definition strneq :: "nat \<Rightarrow> string \<Rightarrow> string \<Rightarrow> bool" where
  "strneq n a b = (take n a = take n b)"

lemma starts_with_iff: "starts_with p s \<longleftrightarrow> (\<exists>r. s = p @ r)"
  by (induction p s rule: starts_with.induct) auto

lemma starts_with_append [simp]: "starts_with p (p @ r)"
  by (simp add: starts_with_iff)

lemma strchr_None_iff: "strchr s c = None \<longleftrightarrow> c \<notin> set s"
proof (cases "dropWhile (\<lambda>x. x \<noteq> c) s")
  case Nil
  then have "strchr s c = None" by (simp only: strchr_def list.case)
  moreover from Nil have "c \<notin> set s" by (auto simp: dropWhile_eq_Nil_conv)
  ultimately show ?thesis by simp
next
  case (Cons x xs)
  then have "\<not> (\<forall>y\<in>set s. y \<noteq> c)"
    using dropWhile_eq_Nil_conv [of "\<lambda>x. x \<noteq> c" s] by simp
  moreover from Cons have "strchr s c = Some (x # xs)" by (simp only: strchr_def list.case)
  ultimately show ?thesis by auto
qed

lemma strchr_SomeD:
  assumes "strchr s c = Some r"
  obtains t where "r = c # t" "s = takeWhile (\<lambda>x. x \<noteq> c) s @ c # t"
proof -
  from assms have r: "dropWhile (\<lambda>x. x \<noteq> c) s = r" "r \<noteq> []"
    by (auto simp: strchr_def split: list.splits)
  then obtain x t where xt: "r = x # t" by (cases r) auto
  with r have "x = c" using hd_dropWhile [of "\<lambda>x. x \<noteq> c" s] by auto
  with xt have "r = c # t" by simp
  moreover have "s = takeWhile (\<lambda>x. x \<noteq> c) s @ c # t"
    using r(1) \<open>r = c # t\<close> takeWhile_dropWhile_id [of "\<lambda>x. x \<noteq> c" s] by simp
  ultimately show ?thesis by (rule that)
qed

lemma strchr_append [simp]: "c \<notin> set a \<Longrightarrow> strchr (a @ c # b) c = Some (c # b)"
proof -
  assume "c \<notin> set a"
  then have "dropWhile (\<lambda>x. x \<noteq> c) (a @ c # b) = c # b"
    by (subst dropWhile_append2) auto
  then show ?thesis by (simp add: strchr_def)
qed

lemma takeWhile_neq_append [simp]:
  "c \<notin> set a \<Longrightarrow> takeWhile (\<lambda>x. x \<noteq> c) (a @ c # b) = a"
  by (subst takeWhile_append2) auto

lemma strcaseeq_refl [simp]: "strcaseeq a a"
  by (simp add: strcaseeq_def)

lemma strcaseeq_sym: "strcaseeq a b \<longleftrightarrow> strcaseeq b a"
  by (auto simp: strcaseeq_def)

lemma strcaseeq_trans: "strcaseeq a b \<Longrightarrow> strcaseeq b c \<Longrightarrow> strcaseeq a c"
  by (simp add: strcaseeq_def)

lemma strcaseeq_length: "strcaseeq a b \<Longrightarrow> length a = length b"
  unfolding strcaseeq_def by (drule arg_cong [where f = length]) simp

text \<open>The order of \<open>strcmp\<close>.\<close>

fun bytes_le :: "string \<Rightarrow> string \<Rightarrow> bool" where
  "bytes_le [] t = True"
| "bytes_le (c # cs) [] = False"
| "bytes_le (c # cs) (d # ds) =
     (if (code c :: nat) < code d then True else if c = d then bytes_le cs ds else False)"

section \<open>Splitting and stripping\<close>

text \<open>\<open>g_strsplit\<close> with a one-character delimiter and \<open>g_strsplit_set\<close>:
  an empty input gives the empty vector.\<close>

fun split_on :: "(char \<Rightarrow> bool) \<Rightarrow> string \<Rightarrow> string list" where
  "split_on p [] = [[]]"
| "split_on p (c # cs) =
     (if p c then [] # split_on p cs
      else (case split_on p cs of [] \<Rightarrow> [[c]] | w # ws \<Rightarrow> (c # w) # ws))"

definition strsplit_set :: "(char \<Rightarrow> bool) \<Rightarrow> string \<Rightarrow> string list" where
  "strsplit_set p s = (if s = [] then [] else split_on p s)"

abbreviation strsplit :: "char \<Rightarrow> string \<Rightarrow> string list" where
  "strsplit d s \<equiv> strsplit_set (\<lambda>c. c = d) s"

definition strchug :: "string \<Rightarrow> string" where
  "strchug s = dropWhile ascii_isspace s"

definition strchomp :: "string \<Rightarrow> string" where
  "strchomp s = rev (dropWhile ascii_isspace (rev s))"

definition strstrip :: "string \<Rightarrow> string" where
  "strstrip s = strchomp (strchug s)"

lemma split_on_nonempty [simp]: "split_on p s \<noteq> []"
  by (induction s) (auto split: list.splits)

lemma split_on_no_delim:
  "w \<in> set (split_on p s) \<Longrightarrow> c \<in> set w \<Longrightarrow> \<not> p c"
proof (induction s arbitrary: w)
  case (Cons a s)
  then show ?case
    by (cases "split_on p s") (force split: if_splits)+
qed simp

lemma split_on_single: "(\<And>c. c \<in> set s \<Longrightarrow> \<not> p c) \<Longrightarrow> split_on p s = [s]"
  by (induction s) auto

lemma split_on_append:
  "p d \<Longrightarrow> split_on p (a @ d # b) = split_on p a @ split_on p b"
proof (induction a)
  case (Cons x a)
  then show ?case by (cases "split_on p a") auto
qed simp

lemma set_split_on: "w \<in> set (split_on p s) \<Longrightarrow> set w \<subseteq> set s"
proof (induction s arbitrary: w)
  case (Cons a s)
  show ?case
  proof (cases "split_on p s")
    case Nil
    then show ?thesis by simp
  next
    case (Cons v vs)
    have "\<And>x. x \<in> set (split_on p s) \<Longrightarrow> set x \<subseteq> set s" by (rule Cons.IH)
    with Cons Cons.prems show ?thesis by (fastforce split: if_splits)
  qed
qed simp

text \<open>\<open>g_strjoinv\<close>\<close>

fun strjoin :: "string \<Rightarrow> string list \<Rightarrow> string" where
  "strjoin sep [] = []"
| "strjoin sep [w] = w"
| "strjoin sep (w # v # ws) = w @ sep @ strjoin sep (v # ws)"

lemma strjoin_snoc: "ws \<noteq> [] \<Longrightarrow> strjoin sep (ws @ [w]) = strjoin sep ws @ sep @ w"
  by (induction sep ws rule: strjoin.induct) auto

lemma set_strjoin: "set (strjoin sep ws) \<subseteq> set sep \<union> (\<Union>w\<in>set ws. set w)"
  by (induction sep ws rule: strjoin.induct) auto

lemma split_on_strjoin:
  assumes "p d" "ws \<noteq> []" "\<And>w c. w \<in> set ws \<Longrightarrow> c \<in> set w \<Longrightarrow> \<not> p c"
  shows "split_on p (strjoin [d] ws) = ws"
  using assms
proof (induction "[d]" ws rule: strjoin.induct)
  case (2 w)
  then show ?case by (simp add: split_on_single)
next
  case (3 w v ws)
  have "split_on p w = [w]" by (rule split_on_single) (use 3(4) in auto)
  moreover have "split_on p (strjoin [d] (v # ws)) = v # ws"
    by (rule 3(1)) (use 3(2,4) in auto)
  ultimately show ?case using 3(2) by (simp add: split_on_append)
qed simp

lemma set_strchug: "set (strchug s) \<subseteq> set s"
  unfolding strchug_def using set_dropWhileD by fast

lemma set_strchomp: "set (strchomp s) \<subseteq> set s"
  unfolding strchomp_def using set_dropWhileD [of _ ascii_isspace "rev s"] by auto

lemma set_strstrip: "set (strstrip s) \<subseteq> set s"
  unfolding strstrip_def using set_strchug set_strchomp by blast

text \<open>\<open>g_ascii_xdigit_value\<close>\<close>

definition xdigit_value :: "char \<Rightarrow> nat" where
  "xdigit_value c =
     (if ascii_isdigit c then code c - 48
      else if ascii_isupper c then code c - 55 else code c - 87)"

text \<open>\<open>g_unichar_to_utf8\<close>\<close>

definition unichar_to_utf8 :: "nat \<Rightarrow> string" where
  "unichar_to_utf8 cp =
     (if cp < 0x80 then [char_of cp]
      else if cp < 0x800 then [char_of (0xC0 + cp div 64), char_of (0x80 + cp mod 64)]
      else if cp < 0x10000 then
        [char_of (0xE0 + cp div 4096), char_of (0x80 + cp div 64 mod 64), char_of (0x80 + cp mod 64)]
      else [char_of (0xF0 + cp div 262144), char_of (0x80 + cp div 4096 mod 64),
            char_of (0x80 + cp div 64 mod 64), char_of (0x80 + cp mod 64)])"

section \<open>Numbers\<close>

fun dec_digits :: "nat \<Rightarrow> string" where
  "dec_digits n = (if n < 10 then [char_of (48 + n)]
     else dec_digits (n div 10) @ [char_of (48 + n mod 10)])"

declare dec_digits.simps [simp del]

text \<open>The value a digit string denotes when the reading so far is \<open>acc\<close>.\<close>

fun digits_value :: "nat \<Rightarrow> string \<Rightarrow> nat" where
  "digits_value acc [] = acc"
| "digits_value acc (c # cs) =
     (if ascii_isdigit c then digits_value (acc * 10 + (code c - 48)) cs else acc)"

definition clamp_long :: "int \<Rightarrow> int" where
  "clamp_long v = max (- (2 ^ 63)) (min (2 ^ 63 - 1) v)"

text \<open>\<open>strtol (s, NULL, 10)\<close> on a 64-bit \<open>long\<close>, which saturates out of range.\<close>

definition strtol10 :: "string \<Rightarrow> int" where
  "strtol10 s =
     (let t = dropWhile c_isspace s
      in case t of
           [] \<Rightarrow> 0
         | c # cs \<Rightarrow>
             if c = CHR ''-'' then clamp_long (- int (digits_value 0 cs))
             else if c = CHR ''+'' then clamp_long (int (digits_value 0 cs))
             else clamp_long (int (digits_value 0 t)))"

text \<open>Whether \<open>strtoll (s, &end, 10)\<close> converts anything: \<open>end != s\<close>.\<close>

definition strtoll_any :: "string \<Rightarrow> bool" where
  "strtoll_any s =
     (let t = dropWhile c_isspace s;
          u = (case t of [] \<Rightarrow> [] | c # cs \<Rightarrow>
                 if c = CHR ''-'' \<or> c = CHR ''+'' then cs else t)
      in u \<noteq> [] \<and> ascii_isdigit (hd u))"

text \<open>\<open>atol\<close> is \<open>strtol\<close>; \<open>atoi\<close> also narrows the result to 32 bits.\<close>

definition atol :: "string \<Rightarrow> int" where
  "atol s = strtol10 s"

definition atoi :: "string \<Rightarrow> int" where
  "atoi s = sint (word_of_int (strtol10 s) :: 32 word)"

lemma isdigit_digit_char [simp]: "d < 10 \<Longrightarrow> ascii_isdigit (char_of (48 + d :: nat))"
  by (simp add: ascii_isdigit_def)

lemma code_digit_char [simp]: "d < 10 \<Longrightarrow> code (char_of (48 + d :: nat)) = 48 + d"
  by simp

lemma char_of_digits [simp]:
  "char_of (48 :: nat) = CHR ''0''" "char_of (49 :: nat) = CHR ''1''"
  "char_of (50 :: nat) = CHR ''2''" "char_of (51 :: nat) = CHR ''3''"
  "char_of (52 :: nat) = CHR ''4''" "char_of (53 :: nat) = CHR ''5''"
  "char_of (54 :: nat) = CHR ''6''" "char_of (55 :: nat) = CHR ''7''"
  "char_of (56 :: nat) = CHR ''8''" "char_of (57 :: nat) = CHR ''9''"
  by code_simp+

lemma dec_digits_nonempty [simp]: "dec_digits n \<noteq> []"
  by (subst dec_digits.simps) simp

lemma dec_digits_all_digits: "c \<in> set (dec_digits n) \<Longrightarrow> ascii_isdigit c"
proof (induction n rule: dec_digits.induct)
  case (1 n)
  then show ?case
    by (cases "n < 10") (auto simp: dec_digits.simps [of n] simp del: of_char_of)
qed

lemma digits_value_append:
  "(\<And>c. c \<in> set a \<Longrightarrow> ascii_isdigit c) \<Longrightarrow>
     digits_value acc (a @ b) = digits_value (digits_value acc a) b"
  by (induction a arbitrary: acc) auto

lemma digits_value_dec_digits: "digits_value 0 (dec_digits n) = n"
proof (induction n rule: dec_digits.induct)
  case (1 n)
  show ?case
  proof (cases "n < 10")
    case True
    then show ?thesis
      by (simp add: dec_digits.simps [of n] ascii_isdigit_def)
  next
    case False
    have small: "n mod 10 < 10" by simp
    from False have "digits_value 0 (dec_digits n)
        = digits_value (digits_value 0 (dec_digits (n div 10))) [char_of (48 + n mod 10)]"
      by (subst dec_digits.simps) (simp add: digits_value_append dec_digits_all_digits)
    also have "\<dots> = digits_value (n div 10) [char_of (48 + n mod 10)]"
      using "1.IH" False by simp
    also have "\<dots> = n"
      using small isdigit_digit_char [OF small] code_digit_char [OF small] by simp
    finally show ?thesis .
  qed
qed

lemma dec_digits_not_in:
  "\<not> ascii_isdigit c \<Longrightarrow> c \<notin> set (dec_digits n)"
  using dec_digits_all_digits by blast

lemma digit_not_special:
  "ascii_isdigit c \<Longrightarrow> \<not> c_isspace c \<and> c \<noteq> CHR ''-'' \<and> c \<noteq> CHR ''+''"
  by (auto simp: ascii_class_defs)

lemma strtol10_dec_digits:
  assumes "int n < 2 ^ 63"
  shows "strtol10 (dec_digits n) = int n"
proof -
  obtain c cs where d: "dec_digits n = c # cs"
    using dec_digits_nonempty by (meson neq_Nil_conv)
  then have dig: "ascii_isdigit c" using dec_digits_all_digits [of c n] by simp
  from digit_not_special [OF dig] have "strtol10 (dec_digits n) = clamp_long (int n)"
    using d digits_value_dec_digits [of n] by (simp add: strtol10_def)
  with assms show ?thesis by (simp add: clamp_long_def)
qed

text \<open>A decimal number is read up to the first byte that is no digit.\<close>

lemma digits_value_stop:
  assumes "\<And>c. c \<in> set a \<Longrightarrow> ascii_isdigit c"
    and "b = [] \<or> \<not> ascii_isdigit (hd b)"
  shows "digits_value acc (a @ b) = digits_value acc a"
proof -
  from assms(2) have "\<And>k. digits_value k b = k" by (cases b) auto
  with assms(1) show ?thesis by (simp add: digits_value_append)
qed

lemma strtol10_dec_digits_append:
  assumes "int n < 2 ^ 63" and "b = [] \<or> \<not> ascii_isdigit (hd b)"
  shows "strtol10 (dec_digits n @ b) = int n"
proof -
  obtain c cs where d: "dec_digits n = c # cs"
    using dec_digits_nonempty by (meson neq_Nil_conv)
  then have dig: "ascii_isdigit c" using dec_digits_all_digits [of c n] by simp
  have "digits_value 0 (dec_digits n @ b) = n"
    using digits_value_stop [OF _ assms(2)] dec_digits_all_digits digits_value_dec_digits by metis
  with d digit_not_special [OF dig] have "strtol10 (dec_digits n @ b) = clamp_long (int n)"
    by (simp add: strtol10_def)
  with assms(1) show ?thesis by (simp add: clamp_long_def)
qed

text \<open>\<open>%d\<close>\<close>

definition int_digits :: "int \<Rightarrow> string" where
  "int_digits i = (if i < 0 then CHR ''-'' # dec_digits (nat (- i)) else dec_digits (nat i))"

lemma strtol10_int_digits_append:
  assumes "- (2 ^ 63) < i" "i < 2 ^ 63" and "b = [] \<or> \<not> ascii_isdigit (hd b)"
  shows "strtol10 (int_digits i @ b) = i"
proof (cases "i < 0")
  case True
  have "digits_value 0 (dec_digits (nat (- i)) @ b) = nat (- i)"
    using digits_value_stop [OF _ assms(3)] dec_digits_all_digits digits_value_dec_digits by metis
  moreover have "\<not> c_isspace CHR ''-''" by (simp add: c_isspace_def ascii_isspace_def)
  ultimately show ?thesis
    using True assms(1,2) by (simp add: strtol10_def int_digits_def clamp_long_def)
next
  case False
  then show ?thesis
    using assms strtol10_dec_digits_append [of "nat i" b] by (simp add: int_digits_def)
qed

lemma strtol10_bounds: "- (2 ^ 63) \<le> strtol10 s \<and> strtol10 s < 2 ^ 63"
proof -
  have "\<And>v. - (2 ^ 63) \<le> clamp_long v \<and> clamp_long v < 2 ^ 63"
    by (simp add: clamp_long_def)
  then show ?thesis
    unfolding strtol10_def Let_def by (auto split: list.splits)
qed

text \<open>The bytes up to the first zero, as \<open>const char *\<close> reads them.\<close>

definition until_nul :: "string \<Rightarrow> string" where
  "until_nul s = takeWhile (\<lambda>c. c \<noteq> NUL) s"

section \<open>Options and lists\<close>

text \<open>A fixed-size buffer \<open>char buf[cap]\<close> keeps at most \<open>cap - 1\<close> bytes.\<close>

definition truncate_to :: "nat \<Rightarrow> string \<Rightarrow> string" where
  "truncate_to cap s = take (cap - 1) s"

lemma truncate_to_short [simp]: "length s < cap \<Longrightarrow> truncate_to cap s = s"
  by (simp add: truncate_to_def)

lemma length_truncate_to [simp]: "0 < cap \<Longrightarrow> length (truncate_to cap s) < cap"
  by (simp add: truncate_to_def)

end
