(* ===== verification/Ipc_Http.thy ===== *)
theory Ipc_Http
  imports CString
begin

unbundle bit_operations_syntax

text \<open>
  The control channel between the shell and a renderer, \<open>src/src/ipc_http.c\<close>: a
  buffered reader over a file descriptor, minimal HTTP/1.1 framing on top of it, the
  writers of requests and responses, and the JSON string codec of the message bodies.

  A descriptor is a script of the reads its coming \<open>read\<close> calls return, so the
  theorems hold for every way the kernel may cut the byte stream into pieces. The
  abstraction of a connection is the byte stream still to be read from it.
\<close>

section \<open>The buffered connection\<close>

text \<open>What one \<open>read\<close> call returns: bytes (none at end of file), \<open>EINTR\<close>, or
  another error. A script that runs out reports end of file.\<close>

datatype read_result = Got string | Interrupted | Failed

record http_conn =
  cbuf :: string
  reads :: "read_result list"

definition http_conn_init :: "read_result list \<Rightarrow> http_conn" where
  "http_conn_init rs = \<lparr>cbuf = [], reads = rs\<rparr>"

fun fill_loop :: "read_result list \<Rightarrow> (string \<times> read_result list) option" where
  "fill_loop [] = None"
| "fill_loop (Got bs # rs) = (if bs = [] then None else Some (bs, rs))"
| "fill_loop (Interrupted # rs) = fill_loop rs"
| "fill_loop (Failed # rs) = None"

definition conn_fill :: "http_conn \<Rightarrow> http_conn option" where
  "conn_fill c = (if cbuf c \<noteq> [] then Some c else
     case fill_loop (reads c) of None \<Rightarrow> None
     | Some (bs, rs) \<Rightarrow> Some \<lparr>cbuf = bs, reads = rs\<rparr>)"

text \<open>The step that the line reader repeats: fill the buffer when it is empty, take a byte.\<close>

definition conn_getc :: "http_conn \<Rightarrow> (char \<times> http_conn) option" where
  "conn_getc c = (case conn_fill c of None \<Rightarrow> None
     | Some c' \<Rightarrow> (case cbuf c' of [] \<Rightarrow> None
         | b # bs \<Rightarrow> Some (b, c'\<lparr>cbuf := bs\<rparr>)))"

text \<open>The abstraction: the bytes that the connection will still deliver.\<close>

fun script_stream :: "read_result list \<Rightarrow> string" where
  "script_stream [] = []"
| "script_stream (Got bs # rs) = (if bs = [] then [] else bs @ script_stream rs)"
| "script_stream (Interrupted # rs) = script_stream rs"
| "script_stream (Failed # rs) = []"

definition conn_stream :: "http_conn \<Rightarrow> string" where
  "conn_stream c = cbuf c @ script_stream (reads c)"

lemma fill_loop_None: "fill_loop rs = None \<longleftrightarrow> script_stream rs = []"
  by (induction rs rule: fill_loop.induct) auto

lemma fill_loop_Some:
  "fill_loop rs = Some (bs, rs') \<Longrightarrow> bs \<noteq> [] \<and> script_stream rs = bs @ script_stream rs'"
  by (induction rs rule: fill_loop.induct) (auto split: if_splits)

lemma conn_fill_None: "conn_fill c = None \<longleftrightarrow> conn_stream c = []"
  using fill_loop_None [of "reads c"]
  by (auto simp: conn_fill_def conn_stream_def split: option.splits)

lemma conn_fill_Some:
  "conn_fill c = Some c' \<Longrightarrow> cbuf c' \<noteq> [] \<and> conn_stream c' = conn_stream c"
  by (auto simp: conn_fill_def conn_stream_def dest!: fill_loop_Some
      split: option.splits if_splits)

section \<open>Reading lines\<close>

definition strip_cr :: "string \<Rightarrow> string" where
  "strip_cr s = rev (dropWhile (\<lambda>x. x = CR) (rev s))"

text \<open>\<open>conn_read_line\<close> over any source of bytes: the line without its end, cut to the
  capacity of the caller's buffer.\<close>

partial_function (option) read_line_via ::
  "('c \<Rightarrow> (char \<times> 'c) option) \<Rightarrow> nat \<Rightarrow> 'c \<Rightarrow> string \<Rightarrow> (string \<times> 'c) option" where
  "read_line_via getc cap c out =
     (case getc c of None \<Rightarrow> None
      | Some (ch, c') \<Rightarrow>
          if ch = LF then Some (strip_cr out, c')
          else read_line_via getc cap c' (if length out + 1 < cap then out @ [ch] else out))"

definition conn_read_line :: "nat \<Rightarrow> http_conn \<Rightarrow> (string \<times> http_conn) option" where
  "conn_read_line cap c = read_line_via conn_getc cap c []"

text \<open>What a line of a byte stream is, whatever the source.\<close>

fun line_of :: "nat \<Rightarrow> string \<Rightarrow> string \<Rightarrow> (string \<times> string) option" where
  "line_of cap [] out = None"
| "line_of cap (ch # rest) out =
     (if ch = LF then Some (strip_cr out, rest)
      else line_of cap rest (if length out + 1 < cap then out @ [ch] else out))"

text \<open>The interface the line reader relies on: a byte source, with the stream it stands for.\<close>

locale byte_source =
  fixes getc :: "'c \<Rightarrow> (char \<times> 'c) option"
    and stream :: "'c \<Rightarrow> string"
  assumes getc_None: "getc c = None \<longleftrightarrow> stream c = []"
    and getc_Some: "getc c = Some (b, c') \<Longrightarrow> stream c = b # stream c'"
begin

lemma read_line_refines:
  "map_option (map_prod id stream) (read_line_via getc cap c out) = line_of cap (stream c) out"
proof (induction "stream c" arbitrary: c out)
  case Nil
  then have "getc c = None" by (simp add: getc_None)
  with Nil show ?case by (simp add: read_line_via.simps)
next
  case (Cons b bs)
  from Cons.hyps(2) [symmetric] have "getc c \<noteq> None" using getc_None [of c] by simp
  then obtain c' where c': "getc c = Some (b, c')" "stream c' = bs"
    using getc_Some [of c] Cons.hyps(2) [symmetric] by fastforce
  with Cons.hyps(1) Cons.hyps(2) [symmetric] show ?case by (subst read_line_via.simps) simp
qed

end

text \<open>The interface the header reader relies on: a source of lines.\<close>

locale line_reader =
  fixes rl :: "'c \<Rightarrow> (string \<times> 'c) option"
    and lstream :: "'c \<Rightarrow> string"
    and cap :: nat
  assumes rl_refines: "map_option (map_prod id lstream) (rl c) = line_of cap (lstream c) []"

sublocale byte_source \<subseteq> lines: line_reader "\<lambda>c. read_line_via getc cap c []" stream cap for cap
  by unfold_locales (rule read_line_refines)

interpretation conn: byte_source conn_getc conn_stream
proof
  fix c :: http_conn
  show "conn_getc c = None \<longleftrightarrow> conn_stream c = []"
    using conn_fill_None [of c] conn_fill_Some [of c]
    by (auto simp: conn_getc_def split: option.splits list.splits)
next
  fix c b c'
  assume "conn_getc c = Some (b, c')"
  then obtain d where d: "conn_fill c = Some d" "cbuf d = b # cbuf c'" "reads c' = reads d"
    by (auto simp: conn_getc_def split: option.splits list.splits)
  from conn_fill_Some [OF d(1)] d(2,3) show "conn_stream c = b # conn_stream c'"
    by (simp add: conn_stream_def)
qed

section \<open>Reading a message head\<close>

record http_head =
  hmethod :: string
  hpath :: string
  hstatus :: int
  content_length :: int
  x_w :: int
  x_h :: int
  x_stride :: int
  x_anim :: int
  x_unchanged :: int
  x_render_rc :: int
  x_page_w :: int
  x_page_h :: int
  x_scroll_y :: int
  x_scroll_x :: int
  x_clipboard :: int
  x_nav :: string
  x_webgl :: string
  x_camera :: string
  x_download :: string
  x_audio :: string
  x_window_action :: string

definition NS_HTTP_MAX_BODY :: int where "NS_HTTP_MAX_BODY = 64 * 1024 * 1024"
definition NS_HTTP_MAX_HEADERS :: nat where "NS_HTTP_MAX_HEADERS = 64"
definition LINE_CAP :: nat where "LINE_CAP = 20480"

definition head_init :: http_head where
  "head_init = \<lparr>hmethod = [], hpath = [], hstatus = 0, content_length = 0,
     x_w = -1, x_h = -1, x_stride = -1, x_anim = -1, x_unchanged = 0, x_render_rc = 0,
     x_page_w = -1, x_page_h = -1, x_scroll_y = -1, x_scroll_x = -1, x_clipboard = 0,
     x_nav = [], x_webgl = [], x_camera = [], x_download = [], x_audio = [],
     x_window_action = []\<rparr>"

text \<open>The C string in a line buffer ends at the first zero byte.\<close>

definition cstring_of :: "string \<Rightarrow> string" where
  "cstring_of s = takeWhile (\<lambda>c. c \<noteq> NUL) s"

definition start_line :: "string \<Rightarrow> http_head \<Rightarrow> http_head option" where
  "start_line line h =
     (if strneq 5 line ''HTTP/'' then
        Some (h\<lparr>hstatus := (case strchr line SP of None \<Rightarrow> 0 | Some sp \<Rightarrow> atoi (tl sp))\<rparr>)
      else case strchr line SP of None \<Rightarrow> None
        | Some sp \<Rightarrow>
            let p2 = tl sp
            in Some (h\<lparr>hmethod := truncate_to 8 (takeWhile (\<lambda>c. c \<noteq> SP) line),
                       hpath := truncate_to 128 (takeWhile (\<lambda>c. c \<noteq> SP) p2)\<rparr>))"

definition set_header :: "string \<Rightarrow> string \<Rightarrow> http_head \<Rightarrow> http_head" where
  "set_header name val h =
     (if strcaseeq name ''Content-Length'' then h\<lparr>content_length := atol val\<rparr>
      else if strcaseeq name ''X-W'' then h\<lparr>x_w := atol val\<rparr>
      else if strcaseeq name ''X-H'' then h\<lparr>x_h := atol val\<rparr>
      else if strcaseeq name ''X-Stride'' then h\<lparr>x_stride := atol val\<rparr>
      else if strcaseeq name ''X-Anim'' then h\<lparr>x_anim := atol val\<rparr>
      else if strcaseeq name ''X-PageW'' then h\<lparr>x_page_w := atol val\<rparr>
      else if strcaseeq name ''X-PageH'' then h\<lparr>x_page_h := atol val\<rparr>
      else if strcaseeq name ''X-ScrollY'' then h\<lparr>x_scroll_y := atol val\<rparr>
      else if strcaseeq name ''X-ScrollX'' then h\<lparr>x_scroll_x := atol val\<rparr>
      else if strcaseeq name ''X-Unchanged'' then h\<lparr>x_unchanged := atol val\<rparr>
      else if strcaseeq name ''X-Render-RC'' then h\<lparr>x_render_rc := atol val\<rparr>
      else if strcaseeq name ''X-Clipboard'' then h\<lparr>x_clipboard := atol val\<rparr>
      else if strcaseeq name ''X-Nav'' then h\<lparr>x_nav := truncate_to 2048 val\<rparr>
      else if strcaseeq name ''X-WebGL'' then h\<lparr>x_webgl := truncate_to 2048 val\<rparr>
      else if strcaseeq name ''X-Camera'' then h\<lparr>x_camera := truncate_to 2048 val\<rparr>
      else if strcaseeq name ''X-Download'' then h\<lparr>x_download := truncate_to 3072 val\<rparr>
      else if strcaseeq name ''X-Audio'' then h\<lparr>x_audio := truncate_to 16384 val\<rparr>
      else if strcaseeq name ''X-Window-Action'' then h\<lparr>x_window_action := truncate_to 32 val\<rparr>
      else h)"

definition header_line :: "string \<Rightarrow> http_head \<Rightarrow> http_head" where
  "header_line line h =
     (case strchr line CHR '':'' of None \<Rightarrow> h
      | Some colon \<Rightarrow>
          set_header (takeWhile (\<lambda>c. c \<noteq> CHR '':'') line)
            (dropWhile (\<lambda>c. c = SP) (tl colon)) h)"

text \<open>The header loop, over any source of lines; \<open>count\<close> is the code's
  \<open>header_count\<close>, whose limit also bounds the recursion.\<close>

function read_headers_via ::
  "('c \<Rightarrow> (string \<times> 'c) option) \<Rightarrow> 'c \<Rightarrow> nat \<Rightarrow> http_head \<Rightarrow> (http_head \<times> 'c) option" where
  "read_headers_via rl c count h =
     (case rl c of None \<Rightarrow> None
      | Some (line, c') \<Rightarrow>
          if line = [] then Some (h, c')
          else if count + 1 > NS_HTTP_MAX_HEADERS then None
          else read_headers_via rl c' (count + 1) (header_line (cstring_of line) h))"
  by pat_completeness auto
termination
  by (relation "measure (\<lambda>(rl, c, count, h). NS_HTTP_MAX_HEADERS - count)") auto

declare read_headers_via.simps [simp del]

definition read_head_via ::
  "('c \<Rightarrow> (string \<times> 'c) option) \<Rightarrow> 'c \<Rightarrow> (http_head \<times> 'c) option" where
  "read_head_via rl c =
     (case rl c of None \<Rightarrow> None
      | Some (line, c1) \<Rightarrow>
          if line = [] then None
          else case start_line (cstring_of line) head_init of None \<Rightarrow> None
            | Some h1 \<Rightarrow>
                (case read_headers_via rl c1 0 h1 of None \<Rightarrow> None
                 | Some (h, c2) \<Rightarrow>
                     if content_length h < 0 \<or> content_length h > NS_HTTP_MAX_BODY
                     then None else Some (h, c2)))"

definition http_read_head :: "http_conn \<Rightarrow> (http_head \<times> http_conn) option" where
  "http_read_head c = read_head_via (conn_read_line LINE_CAP) c"

text \<open>The specification: the same head, read from the flat byte stream.\<close>

definition head_of_bytes :: "string \<Rightarrow> (http_head \<times> string) option" where
  "head_of_bytes s = read_head_via (\<lambda>s. line_of LINE_CAP s []) s"

context line_reader
begin

lemma read_headers_refines:
  "map_option (map_prod id lstream) (read_headers_via rl c count h)
     = read_headers_via (\<lambda>s. line_of cap s []) (lstream c) count h"
proof (induction "NS_HTTP_MAX_HEADERS - count" arbitrary: c count h rule: less_induct)
  case less
  show ?case
  proof (cases "rl c")
    case None
    with rl_refines [of c] show ?thesis by (simp add: read_headers_via.simps)
  next
    case (Some r)
    obtain line c' where r: "r = (line, c')" by fastforce
    with Some rl_refines [of c] have "line_of cap (lstream c) [] = Some (line, lstream c')" by simp
    with Some r less show ?thesis
      by (auto simp: read_headers_via.simps [of rl c]
          read_headers_via.simps [of "\<lambda>s. line_of cap s []" "lstream c"])
  qed
qed

lemma read_head_refines:
  "map_option (map_prod id lstream) (read_head_via rl c)
     = read_head_via (\<lambda>s. line_of cap s []) (lstream c)"
proof (cases "rl c")
  case None
  with rl_refines [of c] show ?thesis by (simp add: read_head_via_def)
next
  case (Some r)
  obtain line c' where r: "r = (line, c')" by fastforce
  have eq: "line_of cap (lstream c) [] = Some (line, lstream c')"
    using Some r rl_refines [of c] by simp
  show ?thesis
  proof (cases "line = [] \<or> start_line (cstring_of line) head_init = None")
    case True
    with Some r eq show ?thesis by (auto simp: read_head_via_def)
  next
    case False
    then obtain h1 where h1: "start_line (cstring_of line) head_init = Some h1" "line \<noteq> []"
      by auto
    from read_headers_refines [of c' 0 h1, symmetric] h1 Some r eq show ?thesis
      by (cases "read_headers_via rl c' 0 h1") (auto simp: read_head_via_def)
  qed
qed

end

section \<open>Reading a body\<close>

text \<open>The loop of \<open>http_read_body\<close>: fill the buffer, copy what is there and still wanted.\<close>

function read_blocks :: "http_conn \<Rightarrow> nat \<Rightarrow> (string \<times> http_conn) option" where
  "read_blocks c n =
     (if n = 0 then Some ([], c)
      else case conn_fill c of None \<Rightarrow> None
        | Some d \<Rightarrow>
            let k = min (length (cbuf d)) n
            in case read_blocks (d\<lparr>cbuf := drop k (cbuf d)\<rparr>) (n - k) of
                 None \<Rightarrow> None
               | Some (bs, e) \<Rightarrow> Some (take k (cbuf d) @ bs, e))"
  by pat_completeness auto
termination
  by (relation "measure snd") (auto dest: conn_fill_Some)

declare read_blocks.simps [simp del]

definition http_read_body :: "http_conn \<Rightarrow> int \<Rightarrow> bool \<Rightarrow> (string \<times> http_conn) option" where
  "http_read_body c n dst_null =
     (if n < 0 then None
      else if n > 0 \<and> dst_null then None
      else read_blocks c (nat n))"

function skip_blocks :: "http_conn \<Rightarrow> nat \<Rightarrow> http_conn option" where
  "skip_blocks c n =
     (if n = 0 then Some c
      else case conn_fill c of None \<Rightarrow> None
        | Some d \<Rightarrow>
            let k = min (length (cbuf d)) n
            in skip_blocks (d\<lparr>cbuf := drop k (cbuf d)\<rparr>) (n - k))"
  by pat_completeness auto
termination
  by (relation "measure snd") (auto dest: conn_fill_Some)

declare skip_blocks.simps [simp del]

definition http_skip_body :: "http_conn \<Rightarrow> int \<Rightarrow> http_conn option" where
  "http_skip_body c n = (if n < 0 then None else skip_blocks c (nat n))"

lemma read_blocks_refines:
  "map_option (map_prod id conn_stream) (read_blocks c n)
     = (if n \<le> length (conn_stream c)
        then Some (take n (conn_stream c), drop n (conn_stream c)) else None)"
proof (induction c n rule: read_blocks.induct)
  case (1 c n)
  show ?case
  proof (cases "n = 0")
    case True
    then show ?thesis by (simp add: read_blocks.simps)
  next
    case False
    show ?thesis
    proof (cases "conn_fill c")
      case None
      with False conn_fill_None [of c] show ?thesis by (simp add: read_blocks.simps)
    next
      case (Some d)
      let ?k = "min (length (cbuf d)) n"
      let ?d = "d\<lparr>cbuf := drop ?k (cbuf d)\<rparr>"
      have "conn_stream c = (take ?k (cbuf d) @ drop ?k (cbuf d)) @ script_stream (reads d)"
        using conn_fill_Some [OF Some] by (simp only: append_take_drop_id conn_stream_def)
      then have st: "conn_stream c = take ?k (cbuf d) @ conn_stream ?d"
        by (simp add: conn_stream_def)
      then have len: "length (conn_stream c) = ?k + length (conn_stream ?d)"
        by simp
      from "1.IH" [OF False Some refl] False Some st len show ?thesis
        by (auto simp: read_blocks.simps [of c n] Let_def min_def split: option.splits if_splits)
    qed
  qed
qed

lemma skip_blocks_read_blocks: "skip_blocks c n = map_option snd (read_blocks c n)"
proof (induction c n rule: skip_blocks.induct)
  case (1 c n)
  then show ?case
    by (auto simp: skip_blocks.simps [of c n] read_blocks.simps [of c n] Let_def
        split: option.splits)
qed

section \<open>Writing\<close>

text \<open>What one \<open>write\<close> call returns: a count of bytes taken, \<open>EINTR\<close>, or another
  error. A script that runs out reports an error.\<close>

datatype write_result = Wrote nat | WInterrupted | WFailed

fun write_all :: "write_result list \<Rightarrow> string \<Rightarrow> bool \<times> string \<times> write_result list" where
  "write_all ws [] = (True, [], ws)"
| "write_all [] buf = (False, [], [])"
| "write_all (Wrote k # ws) buf =
     (if k = 0 then (False, [], ws)
      else let (ok, sent, ws') = write_all ws (drop k buf) in (ok, take k buf @ sent, ws'))"
| "write_all (WInterrupted # ws) buf = write_all ws buf"
| "write_all (WFailed # ws) buf = (False, [], ws)"

text \<open>The two writers: the return code as a bool, the bytes that left, the rest of the script.\<close>

definition request_head :: "string \<Rightarrow> string \<Rightarrow> cptr \<Rightarrow> nat \<Rightarrow> string" where
  "request_head meth path content_type n =
     meth @ [SP] @ path @ '' HTTP/1.1'' @ [CR, LF] @ ''Content-Type: ''
     @ (case content_type of None \<Rightarrow> ''text/plain'' | Some ct \<Rightarrow> ct) @ [CR, LF]
     @ ''Content-Length: '' @ dec_digits n @ [CR, LF, CR, LF]"

definition write_two ::
  "write_result list \<Rightarrow> string \<Rightarrow> string \<Rightarrow> bool \<times> string \<times> write_result list" where
  "write_two ws head body =
     (let (ok, sent, ws') = write_all ws head
      in if \<not> ok then (False, sent, ws')
         else if body = [] then (True, sent, ws')
         else let (ok2, sent2, ws2) = write_all ws' body in (ok2, sent @ sent2, ws2))"

definition http_write_request ::
  "write_result list \<Rightarrow> string \<Rightarrow> string \<Rightarrow> cptr \<Rightarrow> string \<Rightarrow> bool \<times> string \<times> write_result list" where
  "http_write_request ws meth path content_type body =
     (let head = request_head meth path content_type (length body)
      in if length head \<ge> 512 then (False, [], ws) else write_two ws head body)"

definition response_head :: "int \<Rightarrow> cptr \<Rightarrow> cptr \<Rightarrow> nat \<Rightarrow> string" where
  "response_head st content_type extra_headers n =
     ''HTTP/1.1 '' @ int_digits st @ '' OK'' @ [CR, LF] @ ''Content-Type: ''
     @ (case content_type of None \<Rightarrow> ''text/plain'' | Some ct \<Rightarrow> ct) @ [CR, LF]
     @ (case extra_headers of None \<Rightarrow> [] | Some eh \<Rightarrow> eh)
     @ ''Content-Length: '' @ dec_digits n @ [CR, LF, CR, LF]"

text \<open>The allocation of the head may fail (\<open>head_alloc_ok\<close>).\<close>

definition http_write_response ::
  "bool \<Rightarrow> write_result list \<Rightarrow> int \<Rightarrow> cptr \<Rightarrow> cptr \<Rightarrow> string
     \<Rightarrow> bool \<times> string \<times> write_result list" where
  "http_write_response head_alloc_ok ws st content_type extra_headers body =
     (if \<not> head_alloc_ok then (False, [], ws)
      else write_two ws (response_head st content_type extra_headers (length body)) body)"

lemma write_all_sound:
  "write_all ws buf = (ok, sent, ws') \<Longrightarrow> (\<exists>r. buf = sent @ r) \<and> (ok \<longrightarrow> sent = buf)"
proof (induction ws buf arbitrary: ok sent ws' rule: write_all.induct)
  case (3 k ws b bs)
  show ?case
  proof (cases "k = 0")
    case True
    with "3.prems" show ?thesis by simp
  next
    case False
    obtain ok1 sent1 ws1 where rec: "write_all ws (drop k (b # bs)) = (ok1, sent1, ws1)"
      using prod_cases3 by blast
    from "3.IH" [OF False rec] obtain r
      where r: "drop k (b # bs) = sent1 @ r" "ok1 \<longrightarrow> sent1 = drop k (b # bs)"
      by blast
    have "b # bs = (take k (b # bs) @ sent1) @ r"
      using r(1) append_take_drop_id [of k "b # bs"] by simp
    moreover have "ok = ok1" "sent = take k (b # bs) @ sent1"
      using "3.prems" False rec by simp_all
    ultimately show ?thesis using r(2) append_take_drop_id [of k "b # bs"] by metis
  qed
qed (auto split: if_splits)

lemma write_two_sound:
  "write_two ws head body = (True, sent, ws') \<Longrightarrow> sent = head @ body"
  by (auto simp: write_two_def dest!: write_all_sound split: prod.splits if_splits)

section \<open>JSON strings\<close>

definition hex_digit :: "nat \<Rightarrow> char" where
  "hex_digit d = char_of (if d < 10 then 48 + d else 87 + d)"

text \<open>\<open>%04x\<close>\<close>

definition hex4 :: "nat \<Rightarrow> string" where
  "hex4 n = [hex_digit (n div 4096 mod 16), hex_digit (n div 256 mod 16),
             hex_digit (n div 16 mod 16), hex_digit (n mod 16)]"

definition json_escape_char :: "char \<Rightarrow> string" where
  "json_escape_char c =
     (if c = DQ \<or> c = BSL then [BSL, c]
      else if c = LF then [BSL, CHR ''n'']
      else if c = CR then [BSL, CHR ''r'']
      else if c = HT then [BSL, CHR ''t'']
      else if code c < 0x20 then BSL # CHR ''u'' # hex4 (code c)
      else [c])"

text \<open>\<open>None\<close>: the size would overflow, or the allocation failed.\<close>

definition json_escape :: "bool \<Rightarrow> cptr \<Rightarrow> string option" where
  "json_escape alloc_ok s =
     (let t = (case s of None \<Rightarrow> [] | Some t \<Rightarrow> t)
      in if length t > (2 ^ 64 - 1 - 1) div 6 \<or> \<not> alloc_ok then None
         else Some (concat (map json_escape_char t)))"

fun json_find_value :: "string \<Rightarrow> string \<Rightarrow> cptr" where
  "json_find_value [] key = None"
| "json_find_value (c # cs) key =
     (if c = DQ \<and> starts_with (key @ [DQ]) cs
      then Some (dropWhile (\<lambda>x. x = SP \<or> x = CHR '':'') (drop (length key + 1) cs))
      else json_find_value cs key)"

definition json_get_long :: "cptr \<Rightarrow> string \<Rightarrow> int option" where
  "json_get_long body key =
     (case body of None \<Rightarrow> None
      | Some b \<Rightarrow> map_option atol (json_find_value b key))"

definition hex_value :: "char \<Rightarrow> nat option" where
  "hex_value c =
     (if ascii_isdigit c then Some (code c - 48)
      else if 97 \<le> code c \<and> code c \<le> 102 then Some (code c - 87)
      else if 65 \<le> code c \<and> code c \<le> 70 then Some (code c - 55)
      else None)"

fun json_hex_loop :: "nat \<Rightarrow> nat \<Rightarrow> string \<Rightarrow> nat option" where
  "json_hex_loop 0 v s = Some v"
| "json_hex_loop (Suc i) v [] = None"
| "json_hex_loop (Suc i) v (c # cs) =
     (case hex_value c of None \<Rightarrow> None
      | Some d \<Rightarrow> json_hex_loop i (push_bit 4 v OR d) cs)"

definition json_hex4 :: "string \<Rightarrow> nat option" where
  "json_hex4 s = json_hex_loop 4 0 s"

definition json_utf8_encode :: "nat \<Rightarrow> string" where
  "json_utf8_encode cp =
     (if cp < 0x80 then [char_of cp]
      else if cp < 0x800 then
        [char_of (0xC0 OR drop_bit 6 cp), char_of (0x80 OR (cp AND 0x3F))]
      else if cp < 0x10000 then
        [char_of (0xE0 OR drop_bit 12 cp), char_of (0x80 OR (drop_bit 6 cp AND 0x3F)),
         char_of (0x80 OR (cp AND 0x3F))]
      else
        [char_of (0xF0 OR drop_bit 18 cp), char_of (0x80 OR (drop_bit 12 cp AND 0x3F)),
         char_of (0x80 OR (drop_bit 6 cp AND 0x3F)), char_of (0x80 OR (cp AND 0x3F))])"

text \<open>A \<open>\u\<close> escape, read after the \<open>u\<close>: the code point and the rest, with a low
  surrogate escape joined to a high one.\<close>

definition json_unicode :: "string \<Rightarrow> (nat \<times> string) option" where
  "json_unicode s =
     (case json_hex4 s of None \<Rightarrow> None
      | Some hi \<Rightarrow>
          let r = drop 4 s
          in if 0xD800 \<le> hi \<and> hi \<le> 0xDBFF \<and> starts_with [BSL, CHR ''u''] r then
               (case json_hex4 (drop 2 r) of
                  None \<Rightarrow> Some (hi, r)
                | Some lo \<Rightarrow>
                    if 0xDC00 \<le> lo \<and> lo \<le> 0xDFFF
                    then Some (0x10000 + push_bit 10 (hi - 0xD800) + (lo - 0xDC00), drop 6 r)
                    else Some (hi, r))
             else Some (hi, r))"

lemma json_unicode_length: "json_unicode s = Some (cp, r) \<Longrightarrow> length r \<le> length s"
  by (auto simp: json_unicode_def Let_def split: option.splits if_splits)

text \<open>The bytes the loop of \<open>json_get_str\<close> writes, from after the opening quote.\<close>

function json_unescape :: "string \<Rightarrow> string" where
  "json_unescape [] = []"
| "json_unescape (c # cs) =
     (if c = DQ then []
      else if c = BSL \<and> cs \<noteq> [] then
        (let e = hd cs; r = tl cs
         in if e = CHR ''n'' then LF # json_unescape r
            else if e = CHR ''r'' then CR # json_unescape r
            else if e = CHR ''t'' then HT # json_unescape r
            else if e = CHR ''u'' then
              (case json_unicode r of
                 None \<Rightarrow> json_unescape r
               | Some (cp, r') \<Rightarrow> json_utf8_encode cp @ json_unescape r')
            else e # json_unescape r)
      else c # json_unescape cs)"
  by pat_completeness auto
termination
  by (relation "measure length") (auto simp: less_Suc_eq_le dest!: json_unicode_length)

definition json_get_str :: "bool \<Rightarrow> cptr \<Rightarrow> string \<Rightarrow> string option" where
  "json_get_str alloc_ok body key =
     (case body of None \<Rightarrow> None
      | Some b \<Rightarrow>
          (case json_find_value b key of None \<Rightarrow> None
           | Some v \<Rightarrow>
               if v = [] \<or> hd v \<noteq> DQ \<or> \<not> alloc_ok then None
               else Some (cstring_of (json_unescape (tl v)))))"

lemma push_or_nibble:
  assumes "d < (16 :: nat)"
  shows "push_bit 4 v OR d = 16 * v + d"
proof -
  from assms have d: "take_bit 4 d = d" by (simp add: take_bit_nat_eq_self)
  have "push_bit 4 v AND take_bit 4 d = 0"
    by (rule bit_eqI) (auto simp: bit_simps)
  then have "push_bit 4 v + d = (push_bit 4 v OR d)"
    unfolding d by (rule disjunctive_add_eq_or)
  then show ?thesis by (simp add: push_bit_eq_mult)
qed

lemma hex_value_hex_digit [simp]: "d < 16 \<Longrightarrow> hex_value (hex_digit d) = Some d"
  by (auto simp: hex_value_def hex_digit_def ascii_isdigit_def)

lemma json_hex4_unfold: "json_hex4 s = json_hex_loop (Suc (Suc (Suc (Suc 0)))) 0 s"
  by (simp add: json_hex4_def numeral_eq_Suc)

lemma json_hex4_hex4 [simp]:
  assumes "n < 65536"
  shows "json_hex4 (hex4 n @ r) = Some n"
proof -
  have nib: "\<And>m. m mod 16 < (16 :: nat)" by simp
  have glue: "\<And>m. 16 * (m div 16) + m mod 16 = (m :: nat)" by (rule mult_div_mod_eq)
  have d: "n div 4096 mod 16 = n div 256 div 16" "n div 256 = n div 16 div 16"
    using assms by (simp_all add: div_mult2_eq [symmetric])
  have "json_hex4 (hex4 n @ r)
      = Some (16 * (16 * (16 * (16 * 0 + n div 4096 mod 16) + n div 256 mod 16) + n div 16 mod 16)
          + n mod 16)"
    by (simp only: json_hex4_unfold hex4_def append_Cons append_Nil json_hex_loop.simps
        hex_value_hex_digit [OF nib] option.case push_or_nibble [OF nib])
  also have "\<dots> = Some n" by (simp only: d glue mult_0_right add_0)
  finally show ?thesis .
qed

lemma json_unescape_escape_char:
  "json_unescape (json_escape_char c @ r) = c # json_unescape r"
proof -
  consider (q) "c = DQ" | (b) "c = BSL" | (n) "c = LF" | (r) "c = CR" | (t) "c = HT"
    | (ctl) "c \<notin> {DQ, BSL, LF, CR, HT}" "code c < 0x20"
    | (plain) "c \<notin> {DQ, BSL, LF, CR, HT}" "\<not> code c < 0x20"
    by blast
  then show ?thesis
  proof cases
    case ctl
    then have "json_hex4 (hex4 (code c) @ r) = Some (code c)"
      by (intro json_hex4_hex4) simp
    moreover have "drop 4 (hex4 (code c) @ r) = r" by (simp add: hex4_def)
    ultimately have "json_unicode (hex4 (code c) @ r) = Some (code c, r)"
      using ctl(2) by (simp add: json_unicode_def)
    moreover from ctl have "json_utf8_encode (code c) = [c]"
      by (simp add: json_utf8_encode_def)
    ultimately show ?thesis using ctl by (simp add: json_escape_char_def)
  qed (auto simp: json_escape_char_def)
qed

lemma json_unescape_escape:
  "json_unescape (concat (map json_escape_char s) @ DQ # r) = s"
  by (induction s) (simp_all add: json_unescape_escape_char)

lemma json_find_value_skip:
  "DQ \<notin> set pre \<Longrightarrow> json_find_value (pre @ s) key = json_find_value s key"
  by (induction pre) auto

lemma json_find_value_here:
  assumes "\<And>c. c \<in> set sep \<Longrightarrow> c = SP \<or> c = CHR '':''"
    and "v = [] \<or> (hd v \<noteq> SP \<and> hd v \<noteq> CHR '':'')"
  shows "json_find_value (DQ # key @ DQ # sep @ v) key = Some v"
proof -
  have "dropWhile (\<lambda>x. x = SP \<or> x = CHR '':'') (sep @ v) = v"
    using assms by (subst dropWhile_append2) (auto simp: dropWhile_eq_self_iff)
  moreover have "starts_with (key @ [DQ]) (key @ DQ # sep @ v)"
    using starts_with_append [of "key @ [DQ]" "sep @ v"] by simp
  ultimately show ?thesis by simp
qed

lemma json_utf8_encode_length:
  "length (json_utf8_encode cp) \<le> 4" "cp < 0x10000 \<Longrightarrow> length (json_utf8_encode cp) \<le> 3"
  by (simp_all add: json_utf8_encode_def)

section \<open>Framing: what the readers see of what the writers send\<close>

lemma line_of_append:
  "LF \<notin> set xs \<Longrightarrow> length out + length xs < cap \<Longrightarrow>
     line_of cap (xs @ LF # rest) out = Some (strip_cr (out @ xs), rest)"
  by (induction xs arbitrary: out) auto

lemma strip_cr_snoc [simp]: "strip_cr (s @ [CR]) = strip_cr s"
  by (simp add: strip_cr_def)

lemma strip_cr_append: "a \<noteq> [] \<Longrightarrow> last a \<noteq> CR \<Longrightarrow> strip_cr (a @ b) = a @ strip_cr b"
proof -
  assume "a \<noteq> []" "last a \<noteq> CR"
  then obtain a' x where a: "a = a' @ [x]" "x \<noteq> CR" by (metis append_butlast_last_id)
  have "dropWhile (\<lambda>x. x = CR) (rev b @ rev a) = dropWhile (\<lambda>x. x = CR) (rev b) @ rev a"
    using a by (induction "rev b" arbitrary: b rule: rev_induct)
      (auto simp: dropWhile_append)
  then show ?thesis by (simp add: strip_cr_def)
qed

lemma strip_cr_id: "s = [] \<or> last s \<noteq> CR \<Longrightarrow> strip_cr s = s"
  using strip_cr_append [of s "[]"] by (cases "s = []") (simp_all add: strip_cr_def)

lemma line_of_crlf:
  assumes "LF \<notin> set xs" and "length xs + 1 < cap"
  shows "line_of cap (xs @ CR # LF # rest) [] = Some (strip_cr xs, rest)"
  using line_of_append [of "xs @ [CR]" "[]" cap rest] assms by simp

lemma cstring_of_append: "NUL \<notin> set a \<Longrightarrow> cstring_of (a @ b) = a @ cstring_of b"
  unfolding cstring_of_def by (subst takeWhile_append2) auto

lemma cstring_of_id [simp]: "NUL \<notin> set a \<Longrightarrow> cstring_of a = a"
  using cstring_of_append [of a "[]"] by (simp add: cstring_of_def)

lemma NUL_not_in_dec_digits [simp]: "NUL \<notin> set (dec_digits n)"
  by (rule dec_digits_not_in) (simp add: ascii_isdigit_def)

lemma LF_not_in_dec_digits [simp]: "LF \<notin> set (dec_digits n)"
  by (rule dec_digits_not_in) (simp add: ascii_isdigit_def)

lemma last_dec_digits [simp]: "last (dec_digits n) \<noteq> CR"
proof -
  have "ascii_isdigit (last (dec_digits n))"
    using last_in_set [OF dec_digits_nonempty] dec_digits_all_digits by blast
  then show ?thesis by (auto simp: ascii_isdigit_def)
qed

lemma hd_dec_digits [simp]: "hd (dec_digits n) \<noteq> SP"
proof -
  have "ascii_isdigit (hd (dec_digits n))"
    using hd_in_set [OF dec_digits_nonempty] dec_digits_all_digits by blast
  then show ?thesis by (auto simp: ascii_isdigit_def)
qed

text \<open>Header lines the framing itself writes.\<close>

lemma header_content_type:
  "header_line (cstring_of (strip_cr (''Content-Type: '' @ ct))) h = h"
proof -
  have 1: "strip_cr (''Content-Type: '' @ ct) = ''Content-Type: '' @ strip_cr ct"
    by (rule strip_cr_append) simp_all
  have 2: "cstring_of (''Content-Type: '' @ strip_cr ct) = ''Content-Type: '' @ cstring_of (strip_cr ct)"
    by (rule cstring_of_append) simp
  show ?thesis unfolding 1 2
    by (simp add: header_line_def strchr_def set_header_def strcaseeq_def ascii_tolower_def
        ascii_isupper_def)
qed

lemma header_content_length:
  assumes "int n < 2 ^ 63"
  shows "header_line (cstring_of (strip_cr (''Content-Length: '' @ dec_digits n))) h
     = h\<lparr>content_length := int n\<rparr>"
proof -
  have "strip_cr (''Content-Length: '' @ dec_digits n) = ''Content-Length: '' @ dec_digits n"
    by (rule strip_cr_id) simp
  moreover have "cstring_of (''Content-Length: '' @ dec_digits n) = ''Content-Length: '' @ dec_digits n"
    by (rule cstring_of_id) simp
  moreover have "dropWhile (\<lambda>c. c = SP) (SP # dec_digits n) = dec_digits n"
    by (simp add: dropWhile_eq_self_iff)
  ultimately show ?thesis using assms
    by (simp add: header_line_def strchr_def set_header_def atol_def strtol10_dec_digits)
qed

definition token_ok :: "string \<Rightarrow> bool" where
  "token_ok t = (SP \<notin> set t \<and> LF \<notin> set t \<and> NUL \<notin> set t)"

definition media_type :: "cptr \<Rightarrow> string" where
  "media_type ct = (case ct of None \<Rightarrow> ''text/plain'' | Some t \<Rightarrow> t)"

lemma request_head_lines:
  "request_head meth path ct n @ rest =
     (meth @ SP # path @ '' HTTP/1.1'') @ CR # LF # (''Content-Type: '' @ media_type ct) @ CR # LF
     # (''Content-Length: '' @ dec_digits n) @ CR # LF # [] @ CR # LF # rest"
  by (simp add: request_head_def media_type_def)

lemma start_line_request:
  assumes "token_ok meth" "token_ok path" "length meth < 8" "length path < 128"
    and "\<not> starts_with ''HTTP/'' meth"
  shows "start_line (cstring_of (strip_cr (meth @ SP # path @ '' HTTP/1.1''))) h
     = Some (h\<lparr>hmethod := meth, hpath := path\<rparr>)"
proof -
  let ?l = "meth @ SP # path @ '' HTTP/1.1''"
  have "strip_cr ?l = ?l" by (rule strip_cr_id) simp
  moreover have "cstring_of ?l = ?l"
    using assms(1,2) by (intro cstring_of_id) (simp add: token_ok_def)
  moreover have "\<not> strneq 5 ?l ''HTTP/''"
  proof
    assume "strneq 5 ?l ''HTTP/''"
    then have eq: "take 5 ?l = ''HTTP/''" by (simp add: strneq_def)
    show False
    proof (cases "5 \<le> length meth")
      case True
      with eq have "meth = ''HTTP/'' @ drop 5 meth"
        using append_take_drop_id [of 5 meth] by simp
      then show False using assms(5) by (metis starts_with_append)
    next
      case False
      then have "SP \<in> set (take 5 ?l)" by (simp add: take_Cons')
      with eq show False by simp
    qed
  qed
  ultimately show ?thesis using assms
    by (simp add: start_line_def token_ok_def Let_def truncate_to_def)
qed

lemma head_of_request:
  assumes "token_ok meth" "token_ok path" "length meth < 8" "length path < 128"
    and "\<not> starts_with ''HTTP/'' meth" "LF \<notin> set (media_type ct)"
    and "length (request_head meth path ct n) < 512" "int n \<le> NS_HTTP_MAX_BODY"
  shows "head_of_bytes (request_head meth path ct n @ rest) =
     Some (head_init\<lparr>hmethod := meth, hpath := path, content_length := int n\<rparr>, rest)"
proof -
  have len: "length (meth @ SP # path @ '' HTTP/1.1'') + 1 < LINE_CAP"
    "length (''Content-Type: '' @ media_type ct) + 1 < LINE_CAP"
    "length (''Content-Length: '' @ dec_digits n) + 1 < LINE_CAP"
    using assms(7) request_head_lines [of meth path ct n "[]"] by (auto simp: LINE_CAP_def)
  have lf: "LF \<notin> set (meth @ SP # path @ '' HTTP/1.1'')"
    "LF \<notin> set (''Content-Type: '' @ media_type ct)"
    "LF \<notin> set (''Content-Length: '' @ dec_digits n)"
    using assms(1,2,6) by (simp_all add: token_ok_def)
  have n: "int n < 2 ^ 63" using assms(8) by (simp add: NS_HTTP_MAX_BODY_def)
  note l1 = line_of_crlf [OF lf(1) len(1)] and l2 = line_of_crlf [OF lf(2) len(2)]
    and l3 = line_of_crlf [OF lf(3) len(3)]
  have l4: "\<And>r. line_of LINE_CAP (CR # LF # r) [] = Some ([], r)"
    using line_of_crlf [of "[]" LINE_CAP] by (simp add: LINE_CAP_def strip_cr_def)
  have ne: "strip_cr (meth @ SP # path @ '' HTTP/1.1'') \<noteq> []"
    "strip_cr (''Content-Type: '' @ media_type ct) \<noteq> []"
    "strip_cr (''Content-Length: '' @ dec_digits n) \<noteq> []"
    using strip_cr_append [of "''Content-Type: ''"] strip_cr_append [of "''Content-Length: ''"]
      strip_cr_append [of "meth @ SP # path @ '' HTTP/1.1''" "[]"] by simp_all
  let ?h = "head_init\<lparr>hmethod := meth, hpath := path\<rparr>"
  have "read_headers_via (\<lambda>s. line_of LINE_CAP s [])
       ((''Content-Type: '' @ media_type ct) @ CR # LF
         # (''Content-Length: '' @ dec_digits n) @ CR # LF # [] @ CR # LF # rest) 0 ?h
     = Some (?h\<lparr>content_length := int n\<rparr>, rest)"
    unfolding read_headers_via.simps [of _ _ 0] l2 option.case prod.case
      read_headers_via.simps [of _ _ "0 + 1"] l3 read_headers_via.simps [of _ _ "0 + 1 + 1"]
    using ne l4 header_content_type header_content_length [OF n]
    by (simp add: NS_HTTP_MAX_HEADERS_def)
  then show ?thesis
    using assms(8) ne(1) start_line_request [OF assms(1-5)]
    unfolding head_of_bytes_def read_head_via_def request_head_lines l1
    by simp
qed

section \<open>Properties\<close>

lemma conn_read_head_refines:
  "map_option (map_prod id conn_stream) (http_read_head c) = head_of_bytes (conn_stream c)"
  unfolding http_read_head_def head_of_bytes_def conn_read_line_def
  by (rule conn.lines.read_head_refines)

lemma http_read_body_stream:
  "map_option (map_prod id conn_stream) (http_read_body c n False)
     = (if n < 0 \<or> int (length (conn_stream c)) < n then None
        else Some (take (nat n) (conn_stream c), drop (nat n) (conn_stream c)))"
  using read_blocks_refines [of c "nat n"] by (auto simp: http_read_body_def)

lemma http_write_request_sound:
  assumes "http_write_request ws meth path ct body = (True, sent, ws')"
  shows "sent = request_head meth path ct (length body) @ body"
    and "length (request_head meth path ct (length body)) < 512"
  using assms write_two_sound
  by (auto simp: http_write_request_def Let_def split: if_splits)

text \<open>(C34) Framing on the control channel is independent of how the kernel cuts the byte
  stream: reading a head from any script of \<open>read\<close> results gives the head of the flat
  byte stream and leaves exactly the bytes after it.\<close>

theorem ipc_head_independent_of_chunking:
  "map_option (map_prod id conn_stream) (http_read_head c) = head_of_bytes (conn_stream c)"
  unfolding http_read_head_def head_of_bytes_def conn_read_line_def
  by (rule conn.lines.read_head_refines)

text \<open>A body read returns exactly the next \<open>n\<close> bytes and consumes exactly them, and
  fails exactly when \<open>n\<close> is negative or the peer closes before sending \<open>n\<close> bytes.\<close>

theorem ipc_body_exact:
  "map_option (map_prod id conn_stream) (http_read_body c n False)
     = (if n < 0 \<or> int (length (conn_stream c)) < n then None
        else Some (take (nat n) (conn_stream c), drop (nat n) (conn_stream c)))"
  by (rule http_read_body_stream)

text \<open>(C6) Round trip of a request over the channel: whatever the writer's partial writes and
  the reader's chunks, the reader gets the method, the path, the length and the body back, and
  stands at the first byte of the next message.\<close>

theorem ipc_request_roundtrip:
  assumes "http_write_request ws meth path ct body = (True, sent, ws')"
    and "conn_stream c = sent @ rest"
    and "token_ok meth" "token_ok path" "length meth < 8" "length path < 128"
    and "\<not> starts_with ''HTTP/'' meth" "LF \<notin> set (media_type ct)"
    and "int (length body) \<le> NS_HTTP_MAX_BODY"
  shows "\<exists>h c1 c2. http_read_head c = Some (h, c1)
     \<and> hmethod h = meth \<and> hpath h = path \<and> content_length h = int (length body)
     \<and> http_read_body c1 (content_length h) False = Some (body, c2)
     \<and> conn_stream c2 = rest"
proof -
  let ?h = "head_init\<lparr>hmethod := meth, hpath := path, content_length := int (length body)\<rparr>"
  note sent = http_write_request_sound [OF assms(1)]
  have "head_of_bytes (conn_stream c) = Some (?h, body @ rest)"
    unfolding assms(2) sent(1) append.assoc
    by (rule head_of_request [OF assms(3-8) sent(2) assms(9)])
  with conn_read_head_refines [of c]
  obtain c1 where c1: "http_read_head c = Some (?h, c1)" "conn_stream c1 = body @ rest"
    by (cases "http_read_head c") auto
  have "map_option (map_prod id conn_stream) (http_read_body c1 (int (length body)) False)
      = Some (body, rest)"
    using c1(2) by (simp add: http_read_body_stream)
  then obtain c2 where "http_read_body c1 (int (length body)) False = Some (body, c2)"
    "conn_stream c2 = rest"
    by (cases "http_read_body c1 (int (length body)) False") auto
  with c1 show ?thesis by simp
qed

theorem ipc_request_roundtrip_witness:
  "\<exists>h c1 c2. http_read_head (http_conn_init [Got ''POST /tick HTTP/1.'', Interrupted,
       Got (''1'' @ [CR]), Got (LF # ''Content-Type: text/plain'' @ [CR, LF]
         @ ''Content-Length: 2'' @ [CR, LF, CR, LF, CHR ''{'']), Got ''}GET'']) = Some (h, c1)
     \<and> hmethod h = ''POST'' \<and> hpath h = ''/tick'' \<and> content_length h = int (length ''{}'')
     \<and> http_read_body c1 (content_length h) False = Some (''{}'', c2)
     \<and> conn_stream c2 = ''GET''"
proof (rule ipc_request_roundtrip)
  show "http_write_request [Wrote 10, WInterrupted, Wrote 500, Wrote 2] ''POST'' ''/tick'' None ''{}''
     = (True, ''POST /tick HTTP/1.1'' @ [CR, LF] @ ''Content-Type: text/plain'' @ [CR, LF]
         @ ''Content-Length: 2'' @ [CR, LF, CR, LF] @ ''{}'', [])"
    by code_simp
qed (simp_all add: conn_stream_def http_conn_init_def token_ok_def media_type_def
      NS_HTTP_MAX_BODY_def)

text \<open>Every field of a parsed head fits its C buffer.\<close>

definition head_fits :: "http_head \<Rightarrow> bool" where
  "head_fits h = (length (hmethod h) < 8 \<and> length (hpath h) < 128
     \<and> length (x_nav h) < 2048 \<and> length (x_webgl h) < 2048 \<and> length (x_camera h) < 2048
     \<and> length (x_download h) < 3072 \<and> length (x_audio h) < 16384
     \<and> length (x_window_action h) < 32)"

lemma head_fits_start: "start_line line h = Some h' \<Longrightarrow> head_fits h \<Longrightarrow> head_fits h'"
  by (auto simp: start_line_def head_fits_def Let_def split: if_splits option.splits)

lemma head_fits_set_header: "head_fits h \<Longrightarrow> head_fits (set_header name val h)"
  unfolding set_header_def by (simp add: head_fits_def)

lemma head_fits_headers:
  "read_headers_via rl c count h = Some (h', c') \<Longrightarrow> head_fits h \<Longrightarrow> head_fits h'"
proof (induction rl c count h rule: read_headers_via.induct)
  case (1 rl c count h)
  have hl: "\<And>l. head_fits (header_line l h)"
    using "1.prems"(2) by (simp add: header_line_def head_fits_set_header split: option.split)
  from "1.prems"(1) obtain line d where rl: "rl c = Some (line, d)"
    by (subst (asm) read_headers_via.simps) (auto split: option.splits)
  show ?case
  proof (cases "line = []")
    case True
    with rl "1.prems" show ?thesis by (simp add: read_headers_via.simps [of rl c])
  next
    case False
    with rl "1.prems"(1) have small: "\<not> count + 1 > NS_HTTP_MAX_HEADERS"
      by (simp add: read_headers_via.simps [of rl c] split: if_splits)
    from False small rl "1.prems"(1) have
      "read_headers_via rl d (count + 1) (header_line (cstring_of line) h) = Some (h', c')"
      by (simp add: read_headers_via.simps [of rl c])
    with "1.IH" [OF rl refl False small] hl show ?thesis by simp
  qed
qed

text \<open>A head that is accepted stays within its C structure: every string field leaves room
  for its terminator, and the announced length is between zero and the 64 MiB limit.\<close>

theorem ipc_head_bounds:
  assumes "http_read_head c = Some (h, c')"
  shows "head_fits h \<and> 0 \<le> content_length h \<and> content_length h \<le> 64 * 1024 * 1024"
proof -
  from assms obtain line c1 h1 where
    h1: "start_line (cstring_of line) head_init = Some h1"
    and h: "read_headers_via (conn_read_line LINE_CAP) c1 0 h1 = Some (h, c')"
    and len: "\<not> (content_length h < 0 \<or> content_length h > NS_HTTP_MAX_BODY)"
    by (auto simp: http_read_head_def read_head_via_def split: option.splits if_splits)
  have "head_fits head_init" by (simp add: head_fits_def head_init_def)
  with head_fits_start [OF h1] head_fits_headers [OF h] len show ?thesis
    by (simp add: NS_HTTP_MAX_BODY_def)
qed

theorem ipc_head_bounds_witness:
  "\<exists>h c'. http_read_head (http_conn_init [Got (request_head ''GET'' ''/'' None 0)]) = Some (h, c')
     \<and> head_fits h \<and> 0 \<le> content_length h \<and> content_length h \<le> 64 * 1024 * 1024"
proof -
  let ?c = "http_conn_init [Got (request_head ''GET'' ''/'' None 0)]"
  have "conn_stream ?c = request_head ''GET'' ''/'' None 0 @ []"
    by (simp add: conn_stream_def http_conn_init_def request_head_def)
  then have "head_of_bytes (conn_stream ?c) \<noteq> None"
    by (subst \<open>conn_stream ?c = _\<close>, subst head_of_request)
      (simp_all add: token_ok_def media_type_def request_head_def dec_digits.simps NS_HTTP_MAX_BODY_def)
  then obtain h c' where hc: "http_read_head ?c = Some (h, c')"
    using conn_read_head_refines [of ?c] by (cases "http_read_head ?c") auto
  with ipc_head_bounds [OF hc] show ?thesis by blast
qed

text \<open>(C30) Round trip of the JSON string codec for the first field of a message: a string value
  that \<open>json_escape\<close> wrote after a key with no quote before it is what \<open>json_get_str\<close> returns
  for that key, for every C string, quotes, backslashes and control bytes included. After
  other fields it need not be: the key is looked for in their values too; the round trip of
  the replies says when a later field is read back.\<close>

theorem ipc_json_string_roundtrip:
  assumes "json_escape True (Some s) = Some e"
    and "DQ \<notin> set pre" and "NUL \<notin> set s"
  shows "json_get_str True (Some (pre @ DQ # key @ DQ # '':'' @ DQ # e @ DQ # rest)) key = Some s"
proof -
  from assms(1) have e: "e = concat (map json_escape_char s)"
    by (simp add: json_escape_def Let_def split: if_splits)
  have "json_find_value (pre @ DQ # key @ DQ # '':'' @ DQ # e @ DQ # rest) key = Some (DQ # e @ DQ # rest)"
    unfolding json_find_value_skip [OF assms(2)] by (rule json_find_value_here) auto
  with assms(3) show ?thesis
    by (simp add: json_get_str_def e json_unescape_escape)
qed

theorem ipc_json_string_roundtrip_witness:
  "json_get_str True (Some (''{'' @ DQ # ''text'' @ DQ # '':'' @ DQ
      # (''a'' @ [BSL, DQ, BSL, CHR ''n''] @ [BSL] @ ''u0001'') @ DQ # ''}'')) ''text''
     = Some (''a'' @ [DQ, LF, CHR 0x01])"
proof (rule ipc_json_string_roundtrip)
  show "json_escape True (Some (''a'' @ [DQ, LF, CHR 0x01]))
     = Some (''a'' @ [BSL, DQ, BSL, CHR ''n''] @ [BSL] @ ''u0001'')"
    by (simp add: json_escape_def json_escape_char_def hex4_def hex_digit_def)
qed simp_all

lemma json_hex_loop_bounds:
  "json_hex_loop i v s = Some w \<Longrightarrow> v < 16 ^ k \<Longrightarrow> w < 16 ^ (k + i) \<and> i \<le> length s"
proof (induction i v s arbitrary: k rule: json_hex_loop.induct)
  case (3 i v c cs)
  from "3.prems"(1) obtain d where d: "hex_value c = Some d"
    "json_hex_loop i (push_bit 4 v OR d) cs = Some w"
    by (auto split: option.splits)
  from d(1) have "d < 16" by (auto simp: hex_value_def ascii_isdigit_def split: if_splits)
  then have "push_bit 4 v OR d < 16 ^ Suc k"
    using "3.prems"(2) by (simp add: push_or_nibble)
  from "3.IH" [OF d(1) d(2) this] show ?case by simp
qed auto

lemma json_hex4_bounds: "json_hex4 s = Some w \<Longrightarrow> w < 65536 \<and> 4 \<le> length s"
  using json_hex_loop_bounds [of 4 0 s w 0] by (simp add: json_hex4_def)

lemma json_unicode_bounds:
  assumes "json_unicode s = Some (cp, r)"
  shows "length (json_utf8_encode cp) + length r < length s"
proof -
  from assms obtain hi where hi: "json_hex4 s = Some hi"
    by (auto simp: json_unicode_def split: option.splits)
  note hb = json_hex4_bounds [OF hi]
  consider (one) "cp = hi" "r = drop 4 s"
    | (two) lo where "r = drop 10 s" "json_hex4 (drop 6 s) = Some lo"
    using assms hi
    by (auto simp: json_unicode_def Let_def split: option.splits if_splits)
  then show ?thesis
  proof cases
    case one
    with hb have "length r + 4 = length s" "length (json_utf8_encode cp) \<le> 3"
      using json_utf8_encode_length(2) [of cp] by simp_all
    then show ?thesis by linarith
  next
    case two
    from json_hex4_bounds [OF two(2)] have "10 \<le> length s" by auto
    with two(1) have "length r + 10 = length s" by simp
    with json_utf8_encode_length(1) [of cp] show ?thesis by linarith
  qed
qed

lemma json_unescape_length: "length (json_unescape v) \<le> length v"
proof (induction v rule: length_induct)
  case (1 v)
  show ?case
  proof (cases v)
    case (Cons c cs)
    have IH: "\<And>w. length w \<le> length cs \<Longrightarrow> length (json_unescape w) \<le> length w"
      using 1 Cons by simp
    show ?thesis
    proof (cases "c = BSL \<and> cs \<noteq> []")
      case True
      then obtain e r where cs: "cs = e # r" by (cases cs) auto
      have r: "length (json_unescape r) \<le> length r" using IH [of r] cs by simp
      show ?thesis
      proof (cases "json_unicode r")
        case None
        with True cs Cons r show ?thesis by (simp add: Let_def)
      next
        case (Some p)
        obtain cp r' where p: "p = (cp, r')" by fastforce
        with Some json_unicode_bounds
        have b: "length (json_utf8_encode cp) + length r' < length r" by simp
        with IH [of r'] cs have "length (json_unescape r') \<le> length r'" by simp
        with True cs Cons r Some p b show ?thesis by (simp add: Let_def)
      qed
    next
      case False
      with IH [of cs] Cons show ?thesis by (cases "c = BSL") simp_all
    qed
  qed simp
qed

text \<open>\<open>json_get_str\<close> never writes past the buffer it sized from its input: the decoded
  bytes and the terminator fit in \<open>strlen (v) + 1\<close>, whatever escapes the input has.\<close>

theorem ipc_json_unescape_fits: "length (json_unescape v) + 1 \<le> length v + 1"
  using json_unescape_length [of v] by simp

end
