(* ===== verification/Ipc_Messages.thy ===== *)
theory Ipc_Messages
  imports Ipc_Http
begin

text \<open>
  The \<open>/open\<close> message of the control channel: the request the shell writes and the reply it
  reads (\<open>ns_rproc_http_open\<close>, \<open>src/src/rproc_http.c\<close>), and the reply the renderer
  formats (\<open>ns_renderer_session_handle\<close> and its helpers, \<open>src/src/renderer_serve.c\<close>).
  An escaped string that could not be allocated is formatted as the empty string.
\<close>

section \<open>The messages\<close>

definition jq :: "string \<Rightarrow> string" where
  "jq s = DQ # s @ [DQ]"

definition or_empty :: "string option \<Rightarrow> string" where
  "or_empty e = (case e of None \<Rightarrow> [] | Some s \<Rightarrow> s)"

definition bool_int :: "bool \<Rightarrow> int" where
  "bool_int b = (if b then 1 else 0)"

definition narrow32 :: "int \<Rightarrow> int" where
  "narrow32 i = sint (word_of_int i :: 32 word)"

definition open_request_json ::
  "string \<Rightarrow> int \<Rightarrow> int \<Rightarrow> int \<Rightarrow> bool \<Rightarrow> bool \<Rightarrow> string" where
  "open_request_json url_escaped viewport_width viewport_height settle_ms history user_activated =
     ''{'' @ jq ''url'' @ '':'' @ jq url_escaped
     @ '','' @ jq ''width'' @ '':'' @ int_digits viewport_width
     @ '','' @ jq ''height'' @ '':'' @ int_digits viewport_height
     @ '','' @ jq ''settle_ms'' @ '':'' @ int_digits settle_ms
     @ '','' @ jq ''history'' @ '':'' @ int_digits (bool_int history)
     @ '','' @ jq ''user_activated'' @ '':'' @ int_digits (bool_int user_activated) @ ''}''"

definition open_reply_json ::
  "int \<Rightarrow> int \<Rightarrow> int \<Rightarrow> string option \<Rightarrow> string option \<Rightarrow> string option \<Rightarrow> int
     \<Rightarrow> string option \<Rightarrow> string" where
  "open_reply_json ok pw ph title_escaped url_escaped nav_escaped security ip_escaped =
     ''{'' @ jq ''ok'' @ '':'' @ int_digits ok
     @ '','' @ jq ''page_width'' @ '':'' @ int_digits pw
     @ '','' @ jq ''page_height'' @ '':'' @ int_digits ph
     @ '','' @ jq ''title'' @ '':'' @ jq (or_empty title_escaped)
     @ '','' @ jq ''url'' @ '':'' @ jq (or_empty url_escaped)
     @ '','' @ jq ''nav'' @ '':'' @ jq (or_empty nav_escaped)
     @ '','' @ jq ''security'' @ '':'' @ int_digits security
     @ '','' @ jq ''ip'' @ '':'' @ jq (or_empty ip_escaped) @ ''}''"

definition reply_str_json :: "string \<Rightarrow> string option \<Rightarrow> string" where
  "reply_str_json key escaped = ''{'' @ jq key @ '':'' @ jq (or_empty escaped) @ ''}''"

definition reply_str2_json ::
  "string \<Rightarrow> string option \<Rightarrow> string \<Rightarrow> string option \<Rightarrow> string" where
  "reply_str2_json key1 escaped1 key2 escaped2 =
     ''{'' @ jq key1 @ '':'' @ jq (or_empty escaped1)
     @ '','' @ jq key2 @ '':'' @ jq (or_empty escaped2) @ ''}''"

definition reply_href_changed_json :: "string option \<Rightarrow> int \<Rightarrow> string" where
  "reply_href_changed_json escaped changed =
     ''{'' @ jq ''href'' @ '':'' @ jq (or_empty escaped)
     @ '','' @ jq ''changed'' @ '':'' @ int_digits (bool_int (changed \<noteq> 0)) @ ''}''"

section \<open>Reading the reply\<close>

record open_result =
  o_ok :: bool
  o_page_width :: int
  o_page_height :: int
  o_title :: "string option"
  o_url :: "string option"
  o_nav :: "string option"
  o_security :: int
  o_remote_ip :: "string option"

definition long_or_zero :: "string \<Rightarrow> string \<Rightarrow> int" where
  "long_or_zero body key = (case json_get_long (Some body) key of None \<Rightarrow> 0 | Some v \<Rightarrow> v)"

definition drop_empty :: "string option \<Rightarrow> string option" where
  "drop_empty s = (case s of Some [] \<Rightarrow> None | _ \<Rightarrow> s)"

definition open_reply_parse :: "bool \<Rightarrow> string \<Rightarrow> open_result" where
  "open_reply_parse alloc_ok body =
     \<lparr>o_ok = (long_or_zero body ''ok'' \<noteq> 0),
      o_page_width = narrow32 (long_or_zero body ''page_width''),
      o_page_height = narrow32 (long_or_zero body ''page_height''),
      o_title = json_get_str alloc_ok (Some body) ''title'',
      o_url = json_get_str alloc_ok (Some body) ''url'',
      o_nav = drop_empty (json_get_str alloc_ok (Some body) ''nav''),
      o_security = narrow32 (long_or_zero body ''security''),
      o_remote_ip = drop_empty (json_get_str alloc_ok (Some body) ''ip'')\<rparr>"

section \<open>Finding a key among other values\<close>

abbreviation esc :: "string \<Rightarrow> string" where
  "esc v \<equiv> concat (map json_escape_char v)"

definition plain_key :: "string \<Rightarrow> bool" where
  "plain_key k = (k \<noteq> [] \<and> (\<forall>c\<in>set k. ascii_isalnum c \<or> c = CHR ''_''))"

text \<open>A value is not mistaken for a key when it is not the key itself and does not end in a
  quote followed by the key.\<close>

definition distinct_from_key :: "string \<Rightarrow> string \<Rightarrow> bool" where
  "distinct_from_key key v = (v \<noteq> key \<and> drop (length v - length key - 1) v \<noteq> DQ # key)"

lemma plain_key_char:
  "plain_key k \<Longrightarrow> c \<in> set k \<Longrightarrow>
     c \<notin> {DQ, BSL, CHR '':'', CHR '','', CHR ''}'', SP} \<and> json_escape_char c = [c]"
proof -
  assume "plain_key k" "c \<in> set k"
  then have "48 \<le> code c \<and> code c < 123 \<and> code c \<noteq> 58 \<and> code c \<noteq> 92"
    by (auto simp: plain_key_def ascii_isalnum_def ascii_isalpha_def ascii_isupper_def
        ascii_islower_def ascii_isdigit_def)
  then have "c \<notin> {DQ, BSL, CHR '':'', CHR '','', CHR ''}'', SP}" "c \<notin> {LF, CR, HT}"
    "\<not> code c < 0x20"
    by auto
  then show ?thesis by (simp add: json_escape_char_def)
qed

lemma DQ_not_in_int_digits [simp]: "DQ \<notin> set (int_digits i)"
  using dec_digits_not_in [of DQ] by (simp add: int_digits_def ascii_isdigit_def)

lemma starts_with_escaped:
  assumes "\<And>c. c \<in> set key \<Longrightarrow> c \<noteq> BSL \<and> c \<noteq> DQ \<and> json_escape_char c = [c]"
  shows "starts_with (key @ [DQ]) (esc v @ DQ # r) \<longleftrightarrow> v = key"
  using assms
proof (induction v arbitrary: key)
  case Nil
  then show ?case by (cases key) auto
next
  case (Cons c v)
  have shape: "json_escape_char c = [c] \<and> c \<noteq> DQ \<and> c \<noteq> BSL \<or> (\<exists>t. json_escape_char c = BSL # t)"
    by (auto simp: json_escape_char_def)
  show ?case
  proof (cases key)
    case Nil
    with shape show ?thesis by auto
  next
    case (Cons k ks)
    note key = Cons
    then have k: "k \<noteq> BSL" "json_escape_char k = [k]" using Cons.prems [of k] by auto
    have IH: "starts_with (ks @ [DQ]) (esc v @ DQ # r) \<longleftrightarrow> v = ks"
      using Cons.IH [of ks] Cons.prems key by simp
    from shape show ?thesis
      using key k IH by auto
  qed
qed

lemma DQ_not_in_escape:
  assumes "c \<noteq> DQ"
  shows "DQ \<notin> set (json_escape_char c)"
proof -
  have "hex_digit d \<noteq> DQ" if "d < 16" for d
  proof
    assume "hex_digit d = DQ"
    then have "hex_value DQ = Some d" using hex_value_hex_digit [OF that] by simp
    then show False by (simp add: hex_value_def ascii_isdigit_def)
  qed
  then have "DQ \<notin> set (hex4 (code c))"
    unfolding hex4_def by (metis mod_less_divisor list.distinct(1) set_ConsD zero_less_numeral
        list.set_cases)
  with assms show ?thesis by (simp add: json_escape_char_def)
qed

lemma json_find_value_inside:
  assumes key: "plain_key key"
    and v: "\<not> (\<exists>u. v = u @ DQ # key)"
  shows "json_find_value (esc v @ DQ # r) key = json_find_value (DQ # r) key"
  using v
proof (induction v)
  case Nil
  then show ?case by simp
next
  case (Cons c v)
  from Cons.prems have "\<not> (\<exists>u. v = u @ DQ # key)" by (metis append_Cons)
  then have IH: "json_find_value (esc v @ DQ # r) key = json_find_value (DQ # r) key"
    by (rule Cons.IH)
  show ?case
  proof (cases "c = DQ")
    case True
    with Cons.prems have "v \<noteq> key" by auto
    moreover have "starts_with (key @ [DQ]) (esc v @ DQ # r) \<longleftrightarrow> v = key"
      using plain_key_char [OF key] by (intro starts_with_escaped) auto
    moreover have "json_escape_char c = [BSL, DQ]" using True by (simp add: json_escape_char_def)
    ultimately show ?thesis using IH by simp
  next
    case False
    then have "DQ \<notin> set (json_escape_char c)" by (rule DQ_not_in_escape)
    with IH show ?thesis by (simp add: json_find_value_skip)
  qed
qed

lemma plain_key_cons: "plain_key k \<Longrightarrow> \<exists>a ks. k = a # ks \<and> a \<notin> {DQ, CHR '':'', CHR '','', CHR ''}''}"
  using plain_key_char [of k "hd k"] by (cases k) (auto simp: plain_key_def)

lemma esc_plain: "plain_key k \<Longrightarrow> esc k = k"
proof -
  have "\<And>t. set t \<subseteq> set k \<Longrightarrow> plain_key k \<Longrightarrow> esc t = t"
    subgoal for t by (induction t) (auto dest: plain_key_char)
    done
  then show "plain_key k \<Longrightarrow> esc k = k" by blast
qed

lemma find_string_value:
  assumes "plain_key key" "distinct_from_key key v"
    and "d = CHR '':'' \<or> d = CHR '','' \<or> d = CHR ''}''"
  shows "json_find_value (DQ # esc v @ DQ # d # r) key = json_find_value r key"
proof -
  have "\<not> (\<exists>u. v = u @ DQ # key)"
    using assms(2) by (auto simp: distinct_from_key_def)
  note inside = json_find_value_inside [OF assms(1) this, of "d # r"]
  have "starts_with (key @ [DQ]) (esc v @ DQ # d # r) \<longleftrightarrow> v = key"
    using plain_key_char [OF assms(1)] by (intro starts_with_escaped) auto
  moreover have "v \<noteq> key" using assms(2) by (simp add: distinct_from_key_def)
  moreover obtain a ks where "key = a # ks" "a \<notin> {DQ, CHR '':'', CHR '','', CHR ''}''}"
    using plain_key_cons [OF assms(1)] by blast
  ultimately show ?thesis using inside assms(3) by auto
qed

lemma find_name:
  assumes "plain_key key" "plain_key k" "k \<noteq> key"
  shows "json_find_value (jq k @ CHR '':'' # r) key = json_find_value r key"
proof -
  have "DQ \<notin> set k" using plain_key_char [OF assms(2)] by auto
  then have "drop (length k - length key - 1) k \<noteq> DQ # key"
    using set_drop_subset [of "length k - length key - 1" k] by auto
  with assms(3) have "distinct_from_key key k" by (simp add: distinct_from_key_def)
  from find_string_value [OF assms(1) this, of "CHR '':''"] esc_plain [OF assms(2)]
  show ?thesis by (simp add: jq_def)
qed

lemma find_value_string:
  assumes "plain_key key" "distinct_from_key key v" "d = CHR '','' \<or> d = CHR ''}''"
  shows "json_find_value (jq (esc v) @ d # r) key = json_find_value r key"
  using find_string_value [OF assms(1,2)] assms(3) by (auto simp: jq_def)

lemma find_value_number: "json_find_value (int_digits i @ r) key = json_find_value r key"
  by (simp add: json_find_value_skip)

lemma found_here:
  assumes "plain_key key" "v \<noteq> []" "hd v \<noteq> SP" "hd v \<noteq> CHR '':''"
  shows "json_find_value (jq key @ CHR '':'' # v) key = Some v"
  using json_find_value_here [of "'':''" v key] assms by (simp add: jq_def)

lemma found_number:
  assumes "plain_key key"
  shows "json_find_value (jq key @ CHR '':'' # int_digits i @ r) key = Some (int_digits i @ r)"
proof -
  have "ascii_isdigit (hd (dec_digits n))" for n
    using hd_in_set [OF dec_digits_nonempty] dec_digits_all_digits by blast
  moreover have "\<not> ascii_isdigit SP" "\<not> ascii_isdigit CHR '':''"
    by (simp_all add: ascii_isdigit_def)
  ultimately have "hd (dec_digits n @ r) \<noteq> SP \<and> hd (dec_digits n @ r) \<noteq> CHR '':''" for n
    using dec_digits_nonempty [of n] by (metis hd_append2)
  then show ?thesis using assms
    by (intro found_here) (auto simp: int_digits_def)
qed

lemma found_string:
  assumes "plain_key key"
  shows "json_find_value (jq key @ CHR '':'' # jq e @ r) key = Some (jq e @ r)"
  using assms by (intro found_here) (auto simp: jq_def)

lemma get_str_found:
  assumes "json_find_value b key = Some (jq (esc s) @ r)" "NUL \<notin> set s"
  shows "json_get_str True (Some b) key = Some s"
  using assms by (simp add: json_get_str_def jq_def json_unescape_escape)

lemma get_long_found:
  assumes "json_find_value b key = Some (int_digits i @ d # r)"
    and "- (2 ^ 31) \<le> i" "i < 2 ^ 31" "\<not> ascii_isdigit d"
  shows "long_or_zero b key = i"
  using assms by (simp add: long_or_zero_def json_get_long_def atol_def strtol10_int_digits_append)

lemma narrow32_id: "- (2 ^ 31) \<le> i \<Longrightarrow> i < 2 ^ 31 \<Longrightarrow> narrow32 i = i"
  by (simp add: narrow32_def int_word_sint)

lemma open_reply_keys:
  "plain_key ''ok''" "plain_key ''page_width''" "plain_key ''page_height''" "plain_key ''title''"
  "plain_key ''url''" "plain_key ''nav''" "plain_key ''security''" "plain_key ''ip''"
  by (simp_all add: plain_key_def ascii_class_defs)

lemmas find_simps =
  find_name find_value_string find_value_number found_number found_string open_reply_keys

section \<open>Properties\<close>

text \<open>(C35) The reply to \<open>/open\<close> as a whole: the shell reads back every field that the renderer
  formatted, for all titles, addresses, navigation targets and IP addresses that are not
  mistaken for a later key.\<close>

theorem ipc_open_reply_roundtrip:
  assumes esc: "json_escape True (Some title) = Some te" "json_escape True (Some url) = Some ue"
      "json_escape True (Some nav) = Some ne" "json_escape True (Some ip) = Some ie"
    and c_strings: "NUL \<notin> set title" "NUL \<notin> set url" "NUL \<notin> set nav" "NUL \<notin> set ip"
    and ints: "- (2 ^ 31) \<le> ok" "ok < 2 ^ 31" "- (2 ^ 31) \<le> pw" "pw < 2 ^ 31"
      "- (2 ^ 31) \<le> ph" "ph < 2 ^ 31" "- (2 ^ 31) \<le> sec" "sec < 2 ^ 31"
    and title: "distinct_from_key ''url'' title" "distinct_from_key ''nav'' title"
      "distinct_from_key ''security'' title" "distinct_from_key ''ip'' title"
    and url: "distinct_from_key ''nav'' url" "distinct_from_key ''security'' url"
      "distinct_from_key ''ip'' url"
    and nav: "distinct_from_key ''security'' nav" "distinct_from_key ''ip'' nav"
  shows "open_reply_parse True (open_reply_json ok pw ph (Some te) (Some ue) (Some ne) sec (Some ie))
    = \<lparr>o_ok = (ok \<noteq> 0), o_page_width = pw, o_page_height = ph, o_title = Some title,
       o_url = Some url, o_nav = (if nav = [] then None else Some nav), o_security = sec,
       o_remote_ip = (if ip = [] then None else Some ip)\<rparr>"
proof -
  have e: "te = esc title" "ue = esc url" "ne = esc nav" "ie = esc ip"
    using esc by (simp_all add: json_escape_def Let_def split: if_splits)
  let ?b = "open_reply_json ok pw ph (Some te) (Some ue) (Some ne) sec (Some ie)"
  note body = open_reply_json_def or_empty_def e
  have nd: "\<not> ascii_isdigit CHR '',''" by (simp add: ascii_isdigit_def)
  have "long_or_zero ?b ''ok'' = ok"
    by (rule get_long_found [OF _ ints(1,2) nd]) (simp add: body find_simps)
  moreover have "long_or_zero ?b ''page_width'' = pw"
    by (rule get_long_found [OF _ ints(3,4) nd]) (simp add: body find_simps)
  moreover have "long_or_zero ?b ''page_height'' = ph"
    by (rule get_long_found [OF _ ints(5,6) nd]) (simp add: body find_simps)
  moreover have "long_or_zero ?b ''security'' = sec"
    by (rule get_long_found [OF _ ints(7,8) nd]) (simp add: body find_simps title url nav)
  moreover have "json_get_str True (Some ?b) ''title'' = Some title"
    by (rule get_str_found [OF _ c_strings(1)]) (simp add: body find_simps)
  moreover have "json_get_str True (Some ?b) ''url'' = Some url"
    by (rule get_str_found [OF _ c_strings(2)]) (simp add: body find_simps title)
  moreover have "json_get_str True (Some ?b) ''nav'' = Some nav"
    by (rule get_str_found [OF _ c_strings(3)]) (simp add: body find_simps title url)
  moreover have "json_get_str True (Some ?b) ''ip'' = Some ip"
    by (rule get_str_found [OF _ c_strings(4)]) (simp add: body find_simps title url nav)
  ultimately show ?thesis
    using ints by (simp add: open_reply_parse_def narrow32_id drop_empty_def split: list.split)
qed

theorem ipc_open_reply_roundtrip_witness:
  "open_reply_parse True (open_reply_json 1 800 1200 (Some (''A '' @ [BSL, DQ] @ ''b'' @ [BSL, DQ]))
      (Some ''https://x.no/'') (Some []) 2 (Some ''10.0.0.1''))
    = \<lparr>o_ok = True, o_page_width = 800, o_page_height = 1200,
       o_title = Some (''A '' @ [DQ] @ ''b'' @ [DQ]),
       o_url = Some ''https://x.no/'', o_nav = None, o_security = 2,
       o_remote_ip = Some ''10.0.0.1''\<rparr>"
  using ipc_open_reply_roundtrip [of "''A '' @ [DQ] @ ''b'' @ [DQ]"
      "''A '' @ [BSL, DQ] @ ''b'' @ [BSL, DQ]" "''https://x.no/''" "''https://x.no/''" "[]" "[]"
      "''10.0.0.1''" "''10.0.0.1''" 1 800 1200 2]
  by (simp add: json_escape_def json_escape_char_def distinct_from_key_def)

text \<open>A page chooses its own title, and the scan for a key does not tell keys from values:
  a page whose title is the word \<open>url\<close> makes the shell read no address at all from the reply,
  and one whose title is \<open>security\<close> makes it read security level 0, whatever the real ones.\<close>

theorem ipc_open_reply_title_shadows_keys:
  "o_url (open_reply_parse alloc_ok
     (open_reply_json ok pw ph (json_escape True (Some ''url'')) url_e nav_e sec ip_e)) = None
   \<and> o_security (open_reply_parse alloc_ok
     (open_reply_json ok pw ph (json_escape True (Some ''security'')) url_e nav_e sec ip_e)) = 0"
proof -
  have e: "json_escape True (Some ''url'') = Some ''url''"
    "json_escape True (Some ''security'') = Some ''security''"
    by (simp_all add: json_escape_def json_escape_char_def)
  have u: "json_find_value (jq ''url'' @ CHR '','' # r) ''url'' = Some (CHR '','' # r)" for r
    by (simp add: jq_def)
  have s: "json_find_value (jq ''security'' @ CHR '','' # r) ''security'' = Some (CHR '','' # r)" for r
    by (simp add: jq_def)
  have z: "atol (CHR '','' # r) = 0" for r
    by (simp add: atol_def strtol10_def clamp_long_def ascii_class_defs)
  show ?thesis
    by (simp add: open_reply_parse_def open_reply_json_def or_empty_def e find_simps u s z
        json_get_str_def long_or_zero_def json_get_long_def narrow32_def)
qed

end
