(* ===== verification/Net_Url.thy ===== *)
theory Net_Url
  imports CString
begin

text \<open>
  URLs, origins, sites, the referrer, HSTS and the tracking-parameter filter
  (\<open>src/src/net.c\<close>, lines 410 to 1190).

  The WHATWG URL parser is the vendored library lexbor: it is the parameter
  \<open>lxb\<close>, which maps an optional parsed base and an input to the parsed URL,
  given by the record of the results of the lexbor calls the code makes. The
  public-suffix list \<open>psl_registrable_domain\<close> is the parameter \<open>psl\<close>.
\<close>

section \<open>The URL record of the parser\<close>

datatype host_type = HostUndef | HostEmpty | HostOther

record lxb_url =
  u_href :: cptr          \<comment> \<open>\<open>lxb_url_serialize\<close>, none when it fails\<close>
  u_scheme_name :: string \<comment> \<open>\<open>scheme.name\<close>\<close>
  u_scheme :: cptr        \<comment> \<open>\<open>lxb_url_serialize_scheme\<close>\<close>
  u_host_type :: host_type
  u_host :: cptr          \<comment> \<open>\<open>lxb_url_serialize_host\<close>\<close>
  u_port :: "16 word option" \<comment> \<open>\<open>port\<close> when \<open>has_port\<close>\<close>
  u_path :: cptr          \<comment> \<open>\<open>lxb_url_serialize_path\<close>\<close>
  u_query :: string
  u_fragment :: string
  u_username :: string
  u_password :: string

type_synonym url_parser = "lxb_url option \<Rightarrow> string \<Rightarrow> lxb_url option"

text \<open>The fields of \<open>ns_config\<close> and the build constants this file reads.\<close>

record net_config =
  strip_tracking_params :: bool
  https_first :: bool
  max_redirects :: int
  cfg_user_agent :: cptr
  cfg_compat_mode :: cptr

section \<open>Schemes and the tracking-parameter filter\<close>

definition ns_url_is_http_or_https :: "cptr \<Rightarrow> bool" where
  "ns_url_is_http_or_https url =
     (case url of None \<Rightarrow> False
      | Some u \<Rightarrow> starts_with ''http://'' u \<or> starts_with ''https://'' u)"

definition tracking_exact :: "string list" where
  "tracking_exact =
     [''gclid'', ''dclid'', ''gbraid'', ''wbraid'',
      ''fbclid'', ''msclkid'', ''yclid'', ''twclid'', ''igshid'',
      ''mc_cid'', ''mc_eid'',
      ''_hsenc'', ''_hsmi'', ''__hssc'', ''__hstc'', ''__hsfp'', ''hsctatracking'',
      ''vero_id'', ''vero_conv'',
      ''oly_anon_id'', ''oly_enc_id'',
      ''_openstat'', ''wickedid'', ''rb_clickid'', ''s_cid'',
      ''ml_subscriber'', ''ml_subscriber_hash'',
      ''mtm_source'', ''mtm_medium'', ''mtm_campaign'', ''mtm_keyword'',
      ''mtm_cid'', ''mtm_content'', ''mtm_group'', ''mtm_placement'',
      ''pk_source'', ''pk_medium'', ''pk_campaign'', ''pk_keyword'',
      ''pk_cid'', ''pk_content'']"

definition ns_query_param_is_tracking :: "string \<Rightarrow> bool" where
  "ns_query_param_is_tracking key =
     (if key = [] then False
      else if 4 \<le> length key \<and> strncaseeq 4 key ''utm_'' then True
      else list_ex (\<lambda>e. length e = length key \<and> strcaseeq key e) tracking_exact)"

text \<open>The loop over the \<open>&\<close>-separated tokens of the query, with the kept
  text and the \<open>removed\<close> flag.\<close>

fun strip_tokens :: "string \<Rightarrow> bool \<Rightarrow> string list \<Rightarrow> string \<times> bool" where
  "strip_tokens kept removed [] = (kept, removed)"
| "strip_tokens kept removed (tok # toks) =
     (if ns_query_param_is_tracking (takeWhile (\<lambda>c. c \<noteq> CHR ''='') tok)
      then strip_tokens kept True toks
      else strip_tokens ((if kept \<noteq> [] then kept @ ''&'' else kept) @ tok) removed toks)"

definition ns_url_strip_tracking_params :: "net_config option \<Rightarrow> cptr \<Rightarrow> cptr" where
  "ns_url_strip_tracking_params cfg url_p =
     (case url_p of None \<Rightarrow> None | Some url \<Rightarrow>
      if \<not> ns_url_is_http_or_https (Some url) then None
      else (case cfg of None \<Rightarrow> None | Some c \<Rightarrow>
        if \<not> strip_tracking_params c then None
        else
          let upto = takeWhile (\<lambda>c. c \<noteq> CHR ''#'') url;
              frag = dropWhile (\<lambda>c. c \<noteq> CHR ''#'') url
          in case strchr upto CHR ''?'' of
               None \<Rightarrow> None
             | Some query \<Rightarrow>
                 let (kept, removed) =
                       strip_tokens [] False (split_on (\<lambda>c. c = CHR ''&'') (tl query))
                 in if \<not> removed then None
                    else Some (take (length upto - length query) upto
                           @ (if kept \<noteq> [] then ''?'' @ kept else [])
                           @ frag)))"

definition ns_url_is_ftp :: "cptr \<Rightarrow> bool" where
  "ns_url_is_ftp url = (case url of None \<Rightarrow> False | Some u \<Rightarrow> starts_with ''ftp://'' u)"

section \<open>The Refresh header\<close>

definition refresh_is_space :: "char \<Rightarrow> bool" where
  "refresh_is_space c = (c = SP \<or> c = HT \<or> c = LF \<or> c = FF \<or> c = CR)"

text \<open>The seconds are a \<open>double\<close> in the code; every value the loop holds is a
  whole number below \<open>2 ^ 53\<close>, so the arithmetic is exact.\<close>

fun refresh_seconds :: "nat \<Rightarrow> string \<Rightarrow> nat" where
  "refresh_seconds acc [] = acc"
| "refresh_seconds acc (d # ds) =
     (let s = acc * 10 + (code d - 48)
      in if s > 2147483647 then 2147483647 else refresh_seconds s ds)"

abbreviation skip_space :: "string \<Rightarrow> string" where
  "skip_space s \<equiv> dropWhile refresh_is_space s"

text \<open>The separator after the time; \<open>None\<close> is the early return.\<close>

definition refresh_separator :: "string \<Rightarrow> string option" where
  "refresh_separator p =
     (case p of [] \<Rightarrow> Some []
      | c # _ \<Rightarrow>
         if c \<noteq> CHR '';'' \<and> c \<noteq> CHR '','' \<and> \<not> refresh_is_space c then None
         else
           let q = skip_space p;
               r = (case q of [] \<Rightarrow> []
                    | d # ds \<Rightarrow> if d = CHR '';'' \<or> d = CHR '','' then ds else q)
           in Some (skip_space r))"

text \<open>The optional \<open>url =\<close>; without the equals sign the pointer stays.\<close>

definition refresh_url_prefix :: "string \<Rightarrow> string" where
  "refresh_url_prefix p =
     (if 3 \<le> length p \<and> strncaseeq 3 p ''url'' then
        (case skip_space (drop 3 p) of
           CHR ''='' # q \<Rightarrow> skip_space q
         | _ \<Rightarrow> p)
      else p)"

definition refresh_target :: "string \<Rightarrow> cptr" where
  "refresh_target p =
     (let url = (case p of [] \<Rightarrow> None
        | c # cs \<Rightarrow>
            if c = SQ \<or> c = DQ then
              Some (case strchr cs c of None \<Rightarrow> cs
                    | Some e \<Rightarrow> takeWhile (\<lambda>x. x \<noteq> c) cs)
            else Some (strchomp p))
      in if url = Some [] then None else url)"

definition ns_net_parse_refresh :: "cptr \<Rightarrow> (nat \<times> cptr) option" where
  "ns_net_parse_refresh input =
     (case input of None \<Rightarrow> None
      | Some i \<Rightarrow>
        let p0 = skip_space i;
            digits = takeWhile ascii_isdigit p0;
            p1 = dropWhile ascii_isdigit p0
        in if digits = [] \<and> (p1 = [] \<or> hd p1 \<noteq> CHR ''.'') then None
           else
             let seconds = refresh_seconds 0 digits;
                 p2 = dropWhile (\<lambda>c. c = CHR ''.'' \<or> ascii_isdigit c) p1
             in case refresh_separator p2 of
                  None \<Rightarrow> None
                | Some p3 \<Rightarrow> Some (seconds, refresh_target (refresh_url_prefix p3)))"

section \<open>Parsed URLs and origins\<close>

record ns_url_parts =
  href :: string
  protocol :: string
  origin :: string
  host :: string
  hostname :: string
  port :: string
  pathname :: string
  search :: string
  hash :: string
  username :: string
  password :: string

definition ns_url_parse_with_host :: "url_parser \<Rightarrow> string \<Rightarrow> lxb_url option" where
  "ns_url_parse_with_host lxb url =
     (case lxb None url of None \<Rightarrow> None
      | Some u \<Rightarrow>
         if u_host_type u = HostUndef \<or> u_host_type u = HostEmpty then None else Some u)"

text \<open>\<open>%u\<close> of a 16-bit port.\<close>

definition port_text :: "16 word \<Rightarrow> string" where
  "port_text w = dec_digits (unat w)"

definition ns_url_origin_from :: "url_parser \<Rightarrow> cptr \<Rightarrow> cptr" where
  "ns_url_origin_from lxb url_p =
     (case url_p of None \<Rightarrow> None | Some url \<Rightarrow>
      if url = [] then None
      else if \<not> ns_url_is_http_or_https (Some url) then None
      else case ns_url_parse_with_host lxb url of
             None \<Rightarrow> None
           | Some u \<Rightarrow>
               (case u_host u of None \<Rightarrow> None
                | Some h \<Rightarrow>
                    Some (u_scheme_name u @ ''://'' @ h
                      @ (case u_port u of None \<Rightarrow> [] | Some pt \<Rightarrow> CHR '':'' # port_text pt))))"

definition ns_url_same_origin :: "url_parser \<Rightarrow> cptr \<Rightarrow> cptr \<Rightarrow> bool" where
  "ns_url_same_origin lxb a b =
     (case (ns_url_origin_from lxb a, ns_url_origin_from lxb b) of
        (Some oa, Some ob) \<Rightarrow> oa \<noteq> [] \<and> ob \<noteq> [] \<and> strcaseeq oa ob
      | _ \<Rightarrow> False)"

definition ns_url_host_from :: "url_parser \<Rightarrow> cptr \<Rightarrow> cptr" where
  "ns_url_host_from lxb url_p =
     (case url_p of None \<Rightarrow> None | Some url \<Rightarrow>
      case ns_url_parse_with_host lxb url of
        None \<Rightarrow> None
      | Some u \<Rightarrow>
          (case u_host u of None \<Rightarrow> None | Some h \<Rightarrow> if h = [] then None else Some h))"

definition ns_url_resolve_len :: "url_parser \<Rightarrow> cptr \<Rightarrow> cptr \<Rightarrow> cptr" where
  "ns_url_resolve_len lxb base href_p =
     (case href_p of None \<Rightarrow> None | Some h \<Rightarrow>
      if h = [] \<and> (base = None \<or> base = Some []) then None
      else
        let resolve = (\<lambda>b. case lxb b h of None \<Rightarrow> None
               | Some u \<Rightarrow> (case u_href u of None \<Rightarrow> None
                    | Some s \<Rightarrow> if s = [] then None else Some s))
        in case base of
             None \<Rightarrow> resolve None
           | Some b \<Rightarrow>
               if b = [] then resolve None
               else (case lxb None b of None \<Rightarrow> None | Some bu \<Rightarrow> resolve (Some bu)))"

definition ns_url_resolve :: "url_parser \<Rightarrow> cptr \<Rightarrow> cptr \<Rightarrow> cptr" where
  "ns_url_resolve lxb base href_p = ns_url_resolve_len lxb base href_p"

definition ns_url_to_ascii :: "url_parser \<Rightarrow> cptr \<Rightarrow> cptr" where
  "ns_url_to_ascii lxb url_p =
     (case url_p of None \<Rightarrow> None | Some url \<Rightarrow>
      if url = [] then None
      else if starts_with ''data:'' url \<or> starts_with ''about:'' url \<or> starts_with ''file:'' url
      then Some url
      else ns_url_resolve lxb None (Some url))"

definition ns_url_take_serialized :: "cptr \<Rightarrow> string" where
  "ns_url_take_serialized s = (case s of None \<Rightarrow> [] | Some t \<Rightarrow> t)"

definition is_tuple_scheme :: "string \<Rightarrow> bool" where
  "is_tuple_scheme pr =
     (pr = ''http:'' \<or> pr = ''https:'' \<or> pr = ''ws:'' \<or> pr = ''wss:'' \<or> pr = ''ftp:'')"

text \<open>All fields of \<open>ns_url_parts_new_depth\<close> except the blob origin.\<close>

definition url_parts_plain :: "string \<Rightarrow> lxb_url \<Rightarrow> ns_url_parts" where
  "url_parts_plain url u =
     (let hr = ns_url_take_serialized (u_href u);
          scheme = ns_url_take_serialized (u_scheme u);
          pr = (if scheme \<noteq> [] then scheme @ '':'' else []);
          hn = (if u_host_type u = HostUndef \<or> u_host_type u = HostEmpty then []
                else ns_url_take_serialized (u_host u));
          pt = (case u_port u of None \<Rightarrow> [] | Some w \<Rightarrow> port_text w);
          ho = (if hn \<noteq> [] \<and> pt \<noteq> [] then hn @ '':'' @ pt else hn)
      in \<lparr> href = (if hr = [] then url else hr),
           protocol = pr,
           origin = (if hn \<noteq> [] \<and> is_tuple_scheme pr then pr @ ''//'' @ ho else ''null''),
           host = ho, hostname = hn, port = pt,
           pathname = ns_url_take_serialized (u_path u),
           search = (if u_query u \<noteq> [] then ''?'' @ u_query u else []),
           hash = (if u_fragment u \<noteq> [] then ''#'' @ u_fragment u else []),
           username = u_username u, password = u_password u \<rparr>)"

text \<open>The recursion on the path of a blob URL goes one level deep: the inner
  call has \<open>depth = 1\<close> and does not recurse.\<close>

fun ns_url_parts_new_depth :: "url_parser \<Rightarrow> bool \<Rightarrow> cptr \<Rightarrow> ns_url_parts option" where
  "ns_url_parts_new_depth lxb depth0 None = None"
| "ns_url_parts_new_depth lxb depth0 (Some url) =
     (case lxb None url of None \<Rightarrow> None
      | Some u \<Rightarrow>
         let p = url_parts_plain url u
         in if depth0 \<and> protocol p = ''blob:'' \<and> pathname p \<noteq> [] then
              (case lxb None (pathname p) of
                 None \<Rightarrow> Some p
               | Some v \<Rightarrow>
                   let inner = url_parts_plain (pathname p) v
                   in if protocol inner = ''http:'' \<or> protocol inner = ''https:''
                      then Some (p \<lparr> origin := origin inner \<rparr>) else Some p)
            else Some p)"

definition ns_url_parts_new :: "url_parser \<Rightarrow> cptr \<Rightarrow> ns_url_parts option" where
  "ns_url_parts_new lxb url = ns_url_parts_new_depth lxb True url"

definition ns_url_is_valid_absolute :: "url_parser \<Rightarrow> cptr \<Rightarrow> bool" where
  "ns_url_is_valid_absolute lxb url_p =
     (case url_p of None \<Rightarrow> False | Some url \<Rightarrow>
      if url = [] then False
      else if list_ex refresh_is_space url then False
      else case ns_url_parts_new lxb url_p of None \<Rightarrow> False | Some p \<Rightarrow> protocol p \<noteq> [])"

section \<open>Sites\<close>

definition ns_url_site_from :: "url_parser \<Rightarrow> (string \<Rightarrow> cptr) \<Rightarrow> cptr \<Rightarrow> cptr" where
  "ns_url_site_from lxb psl url_p =
     (if url_p = None \<or> url_p = Some [] then None
      else case ns_url_parts_new lxb url_p of
        None \<Rightarrow> None
      | Some p \<Rightarrow>
          let site_host = (case psl (strdown (hostname p)) of
                 Some r \<Rightarrow> if r \<noteq> [] then r else hostname p
               | None \<Rightarrow> hostname p)
          in Some (protocol p @ ''://'' @ site_host
                @ (if port p \<noteq> [] then CHR '':'' # port p else [])))"

text \<open>\<open>a\<close> is a proper subdomain of \<open>b\<close>: the tests on the two lengths.\<close>

definition host_below :: "string \<Rightarrow> string \<Rightarrow> bool" where
  "host_below a b =
     (length a > length b + 1
      \<and> a ! (length a - length b - 1) = CHR ''.''
      \<and> strcaseeq (drop (length a - length b) a) b)"

definition ns_url_is_same_site ::
    "url_parser \<Rightarrow> (string \<Rightarrow> cptr) \<Rightarrow> cptr \<Rightarrow> cptr \<Rightarrow> bool" where
  "ns_url_is_same_site lxb psl a b =
     (if a = None \<or> b = None then False
      else case (ns_url_site_from lxb psl a, ns_url_site_from lxb psl b) of
        (Some sa, Some sb) \<Rightarrow> strcaseeq sa sb
      | _ \<Rightarrow>
         (case (ns_url_host_from lxb a, ns_url_host_from lxb b) of
            (Some ha, Some hb) \<Rightarrow>
               if strcaseeq ha hb then True
               else if host_below ha hb then True
               else host_below hb ha
          | _ \<Rightarrow> False))"

section \<open>The referrer\<close>

datatype ns_referer_policy =
    RefererNoReferrer | RefererSameOrigin | RefererStrictOriginWhenCross | RefererUnsafeUrl

definition ns_net_referer_for ::
    "url_parser \<Rightarrow> cptr \<Rightarrow> cptr \<Rightarrow> ns_referer_policy \<Rightarrow> cptr" where
  "ns_net_referer_for lxb url top_url policy =
     (if top_url = None \<or> top_url = Some [] \<or> \<not> ns_url_is_http_or_https url
         \<or> \<not> ns_url_is_http_or_https top_url \<or> policy = RefererNoReferrer then None
      else if starts_with ''https://'' (the top_url) \<and> starts_with ''http://'' (the url) then None
      else
        let same_origin = ns_url_same_origin lxb top_url url
        in if policy = RefererSameOrigin \<and> \<not> same_origin then None
           else if policy = RefererUnsafeUrl \<or> same_origin then
             (case ns_url_parts_new lxb top_url of
                None \<Rightarrow> None
              | Some p \<Rightarrow> if origin p = [] then None
                          else Some (origin p @ pathname p @ search p))
           else (case ns_url_origin_from lxb top_url of
                   None \<Rightarrow> None | Some og \<Rightarrow> Some (og @ ''/'')))"

section \<open>HSTS and https-first\<close>

type_synonym hsts_cache = "string \<Rightarrow> nat option"

text \<open>One line of the file: the host up to the first space; a leading dot is
  the mode 2, which covers the subdomains.\<close>

definition hsts_line :: "string \<Rightarrow> hsts_cache \<Rightarrow> hsts_cache" where
  "hsts_line raw tab =
     (let line = strstrip raw
      in if line = [] \<or> hd line = CHR ''#'' then tab
         else case strchr line SP of
                None \<Rightarrow> tab
              | Some _ \<Rightarrow>
                 let name = takeWhile (\<lambda>c. c \<noteq> SP) line;
                     subs = (name \<noteq> [] \<and> hd name = CHR ''.'');
                     hst = (if subs then tl name else name)
                 in if hst = [] then tab
                    else tab(strdown hst \<mapsto> (if subs then 2 else 1)))"

definition ns_hsts_cache_reload :: "cptr \<Rightarrow> hsts_cache" where
  "ns_hsts_cache_reload content =
     (case content of None \<Rightarrow> Map.empty
      | Some c \<Rightarrow> fold hsts_line (strsplit LF c) Map.empty)"

text \<open>The loop over the dots of the host, \<open>dot\<close> the rest from the last parent.\<close>

function hsts_parents :: "hsts_cache \<Rightarrow> string \<Rightarrow> bool" where
  "hsts_parents tab dot =
     (case strchr dot CHR ''.'' of
        None \<Rightarrow> False
      | Some r \<Rightarrow> if tab (tl r) = Some 2 then True else hsts_parents tab (tl r))"
  by pat_completeness auto
termination
proof (relation "measure (\<lambda>(tab, dot). length dot)", goal_cases)
  case (2 tab dot r)
  from 2(1) obtain t where r: "r = CHR ''.'' # t"
      "dot = takeWhile (\<lambda>x. x \<noteq> CHR ''.'') dot @ CHR ''.'' # t"
    by (rule strchr_SomeD)
  from arg_cong [where f = length, OF r(2)] have "length t < length dot"
    by (simp only: length_append list.size)
  with r(1) show ?case by simp
qed simp

declare hsts_parents.simps [simp del]

definition ns_hsts_lookup :: "hsts_cache \<Rightarrow> string \<Rightarrow> bool" where
  "ns_hsts_lookup tab lower_host = (tab lower_host \<noteq> None \<or> hsts_parents tab lower_host)"

text \<open>The cache of the file with the modification time it was read at.\<close>

record hsts_state =
  hs_cache :: "hsts_cache option"
  hs_mtime :: int

text \<open>\<open>file\<close> is the modification time and the content on disk; \<open>stat\<close> of a
  missing file gives 0.\<close>

definition ns_net_hsts_should_upgrade ::
    "int \<times> cptr \<Rightarrow> hsts_state \<Rightarrow> cptr \<Rightarrow> bool \<times> hsts_state" where
  "ns_net_hsts_should_upgrade file st host_p =
     (case host_p of None \<Rightarrow> (False, st)
      | Some h \<Rightarrow>
        if h = [] then (False, st)
        else
          let st' = (if hs_cache st = None \<or> fst file \<noteq> hs_mtime st
                     then \<lparr> hs_cache = Some (ns_hsts_cache_reload (snd file)),
                            hs_mtime = fst file \<rparr>
                     else st);
              lower = rev (dropWhile (\<lambda>c. c = CHR ''.'') (rev (strdown h)))
          in (ns_hsts_lookup (the (hs_cache st')) lower, st'))"

definition ns_net_hsts_upgrade ::
    "url_parser \<Rightarrow> int \<times> cptr \<Rightarrow> hsts_state \<Rightarrow> cptr \<Rightarrow> cptr \<times> hsts_state" where
  "ns_net_hsts_upgrade lxb file st url_p =
     (case url_p of None \<Rightarrow> (None, st)
      | Some url \<Rightarrow>
        if \<not> starts_with ''http://'' url then (None, st)
        else case ns_url_host_from lxb url_p of
               None \<Rightarrow> (None, st)
             | Some h \<Rightarrow>
                let (upgrade, st') = ns_net_hsts_should_upgrade file st (Some h)
                in (if upgrade then Some (''https://'' @ drop 7 url) else None, st'))"

definition str_has_suffix :: "string \<Rightarrow> string \<Rightarrow> bool" where
  "str_has_suffix s suf = (length suf \<le> length s \<and> drop (length s - length suf) s = suf)"

definition ns_host_is_loopback :: "string \<Rightarrow> bool" where
  "ns_host_is_loopback h =
     (strcaseeq h ''localhost'' \<or> str_has_suffix h ''.localhost''
      \<or> h = ''127.0.0.1'' \<or> h = ''::1'' \<or> h = ''[::1]'')"

definition ns_net_https_first_upgrade :: "url_parser \<Rightarrow> net_config option \<Rightarrow> cptr \<Rightarrow> cptr" where
  "ns_net_https_first_upgrade lxb cfg url_p =
     (case cfg of None \<Rightarrow> None | Some c \<Rightarrow>
      if \<not> https_first c then None
      else case url_p of None \<Rightarrow> None | Some url \<Rightarrow>
        if \<not> starts_with ''http://'' url then None
        else case ns_url_host_from lxb url_p of None \<Rightarrow> None | Some h \<Rightarrow>
          if ns_host_is_loopback h then None
          else Some (''https://'' @ drop 7 url))"

text \<open>\<open>X-Content-Type-Options\<close>: the tokens between commas and blanks.\<close>

definition nosniff_sep :: "char \<Rightarrow> bool" where
  "nosniff_sep c = (c = SP \<or> c = HT \<or> c = CHR '','')"

function nosniff_scan :: "string \<Rightarrow> bool" where
  "nosniff_scan p =
     (if p = [] then False
      else
        let s = dropWhile nosniff_sep p;
            tok = takeWhile (\<lambda>c. \<not> nosniff_sep c) s;
            rest = dropWhile (\<lambda>c. \<not> nosniff_sep c) s
        in if length tok = 7 \<and> strcaseeq tok ''nosniff'' then True
           else nosniff_scan rest)"
  by pat_completeness auto
termination
proof (relation "measure length", goal_cases)
  case (2 p)
  let ?s = "dropWhile nosniff_sep p"
  have "length (dropWhile (\<lambda>c. \<not> nosniff_sep c) ?s) < length p"
  proof (cases ?s)
    case Nil
    from 2 have "p \<noteq> []" by simp
    then show ?thesis by (simp only: Nil dropWhile.simps list.size length_greater_0_conv not_False_eq_True)
  next
    case (Cons c cs)
    then have "\<not> nosniff_sep c" using hd_dropWhile [of nosniff_sep p] by auto
    then have "length (dropWhile (\<lambda>c. \<not> nosniff_sep c) ?s) \<le> length cs"
      using Cons by (simp add: length_dropWhile_le)
    moreover have "length ?s \<le> length p" by (rule length_dropWhile_le)
    ultimately show ?thesis using Cons by simp
  qed
  with 2 show ?case by simp
qed simp

definition ns_net_header_is_nosniff :: "cptr \<Rightarrow> bool" where
  "ns_net_header_is_nosniff v =
     (case v of None \<Rightarrow> False | Some s \<Rightarrow> if s = [] then False else nosniff_scan s)"

section \<open>What the tracking filter removes\<close>

abbreviation amp :: "char \<Rightarrow> bool" where
  "amp c \<equiv> c = CHR ''&''"

abbreviation token_tracks :: "string \<Rightarrow> bool" where
  "token_tracks tok \<equiv> ns_query_param_is_tracking (takeWhile (\<lambda>c. c \<noteq> CHR ''='') tok)"

abbreviation kept_tokens :: "string list \<Rightarrow> string list" where
  "kept_tokens toks \<equiv> dropWhile (\<lambda>t. t = []) (filter (\<lambda>t. \<not> token_tracks t) toks)"

definition keep_token :: "string \<Rightarrow> string \<Rightarrow> string" where
  "keep_token kept tok = (if kept \<noteq> [] then kept @ ''&'' else kept) @ tok"

lemma keep_token_simps [simp]:
  "keep_token [] tok = tok"
  "kept \<noteq> [] \<Longrightarrow> keep_token kept tok = kept @ CHR ''&'' # tok"
  by (simp_all add: keep_token_def)

lemma strip_tokens_foldl:
  "strip_tokens kept removed toks =
     (foldl keep_token kept (filter (\<lambda>t. \<not> token_tracks t) toks),
      removed \<or> list_ex token_tracks toks)"
  by (induction kept removed toks rule: strip_tokens.induct) (simp_all add: keep_token_def)

lemma foldl_keep_token:
  "foldl keep_token [] ts = strjoin ''&'' (dropWhile (\<lambda>t. t = []) ts)
   \<and> (foldl keep_token [] ts = [] \<longleftrightarrow> (\<forall>t\<in>set ts. t = []))"
proof (induction ts rule: rev_induct)
  case (snoc t ts)
  show ?case
  proof (cases "\<forall>t\<in>set ts. t = []")
    case True
    then have "dropWhile (\<lambda>t. t = []) (ts @ [t]) = dropWhile (\<lambda>t. t = []) [t]"
      by (simp add: dropWhile_append2)
    moreover have "foldl keep_token [] ts = []" using snoc True by blast
    moreover have "strjoin ''&'' (dropWhile (\<lambda>t. t = []) ts) = []"
      using snoc True by metis
    ultimately show ?thesis using True by simp
  next
    case False
    then have "dropWhile (\<lambda>t. t = []) (ts @ [t]) = dropWhile (\<lambda>t. t = []) ts @ [t]"
      "dropWhile (\<lambda>t. t = []) ts \<noteq> []"
      by (auto simp: dropWhile_append1 dropWhile_eq_Nil_conv)
    moreover have "foldl keep_token [] ts \<noteq> []"
      "foldl keep_token [] ts = strjoin ''&'' (dropWhile (\<lambda>t. t = []) ts)"
      using snoc False by blast+
    moreover have "foldl keep_token [] (ts @ [t]) = foldl keep_token [] ts @ CHR ''&'' # t"
      using calculation(3) by simp
    ultimately show ?thesis using False by (metis strjoin_snoc append_Cons append_Nil append_is_Nil_conv
      in_set_conv_decomp list.distinct(1) Un_iff set_append)
  qed
qed simp

lemma strip_tokens_eq:
  "strip_tokens [] False toks = (strjoin ''&'' (kept_tokens toks), list_ex token_tracks toks)"
  by (simp add: strip_tokens_foldl foldl_keep_token)

lemma kept_tokens_clean: "t \<in> set (kept_tokens toks) \<Longrightarrow> t \<in> set toks \<and> \<not> token_tracks t"
  by (auto dest: set_dropWhileD)

lemma strjoin_kept_nonempty:
  "strjoin ''&'' (kept_tokens toks) = [] \<Longrightarrow> kept_tokens toks = []"
  using foldl_keep_token [of "filter (\<lambda>t. \<not> token_tracks t) toks"]
  by (auto simp: dropWhile_eq_Nil_conv)

lemma strip_rejoined_clean:
  assumes "kept_tokens (split_on amp q) \<noteq> []"
  shows "\<not> list_ex token_tracks (split_on amp (strjoin ''&'' (kept_tokens (split_on amp q))))"
proof -
  have "split_on amp (strjoin ''&'' (kept_tokens (split_on amp q))) = kept_tokens (split_on amp q)"
    using assms by (intro split_on_strjoin) (auto dest: kept_tokens_clean split_on_no_delim)
  then show ?thesis by (auto simp: list_ex_iff dest: kept_tokens_clean)
qed

text \<open>The three parts the filter cuts an address into.\<close>

lemma strip_on_parts:
  assumes "CHR ''?'' \<notin> set pre" "CHR ''#'' \<notin> set pre" "CHR ''#'' \<notin> set q"
    "frag = [] \<or> hd frag = CHR ''#''"
    "ns_url_is_http_or_https (Some (pre @ CHR ''?'' # q @ frag))" "strip_tracking_params c"
  shows "ns_url_strip_tracking_params (Some c) (Some (pre @ CHR ''?'' # q @ frag)) =
    (if list_ex token_tracks (split_on amp q)
     then let k = strjoin ''&'' (kept_tokens (split_on amp q))
          in Some (pre @ (if k \<noteq> [] then ''?'' @ k else []) @ frag)
     else None)"
proof -
  have up: "takeWhile (\<lambda>c. c \<noteq> CHR ''#'') (pre @ CHR ''?'' # q @ frag) = pre @ CHR ''?'' # q"
    and fr: "dropWhile (\<lambda>c. c \<noteq> CHR ''#'') (pre @ CHR ''?'' # q @ frag) = frag"
    using assms(2-4) by (cases frag; auto simp: takeWhile_append dropWhile_append)+
  have "strchr (pre @ CHR ''?'' # q) CHR ''?'' = Some (CHR ''?'' # q)"
    using assms(1) by (rule strchr_append)
  then show ?thesis
    unfolding ns_url_strip_tracking_params_def Let_def option.case up fr
    using assms(5,6) by (simp add: strip_tokens_eq)
qed

lemma cut_at_char:
  "s = takeWhile (\<lambda>c. c \<noteq> x) s @ dropWhile (\<lambda>c. c \<noteq> x) s
   \<and> x \<notin> set (takeWhile (\<lambda>c. c \<noteq> x) s)
   \<and> (dropWhile (\<lambda>c. c \<noteq> x) s = [] \<or> hd (dropWhile (\<lambda>c. c \<noteq> x) s) = x)"
  using hd_dropWhile [of "\<lambda>c. c \<noteq> x" s] set_takeWhileD [of x "\<lambda>c. c \<noteq> x" s]
  by (auto simp only: takeWhile_dropWhile_id)

lemma strip_SomeE:
  assumes "ns_url_strip_tracking_params cfg (Some u) = Some v"
  obtains c pre q frag where "cfg = Some c" "strip_tracking_params c"
    "u = pre @ CHR ''?'' # q @ frag" "CHR ''?'' \<notin> set pre" "CHR ''#'' \<notin> set pre"
    "CHR ''#'' \<notin> set q" "frag = [] \<or> hd frag = CHR ''#''"
    "ns_url_is_http_or_https (Some u)"
proof -
  define up where "up = takeWhile (\<lambda>c. c \<noteq> CHR ''#'') u"
  define fr where "fr = dropWhile (\<lambda>c. c \<noteq> CHR ''#'') u"
  have cut: "u = up @ fr" "CHR ''#'' \<notin> set up" "fr = [] \<or> hd fr = CHR ''#''"
    using cut_at_char [of u "CHR ''#''"] unfolding up_def fr_def by blast+
  note d = assms [unfolded ns_url_strip_tracking_params_def Let_def option.case, folded up_def fr_def]
  from d have http: "ns_url_is_http_or_https (Some u)" by (simp split: if_splits)
  with d obtain c where c: "cfg = Some c" "strip_tracking_params c"
    by (cases cfg) (simp_all split: if_splits)
  with d http obtain r where r: "strchr up CHR ''?'' = Some r"
    by (cases "strchr up CHR ''?''") simp_all
  then obtain q where q: "up = takeWhile (\<lambda>x. x \<noteq> CHR ''?'') up @ CHR ''?'' # q"
    by (rule strchr_SomeD) blast
  define pre where "pre = takeWhile (\<lambda>x. x \<noteq> CHR ''?'') up"
  have up: "up = pre @ CHR ''?'' # q" using q unfolding pre_def by simp
  have "CHR ''?'' \<notin> set pre" using cut_at_char [of up "CHR ''?''"] unfolding pre_def by blast
  moreover have "u = pre @ CHR ''?'' # q @ fr" using cut(1) up by simp
  moreover have "CHR ''#'' \<notin> set pre" "CHR ''#'' \<notin> set q" using cut(2) up by auto
  ultimately show ?thesis using that c cut(3) http by blast
qed

lemma strip_no_query:
  assumes "CHR ''?'' \<notin> set pre" "CHR ''#'' \<notin> set pre" "frag = [] \<or> hd frag = CHR ''#''"
  shows "ns_url_strip_tracking_params cfg (Some (pre @ frag)) = None"
proof -
  have up: "takeWhile (\<lambda>c. c \<noteq> CHR ''#'') (pre @ frag) = pre"
    using assms(2,3) by (cases frag; auto simp: takeWhile_append)
  have "strchr pre CHR ''?'' = None" using assms(1) by (simp add: strchr_None_iff)
  then show ?thesis
    unfolding ns_url_strip_tracking_params_def by (auto simp: up Let_def split: option.split)
qed

text \<open>When the tracking filter rewrites an address, the new address is
  the old one with the query replaced by its non-tracking parameters in their
  order (empty parameters before the first kept one are dropped, the whole query
  when none is left), the part before the query and the fragment are unchanged,
  and filtering the result again finds nothing to remove.\<close>

theorem strip_tracking_exact:
  assumes "ns_url_strip_tracking_params cfg (Some u) = Some v"
  shows "\<exists>pre q frag. u = pre @ ''?'' @ q @ frag
     \<and> CHR ''?'' \<notin> set pre \<and> CHR ''#'' \<notin> set (pre @ q)
     \<and> (frag = [] \<or> hd frag = CHR ''#'')
     \<and> (let kept = strjoin ''&'' (dropWhile (\<lambda>t. t = []) (filter (\<lambda>t. \<not> token_tracks t)
                        (split_on amp q)))
        in v = pre @ (if kept \<noteq> [] then ''?'' @ kept else []) @ frag)
     \<and> ns_url_strip_tracking_params cfg (Some v) = None"
proof -
  from assms obtain c pre q frag where p: "cfg = Some c" "strip_tracking_params c"
    "u = pre @ CHR ''?'' # q @ frag" "CHR ''?'' \<notin> set pre" "CHR ''#'' \<notin> set pre"
    "CHR ''#'' \<notin> set q" "frag = [] \<or> hd frag = CHR ''#''"
    "ns_url_is_http_or_https (Some u)"
    by (rule strip_SomeE)
  let ?k = "strjoin ''&'' (kept_tokens (split_on amp q))"
  have v: "v = pre @ (if ?k \<noteq> [] then ''?'' @ ?k else []) @ frag"
    using assms strip_on_parts [OF p(4-7), of c] p(1,2,3,8)
    by (simp add: Let_def split: if_splits)
  have hash: "CHR ''#'' \<notin> set ?k"
    using set_strjoin [of "''&''" "kept_tokens (split_on amp q)"] p(6)
    by (auto dest!: kept_tokens_clean set_split_on)
  have "ns_url_strip_tracking_params cfg (Some v) = None"
  proof (cases "?k = []")
    case True
    then show ?thesis using v strip_no_query [OF p(4,5,7)] by simp
  next
    case False
    then have "kept_tokens (split_on amp q) \<noteq> []" by (metis strjoin.simps(1))
    then have "\<not> list_ex token_tracks (split_on amp ?k)" by (rule strip_rejoined_clean)
    moreover have "v = pre @ CHR ''?'' # ?k @ frag" using v False by simp
    ultimately show ?thesis
      using strip_on_parts [OF p(4,5) hash p(7), of c] p(1,2)
      by (cases "ns_url_is_http_or_https (Some v)")
        (simp_all add: ns_url_strip_tracking_params_def)
  qed
  with p v show ?thesis by (auto simp: Let_def)
qed

theorem strip_tracking_exact_witness:
  "\<exists>pre q frag. ''http://a/?utm_x=1&b=2#f'' = pre @ ''?'' @ q @ frag
     \<and> CHR ''?'' \<notin> set pre \<and> CHR ''#'' \<notin> set (pre @ q)
     \<and> (frag = [] \<or> hd frag = CHR ''#'')
     \<and> (let kept = strjoin ''&'' (dropWhile (\<lambda>t. t = []) (filter (\<lambda>t. \<not> token_tracks t)
                        (split_on amp q)))
        in ''http://a/?b=2#f'' = pre @ (if kept \<noteq> [] then ''?'' @ kept else []) @ frag)
     \<and> ns_url_strip_tracking_params
         (Some \<lparr> strip_tracking_params = True, https_first = False, max_redirects = 20,
                 cfg_user_agent = None, cfg_compat_mode = None \<rparr>)
         (Some ''http://a/?b=2#f'') = None"
  by (rule strip_tracking_exact [where u = "''http://a/?utm_x=1&b=2#f''"]) code_simp

section \<open>Origins and sites as relations\<close>

locale symmetric_relation =
  fixes rel :: "'a \<Rightarrow> 'a \<Rightarrow> bool"
  assumes rel_sym: "rel a b \<Longrightarrow> rel b a"
begin

lemma rel_commute: "rel a b \<longleftrightarrow> rel b a"
  using rel_sym by blast

end

locale origin_relation = symmetric_relation +
  assumes rel_trans: "rel a b \<Longrightarrow> rel b c \<Longrightarrow> rel a c"
begin

lemma rel_refl_left: "rel a b \<Longrightarrow> rel a a"
  using rel_sym rel_trans by blast

lemma rel_cong: "rel a b \<Longrightarrow> rel a c \<longleftrightarrow> rel b c"
  using rel_sym rel_trans by blast

end

lemma same_origin_iff:
  "ns_url_same_origin lxb a b \<longleftrightarrow>
     (\<exists>oa ob. ns_url_origin_from lxb a = Some oa \<and> ns_url_origin_from lxb b = Some ob
        \<and> strcaseeq oa ob)"
proof -
  have "\<And>x v. ns_url_origin_from lxb x = Some v \<Longrightarrow> v \<noteq> []"
    by (auto simp: ns_url_origin_from_def split: option.splits if_splits)
  then show ?thesis
    unfolding ns_url_same_origin_def
    by (cases "ns_url_origin_from lxb a"; cases "ns_url_origin_from lxb b") auto
qed

interpretation same_origin: origin_relation "\<lambda>a b. ns_url_same_origin lxb a b"
    for lxb :: url_parser
  by unfold_locales (auto simp: same_origin_iff strcaseeq_def)

interpretation same_site: symmetric_relation "\<lambda>a b. ns_url_is_same_site lxb psl a b"
    for lxb :: url_parser and psl :: "string \<Rightarrow> cptr"
proof
  fix a b
  assume "ns_url_is_same_site lxb psl a b"
  then show "ns_url_is_same_site lxb psl b a"
    unfolding ns_url_is_same_site_def
    by (cases "ns_url_site_from lxb psl a"; cases "ns_url_site_from lxb psl b";
        cases "ns_url_host_from lxb a"; cases "ns_url_host_from lxb b")
      (simp_all add: strcaseeq_def split: if_splits)
qed

text \<open>What the code relies on in a parsed URL: the scheme has no colon and is
  what \<open>lxb_url_serialize_scheme\<close> writes; a host that is present is not empty,
  and one with a colon is a bracketed IPv6 address.\<close>

definition lexbor_url_ok :: "lxb_url \<Rightarrow> bool" where
  "lexbor_url_ok u =
     (u_scheme_name u \<noteq> [] \<and> CHR '':'' \<notin> set (u_scheme_name u)
      \<and> u_scheme u = Some (u_scheme_name u)
      \<and> (\<forall>h. u_host u = Some h \<longrightarrow>
           h \<noteq> [] \<and> (CHR '':'' \<in> set h \<longrightarrow> last h = CHR '']'')))"

text \<open>Lower case keeps the characters that separate the parts of an origin.\<close>

lemma tolower_colon: "ascii_tolower c = CHR '':'' \<longleftrightarrow> c = CHR '':''"
proof
  assume "ascii_tolower c = CHR '':''"
  then have "code (ascii_tolower c) = (58 :: nat)" by simp
  then have "code c = (58 :: nat)" unfolding code_tolower by (simp split: if_splits)
  then have "(char_of (code c :: nat) :: char) = char_of (58 :: nat)" by simp
  also have "(char_of (58 :: nat) :: char) = CHR '':''" by code_simp
  finally show "c = CHR '':''" by simp
qed (simp add: ascii_tolower_def ascii_isupper_def)

lemma tolower_bracket: "ascii_tolower CHR '']'' = CHR '']''"
  by (simp add: ascii_tolower_def ascii_isupper_def)

lemma colon_in_strdown: "CHR '':'' \<in> set (strdown s) \<longleftrightarrow> CHR '':'' \<in> set s"
proof -
  have "CHR '':'' \<in> set (strdown s) \<longleftrightarrow> (\<exists>c\<in>set s. ascii_tolower c = CHR '':'')"
    by (simp add: image_iff eq_commute)
  then show ?thesis by (simp add: tolower_colon)
qed

lemma append_eq_at_char:
  "c \<notin> set a \<Longrightarrow> c \<notin> set b \<Longrightarrow> a @ c # r = b @ c # t \<Longrightarrow> a = b \<and> r = t"
proof (induction a arbitrary: b)
  case Nil
  then show ?case by (cases b) auto
next
  case (Cons x a)
  then show ?case by (cases b) auto
qed

lemma tolower_digit: "ascii_isdigit c \<Longrightarrow> ascii_tolower c = c"
  by (simp add: ascii_isdigit_def ascii_tolower_def ascii_isupper_def)

lemma strdown_port_text [simp]: "strdown (port_text w) = port_text w"
  unfolding port_text_def
  by (rule map_idI) (auto dest: dec_digits_all_digits tolower_digit)

lemma port_text_digits: "c \<in> set (port_text w) \<Longrightarrow> ascii_isdigit c"
  unfolding port_text_def by (rule dec_digits_all_digits)

definition port_suffix :: "16 word option \<Rightarrow> string" where
  "port_suffix p = (case p of None \<Rightarrow> [] | Some w \<Rightarrow> CHR '':'' # port_text w)"

lemma strdown_port_suffix [simp]: "strdown (port_suffix p) = port_suffix p"
  by (auto simp: port_suffix_def tolower_colon [of "CHR '':''", simplified] split: option.split)

text \<open>A host that is not confused with a port: the text before a port
  suffix determines host and port.\<close>

lemma host_port_inject:
  assumes "CHR '':'' \<in> set h \<longrightarrow> last h = CHR '']''" "CHR '':'' \<in> set k \<longrightarrow> last k = CHR '']''"
    and eq: "h @ port_suffix p = k @ port_suffix q"
  shows "h = k \<and> port_suffix p = port_suffix q"
proof -
  have nodig: "\<not> ascii_isdigit CHR '':''" "\<not> ascii_isdigit CHR '']''"
    by (simp_all add: ascii_isdigit_def)
  have clash: "False" if "x = y @ CHR '':'' # port_text w"
      "CHR '':'' \<in> set x \<longrightarrow> last x = CHR '']''" for x y w
  proof -
    have "last x = last (port_text w)" "port_text w \<noteq> []"
      using that(1) by (simp_all add: port_text_def)
    then have "ascii_isdigit (last x)" using port_text_digits [of "last x" w] by simp
    with that nodig(2) show False by auto
  qed
  show ?thesis
  proof (cases p; cases q)
    fix v w assume pq: "p = Some v" "q = Some w"
    have "rev (port_text v) @ CHR '':'' # rev h = rev (port_text w) @ CHR '':'' # rev k"
      using arg_cong [where f = rev, OF eq] by (simp add: pq port_suffix_def)
    moreover have "CHR '':'' \<notin> set (rev (port_text v))" "CHR '':'' \<notin> set (rev (port_text w))"
      using port_text_digits nodig(1) by auto
    ultimately have "rev (port_text v) = rev (port_text w) \<and> rev h = rev k"
      by (intro append_eq_at_char)
    then show ?thesis by (simp add: pq port_suffix_def)
  qed (use eq assms(1,2) clash in \<open>auto simp: port_suffix_def\<close>)
qed

lemma last_strdown_bracket:
  "last h = CHR '']'' \<Longrightarrow> h \<noteq> [] \<Longrightarrow> last (strdown h) = CHR '']''"
  by (simp add: last_map tolower_bracket)

lemma same_origin_parts:
  assumes ok: "\<And>s u. lxb None s = Some u \<Longrightarrow> lexbor_url_ok u"
    and "ns_url_origin_from lxb (Some a) = Some oa"
  obtains u h where "lxb None a = Some u" "u_host_type u \<noteq> HostUndef" "u_host_type u \<noteq> HostEmpty"
    "u_host u = Some h" "lexbor_url_ok u"
    "oa = u_scheme_name u @ ''://'' @ h @ port_suffix (u_port u)" "a \<noteq> []"
  using assms(2) ok
  by (auto simp: ns_url_origin_from_def ns_url_parse_with_host_def port_suffix_def
      split: option.splits if_splits)

lemma site_of_http_url:
  assumes "lxb None a = Some u" "u_host_type u \<noteq> HostUndef" "u_host_type u \<noteq> HostEmpty"
    "u_host u = Some h" "lexbor_url_ok u" "a \<noteq> []" "u_scheme_name u @ '':'' \<noteq> ''blob:''"
  shows "ns_url_site_from lxb psl (Some a) =
    Some (u_scheme_name u @ ''::/'' @ ''/''
      @ (case psl (strdown h) of Some r \<Rightarrow> if r \<noteq> [] then r else h | None \<Rightarrow> h)
      @ port_suffix (u_port u))"
proof -
  have "port_text w \<noteq> []" for w by (simp add: port_text_def)
  with assms show ?thesis
    by (simp add: ns_url_site_from_def ns_url_parts_new_def url_parts_plain_def Let_def
        ns_url_take_serialized_def lexbor_url_ok_def port_suffix_def split: option.split)
qed

text \<open>Two http(s) addresses of the same origin are of the same site, so
  cookies and caches partitioned by site never separate documents the origin
  check treats as one, whatever the public-suffix list says.\<close>

theorem same_origin_implies_same_site:
  assumes ok: "\<And>s u. lxb None s = Some u \<Longrightarrow> lexbor_url_ok u"
    and http: "\<And>s u. lxb None s = Some u \<Longrightarrow> ns_url_is_http_or_https (Some s)
          \<Longrightarrow> u_scheme_name u \<in> {''http'', ''https''}"
    and same: "ns_url_same_origin lxb (Some a) (Some b)"
  shows "ns_url_is_same_site lxb psl (Some a) (Some b)"
proof -
  from same obtain oa ob where o: "ns_url_origin_from lxb (Some a) = Some oa"
      "ns_url_origin_from lxb (Some b) = Some ob" "strdown oa = strdown ob"
    by (auto simp: same_origin_iff strcaseeq_def)
  have web: "ns_url_is_http_or_https (Some a)" "ns_url_is_http_or_https (Some b)"
    using o(1,2) by (auto simp: ns_url_origin_from_def split: if_splits)
  obtain u h where u: "lxb None a = Some u" "u_host_type u \<noteq> HostUndef"
      "u_host_type u \<noteq> HostEmpty" "u_host u = Some h" "lexbor_url_ok u"
      "oa = u_scheme_name u @ ''://'' @ h @ port_suffix (u_port u)" "a \<noteq> []"
    by (rule same_origin_parts [OF ok o(1)])
  obtain v k where v: "lxb None b = Some v" "u_host_type v \<noteq> HostUndef"
      "u_host_type v \<noteq> HostEmpty" "u_host v = Some k" "lexbor_url_ok v"
      "ob = u_scheme_name v @ ''://'' @ k @ port_suffix (u_port v)" "b \<noteq> []"
    by (rule same_origin_parts [OF ok o(2)])
  let ?d = "\<lambda>x. strdown (u_scheme_name x)"
  have "?d u @ CHR '':'' # ''//'' @ strdown h @ port_suffix (u_port u)
      = ?d v @ CHR '':'' # ''//'' @ strdown k @ port_suffix (u_port v)"
    using o(3) unfolding u(6) v(6)
    by (simp add: ascii_tolower_def ascii_isupper_def)
  then have "?d u = ?d v \<and> ''//'' @ strdown h @ port_suffix (u_port u)
      = ''//'' @ strdown k @ port_suffix (u_port v)"
    using u(5) v(5) unfolding lexbor_url_ok_def
    by (intro append_eq_at_char) (simp_all only: colon_in_strdown not_False_eq_True)
  then have d: "?d u = ?d v"
    and hp: "strdown h @ port_suffix (u_port u) = strdown k @ port_suffix (u_port v)"
    by simp_all
  have brk: "CHR '':'' \<in> set (strdown h) \<longrightarrow> last (strdown h) = CHR '']''"
    "CHR '':'' \<in> set (strdown k) \<longrightarrow> last (strdown k) = CHR '']''"
    using u(4,5) v(4,5) last_strdown_bracket
    by (simp_all only: colon_in_strdown lexbor_url_ok_def) blast+
  from host_port_inject [OF brk hp] have hk: "strdown h = strdown k"
    "port_suffix (u_port u) = port_suffix (u_port v)" by simp_all
  have notblob: "u_scheme_name u @ '':'' \<noteq> ''blob:''" "u_scheme_name v @ '':'' \<noteq> ''blob:''"
    using http [OF u(1) web(1)] http [OF v(1) web(2)] by auto
  show ?thesis
    unfolding ns_url_is_same_site_def
    using site_of_http_url [of lxb a u h psl, OF u(1-5,7) notblob(1)]
      site_of_http_url [of lxb b v k psl, OF v(1-5,7) notblob(2)] d hk
    by (cases "psl (strdown k)") (simp_all add: strcaseeq_def)
qed

text \<open>A small parser for concrete runs: \<open>scheme://host/path\<close> with an
  optional query.\<close>

definition example_lxb :: url_parser where
  "example_lxb base s =
     (case strstr s ''://'' of None \<Rightarrow> None
      | Some r \<Rightarrow>
         let sch = take (length s - length r) s;
             body = drop 3 r;
             h = takeWhile (\<lambda>c. c \<noteq> CHR ''/'') body;
             rest = dropWhile (\<lambda>c. c \<noteq> CHR ''/'') body
         in if sch \<in> {''http'', ''https''} \<and> starts_with (sch @ ''://'') s \<and> CHR '':'' \<notin> set h
            then Some \<lparr> u_href = Some s, u_scheme_name = sch, u_scheme = Some sch,
                  u_host_type = (if h = [] then HostEmpty else HostOther),
                  u_host = (if h = [] then None else Some h), u_port = None,
                  u_path = Some (takeWhile (\<lambda>c. c \<noteq> CHR ''?'') rest),
                  u_query = drop 1 (dropWhile (\<lambda>c. c \<noteq> CHR ''?'') rest),
                  u_fragment = [], u_username = [], u_password = [] \<rparr>
            else None)"

lemma example_lxb_ok:
  assumes "example_lxb b s = Some u"
  shows "lexbor_url_ok u" "u_scheme_name u \<in> {''http'', ''https''}"
  using assms
  by (auto simp: example_lxb_def lexbor_url_ok_def Let_def split: option.splits if_splits)

theorem same_origin_implies_same_site_witness:
  "ns_url_is_same_site example_lxb (\<lambda>h. None)
     (Some ''https://a.org/x'') (Some ''https://A.ORG/y?q'')"
proof (rule same_origin_implies_same_site)
  show "ns_url_same_origin example_lxb (Some ''https://a.org/x'') (Some ''https://A.ORG/y?q'')"
    by code_simp
qed (auto dest: example_lxb_ok)

section \<open>What the HSTS file covers\<close>

text \<open>The reference reading of the file: the entries of its lines, the last
  entry of a name winning, and what an entry covers.\<close>

definition hsts_entry :: "string \<Rightarrow> (string \<times> nat) option" where
  "hsts_entry raw =
     (let line = strstrip raw; name = takeWhile (\<lambda>c. c \<noteq> SP) line
      in if line = [] \<or> hd line = CHR ''#'' \<or> SP \<notin> set line then None
         else if name = [] \<or> name = ''.'' then None
         else if hd name = CHR ''.'' then Some (strdown (tl name), 2)
         else Some (strdown name, 1))"

definition hsts_entries :: "string \<Rightarrow> (string \<times> nat) list" where
  "hsts_entries content = concat (map (\<lambda>l. case hsts_entry l of None \<Rightarrow> [] | Some e \<Rightarrow> [e])
     (split_on (\<lambda>c. c = LF) content))"

definition hsts_covers :: "string \<times> nat \<Rightarrow> string \<Rightarrow> bool" where
  "hsts_covers e h = (h = fst e \<or> (snd e = 2 \<and> (\<exists>pre. h = pre @ CHR ''.'' # fst e)))"

lemma hsts_line_entry:
  "hsts_line raw tab = (case hsts_entry raw of None \<Rightarrow> tab | Some (n, m) \<Rightarrow> tab(n \<mapsto> m))"
proof -
  define line where "line = strstrip raw"
  define name where "name = takeWhile (\<lambda>c. c \<noteq> SP) line"
  have none: "strchr line SP = None \<longleftrightarrow> SP \<notin> set line" by (rule strchr_None_iff)
  show ?thesis
    unfolding hsts_line_def hsts_entry_def Let_def line_def [symmetric] name_def [symmetric]
    using none by (cases "strchr line SP"; cases name) auto
qed

lemma fold_hsts_line:
  "fold hsts_line ls tab =
     tab ++ map_of (rev (concat (map (\<lambda>l. case hsts_entry l of None \<Rightarrow> [] | Some e \<Rightarrow> [e]) ls)))"
proof (induction ls arbitrary: tab)
  case (Cons l ls)
  show ?case
    by (cases "hsts_entry l")
      (auto simp: Cons.IH hsts_line_entry [of l] map_add_def fun_eq_iff split: option.splits)
qed simp

lemma hsts_reload_entries:
  "ns_hsts_cache_reload (Some content) = map_of (rev (hsts_entries content))"
proof (cases "content = []")
  case True
  then show ?thesis
    by (simp add: ns_hsts_cache_reload_def strsplit_set_def hsts_entries_def hsts_entry_def
        strstrip_def strchug_def strchomp_def)
next
  case False
  then show ?thesis
    by (simp add: ns_hsts_cache_reload_def strsplit_set_def hsts_entries_def fold_hsts_line)
qed

lemma hsts_parents_iff:
  "hsts_parents tab h \<longleftrightarrow> (\<exists>pre par. h = pre @ CHR ''.'' # par \<and> tab par = Some 2)"
proof (induction tab h rule: hsts_parents.induct)
  case (1 tab h)
  show ?case
  proof (cases "strchr h CHR ''.''")
    case None
    then have "\<not> hsts_parents tab h" by (simp add: hsts_parents.simps [of tab h])
    moreover have "CHR ''.'' \<notin> set h" using None by (simp add: strchr_None_iff)
    ultimately show ?thesis by auto
  next
    case (Some r)
    then obtain t where t: "r = CHR ''.'' # t"
        "h = takeWhile (\<lambda>x. x \<noteq> CHR ''.'') h @ CHR ''.'' # t"
      by (rule strchr_SomeD)
    define u where "u = takeWhile (\<lambda>x. x \<noteq> CHR ''.'') h"
    have u: "CHR ''.'' \<notin> set u" "h = u @ CHR ''.'' # t"
      using t(2) cut_at_char [of h "CHR ''.''"] unfolding u_def by blast+
    have step: "hsts_parents tab h \<longleftrightarrow> tab t = Some 2 \<or> hsts_parents tab t"
      using Some t(1) by (simp add: hsts_parents.simps [of tab h])
    have split: "(\<exists>pre par. h = pre @ CHR ''.'' # par \<and> tab par = Some 2)
        \<longleftrightarrow> tab t = Some 2 \<or> (\<exists>pre par. t = pre @ CHR ''.'' # par \<and> tab par = Some 2)"
    proof
      assume "\<exists>pre par. h = pre @ CHR ''.'' # par \<and> tab par = Some 2"
      then obtain pre par where p: "u @ CHR ''.'' # t = pre @ CHR ''.'' # par" "tab par = Some 2"
        using u(2) by auto
      then show "tab t = Some 2 \<or> (\<exists>pre par. t = pre @ CHR ''.'' # par \<and> tab par = Some 2)"
        using u(1) by (auto simp: append_eq_append_conv2 append_eq_Cons_conv Cons_eq_append_conv)
    next
      assume "tab t = Some 2 \<or> (\<exists>pre par. t = pre @ CHR ''.'' # par \<and> tab par = Some 2)"
      then show "\<exists>pre par. h = pre @ CHR ''.'' # par \<and> tab par = Some 2"
        using u(2) by (metis append_Cons append_assoc)
    qed
    show ?thesis
    proof (cases "tab t = Some 2")
      case False
      have "hsts_parents tab t = (\<exists>pre par. t = pre @ CHR ''.'' # par \<and> tab par = Some 2)"
        using "1.IH" [OF Some] t(1) False by simp
      with step split show ?thesis by simp
    qed (use step split in simp)
  qed
qed

lemma hsts_lookup_iff:
  "ns_hsts_lookup tab h \<longleftrightarrow>
     (\<exists>n m. tab n = Some m \<and> hsts_covers (n, m) h)"
  unfolding ns_hsts_lookup_def hsts_parents_iff hsts_covers_def by auto

abbreviation hsts_host :: "string \<Rightarrow> string" where
  "hsts_host h \<equiv> rev (dropWhile (\<lambda>c. c = CHR ''.'') (rev (strdown h)))"

lemma should_upgrade_stale:
  "hs_cache st = None \<or> m \<noteq> hs_mtime st \<Longrightarrow> h \<noteq> [] \<Longrightarrow>
   ns_net_hsts_should_upgrade (m, Some content) st (Some h) =
     (ns_hsts_lookup (map_of (rev (hsts_entries content))) (hsts_host h),
      \<lparr> hs_cache = Some (map_of (rev (hsts_entries content))), hs_mtime = m \<rparr>)"
  by (simp add: ns_net_hsts_should_upgrade_def hsts_reload_entries)

lemma should_upgrade_fresh:
  "h \<noteq> [] \<Longrightarrow>
   ns_net_hsts_should_upgrade (m, c) \<lparr> hs_cache = Some tab, hs_mtime = m \<rparr> (Some h) =
     (ns_hsts_lookup tab (hsts_host h), \<lparr> hs_cache = Some tab, hs_mtime = m \<rparr>)"
  by (simp add: ns_net_hsts_should_upgrade_def)

text \<open>(C39) HSTS upgrades exactly the plain-http addresses whose host, in
  lower case and without trailing dots, is covered by the last entry the file
  has for some name: the name itself, or its subdomains for an entry written
  with a leading dot. The upgraded address differs in its scheme only, and the
  cached table is the one of the file the next time the file is unchanged.\<close>

theorem hsts_upgrade_exact:
  assumes stale: "hs_cache st = None \<or> m \<noteq> hs_mtime st"
    and host: "ns_url_host_from lxb (Some url) = Some h"
  shows "let low = rev (dropWhile (\<lambda>c. c = CHR ''.'') (rev (strdown h)));
             covered = (\<exists>n k. map_of (rev (hsts_entries content)) n = Some k
                          \<and> hsts_covers (n, k) low);
             (out, st') = ns_net_hsts_upgrade lxb (m, Some content) st (Some url)
         in out = (if starts_with ''http://'' url \<and> covered
                   then Some (''https://'' @ drop 7 url) else None)
            \<and> fst (ns_net_hsts_upgrade lxb (m, Some content) st' (Some url)) = out"
proof -
  have "h \<noteq> []"
    using host by (auto simp: ns_url_host_from_def split: option.splits if_splits)
  then show ?thesis
    using host
    by (cases "starts_with ''http://'' url")
      (simp_all add: ns_net_hsts_upgrade_def should_upgrade_stale [OF stale] should_upgrade_fresh
        hsts_lookup_iff)
qed

text \<open>(C40) What a referrer can reveal: two documents of the same origin send
  the same referrer to a cross-origin address, whatever their paths and
  queries, unless the policy is \<open>unsafe-url\<close>; in the other cases it depends on
  nothing but the origin, the path and the query, never on the fragment or the
  credentials. A secure document sends none to a plain-http address.\<close>

theorem referer_reveals_only:
  assumes "ns_url_is_http_or_https (Some t)" "ns_url_is_http_or_https (Some t')"
    and "starts_with ''https://'' t = starts_with ''https://'' t'"
    and "ns_url_origin_from lxb (Some t) = ns_url_origin_from lxb (Some t')"
    and "policy = RefererUnsafeUrl \<or> ns_url_same_origin lxb (Some t) url \<Longrightarrow>
      map_option (\<lambda>p. (origin p, pathname p, search p)) (ns_url_parts_new lxb (Some t))
      = map_option (\<lambda>p. (origin p, pathname p, search p)) (ns_url_parts_new lxb (Some t'))"
  shows "ns_net_referer_for lxb url (Some t) policy = ns_net_referer_for lxb url (Some t') policy
    \<and> (starts_with ''https://'' t \<longrightarrow> starts_with ''http://'' (the url)
       \<longrightarrow> ns_net_referer_for lxb url (Some t) policy = None)"
proof -
  have ne: "t \<noteq> []" "t' \<noteq> []"
    using assms(1,2) by (auto simp: ns_url_is_http_or_https_def)
  have so: "ns_url_same_origin lxb (Some t) url = ns_url_same_origin lxb (Some t') url"
    using assms(4) by (simp add: ns_url_same_origin_def)
  show ?thesis
    unfolding ns_net_referer_for_def Let_def
    using assms ne so
    by (cases "ns_url_parts_new lxb (Some t)"; cases "ns_url_parts_new lxb (Some t')";
        cases "policy = RefererUnsafeUrl \<or> ns_url_same_origin lxb (Some t) url") simp_all
qed

theorem hsts_upgrade_exact_witness:
  "let low = rev (dropWhile (\<lambda>c. c = CHR ''.'') (rev (strdown ''x.A.org'')));
       covered = (\<exists>n k. map_of (rev (hsts_entries ''.a.org 20300101'')) n = Some k
                    \<and> hsts_covers (n, k) low);
       (out, st') = ns_net_hsts_upgrade example_lxb (7, Some ''.a.org 20300101'')
                      \<lparr> hs_cache = None, hs_mtime = 0 \<rparr> (Some ''http://x.A.org/p'')
   in out = (if starts_with ''http://'' ''http://x.A.org/p'' \<and> covered
             then Some (''https://'' @ drop 7 ''http://x.A.org/p'') else None)
      \<and> fst (ns_net_hsts_upgrade example_lxb (7, Some ''.a.org 20300101'') st'
               (Some ''http://x.A.org/p'')) = out"
  by (rule hsts_upgrade_exact) code_simp+

theorem referer_reveals_only_witness:
  "ns_net_referer_for example_lxb (Some ''https://b/'') (Some ''https://a/x?id=1'')
     RefererStrictOriginWhenCross
   = ns_net_referer_for example_lxb (Some ''https://b/'') (Some ''https://a/y'')
     RefererStrictOriginWhenCross"
proof -
  have "\<not> (RefererStrictOriginWhenCross = RefererUnsafeUrl
      \<or> ns_url_same_origin example_lxb (Some ''https://a/x?id=1'') (Some ''https://b/''))"
    by code_simp
  then show ?thesis
    by (intro referer_reveals_only [THEN conjunct1]) (code_simp, code_simp, code_simp, code_simp, blast)
qed

end
