(* ===== verification/Net_Cookies.thy ===== *)
theory Net_Cookies
  imports Net_Url "HOL-Library.AList"
begin

text \<open>
  The cookie store of \<open>src/src/net.c\<close> (\<open>ns_cookie_collect\<close>,
  \<open>ns_cookie_store_impl\<close>): Netscape cookie files, two for each site, one that
  the HTTP layer writes and one for the cookies scripts set.

  The cookie directory is a map from file names to contents. SHA-256, the
  date parser of curl and the public-suffix list are the parameters \<open>sha\<close>,
  \<open>getdate\<close>, \<open>psl\<close> and \<open>is_suffix\<close>; \<open>now\<close> is the clock in seconds.
\<close>

type_synonym cookie_dir = "string \<Rightarrow> cptr"

section \<open>Library routines\<close>

text \<open>\<open>g_strsplit\<close> with at most \<open>n + 1\<close> parts, on a text that is not empty.\<close>

fun split_upto :: "nat \<Rightarrow> char \<Rightarrow> string \<Rightarrow> string list" where
  "split_upto 0 d s = [s]"
| "split_upto (Suc n) d s =
     (if d \<in> set s
      then takeWhile (\<lambda>c. c \<noteq> d) s # split_upto n d (tl (dropWhile (\<lambda>c. c \<noteq> d) s))
      else [s])"

definition cookie_fields :: "string \<Rightarrow> string list" where
  "cookie_fields line = (if line = [] then [] else split_upto 6 HT line)"

definition trim_end :: "string \<Rightarrow> string" where
  "trim_end s = rev (dropWhile is_blank (rev s))"

definition trim_blank :: "string \<Rightarrow> string" where
  "trim_blank s = trim_end (dropWhile is_blank s)"

text \<open>Signed 64-bit addition; the code adds without a check.\<close>

definition add64 :: "int \<Rightarrow> int \<Rightarrow> int" where
  "add64 a b = sint (word_of_int (a + b) :: 64 word)"

section \<open>File names\<close>

definition ns_net_cookie_path_for_partition :: "(string \<Rightarrow> string) \<Rightarrow> string \<Rightarrow> string" where
  "ns_net_cookie_path_for_partition sha topo =
     take 32 (sha (if topo \<noteq> [] then topo else ''default'')) @ ''.txt''"

definition ns_net_cookie_js_path_for_partition :: "(string \<Rightarrow> string) \<Rightarrow> string \<Rightarrow> string" where
  "ns_net_cookie_js_path_for_partition sha topo =
     take 32 (sha (if topo \<noteq> [] then topo else ''default'')) @ ''.js.txt''"

section \<open>Reading cookies\<close>

definition cookie_domain_match :: "string \<Rightarrow> string \<Rightarrow> bool" where
  "cookie_domain_match hst cdomain =
     (if cdomain \<noteq> [] \<and> hd cdomain = CHR ''.'' then
        (length hst \<ge> length cdomain
          \<and> strcaseeq (drop (length hst - length cdomain) hst) cdomain)
        \<or> strcaseeq hst (tl cdomain)
      else strcaseeq hst cdomain)"

definition cookie_path_match :: "string \<Rightarrow> string \<Rightarrow> bool" where
  "cookie_path_match path cpath =
     (if cpath = [] then True
      else if \<not> starts_with cpath path then False
      else \<not> (length cpath < length path \<and> path ! length cpath \<noteq> CHR ''/''
              \<and> last cpath \<noteq> CHR ''/''))"

text \<open>One line of a cookie file; the result is the pair it contributes.\<close>

definition cookie_line ::
    "bool \<Rightarrow> string \<Rightarrow> string \<Rightarrow> bool \<Rightarrow> int \<Rightarrow> string \<Rightarrow> (string \<times> string) option" where
  "cookie_line include_httponly hst path is_https now raw =
     (let line0 = strchomp raw in
      if line0 = [] then None
      else
        let line = (if hd line0 = CHR ''#''
              then (if include_httponly \<and> starts_with ''#HttpOnly_'' line0
                    then Some (drop 10 line0) else None)
              else Some line0)
        in case line of None \<Rightarrow> None
           | Some l \<Rightarrow>
             let f = cookie_fields l in
             if length f < 7 then None
             else
               let csecure = strcaseeq (f ! 3) ''TRUE'';
                   cexpiry = strtol10 (f ! 4)
               in if cookie_domain_match hst (f ! 0) \<and> cookie_path_match path (f ! 2)
                     \<and> \<not> (csecure \<and> \<not> is_https)
                     \<and> \<not> (cexpiry \<noteq> 0 \<and> cexpiry < now)
                     \<and> f ! 5 \<noteq> []
                  then Some (f ! 5, f ! 6) else None)"

text \<open>The table keeps the order of the first insertion of each name.\<close>

definition add_cookie ::
    "(string \<times> string) option \<Rightarrow> (string \<times> string) list \<Rightarrow> (string \<times> string) list" where
  "add_cookie c tab = (case c of None \<Rightarrow> tab | Some (n, v) \<Rightarrow> AList.update n v tab)"

definition cookie_file_pass ::
    "bool \<Rightarrow> string \<Rightarrow> string \<Rightarrow> bool \<Rightarrow> int \<Rightarrow> cptr \<Rightarrow>
     (string \<times> string) list \<Rightarrow> (string \<times> string) list" where
  "cookie_file_pass include_httponly hst path is_https now contents tab =
     (case contents of None \<Rightarrow> tab
      | Some c \<Rightarrow>
         fold (\<lambda>l. add_cookie (cookie_line include_httponly hst path is_https now l))
           (strsplit LF c) tab)"

definition cookie_render :: "(string \<times> string) list \<Rightarrow> string" where
  "cookie_render tab =
     foldl (\<lambda>out (n, v). (if out \<noteq> [] then out @ ''; '' else out) @ n @ ''='' @ v) [] tab"

definition ns_cookie_pairs ::
    "url_parser \<Rightarrow> (string \<Rightarrow> cptr) \<Rightarrow> (string \<Rightarrow> string) \<Rightarrow> int \<Rightarrow> cookie_dir \<Rightarrow>
     cptr \<Rightarrow> bool \<Rightarrow> (string \<times> string) list" where
  "ns_cookie_pairs lxb psl sha now dir url include_httponly =
     (if url = None \<or> url = Some [] then []
      else case ns_url_parts_new lxb url of None \<Rightarrow> []
      | Some parts \<Rightarrow>
        if hostname parts = [] then []
        else
          let path = (if pathname parts \<noteq> [] then pathname parts else ''/'');
              is_https = strcaseeq (protocol parts) ''https:''
          in case ns_url_site_from lxb psl url of None \<Rightarrow> []
             | Some site \<Rightarrow>
               if site = [] then []
               else
                 cookie_file_pass include_httponly (hostname parts) path is_https now
                   (dir (ns_net_cookie_js_path_for_partition sha site))
                   (cookie_file_pass include_httponly (hostname parts) path is_https now
                     (dir (ns_net_cookie_path_for_partition sha site)) []))"

definition ns_cookie_collect ::
    "url_parser \<Rightarrow> (string \<Rightarrow> cptr) \<Rightarrow> (string \<Rightarrow> string) \<Rightarrow> int \<Rightarrow> cookie_dir \<Rightarrow>
     cptr \<Rightarrow> bool \<Rightarrow> cptr" where
  "ns_cookie_collect lxb psl sha now dir url include_httponly =
     (let out = cookie_render (ns_cookie_pairs lxb psl sha now dir url include_httponly)
      in if out = [] then None else Some out)"

definition ns_net_cookies_for_js where
  "ns_net_cookies_for_js lxb psl sha now dir url = ns_cookie_collect lxb psl sha now dir url False"

definition ns_net_cookies_for_request where
  "ns_net_cookies_for_request lxb psl sha now dir url = ns_cookie_collect lxb psl sha now dir url True"

section \<open>The attributes of a cookie\<close>

record cookie_attrs =
  a_domain :: cptr
  a_path :: cptr
  a_secure :: bool
  a_has_expiry :: bool
  a_expired :: bool
  a_httponly :: bool
  a_expiry :: int

definition no_attrs :: cookie_attrs where
  "no_attrs = \<lparr> a_domain = None, a_path = None, a_secure = False, a_has_expiry = False,
     a_expired = False, a_httponly = False, a_expiry = 0 \<rparr>"

text \<open>One attribute; \<open>seg\<close> is the text up to the semicolon without trailing
  blanks.\<close>

definition cookie_attr :: "(string \<Rightarrow> int option) \<Rightarrow> int \<Rightarrow> string \<Rightarrow> cookie_attrs \<Rightarrow> cookie_attrs" where
  "cookie_attr getdate now seg st =
     (let key = takeWhile (\<lambda>c. c \<noteq> CHR ''='') seg;
          aeq = CHR ''='' \<in> set seg;
          av = dropWhile is_blank (tl (dropWhile (\<lambda>c. c \<noteq> CHR ''='') seg))
      in if strcaseeq key ''secure'' then st \<lparr> a_secure := True \<rparr>
         else if strcaseeq key ''httponly'' then st \<lparr> a_httponly := True \<rparr>
         else if strcaseeq key ''max-age'' \<and> aeq then
           (if strtoll_any av then
              let ma = strtol10 av
              in st \<lparr> a_has_expiry := True, a_expired := (ma \<le> 0),
                      a_expiry := (if ma > 0 then add64 now ma else a_expiry st) \<rparr>
            else st)
         else if strcaseeq key ''expires'' \<and> aeq \<and> \<not> a_has_expiry st then
           (case getdate av of None \<Rightarrow> st
            | Some t \<Rightarrow> st \<lparr> a_has_expiry := True, a_expiry := t,
                            a_expired := (if t \<le> now then True else a_expired st) \<rparr>)
         else if strcaseeq key ''domain'' \<and> aeq then st \<lparr> a_domain := Some av \<rparr>
         else if strcaseeq key ''path'' \<and> aeq then st \<lparr> a_path := Some av \<rparr>
         else st)"

definition attr_skip :: "char \<Rightarrow> bool" where
  "attr_skip c = (c = CHR '';'' \<or> c = SP \<or> c = HT)"

function cookie_attr_loop ::
    "(string \<Rightarrow> int option) \<Rightarrow> int \<Rightarrow> string \<Rightarrow> cookie_attrs \<Rightarrow> cookie_attrs" where
  "cookie_attr_loop getdate now p st =
     (let q = dropWhile attr_skip p
      in if q = [] then st
         else
           let seg = trim_end (takeWhile (\<lambda>c. c \<noteq> CHR '';'') q);
               st' = cookie_attr getdate now seg st
           in if CHR '';'' \<in> set q
              then cookie_attr_loop getdate now (tl (dropWhile (\<lambda>c. c \<noteq> CHR '';'') q)) st'
              else st')"
  by pat_completeness auto
termination
proof (relation "measure (\<lambda>(g, n, p, st). length p)", goal_cases)
  case (2 getdate now p st q)
  have "length (dropWhile (\<lambda>c. c \<noteq> CHR '';'') q) \<le> length q" "length q \<le> length p"
    using 2(1) by (simp_all add: length_dropWhile_le)
  moreover have "0 < length q" using 2(2) by simp
  ultimately have "length (dropWhile (\<lambda>c. c \<noteq> CHR '';'') q) - 1 < length p" by arith
  then show ?case by simp
qed simp

declare cookie_attr_loop.simps [simp del]

section \<open>Storing a cookie\<close>

text \<open>Name and value of the pair before the first semicolon.\<close>

definition cookie_pair :: "string \<Rightarrow> (string \<times> string) option" where
  "cookie_pair cookie =
     (let pair = takeWhile (\<lambda>c. c \<noteq> CHR '';'') cookie
      in if CHR ''='' \<notin> set pair \<or> hd pair = CHR ''='' then None
         else
           let name = trim_blank (takeWhile (\<lambda>c. c \<noteq> CHR ''='') pair);
               val = trim_blank (tl (dropWhile (\<lambda>c. c \<noteq> CHR ''='') pair))
           in if name = [] then None else Some (name, val))"

definition cookie_attributes :: "(string \<Rightarrow> int option) \<Rightarrow> int \<Rightarrow> string \<Rightarrow> cookie_attrs" where
  "cookie_attributes getdate now cookie =
     cookie_attr_loop getdate now (dropWhile (\<lambda>c. c \<noteq> CHR '';'') cookie) no_attrs"

definition has_attr :: "cptr \<Rightarrow> bool" where
  "has_attr v = (v \<noteq> None \<and> v \<noteq> Some [])"

text \<open>The checks on \<open>Secure\<close> and on the name prefixes.\<close>

definition cookie_prefix_ok :: "string \<Rightarrow> bool \<Rightarrow> cookie_attrs \<Rightarrow> bool" where
  "cookie_prefix_ok name is_https at =
     (if a_secure at \<and> \<not> is_https then False
      else if 9 \<le> length name \<and> strncaseeq 9 name ''__Secure-''
              \<and> \<not> (a_secure at \<and> is_https) then False
      else if 7 \<le> length name \<and> strncaseeq 7 name ''__Host-''
              \<and> (\<not> a_secure at \<or> \<not> is_https \<or> has_attr (a_domain at)
                 \<or> (has_attr (a_path at) \<and> a_path at \<noteq> Some ''/'')) then False
      else True)"

text \<open>The domain and the tail-match flag written to the file; \<open>None\<close> refuses
  the cookie.\<close>

definition cookie_file_domain ::
    "(string \<Rightarrow> bool) \<Rightarrow> string \<Rightarrow> cookie_attrs \<Rightarrow> (string \<times> string) option" where
  "cookie_file_domain is_suffix hst at =
     (if has_attr (a_domain at) then
        let da = the (a_domain at);
            d = (if hd da = CHR ''.'' then tl da else da);
            ok = (strcaseeq hst d
                  \<or> (length hst > length d \<and> hst ! (length hst - length d - 1) = CHR ''.''
                     \<and> strcaseeq (drop (length hst - length d) hst) d))
        in if \<not> ok \<or> d = [] then None
           else if is_suffix (strdown d) then None
           else Some (CHR ''.'' # d, ''TRUE'')
      else Some (hst, ''FALSE''))"

definition last_slash_prefix :: "string \<Rightarrow> string" where
  "last_slash_prefix p =
     (let pre = rev (tl (dropWhile (\<lambda>c. c \<noteq> CHR ''/'') (rev p)))
      in if CHR ''/'' \<notin> set p \<or> pre = [] then ''/'' else pre)"

definition cookie_file_path :: "string \<Rightarrow> cookie_attrs \<Rightarrow> string" where
  "cookie_file_path request_path at =
     (case a_path at of
        Some pa \<Rightarrow> if pa \<noteq> [] \<and> hd pa = CHR ''/'' then pa else last_slash_prefix request_path
      | None \<Rightarrow> last_slash_prefix request_path)"

text \<open>One line of the old file: whether it is kept and whether it is an
  \<open>HttpOnly\<close> cookie that a script must not replace.\<close>

definition same_cookie :: "string \<Rightarrow> string \<Rightarrow> string \<Rightarrow> string list \<Rightarrow> bool" where
  "same_cookie fd path name f =
     (strcaseeq (f ! 0) fd \<and> f ! 2 = path \<and> f ! 5 = name)"

definition jar_line ::
    "bool \<Rightarrow> string \<Rightarrow> string \<Rightarrow> string \<Rightarrow> int \<Rightarrow> string \<Rightarrow> bool \<times> bool" where
  "jar_line from_http fd path name now line =
     (if line = [] then (False, False)
      else if hd line = CHR ''#'' then
        (let m = (starts_with ''#HttpOnly_'' line
              \<and> (let hf = cookie_fields (drop 10 line)
                 in length hf \<ge> 7 \<and> same_cookie fd path name hf))
         in (\<not> (m \<and> from_http), m \<and> \<not> from_http))
      else
        let f = cookie_fields line
        in if length f < 7 then (False, False)
           else let cexp = strtol10 (f ! 4)
                in (\<not> same_cookie fd path name f \<and> \<not> (cexp \<noteq> 0 \<and> cexp < now), False))"

definition jar_step ::
    "bool \<Rightarrow> string \<Rightarrow> string \<Rightarrow> string \<Rightarrow> int \<Rightarrow> string \<times> bool \<Rightarrow> string \<Rightarrow> string \<times> bool" where
  "jar_step from_http fd path name now st line =
     (let (keep, blk) = jar_line from_http fd path name now line
      in (if keep then fst st @ line @ [LF] else fst st, snd st \<or> blk))"

definition jar_rewrite ::
    "bool \<Rightarrow> string \<Rightarrow> string \<Rightarrow> string \<Rightarrow> int \<Rightarrow> cptr \<Rightarrow> string \<times> bool" where
  "jar_rewrite from_http fd path name now contents =
     (case contents of None \<Rightarrow> ([], False)
      | Some c \<Rightarrow> foldl (jar_step from_http fd path name now) ([], False) (strsplit LF c))"

definition jar_entry ::
    "bool \<Rightarrow> string \<Rightarrow> string \<Rightarrow> string \<Rightarrow> cookie_attrs \<Rightarrow> string \<Rightarrow> string \<Rightarrow> string" where
  "jar_entry from_http fd tail path at name val =
     (if from_http \<and> a_httponly at then ''#HttpOnly_'' else []) @ fd @ [HT] @ tail @ [HT]
       @ path @ [HT] @ (if a_secure at then ''TRUE'' else ''FALSE'') @ [HT]
       @ int_digits (a_expiry at) @ [HT] @ name @ [HT] @ val @ [LF]"

definition ns_cookie_store_impl ::
    "url_parser \<Rightarrow> (string \<Rightarrow> cptr) \<Rightarrow> (string \<Rightarrow> bool) \<Rightarrow> (string \<Rightarrow> string) \<Rightarrow>
     (string \<Rightarrow> int option) \<Rightarrow> int \<Rightarrow> cookie_dir \<Rightarrow> cptr \<Rightarrow> cptr \<Rightarrow> bool \<Rightarrow> cookie_dir" where
  "ns_cookie_store_impl lxb psl is_suffix sha getdate now dir url_p cookie_p from_http =
     (case (url_p, cookie_p) of
        (Some url, Some cookie) \<Rightarrow>
          if url = [] \<or> \<not> ns_url_is_http_or_https (Some url) then dir
          else if list_ex (\<lambda>c. code c < (32 :: nat)) cookie then dir
          else (case ns_url_parts_new lxb (Some url) of None \<Rightarrow> dir
          | Some parts \<Rightarrow>
            if hostname parts = [] then dir
            else (case cookie_pair cookie of None \<Rightarrow> dir
            | Some (name, val) \<Rightarrow>
              let at = cookie_attributes getdate now cookie;
                  is_https = strcaseeq (protocol parts) ''https:''
              in if \<not> cookie_prefix_ok name is_https at then dir
                 else (case cookie_file_domain is_suffix (hostname parts) at of None \<Rightarrow> dir
                 | Some (fd, tail) \<Rightarrow>
                   let path = cookie_file_path (pathname parts) at
                   in (case ns_url_site_from lxb psl (Some url) of None \<Rightarrow> dir
                   | Some site \<Rightarrow>
                     if site = [] then dir
                     else
                       let jar = (if from_http then ns_net_cookie_path_for_partition sha site
                                  else ns_net_cookie_js_path_for_partition sha site);
                           (out, blocked) = jar_rewrite from_http fd path name now (dir jar)
                       in dir(jar \<mapsto> (if \<not> a_expired at \<and> \<not> blocked
                                     then out @ jar_entry from_http fd tail path at name val
                                     else out))))))
      | _ \<Rightarrow> dir)"

definition ns_net_cookie_store_from_js where
  "ns_net_cookie_store_from_js lxb psl is_suffix sha getdate now dir url cookie =
     ns_cookie_store_impl lxb psl is_suffix sha getdate now dir url cookie False"

definition ns_net_store_set_cookie where
  "ns_net_store_set_cookie lxb psl is_suffix sha getdate now dir url cookie =
     ns_cookie_store_impl lxb psl is_suffix sha getdate now dir url cookie True"

section \<open>Which file a cookie may change\<close>

lemma store_changed:
  assumes "ns_cookie_store_impl lxb psl is_suffix sha getdate now dir (Some url) (Some cookie) from_http f
            \<noteq> dir f"
  obtains parts name val fd tail site where
    "ns_url_is_http_or_https (Some url)" "\<forall>c\<in>set cookie. 32 \<le> (code c :: nat)"
    "ns_url_parts_new lxb (Some url) = Some parts" "hostname parts \<noteq> []"
    "cookie_pair cookie = Some (name, val)"
    "cookie_prefix_ok name (strcaseeq (protocol parts) ''https:'') (cookie_attributes getdate now cookie)"
    "cookie_file_domain is_suffix (hostname parts) (cookie_attributes getdate now cookie) = Some (fd, tail)"
    "ns_url_site_from lxb psl (Some url) = Some site"
    "f = (if from_http then ns_net_cookie_path_for_partition sha site
          else ns_net_cookie_js_path_for_partition sha site)"
proof -
  let ?at = "cookie_attributes getdate now cookie"
  note d = assms [unfolded ns_cookie_store_impl_def Let_def option.case prod.case]
  from d have u: "ns_url_is_http_or_https (Some url)" by (simp split: if_splits)
  from d have c: "\<not> list_ex (\<lambda>c. code c < (32 :: nat)) cookie" by (simp split: if_splits)
  from d obtain parts where p: "ns_url_parts_new lxb (Some url) = Some parts"
    by (cases "ns_url_parts_new lxb (Some url)") (simp_all split: if_splits)
  from d p have h: "hostname parts \<noteq> []" by (simp split: if_splits)
  from d p h obtain name val where nv: "cookie_pair cookie = Some (name, val)"
    by (cases "cookie_pair cookie") (simp_all split: if_splits prod.splits)
  from d p h nv have ok: "cookie_prefix_ok name (strcaseeq (protocol parts) ''https:'') ?at"
    by (simp split: if_splits)
  from d p h nv ok obtain fd tail where
      fd: "cookie_file_domain is_suffix (hostname parts) ?at = Some (fd, tail)"
    by (cases "cookie_file_domain is_suffix (hostname parts) ?at") (simp_all split: if_splits prod.splits)
  from d p h nv ok fd obtain site where site: "ns_url_site_from lxb psl (Some url) = Some site"
    by (cases "ns_url_site_from lxb psl (Some url)") (simp_all split: if_splits)
  from d p h nv ok fd site
  have f: "f = (if from_http then ns_net_cookie_path_for_partition sha site
          else ns_net_cookie_js_path_for_partition sha site)"
    by (simp split: if_splits prod.splits)
  from c have "\<forall>c\<in>set cookie. 32 \<le> (code c :: nat)" by (auto simp: list_ex_iff not_less)
  with u p h nv ok fd site f show ?thesis by (intro that)
qed

text \<open>\<open>hst\<close> is \<open>d\<close> or a subdomain of it.\<close>

definition domain_covers :: "string \<Rightarrow> string \<Rightarrow> bool" where
  "domain_covers d hst = (strdown hst = strdown d \<or> (\<exists>pre. strdown hst = pre @ CHR ''.'' # strdown d))"

lemma suffix_after_dot:
  assumes "length d < length hst" "hst ! (length hst - length d - 1) = CHR ''.''"
    "strcaseeq (drop (length hst - length d) hst) d"
  shows "\<exists>pre. strdown hst = pre @ CHR ''.'' # strdown d"
proof -
  let ?n = "length hst - length d - 1"
  have n: "?n < length hst" "Suc ?n = length hst - length d" using assms(1) by auto
  have "hst = take ?n hst @ hst ! ?n # drop (Suc ?n) hst"
    using n(1) by (rule id_take_nth_drop)
  then have "strdown hst
      = strdown (take ?n hst) @ ascii_tolower (hst ! ?n) # strdown (drop (Suc ?n) hst)"
    by (metis list.simps(9) map_append)
  moreover have "ascii_tolower (hst ! ?n) = CHR ''.''"
    using assms(2) by (simp add: ascii_tolower_def ascii_isupper_def)
  moreover have "strdown (drop (Suc ?n) hst) = strdown d"
    using assms(3) n(2) by (simp add: strcaseeq_def)
  ultimately show ?thesis by metis
qed

lemma file_domain_covers:
  assumes "cookie_file_domain is_suffix hst at = Some (fd, tail)" "has_attr (a_domain at)"
  shows "\<exists>d. a_domain at \<in> {Some d, Some (CHR ''.'' # d)} \<and> fd = CHR ''.'' # d
     \<and> \<not> is_suffix (strdown d) \<and> domain_covers d hst"
proof -
  obtain da where da: "a_domain at = Some da" "da \<noteq> []"
    using assms(2) by (cases "a_domain at") (auto simp: has_attr_def)
  define d where "d = (if hd da = CHR ''.'' then tl da else da)"
  have "\<not> is_suffix (strdown d) \<and> fd = CHR ''.'' # d
      \<and> (strcaseeq hst d \<or> (length hst > length d \<and> hst ! (length hst - length d - 1) = CHR ''.''
                     \<and> strcaseeq (drop (length hst - length d) hst) d))"
    using assms unfolding cookie_file_domain_def Let_def d_def da(1) option.sel
    by (auto split: if_splits)
  moreover have "da = d \<or> da = CHR ''.'' # d"
    using da(2) by (cases da) (auto simp: d_def)
  ultimately show ?thesis
    using suffix_after_dot [of d hst] da(1) by (auto simp: domain_covers_def strcaseeq_def)
qed

lemma starts_with_strdown:
  assumes "starts_with p (strdown s)" "strdown q = p" "length q = n"
  shows "n \<le> length s \<and> strncaseeq n s q"
proof -
  from assms(1) obtain r where "strdown s = p @ r" by (auto simp: starts_with_iff)
  moreover have "length p = n" using assms(2,3) by auto
  ultimately have "n \<le> length (strdown s)" "take n (strdown s) = p" by auto
  then show ?thesis
    using assms(2,3) by (simp add: strncaseeq_def take_map)
qed

text \<open>What a cookie must satisfy to change the file \<open>f\<close>: the rules of the
  cookie specification the code means to enforce.\<close>

definition cookie_allowed ::
    "url_parser \<Rightarrow> (string \<Rightarrow> cptr) \<Rightarrow> (string \<Rightarrow> bool) \<Rightarrow> (string \<Rightarrow> string) \<Rightarrow>
     (string \<Rightarrow> int option) \<Rightarrow> int \<Rightarrow> string \<Rightarrow> string \<Rightarrow> bool \<Rightarrow> string \<Rightarrow> bool" where
  "cookie_allowed lxb psl is_suffix sha getdate now url cookie from_http f =
    (\<exists>parts site name val. ns_url_is_http_or_https (Some url)
     \<and> ns_url_parts_new lxb (Some url) = Some parts
     \<and> ns_url_site_from lxb psl (Some url) = Some site
     \<and> cookie_pair cookie = Some (name, val)
     \<and> (let at = cookie_attributes getdate now cookie;
            https = strcaseeq (protocol parts) ''https:''
        in f = (if from_http then ns_net_cookie_path_for_partition sha site
                else ns_net_cookie_js_path_for_partition sha site)
         \<and> (\<forall>c\<in>set cookie. 32 \<le> (code c :: nat))
         \<and> (a_secure at \<longrightarrow> https)
         \<and> (starts_with ''__secure-'' (strdown name) \<longrightarrow> a_secure at)
         \<and> (starts_with ''__host-'' (strdown name) \<longrightarrow> a_secure at \<and> \<not> has_attr (a_domain at)
              \<and> (has_attr (a_path at) \<longrightarrow> a_path at = Some ''/''))
         \<and> (has_attr (a_domain at) \<longrightarrow>
              (\<exists>d. a_domain at \<in> {Some d, Some (CHR ''.'' # d)}
                 \<and> \<not> is_suffix (strdown d) \<and> domain_covers d (hostname parts)))))"

text \<open>(C28) A cookie, from a response or from a script, changes at most one
  file, the one of its own kind for the site of the address, and only if the
  address is http(s), the cookie has no control character, a Secure or
  \<open>__Secure-\<close> or \<open>__Host-\<close> cookie comes from an https address, a cookie
  with the prefix \<open>__Host-\<close> has no domain and no path other than \<open>/\<close>, and a
  domain attribute names the host or a parent of it that is no public suffix.\<close>

theorem cookie_store_guarded:
  assumes "ns_cookie_store_impl lxb psl is_suffix sha getdate now dir (Some url) (Some cookie) from_http f
            \<noteq> dir f"
  shows "cookie_allowed lxb psl is_suffix sha getdate now url cookie from_http f"
proof -
  obtain parts name val fd tail site where s:
    "ns_url_is_http_or_https (Some url)" "\<forall>c\<in>set cookie. 32 \<le> (code c :: nat)"
    "ns_url_parts_new lxb (Some url) = Some parts" "hostname parts \<noteq> []"
    "cookie_pair cookie = Some (name, val)"
    "cookie_prefix_ok name (strcaseeq (protocol parts) ''https:'') (cookie_attributes getdate now cookie)"
    "cookie_file_domain is_suffix (hostname parts) (cookie_attributes getdate now cookie) = Some (fd, tail)"
    "ns_url_site_from lxb psl (Some url) = Some site"
    "f = (if from_http then ns_net_cookie_path_for_partition sha site
          else ns_net_cookie_js_path_for_partition sha site)"
    by (rule store_changed [OF assms])
  let ?at = "cookie_attributes getdate now cookie"
  have low: "strdown ''__Secure-'' = ''__secure-''" "strdown ''__Host-'' = ''__host-''"
    by code_simp+
  have pre: "starts_with ''__secure-'' (strdown name) \<Longrightarrow>
      9 \<le> length name \<and> strncaseeq 9 name ''__Secure-''"
    "starts_with ''__host-'' (strdown name) \<Longrightarrow> 7 \<le> length name \<and> strncaseeq 7 name ''__Host-''"
    using starts_with_strdown [OF _ low(1), of name 9] starts_with_strdown [OF _ low(2), of name 7]
    by simp_all
  have sec: "starts_with ''__secure-'' (strdown name) \<longrightarrow> a_secure ?at"
    using pre(1) s(6) unfolding cookie_prefix_ok_def by (meson)
  have host: "starts_with ''__host-'' (strdown name) \<longrightarrow> a_secure ?at \<and> \<not> has_attr (a_domain ?at)
      \<and> (has_attr (a_path ?at) \<longrightarrow> a_path ?at = Some ''/'')"
    using pre(2) s(6) unfolding cookie_prefix_ok_def by (meson)
  have sec0: "a_secure ?at \<longrightarrow> strcaseeq (protocol parts) ''https:''"
    using s(6) by (auto simp: cookie_prefix_ok_def split: if_splits)
  show ?thesis
    using s(1,2,3,5,8,9) sec host sec0 file_domain_covers [OF s(7)]
    unfolding cookie_allowed_def by (auto simp: Let_def)
qed

theorem cookie_store_guarded_witness:
  "cookie_allowed example_lxb (\<lambda>h. None) (\<lambda>h. False) (\<lambda>k. k) (\<lambda>d. None) 100
     ''https://a/'' ''__Host-k=v; Secure; Path=/'' True ''https:://a.txt''"
  by (rule cookie_store_guarded [where dir = Map.empty]) code_simp

section \<open>Isolation of sites\<close>

text \<open>Storing a cookie for an address of one site, by a response or by a
  script, changes nothing that is read for an address of another site, when the
  two sites do not collide in the first 32 characters of the digest.\<close>

theorem cookie_sites_isolated:
  assumes sites: "ns_url_site_from lxb psl (Some u) = Some su"
      "ns_url_site_from lxb psl (Some v) = Some sv" "su \<noteq> []" "sv \<noteq> []"
    and sha: "32 \<le> length (sha su)" "32 \<le> length (sha sv)"
      "take 32 (sha su) \<noteq> take 32 (sha sv)"
  shows "ns_cookie_collect lxb psl sha now
      (ns_cookie_store_impl lxb psl is_suffix sha getdate t dir (Some u) (Some cookie) from_http)
      (Some v) httponly
    = ns_cookie_collect lxb psl sha now dir (Some v) httponly"
proof -
  let ?dir' = "ns_cookie_store_impl lxb psl is_suffix sha getdate t dir (Some u) (Some cookie) from_http"
  have same: "?dir' f = dir f" if "take 32 f = take 32 (sha sv)" for f
  proof (rule ccontr)
    assume "?dir' f \<noteq> dir f"
    then obtain s where s: "ns_url_site_from lxb psl (Some u) = Some s"
        "f = (if from_http then ns_net_cookie_path_for_partition sha s
              else ns_net_cookie_js_path_for_partition sha s)"
      by (rule store_changed)
    then have "take 32 f = take 32 (sha su)"
      using sites(1,3) sha(1)
      by (auto simp: ns_net_cookie_path_for_partition_def ns_net_cookie_js_path_for_partition_def)
    with that sha(3) show False by simp
  qed
  have "?dir' (ns_net_cookie_path_for_partition sha sv) = dir (ns_net_cookie_path_for_partition sha sv)"
    "?dir' (ns_net_cookie_js_path_for_partition sha sv) = dir (ns_net_cookie_js_path_for_partition sha sv)"
    using sites(4) sha(2)
    by (intro same; simp add: ns_net_cookie_path_for_partition_def
        ns_net_cookie_js_path_for_partition_def)+
  then show ?thesis
    unfolding ns_cookie_collect_def ns_cookie_pairs_def
    using sites(2) by (simp add: Let_def cong: option.case_cong if_cong)
qed

definition pad32 :: "string \<Rightarrow> string" where
  "pad32 s = s @ replicate 32 CHR ''x''"

theorem cookie_sites_isolated_witness:
  "ns_cookie_collect example_lxb (\<lambda>h. None) pad32 5
      (ns_cookie_store_impl example_lxb (\<lambda>h. None) (\<lambda>h. False) pad32 (\<lambda>d. None) 5 Map.empty
        (Some ''https://a/'') (Some ''k=v'') True) (Some ''https://b/'') True
    = ns_cookie_collect example_lxb (\<lambda>h. None) pad32 5 Map.empty (Some ''https://b/'') True"
  by (rule cookie_sites_isolated [where su = "''https:://a''" and sv = "''https:://b''"]) code_simp+

section \<open>HttpOnly cookies and scripts\<close>

text \<open>The file without its comment lines, the HttpOnly cookies among them.\<close>

definition comment_line :: "string \<Rightarrow> bool" where
  "comment_line l = (strchomp l \<noteq> [] \<and> hd (strchomp l) = CHR ''#'')"

definition drop_comments :: "string \<Rightarrow> string" where
  "drop_comments c = strjoin [LF] (filter (\<lambda>l. \<not> comment_line l) (split_on (\<lambda>x. x = LF) c))"

lemma cookie_line_comment:
  "comment_line l \<Longrightarrow> cookie_line False hst path https now l = None"
  by (simp add: comment_line_def cookie_line_def Let_def)

lemma cookie_line_Nil [simp]: "cookie_line b hst path https now [] = None"
  by (simp add: cookie_line_def strchomp_def)

lemma add_cookie_None [simp]: "add_cookie None = id"
  by (simp add: add_cookie_def fun_eq_iff)

lemma fold_without_comments:
  "fold (\<lambda>l. add_cookie (cookie_line False hst path https now l)) (filter (\<lambda>l. \<not> comment_line l) ls) tab
   = fold (\<lambda>l. add_cookie (cookie_line False hst path https now l)) ls tab"
  by (induction ls arbitrary: tab) (auto simp: cookie_line_comment)

lemma strsplit_fold_cookie:
  "fold (\<lambda>l. add_cookie (cookie_line b hst path https now l)) (strsplit LF c) tab
   = fold (\<lambda>l. add_cookie (cookie_line b hst path https now l)) (split_on (\<lambda>x. x = LF) c) tab"
  by (simp add: strsplit_set_def)

lemma file_pass_without_comments:
  "cookie_file_pass False hst path https now (map_option drop_comments c) tab
   = cookie_file_pass False hst path https now c tab"
proof (cases c)
  case (Some s)
  let ?ls = "filter (\<lambda>l. \<not> comment_line l) (split_on (\<lambda>x. x = LF) s)"
  have "fold (\<lambda>l. add_cookie (cookie_line False hst path https now l))
          (split_on (\<lambda>x. x = LF) (drop_comments s)) tab
      = fold (\<lambda>l. add_cookie (cookie_line False hst path https now l)) ?ls tab"
  proof (cases "?ls = []")
    case True
    then show ?thesis unfolding drop_comments_def True by simp
  next
    case False
    then have "split_on (\<lambda>x. x = LF) (drop_comments s) = ?ls"
      unfolding drop_comments_def
      by (intro split_on_strjoin) (auto dest: split_on_no_delim)
    then show ?thesis by simp
  qed
  then show ?thesis
    by (simp add: Some cookie_file_pass_def strsplit_fold_cookie fold_without_comments
        del: fold_filter)
qed (simp add: cookie_file_pass_def)

text \<open>(C37) A script sees no HttpOnly cookie: what \<open>document.cookie\<close> returns
  is the same as if the files had no comment lines, and so no \<open>#HttpOnly_\<close> line.\<close>

theorem httponly_invisible_to_scripts:
  "ns_net_cookies_for_js lxb psl sha now (\<lambda>f. map_option drop_comments (dir f)) url
   = ns_net_cookies_for_js lxb psl sha now dir url"
  by (simp add: ns_net_cookies_for_js_def ns_cookie_collect_def ns_cookie_pairs_def
      file_pass_without_comments cong: option.case_cong if_cong)

section \<open>A cookie that is set is sent back\<close>

definition clean :: "string \<Rightarrow> bool" where
  "clean s = (\<forall>c\<in>set s. (32 :: nat) \<le> code c)"

lemma clean_no_control: "clean s \<Longrightarrow> HT \<notin> set s \<and> LF \<notin> set s"
  by (auto simp: clean_def)

lemma clean_append [simp]: "clean (a @ b) \<longleftrightarrow> clean a \<and> clean b"
  by (auto simp: clean_def)

lemma clean_subset: "set a \<subseteq> set b \<Longrightarrow> clean b \<Longrightarrow> clean a"
  by (auto simp: clean_def)

lemma clean_int_digits [simp]: "clean (int_digits i)"
proof -
  have "(32 :: nat) \<le> code c" if "c \<in> set (dec_digits n)" for c n
    using dec_digits_all_digits [OF that] by (simp add: ascii_isdigit_def)
  then show ?thesis by (auto simp: int_digits_def clean_def)
qed

lemma takeWhile_append_hit: "HT \<notin> set a \<Longrightarrow> takeWhile (\<lambda>c. c \<noteq> HT) (a @ HT # b) = a"
  by (rule takeWhile_neq_append)

lemma dropWhile_append_hit: "HT \<notin> set a \<Longrightarrow> dropWhile (\<lambda>c. c \<noteq> HT) (a @ HT # b) = HT # b"
  by (subst dropWhile_append2) auto

lemma split_upto_append:
  "HT \<notin> set a \<Longrightarrow> split_upto (Suc n) HT (a @ HT # b) = a # split_upto n HT b"
  by (simp add: takeWhile_append_hit dropWhile_append_hit)

lemma cookie_fields_seven:
  assumes "HT \<notin> set a" "HT \<notin> set b" "HT \<notin> set c" "HT \<notin> set d" "HT \<notin> set e" "HT \<notin> set f"
  shows "cookie_fields (a @ HT # b @ HT # c @ HT # d @ HT # e @ HT # f @ HT # g) = [a, b, c, d, e, f, g]"
proof -
  have six: "(6 :: nat) = Suc (Suc (Suc (Suc (Suc (Suc 0)))))" by simp
  show ?thesis
    unfolding cookie_fields_def six
    using assms by (simp add: split_upto_append del: split_upto.simps(2))
qed

lemma strchomp_snoc: "\<not> ascii_isspace c \<Longrightarrow> strchomp (s @ [c]) = s @ [c]"
  by (simp add: strchomp_def)

lemma strchomp_id:
  assumes "s \<noteq> []" "\<not> ascii_isspace (last s)"
  shows "strchomp s = s"
  using assms strchomp_snoc [of "last s" "butlast s"] by simp

text \<open>The entry a host-only cookie leaves, and what reading it gives.\<close>

lemma cookie_line_entry:
  assumes hst: "clean hst" "hst \<noteq> []" "hd hst \<noteq> CHR ''#''"
    and fpath: "clean fpath" and nv: "clean name" "name \<noteq> []" "clean val"
    and val: "val \<noteq> []" "\<not> ascii_isspace (last val)"
    and match: "cookie_path_match path fpath"
    and expiry: "- (2 ^ 63) < a_expiry at" "a_expiry at < 2 ^ 63" "a_expiry at = 0 \<or> now \<le> a_expiry at"
    and secure: "a_secure at \<longrightarrow> https"
  shows "cookie_line True hst path https now
      (butlast (jar_entry from_http hst ''FALSE'' fpath at name val)) = Some (name, val)"
proof -
  let ?sec = "if a_secure at then ''TRUE'' else ''FALSE''"
  let ?core = "hst @ HT # ''FALSE'' @ HT # fpath @ HT # ?sec @ HT # int_digits (a_expiry at)
      @ HT # name @ HT # val"
  let ?pre = "if from_http \<and> a_httponly at then ''#HttpOnly_'' else []"
  have bl: "butlast (jar_entry from_http hst ''FALSE'' fpath at name val) = ?pre @ ?core"
    by (simp add: jar_entry_def butlast_append)
  have "last (?pre @ ?core) = last val" using val(1) by simp
  then have chomp: "strchomp (?pre @ ?core) = ?pre @ ?core"
    using val(2) by (intro strchomp_id) auto
  have noht: "HT \<notin> set hst" "HT \<notin> set fpath" "HT \<notin> set name" "HT \<notin> set ?sec"
      "HT \<notin> set (int_digits (a_expiry at))" "HT \<notin> set ''FALSE''"
    using hst fpath nv by (auto dest: clean_no_control) (use clean_int_digits clean_no_control in blast)+
  have fields: "cookie_fields ?core
      = [hst, ''FALSE'', fpath, ?sec, int_digits (a_expiry at), name, val]"
    using noht by (intro cookie_fields_seven)
  have exp: "strtol10 (int_digits (a_expiry at)) = a_expiry at"
    using strtol10_int_digits_append [OF expiry(1,2), of "[]"] by simp
  have dom: "cookie_domain_match hst hst"
    using hst(2) by (cases "hd hst = CHR ''.''") (simp_all add: cookie_domain_match_def)
  have sec: "strcaseeq ?sec ''TRUE'' \<longrightarrow> https"
  proof -
    have "\<not> strcaseeq ''FALSE'' ''TRUE''" by (simp add: strcaseeq_def)
    then show ?thesis using secure by simp
  qed
  have hash: "hd ?core \<noteq> CHR ''#''" "?core \<noteq> []" using hst(2,3) by simp_all
  have line: "(if hd (?pre @ ?core) = CHR ''#''
      then (if True \<and> starts_with ''#HttpOnly_'' (?pre @ ?core)
            then Some (drop 10 (?pre @ ?core)) else None)
      else Some (?pre @ ?core)) = Some ?core"
    using hash by simp
  have "?pre @ ?core \<noteq> []" using hash by simp
  then show ?thesis
    unfolding bl cookie_line_def chomp Let_def line option.case fields
    using dom match sec expiry(3) nv(2) exp by auto
qed

lemma foldl_jar_step_lines:
  "fst st = [] \<or> last (fst st) = LF \<Longrightarrow>
   fst (foldl (jar_step from_http fd path name now) st ls) = []
   \<or> last (fst (foldl (jar_step from_http fd path name now) st ls)) = LF"
proof (induction ls arbitrary: st)
  case (Cons l ls)
  have "fst (jar_step from_http fd path name now st l) = []
      \<or> last (fst (jar_step from_http fd path name now st l)) = LF"
    using Cons.prems by (simp add: jar_step_def split: prod.split)
  then show ?case using Cons.IH by simp
qed simp

lemma jar_rewrite_lines:
  assumes "jar_rewrite from_http fd path name now contents = (out, blocked)"
  shows "out = [] \<or> last out = LF"
  using assms foldl_jar_step_lines [of "([], False)" from_http fd path name now]
  by (cases contents) (simp_all add: jar_rewrite_def, metis fst_conv)

lemma foldl_jar_step_unblocked:
  "\<not> snd st \<Longrightarrow> \<not> snd (foldl (jar_step True fd path name now) st ls)"
proof (induction ls arbitrary: st)
  case (Cons l ls)
  have "\<not> snd (jar_line True fd path name now l)"
    by (simp add: jar_line_def Let_def)
  then have "\<not> snd (jar_step True fd path name now st l)"
    using Cons.prems by (auto simp: jar_step_def split: prod.split)
  then show ?case using Cons.IH by simp
qed simp

lemma jar_not_blocked: "\<not> snd (jar_rewrite True fd path name now contents)"
  by (cases contents) (simp_all add: jar_rewrite_def foldl_jar_step_unblocked)

lemma split_on_lines:
  assumes "out = [] \<or> last out = LF" "LF \<notin> set e"
  shows "\<exists>ls. split_on (\<lambda>c. c = LF) (out @ e @ [LF]) = ls @ [e, []]"
proof -
  have e: "split_on (\<lambda>c. c = LF) (e @ [LF]) = [e, []]"
    using split_on_append [of "\<lambda>c. c = LF" LF e "[]"] split_on_single [of e "\<lambda>c. c = LF"] assms(2)
    by auto
  show ?thesis
  proof (cases "out = []")
    case False
    then have "out @ e @ [LF] = butlast out @ LF # (e @ [LF])"
      using assms(1) by (metis append.assoc append_Cons append_Nil append_butlast_last_id)
    then have "split_on (\<lambda>c. c = LF) (out @ e @ [LF])
        = split_on (\<lambda>c. c = LF) (butlast out) @ [e, []]"
      using split_on_append [of "\<lambda>c. c = LF" LF "butlast out" "e @ [LF]"] e by metis
    then show ?thesis by blast
  qed (use e in auto)
qed

lemma trim_end_last: "trim_end s \<noteq> [] \<Longrightarrow> \<not> is_blank (last (trim_end s))"
  unfolding trim_end_def using hd_dropWhile [of is_blank "rev s"] by (simp add: last_rev)

lemma set_trim_end: "set (trim_end s) \<subseteq> set s"
  unfolding trim_end_def using set_dropWhileD [of _ is_blank "rev s"] by auto

lemma set_trim_blank: "set (trim_blank s) \<subseteq> set s"
  unfolding trim_blank_def using set_trim_end set_dropWhileD by fast

lemma set_tl_dropWhile: "set (tl (dropWhile P s)) \<subseteq> set s"
  using set_dropWhileD by (metis list.set_sel(2) subsetI tl_Nil)

lemma cookie_pair_clean:
  assumes "cookie_pair cookie = Some (name, val)" "clean cookie" "val \<noteq> []"
  shows "clean name" "name \<noteq> []" "clean val" "\<not> ascii_isspace (last val)"
proof -
  let ?pair = "takeWhile (\<lambda>c. c \<noteq> CHR '';'') cookie"
  have nv: "name = trim_blank (takeWhile (\<lambda>c. c \<noteq> CHR ''='') ?pair)" "name \<noteq> []"
      "val = trim_blank (tl (dropWhile (\<lambda>c. c \<noteq> CHR ''='') ?pair))"
    using assms(1) by (auto simp: cookie_pair_def Let_def split: if_splits)
  have "set ?pair \<subseteq> set cookie" using set_takeWhileD by fast
  then have sub: "set name \<subseteq> set cookie" "set val \<subseteq> set cookie"
    unfolding nv(1,3) using set_trim_blank set_tl_dropWhile set_takeWhileD by fast+
  show "clean name" "name \<noteq> []" "clean val"
    using sub assms(2) clean_subset nv(2) by blast+
  have "\<not> is_blank (last val)"
    using assms(3) trim_end_last unfolding nv(3) trim_blank_def by blast
  moreover have "(32 :: nat) \<le> code (last val)"
    using \<open>clean val\<close> assms(3) by (simp add: clean_def)
  ultimately show "\<not> ascii_isspace (last val)"
    by (auto simp: ascii_isspace_def is_blank_def)
qed

lemma default_path_matches:
  assumes "starts_with ''/'' p"
  shows "cookie_path_match p (last_slash_prefix p) \<and> set (last_slash_prefix p) \<subseteq> set p"
proof -
  let ?d = "dropWhile (\<lambda>c. c \<noteq> CHR ''/'') (rev p)"
  have slash: "CHR ''/'' \<in> set p" using assms by (auto simp: starts_with_iff)
  then have d: "?d \<noteq> []" by (auto simp: dropWhile_eq_Nil_conv)
  then have "hd ?d = CHR ''/''" using hd_dropWhile [of "\<lambda>c. c \<noteq> CHR ''/''" "rev p"] by blast
  with d have "rev p = takeWhile (\<lambda>c. c \<noteq> CHR ''/'') (rev p) @ CHR ''/'' # tl ?d"
    by (metis list.collapse takeWhile_dropWhile_id)
  then have p: "p = rev (tl ?d) @ CHR ''/'' # rev (takeWhile (\<lambda>c. c \<noteq> CHR ''/'') (rev p))"
    by (metis append.assoc append_Cons append_Nil rev.simps(2) rev_append rev_rev_ident)
  show ?thesis
  proof (cases "tl ?d = []")
    case True
    then show ?thesis
      using assms slash by (simp add: last_slash_prefix_def cookie_path_match_def)
  next
    case False
    let ?pre = "rev (tl ?d)"
    have eq: "last_slash_prefix p = ?pre"
      using False slash by (simp add: last_slash_prefix_def Let_def)
    have "starts_with ?pre p" using p by (metis starts_with_append)
    moreover have "p ! length ?pre = CHR ''/''" using p by (metis nth_append_length)
    moreover have "set ?pre \<subseteq> set p" using p by (metis Un_upper1 set_append)
    ultimately show ?thesis by (simp add: eq cookie_path_match_def)
  qed
qed

lemma map_of_AList_update_same: "map_of (AList.update k v al) k = Some v"
  by (simp add: update_conv)

text \<open>What reading a file gives whose last line is the entry of a cookie.\<close>

lemma file_pass_last_entry:
  assumes "out = [] \<or> last out = LF" "LF \<notin> set e"
    "cookie_line b hst path https now e = Some (name, val)"
  shows "map_of (cookie_file_pass b hst path https now (Some (out @ e @ [LF])) tab) name = Some val"
proof -
  obtain ls where "split_on (\<lambda>c. c = LF) (out @ e @ [LF]) = ls @ [e, []]"
    using split_on_lines [OF assms(1,2)] by blast
  then show ?thesis
    using assms(3)
    by (simp add: cookie_file_pass_def strsplit_fold_cookie add_cookie_def update_conv)
qed

lemma jar_entry_line:
  assumes "clean fd" "clean path" "clean name" "clean val"
  shows "LF \<notin> set (butlast (jar_entry from_http fd ''FALSE'' path at name val))"
    "jar_entry from_http fd ''FALSE'' path at name val
     = butlast (jar_entry from_http fd ''FALSE'' path at name val) @ [LF]"
  using assms clean_no_control [OF clean_int_digits [of "a_expiry at"]]
  by (auto simp: jar_entry_def butlast_append dest: clean_no_control)

text \<open>(C29) A host-only cookie that a response sets is sent back: after
  \<open>Set-Cookie\<close> without Domain and Path attributes, whatever the file held
  before, the request to the same address carries the name with exactly the
  value set, provided the value is not empty, the cookie is free of control bytes,
  passes the prefix rules and has not expired, the host name, the path and the site
  of the address are of the usual form, and scripts have set no cookie for the site
  (a script's cookie of the name would come first).\<close>

theorem cookie_set_is_sent:
  assumes url: "ns_url_is_http_or_https (Some url)"
    and parts: "ns_url_parts_new lxb (Some url) = Some p"
      "hostname p \<noteq> []" "clean (hostname p)" "hd (hostname p) \<noteq> CHR ''#''"
      "clean (pathname p)" "starts_with ''/'' (pathname p)"
    and site: "ns_url_site_from lxb psl (Some url) = Some site" "site \<noteq> []"
    and cookie: "clean cookie" "cookie_pair cookie = Some (name, val)" "val \<noteq> []"
    and at: "at = cookie_attributes getdate now cookie" "a_domain at = None" "a_path at = None"
      "cookie_prefix_ok name (strcaseeq (protocol p) ''https:'') at" "\<not> a_expired at"
    and expiry: "- (2 ^ 63) < a_expiry at" "a_expiry at < 2 ^ 63" "a_expiry at = 0 \<or> now \<le> a_expiry at"
    and js: "dir (ns_net_cookie_js_path_for_partition sha site) = None"
  shows "map_of (ns_cookie_pairs lxb psl sha now
      (ns_net_store_set_cookie lxb psl is_suffix sha getdate now dir (Some url) (Some cookie))
      (Some url) True) name = Some val"
proof -
  let ?jar = "ns_net_cookie_path_for_partition sha site"
  let ?js = "ns_net_cookie_js_path_for_partition sha site"
  let ?path = "last_slash_prefix (pathname p)"
  let ?https = "strcaseeq (protocol p) ''https:''"
  let ?entry = "jar_entry True (hostname p) ''FALSE'' ?path at name val"
  obtain out blk where jw: "jar_rewrite True (hostname p) ?path name now (dir ?jar) = (out, blk)"
    by fastforce
  have blk: "\<not> blk" using jar_not_blocked jw by (metis snd_conv)
  have ne: "url \<noteq> []" using url by (auto simp: ns_url_is_http_or_https_def)
  have noctl: "\<not> list_ex (\<lambda>c. code c < (32 :: nat)) cookie"
    using cookie(1) by (auto simp: clean_def list_ex_iff not_less)
  have fd: "cookie_file_domain is_suffix (hostname p) at = Some (hostname p, ''FALSE'')"
    by (simp add: cookie_file_domain_def has_attr_def at(2))
  have fp: "cookie_file_path (pathname p) at = ?path"
    by (simp add: cookie_file_path_def at(3))
  have stored: "ns_net_store_set_cookie lxb psl is_suffix sha getdate now dir (Some url) (Some cookie)
      = dir(?jar \<mapsto> out @ ?entry)"
    unfolding ns_net_store_set_cookie_def ns_cookie_store_impl_def Let_def option.case prod.case
    using ne url noctl parts(1,2) cookie(2) at(1,4,5) fd fp site jw blk by simp
  have paths: "?js \<noteq> ?jar"
    by (simp add: ns_net_cookie_path_for_partition_def ns_net_cookie_js_path_for_partition_def)
  note pc = cookie_pair_clean [OF cookie(2,1,3)]
  have path: "cookie_path_match (pathname p) ?path" "clean ?path"
    using default_path_matches [OF parts(6)] clean_subset [OF _ parts(5)] by blast+
  have sec: "a_secure at \<longrightarrow> ?https"
    using at(4) by (auto simp: cookie_prefix_ok_def split: if_splits)
  have line: "cookie_line True (hostname p) (pathname p) ?https now (butlast ?entry) = Some (name, val)"
    by (rule cookie_line_entry [OF parts(3,2,4) path(2) pc(1-3) cookie(3) pc(4) path(1) expiry sec])
  have "map_of (cookie_file_pass True (hostname p) (pathname p) ?https now
      (Some (out @ butlast ?entry @ [LF])) []) name = Some val"
    using file_pass_last_entry [OF jar_rewrite_lines [OF jw] jar_entry_line(1) line]
      parts(3) path(2) pc(1,3) by blast
  then have "map_of (cookie_file_pass True (hostname p) (pathname p) ?https now
      (Some (out @ ?entry)) []) name = Some val"
    using jar_entry_line(2) [OF parts(3) path(2) pc(1,3), of True at] by metis
  moreover have "pathname p \<noteq> []" using parts(6) by auto
  ultimately show ?thesis
    unfolding stored ns_cookie_pairs_def
    using ne parts(1,2) site js paths by (simp add: Let_def cookie_file_pass_def)
qed

theorem cookie_set_is_sent_witness:
  "map_of (ns_cookie_pairs example_lxb (\<lambda>h. None) pad32 1000
      (ns_net_store_set_cookie example_lxb (\<lambda>h. None) (\<lambda>h. False) pad32 (\<lambda>d. None) 1000 Map.empty
        (Some ''https://a.org/x/y'') (Some ''sid=42; Max-Age=60; Secure; HttpOnly''))
      (Some ''https://a.org/x/y'') True) ''sid'' = Some ''42''"
proof (rule cookie_set_is_sent [where site = "''https:://a.org''" and cookie = "''sid=42; Max-Age=60; Secure; HttpOnly''"
      and at = "cookie_attributes (\<lambda>d. None) 1000 ''sid=42; Max-Age=60; Secure; HttpOnly''"])
  show "ns_url_parts_new example_lxb (Some ''https://a.org/x/y'')
      = Some (url_parts_plain ''https://a.org/x/y'' (the (example_lxb None ''https://a.org/x/y'')))"
    by code_simp
qed (code_simp+)

text \<open>A script can shadow an HttpOnly cookie: the test for one looks
  only into the file of the script cookies, where a response never writes. After
  a response set \<open>sid\<close> as HttpOnly, a script that sets \<open>sid\<close> decides the value
  the next request sends.\<close>

theorem script_shadows_httponly:
  "let d1 = ns_net_store_set_cookie example_lxb (\<lambda>h. None) (\<lambda>h. False) pad32 (\<lambda>d. None) 9 Map.empty
              (Some ''https://a/'') (Some ''sid=secret; HttpOnly'');
       d2 = ns_net_cookie_store_from_js example_lxb (\<lambda>h. None) (\<lambda>h. False) pad32 (\<lambda>d. None) 9 d1
              (Some ''https://a/'') (Some ''sid=script'')
   in ns_net_cookies_for_request example_lxb (\<lambda>h. None) pad32 9 d1 (Some ''https://a/'') = Some ''sid=secret''
      \<and> ns_net_cookies_for_request example_lxb (\<lambda>h. None) pad32 9 d2 (Some ''https://a/'') = Some ''sid=script''"
  by code_simp

text \<open>The final tab of an entry with an empty value is stripped when the line
  is read, which leaves six fields: the cookie is stored but never sent.\<close>

lemma empty_value_is_lost:
  "let d = ns_net_store_set_cookie example_lxb (\<lambda>h. None) (\<lambda>h. False) pad32 (\<lambda>d. None) 9 Map.empty
             (Some ''https://a/'') (Some ''sid='')
   in ns_net_cookies_for_request example_lxb (\<lambda>h. None) pad32 9 d (Some ''https://a/'') = None
      \<and> d (ns_net_cookie_path_for_partition pad32 ''https:://a'') \<noteq> None"
  by code_simp

text \<open>The largest \<open>Max-Age\<close> overflows the sum with the clock: the cookie that
  should never expire gets an expiry in the past.\<close>

lemma max_age_overflows:
  "0 < now \<Longrightarrow> now < 2 ^ 62 \<Longrightarrow>
   a_expiry (cookie_attr getdate now ''Max-Age=9223372036854775807'' no_attrs) < 0"
proof -
  assume now: "0 < now" "now < (2 ^ 62 :: int)"
  let ?v = "''9223372036854775807''"
  have k: "takeWhile (\<lambda>c. c \<noteq> CHR ''='') ''Max-Age=9223372036854775807'' = ''Max-Age''"
    "dropWhile is_blank (tl (dropWhile (\<lambda>c. c \<noteq> CHR ''='') ''Max-Age=9223372036854775807'')) = ?v"
    "strcaseeq ''Max-Age'' ''max-age''" "\<not> strcaseeq ''Max-Age'' ''secure''"
    "\<not> strcaseeq ''Max-Age'' ''httponly''" "strtoll_any ?v"
    by code_simp+
  have "digits_value 0 ?v = 9223372036854775807"
    by (simp add: ascii_isdigit_def)
  then have v: "strtol10 ?v = 2 ^ 63 - 1"
    by (simp add: strtol10_def clamp_long_def c_isspace_def ascii_isspace_def)
  have "add64 now (2 ^ 63 - 1) = now - 1 - 2 ^ 63"
  proof -
    have "(now - 1 + 1 * 2 ^ 64) mod 2 ^ 64 = (now - 1) mod (2 ^ 64 :: int)"
      by (rule mod_mult_self1)
    also have "\<dots> = now - 1" using now by (intro mod_pos_pos_trivial) simp_all
    finally have "(now + (2 ^ 63 - 1) + 2 ^ 63) mod 2 ^ 64 = now - 1"
      by (simp add: algebra_simps)
    then show ?thesis
      unfolding add64_def int_word_sint by simp
  qed
  then show ?thesis
    using now k(3-6) unfolding cookie_attr_def Let_def k(1,2) v by simp
qed

end
