(* ===== verification/Net_Fetch.thy ===== *)
theory Net_Fetch
  imports Net_Url "HOL-Library.AList"
begin

text \<open>
  The redirect loop of a fetch (\<open>ns_fetch_sync\<close> of \<open>src/src/net.c\<close>), the keys
  requests are shared under, and the hosts known to be dead.

  One hop (\<open>ns_fetch_sync_hop\<close>: cache lookup and transfer through libcurl) is
  the parameter \<open>hop\<close> of the loop, so what is proved holds for every server.
\<close>

section \<open>Dead hosts\<close>

text \<open>The table of \<open>g_dead_hosts\<close>: the monotonic time, in microseconds, up to
  which a host is taken for dead.\<close>

definition dead_host_ttl_us :: int where
  "dead_host_ttl_us = 120 * 1000000"

definition ns_net_host_recently_dead ::
    "int \<Rightarrow> string \<Rightarrow> (string \<Rightarrow> int option) \<Rightarrow> bool \<times> (string \<Rightarrow> int option)" where
  "ns_net_host_recently_dead now hst tab =
     (case tab hst of None \<Rightarrow> (False, tab)
      | Some expiry \<Rightarrow> if now < expiry then (True, tab) else (False, tab(hst := None)))"

definition ns_net_host_mark_dead ::
    "int \<Rightarrow> string \<Rightarrow> (string \<Rightarrow> int option) \<Rightarrow> (string \<Rightarrow> int option)" where
  "ns_net_host_mark_dead now hst tab = tab(hst \<mapsto> now + dead_host_ttl_us)"

definition ns_net_host_mark_alive ::
    "string \<Rightarrow> (string \<Rightarrow> int option) \<Rightarrow> (string \<Rightarrow> int option)" where
  "ns_net_host_mark_alive hst tab = tab(hst := None)"

section \<open>Request keys\<close>

definition ns_user_agent_for_mode :: "string \<Rightarrow> string \<Rightarrow> string \<Rightarrow> cptr \<Rightarrow> string" where
  "ns_user_agent_for_mode ua_default ua_ladybird ua_firefox mode =
     (case mode of None \<Rightarrow> ua_default
      | Some m \<Rightarrow>
        if m = [] then ua_default
        else if strcaseeq m ''ladybird'' then ua_ladybird
        else if strcaseeq m ''firefox'' then ua_firefox
        else ua_default)"

definition ns_user_agent_has_client_hints :: "cptr \<Rightarrow> bool" where
  "ns_user_agent_has_client_hints ua =
     (case ua of None \<Rightarrow> False
      | Some u \<Rightarrow> str_contains u ''Chrome/'' \<and> \<not> str_contains u ''Ladybird/'')"

text \<open>\<open>uas\<close> are the user-agent strings of the build, \<open>al\<close> is
  \<open>ns_net_effective_accept_language\<close>.\<close>

definition ns_net_partition_key ::
    "url_parser \<Rightarrow> (string \<Rightarrow> cptr) \<Rightarrow> string \<times> string \<times> string \<Rightarrow> string \<Rightarrow>
     net_config option \<Rightarrow> cptr \<Rightarrow> cptr \<Rightarrow> string" where
  "ns_net_partition_key lxb psl uas al cfg url top_url =
     (let mode_ua = (\<lambda>m. ns_user_agent_for_mode (fst uas) (fst (snd uas)) (snd (snd uas)) m);
          ua = (case cfg of
                  None \<Rightarrow> mode_ua None
                | Some c \<Rightarrow> (case cfg_user_agent c of
                     Some u \<Rightarrow> if u \<noteq> [] then u else mode_ua (cfg_compat_mode c)
                   | None \<Rightarrow> mode_ua (cfg_compat_mode c)));
          effective = (if top_url \<noteq> None then top_url else url);
          top_origin = ns_url_origin_from lxb effective;
          top_site = ns_url_site_from lxb psl effective;
          partition = (case top_site of
              Some s \<Rightarrow> if s \<noteq> [] then s else (case top_origin of Some og \<Rightarrow> og | None \<Rightarrow> [])
            | None \<Rightarrow> (case top_origin of Some og \<Rightarrow> og | None \<Rightarrow> []))
      in ''top='' @ partition @ [US] @ ''ua='' @ ua @ [US] @ ''al='' @ al)"

definition ns_net_request_origin ::
    "url_parser \<Rightarrow> cptr \<Rightarrow> cptr \<Rightarrow> cptr \<Rightarrow> cptr \<Rightarrow> string" where
  "ns_net_request_origin lxb url top_url top_origin meth =
     (case top_origin of None \<Rightarrow> []
      | Some og \<Rightarrow>
        if og = [] then []
        else if CR \<in> set og \<or> LF \<in> set og \<or> 4096 \<le> length og then []
        else if top_url \<noteq> None \<and> \<not> ns_url_same_origin lxb top_url url then og
        else (case meth of
                Some m \<Rightarrow> if m \<noteq> [] \<and> \<not> strcaseeq m ''GET'' \<and> \<not> strcaseeq m ''HEAD'' then og else []
              | None \<Rightarrow> []))"

text \<open>\<open>strcmp\<close> as an order on byte strings; \<open>g_ptr_array_sort\<close> is stable and
  equal lines are equal, so any sort gives the same list.\<close>

fun insert_line :: "string \<Rightarrow> string list \<Rightarrow> string list" where
  "insert_line h [] = [h]"
| "insert_line h (k # ks) = (if bytes_le h k then h # k # ks else k # insert_line h ks)"

definition sort_lines :: "string list \<Rightarrow> string list" where
  "sort_lines hs = foldr insert_line hs []"

definition ns_net_request_key ::
    "url_parser \<Rightarrow> (string \<Rightarrow> cptr) \<Rightarrow> string \<times> string \<times> string \<Rightarrow> string \<Rightarrow>
     net_config option \<Rightarrow> cptr \<Rightarrow> cptr \<Rightarrow> cptr \<Rightarrow> string list \<Rightarrow> cptr" where
  "ns_net_request_key lxb psl uas al cfg url_p top_url meth extra =
     (case url_p of None \<Rightarrow> None
      | Some url \<Rightarrow>
        if \<not> ns_url_is_http_or_https url_p then None
        else if (case meth of None \<Rightarrow> False | Some m \<Rightarrow> m \<noteq> [] \<and> \<not> strcaseeq m ''GET'') then None
        else Some (''GET'' @ [US] @ url @ [US]
               @ ns_net_partition_key lxb psl uas al cfg url_p top_url
               @ concat (map (\<lambda>h. US # h) (sort_lines extra))))"

section \<open>Request headers\<close>

definition ns_fetch_is_navigation :: "string list option \<Rightarrow> bool" where
  "ns_fetch_is_navigation extra_headers =
     (case extra_headers of None \<Rightarrow> False
      | Some hs \<Rightarrow> list_ex (\<lambda>h. strncaseeq 14 h ''X-ND-Navigate:'') hs)"

definition ns_net_fetch_destination :: "string list option \<Rightarrow> string" where
  "ns_net_fetch_destination extra_headers =
     (let hs = (case extra_headers of None \<Rightarrow> [] | Some l \<Rightarrow> l);
          vals = map (\<lambda>h. dropWhile (\<lambda>c. c = SP \<or> c = HT) (drop 16 h))
                   (filter (\<lambda>h. strncaseeq 16 h ''X-ND-Fetch-Dest:'') hs);
          known = filter (\<lambda>v. list_ex (\<lambda>k. strcaseeq v k)
                    [''script'', ''style'', ''image'', ''font'']) vals
      in case known of [] \<Rightarrow> ''empty'' | v # _ \<Rightarrow> strdown v)"

definition sensitive_headers :: "string list" where
  "sensitive_headers = [''authorization'', ''cookie'', ''proxy-authorization'']"

definition header_is_sensitive :: "string \<Rightarrow> bool" where
  "header_is_sensitive h =
     (CHR '':'' \<in> set h
      \<and> list_ex (\<lambda>s. strcaseeq (takeWhile (\<lambda>c. c \<noteq> CHR '':'') h) s) sensitive_headers)"

text \<open>The loop removes at index \<open>i\<close> or advances.\<close>

fun strip_sensitive_from :: "nat \<Rightarrow> nat \<Rightarrow> string list \<Rightarrow> string list" where
  "strip_sensitive_from 0 i hs = hs"
| "strip_sensitive_from (Suc fuel) i hs =
     (if i < length hs then
        (if header_is_sensitive (hs ! i)
         then strip_sensitive_from fuel i (take i hs @ drop (Suc i) hs)
         else strip_sensitive_from fuel (Suc i) hs)
      else hs)"

definition ns_headers_strip_sensitive :: "string list \<Rightarrow> string list" where
  "ns_headers_strip_sensitive hs = strip_sensitive_from (length hs) 0 hs"

section \<open>The redirect loop\<close>

record fetch_req =
  rq_url :: string
  rq_top :: cptr
  rq_method :: string
  rq_body :: cptr
  rq_content_type :: cptr
  rq_headers :: "string list option"

record hop_resp =
  hr_status :: int
  hr_final_url :: cptr
  hr_error :: cptr
  hr_redirect_count :: nat

text \<open>A hop gives the response, null on failure, and the Location header.\<close>

type_synonym hop = "nat \<Rightarrow> fetch_req \<Rightarrow> hop_resp option \<times> cptr"

definition redirect_limit :: "net_config option \<Rightarrow> nat" where
  "redirect_limit cfg =
     (case cfg of None \<Rightarrow> 10
      | Some c \<Rightarrow> if max_redirects c < 0 then 0 else if max_redirects c > 10 then 10
                 else nat (max_redirects c))"

definition is_redirect_status :: "int \<Rightarrow> bool" where
  "is_redirect_status s = (s = 301 \<or> s = 302 \<or> s = 303 \<or> s = 307 \<or> s = 308)"

text \<open>The address a response came from: what the next hop is resolved
  against and compared with.\<close>

definition hop_base :: "fetch_req \<Rightarrow> hop_resp \<Rightarrow> string" where
  "hop_base req r = (case hr_final_url r of Some f \<Rightarrow> f | None \<Rightarrow> rq_url req)"

definition next_request :: "url_parser \<Rightarrow> fetch_req \<Rightarrow> hop_resp \<Rightarrow> string \<Rightarrow> fetch_req" where
  "next_request lxb req r nxt =
     (let hdrs = (case rq_headers req of None \<Rightarrow> None
            | Some hs \<Rightarrow>
               if ns_url_origin_from lxb (Some (hop_base req r)) \<noteq> ns_url_origin_from lxb (Some nxt)
               then Some (ns_headers_strip_sensitive hs) else Some hs);
          to_get = (hr_status r = 303
            \<or> ((hr_status r = 301 \<or> hr_status r = 302) \<and> \<not> strcaseeq (rq_method req) ''GET''))
      in \<lparr> rq_url = nxt, rq_top = None,
           rq_method = (if to_get then ''GET'' else rq_method req),
           rq_body = (if to_get then None else rq_body req),
           rq_content_type = (if to_get then None else rq_content_type req),
           rq_headers = hdrs \<rparr>)"

text \<open>One round: the response to return, or the next request.\<close>

definition redirect_step ::
    "url_parser \<Rightarrow> bool \<Rightarrow> string list option \<Rightarrow> nat \<Rightarrow> nat \<Rightarrow> fetch_req \<Rightarrow> hop_resp \<Rightarrow> cptr
     \<Rightarrow> hop_resp + fetch_req" where
  "redirect_step lxb started_https extra max_redirs hops req r location =
     (if \<not> is_redirect_status (hr_status r) \<or> hr_error r \<noteq> None
         \<or> location = None \<or> location = Some [] then Inl r
      else if hops \<ge> max_redirs then Inl (r \<lparr> hr_error := Some ''too many redirects'' \<rparr>)
      else case ns_url_resolve lxb (Some (hop_base req r)) location of
             None \<Rightarrow> Inl r
           | Some nxt \<Rightarrow>
               if \<not> ns_url_is_http_or_https (Some nxt)
                  \<or> (started_https \<and> \<not> starts_with ''https://'' nxt
                     \<and> \<not> ns_fetch_is_navigation extra)
               then Inl (r \<lparr> hr_error := Some ''redirect to a disallowed URL blocked'' \<rparr>)
               else Inr (next_request lxb req r nxt))"

lemma redirect_step_limit:
  "redirect_step lxb sh extra m hops req r loc = Inr q \<Longrightarrow> hops < m"
  by (auto simp: redirect_step_def split: if_splits)

text \<open>The loop also returns the requests made, each with the base its
  response gave.\<close>

function ns_fetch_loop ::
    "url_parser \<Rightarrow> hop \<Rightarrow> (nat \<Rightarrow> bool) \<Rightarrow> bool \<Rightarrow> string list option \<Rightarrow> nat \<Rightarrow> nat \<Rightarrow> fetch_req
     \<Rightarrow> hop_resp option \<times> (fetch_req \<times> string) list" where
  "ns_fetch_loop lxb hop cancelled sh extra m hops req =
     (case hop hops req of
        (None, loc) \<Rightarrow> (None, [(req, rq_url req)])
      | (Some r, loc) \<Rightarrow>
          (case redirect_step lxb sh extra m hops req r loc of
             Inl r' \<Rightarrow> (Some (r' \<lparr> hr_redirect_count := hops \<rparr>), [(req, hop_base req r)])
           | Inr req' \<Rightarrow>
               if cancelled (Suc hops) then (None, [(req, hop_base req r)])
               else let (res, tr) = ns_fetch_loop lxb hop cancelled sh extra m (Suc hops) req'
                    in (res, (req, hop_base req r) # tr)))"
  by pat_completeness auto
termination
  by (relation "measure (\<lambda>(lxb, hop, cancelled, sh, extra, m, hops, req). m - hops)")
    (auto dest: redirect_step_limit)

declare ns_fetch_loop.simps [simp del]

definition ns_fetch_sync ::
    "url_parser \<Rightarrow> (string \<Rightarrow> cptr \<Rightarrow> bool) \<Rightarrow> hop \<Rightarrow> (nat \<Rightarrow> bool) \<Rightarrow> net_config option \<Rightarrow>
     string \<Rightarrow> cptr \<Rightarrow> cptr \<Rightarrow> cptr \<Rightarrow> cptr \<Rightarrow> string list option
     \<Rightarrow> hop_resp option \<times> (fetch_req \<times> string) list" where
  "ns_fetch_sync lxb should_block hop cancelled cfg url top_url meth body ct extra =
     (if \<not> ns_fetch_is_navigation extra \<and> should_block url top_url
      then (Some \<lparr> hr_status = 0, hr_final_url = Some url, hr_error = Some ''blocked by extension'',
                   hr_redirect_count = 0 \<rparr>, [])
      else ns_fetch_loop lxb hop cancelled (starts_with ''https://'' url) extra (redirect_limit cfg) 0
             \<lparr> rq_url = url, rq_top = top_url,
               rq_method = (case meth of Some m \<Rightarrow> if m \<noteq> [] then m else ''GET'' | None \<Rightarrow> ''GET''),
               rq_body = body, rq_content_type = ct, rq_headers = extra \<rparr>)"

section \<open>What the loop guarantees\<close>

lemma strip_sensitive_from_filter:
  "length hs \<le> fuel + i \<Longrightarrow>
   strip_sensitive_from fuel i hs = take i hs @ filter (\<lambda>h. \<not> header_is_sensitive h) (drop i hs)"
proof (induction fuel i hs rule: strip_sensitive_from.induct)
  case (2 fuel i hs)
  show ?case
  proof (cases "i < length hs")
    case True
    have d: "drop i hs = hs ! i # drop (Suc i) hs" using True by (rule Cons_nth_drop_Suc [symmetric])
    have t: "take (Suc i) hs = take i hs @ [hs ! i]" using True by (rule take_Suc_conv_app_nth)
    show ?thesis
    proof (cases "header_is_sensitive (hs ! i)")
      case s: True
      have "length (take i hs @ drop (Suc i) hs) \<le> fuel + i" using True 2(3) by simp
      from 2(1) [OF True s this] show ?thesis using True s by (simp add: d)
    next
      case s: False
      have "length hs \<le> fuel + Suc i" using 2(3) by simp
      from 2(2) [OF True s this] show ?thesis using True s by (simp add: d t)
    qed
  qed simp
qed simp

lemma strip_sensitive_filter:
  "ns_headers_strip_sensitive hs = filter (\<lambda>h. \<not> header_is_sensitive h) hs"
  by (simp add: ns_headers_strip_sensitive_def strip_sensitive_from_filter)

text \<open>The relation between one request of the loop and the next.\<close>

definition follows :: "url_parser \<Rightarrow> bool \<Rightarrow> string list option \<Rightarrow>
    fetch_req \<times> string \<Rightarrow> fetch_req \<times> string \<Rightarrow> bool" where
  "follows lxb sh extra a b =
     (\<exists>r nxt. snd a = hop_base (fst a) r \<and> fst b = next_request lxb (fst a) r nxt
        \<and> ns_url_is_http_or_https (Some nxt)
        \<and> (sh \<and> \<not> ns_fetch_is_navigation extra \<longrightarrow> starts_with ''https://'' nxt))"

lemma next_request_simps:
  "rq_url (next_request lxb req r nxt) = nxt"
  "rq_headers (next_request lxb req r nxt) =
     (case rq_headers req of None \<Rightarrow> None
      | Some hs \<Rightarrow>
         if ns_url_origin_from lxb (Some (hop_base req r)) \<noteq> ns_url_origin_from lxb (Some nxt)
         then Some (ns_headers_strip_sensitive hs) else Some hs)"
  by (simp_all add: next_request_def Let_def)

lemma follows_url:
  assumes "follows lxb sh extra a b"
  shows "ns_url_is_http_or_https (Some (rq_url (fst b)))
    \<and> (sh \<and> \<not> ns_fetch_is_navigation extra \<longrightarrow> starts_with ''https://'' (rq_url (fst b)))"
  using assms next_request_simps(1) unfolding follows_def by metis

lemma redirect_step_follows:
  assumes "redirect_step lxb sh extra m hops req r loc = Inr req'"
  shows "follows lxb sh extra (req, hop_base req r) (req', b)"
  using assms unfolding redirect_step_def follows_def
  by (auto split: if_splits option.splits)

lemma fetch_loop_trace:
  assumes "ns_fetch_loop lxb hop cancelled sh extra m hops req = (res, tr)" "hops \<le> m"
  shows "tr \<noteq> [] \<and> fst (hd tr) = req \<and> length tr + hops \<le> m + 1
    \<and> successively (follows lxb sh extra) tr"
  using assms
proof (induction lxb hop cancelled sh extra m hops req arbitrary: res tr rule: ns_fetch_loop.induct)
  case (1 lxb hop cancelled sh extra m hops req)
  obtain ro loc where h: "hop hops req = (ro, loc)" by fastforce
  show ?case
  proof (cases ro)
    case None
    then show ?thesis using 1(2,3) h by (auto simp: ns_fetch_loop.simps [of lxb])
  next
    case (Some r)
    show ?thesis
    proof (cases "redirect_step lxb sh extra m hops req r loc")
      case (Inl r')
      then show ?thesis using 1(2,3) h Some by (auto simp: ns_fetch_loop.simps [of lxb])
    next
      case (Inr req')
      have lim: "hops < m" by (rule redirect_step_limit [OF Inr])
      show ?thesis
      proof (cases "cancelled (Suc hops)")
        case True
        then show ?thesis using 1(2) h Some Inr lim by (auto simp: ns_fetch_loop.simps [of lxb])
      next
        case False
        obtain res' tr' where l: "ns_fetch_loop lxb hop cancelled sh extra m (Suc hops) req' = (res', tr')"
          by fastforce
        have tr: "tr = (req, hop_base req r) # tr'"
          using 1(2) h Some Inr False l by (simp add: ns_fetch_loop.simps [of lxb])
        have ih: "tr' \<noteq> [] \<and> fst (hd tr') = req' \<and> length tr' + Suc hops \<le> m + 1
            \<and> successively (follows lxb sh extra) tr'"
          by (rule 1(1) [OF h [symmetric] Some Inr False l]) (use lim in simp)
        moreover have "follows lxb sh extra (req, hop_base req r) (hd tr')"
          using redirect_step_follows [OF Inr, of "snd (hd tr')"] ih by (metis prod.collapse)
        ultimately show ?thesis unfolding tr by (cases tr') auto
      qed
    qed
  qed
qed

lemma fetch_sync_trace:
  assumes "ns_fetch_sync lxb sb hop cancelled cfg url top_url meth body ct extra = (res, tr)"
  shows "length tr \<le> redirect_limit cfg + 1
    \<and> (tr \<noteq> [] \<longrightarrow> rq_url (fst (hd tr)) = url \<and> rq_headers (fst (hd tr)) = extra)
    \<and> successively (follows lxb (starts_with ''https://'' url) extra) tr"
proof (cases "\<not> ns_fetch_is_navigation extra \<and> sb url top_url")
  case False
  let ?req = "\<lparr> rq_url = url, rq_top = top_url,
               rq_method = (case meth of Some m \<Rightarrow> if m \<noteq> [] then m else ''GET'' | None \<Rightarrow> ''GET''),
               rq_body = body, rq_content_type = ct, rq_headers = extra \<rparr>"
  have "ns_fetch_loop lxb hop cancelled (starts_with ''https://'' url) extra (redirect_limit cfg) 0 ?req
      = (res, tr)"
    using assms False unfolding ns_fetch_sync_def by (simp split: if_splits)
  from fetch_loop_trace [OF this] show ?thesis by auto
qed (use assms in \<open>auto simp: ns_fetch_sync_def\<close>)

lemma redirect_limit_le: "redirect_limit cfg \<le> 10"
  by (cases cfg) (auto simp: redirect_limit_def)

lemma successively_all_tl:
  "successively P xs \<Longrightarrow> (\<And>a b. P a b \<Longrightarrow> Q b) \<Longrightarrow> \<forall>x\<in>set (tl xs). Q x"
  by (induction P xs rule: successively.induct) auto

lemma successively_nth:
  "successively P xs \<Longrightarrow> Suc k < length xs \<Longrightarrow> P (xs ! k) (xs ! Suc k)"
proof (induction P xs arbitrary: k rule: successively.induct)
  case (3 P x y xs)
  then show ?case by (cases k) auto
qed auto

text \<open>A property that each step keeps holds from where it first holds.\<close>

lemma successively_persists:
  assumes "successively P xs" "\<And>a b. P a b \<Longrightarrow> Q a \<Longrightarrow> Q b" "Q (xs ! i)" "i \<le> j" "j < length xs"
  shows "Q (xs ! j)"
  using assms(4,5)
proof (induction j)
  case 0
  then show ?case using assms(3) by simp
next
  case (Suc j)
  show ?case
  proof (cases "i = Suc j")
    case False
    with Suc have "Q (xs ! j)" by simp
    then show ?thesis using successively_nth [OF assms(1) Suc.prems(2)] assms(2) by blast
  qed (use assms(3) in simp)
qed

text \<open>(C32) A fetch makes at most one request more than the redirect limit,
  so at most eleven, whatever the servers answer; every address it is redirected
  to is http(s), and a fetch that starts on https and is not a navigation never
  leaves https.\<close>

theorem fetch_redirects_bounded:
  assumes "ns_fetch_sync lxb sb hop cancelled cfg url top_url meth body ct extra = (res, tr)"
  shows "length tr \<le> redirect_limit cfg + 1 \<and> redirect_limit cfg \<le> 10
    \<and> (\<forall>q\<in>set (tl tr). ns_url_is_http_or_https (Some (rq_url (fst q))))
    \<and> (starts_with ''https://'' url \<and> \<not> ns_fetch_is_navigation extra
        \<longrightarrow> (\<forall>q\<in>set tr. starts_with ''https://'' (rq_url (fst q))))"
proof -
  let ?sh = "starts_with ''https://'' url"
  have t: "length tr \<le> redirect_limit cfg + 1"
    "tr \<noteq> [] \<longrightarrow> rq_url (fst (hd tr)) = url"
    "successively (follows lxb ?sh extra) tr"
    using fetch_sync_trace [OF assms] by blast+
  have "\<forall>q\<in>set (tl tr). ns_url_is_http_or_https (Some (rq_url (fst q)))"
    by (rule successively_all_tl [OF t(3)]) (use follows_url in blast)
  moreover have "\<forall>q\<in>set (tl tr). ?sh \<and> \<not> ns_fetch_is_navigation extra
      \<longrightarrow> starts_with ''https://'' (rq_url (fst q))"
    by (rule successively_all_tl [OF t(3)]) (use follows_url in blast)
  moreover have "set tr \<subseteq> insert (hd tr) (set (tl tr))" by (cases tr) auto
  ultimately show ?thesis using t(1,2) redirect_limit_le [of cfg] by (cases tr) simp_all
qed

definition no_sensitive :: "string list option \<Rightarrow> bool" where
  "no_sensitive hs =
     (case hs of None \<Rightarrow> True | Some l \<Rightarrow> list_all (\<lambda>h. \<not> header_is_sensitive h) l)"

lemma follows_headers:
  assumes "follows lxb sh extra a b"
  shows "no_sensitive (rq_headers (fst a)) \<Longrightarrow> no_sensitive (rq_headers (fst b))"
    "ns_url_origin_from lxb (Some (snd a)) \<noteq> ns_url_origin_from lxb (Some (rq_url (fst b)))
      \<Longrightarrow> no_sensitive (rq_headers (fst b))"
proof -
  from assms obtain r nxt where f: "snd a = hop_base (fst a) r" "fst b = next_request lxb (fst a) r nxt"
    unfolding follows_def by blast
  show "no_sensitive (rq_headers (fst a)) \<Longrightarrow> no_sensitive (rq_headers (fst b))"
    unfolding f(2) next_request_simps
    by (cases "rq_headers (fst a)") (auto simp: strip_sensitive_filter no_sensitive_def list_all_iff)
  show "ns_url_origin_from lxb (Some (snd a)) \<noteq> ns_url_origin_from lxb (Some (rq_url (fst b)))
      \<Longrightarrow> no_sensitive (rq_headers (fst b))"
    unfolding f next_request_simps
    by (cases "rq_headers (fst a)") (auto simp: strip_sensitive_filter no_sensitive_def list_all_iff)
qed

text \<open>(C7) Credentials do not cross origins: once a redirect leads to an
  address whose origin differs from that of the response that sent it, no later
  request of the fetch carries an Authorization, Cookie or Proxy-Authorization
  header the caller gave, not even after a redirect back.\<close>

theorem fetch_credentials_stay:
  assumes "ns_fetch_sync lxb sb hop cancelled cfg url top_url meth body ct extra = (res, tr)"
    and "i < j" "j < length tr"
    and "ns_url_origin_from lxb (Some (snd (tr ! i)))
       \<noteq> ns_url_origin_from lxb (Some (rq_url (fst (tr ! Suc i))))"
  shows "no_sensitive (rq_headers (fst (tr ! j)))"
proof -
  let ?P = "follows lxb (starts_with ''https://'' url) extra"
  have s: "successively ?P tr" using fetch_sync_trace [OF assms(1)] by blast
  have "Suc i < length tr" using assms(2,3) by simp
  then have start: "no_sensitive (rq_headers (fst (tr ! Suc i)))"
    by (rule follows_headers(2) [OF successively_nth [OF s] assms(4)])
  have "Suc i \<le> j" using assms(2) by simp
  from successively_persists [where Q = "\<lambda>x. no_sensitive (rq_headers (fst x))", OF s _ start this assms(3)]
  show ?thesis using follows_headers(1) by blast
qed

text \<open>A server that redirects once to another host, for concrete runs.\<close>

definition example_hop :: hop where
  "example_hop n req =
     (Some \<lparr> hr_status = (if n = 0 then 302 else 200), hr_final_url = None, hr_error = None,
             hr_redirect_count = 0 \<rparr>, if n = 0 then Some ''https://b/'' else None)"

definition example_fetch :: "hop_resp option \<times> (fetch_req \<times> string) list" where
  "example_fetch = ns_fetch_sync example_lxb (\<lambda>u t. False) example_hop (\<lambda>n. False) None
     ''https://a/'' None (Some ''POST'') (Some ''x'') None (Some [''Cookie: k=v'', ''Accept: */*''])"

theorem fetch_redirects_bounded_witness:
  "length (snd example_fetch) \<le> redirect_limit None + 1 \<and> length (snd example_fetch) = 2
    \<and> list_all (\<lambda>q. starts_with ''https://'' (rq_url (fst q))) (snd example_fetch)"
proof -
  have "\<not> ns_fetch_is_navigation (Some [''Cookie: k=v'', ''Accept: */*''])" by code_simp
  moreover have "length (snd example_fetch) = 2" by code_simp
  ultimately show ?thesis
    using fetch_redirects_bounded [of example_lxb "\<lambda>u t. False" example_hop "\<lambda>n. False" None
        "''https://a/''" None "Some ''POST''" "Some ''x''" None
        "Some [''Cookie: k=v'', ''Accept: */*'']" "fst example_fetch" "snd example_fetch"]
    by (simp add: example_fetch_def list_all_iff)
qed

theorem fetch_credentials_stay_witness:
  "no_sensitive (rq_headers (fst (snd example_fetch ! 1)))"
  by (rule fetch_credentials_stay [of example_lxb "\<lambda>u t. False" example_hop "\<lambda>n. False" None
        "''https://a/''" None "Some ''POST''" "Some ''x''" None
        "Some [''Cookie: k=v'', ''Accept: */*'']" "fst example_fetch" _ 0])
    (simp add: example_fetch_def, simp, code_simp, code_simp)

end
