(* ===== verification/Net_Share.thy ===== *)
theory Net_Share
  imports CString "HOL-Library.AList" "HOL-Library.Multiset" "HOL-Library.Sublist"
begin

text \<open>
  Sharing and scheduling of fetches (\<open>src/src/net.c\<close>): the preload store, the
  coalescing of equal requests, the throttle of concurrent fetches and the
  connection slots of an origin.

  Every access runs under its mutex in the code, so each locked region is a function
  on the protected state and a run is a sequence of them, from any threads. Hash
  tables are association lists without repeated keys; waiters are numbers.
\<close>

section \<open>The preload store\<close>

definition ns_preload_max_entries :: nat where
  "ns_preload_max_entries = 64"

definition ns_preload_max_bytes :: nat where
  "ns_preload_max_bytes = 16 * 1024 * 1024"

record shared_resp =
  sr_status :: int
  sr_error :: bool
  sr_body :: "string option"
  sr_raw_headers :: cptr

record coalesce_group =
  tasks :: "nat list"
  syncs :: "nat list"

record fetch_share =
  coalesce :: "(string \<times> coalesce_group) list"
  expected :: "string list"
  pstore :: "(string \<times> shared_resp) list"
  pbytes :: nat

definition share_init :: fetch_share where
  "share_init = \<lparr> coalesce = [], expected = [], pstore = [], pbytes = 0 \<rparr>"

definition body_len :: "shared_resp \<Rightarrow> nat" where
  "body_len r = (case sr_body r of None \<Rightarrow> 0 | Some b \<Rightarrow> length b)"

definition ns_response_forbids_reuse :: "shared_resp \<Rightarrow> bool" where
  "ns_response_forbids_reuse r =
     (case sr_raw_headers r of None \<Rightarrow> False
      | Some h \<Rightarrow> str_contains (strdown h) ''no-store'')"

definition ns_net_preload_expect :: "cptr \<Rightarrow> fetch_share \<Rightarrow> fetch_share" where
  "ns_net_preload_expect key st =
     (case key of None \<Rightarrow> st
      | Some k \<Rightarrow>
         if length (expected st) < ns_preload_max_entries
         then st \<lparr> expected := List.insert k (expected st) \<rparr> else st)"

definition ns_net_preload_clear :: "fetch_share \<Rightarrow> fetch_share" where
  "ns_net_preload_clear st = st \<lparr> expected := [], pstore := [], pbytes := 0 \<rparr>"

text \<open>The counter is lowered with the guard the code has against wrapping.\<close>

definition lower_bytes :: "nat \<Rightarrow> nat \<Rightarrow> nat" where
  "lower_bytes b len = (if b > len then b - len else 0)"

definition ns_preload_take :: "string \<Rightarrow> fetch_share \<Rightarrow> shared_resp option \<times> fetch_share" where
  "ns_preload_take key st =
     (case map_of (pstore st) key of
        None \<Rightarrow> (None, st)
      | Some r \<Rightarrow> (Some r, st \<lparr> pstore := AList.delete key (pstore st),
                              pbytes := lower_bytes (pbytes st) (body_len r) \<rparr>))"

definition ns_preload_store :: "string \<Rightarrow> shared_resp \<Rightarrow> fetch_share \<Rightarrow> fetch_share" where
  "ns_preload_store key r st =
     (if key \<notin> set (expected st) then st
      else
        let st1 = st \<lparr> expected := removeAll key (expected st) \<rparr>
        in if sr_status r \<noteq> 200 \<or> sr_error r \<or> sr_body r = None then st1
           else if body_len r > ns_preload_max_bytes then st1
           else if pbytes st1 + body_len r > ns_preload_max_bytes then st1
           else if ns_response_forbids_reuse r then st1
           else if map_of (pstore st1) key \<noteq> None then st1
           else st1 \<lparr> pbytes := pbytes st1 + body_len r,
                       pstore := (key, r) # pstore st1 \<rparr>)"

section \<open>Coalescing\<close>

datatype fetch_claim = Lead | Joined | Preloaded shared_resp

definition ns_fetch_claim :: "string \<Rightarrow> fetch_share \<Rightarrow> fetch_claim \<times> fetch_share" where
  "ns_fetch_claim key st =
     (case ns_preload_take key st of
        (Some r, st1) \<Rightarrow> (Preloaded r, st1)
      | (None, st1) \<Rightarrow>
         (case map_of (coalesce st1) key of
            Some g \<Rightarrow> (Joined, st1)
          | None \<Rightarrow> (Lead, st1 \<lparr> coalesce := (key, \<lparr> tasks = [], syncs = [] \<rparr>) # coalesce st1 \<rparr>)))"

definition map_group :: "string \<Rightarrow> (coalesce_group \<Rightarrow> coalesce_group) \<Rightarrow> fetch_share \<Rightarrow> fetch_share" where
  "map_group key f st =
     st \<lparr> coalesce := map (\<lambda>(k, g). if k = key then (k, f g) else (k, g)) (coalesce st) \<rparr>"

text \<open>A joiner that waits on the main loop, and one that blocks its thread.\<close>

definition ns_fetch_join_async :: "string \<Rightarrow> nat \<Rightarrow> fetch_share \<Rightarrow> fetch_claim \<times> fetch_share" where
  "ns_fetch_join_async key w st =
     (case ns_fetch_claim key st of
        (Joined, st1) \<Rightarrow> (Joined, map_group key (\<lambda>g. g \<lparr> tasks := tasks g @ [w] \<rparr>) st1)
      | (c, st1) \<Rightarrow> (c, st1))"

definition ns_fetch_join_sync :: "string \<Rightarrow> nat \<Rightarrow> fetch_share \<Rightarrow> fetch_claim \<times> fetch_share" where
  "ns_fetch_join_sync key w st =
     (case ns_fetch_claim key st of
        (Joined, st1) \<Rightarrow> (Joined, map_group key (\<lambda>g. g \<lparr> syncs := syncs g @ [w] \<rparr>) st1)
      | (c, st1) \<Rightarrow> (c, st1))"

text \<open>A blocked joiner whose wait ends without a result leaves its group;
  \<open>g_ptr_array_remove_fast\<close> moves the last element into its place.\<close>

fun remove_fast :: "nat \<Rightarrow> nat list \<Rightarrow> nat list" where
  "remove_fast w [] = []"
| "remove_fast w (x # xs) =
     (if x = w then (if xs = [] then [] else last xs # butlast xs) else x # remove_fast w xs)"

definition ns_fetch_join_abandon :: "string \<Rightarrow> nat \<Rightarrow> fetch_share \<Rightarrow> fetch_share" where
  "ns_fetch_join_abandon key w st =
     map_group key (\<lambda>g. g \<lparr> syncs := remove_fast w (syncs g) \<rparr>) st"

text \<open>What a waiter receives: a copy of the response or the error.\<close>

datatype outcome = GotResponse shared_resp | GotError

definition ns_fetch_coalesce_deliver ::
    "string \<Rightarrow> shared_resp option \<Rightarrow> fetch_share \<Rightarrow> (nat \<times> outcome) list \<times> fetch_share" where
  "ns_fetch_coalesce_deliver key resp st =
     (let st1 = (case resp of
            Some r \<Rightarrow> ns_preload_store key r st
          | None \<Rightarrow> st \<lparr> expected := removeAll key (expected st) \<rparr>);
          grp = map_of (coalesce st1) key;
          st2 = st1 \<lparr> coalesce := AList.delete key (coalesce st1) \<rparr>;
          result = (case resp of Some r \<Rightarrow> GotResponse r | None \<Rightarrow> GotError)
      in (case grp of None \<Rightarrow> ([], st2)
          | Some g \<Rightarrow> (map (\<lambda>w. (w, result)) (syncs g @ tasks g), st2)))"

section \<open>The store never exceeds its bounds\<close>

definition store_ok :: "fetch_share \<Rightarrow> bool" where
  "store_ok st \<longleftrightarrow>
     distinct (map fst (pstore st)) \<and> distinct (expected st)
     \<and> length (expected st) \<le> ns_preload_max_entries
     \<and> pbytes st = sum_list (map (body_len \<circ> snd) (pstore st))
     \<and> pbytes st \<le> ns_preload_max_bytes
     \<and> (\<forall>(k, r)\<in>set (pstore st). sr_status r = 200 \<and> \<not> sr_error r \<and> sr_body r \<noteq> None
          \<and> \<not> ns_response_forbids_reuse r)"

definition groups_ok :: "fetch_share \<Rightarrow> bool" where
  "groups_ok st \<longleftrightarrow> distinct (map fst (coalesce st))"

lemma map_fst_map_group:
  "map fst (coalesce (map_group key f st)) = map fst (coalesce st)"
  by (auto simp: map_group_def comp_def split_def intro: map_cong)

lemma map_group_other [simp]:
  "expected (map_group key f st) = expected st"
  "pstore (map_group key f st) = pstore st"
  "pbytes (map_group key f st) = pbytes st"
  by (simp_all add: map_group_def)

lemma sum_list_delete:
  fixes f :: "'b \<Rightarrow> nat"
  shows "distinct (map fst al) \<Longrightarrow> map_of al k = Some v \<Longrightarrow>
   sum_list (map (f \<circ> snd) al) = f v + sum_list (map (f \<circ> snd) (AList.delete k al))"
proof (induction al)
  case (Cons p al)
  obtain k' v' where p: "p = (k', v')" by fastforce
  show ?case
  proof (cases "k' = k")
    case True
    with Cons.prems p have "k \<notin> fst ` set al" by simp
    then have "AList.delete k al = al" by (rule AList.delete_id)
    with True Cons.prems p show ?thesis by simp
  qed (use Cons p in \<open>simp add: ac_simps\<close>)
qed simp

lemma removeAll_le: "length xs \<le> n \<Longrightarrow> length (removeAll k xs) \<le> n"
  by (meson le_trans length_removeAll_less_eq)

lemma lower_bytes_diff [simp]: "lower_bytes b len = b - len"
  by (simp add: lower_bytes_def)

lemma store_ok_take:
  assumes "store_ok st" "ns_preload_take key st = (ro, st')"
  shows "store_ok st' \<and> coalesce st' = coalesce st"
proof (cases "map_of (pstore st) key")
  case None
  then show ?thesis using assms by (auto simp: ns_preload_take_def)
next
  case (Some r)
  let ?rest = "AList.delete key (pstore st)"
  have "sum_list (map (body_len \<circ> snd) (pstore st))
      = body_len r + sum_list (map (body_len \<circ> snd) ?rest)"
    by (rule sum_list_delete) (use assms(1) Some in \<open>auto simp: store_ok_def\<close>)
  moreover have "distinct (map fst ?rest)"
    using assms(1) by (auto simp: store_ok_def intro: distinct_delete)
  moreover have "set ?rest \<subseteq> set (pstore st)" by (auto simp: AList.delete_eq)
  ultimately show ?thesis
    using assms Some by (auto simp: ns_preload_take_def store_ok_def)
qed

lemma store_ok_store:
  assumes "store_ok st"
  shows "store_ok (ns_preload_store key r st) \<and> coalesce (ns_preload_store key r st) = coalesce st"
proof -
  have fresh: "map_of (pstore st) key = None \<longleftrightarrow> key \<notin> fst ` set (pstore st)"
    by (rule map_of_eq_None_iff)
  show ?thesis
    using assms fresh
    by (auto simp: ns_preload_store_def store_ok_def Let_def distinct_removeAll removeAll_le)
qed

lemma store_ok_deliver:
  assumes "store_ok st" "ns_fetch_coalesce_deliver key resp st = (outs, st')"
  shows "store_ok st' \<and> coalesce st' = AList.delete key (coalesce st)"
proof -
  let ?st1 = "case resp of Some r \<Rightarrow> ns_preload_store key r st
      | None \<Rightarrow> st \<lparr> expected := removeAll key (expected st) \<rparr>"
  have "store_ok (st \<lparr> expected := removeAll key (expected st) \<rparr>)"
    using assms(1) by (auto simp: store_ok_def distinct_removeAll removeAll_le)
  then have "store_ok ?st1 \<and> coalesce ?st1 = coalesce st"
    using store_ok_store [OF assms(1)] by (cases resp) auto
  moreover have "st' = ?st1 \<lparr> coalesce := AList.delete key (coalesce ?st1) \<rparr>"
    using assms(2) by (auto simp: ns_fetch_coalesce_deliver_def Let_def split: option.splits)
  ultimately show ?thesis by (auto simp: store_ok_def)
qed

lemma deliver_outcomes:
  assumes "ns_fetch_coalesce_deliver key resp st = (outs, st')" "store_ok st"
  shows "outs = (case map_of (coalesce st) key of None \<Rightarrow> []
     | Some g \<Rightarrow> map (\<lambda>w. (w, case resp of Some r \<Rightarrow> GotResponse r | None \<Rightarrow> GotError))
                   (syncs g @ tasks g))"
proof -
  have "coalesce (case resp of Some r \<Rightarrow> ns_preload_store key r st
      | None \<Rightarrow> st \<lparr> expected := removeAll key (expected st) \<rparr>) = coalesce st"
    using store_ok_store [OF assms(2)] by (cases resp) auto
  then show ?thesis
    using assms(1) by (auto simp: ns_fetch_coalesce_deliver_def Let_def split: option.splits)
qed

section \<open>Runs\<close>

text \<open>The protected state with what a run has done so far: the keys whose
  leader is still fetching, the waiters that joined a group, what was delivered
  and who gave up.\<close>

record share_sys =
  sh :: fetch_share
  inflight :: "string list"
  joined :: "nat multiset"
  delivered :: "(nat \<times> outcome) list"
  gave_up :: "nat multiset"

inductive share_step :: "share_sys \<Rightarrow> share_sys \<Rightarrow> bool" where
  expect: "share_step s (s \<lparr> sh := ns_net_preload_expect key (sh s) \<rparr>)"
| clear: "share_step s (s \<lparr> sh := ns_net_preload_clear (sh s) \<rparr>)"
| join_async: "ns_fetch_join_async key w (sh s) = (c, st) \<Longrightarrow>
    share_step s (s \<lparr> sh := st,
      inflight := (if c = Lead then key # inflight s else inflight s),
      joined := (if c = Joined then add_mset w (joined s) else joined s) \<rparr>)"
| join_sync: "ns_fetch_join_sync key w (sh s) = (c, st) \<Longrightarrow>
    share_step s (s \<lparr> sh := st,
      inflight := (if c = Lead then key # inflight s else inflight s),
      joined := (if c = Joined then add_mset w (joined s) else joined s) \<rparr>)"
| abandon: "map_of (coalesce (sh s)) key = Some g \<Longrightarrow> w \<in> set (syncs g) \<Longrightarrow>
    share_step s (s \<lparr> sh := ns_fetch_join_abandon key w (sh s), gave_up := add_mset w (gave_up s) \<rparr>)"
| deliver: "key \<in> set (inflight s) \<Longrightarrow> ns_fetch_coalesce_deliver key resp (sh s) = (outs, st) \<Longrightarrow>
    share_step s (s \<lparr> sh := st, inflight := remove1 key (inflight s),
      delivered := delivered s @ outs \<rparr>)"

inductive share_reachable :: "share_sys \<Rightarrow> bool" where
  init: "share_reachable \<lparr> sh = share_init, inflight = [], joined = {#}, delivered = [], gave_up = {#} \<rparr>"
| step: "share_reachable s \<Longrightarrow> share_step s s' \<Longrightarrow> share_reachable s'"

definition group_waiters :: "coalesce_group \<Rightarrow> nat multiset" where
  "group_waiters g = mset (tasks g) + mset (syncs g)"

definition waiting :: "(string \<times> coalesce_group) list \<Rightarrow> nat multiset" where
  "waiting al = sum_list (map (group_waiters \<circ> snd) al)"

definition share_ok :: "share_sys \<Rightarrow> bool" where
  "share_ok s \<longleftrightarrow> store_ok (sh s) \<and> groups_ok (sh s)
     \<and> mset (inflight s) = mset (map fst (coalesce (sh s)))
     \<and> joined s = waiting (coalesce (sh s)) + mset (map fst (delivered s)) + gave_up s"

lemma waiting_delete:
  "distinct (map fst al) \<Longrightarrow> map_of al k = Some g \<Longrightarrow>
   waiting al = group_waiters g + waiting (AList.delete k al)"
  unfolding waiting_def
proof (induction al)
  case (Cons p al)
  obtain k' v' where p: "p = (k', v')" by fastforce
  show ?case
  proof (cases "k' = k")
    case True
    with Cons.prems p have "k \<notin> fst ` set al" by simp
    then have "AList.delete k al = al" by (rule AList.delete_id)
    with True Cons.prems p show ?thesis by simp
  qed (use Cons p in \<open>simp add: ac_simps\<close>)
qed simp

lemma map_group_split:
  assumes "distinct (map fst (coalesce st))" "map_of (coalesce st) key = Some g"
  shows "waiting (coalesce (map_group key f st)) + group_waiters g
       = waiting (coalesce st) + group_waiters (f g)"
proof -
  have d: "AList.delete key (map (\<lambda>(k, g). if k = key then (k, f g) else (k, g)) al) = AList.delete key al"
    for al by (induction al) (auto split: if_splits)
  have m: "map_of (map (\<lambda>(k, g). if k = key then (k, f g) else (k, g)) al) key = map_option f (map_of al key)"
    for al by (induction al) auto
  have c: "coalesce (map_group key f st)
      = map (\<lambda>(k, g). if k = key then (k, f g) else (k, g)) (coalesce st)"
    by (simp add: map_group_def)
  have mf: "map_of (coalesce (map_group key f st)) key = Some (f g)"
    unfolding c m assms(2) by simp
  have "waiting (coalesce (map_group key f st))
      = group_waiters (f g) + waiting (AList.delete key (coalesce (map_group key f st)))"
    by (rule waiting_delete [OF _ mf]) (simp only: map_fst_map_group assms(1))
  moreover have "waiting (coalesce st) = group_waiters g + waiting (AList.delete key (coalesce st))"
    using assms by (rule waiting_delete)
  ultimately show ?thesis by (simp add: map_group_def d ac_simps)
qed

lemma mset_remove_fast: "w \<in> set xs \<Longrightarrow> mset (remove_fast w xs) + {#w#} = mset xs"
proof (induction w xs rule: remove_fast.induct)
  case (2 w x xs)
  show ?case
  proof (cases "x = w")
    case True
    show ?thesis
    proof (cases "xs = []")
      case False
      then have "mset xs = mset (butlast xs @ [last xs])" by simp
      then have "mset (last xs # butlast xs) = mset xs" by simp
      then show ?thesis using True False by simp
    qed (use True in simp)
  qed (use 2 in simp)
qed simp

lemma claim_effect:
  assumes "ns_fetch_claim key st = (c, st')" "store_ok st"
  shows "store_ok st'"
    "c = Lead \<Longrightarrow> key \<notin> fst ` set (coalesce st)
       \<and> coalesce st' = (key, \<lparr> tasks = [], syncs = [] \<rparr>) # coalesce st"
    "c \<noteq> Lead \<Longrightarrow> coalesce st' = coalesce st"
    "c = Joined \<Longrightarrow> \<exists>g. map_of (coalesce st) key = Some g"
proof -
  obtain ro st1 where t: "ns_preload_take key st = (ro, st1)" by fastforce
  note ok = store_ok_take [OF assms(2) t]
  have "store_ok (st1 \<lparr> coalesce := x \<rparr>)" for x using ok by (simp add: store_ok_def)
  with ok assms(1) t show "store_ok st'"
    by (auto simp: ns_fetch_claim_def split: option.splits)
  show "c = Lead \<Longrightarrow> key \<notin> fst ` set (coalesce st)
       \<and> coalesce st' = (key, \<lparr> tasks = [], syncs = [] \<rparr>) # coalesce st"
    using assms(1) t ok by (auto simp: ns_fetch_claim_def map_of_eq_None_iff split: option.splits)
  show "c \<noteq> Lead \<Longrightarrow> coalesce st' = coalesce st"
    using assms(1) t ok by (auto simp: ns_fetch_claim_def split: option.splits)
  show "c = Joined \<Longrightarrow> \<exists>g. map_of (coalesce st) key = Some g"
    using assms(1) t ok by (auto simp: ns_fetch_claim_def split: option.splits)
qed

lemma store_ok_map_group [simp]: "store_ok (map_group key f st) = store_ok st"
  by (simp add: store_ok_def)

text \<open>Both joins add one waiter to the group, or lead, or take the preload.\<close>

lemma join_effect:
  assumes claim: "ns_fetch_claim key (sh s) = (c, st1)"
    and ok: "share_ok s"
    and st: "st = (if c = Joined then map_group key f st1 else st1)"
    and f: "\<And>g. group_waiters (f g) = add_mset w (group_waiters g)"
  shows "share_ok (s \<lparr> sh := st,
      inflight := (if c = Lead then key # inflight s else inflight s),
      joined := (if c = Joined then add_mset w (joined s) else joined s) \<rparr>)"
proof -
  have o: "store_ok (sh s)" "distinct (map fst (coalesce (sh s)))"
    "mset (inflight s) = mset (map fst (coalesce (sh s)))"
    "joined s = waiting (coalesce (sh s)) + mset (map fst (delivered s)) + gave_up s"
    using ok by (simp_all add: share_ok_def groups_ok_def)
  note e = claim_effect [OF claim o(1)]
  show ?thesis
  proof (cases c)
    case Lead
    then show ?thesis
      using e(1,2) o st by (simp add: share_ok_def groups_ok_def waiting_def group_waiters_def)
  next
    case Joined
    then have c1: "coalesce st1 = coalesce (sh s)" using e(3) by simp
    obtain g where g: "map_of (coalesce st1) key = Some g" using e(4) Joined c1 by auto
    have "waiting (coalesce (map_group key f st1)) + group_waiters g
        = waiting (coalesce st1) + group_waiters (f g)"
      by (rule map_group_split [OF _ g]) (simp add: c1 o(2))
    then have "waiting (coalesce (map_group key f st1)) = add_mset w (waiting (coalesce st1))"
      using f by simp
    then show ?thesis
      using Joined e(1) o c1 st map_fst_map_group [of key f st1]
      by (simp add: share_ok_def groups_ok_def)
  next
    case (Preloaded r)
    then show ?thesis using e(1,3) o st by (simp add: share_ok_def groups_ok_def)
  qed
qed

lemma share_ok_init:
  "share_ok \<lparr> sh = share_init, inflight = [], joined = {#}, delivered = [], gave_up = {#} \<rparr>"
  by (simp add: share_ok_def share_init_def store_ok_def groups_ok_def waiting_def)

lemma store_ok_expect: "store_ok st \<Longrightarrow> store_ok (ns_net_preload_expect key st)"
  by (auto simp: ns_net_preload_expect_def store_ok_def List.insert_def split: option.split)

lemma store_ok_clear: "store_ok st \<Longrightarrow> store_ok (ns_net_preload_clear st)"
  by (auto simp: ns_net_preload_clear_def store_ok_def)

lemma expect_clear_coalesce [simp]:
  "coalesce (ns_net_preload_expect key st) = coalesce st"
  "coalesce (ns_net_preload_clear st) = coalesce st"
  by (auto simp: ns_net_preload_expect_def ns_net_preload_clear_def split: option.split)

lemma share_ok_deliver:
  assumes "share_ok s" "key \<in> set (inflight s)"
    "ns_fetch_coalesce_deliver key resp (sh s) = (outs, st)"
  shows "share_ok (s \<lparr> sh := st, inflight := remove1 key (inflight s),
      delivered := delivered s @ outs \<rparr>)"
proof -
  have o: "store_ok (sh s)" "distinct (map fst (coalesce (sh s)))"
    "mset (inflight s) = mset (map fst (coalesce (sh s)))"
    "joined s = waiting (coalesce (sh s)) + mset (map fst (delivered s)) + gave_up s"
    using assms(1) by (simp_all add: share_ok_def groups_ok_def)
  have "key \<in> set (map fst (coalesce (sh s)))" using assms(2) o(3) by (metis mset_eq_setD)
  then obtain g where g: "map_of (coalesce (sh s)) key = Some g"
    by (metis map_of_eq_None_iff not_None_eq list.set_map)
  have outs: "mset (map fst outs) = group_waiters g"
    using deliver_outcomes [OF assms(3) o(1)] g
    by (simp add: comp_def group_waiters_def)
  have d: "store_ok st" "coalesce st = AList.delete key (coalesce (sh s))"
    using store_ok_deliver [OF o(1) assms(3)] by simp_all
  have "distinct (map fst (coalesce st))" unfolding d(2) by (rule AList.distinct_delete [OF o(2)])
  moreover have "mset (remove1 key (inflight s)) = mset (map fst (coalesce st))"
    using o(2,3) by (simp add: d(2) AList.delete_keys distinct_remove1_removeAll [symmetric])
  moreover have "waiting (coalesce (sh s)) = group_waiters g + waiting (coalesce st)"
    unfolding d(2) by (rule waiting_delete [OF o(2) g])
  ultimately show ?thesis
    using d(1) o(4) outs by (simp add: share_ok_def groups_ok_def)
qed

lemma share_ok_step:
  assumes "share_step s s'" "share_ok s"
  shows "share_ok s'"
  using assms
proof (cases rule: share_step.cases)
  case (expect key)
  with assms(2) show ?thesis by (simp add: share_ok_def groups_ok_def store_ok_expect)
next
  case clear
  with assms(2) show ?thesis by (simp add: share_ok_def groups_ok_def store_ok_clear)
next
  case (join_async key w c st)
  obtain c' st1 where cl: "ns_fetch_claim key (sh s) = (c', st1)" by fastforce
  have "c' = c \<and> st = (if c = Joined then map_group key (\<lambda>g. g \<lparr> tasks := tasks g @ [w] \<rparr>) st1 else st1)"
    using join_async(2) cl by (cases c') (auto simp: ns_fetch_join_async_def)
  with join_effect [of key s c st1 st "\<lambda>g. g \<lparr> tasks := tasks g @ [w] \<rparr>" w] cl assms(2) join_async(1)
  show ?thesis by (simp add: group_waiters_def)
next
  case (join_sync key w c st)
  obtain c' st1 where cl: "ns_fetch_claim key (sh s) = (c', st1)" by fastforce
  have "c' = c \<and> st = (if c = Joined then map_group key (\<lambda>g. g \<lparr> syncs := syncs g @ [w] \<rparr>) st1 else st1)"
    using join_sync(2) cl by (cases c') (auto simp: ns_fetch_join_sync_def)
  with join_effect [of key s c st1 st "\<lambda>g. g \<lparr> syncs := syncs g @ [w] \<rparr>" w] cl assms(2) join_sync(1)
  show ?thesis by (simp add: group_waiters_def)
next
  case (abandon key g w)
  let ?f = "\<lambda>g. g \<lparr> syncs := remove_fast w (syncs g) \<rparr>"
  have "distinct (map fst (coalesce (sh s)))" using assms(2) by (simp add: share_ok_def groups_ok_def)
  from map_group_split [OF this abandon(2), of ?f]
  have "waiting (coalesce (map_group key ?f (sh s))) + mset (syncs g)
      = waiting (coalesce (sh s)) + mset (remove_fast w (syncs g))"
    by (simp add: group_waiters_def)
  then have "waiting (coalesce (sh s)) + mset (remove_fast w (syncs g))
      = waiting (coalesce (map_group key ?f (sh s))) + (mset (remove_fast w (syncs g)) + {#w#})"
    using mset_remove_fast [OF abandon(3)] by simp
  then have "waiting (coalesce (sh s)) + mset (remove_fast w (syncs g))
      = add_mset w (waiting (coalesce (map_group key ?f (sh s)))) + mset (remove_fast w (syncs g))"
    by simp
  then have "waiting (coalesce (sh s)) = add_mset w (waiting (coalesce (map_group key ?f (sh s))))"
    by (rule add_right_imp_eq)
  with assms(2) abandon(1) map_fst_map_group [of key ?f "sh s"] show ?thesis
    by (simp add: share_ok_def groups_ok_def ns_fetch_join_abandon_def)
next
  case (deliver key resp outs st)
  with share_ok_deliver [OF assms(2)] show ?thesis by simp
qed

lemma share_reachable_ok: "share_reachable s \<Longrightarrow> share_ok s"
  by (induction rule: share_reachable.induct) (auto intro: share_ok_init share_ok_step)

text \<open>(C8) In every run of the shared fetches, whatever the order of
  preloads, joins, abandoned waits and deliveries: no two leaders fetch the same
  key at once and a group exists exactly for the keys being fetched, the preload
  counter is the number of bytes stored and at most 16 MiB, at most 64 preloads
  are expected, only error-free 200 responses without \<open>no-store\<close> are stored, and
  every waiter that joined is either still waiting, was given an outcome once, or
  gave up.\<close>

theorem shared_fetches_sound:
  assumes "share_reachable s"
  shows "distinct (inflight s) \<and> set (inflight s) = fst ` set (coalesce (sh s))
    \<and> pbytes (sh s) = (\<Sum>(k, r)\<leftarrow>pstore (sh s). body_len r) \<and> pbytes (sh s) \<le> 16777216
    \<and> length (expected (sh s)) \<le> 64
    \<and> (\<forall>(k, r)\<in>set (pstore (sh s)). sr_status r = 200 \<and> \<not> sr_error r
         \<and> \<not> ns_response_forbids_reuse r)
    \<and> joined s = (\<Sum>(k, g)\<leftarrow>coalesce (sh s). mset (tasks g) + mset (syncs g))
         + mset (map fst (delivered s)) + gave_up s"
proof -
  have ok: "share_ok s" by (rule share_reachable_ok [OF assms])
  have "(\<Sum>(k, r)\<leftarrow>pstore (sh s). body_len r) = sum_list (map (body_len \<circ> snd) (pstore (sh s)))"
    "(\<Sum>(k, g)\<leftarrow>coalesce (sh s). mset (tasks g) + mset (syncs g)) = waiting (coalesce (sh s))"
    by (simp_all add: waiting_def group_waiters_def comp_def split_def)
  moreover have m: "mset (inflight s) = mset (map fst (coalesce (sh s)))"
    "distinct (map fst (coalesce (sh s)))"
    using ok unfolding share_ok_def groups_ok_def by blast+
  moreover have "distinct (inflight s)" using mset_eq_imp_distinct_iff [OF m(1)] m(2) by blast
  moreover have "set (inflight s) = fst ` set (coalesce (sh s))"
    using mset_eq_setD [OF m(1)] by simp
  ultimately show ?thesis
    using ok by (auto simp: share_ok_def store_ok_def ns_preload_max_bytes_def
        ns_preload_max_entries_def)
qed

text \<open>Two requests for one key and the delivery to the second.\<close>

definition example_share :: share_sys where
  "example_share =
     \<lparr> sh = snd (ns_fetch_coalesce_deliver ''k'' None
              (snd (ns_fetch_join_async ''k'' 2 (snd (ns_fetch_join_async ''k'' 1 share_init))))),
       inflight = [], joined = {#2#}, delivered = [(2, GotError)], gave_up = {#} \<rparr>"

lemma example_share_reachable: "share_reachable example_share"
proof -
  let ?s0 = "\<lparr> sh = share_init, inflight = [], joined = {#}, delivered = [], gave_up = {#} \<rparr>"
  let ?t1 = "snd (ns_fetch_join_async ''k'' 1 share_init)"
  let ?t2 = "snd (ns_fetch_join_async ''k'' 2 ?t1)"
  have s1: "share_reachable \<lparr> sh = ?t1, inflight = [''k''], joined = {#}, delivered = [], gave_up = {#} \<rparr>"
    using share_reachable.step [OF share_reachable.init join_async [of "''k''" 1 ?s0 Lead ?t1]]
    by (simp add: ns_fetch_join_async_def ns_fetch_claim_def ns_preload_take_def share_init_def)
  have s2: "share_reachable \<lparr> sh = ?t2, inflight = [''k''], joined = {#2#}, delivered = [], gave_up = {#} \<rparr>"
    using share_reachable.step [OF s1 join_async [of "''k''" 2 _ Joined ?t2]]
    by (simp add: ns_fetch_join_async_def ns_fetch_claim_def ns_preload_take_def share_init_def)
  show ?thesis
    unfolding example_share_def
    using share_reachable.step [OF s2 deliver [of "''k''" _ None "[(2, GotError)]"]]
    by (simp add: ns_fetch_join_async_def ns_fetch_claim_def ns_preload_take_def share_init_def
        ns_fetch_coalesce_deliver_def map_group_def)
qed

theorem shared_fetches_sound_witness:
  "distinct (inflight example_share)
    \<and> set (inflight example_share) = fst ` set (coalesce (sh example_share))
    \<and> pbytes (sh example_share) = (\<Sum>(k, r)\<leftarrow>pstore (sh example_share). body_len r)
    \<and> pbytes (sh example_share) \<le> 16777216
    \<and> length (expected (sh example_share)) \<le> 64
    \<and> joined example_share
       = (\<Sum>(k, g)\<leftarrow>coalesce (sh example_share). mset (tasks g) + mset (syncs g))
         + mset (map fst (delivered example_share)) + gave_up example_share"
  using shared_fetches_sound [OF example_share_reachable] by blast

section \<open>The throttle of concurrent fetches\<close>

definition ns_max_concurrent_fetches :: nat where
  "ns_max_concurrent_fetches = 32"

definition ns_max_fetches_per_host :: nat where
  "ns_max_fetches_per_host = 6"

text \<open>A task is its number and the host of its address, if it has one.\<close>

type_synonym task = "nat \<times> cptr"

record throttle =
  tqueue :: "task list"
  tactive :: nat
  thosts :: "string \<Rightarrow> nat option"

definition throttle_init :: throttle where
  "throttle_init = \<lparr> tqueue = [], tactive = 0, thosts = Map.empty \<rparr>"

definition ns_fetch_host_count :: "(string \<Rightarrow> nat option) \<Rightarrow> cptr \<Rightarrow> nat" where
  "ns_fetch_host_count tab hst =
     (case hst of None \<Rightarrow> 0
      | Some h \<Rightarrow> (case tab h of None \<Rightarrow> 0 | Some n \<Rightarrow> n))"

definition ns_fetch_host_adjust ::
    "cptr \<Rightarrow> int \<Rightarrow> (string \<Rightarrow> nat option) \<Rightarrow> (string \<Rightarrow> nat option)" where
  "ns_fetch_host_adjust hst delta tab =
     (case hst of None \<Rightarrow> tab
      | Some h \<Rightarrow>
         let n = int (ns_fetch_host_count tab hst) + delta
         in if n \<le> 0 then tab(h := None) else tab(h \<mapsto> nat n))"

text \<open>The first task of the queue whose host is below its limit.\<close>

fun pick_task :: "(string \<Rightarrow> nat option) \<Rightarrow> task list \<Rightarrow> (task \<times> task list) option" where
  "pick_task tab [] = None"
| "pick_task tab (t # ts) =
     (if snd t = None \<or> ns_fetch_host_count tab (snd t) < ns_max_fetches_per_host
      then Some (t, ts)
      else (case pick_task tab ts of None \<Rightarrow> None | Some (u, rest) \<Rightarrow> Some (u, t # rest)))"

text \<open>What runs under \<open>g_fetch_throttle_mutex\<close>, one locked region each: a round of the loop of
  \<open>ns_fetch_throttle_dispatch\<close>, which returns or takes a task; putting a task in the queue; the
  end of \<open>ns_fetch_thread\<close>; and emptying the queue when the network is shut down.\<close>

definition ns_fetch_throttle_dispatch :: "throttle \<Rightarrow> (task \<times> throttle) option" where
  "ns_fetch_throttle_dispatch st =
     (if tactive st \<ge> ns_max_concurrent_fetches \<or> tqueue st = [] then None
      else map_option (\<lambda>(t, rest). (t, st \<lparr> tqueue := rest, tactive := tactive st + 1,
               thosts := ns_fetch_host_adjust (snd t) 1 (thosts st) \<rparr>))
             (pick_task (thosts st) (tqueue st)))"

definition ns_fetch_throttle_submit :: "task \<Rightarrow> throttle \<Rightarrow> throttle" where
  "ns_fetch_throttle_submit t st = st \<lparr> tqueue := tqueue st @ [t] \<rparr>"

definition ns_fetch_thread_end :: "cptr \<Rightarrow> throttle \<Rightarrow> throttle" where
  "ns_fetch_thread_end hst st =
     st \<lparr> tactive := (if tactive st > 0 then tactive st - 1 else tactive st),
          thosts := ns_fetch_host_adjust hst (-1) (thosts st) \<rparr>"

definition ns_net_drain :: "throttle \<Rightarrow> throttle" where
  "ns_net_drain st = st \<lparr> tqueue := [] \<rparr>"

text \<open>All threads: how many are in the dispatch loop before a round, the tasks taken by threads
  of the loop that have not yet handed them to the pool, the tasks handed over whose thread has
  not ended; and, as history, the tasks submitted and taken. A thread that submits or ends
  goes on to the loop, and one that has handed over its task goes around it again.\<close>

record throttle_sys =
  th :: throttle
  looping :: nat
  taken :: "task list"
  running :: "task list"
  submitted :: "task list"
  picked :: "task list"

definition throttle_sys_init :: throttle_sys where
  "throttle_sys_init = \<lparr> th = throttle_init, looping = 0, taken = [], running = [], submitted = [], picked = [] \<rparr>"

inductive loop_step :: "throttle_sys \<Rightarrow> throttle_sys \<Rightarrow> bool" where
  round_takes: "0 < looping s \<Longrightarrow> ns_fetch_throttle_dispatch (th s) = Some (t, st) \<Longrightarrow>
    loop_step s (s \<lparr> th := st, looping := looping s - 1, taken := taken s @ [t], picked := picked s @ [t] \<rparr>)"
| round_returns: "0 < looping s \<Longrightarrow> ns_fetch_throttle_dispatch (th s) = None \<Longrightarrow>
    loop_step s (s \<lparr> looping := looping s - 1 \<rparr>)"
| hand_over: "t \<in> set (taken s) \<Longrightarrow>
    loop_step s (s \<lparr> taken := remove1 t (taken s), running := running s @ [t], looping := looping s + 1 \<rparr>)"

inductive throttle_step :: "throttle_sys \<Rightarrow> throttle_sys \<Rightarrow> bool" where
  submit: "throttle_step s (s \<lparr> th := ns_fetch_throttle_submit t (th s), looping := looping s + 1,
      submitted := submitted s @ [t] \<rparr>)"
| thread_end: "t \<in> set (running s) \<Longrightarrow>
    throttle_step s (s \<lparr> th := ns_fetch_thread_end (snd t) (th s), running := remove1 t (running s),
      looping := looping s + 1 \<rparr>)"
| drain: "throttle_step s (s \<lparr> th := ns_net_drain (th s) \<rparr>)"
| loop: "loop_step s s' \<Longrightarrow> throttle_step s s'"

inductive throttle_reachable :: "throttle_sys \<Rightarrow> bool" where
  t_init: "throttle_reachable throttle_sys_init"
| t_step: "throttle_reachable s \<Longrightarrow> throttle_step s s' \<Longrightarrow> throttle_reachable s'"

text \<open>The number of running tasks of a host.\<close>

definition running_on :: "string \<Rightarrow> task list \<Rightarrow> nat" where
  "running_on h run = length (filter (\<lambda>t. snd t = Some h) run)"

text \<open>The tasks that count as active.\<close>

definition active :: "throttle_sys \<Rightarrow> task list" where
  "active s = taken s @ running s"

definition throttle_ok :: "throttle \<Rightarrow> task list \<Rightarrow> bool" where
  "throttle_ok st run \<longleftrightarrow>
     tactive st = length run \<and> length run \<le> ns_max_concurrent_fetches
     \<and> (\<forall>h. ns_fetch_host_count (thosts st) (Some h) = running_on h run
          \<and> running_on h run \<le> ns_max_fetches_per_host)"

definition work_conserving :: "throttle \<Rightarrow> task list \<Rightarrow> bool" where
  "work_conserving st run \<longleftrightarrow>
     length run = ns_max_concurrent_fetches
     \<or> (\<forall>t\<in>set (tqueue st). \<exists>h. snd t = Some h \<and> running_on h run = ns_max_fetches_per_host)"

abbreviation eligible :: "(string \<Rightarrow> nat option) \<Rightarrow> task \<Rightarrow> bool" where
  "eligible tab t \<equiv> snd t = None \<or> ns_fetch_host_count tab (snd t) < ns_max_fetches_per_host"

lemma pick_task_Some:
  "pick_task tab q = Some (t, rest) \<Longrightarrow>
   \<exists>a b. q = a @ t # b \<and> rest = a @ b \<and> eligible tab t \<and> (\<forall>x\<in>set a. \<not> eligible tab x)"
proof (induction q arbitrary: rest)
  case (Cons x q)
  show ?case
  proof (cases "eligible tab x")
    case True
    then show ?thesis using Cons.prems by (intro exI [of _ "[]"] exI [of _ rest]) auto
  next
    case False
    then obtain r where r: "pick_task tab q = Some (t, r)" "rest = x # r"
      using Cons.prems by (auto split: option.splits)
    from Cons.IH [OF r(1)] obtain a b where
      "q = a @ t # b \<and> r = a @ b \<and> eligible tab t \<and> (\<forall>x\<in>set a. \<not> eligible tab x)" by blast
    then show ?thesis using False r(2) by (intro exI [of _ "x # a"] exI [of _ b]) auto
  qed
qed simp

lemma pick_task_None: "pick_task tab q = None \<Longrightarrow> \<forall>x\<in>set q. \<not> eligible tab x"
  by (induction q) (auto split: if_splits option.splits)

lemma host_count_adjust:
  "ns_fetch_host_count (ns_fetch_host_adjust hst d tab) (Some h) =
     (if hst = Some h then nat (int (ns_fetch_host_count tab hst) + d)
      else ns_fetch_host_count tab (Some h))"
  by (auto simp: ns_fetch_host_count_def ns_fetch_host_adjust_def Let_def split: option.split)

lemma running_on_append [simp]: "running_on h (a @ b) = running_on h a + running_on h b"
  by (simp add: running_on_def)

lemma running_on_Cons [simp]:
  "running_on h (t # ts) = (if snd t = Some h then 1 else 0) + running_on h ts"
  by (simp add: running_on_def)

lemma running_on_Nil [simp]: "running_on h [] = 0"
  by (simp add: running_on_def)

lemma running_on_remove1:
  "t \<in> set run \<Longrightarrow> running_on h (remove1 t run) = running_on h run - (if snd t = Some h then 1 else 0)"
  by (simp add: running_on_def filter_remove1 length_remove1)

lemma throttle_ok_start:
  assumes "throttle_ok st run" "tactive st < ns_max_concurrent_fetches" "eligible (thosts st) t"
  shows "throttle_ok (st \<lparr> tqueue := q, tactive := tactive st + 1,
            thosts := ns_fetch_host_adjust (snd t) 1 (thosts st) \<rparr>) (run @ [t])"
proof -
  have "ns_fetch_host_count (thosts st) (Some h) = running_on h run"
      "running_on h run \<le> ns_max_fetches_per_host" for h
    using assms(1) by (auto simp: throttle_ok_def)
  moreover have "snd t = Some h \<Longrightarrow> running_on h run < ns_max_fetches_per_host" for h
    using assms(3) calculation(1) [of h] by auto
  ultimately show ?thesis
    using assms(1,2) by (auto simp: throttle_ok_def host_count_adjust nat_add_distrib Suc_le_eq)
qed

lemma round_takes_ok:
  assumes "ns_fetch_throttle_dispatch st = Some (t, st')" "throttle_ok st run"
  shows "throttle_ok st' (run @ [t])
    \<and> filter (\<lambda>u. snd u = hst) (t # tqueue st') = filter (\<lambda>u. snd u = hst) (tqueue st)"
proof -
  obtain rest where p: "pick_task (thosts st) (tqueue st) = Some (t, rest)" "tactive st < ns_max_concurrent_fetches"
    "st' = st \<lparr> tqueue := rest, tactive := tactive st + 1, thosts := ns_fetch_host_adjust (snd t) 1 (thosts st) \<rparr>"
    using assms(1) by (auto simp: ns_fetch_throttle_dispatch_def split: if_splits)
  from pick_task_Some [OF p(1)] obtain a b where ab: "tqueue st = a @ t # b" "rest = a @ b"
    "eligible (thosts st) t" "\<forall>x\<in>set a. \<not> eligible (thosts st) x" by blast
  have "filter (\<lambda>u. snd u = hst) a = []" if "snd t = hst"
    using ab(3,4) that by (auto simp: filter_empty_conv)
  then have "filter (\<lambda>u. snd u = hst) (t # rest) = filter (\<lambda>u. snd u = hst) (tqueue st)"
    by (cases "snd t = hst") (simp_all add: ab(1,2))
  then show ?thesis using throttle_ok_start [OF assms(2) p(2) ab(3)] p(3) by simp
qed

lemma round_returns_conserving:
  assumes "ns_fetch_throttle_dispatch st = None" "throttle_ok st run"
  shows "work_conserving st run"
proof (cases "ns_max_concurrent_fetches \<le> tactive st \<or> tqueue st = []")
  case True
  then show ?thesis using assms(2) by (auto simp: throttle_ok_def work_conserving_def)
next
  case False
  then have none: "pick_task (thosts st) (tqueue st) = None"
    using assms(1) by (simp add: ns_fetch_throttle_dispatch_def)
  have "\<exists>h. snd t = Some h \<and> running_on h run = ns_max_fetches_per_host" if "t \<in> set (tqueue st)" for t
  proof -
    have "\<not> eligible (thosts st) t" using pick_task_None [OF none] that by blast
    then obtain h where h: "snd t = Some h"
        "ns_max_fetches_per_host \<le> ns_fetch_host_count (thosts st) (Some h)"
      by (cases "snd t") auto
    then have "running_on h run = ns_max_fetches_per_host"
      using assms(2) by (auto simp: throttle_ok_def intro: le_antisym)
    with h(1) show ?thesis by blast
  qed
  then show ?thesis by (simp add: work_conserving_def)
qed

lemma throttle_ok_mset:
  assumes "mset run = mset run'"
  shows "throttle_ok st run = throttle_ok st run'"
proof -
  have "running_on h run = running_on h run'" for h
    unfolding running_on_def using assms by (metis mset_filter size_mset)
  moreover have "length run = length run'" using assms by (metis size_mset)
  ultimately show ?thesis by (simp add: throttle_ok_def)
qed

lemma thread_end_ok:
  assumes "throttle_ok st run" "t \<in> set run"
  shows "throttle_ok (ns_fetch_thread_end (snd t) st) (remove1 t run)"
proof -
  have ok: "tactive st = length run" "length run \<le> ns_max_concurrent_fetches"
      "\<And>h. ns_fetch_host_count (thosts st) (Some h) = running_on h run"
      "\<And>h. running_on h run \<le> ns_max_fetches_per_host"
    using assms(1) by (auto simp: throttle_ok_def)
  have "running_on h run - c \<le> ns_max_fetches_per_host" for h c
    using ok(4) [of h] by simp
  then show ?thesis
    using ok assms(2) by (auto simp: throttle_ok_def ns_fetch_thread_end_def host_count_adjust running_on_remove1
      length_remove1 nat_diff_distrib)
qed

definition throttle_sys_ok :: "throttle_sys \<Rightarrow> bool" where
  "throttle_sys_ok s \<longleftrightarrow> throttle_ok (th s) (active s)
     \<and> (looping s = 0 \<and> taken s = [] \<longrightarrow> work_conserving (th s) (active s))
     \<and> (\<forall>hst. subseq (filter (\<lambda>u. snd u = hst) (picked s @ tqueue (th s))) (filter (\<lambda>u. snd u = hst) (submitted s)))"

lemma loop_step_ok:
  assumes "loop_step s s'" "throttle_sys_ok s"
  shows "throttle_sys_ok s'"
  using assms
proof (induction rule: loop_step.induct)
  case (round_takes s t st)
  have ok: "throttle_ok (th s) (active s)" using round_takes.prems by (simp add: throttle_sys_ok_def)
  have "throttle_ok st (active s @ [t])" using round_takes_ok [OF round_takes.hyps(2) ok] by blast
  then have "throttle_ok st (taken s @ [t] @ running s)"
    by (subst throttle_ok_mset [where run' = "active s @ [t]"]) (simp_all add: active_def)
  then show ?case
    using round_takes.prems round_takes_ok [OF round_takes.hyps(2) ok] by (simp add: throttle_sys_ok_def active_def)
next
  case (round_returns s)
  then show ?case
    using round_returns_conserving [OF round_returns.hyps(2), of "active s"] by (auto simp: throttle_sys_ok_def active_def)
next
  case (hand_over t s)
  have "throttle_ok (th s) (remove1 t (taken s) @ running s @ [t]) = throttle_ok (th s) (active s)"
    by (rule throttle_ok_mset) (use hand_over.hyps in \<open>simp add: active_def\<close>)
  then show ?case using hand_over.prems by (simp add: throttle_sys_ok_def active_def)
qed

lemma throttle_reachable_ok:
  assumes "throttle_reachable s"
  shows "throttle_sys_ok s"
  using assms
proof (induction rule: throttle_reachable.induct)
  case t_init
  show ?case
    by (simp add: throttle_sys_ok_def throttle_ok_def work_conserving_def throttle_sys_init_def throttle_init_def
        ns_fetch_host_count_def active_def)
next
  case (t_step s s')
  from t_step.hyps(2) t_step.IH show ?case
  proof (induction rule: throttle_step.induct)
    case (submit s t)
    then show ?case
      by (simp add: throttle_sys_ok_def throttle_ok_def ns_fetch_throttle_submit_def active_def flip: append_assoc)
  next
    case (thread_end t s)
    have "throttle_ok (th s) (active s)" "t \<in> set (active s)"
      using thread_end by (simp_all add: throttle_sys_ok_def active_def)
    then have "throttle_ok (ns_fetch_thread_end (snd t) (th s)) (remove1 t (active s))" by (rule thread_end_ok)
    then have "throttle_ok (ns_fetch_thread_end (snd t) (th s)) (taken s @ remove1 t (running s))"
      by (subst throttle_ok_mset [where run' = "remove1 t (active s)"])
        (use thread_end.hyps in \<open>simp_all add: active_def\<close>)
    then show ?case using thread_end.prems
      by (simp add: throttle_sys_ok_def active_def) (simp add: ns_fetch_thread_end_def)
  next
    case (drain s)
    have "subseq (filter (\<lambda>u. snd u = hst) (picked s)) (filter (\<lambda>u. snd u = hst) (submitted s))" for hst
    proof -
      have "subseq (filter (\<lambda>u. snd u = hst) (picked s)) (filter (\<lambda>u. snd u = hst) (picked s @ tqueue (th s)))"
        unfolding filter_append by (rule prefix_imp_subseq) simp
      moreover have "subseq (filter (\<lambda>u. snd u = hst) (picked s @ tqueue (th s))) (filter (\<lambda>u. snd u = hst) (submitted s))"
        using drain by (simp only: throttle_sys_ok_def)
      ultimately show ?thesis by (rule subseq_order.order_trans)
    qed
    then show ?case using drain
      by (simp add: throttle_sys_ok_def throttle_ok_def work_conserving_def ns_net_drain_def active_def)
  next
    case (loop s s')
    then show ?case using loop_step_ok by blast
  qed
qed

text \<open>The threads of the loop do come to rest: each of their steps lowers this number, and while one
  is in the loop or holds a task there is a step.\<close>

definition loop_work :: "throttle_sys \<Rightarrow> nat" where
  "loop_work s = 3 * length (tqueue (th s)) + 2 * length (taken s) + looping s"

lemma loop_step_work: "loop_step s s' \<Longrightarrow> loop_work s' < loop_work s"
proof (induction rule: loop_step.induct)
  case (round_takes s t st)
  then obtain rest where "pick_task (thosts (th s)) (tqueue (th s)) = Some (t, rest)" "tqueue st = rest"
    by (auto simp: ns_fetch_throttle_dispatch_def split: if_splits)
  then have "length (tqueue (th s)) = Suc (length (tqueue st))" by (auto dest: pick_task_Some)
  then show ?case using round_takes by (simp add: loop_work_def)
next
  case (hand_over t s)
  then have "length (taken s) = Suc (length (remove1 t (taken s)))"
    using length_pos_if_in_set [of t "taken s"] by (simp add: length_remove1)
  then show ?case by (simp add: loop_work_def)
qed (simp add: loop_work_def)

lemma loop_goes_on: "0 < looping s \<or> taken s \<noteq> [] \<Longrightarrow> \<exists>s'. loop_step s s'"
proof (elim disjE)
  assume l: "0 < looping s"
  then show "\<exists>s'. loop_step s s'"
    using round_takes [OF l] round_returns [OF l] by (cases "ns_fetch_throttle_dispatch (th s)") auto
next
  assume "taken s \<noteq> []"
  then show "\<exists>s'. loop_step s s'" using hand_over [of "hd (taken s)" s] by auto
qed

text \<open>(C31) Whatever order the locked regions of the threads come in: at most 32 fetches are active
  and at most 6 for one host, and the counters say exactly how many. Nothing waits for
  long without a reason: while no thread is in the dispatch loop, a task is queued only if 32 are
  active or its own host has 6; and the threads that are in the loop leave it, as there
  is always a next step of it, and each lowers the number \<open>loop_work\<close>. Tasks of one host are taken in the order in which they were submitted.\<close>

theorem throttle_bounds_and_progress:
  assumes "throttle_reachable s"
  shows "tactive (th s) = length (active s) \<and> length (active s) \<le> 32
    \<and> (\<forall>h. ns_fetch_host_count (thosts (th s)) (Some h) = length (filter (\<lambda>t. snd t = Some h) (active s))
         \<and> length (filter (\<lambda>t. snd t = Some h) (active s)) \<le> 6)
    \<and> (if looping s = 0 \<and> taken s = []
       then length (active s) = 32
         \<or> (\<forall>t\<in>set (tqueue (th s)). \<exists>h. snd t = Some h
              \<and> length (filter (\<lambda>t. snd t = Some h) (active s)) = 6)
       else (\<exists>s'. loop_step s s') \<and> (\<forall>s'. loop_step s s' \<longrightarrow> loop_work s' < loop_work s))
    \<and> (\<forall>hst. subseq (filter (\<lambda>t. snd t = hst) (picked s @ tqueue (th s))) (filter (\<lambda>t. snd t = hst) (submitted s)))"
  using throttle_reachable_ok [OF assms] loop_goes_on [of s] loop_step_work [of s]
  by (simp add: throttle_sys_ok_def throttle_ok_def work_conserving_def running_on_def
      ns_max_concurrent_fetches_def ns_max_fetches_per_host_def)

text \<open>Two threads submit a task each before either looks at the queue.\<close>

theorem throttle_bounds_and_progress_witness:
  "\<exists>s. throttle_reachable s \<and> taken s = [(1, Some ''a'')] \<and> tqueue (th s) = [(2, None)] \<and> looping s = 1
     \<and> length (active s) \<le> 32 \<and> (\<exists>s'. loop_step s s')"
proof -
  let ?s1 = "throttle_sys_init \<lparr> th := ns_fetch_throttle_submit (1, Some ''a'') throttle_init, looping := 1,
      submitted := [(1, Some ''a'')] \<rparr>"
  let ?s2 = "?s1 \<lparr> th := ns_fetch_throttle_submit (2, None) (th ?s1), looping := 2,
      submitted := [(1, Some ''a''), (2, None)] \<rparr>"
  have r1: "throttle_reachable ?s1"
    using t_step [OF t_init submit [of _ "(1, Some ''a'')"]] by (simp add: throttle_sys_init_def)
  have r2: "throttle_reachable ?s2"
    using t_step [OF r1 submit [of _ "(2, None)"]] by (simp add: throttle_sys_init_def numeral_2_eq_2)
  obtain st where d: "ns_fetch_throttle_dispatch (th ?s2) = Some ((1, Some ''a''), st)" "tqueue st = [(2, None)]"
    by (simp add: ns_fetch_throttle_dispatch_def ns_fetch_throttle_submit_def throttle_init_def ns_fetch_host_count_def
        ns_max_concurrent_fetches_def ns_max_fetches_per_host_def)
  let ?s3 = "?s2 \<lparr> th := st, looping := 1, taken := [(1, Some ''a'')], picked := [(1, Some ''a'')] \<rparr>"
  have r3: "throttle_reachable ?s3"
    using t_step [OF r2 loop [OF round_takes [OF _ d(1)]]] by (simp add: throttle_sys_init_def)
  show ?thesis using r3 d(2) throttle_bounds_and_progress [OF r3]
    by (intro exI [of _ ?s3]) (simp add: throttle_sys_init_def)
qed

section \<open>Connection slots of an origin\<close>

definition ns_net_max_per_origin :: nat where
  "ns_net_max_per_origin = 6"

definition origin_slot_key :: "cptr \<Rightarrow> cptr" where
  "origin_slot_key og = (case og of None \<Rightarrow> None | Some s \<Rightarrow> if s = [] then None else Some (strdown s))"

text \<open>One test of the waiting loop: the slot is held, the call returns without
  one, or the thread waits for the condition and tests again.\<close>

datatype slot_result = SlotHeld | NoSlot | SlotWait

definition ns_net_acquire_origin_slot ::
    "cptr \<Rightarrow> bool \<Rightarrow> (string \<Rightarrow> nat option) \<Rightarrow> slot_result \<times> (string \<Rightarrow> nat option)" where
  "ns_net_acquire_origin_slot og cancelled tab =
     (case origin_slot_key og of
        None \<Rightarrow> (NoSlot, tab)
      | Some k \<Rightarrow>
         let n = (case tab k of None \<Rightarrow> 0 | Some n \<Rightarrow> n);
             tab1 = tab(k \<mapsto> n)
         in if n \<ge> ns_net_max_per_origin
            then (if cancelled then (NoSlot, tab1) else (SlotWait, tab1))
            else (SlotHeld, tab1(k \<mapsto> n + 1)))"

definition ns_net_release_origin_slot ::
    "cptr \<Rightarrow> (string \<Rightarrow> nat option) \<Rightarrow> (string \<Rightarrow> nat option)" where
  "ns_net_release_origin_slot og tab =
     (case origin_slot_key og of
        None \<Rightarrow> tab
      | Some k \<Rightarrow>
         (case tab k of None \<Rightarrow> tab
          | Some n \<Rightarrow> if n > 0 then tab(k \<mapsto> n - 1) else tab))"

definition slots_ok :: "(string \<Rightarrow> nat option) \<Rightarrow> bool" where
  "slots_ok tab \<longleftrightarrow> (\<forall>k n. tab k = Some n \<longrightarrow> n \<le> ns_net_max_per_origin)"

lemma acquire_slots_ok:
  "slots_ok tab \<Longrightarrow> slots_ok (snd (ns_net_acquire_origin_slot og cancelled tab))"
  by (auto simp: slots_ok_def ns_net_acquire_origin_slot_def Let_def not_le Suc_le_eq
      intro: le_antisym split: option.split)

lemma release_slots_ok: "slots_ok tab \<Longrightarrow> slots_ok (ns_net_release_origin_slot og tab)"
  by (auto simp: slots_ok_def ns_net_release_origin_slot_def intro: le_trans [OF diff_le_self]
      split: option.splits if_splits)

text \<open>A release gives back what an acquire took, and lets the next waiter in.\<close>

lemma release_after_acquire:
  assumes "ns_net_acquire_origin_slot og c tab = (SlotHeld, tab')" "origin_slot_key og = Some k"
  shows "ns_net_release_origin_slot og tab' = tab(k \<mapsto> (case tab k of None \<Rightarrow> 0 | Some n \<Rightarrow> n))"
  using assms
  by (auto simp: ns_net_acquire_origin_slot_def ns_net_release_origin_slot_def Let_def
      split: option.splits if_splits)

end
