(* ===== verification/Csp.thy ===== *)
theory Csp
  imports Net_Url
begin

text \<open>
  The Content-Security-Policy parser and checks (\<open>src/src/csp.c\<close>).

  A policy keeps, for each kind of directive, the source list of the first
  directive of that kind: \<open>set[k]\<close> and \<open>sources[k]\<close> are one map to an optional
  list, since the code allocates the list exactly when it sets the flag. SHA-2
  and base64 are the parameters \<open>digest\<close> and \<open>b64\<close> of the hash check.
\<close>

section \<open>Policies\<close>

datatype ns_csp_kind =
    CspDefault | CspScript | CspStyle | CspImg | CspMedia | CspConnect | CspFont
  | CspFrame | CspChild | CspWorker | CspFrameAncestors | CspObject | CspBaseUri | CspFormAction

type_synonym ns_csp_policy = "ns_csp_kind \<Rightarrow> string list option"

text \<open>\<open>ns_csp *\<close>: null, or the list of policies.\<close>

type_synonym ns_csp = "ns_csp_policy list option"

definition directive_map :: "(string \<times> ns_csp_kind) list" where
  "directive_map =
     [(''default-src'', CspDefault), (''script-src'', CspScript), (''style-src'', CspStyle),
      (''img-src'', CspImg), (''media-src'', CspMedia), (''connect-src'', CspConnect),
      (''font-src'', CspFont), (''frame-src'', CspFrame), (''child-src'', CspChild),
      (''worker-src'', CspWorker), (''frame-ancestors'', CspFrameAncestors),
      (''object-src'', CspObject), (''base-uri'', CspBaseUri), (''form-action'', CspFormAction)]"

definition directive_kind :: "string \<Rightarrow> ns_csp_kind option" where
  "directive_kind name =
     (case filter (\<lambda>m. strcaseeq name (fst m)) directive_map of [] \<Rightarrow> None | m # _ \<Rightarrow> Some (snd m))"

text \<open>One clause of a policy.\<close>

definition csp_blank :: "char \<Rightarrow> bool" where
  "csp_blank c = (c = SP \<or> c = HT)"

definition policy_clause :: "string \<Rightarrow> ns_csp_policy \<Rightarrow> ns_csp_policy" where
  "policy_clause raw p =
     (let clause = strstrip raw in
      if clause = [] then p
      else
        (case strsplit_set csp_blank clause of
           [] \<Rightarrow> p
         | name # toks \<Rightarrow>
             (case directive_kind name of
                None \<Rightarrow> p
              | Some k \<Rightarrow>
                  if p k \<noteq> None then p
                  else p(k \<mapsto> filter (\<lambda>t. t \<noteq> []) (map strstrip toks)))))"

definition policy_parse :: "string \<Rightarrow> ns_csp_policy" where
  "policy_parse text = fold policy_clause (strsplit CHR '';'' text) Map.empty"

definition ns_csp_parse :: "cptr \<Rightarrow> ns_csp" where
  "ns_csp_parse header_value =
     (case header_value of None \<Rightarrow> None
      | Some h \<Rightarrow>
        if h = [] then None
        else
          let ps = map policy_parse (filter (\<lambda>t. t \<noteq> []) (map strstrip (strsplit CHR '','' h)))
          in if ps = [] then None else Some ps)"

text \<open>The second component is what is left of the merged policy.\<close>

definition ns_csp_merge :: "ns_csp \<Rightarrow> ns_csp \<Rightarrow> ns_csp \<times> ns_csp" where
  "ns_csp_merge dst src =
     (case (dst, src) of (Some d, Some s) \<Rightarrow> (Some (d @ s), Some []) | _ \<Rightarrow> (dst, src))"

section \<open>Matching a source\<close>

definition char_at :: "string \<Rightarrow> nat \<Rightarrow> char" where
  "char_at s i = (if i < length s then s ! i else NUL)"

definition url_scheme_matches :: "string \<Rightarrow> string \<Rightarrow> bool" where
  "url_scheme_matches url sch =
     (if sch = [] then False
      else
        let cmp_len = (if last sch = CHR '':'' then length sch - 1 else length sch)
        in if \<not> strncaseeq cmp_len url sch then False else char_at url cmp_len = CHR '':'')"

definition scheme_part_matches :: "string \<Rightarrow> string \<Rightarrow> bool" where
  "scheme_part_matches scheme url =
     (let n = length scheme in
      if strncaseeq n url scheme \<and> char_at url n = CHR '':'' then True
      else if n = 4 \<and> strncaseeq 4 scheme ''http'' then strncaseeq 6 url ''https:''
      else if n = 2 \<and> strncaseeq 2 scheme ''ws'' then strncaseeq 4 url ''wss:''
      else False)"

definition is_network_scheme_url :: "string \<Rightarrow> bool" where
  "is_network_scheme_url url =
     list_ex (url_scheme_matches url) [''http:'', ''https:'', ''ws:'', ''wss:'', ''ftp:'']"

definition default_port_for_scheme :: "string \<Rightarrow> string" where
  "default_port_for_scheme scheme =
     (let s = (if scheme \<noteq> [] \<and> last scheme = CHR '':'' then butlast scheme else scheme)
      in if strcaseeq s ''https'' \<or> strcaseeq s ''wss'' then ''443''
         else if strcaseeq s ''http'' \<or> strcaseeq s ''ws'' then ''80''
         else if strcaseeq s ''ftp'' then ''21''
         else [])"

definition csp_port_matches :: "cptr \<Rightarrow> string \<Rightarrow> string \<Rightarrow> bool" where
  "csp_port_matches src_port res_port res_scheme =
     (if src_port = Some ''*'' then True
      else if src_port = None \<or> src_port = Some [] then
        (if res_port = [] then True
         else let d = default_port_for_scheme res_scheme in d \<noteq> [] \<and> res_port = d)
      else
        let rp = (if res_port \<noteq> [] then res_port else default_port_for_scheme res_scheme)
        in rp \<noteq> [] \<and> src_port = Some rp)"

definition csp_path_matches :: "cptr \<Rightarrow> string \<Rightarrow> bool" where
  "csp_path_matches src_path res_path =
     (case src_path of None \<Rightarrow> True
      | Some sp \<Rightarrow>
        if sp = [] \<or> sp = ''/'' then True
        else
          let rp = (if res_path \<noteq> [] then res_path else ''/'')
          in if last sp = CHR ''/'' then strneq (length sp) rp sp else rp = sp)"

text \<open>The host expression of a source: the text after \<open>://\<close>, cut at the first
  colon before the path.\<close>

record host_expr =
  he_host :: string
  he_port :: cptr
  he_path :: cptr

definition split_host_expr :: "string \<Rightarrow> host_expr" where
  "split_host_expr s =
     (let authority = takeWhile (\<lambda>c. c \<noteq> CHR ''/'') s;
          path = strchr s CHR ''/'';
          hst = takeWhile (\<lambda>c. c \<noteq> CHR '':'') authority
      in \<lparr> he_host = hst,
           he_port = (if CHR '':'' \<in> set authority
                      then Some (tl (dropWhile (\<lambda>c. c \<noteq> CHR '':'') authority)) else None),
           he_path = path \<rparr>)"

definition csp_host_matches :: "string \<Rightarrow> string \<Rightarrow> bool" where
  "csp_host_matches pat hn =
     (if length pat \<ge> 2 \<and> starts_with ''*.'' pat then
        (let suffix = tl pat
         in length hn > length suffix
            \<and> strcaseeq (drop (length hn - length suffix) hn) suffix)
      else strcaseeq hn pat)"

text \<open>A source without a scheme takes the one of the document.\<close>

definition schemeless_ok :: "url_parser \<Rightarrow> string \<Rightarrow> string \<Rightarrow> cptr \<Rightarrow> bool" where
  "schemeless_ok lxb url res_scheme doc_url =
     (let doc_scheme = (case doc_url of None \<Rightarrow> None
            | Some d \<Rightarrow> (case ns_url_parts_new lxb (Some d) of None \<Rightarrow> None
                         | Some p \<Rightarrow> Some (protocol p)))
      in case doc_scheme of
           Some ds \<Rightarrow>
             if ds \<noteq> [] then
               strcaseeq res_scheme ds
               \<or> (strcaseeq ds ''http:'' \<and> strcaseeq res_scheme ''https:'')
               \<or> (strcaseeq ds ''ws:'' \<and> strcaseeq res_scheme ''wss:'')
             else is_network_scheme_url url
         | None \<Rightarrow> is_network_scheme_url url)"

definition csp_scheme_sources :: "string list" where
  "csp_scheme_sources = [''https:'', ''http:'', ''wss:'', ''ws:'', ''data:'', ''blob:'']"

definition source_matches :: "url_parser \<Rightarrow> string \<Rightarrow> string \<Rightarrow> cptr \<Rightarrow> bool" where
  "source_matches lxb src url doc_url =
     (if src = [] then False
      else if src = SQ # ''none'' @ [SQ] then False
      else if src = ''*'' then is_network_scheme_url url
      else if src = SQ # ''self'' @ [SQ] then ns_url_same_origin lxb (Some url) doc_url
      else if src = SQ # ''unsafe-inline'' @ [SQ] \<or> src = SQ # ''unsafe-eval'' @ [SQ]
              \<or> src = SQ # ''strict-dynamic'' @ [SQ] then False
      else if list_ex (strcaseeq src) csp_scheme_sources then url_scheme_matches url src
      else
        let sep = strstr src ''://'';
            rest = (case sep of None \<Rightarrow> src | Some r \<Rightarrow> drop 3 r);
            he = split_host_expr rest
        in if (case sep of None \<Rightarrow> False
               | Some r \<Rightarrow> \<not> scheme_part_matches (take (length src - length r) src) url) then False
           else
             (case ns_url_parts_new lxb (Some url) of
                None \<Rightarrow> False
              | Some res \<Rightarrow>
                  (sep \<noteq> None \<or> schemeless_ok lxb url (protocol res) doc_url)
                  \<and> csp_host_matches (he_host he) (hostname res)
                  \<and> csp_port_matches (he_port he) (port res) (protocol res)
                  \<and> csp_path_matches (he_path he) (pathname res)))"

section \<open>The checks\<close>

abbreviation quoted :: "string \<Rightarrow> string" where
  "quoted s \<equiv> SQ # s @ [SQ]"

definition nonce_prefix :: string where
  "nonce_prefix = SQ # ''nonce-''"

definition policy_frame_ancestors_allows ::
    "url_parser \<Rightarrow> ns_csp_policy \<Rightarrow> cptr \<Rightarrow> cptr \<Rightarrow> bool" where
  "policy_frame_ancestors_allows lxb p parent_url document_url =
     (case p CspFrameAncestors of None \<Rightarrow> True
      | Some list \<Rightarrow>
        if list = [] then False
        else (case parent_url of None \<Rightarrow> True
              | Some u \<Rightarrow> list_ex (\<lambda>s. source_matches lxb s u document_url) list))"

text \<open>The directive a kind falls back to; \<open>None\<close> allows.\<close>

definition effective_kind :: "ns_csp_policy \<Rightarrow> ns_csp_kind \<Rightarrow> ns_csp_kind option" where
  "effective_kind p kind =
     (if p kind \<noteq> None then Some kind
      else if kind = CspBaseUri \<or> kind = CspFormAction then None
      else if kind = CspWorker \<and> p CspChild \<noteq> None then Some CspChild
      else if kind = CspWorker \<and> p CspScript \<noteq> None then Some CspScript
      else if kind = CspFrame \<and> p CspChild \<noteq> None then Some CspChild
      else if p CspDefault \<noteq> None then Some CspDefault
      else None)"

text \<open>The loop over the sources.\<close>

fun sources_allow ::
    "url_parser \<Rightarrow> string \<Rightarrow> cptr \<Rightarrow> cptr \<Rightarrow> bool \<Rightarrow> string list \<Rightarrow> bool" where
  "sources_allow lxb url doc nonce strict [] = False"
| "sources_allow lxb url doc nonce strict (s # ss) =
     (if s = quoted ''strict-dynamic'' then sources_allow lxb url doc nonce strict ss
      else if nonce \<noteq> None \<and> starts_with nonce_prefix s then
        (if length s > 8 \<and> last s = SQ \<and> drop 7 (butlast s) = the nonce then True
         else sources_allow lxb url doc nonce strict ss)
      else if strict then sources_allow lxb url doc nonce strict ss
      else if source_matches lxb s url doc then True
      else sources_allow lxb url doc nonce strict ss)"

definition policy_allows_with_nonce ::
    "url_parser \<Rightarrow> ns_csp_policy \<Rightarrow> ns_csp_kind \<Rightarrow> string \<Rightarrow> cptr \<Rightarrow> cptr \<Rightarrow> bool \<Rightarrow> bool" where
  "policy_allows_with_nonce lxb p kind url doc nonce parser_inserted =
     (if kind = CspFrameAncestors then policy_frame_ancestors_allows lxb p (Some url) doc
      else
        (case effective_kind p kind of
           None \<Rightarrow> True
         | Some eff \<Rightarrow>
             (case p eff of None \<Rightarrow> False
              | Some list \<Rightarrow>
                if list = [] then False
                else
                  let script_like = (kind = CspScript \<or> (kind = CspDefault \<and> eff = CspDefault));
                      strict = (script_like \<and> quoted ''strict-dynamic'' \<in> set list)
                  in sources_allow lxb url doc nonce strict list
                     \<or> (strict \<and> \<not> parser_inserted))))"

definition ns_csp_allows_with_nonce ::
    "url_parser \<Rightarrow> ns_csp \<Rightarrow> ns_csp_kind \<Rightarrow> cptr \<Rightarrow> cptr \<Rightarrow> cptr \<Rightarrow> bool \<Rightarrow> bool" where
  "ns_csp_allows_with_nonce lxb csp kind url doc nonce parser_inserted =
     (case (csp, url) of
        (Some ps, Some u) \<Rightarrow>
          list_all (\<lambda>p. policy_allows_with_nonce lxb p kind u doc nonce parser_inserted) ps
      | _ \<Rightarrow> True)"

definition ns_csp_allows :: "url_parser \<Rightarrow> ns_csp \<Rightarrow> ns_csp_kind \<Rightarrow> cptr \<Rightarrow> cptr \<Rightarrow> bool" where
  "ns_csp_allows lxb csp kind url doc = ns_csp_allows_with_nonce lxb csp kind url doc None True"

section \<open>Inline scripts and event handlers\<close>

definition inline_script_kind :: "ns_csp_policy \<Rightarrow> ns_csp_kind option" where
  "inline_script_kind p =
     (if p CspScript \<noteq> None then Some CspScript
      else if p CspDefault \<noteq> None then Some CspDefault
      else None)"

definition list_has_nonce_or_hash :: "string list \<Rightarrow> bool" where
  "list_has_nonce_or_hash list =
     list_ex (\<lambda>s. starts_with nonce_prefix s \<or> starts_with (SQ # ''sha256-'') s
       \<or> starts_with (SQ # ''sha384-'') s \<or> starts_with (SQ # ''sha512-'') s) list"

text \<open>\<open>digest bits body\<close> is the raw digest, \<open>b64\<close> the base64 text of it.\<close>

definition hash_bits :: "string \<Rightarrow> nat option" where
  "hash_bits src =
     (if starts_with (SQ # ''sha256-'') src then Some 256
      else if starts_with (SQ # ''sha384-'') src then Some 384
      else if starts_with (SQ # ''sha512-'') src then Some 512
      else None)"

definition url_safe :: "string \<Rightarrow> string" where
  "url_safe s = map (\<lambda>c. if c = CHR ''+'' then CHR ''-'' else if c = CHR ''/'' then CHR ''_'' else c) s"

definition hash_token_matches ::
    "(nat \<Rightarrow> string \<Rightarrow> string) \<Rightarrow> (string \<Rightarrow> string) \<Rightarrow> string \<Rightarrow> string \<Rightarrow> bool" where
  "hash_token_matches digest b64 src body =
     (case hash_bits src of None \<Rightarrow> False
      | Some bits \<Rightarrow>
        let enc = drop 8 src
        in if length enc < 2 \<or> last enc \<noteq> SQ then False
           else let want = butlast enc; got = b64 (digest bits body)
                in want = got \<or> want = url_safe got)"

definition policy_inline_script_allowed ::
    "(nat \<Rightarrow> string \<Rightarrow> string) \<Rightarrow> (string \<Rightarrow> string) \<Rightarrow> ns_csp_policy \<Rightarrow> cptr \<Rightarrow> cptr \<Rightarrow> bool" where
  "policy_inline_script_allowed digest b64 p body nonce =
     (case inline_script_kind p of None \<Rightarrow> True
      | Some k \<Rightarrow>
        (case p k of None \<Rightarrow> False
         | Some list \<Rightarrow>
           if (case nonce of None \<Rightarrow> False
               | Some n \<Rightarrow> n \<noteq> [] \<and> nonce_prefix @ n @ [SQ] \<in> set list) then True
           else if (case body of None \<Rightarrow> False
               | Some b \<Rightarrow> b \<noteq> [] \<and> list_ex (\<lambda>s. hash_token_matches digest b64 s b) list) then True
           else if quoted ''strict-dynamic'' \<in> set list then False
           else if list_has_nonce_or_hash list then False
           else quoted ''unsafe-inline'' \<in> set list))"

definition ns_csp_inline_script_allowed ::
    "(nat \<Rightarrow> string \<Rightarrow> string) \<Rightarrow> (string \<Rightarrow> string) \<Rightarrow> ns_csp \<Rightarrow> cptr \<Rightarrow> cptr \<Rightarrow> bool" where
  "ns_csp_inline_script_allowed digest b64 csp body nonce =
     (case csp of None \<Rightarrow> True
      | Some ps \<Rightarrow> list_all (\<lambda>p. policy_inline_script_allowed digest b64 p body nonce) ps)"

definition policy_inline_event_handler_allowed :: "ns_csp_policy \<Rightarrow> bool" where
  "policy_inline_event_handler_allowed p =
     (case inline_script_kind p of None \<Rightarrow> True
      | Some k \<Rightarrow>
        (case p k of None \<Rightarrow> False
         | Some list \<Rightarrow>
           if quoted ''strict-dynamic'' \<in> set list then False
           else if list_has_nonce_or_hash list then False
           else quoted ''unsafe-inline'' \<in> set list))"

definition ns_csp_inline_event_handler_allowed :: "ns_csp \<Rightarrow> bool" where
  "ns_csp_inline_event_handler_allowed csp =
     (case csp of None \<Rightarrow> True | Some ps \<Rightarrow> list_all policy_inline_event_handler_allowed ps)"

section \<open>Several policies are a conjunction\<close>

definition csp_policies :: "ns_csp \<Rightarrow> ns_csp_policy list" where
  "csp_policies csp = (case csp of None \<Rightarrow> [] | Some ps \<Rightarrow> ps)"

lemma split_on_strsplit: "filter (\<lambda>t. t \<noteq> []) (map strstrip (strsplit_set p h))
    = filter (\<lambda>t. t \<noteq> []) (map strstrip (split_on p h))"
  by (simp add: strsplit_set_def strstrip_def strchug_def strchomp_def)

lemma csp_policies_parse:
  "csp_policies (ns_csp_parse (Some h)) =
     map policy_parse (filter (\<lambda>t. t \<noteq> []) (map strstrip (split_on (\<lambda>c. c = CHR '','') h)))"
proof (cases "h = []")
  case True
  then show ?thesis
    by (simp add: ns_csp_parse_def csp_policies_def strstrip_def strchug_def strchomp_def)
next
  case False
  then show ?thesis
    unfolding ns_csp_parse_def csp_policies_def Let_def option.case split_on_strsplit [symmetric]
    by simp
qed

locale conjunctive_check =
  fixes allows :: "ns_csp \<Rightarrow> bool" and allows_one :: "ns_csp_policy \<Rightarrow> bool"
  assumes allows_def: "allows csp \<longleftrightarrow> list_all allows_one (csp_policies csp)"
begin

lemma allows_none: "allows None"
  by (simp add: allows_def csp_policies_def)

lemma allows_merge:
  "dst \<noteq> None \<Longrightarrow> src \<noteq> None \<Longrightarrow> allows (fst (ns_csp_merge dst src)) \<longleftrightarrow> allows dst \<and> allows src"
  by (auto simp: allows_def csp_policies_def ns_csp_merge_def)

lemma allows_comma:
  "allows (ns_csp_parse (Some (h @ CHR '','' # k)))
     \<longleftrightarrow> allows (ns_csp_parse (Some h)) \<and> allows (ns_csp_parse (Some k))"
  by (simp add: allows_def csp_policies_parse split_on_append)

end

interpretation resource_check: conjunctive_check
    "\<lambda>csp. ns_csp_allows_with_nonce lxb csp kind (Some u) doc nonce ins"
    "\<lambda>p. policy_allows_with_nonce lxb p kind u doc nonce ins"
    for lxb kind u doc nonce ins
  by unfold_locales (auto simp: ns_csp_allows_with_nonce_def csp_policies_def split: option.split)

interpretation inline_check: conjunctive_check
    "\<lambda>csp. ns_csp_inline_script_allowed digest b64 csp body nonce"
    "\<lambda>p. policy_inline_script_allowed digest b64 p body nonce"
    for digest b64 body nonce
  by unfold_locales (auto simp: ns_csp_inline_script_allowed_def csp_policies_def split: option.split)

interpretation handler_check: conjunctive_check
    ns_csp_inline_event_handler_allowed policy_inline_event_handler_allowed
  by unfold_locales
    (auto simp: ns_csp_inline_event_handler_allowed_def csp_policies_def split: option.split)

text \<open>A header with a comma, and two policies merged from two headers,
  allow exactly what both parts allow, for resources, inline scripts and event
  handlers: a further policy can only forbid more.\<close>

theorem csp_policies_conjunction:
  "(ns_csp_allows_with_nonce lxb (ns_csp_parse (Some (h @ CHR '','' # k))) kind url doc nonce ins
      \<longleftrightarrow> ns_csp_allows_with_nonce lxb (ns_csp_parse (Some h)) kind url doc nonce ins
          \<and> ns_csp_allows_with_nonce lxb (ns_csp_parse (Some k)) kind url doc nonce ins)
   \<and> (ns_csp_inline_script_allowed digest b64 (ns_csp_parse (Some (h @ CHR '','' # k))) body nonce
      \<longleftrightarrow> ns_csp_inline_script_allowed digest b64 (ns_csp_parse (Some h)) body nonce
          \<and> ns_csp_inline_script_allowed digest b64 (ns_csp_parse (Some k)) body nonce)
   \<and> (ns_csp_inline_event_handler_allowed (ns_csp_parse (Some (h @ CHR '','' # k)))
      \<longleftrightarrow> ns_csp_inline_event_handler_allowed (ns_csp_parse (Some h))
          \<and> ns_csp_inline_event_handler_allowed (ns_csp_parse (Some k)))
   \<and> ns_csp_allows_with_nonce lxb (fst (ns_csp_merge (Some d) (Some s))) kind url doc nonce ins
      = (ns_csp_allows_with_nonce lxb (Some d) kind url doc nonce ins
         \<and> ns_csp_allows_with_nonce lxb (Some s) kind url doc nonce ins)"
proof (cases url)
  case None
  then show ?thesis
    using inline_check.allows_comma handler_check.allows_comma
    by (simp add: ns_csp_allows_with_nonce_def split: option.splits)
next
  case (Some u)
  then show ?thesis
    using inline_check.allows_comma handler_check.allows_comma resource_check.allows_comma
      resource_check.allows_merge [of "Some d" "Some s"] by simp
qed

section \<open>The first directive of a kind counts\<close>

lemma policy_clause_add: "policy_clause raw p = policy_clause raw Map.empty ++ p"
  by (rule ext) (auto simp: policy_clause_def Let_def map_add_def split: option.splits list.splits)

lemma fold_policy_clause_add: "fold policy_clause ls p = fold policy_clause ls Map.empty ++ p"
proof (induction ls arbitrary: p)
  case (Cons l ls)
  have "fold policy_clause (l # ls) p
      = fold policy_clause ls Map.empty ++ (policy_clause l Map.empty ++ p)"
    using Cons.IH [of "policy_clause l p"] policy_clause_add [of l p] by simp
  also have "\<dots> = (fold policy_clause ls Map.empty ++ policy_clause l Map.empty) ++ p"
    by simp
  also have "\<dots> = fold policy_clause (l # ls) Map.empty ++ p"
    using Cons.IH [of "policy_clause l Map.empty"] by simp
  finally show ?case .
qed simp

lemma policy_clause_Nil [simp]: "policy_clause [] p = p"
  by (simp add: policy_clause_def strstrip_def strchug_def strchomp_def)

lemma policy_parse_split:
  "policy_parse t = fold policy_clause (split_on (\<lambda>c. c = CHR '';'') t) Map.empty"
  by (simp add: policy_parse_def strsplit_set_def)

text \<open>Appending directives to a policy never changes a directive that it
  already has: the directives after the semicolon count only for the kinds the
  first part does not set.\<close>

theorem csp_first_directive_wins:
  "policy_parse (t @ CHR '';'' # u) k =
     (case policy_parse t k of Some l \<Rightarrow> Some l | None \<Rightarrow> policy_parse u k)"
  unfolding policy_parse_split split_on_append [of "\<lambda>c. c = CHR '';''", OF refl] fold_append comp_apply
  by (subst fold_policy_clause_add) (simp add: map_add_def)

section \<open>The fallback of directives\<close>

text \<open>The reference: the directives that decide a kind, in order.\<close>

definition csp_fallbacks :: "ns_csp_kind \<Rightarrow> ns_csp_kind list" where
  "csp_fallbacks kind =
     (case kind of
        CspBaseUri \<Rightarrow> [CspBaseUri]
      | CspFormAction \<Rightarrow> [CspFormAction]
      | CspFrameAncestors \<Rightarrow> [CspFrameAncestors]
      | CspWorker \<Rightarrow> [CspWorker, CspChild, CspScript, CspDefault]
      | CspFrame \<Rightarrow> [CspFrame, CspChild, CspDefault]
      | k \<Rightarrow> [k, CspDefault])"

fun first_set :: "ns_csp_policy \<Rightarrow> ns_csp_kind list \<Rightarrow> string list option" where
  "first_set p [] = None"
| "first_set p (k # ks) = (case p k of Some l \<Rightarrow> Some l | None \<Rightarrow> first_set p ks)"

lemma effective_kind_first_set:
  "kind \<noteq> CspFrameAncestors \<Longrightarrow>
   first_set p (csp_fallbacks kind) = (case effective_kind p kind of None \<Rightarrow> None | Some e \<Rightarrow> p e)"
  by (cases kind) (auto simp: csp_fallbacks_def effective_kind_def split: option.split)

lemma effective_kind_set: "effective_kind p kind = Some e \<Longrightarrow> p e \<noteq> None"
  by (auto simp: effective_kind_def split: if_splits)

lemma sources_allow_plain:
  "sources_allow lxb u doc None False list \<longleftrightarrow> (\<exists>s\<in>set list. source_matches lxb s u doc)"
proof -
  have "quoted ''strict-dynamic'' \<noteq> quoted ''none''" by simp
  have sd: "\<not> source_matches lxb (quoted ''strict-dynamic'') u doc"
    by (simp add: source_matches_def)
  show ?thesis by (induction list) (use sd in auto)
qed

text \<open>(C27) Without nonces and outside scripts, a resource is allowed exactly
  when, in every policy, the first directive set among the kind and its fallbacks
  has a source that matches, or none is set: an empty list or one that holds only
  \<open>'none'\<close> forbids everything, and base-uri, form-action and frame-ancestors do not
  fall back to default-src.\<close>

theorem csp_allows_by_fallback:
  assumes "kind \<noteq> CspScript" "kind \<noteq> CspDefault"
  shows "ns_csp_allows lxb (Some ps) kind (Some u) doc \<longleftrightarrow>
    (\<forall>p\<in>set ps. \<forall>l. first_set p (csp_fallbacks kind) = Some l \<longrightarrow>
       (\<exists>s\<in>set l. s \<noteq> quoted ''none'' \<and> source_matches lxb s u doc))"
proof -
  have none: "\<not> source_matches lxb (quoted ''none'') u doc"
    by (simp add: source_matches_def)
  have one: "policy_allows_with_nonce lxb p kind u doc None True \<longleftrightarrow>
      (\<forall>l. first_set p (csp_fallbacks kind) = Some l \<longrightarrow> (\<exists>s\<in>set l. source_matches lxb s u doc))" for p
  proof (cases "kind = CspFrameAncestors")
    case True
    then show ?thesis
      by (auto simp: policy_allows_with_nonce_def policy_frame_ancestors_allows_def
          csp_fallbacks_def list_ex_iff split: option.split)
  next
    case False
    note fs = effective_kind_first_set [OF False, of p]
    show ?thesis
    proof (cases "effective_kind p kind")
      case None
      with fs False show ?thesis by (simp add: policy_allows_with_nonce_def)
    next
      case (Some e)
      then obtain l where l: "p e = Some l" using effective_kind_set by blast
      with Some fs have "first_set p (csp_fallbacks kind) = Some l" by simp
      moreover have "policy_allows_with_nonce lxb p kind u doc None True
          \<longleftrightarrow> l \<noteq> [] \<and> sources_allow lxb u doc None False l"
        using assms False Some l by (simp add: policy_allows_with_nonce_def)
      moreover have "l \<noteq> [] \<and> sources_allow lxb u doc None False l
          \<longleftrightarrow> (\<exists>s\<in>set l. source_matches lxb s u doc)"
        unfolding sources_allow_plain by (cases l) auto
      ultimately show ?thesis by (metis option.inject)
    qed
  qed
  have "(\<exists>s\<in>set l. s \<noteq> quoted ''none'' \<and> source_matches lxb s u doc)
      \<longleftrightarrow> (\<exists>s\<in>set l. source_matches lxb s u doc)" for l
    using none by metis
  then show ?thesis
    by (simp only: ns_csp_allows_def ns_csp_allows_with_nonce_def one list_all_iff
        prod.case option.case)
qed

theorem csp_allows_by_fallback_witness:
  "ns_csp_allows example_lxb (Some [policy_parse ''default-src https:'']) CspImg
      (Some ''https://a/x'') None \<longleftrightarrow>
    (\<forall>p\<in>set [policy_parse ''default-src https:'']. \<forall>l. first_set p (csp_fallbacks CspImg) = Some l \<longrightarrow>
       (\<exists>s\<in>set l. s \<noteq> quoted ''none'' \<and> source_matches example_lxb s ''https://a/x'' None))"
  by (rule csp_allows_by_fallback) simp_all

section \<open>Inline code\<close>

lemma handler_implies_script_one:
  "policy_inline_event_handler_allowed p \<Longrightarrow> policy_inline_script_allowed digest b64 p body nonce"
  unfolding policy_inline_event_handler_allowed_def policy_inline_script_allowed_def
  by (auto split: option.splits if_splits)

lemma inline_list:
  assumes "inline_script_kind p = Some k" "p k = Some l"
  shows "policy_inline_script_allowed digest b64 p body nonce \<longleftrightarrow>
      (\<exists>n. nonce = Some n \<and> n \<noteq> [] \<and> nonce_prefix @ n @ [SQ] \<in> set l)
      \<or> (\<exists>b. body = Some b \<and> b \<noteq> [] \<and> (\<exists>s\<in>set l. hash_token_matches digest b64 s b))
      \<or> policy_inline_event_handler_allowed p"
  using assms
  unfolding policy_inline_event_handler_allowed_def policy_inline_script_allowed_def
  by (auto simp: list_ex_iff split: option.splits)

text \<open>An inline script runs exactly when every policy that restricts
  scripts lists its nonce, or a hash that matches its body, or allows inline
  handlers; and a handler runs only where \<open>'unsafe-inline'\<close> is listed without any
  nonce, hash or \<open>'strict-dynamic'\<close>. So whatever runs as a handler may run as a
  script, and a policy with a nonce makes \<open>'unsafe-inline'\<close> void.\<close>

theorem csp_inline_rules:
  "(ns_csp_inline_script_allowed digest b64 (Some ps) body nonce \<longleftrightarrow>
     (\<forall>p\<in>set ps. \<forall>l. first_set p [CspScript, CspDefault] = Some l \<longrightarrow>
        (\<exists>n. nonce = Some n \<and> n \<noteq> [] \<and> nonce_prefix @ n @ [SQ] \<in> set l)
        \<or> (\<exists>b. body = Some b \<and> b \<noteq> [] \<and> (\<exists>s\<in>set l. hash_token_matches digest b64 s b))
        \<or> ns_csp_inline_event_handler_allowed (Some [p])))
   \<and> (ns_csp_inline_event_handler_allowed (Some ps) \<longleftrightarrow>
     (\<forall>p\<in>set ps. \<forall>l. first_set p [CspScript, CspDefault] = Some l \<longrightarrow>
        quoted ''unsafe-inline'' \<in> set l \<and> quoted ''strict-dynamic'' \<notin> set l
        \<and> (\<forall>s\<in>set l. \<not> starts_with nonce_prefix s \<and> hash_bits s = None)))"
proof -
  have fs: "first_set p [CspScript, CspDefault] =
      (case inline_script_kind p of None \<Rightarrow> None | Some k \<Rightarrow> p k)" for p
    by (auto simp: inline_script_kind_def split: option.split)
  have set: "inline_script_kind p = Some k \<Longrightarrow> p k \<noteq> None" for p k
    by (auto simp: inline_script_kind_def split: if_splits)
  have script: "policy_inline_script_allowed digest b64 p body nonce \<longleftrightarrow>
      (\<forall>l. first_set p [CspScript, CspDefault] = Some l \<longrightarrow>
        (\<exists>n. nonce = Some n \<and> n \<noteq> [] \<and> nonce_prefix @ n @ [SQ] \<in> set l)
        \<or> (\<exists>b. body = Some b \<and> b \<noteq> [] \<and> (\<exists>s\<in>set l. hash_token_matches digest b64 s b))
        \<or> policy_inline_event_handler_allowed p)" for p
  proof (cases "inline_script_kind p")
    case None
    then show ?thesis by (simp add: fs policy_inline_script_allowed_def del: first_set.simps)
  next
    case (Some k)
    then obtain l where "p k = Some l" using set by auto
    with Some inline_list [OF Some this] show ?thesis by (simp add: fs del: first_set.simps)
  qed
  have hash: "list_has_nonce_or_hash l \<longleftrightarrow> (\<exists>s\<in>set l. starts_with nonce_prefix s \<or> hash_bits s \<noteq> None)" for l
    by (auto simp: list_has_nonce_or_hash_def list_ex_iff hash_bits_def split: if_splits)
  have handler: "policy_inline_event_handler_allowed p \<longleftrightarrow>
      (\<forall>l. first_set p [CspScript, CspDefault] = Some l \<longrightarrow>
        quoted ''unsafe-inline'' \<in> set l \<and> quoted ''strict-dynamic'' \<notin> set l
        \<and> (\<forall>s\<in>set l. \<not> starts_with nonce_prefix s \<and> hash_bits s = None))" for p
  proof (cases "inline_script_kind p")
    case None
    then show ?thesis by (simp add: fs policy_inline_event_handler_allowed_def del: first_set.simps)
  next
    case (Some k)
    then obtain l where "p k = Some l" using set by auto
    with Some show ?thesis
      by (auto simp: fs policy_inline_event_handler_allowed_def hash simp del: first_set.simps)
  qed
  show ?thesis
    unfolding ns_csp_inline_script_allowed_def ns_csp_inline_event_handler_allowed_def option.case
      list_all_iff
    using script handler by simp
qed

theorem csp_inline_rules_witness:
  "ns_csp_inline_event_handler_allowed (Some [policy_parse (''script-src '' @ quoted ''unsafe-inline'')])
   \<and> ns_csp_inline_script_allowed (\<lambda>k s. []) (\<lambda>s. [])
       (Some [policy_parse (''script-src '' @ quoted ''unsafe-inline'')]) (Some ''x'') None"
proof -
  let ?p = "policy_parse (''script-src '' @ quoted ''unsafe-inline'')"
  have l: "first_set ?p [CspScript, CspDefault] = Some [quoted ''unsafe-inline'']" by code_simp
  have "quoted ''unsafe-inline'' \<noteq> quoted ''strict-dynamic''"
    "\<not> starts_with nonce_prefix (quoted ''unsafe-inline'')" "hash_bits (quoted ''unsafe-inline'') = None"
    by code_simp+
  with l have "ns_csp_inline_event_handler_allowed (Some [?p])"
    using csp_inline_rules [of "\<lambda>k s. []" "\<lambda>s. []" "[?p]" "Some ''x''" None]
    by (simp del: first_set.simps)
  then show ?thesis
    using csp_inline_rules [of "\<lambda>k s. []" "\<lambda>s. []" "[?p]" "Some ''x''" None]
    by (simp del: first_set.simps)
qed

section \<open>Host sources\<close>

lemma csp_host_wildcard:
  assumes "csp_host_matches (''*.'' @ d) hn"
  shows "\<exists>pre. pre \<noteq> [] \<and> strdown hn = pre @ CHR ''.'' # strdown d"
proof -
  let ?k = "length hn - Suc (length d)"
  from assms have m: "length hn > Suc (length d)" "strcaseeq (drop ?k hn) (CHR ''.'' # d)"
    by (simp_all add: csp_host_matches_def)
  have "strdown hn = strdown (take ?k hn) @ strdown (drop ?k hn)"
    by (metis append_take_drop_id map_append)
  also have "strdown (drop ?k hn) = CHR ''.'' # strdown d"
    using m(2) by (simp add: strcaseeq_def ascii_tolower_def ascii_isupper_def)
  finally have "strdown hn = strdown (take ?k hn) @ CHR ''.'' # strdown d" .
  moreover have "strdown (take ?k hn) \<noteq> []" using m(1) by (cases hn) auto
  ultimately show ?thesis by blast
qed

text \<open>A host is written with letters, digits, dots and hyphens.\<close>

definition host_text :: "string \<Rightarrow> bool" where
  "host_text d = (\<forall>c\<in>set d. ascii_isalnum c \<or> c = CHR ''.'' \<or> c = CHR ''-'')"

lemma host_text_plain:
  assumes "host_text d"
  shows "CHR '':'' \<notin> set d" "CHR ''/'' \<notin> set d" "SQ \<notin> set d"
  using assms by (auto simp: host_text_def ascii_class_defs)

lemma strstr_needs_char: "c \<in> set needle \<Longrightarrow> c \<notin> set s \<Longrightarrow> strstr s needle = None"
proof (induction s)
  case (Cons x s)
  have "set needle \<subseteq> set (x # s)" if "starts_with needle (x # s)"
    using that unfolding starts_with_iff by (metis Un_upper1 set_append)
  with Cons.prems have "\<not> starts_with needle (x # s)" by auto
  with Cons show ?case by auto
qed auto

lemma takeWhile_all: "c \<notin> set d \<Longrightarrow> takeWhile (\<lambda>x. x \<noteq> c) d = d"
  by (induction d) auto

lemma source_matches_host:
  assumes "host_text d" "d \<noteq> []" "pat \<in> {d, ''*.'' @ d}" "source_matches lxb pat url doc"
  shows "\<exists>res. ns_url_parts_new lxb (Some url) = Some res \<and> csp_host_matches pat (hostname res)
     \<and> schemeless_ok lxb url (protocol res) doc \<and> csp_port_matches None (port res) (protocol res)"
proof -
  note pl = host_text_plain [OF assms(1)]
  have ch: "CHR '':'' \<notin> set pat" "CHR ''/'' \<notin> set pat" "SQ \<notin> set pat"
    using assms(3) pl by auto
  have "pat \<noteq> []" "pat \<noteq> ''*''" using assms(1,2,3)
    by (auto simp: host_text_def ascii_class_defs)
  moreover have "pat \<noteq> SQ # w" for w using ch(3) by auto
  moreover have "\<not> list_ex (strcaseeq pat) csp_scheme_sources"
  proof
    assume "list_ex (strcaseeq pat) csp_scheme_sources"
    then obtain t where t: "t \<in> set csp_scheme_sources" "strdown pat = strdown t"
      by (auto simp: list_ex_iff strcaseeq_def)
    from t(1) have "CHR '':'' \<in> set t" by (auto simp: csp_scheme_sources_def)
    then have "CHR '':'' \<in> set (strdown pat)" using t(2) by (simp only: colon_in_strdown)
    with ch(1) show False by (simp only: colon_in_strdown)
  qed
  moreover have "strstr pat ''://'' = None"
    by (rule strstr_needs_char [of "CHR '':''"]) (simp_all add: ch(1))
  moreover have "split_host_expr pat = \<lparr> he_host = pat, he_port = None, he_path = None \<rparr>"
    using ch by (simp add: split_host_expr_def takeWhile_all strchr_None_iff)
  ultimately show ?thesis
    using assms(4) unfolding source_matches_def
    by (auto simp: Let_def split: option.splits if_splits)
qed

text \<open>(C38) A host source matches only addresses of that host, and a source
  \<open>*.d\<close> only those of proper subdomains of \<open>d\<close>, never of \<open>d\<close> itself nor of a host
  that merely ends in the letters of \<open>d\<close>; without a port in the source the
  address has the default port of its scheme, and without a scheme it has the
  scheme of the document or its secure variant.\<close>

theorem csp_host_source:
  assumes "host_text d" "d \<noteq> []" "pat \<in> {d, ''*.'' @ d}" "source_matches lxb pat url (Some doc)"
    "ns_url_parts_new lxb (Some doc) = Some dp" "protocol dp \<noteq> []"
  shows "\<exists>res. ns_url_parts_new lxb (Some url) = Some res
     \<and> (if pat = d then strdown (hostname res) = strdown d
        else (\<exists>pre. pre \<noteq> [] \<and> strdown (hostname res) = pre @ CHR ''.'' # strdown d))
     \<and> (port res = [] \<or> port res = default_port_for_scheme (protocol res))
     \<and> (strdown (protocol res) = strdown (protocol dp)
        \<or> (strdown (protocol dp), strdown (protocol res))
            \<in> {(''http:'', ''https:''), (''ws:'', ''wss:'')})"
proof -
  obtain res where res: "ns_url_parts_new lxb (Some url) = Some res"
      "csp_host_matches pat (hostname res)" "schemeless_ok lxb url (protocol res) (Some doc)"
      "csp_port_matches None (port res) (protocol res)"
    using source_matches_host [OF assms(1-4)] by blast
  have "\<not> starts_with ''*.'' d"
    using assms(1,2) by (cases d) (auto simp: host_text_def ascii_class_defs)
  then have "pat = d \<Longrightarrow> strdown (hostname res) = strdown d"
    using res(2) by (simp add: csp_host_matches_def strcaseeq_def)
  moreover have "pat \<noteq> d \<Longrightarrow> \<exists>pre. pre \<noteq> [] \<and> strdown (hostname res) = pre @ CHR ''.'' # strdown d"
    using res(2) assms(3) csp_host_wildcard by auto
  moreover have "port res = [] \<or> port res = default_port_for_scheme (protocol res)"
    using res(4) by (auto simp: csp_port_matches_def Let_def split: if_splits)
  moreover have low: "strdown ''http:'' = ''http:''" "strdown ''https:'' = ''https:''"
      "strdown ''ws:'' = ''ws:''" "strdown ''wss:'' = ''wss:''" by code_simp+
  have "strdown (protocol res) = strdown (protocol dp)
        \<or> (strdown (protocol dp), strdown (protocol res))
            \<in> {(''http:'', ''https:''), (''ws:'', ''wss:'')}"
    using res(3) assms(5,6) unfolding schemeless_ok_def Let_def strcaseeq_def low
    by (auto split: if_splits)
  ultimately show ?thesis using res(1) by auto
qed

theorem csp_host_source_witness:
  "\<exists>res. ns_url_parts_new example_lxb (Some ''https://x.Ex.org/p'') = Some res
     \<and> (if ''*.ex.org'' = ''ex.org'' then strdown (hostname res) = strdown ''ex.org''
        else (\<exists>pre. pre \<noteq> [] \<and> strdown (hostname res) = pre @ CHR ''.'' # strdown ''ex.org''))
     \<and> (port res = [] \<or> port res = default_port_for_scheme (protocol res))
     \<and> (strdown (protocol res) = strdown (protocol (url_parts_plain ''http://d/'' (the (example_lxb None ''http://d/''))))
        \<or> (strdown (protocol (url_parts_plain ''http://d/'' (the (example_lxb None ''http://d/'')))),
           strdown (protocol res)) \<in> {(''http:'', ''https:''), (''ws:'', ''wss:'')})"
  by (rule csp_host_source [where doc = "''http://d/''"]) code_simp+

end
