(* ===== verification/Event_Mailbox.thy ===== *)
theory Event_Mailbox
  imports CString
begin

text \<open>
  The events a network thread posts to the main loop: the scheme that
  \<open>src/src/eventsource.c\<close> and \<open>src/src/ws.c\<close> share (\<open>ns_es_post\<close>, \<open>ns_ws_post\<close>,
  \<open>ns_es_dispatch_run\<close>, \<open>ns_ws_dispatch_run\<close>).

  The idle callbacks run in the order they were added; a callback that finds the
  page busy is put back with a timer of 4 ms. The locale states what a client of
  a mailbox may rely on; both files interpret it.
\<close>

record 'e mailbox =
  mb_detached :: bool
  mb_pending :: nat
  mb_idle :: "'e list"
  mb_timers :: "'e list"

definition mailbox_init :: "'e mailbox" where
  "mailbox_init = \<lparr> mb_detached = False, mb_pending = 0, mb_idle = [], mb_timers = [] \<rparr>"

text \<open>Posting: dropped when detached, or when droppable and the limit is
  reached.\<close>

definition mailbox_post :: "nat \<Rightarrow> bool \<Rightarrow> 'e \<Rightarrow> 'e mailbox \<Rightarrow> 'e mailbox" where
  "mailbox_post limit droppable e mb =
     (if mb_detached mb then mb
      else if droppable \<and> mb_pending mb \<ge> limit then mb
      else mb \<lparr> mb_pending := mb_pending mb + 1, mb_idle := mb_idle mb @ [e] \<rparr>)"

text \<open>The body of a callback on the event \<open>e\<close> that was taken from its source:
  the event given to the page, if any.\<close>

definition mailbox_invoke :: "bool \<Rightarrow> 'e \<Rightarrow> 'e mailbox \<Rightarrow> 'e option \<times> 'e mailbox" where
  "mailbox_invoke busy e mb =
     (if \<not> mb_detached mb \<and> busy then (None, mb \<lparr> mb_timers := mb_timers mb @ [e] \<rparr>)
      else (if mb_detached mb then None else Some e,
            mb \<lparr> mb_pending := mb_pending mb - 1 \<rparr>))"

definition mailbox_run_idle :: "bool \<Rightarrow> 'e mailbox \<Rightarrow> 'e option \<times> 'e mailbox" where
  "mailbox_run_idle busy mb =
     (case mb_idle mb of [] \<Rightarrow> (None, mb)
      | e # es \<Rightarrow> mailbox_invoke busy e (mb \<lparr> mb_idle := es \<rparr>))"

definition mailbox_run_timer :: "bool \<Rightarrow> 'e mailbox \<Rightarrow> 'e option \<times> 'e mailbox" where
  "mailbox_run_timer busy mb =
     (case mb_timers mb of [] \<Rightarrow> (None, mb)
      | e # es \<Rightarrow> mailbox_invoke busy e (mb \<lparr> mb_timers := es \<rparr>))"

definition mailbox_detach :: "'e mailbox \<Rightarrow> 'e mailbox" where
  "mailbox_detach mb = mb \<lparr> mb_detached := True \<rparr>"

section \<open>The contract\<close>

definition mailbox_events :: "'e mailbox \<Rightarrow> 'e list" where
  "mailbox_events mb = mb_timers mb @ mb_idle mb"

definition mailbox_ok :: "nat \<Rightarrow> ('e \<Rightarrow> bool) \<Rightarrow> 'e mailbox \<Rightarrow> bool" where
  "mailbox_ok limit droppable mb \<longleftrightarrow>
     mb_pending mb = length (mailbox_events mb)
     \<and> length (filter droppable (mailbox_events mb)) \<le> limit"

locale event_mailbox =
  fixes post :: "'e \<Rightarrow> 'e mailbox \<Rightarrow> 'e mailbox"
    and run_idle run_timer :: "bool \<Rightarrow> 'e mailbox \<Rightarrow> 'e option \<times> 'e mailbox"
    and droppable :: "'e \<Rightarrow> bool"
    and limit :: nat
  assumes post_law: "post e mb = mailbox_post limit (droppable e) e mb"
    and run_idle_law: "run_idle busy mb = mailbox_run_idle busy mb"
    and run_timer_law: "run_timer busy mb = mailbox_run_timer busy mb"
begin

lemma post_detached: "mb_detached mb \<Longrightarrow> post e mb = mb"
  by (simp add: post_law mailbox_post_def)

lemma post_kept:
  "\<not> mb_detached mb \<Longrightarrow> \<not> droppable e \<or> mb_pending mb < limit \<Longrightarrow>
   mb_idle (post e mb) = mb_idle mb @ [e] \<and> mb_pending (post e mb) = mb_pending mb + 1
   \<and> mb_timers (post e mb) = mb_timers mb \<and> \<not> mb_detached (post e mb)"
  by (auto simp: post_law mailbox_post_def)

lemma post_ok: "mailbox_ok limit droppable mb \<Longrightarrow> mailbox_ok limit droppable (post e mb)"
proof -
  assume ok: "mailbox_ok limit droppable mb"
  have "length (filter droppable (mailbox_events mb)) \<le> mb_pending mb"
    using ok by (simp add: mailbox_ok_def)
  with ok show ?thesis
    by (auto simp: post_law mailbox_post_def mailbox_ok_def mailbox_events_def)
qed

lemma run_idle_ok:
  "mailbox_ok limit droppable mb \<Longrightarrow> mailbox_ok limit droppable (snd (run_idle busy mb))"
  by (auto simp: run_idle_law mailbox_run_idle_def mailbox_invoke_def mailbox_ok_def
      mailbox_events_def split: list.split)

lemma run_timer_ok:
  "mailbox_ok limit droppable mb \<Longrightarrow> mailbox_ok limit droppable (snd (run_timer busy mb))"
  by (auto simp: run_timer_law mailbox_run_timer_def mailbox_invoke_def mailbox_ok_def
      mailbox_events_def split: list.split)

lemma init_ok: "mailbox_ok limit droppable mailbox_init"
  by (simp add: mailbox_ok_def mailbox_init_def mailbox_events_def)

text \<open>After the page let go nothing is delivered any more.\<close>

lemma detached_silent:
  "mb_detached mb \<Longrightarrow> fst (run_idle busy mb) = None \<and> fst (run_timer busy mb) = None
   \<and> mb_detached (snd (run_idle busy mb)) \<and> mb_detached (snd (run_timer busy mb))"
  by (auto simp: run_idle_law run_timer_law mailbox_run_idle_def mailbox_run_timer_def
      mailbox_invoke_def split: list.split)

text \<open>While the page is not busy, events come in the order they were posted.\<close>

fun drain :: "nat \<Rightarrow> 'e mailbox \<Rightarrow> 'e list" where
  "drain 0 mb = []"
| "drain (Suc n) mb =
     (case run_idle False mb of (None, mb') \<Rightarrow> drain n mb' | (Some e, mb') \<Rightarrow> e # drain n mb')"

lemma drain_in_order:
  "\<not> mb_detached mb \<Longrightarrow> drain (length (mb_idle mb)) mb = mb_idle mb"
proof (induction "length (mb_idle mb)" arbitrary: mb)
  case (Suc n)
  then obtain e es where e: "mb_idle mb = e # es" by (cases "mb_idle mb") auto
  let ?mb' = "mb \<lparr> mb_idle := es, mb_pending := mb_pending mb - 1 \<rparr>"
  have r: "run_idle False mb = (Some e, ?mb')"
    using e Suc.prems by (simp add: run_idle_law mailbox_run_idle_def mailbox_invoke_def)
  have "drain (length (mb_idle ?mb')) ?mb' = mb_idle ?mb'"
    by (rule Suc.hyps(1)) (use Suc e in auto)
  then show ?case using e r by simp
qed simp

text \<open>A page that is busy for one event and free for the next gets them in the
  wrong order: the first waits on a timer while the second runs.\<close>

lemma busy_reorders:
  assumes "\<not> mb_detached mb" "mb_idle mb = [a, b]" "mb_timers mb = []"
  shows "let mb1 = snd (run_idle True mb); (x, mb2) = run_idle False mb1;
             (y, mb3) = run_timer False mb2
         in x = Some b \<and> y = Some a"
  using assms
  by (simp add: run_idle_law run_timer_law mailbox_run_idle_def mailbox_run_timer_def
      mailbox_invoke_def)

end

end
