(* ===== verification/Event_Source.thy ===== *)
theory Event_Source
  imports Event_Mailbox
begin

text \<open>
  The EventSource client (\<open>src/src/eventsource.c\<close>): the stream parser, the curl
  callbacks, the worker with its reconnects, and the posting of events. The
  transfer itself is curl's: a connection is the list of the calls curl makes.
\<close>

section \<open>State\<close>

datatype es_event = EsOpen | EsMessage string string string | EsError bool

definition ns_es_max_line :: nat where "ns_es_max_line = 2 ^ 20"
definition ns_es_max_event :: nat where "ns_es_max_event = 8 * 2 ^ 20"
definition ns_es_max_pending :: nat where "ns_es_max_pending = 256"

record ns_es =
  es_last_event_id :: string
  es_reconnect_ms :: int
  es_exit_requested :: bool
  es_mailbox :: "es_event mailbox"

record ns_es_parse =
  p_line :: string
  p_last_was_cr :: bool
  p_data :: string
  p_event_type :: cptr
  p_status :: int
  p_opened :: bool
  p_fatal :: bool
  p_is_event_stream :: bool

definition es_parse_init :: ns_es_parse where
  "es_parse_init = \<lparr> p_line = [], p_last_was_cr = False, p_data = [], p_event_type = None,
     p_status = 0, p_opened = False, p_fatal = False, p_is_event_stream = False \<rparr>"

definition ns_es_new :: "cptr \<Rightarrow> ns_es" where
  "ns_es_new last_id = \<lparr> es_last_event_id = (case last_id of None \<Rightarrow> [] | Some s \<Rightarrow> s),
     es_reconnect_ms = 3000, es_exit_requested = False, es_mailbox = mailbox_init \<rparr>"

definition ns_es_close :: "ns_es \<Rightarrow> ns_es" where
  "ns_es_close es = es \<lparr> es_exit_requested := True \<rparr>"

definition ns_es_free :: "ns_es \<Rightarrow> ns_es" where
  "ns_es_free es = es \<lparr> es_mailbox := mailbox_detach (es_mailbox es), es_exit_requested := True \<rparr>"

section \<open>Posting\<close>

definition ns_es_mailbox_post :: "es_event \<Rightarrow> es_event mailbox \<Rightarrow> es_event mailbox" where
  "ns_es_mailbox_post e mb = mailbox_post ns_es_max_pending True e mb"

definition ns_es_post :: "es_event \<Rightarrow> ns_es \<Rightarrow> ns_es" where
  "ns_es_post e es = es \<lparr> es_mailbox := ns_es_mailbox_post e (es_mailbox es) \<rparr>"

definition ns_es_dispatch_run :: "bool \<Rightarrow> es_event mailbox \<Rightarrow> es_event option \<times> es_event mailbox" where
  "ns_es_dispatch_run busy mb = mailbox_run_idle busy mb"

definition ns_es_dispatch_timer :: "bool \<Rightarrow> es_event mailbox \<Rightarrow> es_event option \<times> es_event mailbox" where
  "ns_es_dispatch_timer busy mb = mailbox_run_timer busy mb"

interpretation es_mail: event_mailbox ns_es_mailbox_post ns_es_dispatch_run ns_es_dispatch_timer
    "\<lambda>e. True" ns_es_max_pending
  by unfold_locales (simp_all add: ns_es_mailbox_post_def ns_es_dispatch_run_def ns_es_dispatch_timer_def)

definition ns_es_emit_error :: "bool \<Rightarrow> ns_es \<Rightarrow> ns_es" where
  "ns_es_emit_error fatal es = ns_es_post (EsError fatal) es"

section \<open>The stream parser\<close>

type_synonym es_pair = "ns_es \<times> ns_es_parse"

definition ns_es_dispatch_event :: "es_pair \<Rightarrow> es_pair" where
  "ns_es_dispatch_event s =
     (let (es, p) = s in
      if p_data p = [] \<and> p_event_type p = None then (es, p)
      else if p_data p = [] then (es, p \<lparr> p_event_type := None \<rparr>)
      else
        let d = (if last (p_data p) = LF then butlast (p_data p) else p_data p);
            ev = (case p_event_type p of Some t \<Rightarrow> t | None \<Rightarrow> ''message'')
        in (ns_es_post (EsMessage ev d (es_last_event_id es)) es,
            p \<lparr> p_event_type := None, p_data := [] \<rparr>))"

text \<open>Field and value of a line that is no comment.\<close>

definition es_field :: "string \<Rightarrow> string \<times> string" where
  "es_field line =
     (case strchr line CHR '':'' of
        None \<Rightarrow> (line, [])
      | Some v \<Rightarrow>
          (takeWhile (\<lambda>c. c \<noteq> CHR '':'') line,
           (case tl v of c # cs \<Rightarrow> if c = SP then cs else c # cs | [] \<Rightarrow> [])))"

definition ns_es_process_line :: "string \<Rightarrow> es_pair \<Rightarrow> es_pair" where
  "ns_es_process_line line s =
     (if line = [] then ns_es_dispatch_event s
      else if hd line = CHR '':'' then s
      else
        let (es, p) = s;
            (field, val) = es_field line
        in if field = ''data'' then
             (if length (p_data p) + length val + 1 > ns_es_max_event
              then (es, p \<lparr> p_fatal := True \<rparr>)
              else (es, p \<lparr> p_data := p_data p @ val @ [LF] \<rparr>))
           else if field = ''event'' then
             (es, p \<lparr> p_event_type := (if val \<noteq> [] then Some val else None) \<rparr>)
           else if field = ''id'' then (es \<lparr> es_last_event_id := val \<rparr>, p)
           else if field = ''retry'' then
             (if val \<noteq> [] \<and> list_all ascii_isdigit val \<and> strtol10 val > 0
              then (es \<lparr> es_reconnect_ms := min (strtol10 val) 86400000 \<rparr>, p)
              else (es, p))
           else (es, p))"

fun ns_es_feed :: "es_pair \<Rightarrow> string \<Rightarrow> es_pair" where
  "ns_es_feed (es, p) [] = (es, p)"
| "ns_es_feed (es, p) (c # cs) =
     (if c = LF \<and> p_last_was_cr p then ns_es_feed (es, p \<lparr> p_last_was_cr := False \<rparr>) cs
      else if c = CR \<or> c = LF then
        (let (es', p') = ns_es_process_line (until_nul (p_line p))
               (es, p \<lparr> p_last_was_cr := (c = CR) \<rparr>)
         in ns_es_feed (es', p' \<lparr> p_line := [] \<rparr>) cs)
      else if length (p_line p) \<ge> ns_es_max_line
        then (es, p \<lparr> p_last_was_cr := False, p_fatal := True \<rparr>)
      else ns_es_feed (es, p \<lparr> p_last_was_cr := False, p_line := p_line p @ [c] \<rparr>) cs)"

section \<open>The callbacks of curl\<close>

definition es_status_of :: "string \<Rightarrow> int" where
  "es_status_of buffer =
     (case strchr buffer SP of None \<Rightarrow> 0
      | Some r \<Rightarrow> strtol10 (takeWhile ascii_isdigit (take 7 (tl r))))"

definition ns_es_header_cb :: "string \<Rightarrow> es_pair \<Rightarrow> bool \<times> es_pair" where
  "ns_es_header_cb buffer s =
     (let (es, p) = s;
          s' = (if length buffer \<ge> 5 \<and> strncaseeq 5 buffer ''HTTP/''
                then (es, p \<lparr> p_status := es_status_of buffer, p_is_event_stream := False \<rparr>)
                else if length buffer \<ge> 13 \<and> strncaseeq 13 buffer ''Content-Type:''
                then (if str_contains (until_nul buffer) ''text/event-stream''
                      then (es, p \<lparr> p_is_event_stream := True \<rparr>) else (es, p))
                else if length buffer \<le> 2 then
                  (if \<not> p_opened p then
                     (if p_status p = 200 \<and> p_is_event_stream p
                      then (ns_es_post EsOpen es, p \<lparr> p_opened := True \<rparr>)
                      else if p_status p \<ge> 200 \<and> (p_status p < 300 \<or> p_status p \<ge> 400)
                      then (es, p \<lparr> p_fatal := True \<rparr>)
                      else (es, p))
                   else (es, p))
                else (es, p))
      in (\<not> es_exit_requested es, s'))"

definition ns_es_write_cb :: "string \<Rightarrow> es_pair \<Rightarrow> bool \<times> es_pair" where
  "ns_es_write_cb buf s =
     (if es_exit_requested (fst s) \<or> p_fatal (snd s) then (False, s)
      else (True, ns_es_feed s buf))"

text \<open>The calls of one transfer; a callback that returns less than it was
  given ends it.\<close>

datatype curl_call = CurlHeader string | CurlBody string

fun es_transfer :: "curl_call list \<Rightarrow> es_pair \<Rightarrow> es_pair" where
  "es_transfer [] s = s"
| "es_transfer (c # cs) s =
     (let (go, s') = (case c of CurlHeader b \<Rightarrow> ns_es_header_cb b s | CurlBody b \<Rightarrow> ns_es_write_cb b s)
      in if go then es_transfer cs s' else s')"

text \<open>The result: whether it opened and whether it may be retried.\<close>

definition ns_es_connect_once :: "curl_call list \<Rightarrow> ns_es \<Rightarrow> bool \<times> bool \<times> ns_es" where
  "ns_es_connect_once calls es =
     (let (es', p) = es_transfer calls (es, es_parse_init)
      in (p_opened p, \<not> p_fatal p, es'))"

definition es_reconnect_wait :: "ns_es \<Rightarrow> int" where
  "es_reconnect_wait es = (if es_reconnect_ms es \<le> 0 then 3000 else es_reconnect_ms es)"

text \<open>The worker over the connections the network gives it. The page may ask
  for the end during a connection (\<open>stop\<close>); \<open>waits\<close> are the pauses between the
  connections.\<close>

fun ns_es_worker :: "(curl_call list \<times> bool) list \<Rightarrow> ns_es \<Rightarrow> ns_es \<times> int list" where
  "ns_es_worker [] es = (es, [])"
| "ns_es_worker ((calls, stop) # rest) es =
     (if es_exit_requested es then (es, [])
      else
        let (opened, retriable, es1) = ns_es_connect_once calls es;
            es2 = (if stop then ns_es_close es1 else es1)
        in if es_exit_requested es2 then (es2, [])
           else if \<not> retriable then (ns_es_emit_error True es2, [])
           else
             let es3 = ns_es_emit_error False es2;
                 (es4, waits) = ns_es_worker rest es3
             in (es4, es_reconnect_wait es3 # waits))"

section \<open>Bounds\<close>

definition es_parse_ok :: "ns_es_parse \<Rightarrow> bool" where
  "es_parse_ok p \<longleftrightarrow> length (p_line p) \<le> ns_es_max_line \<and> length (p_data p) \<le> ns_es_max_event"

definition es_ok :: "ns_es \<Rightarrow> bool" where
  "es_ok es \<longleftrightarrow> mailbox_ok ns_es_max_pending (\<lambda>e. True) (es_mailbox es)
     \<and> 0 < es_reconnect_ms es \<and> es_reconnect_ms es \<le> 86400000"

lemma post_es_ok [simp]: "es_ok es \<Longrightarrow> es_ok (ns_es_post e es)"
  by (simp add: es_ok_def ns_es_post_def es_mail.post_ok)

lemma es_ok_update [simp]:
  "es_ok (es \<lparr> es_last_event_id := i \<rparr>) = es_ok es"
  "es_ok es \<Longrightarrow> 0 < m \<Longrightarrow> m \<le> 86400000 \<Longrightarrow> es_ok (es \<lparr> es_reconnect_ms := m \<rparr>)"
  "es_ok (es \<lparr> es_exit_requested := b \<rparr>) = es_ok es"
  by (simp_all add: es_ok_def)

lemma process_line_ok:
  assumes "ns_es_process_line line (es, p) = (es', p')" "es_ok es" "es_parse_ok p"
  shows "es_ok es' \<and> es_parse_ok p' \<and> p_line p' = p_line p
    \<and> p_last_was_cr p' = p_last_was_cr p \<and> (p_fatal p \<longrightarrow> p_fatal p')"
  using assms
  by (auto simp: ns_es_process_line_def ns_es_dispatch_event_def es_parse_ok_def Let_def
      split: if_splits prod.splits)

lemma feed_ok:
  "ns_es_feed (es, p) buf = (es', p') \<Longrightarrow> es_ok es \<Longrightarrow> es_parse_ok p \<Longrightarrow>
   es_ok es' \<and> es_parse_ok p' \<and> (p_fatal p \<longrightarrow> p_fatal p')"
proof (induction "(es, p)" buf arbitrary: es p rule: ns_es_feed.induct)
  case (2 es p c cs)
  obtain e1 p1 where l: "ns_es_process_line (until_nul (p_line p))
      (es, p \<lparr> p_last_was_cr := (c = CR) \<rparr>) = (e1, p1)" by fastforce
  have ok: "es_ok e1 \<and> es_parse_ok p1 \<and> (p_fatal p \<longrightarrow> p_fatal p1)"
    using process_line_ok [OF l] 2(5,6) by (auto simp: es_parse_ok_def)
  show ?case
    using 2 l ok by (auto simp: es_parse_ok_def split: if_splits)
qed auto

section \<open>The stream does not depend on how it is cut\<close>

lemma process_line_fatal_exit:
  "ns_es_process_line line (es, p) = (es', p') \<Longrightarrow>
   (p_fatal p \<longrightarrow> p_fatal p') \<and> es_exit_requested es' = es_exit_requested es"
  by (auto simp: ns_es_process_line_def ns_es_dispatch_event_def ns_es_post_def Let_def
      split: if_splits prod.splits)

lemma feed_fatal_exit:
  "(p_fatal (snd s) \<longrightarrow> p_fatal (snd (ns_es_feed s buf)))
   \<and> es_exit_requested (fst (ns_es_feed s buf)) = es_exit_requested (fst s)"
proof (induction s buf rule: ns_es_feed.induct)
  case (2 es p c cs)
  obtain e1 p1 where l: "ns_es_process_line (until_nul (p_line p))
      (es, p \<lparr> p_last_was_cr := (c = CR) \<rparr>) = (e1, p1)" by fastforce
  show ?case using 2 l process_line_fatal_exit [OF l] by (auto split: if_splits)
qed simp

lemma feed_append:
  "ns_es_feed s (a @ b) = ns_es_feed (ns_es_feed s a) b
   \<or> (p_fatal (snd (ns_es_feed s a)) \<and> ns_es_feed s (a @ b) = ns_es_feed s a)"
proof (induction s a rule: ns_es_feed.induct)
  case (2 es p c cs)
  obtain e1 p1 where l: "ns_es_process_line (until_nul (p_line p))
      (es, p \<lparr> p_last_was_cr := (c = CR) \<rparr>) = (e1, p1)" by fastforce
  show ?case using 2 l by (auto split: if_splits)
qed simp

lemma transfer_fatal: "p_fatal (snd s) \<Longrightarrow> es_transfer (map CurlBody chunks) s = s"
  by (cases chunks) (simp_all add: ns_es_write_cb_def)

lemma chunks_one_feed:
  assumes "\<not> es_exit_requested (fst s)" "\<not> p_fatal (snd s)"
  shows "p_fatal (snd (es_transfer (map CurlBody chunks) s)) = p_fatal (snd (ns_es_feed s (concat chunks)))
    \<and> (\<not> p_fatal (snd (ns_es_feed s (concat chunks)))
       \<longrightarrow> es_transfer (map CurlBody chunks) s = ns_es_feed s (concat chunks))"
  using assms
proof (induction chunks arbitrary: s)
  case Nil
  then show ?case by (cases s) simp
next
  case (Cons c cs)
  let ?s1 = "ns_es_feed s c"
  have t: "es_transfer (map CurlBody (c # cs)) s = es_transfer (map CurlBody cs) ?s1"
    using Cons.prems by (simp add: ns_es_write_cb_def)
  show ?case
  proof (cases "p_fatal (snd ?s1)")
    case True
    then have "p_fatal (snd (ns_es_feed s (c @ concat cs)))"
      using feed_append [of s c "concat cs"] feed_fatal_exit [of ?s1 "concat cs"] by auto
    with True show ?thesis unfolding t by (simp add: transfer_fatal)
  next
    case False
    then have "ns_es_feed s (c @ concat cs) = ns_es_feed ?s1 (concat cs)"
      using feed_append [of s c "concat cs"] by blast
    moreover have "\<not> es_exit_requested (fst ?s1)"
      using feed_fatal_exit [of s c] Cons.prems(1) by simp
    ultimately show ?thesis unfolding t using Cons.IH [of ?s1] False by simp
  qed
qed

lemma chunks_until_fatal:
  assumes "\<not> es_exit_requested (fst s)" "\<not> p_fatal (snd s)"
  shows "\<exists>k \<le> length chunks. es_transfer (map CurlBody chunks) s = ns_es_feed s (concat (take k chunks))
         \<and> (k < length chunks \<longrightarrow> p_fatal (snd (ns_es_feed s (concat (take k chunks)))))
         \<and> (\<forall>j < k. \<not> p_fatal (snd (ns_es_feed s (concat (take j chunks)))))"
  using assms
proof (induction chunks arbitrary: s)
  case Nil
  then show ?case by (cases s) simp
next
  case (Cons c cs)
  let ?s1 = "ns_es_feed s c"
  have t: "es_transfer (map CurlBody (c # cs)) s = es_transfer (map CurlBody cs) ?s1"
    using Cons.prems by (simp add: ns_es_write_cb_def)
  have zero: "\<not> p_fatal (snd (ns_es_feed s []))" using Cons.prems by (cases s) simp
  show ?case
  proof (cases "p_fatal (snd ?s1)")
    case True
    then have "es_transfer (map CurlBody (c # cs)) s = ?s1" unfolding t by (rule transfer_fatal)
    then show ?thesis using True zero by (intro exI [of _ 1]) simp
  next
    case False
    then have feed: "ns_es_feed s (c @ r) = ns_es_feed ?s1 r" for r using feed_append [of s c r] by blast
    have "\<not> es_exit_requested (fst ?s1)" using feed_fatal_exit [of s c] Cons.prems(1) by simp
    from Cons.IH [OF this False] obtain k where k: "k \<le> length cs"
      "es_transfer (map CurlBody cs) ?s1 = ns_es_feed ?s1 (concat (take k cs))"
      "k < length cs \<longrightarrow> p_fatal (snd (ns_es_feed ?s1 (concat (take k cs))))"
      "\<forall>j < k. \<not> p_fatal (snd (ns_es_feed ?s1 (concat (take j cs))))" by blast
    have "\<not> p_fatal (snd (ns_es_feed s (concat (take j (c # cs)))))" if "j < Suc k" for j
      using that zero k(4) False feed by (cases j) auto
    then show ?thesis using k(1-3) feed unfolding t by (intro exI [of _ "Suc k"]) simp
  qed
qed

text \<open>An event above its limit does not end the feed: the rest of the block is still parsed, the data
  collected before is handed out as a message, and so are further events of the block.\<close>

lemma oversized_event_delivered:
  assumes "length (p_data p) = ns_es_max_event" "p_line p = []" "\<not> p_last_was_cr p"
  shows "p_fatal (snd (ns_es_feed (es, p) (''data:x'' @ [LF, LF])))
    \<and> fst (ns_es_feed (es, p) (''data:x'' @ [LF, LF]))
      = ns_es_post (EsMessage (case p_event_type p of Some t \<Rightarrow> t | None \<Rightarrow> ''message'')
          (if last (p_data p) = LF then butlast (p_data p) else p_data p) (es_last_event_id es)) es"
proof -
  have f: "es_field ''data:x'' = (''data'', ''x'')" by code_simp
  have u: "until_nul ''data:x'' = ''data:x''" "until_nul [] = []" by code_simp+
  have d: "p_data p \<noteq> []" "\<not> ns_es_max_line \<le> 5" "length (p_data p) + 2 > ns_es_max_event"
    using assms(1) by (auto simp: ns_es_max_event_def ns_es_max_line_def)
  define q where "q = p\<lparr>p_fatal := True, p_line := [], p_last_was_cr := False\<rparr>"
  have "ns_es_feed (es, p) (''data:x'' @ [LF, LF])
      = (case ns_es_dispatch_event (es, q) of (e, r) \<Rightarrow> (e, r\<lparr>p_line := []\<rparr>))"
    using assms d by (simp add: ns_es_process_line_def f u split_def Let_def q_def)
  then show ?thesis using d(1) by (simp add: ns_es_dispatch_event_def Let_def split_def q_def split: option.splits)
qed

text \<open>(C36) In which blocks curl delivers a stream does not matter as long as no line and no event
  is above its limit: feeding the blocks one by one ends in the same state, with the same events,
  as feeding the stream at once. With one above its limit both end with the fatal error, and what
  the blocks lead to is what the stream leads to up to the end of the block with the error; the
  events that follow in that block are still delivered, those of later blocks are not. The
  state is one in which the connection is open and no error has occurred.\<close>

theorem es_stream_chunking:
  assumes "\<not> es_exit_requested (fst s)" "\<not> p_fatal (snd s)"
  shows "p_fatal (snd (es_transfer (map CurlBody chunks) s)) = p_fatal (snd (ns_es_feed s (concat chunks)))
    \<and> (\<not> p_fatal (snd (ns_es_feed s (concat chunks)))
       \<longrightarrow> es_transfer (map CurlBody chunks) s = ns_es_feed s (concat chunks))
    \<and> (\<exists>k \<le> length chunks. es_transfer (map CurlBody chunks) s = ns_es_feed s (concat (take k chunks))
         \<and> (k < length chunks \<longrightarrow> p_fatal (snd (ns_es_feed s (concat (take k chunks)))))
         \<and> (\<forall>j < k. \<not> p_fatal (snd (ns_es_feed s (concat (take j chunks))))))"
proof (intro conjI)
  show "p_fatal (snd (es_transfer (map CurlBody chunks) s)) = p_fatal (snd (ns_es_feed s (concat chunks)))"
    "\<not> p_fatal (snd (ns_es_feed s (concat chunks)))
       \<longrightarrow> es_transfer (map CurlBody chunks) s = ns_es_feed s (concat chunks)"
    using chunks_one_feed [OF assms] by blast+
qed (rule chunks_until_fatal [OF assms])

theorem es_stream_chunking_witness:
  "es_transfer (map CurlBody [''data: a'', [LF, LF]]) (ns_es_new None, es_parse_init)
   = ns_es_feed (ns_es_new None, es_parse_init) (concat [''data: a'', [LF, LF]])"
proof -
  have "\<not> p_fatal (snd (ns_es_feed (ns_es_new None, es_parse_init) (concat [''data: a'', [LF, LF]])))"
    by (simp add: ns_es_new_def es_parse_init_def ns_es_max_line_def ns_es_max_event_def
        ns_es_process_line_def es_field_def until_nul_def ns_es_dispatch_event_def strchr_def)
  then show ?thesis
    using es_stream_chunking [of "(ns_es_new None, es_parse_init)" "[''data: a'', [LF, LF]]"]
    by (simp add: ns_es_new_def es_parse_init_def)
qed

section \<open>A stream that a server writes is read back\<close>

text \<open>A message as a server writes it: a type, an id, the lines of its data.\<close>

record es_message =
  em_type :: cptr
  em_id :: cptr
  em_lines :: "string list"

definition es_lines :: "es_message \<Rightarrow> string list" where
  "es_lines m =
     (case em_type m of None \<Rightarrow> [] | Some t \<Rightarrow> [''event: '' @ t])
     @ (case em_id m of None \<Rightarrow> [] | Some i \<Rightarrow> [''id: '' @ i])
     @ map (\<lambda>l. ''data: '' @ l) (em_lines m) @ [[]]"

definition es_encode :: "string \<Rightarrow> es_message list \<Rightarrow> string" where
  "es_encode nl ms = concat (map (\<lambda>m. concat (map (\<lambda>l. l @ nl) (es_lines m))) ms)"

fun es_decoded :: "string \<Rightarrow> es_message list \<Rightarrow> es_event list" where
  "es_decoded lid [] = []"
| "es_decoded lid (m # ms) =
     (let i = (case em_id m of None \<Rightarrow> lid | Some i \<Rightarrow> i)
      in EsMessage (case em_type m of None \<Rightarrow> ''message'' | Some t \<Rightarrow> t)
           (strjoin [LF] (em_lines m)) i # es_decoded i ms)"

definition line_text :: "string \<Rightarrow> bool" where
  "line_text l = (CR \<notin> set l \<and> LF \<notin> set l \<and> NUL \<notin> set l)"

definition es_message_ok :: "es_message \<Rightarrow> bool" where
  "es_message_ok m \<longleftrightarrow> em_lines m \<noteq> [] \<and> em_type m \<noteq> Some []
     \<and> (\<forall>t. em_type m = Some t \<longrightarrow> line_text t \<and> length t + 7 \<le> ns_es_max_line)
     \<and> (\<forall>i. em_id m = Some i \<longrightarrow> line_text i \<and> length i + 4 \<le> ns_es_max_line)
     \<and> (\<forall>l\<in>set (em_lines m). line_text l \<and> length l + 6 \<le> ns_es_max_line)
     \<and> (\<Sum>l\<leftarrow>em_lines m. length l + 1) \<le> ns_es_max_event"

lemma until_nul_text: "line_text l \<Longrightarrow> until_nul l = l"
  unfolding until_nul_def line_text_def by (induction l) auto

lemma cr_line_commute:
  "p \<lparr> p_last_was_cr := b, p_line := x \<rparr> = (p :: ns_es_parse) \<lparr> p_line := x, p_last_was_cr := b \<rparr>"
  by (cases p) simp

lemma feed_plain:
  assumes "line_text l" "length (p_line p) + length l \<le> ns_es_max_line" "l \<noteq> []"
  shows "ns_es_feed (es, p) (l @ rest)
    = ns_es_feed (es, p \<lparr> p_line := p_line p @ l, p_last_was_cr := False \<rparr>) rest"
  using assms
proof (induction l arbitrary: p)
  case (Cons c l)
  have c: "c \<noteq> CR" "c \<noteq> LF" "line_text l" using Cons.prems(1) by (auto simp: line_text_def)
  have len: "\<not> length (p_line p) \<ge> ns_es_max_line" using Cons.prems(2) by simp
  let ?q = "p \<lparr> p_last_was_cr := False, p_line := p_line p @ [c] \<rparr>"
  have step: "ns_es_feed (es, p) ((c # l) @ rest) = ns_es_feed (es, ?q) (l @ rest)"
    using c len by simp
  show ?case
  proof (cases "l = []")
    case False
    have "length (p_line ?q) + length l \<le> ns_es_max_line" using Cons.prems(2) by simp
    from Cons.IH [OF c(3) this False] show ?thesis unfolding step by simp
  qed (use c len in \<open>simp add: cr_line_commute\<close>)
qed simp

lemma process_line_frame:
  "ns_es_process_line l (es, p \<lparr> p_line := x, p_last_was_cr := b \<rparr>) =
     (fst (ns_es_process_line l (es, p)),
      (snd (ns_es_process_line l (es, p))) \<lparr> p_line := x, p_last_was_cr := b \<rparr>)"
  by (auto simp: ns_es_process_line_def ns_es_dispatch_event_def Let_def split: prod.split)

text \<open>A line with its end, for each of the three line ends.\<close>

lemma feed_line:
  assumes "line_text l" "length l \<le> ns_es_max_line" "nl \<in> {[LF], [CR], [CR, LF]}"
    "p_line p = []" "nl = [LF] \<Longrightarrow> \<not> p_last_was_cr p"
  shows "ns_es_feed (es, p) (l @ nl @ rest) =
    (let (es', p') = ns_es_process_line l (es, p)
     in ns_es_feed (es', p' \<lparr> p_line := [], p_last_was_cr := (nl = [CR]) \<rparr>) rest)"
proof -
  define q where "q = p \<lparr> p_line := l, p_last_was_cr := (if l = [] then p_last_was_cr p else False) \<rparr>"
  have qp: "p \<lparr> p_line := [], p_last_was_cr := p_last_was_cr p \<rparr> = p" using assms(4) by simp
  have start: "ns_es_feed (es, p) (l @ nl @ rest) = ns_es_feed (es, q) (nl @ rest)"
  proof (cases "l = []")
    case True
    then have "q = p" using assms(4) by (simp add: q_def)
    with True show ?thesis by simp
  next
    case False
    then show ?thesis
      using feed_plain [OF assms(1) _ False, of p es "nl @ rest"] assms(2,4) by (simp add: q_def)
  qed
  have pl: "ns_es_process_line (until_nul (p_line q)) (es, q \<lparr> p_last_was_cr := b \<rparr>) =
     (fst (ns_es_process_line l (es, p)),
      (snd (ns_es_process_line l (es, p))) \<lparr> p_line := l, p_last_was_cr := b \<rparr>)" for b
    using process_line_frame [where l = l and es = es and p = p and x = l and b = b] until_nul_text [OF assms(1)] by (simp add: q_def)
  obtain es' p' where e: "ns_es_process_line l (es, p) = (es', p')" by fastforce
  have qcr: "nl = [LF] \<Longrightarrow> \<not> p_last_was_cr q" using assms(5) by (simp add: q_def)
  consider "nl = [LF]" | "nl = [CR]" | "nl = [CR, LF]" using assms(3) by blast
  then show ?thesis
  proof cases
    case 1
    then show ?thesis unfolding start using pl [of False] qcr e by (simp add: cr_line_commute)
  next
    case 2
    then show ?thesis unfolding start using pl [of True] e by (simp add: cr_line_commute)
  next
    case 3
    then show ?thesis unfolding start using pl [of True] e by (simp add: cr_line_commute)
  qed
qed

lemma fold_process_frame:
  "fold ns_es_process_line ls (es, p \<lparr> p_line := x, p_last_was_cr := b \<rparr>) =
     (fst (fold ns_es_process_line ls (es, p)),
      (snd (fold ns_es_process_line ls (es, p))) \<lparr> p_line := x, p_last_was_cr := b \<rparr>)"
proof (induction ls arbitrary: es p)
  case (Cons l ls)
  show ?case
    using Cons.IH [of "fst (ns_es_process_line l (es, p))" "snd (ns_es_process_line l (es, p))"]
    by (simp add: process_line_frame)
qed simp

lemma feed_lines:
  assumes "nl \<in> {[LF], [CR], [CR, LF]}" "\<forall>l\<in>set ls. line_text l \<and> length l \<le> ns_es_max_line"
    "p_line p = []" "nl = [LF] \<Longrightarrow> \<not> p_last_was_cr p" "ls \<noteq> []"
  shows "ns_es_feed (es, p) (concat (map (\<lambda>l. l @ nl) ls) @ rest) =
    (let (es', p') = fold ns_es_process_line ls (es, p)
     in ns_es_feed (es', p' \<lparr> p_line := [], p_last_was_cr := (nl = [CR]) \<rparr>) rest)"
  using assms(2-)
proof (induction ls arbitrary: es p)
  case (Cons l ls)
  obtain e1 p1 where l: "ns_es_process_line l (es, p) = (e1, p1)" by fastforce
  let ?p1 = "p1 \<lparr> p_line := [], p_last_was_cr := (nl = [CR]) \<rparr>"
  have step: "ns_es_feed (es, p) (concat (map (\<lambda>l. l @ nl) (l # ls)) @ rest)
      = ns_es_feed (e1, ?p1) (concat (map (\<lambda>l. l @ nl) ls) @ rest)"
    using feed_line [OF _ _ assms(1) Cons.prems(2), of l es "concat (map (\<lambda>l. l @ nl) ls) @ rest"]
      Cons.prems(1,3) l by simp
  show ?case
  proof (cases "ls = []")
    case True
    then show ?thesis unfolding step using l by simp
  next
    case False
    have "nl = [LF] \<Longrightarrow> \<not> p_last_was_cr ?p1" by simp
    then show ?thesis
      unfolding step using Cons.IH [of ?p1 e1] Cons.prems(1) False l
      by (simp add: fold_process_frame case_prod_beta Let_def)
  qed
qed simp

text \<open>What the lines of a message do to the parser.\<close>

lemma es_field_space: "CHR '':'' \<notin> set f \<Longrightarrow> es_field (f @ '': '' @ v) = (f, v)"
  using strchr_append [of "CHR '':''" f "CHR '' '' # v"] by (simp add: es_field_def)

lemma process_field:
  assumes "CHR '':'' \<notin> set f" "f \<noteq> []" "hd f \<noteq> CHR '':''"
  shows "ns_es_process_line (f @ '': '' @ v) (es, p) =
    (if f = ''data'' then
       (if length (p_data p) + length v + 1 > ns_es_max_event then (es, p \<lparr> p_fatal := True \<rparr>)
        else (es, p \<lparr> p_data := p_data p @ v @ [LF] \<rparr>))
     else if f = ''event'' then (es, p \<lparr> p_event_type := (if v \<noteq> [] then Some v else None) \<rparr>)
     else if f = ''id'' then (es \<lparr> es_last_event_id := v \<rparr>, p)
     else if f = ''retry'' then
       (if v \<noteq> [] \<and> list_all ascii_isdigit v \<and> strtol10 v > 0
        then (es \<lparr> es_reconnect_ms := min (strtol10 v) 86400000 \<rparr>, p) else (es, p))
     else (es, p))"
  unfolding ns_es_process_line_def es_field_space [OF assms(1)] Let_def prod.case
  using assms(2,3) by simp

lemma fold_data_lines:
  "length (p_data p) + (\<Sum>l\<leftarrow>ls. length l + 1) \<le> ns_es_max_event \<Longrightarrow>
   fold ns_es_process_line (map (\<lambda>l. ''data: '' @ l) ls) (es, p)
   = (es, p \<lparr> p_data := p_data p @ concat (map (\<lambda>l. l @ [LF]) ls) \<rparr>)"
proof (induction ls arbitrary: p)
  case (Cons l ls)
  have "ns_es_process_line (''data: '' @ l) (es, p) = (es, p \<lparr> p_data := p_data p @ l @ [LF] \<rparr>)"
    using process_field [of "''data''" l es p] Cons.prems by simp
  with Cons show ?case by simp
qed simp

lemma concat_lines_strjoin:
  "ls \<noteq> [] \<Longrightarrow> concat (map (\<lambda>l. l @ [LF]) ls) = strjoin [LF] ls @ [LF]"
  by (induction "[LF]" ls rule: strjoin.induct) auto

lemma fold_message:
  assumes "es_message_ok m" "p_data p = []" "p_event_type p = None"
  shows "fold ns_es_process_line (es_lines m) (es, p) =
    (let i = (case em_id m of None \<Rightarrow> es_last_event_id es | Some i \<Rightarrow> i)
     in (ns_es_post (EsMessage (case em_type m of None \<Rightarrow> ''message'' | Some t \<Rightarrow> t)
             (strjoin [LF] (em_lines m)) i) (es \<lparr> es_last_event_id := i \<rparr>), p))"
proof -
  let ?es1 = "es \<lparr> es_last_event_id := (case em_id m of None \<Rightarrow> es_last_event_id es | Some i \<Rightarrow> i) \<rparr>"
  let ?p1 = "p \<lparr> p_event_type := em_type m \<rparr>"
  have t: "fold ns_es_process_line (case em_type m of None \<Rightarrow> [] | Some t \<Rightarrow> [''event: '' @ t]) (es, p)
      = (es, ?p1)"
    using process_field [of "''event''"] assms(1,3)
    by (cases "em_type m") (auto simp: es_message_ok_def)
  have i: "fold ns_es_process_line (case em_id m of None \<Rightarrow> [] | Some i \<Rightarrow> [''id: '' @ i]) (es, ?p1)
      = (?es1, ?p1)"
    using process_field [of "''id''"] by (cases "em_id m") auto
  have d: "fold ns_es_process_line (map (\<lambda>l. ''data: '' @ l) (em_lines m)) (?es1, ?p1)
      = (?es1, ?p1 \<lparr> p_data := strjoin [LF] (em_lines m) @ [LF] \<rparr>)"
    using fold_data_lines [of ?p1 "em_lines m" ?es1] assms(1,2)
    by (simp add: es_message_ok_def concat_lines_strjoin)
  have e: "ns_es_process_line [] (?es1, ?p1 \<lparr> p_data := strjoin [LF] (em_lines m) @ [LF] \<rparr>)
      = (ns_es_post (EsMessage (case em_type m of None \<Rightarrow> ''message'' | Some t \<Rightarrow> t)
             (strjoin [LF] (em_lines m)) (es_last_event_id ?es1)) ?es1,
         p \<lparr> p_event_type := None, p_data := [] \<rparr>)"
    by (simp add: ns_es_process_line_def ns_es_dispatch_event_def split: option.split)
  have p: "p \<lparr> p_event_type := None, p_data := [] \<rparr> = p" using assms(2,3) by simp
  show ?thesis
    unfolding es_lines_def fold_append comp_apply t i d
    using e p by (simp add: Let_def)
qed

lemma es_lines_text:
  assumes "es_message_ok m"
  shows "\<forall>l\<in>set (es_lines m). line_text l \<and> length l \<le> ns_es_max_line"
proof -
  have step: "line_text (c # l) \<longleftrightarrow> c \<noteq> CR \<and> c \<noteq> LF \<and> c \<noteq> NUL \<and> line_text l" for c l
    by (auto simp: line_text_def)
  have nil: "line_text []" by (simp add: line_text_def)
  show ?thesis
    using assms
    by (cases "em_type m"; cases "em_id m") (auto simp: es_message_ok_def es_lines_def step nil)
qed

text \<open>(C26) A stream of messages written by a server, with LF, CR or CRLF line
  ends, arrives as it was written: each message is posted once, in order, with
  its type (\<open>message\<close> when there is none), its data lines joined by newlines and
  the last id seen, as long as the main loop has room for them.\<close>

theorem es_stream_roundtrip:
  assumes "nl \<in> {[LF], [CR], [CR, LF]}" "\<forall>m\<in>set ms. es_message_ok m"
    and "p_line p = []" "p_data p = []" "p_event_type p = None" "\<not> p_last_was_cr p"
    and "\<not> mb_detached (es_mailbox es)"
    and "mb_pending (es_mailbox es) + length ms \<le> ns_es_max_pending"
  shows "let (es', p') = ns_es_feed (es, p) (es_encode nl ms)
         in mb_idle (es_mailbox es') = mb_idle (es_mailbox es) @ es_decoded (es_last_event_id es) ms
            \<and> p_fatal p' = p_fatal p"
proof -
  have cr: "nl = [LF] \<Longrightarrow> \<not> p_last_was_cr p" using assms(6) by simp
  show ?thesis
    using assms(2-5,7,8) cr
  proof (induction ms arbitrary: es p)
    case Nil
    then show ?case by (simp add: es_encode_def)
  next
    case (Cons m ms)
    let ?i = "case em_id m of None \<Rightarrow> es_last_event_id es | Some i \<Rightarrow> i"
    let ?ev = "EsMessage (case em_type m of None \<Rightarrow> ''message'' | Some t \<Rightarrow> t)
             (strjoin [LF] (em_lines m)) ?i"
    let ?es1 = "ns_es_post ?ev (es \<lparr> es_last_event_id := ?i \<rparr>)"
    let ?p1 = "p \<lparr> p_line := [], p_last_was_cr := (nl = [CR]) \<rparr>"
    have m: "es_message_ok m" using Cons.prems(1) by simp
    have "es_lines m \<noteq> []" by (simp add: es_lines_def)
    then have step: "ns_es_feed (es, p) (es_encode nl (m # ms)) = ns_es_feed (?es1, ?p1) (es_encode nl ms)"
      using feed_lines [OF assms(1) es_lines_text [OF m] Cons.prems(2,7), of es "es_encode nl ms"]
        fold_message [OF m Cons.prems(3,4), of es]
      by (simp add: es_encode_def Let_def)
    have "\<not> mb_detached (es_mailbox es)" "mb_pending (es_mailbox es) < ns_es_max_pending"
      using Cons.prems(5,6) by simp_all
    then have box: "mb_idle (es_mailbox ?es1) = mb_idle (es_mailbox es) @ [?ev]
        \<and> mb_pending (es_mailbox ?es1) = mb_pending (es_mailbox es) + 1
        \<and> \<not> mb_detached (es_mailbox ?es1)"
      using es_mail.post_kept [of "es_mailbox es" ?ev] by (simp add: ns_es_post_def)
    have "let (es', p') = ns_es_feed (?es1, ?p1) (es_encode nl ms)
         in mb_idle (es_mailbox es') = mb_idle (es_mailbox ?es1) @ es_decoded (es_last_event_id ?es1) ms
            \<and> p_fatal p' = p_fatal ?p1"
      by (rule Cons.IH) (use Cons.prems box in auto)
    moreover have "es_last_event_id ?es1 = ?i" by (simp add: ns_es_post_def)
    ultimately show ?case unfolding step using box by (simp add: Let_def case_prod_beta)
  qed
qed

definition example_message :: es_message where
  "example_message = \<lparr> em_type = Some ''ping'', em_id = Some ''7'', em_lines = [''a'', ''b''] \<rparr>"

theorem es_stream_roundtrip_witness:
  "let (es', p') = ns_es_feed (ns_es_new None, es_parse_init) (es_encode [CR, LF] [example_message])
   in mb_idle (es_mailbox es') = mb_idle (es_mailbox (ns_es_new None))
        @ es_decoded (es_last_event_id (ns_es_new None)) [example_message]
      \<and> p_fatal p' = p_fatal es_parse_init"
  by (rule es_stream_roundtrip)
    (simp_all add: ns_es_new_def es_parse_init_def mailbox_init_def ns_es_max_pending_def
      es_message_ok_def example_message_def line_text_def ns_es_max_line_def ns_es_max_event_def)

section \<open>Limits and the end of the worker\<close>

lemma header_ok:
  assumes "ns_es_header_cb b (es, p) = (go, (es', p'))" "es_ok es" "es_parse_ok p"
  shows "es_ok es' \<and> es_parse_ok p'"
  using assms by (auto simp: ns_es_header_cb_def es_parse_ok_def Let_def split: if_splits)

lemma transfer_ok:
  "es_ok (fst s) \<Longrightarrow> es_parse_ok (snd s) \<Longrightarrow>
   es_ok (fst (es_transfer calls s)) \<and> es_parse_ok (snd (es_transfer calls s))"
proof (induction calls s rule: es_transfer.induct)
  case (2 c cs s)
  obtain es p where s: "s = (es, p)" by fastforce
  obtain go es' p' where r: "(case c of CurlHeader b \<Rightarrow> ns_es_header_cb b s
      | CurlBody b \<Rightarrow> ns_es_write_cb b s) = (go, (es', p'))" by (metis prod.exhaust)
  have "es_ok es' \<and> es_parse_ok p'"
  proof (cases c)
    case (CurlHeader b)
    then show ?thesis using header_ok [of b es p go es' p'] r 2(2,3) s by simp
  next
    case (CurlBody b)
    obtain e1 p1 where f: "ns_es_feed (es, p) b = (e1, p1)" by fastforce
    show ?thesis
      using CurlBody r s feed_ok [OF f] f 2(2,3) by (auto simp: ns_es_write_cb_def split: if_splits)
  qed
  then show ?case using 2(1) [OF r [symmetric] refl] r 2(2,3) by auto
qed simp

lemma es_connect_ok:
  "ns_es_connect_once calls es = (opened, retriable, es') \<Longrightarrow> es_ok es \<Longrightarrow> es_ok es'"
  using transfer_ok [of "(es, es_parse_init)" calls]
  by (auto simp: ns_es_connect_once_def es_parse_init_def es_parse_ok_def split: prod.splits)

text \<open>However long a server keeps the client busy, at most 256 events wait
  for the main loop, the pauses between connections are between 1 ms and one day,
  and at every point of the next connection the buffered line and event stay
  within 1 MiB and 8 MiB.\<close>

theorem es_worker_bounded:
  assumes "es_ok es" "ns_es_worker script es = (es', waits)"
  shows "mb_pending (es_mailbox es') = length (mb_timers (es_mailbox es')) + length (mb_idle (es_mailbox es'))
    \<and> mb_pending (es_mailbox es') \<le> 256
    \<and> (\<forall>w\<in>set waits. 0 < w \<and> w \<le> 86400000) \<and> length waits \<le> length script
    \<and> length (p_line (snd (es_transfer calls (es', es_parse_init)))) \<le> 1048576
    \<and> length (p_data (snd (es_transfer calls (es', es_parse_init)))) \<le> 8388608"
proof -
  have "es_ok es' \<and> (\<forall>w\<in>set waits. 0 < w \<and> w \<le> 86400000) \<and> length waits \<le> length script"
    using assms
  proof (induction script es arbitrary: es' waits rule: ns_es_worker.induct)
    case (2 calls stop rest es)
    show ?case
    proof (cases "es_exit_requested es")
      case False
      obtain op re es1 where c: "ns_es_connect_once calls es = (op, re, es1)" by (metis prod_cases3)
      define es2 where "es2 = (if stop then ns_es_close es1 else es1)"
      have ok: "es_ok es2" using es_connect_ok [OF c 2(2)] by (simp add: es2_def ns_es_close_def)
      have unf: "ns_es_worker ((calls, stop) # rest) es =
          (if es_exit_requested es2 then (es2, [])
           else if \<not> re then (ns_es_emit_error True es2, [])
           else (fst (ns_es_worker rest (ns_es_emit_error False es2)),
                 es_reconnect_wait (ns_es_emit_error False es2)
                 # snd (ns_es_worker rest (ns_es_emit_error False es2))))"
        unfolding ns_es_worker.simps(2) c prod.case Let_def es2_def [symmetric]
        using False by (simp add: case_prod_beta)
      show ?thesis
      proof (cases "es_exit_requested es2 \<or> \<not> re")
        case True
        then show ?thesis using 2(3) unf ok by (auto simp: ns_es_emit_error_def split: if_splits)
      next
        case go: False
        let ?es3 = "ns_es_emit_error False es2"
        obtain es4 ws where w: "ns_es_worker rest ?es3 = (es4, ws)" by fastforce
        have e: "es' = es4" "waits = es_reconnect_wait ?es3 # ws"
          using 2(3) unf go w by simp_all
        have ok3: "es_ok ?es3" using ok by (simp add: ns_es_emit_error_def)
        have "es_ok es4 \<and> (\<forall>w\<in>set ws. 0 < w \<and> w \<le> 86400000) \<and> length ws \<le> length rest"
          using 2(1) [OF False c [symmetric] refl refl es2_def _ _ refl ok3 w] go by simp
        moreover have "0 < es_reconnect_wait ?es3 \<and> es_reconnect_wait ?es3 \<le> 86400000"
          using ok3 by (simp add: es_reconnect_wait_def es_ok_def)
        ultimately show ?thesis by (simp add: e)
      qed
    qed (use 2 in simp)
  qed simp
  moreover have "es_parse_ok (snd (es_transfer calls (es', es_parse_init)))" if "es_ok es'"
    using that by (intro transfer_ok [THEN conjunct2]) (simp_all add: es_parse_ok_def es_parse_init_def)
  ultimately show ?thesis
    by (auto simp: es_ok_def mailbox_ok_def mailbox_events_def ns_es_max_pending_def es_parse_ok_def
        ns_es_max_line_def ns_es_max_event_def)
qed

theorem es_worker_bounded_witness:
  "let (es', waits) = ns_es_worker [([CurlHeader ''HTTP/1.1 204 x'', CurlHeader []], False)] (ns_es_new None)
   in mb_pending (es_mailbox es') = length (mb_timers (es_mailbox es')) + length (mb_idle (es_mailbox es'))
    \<and> mb_pending (es_mailbox es') \<le> 256
    \<and> (\<forall>w\<in>set waits. 0 < w \<and> w \<le> 86400000)
    \<and> length waits \<le> length [([CurlHeader ''HTTP/1.1 204 x'', CurlHeader []], False)]
    \<and> length (p_line (snd (es_transfer [] (es', es_parse_init)))) \<le> 1048576
    \<and> length (p_data (snd (es_transfer [] (es', es_parse_init)))) \<le> 8388608"
proof -
  let ?script = "[([CurlHeader ''HTTP/1.1 204 x'', CurlHeader []], False)]"
  have ok: "es_ok (ns_es_new None)"
    by (simp add: es_ok_def ns_es_new_def es_mail.init_ok)
  obtain es' waits where w: "ns_es_worker ?script (ns_es_new None) = (es', waits)" by fastforce
  from es_worker_bounded [OF ok w, of "[]"] show ?thesis unfolding w Let_def prod.case .
qed

end
