(* ===== verification/Web_Socket.thy ===== *)
theory Web_Socket
  imports Event_Mailbox "HOL-Library.Multiset" "HOL-Library.Sublist"
begin

text \<open>
  The WebSocket client (\<open>src/src/ws.c\<close>) over the WebSocket calls of libcurl: the
  queue of outgoing messages, the reassembly of frames, the closing handshake
  and the worker thread.

  The page's calls run on the main thread and the worker on its own; the model
  interleaves them access by access to what they share. What curl returns is given
  to the worker one result at a time; UTF-8 validation (\<open>g_utf8_validate\<close>) is the
  parameter \<open>utf8\<close>. The frames handed to curl and the events posted, queued and told
  are recorded as history.
\<close>

section \<open>State\<close>

datatype ws_state = WsConnecting | WsOpenState | WsClosing | WsClosed

datatype ws_event = WsOpen | WsMessage bool string | WsClose int string bool | WsError string

datatype ws_out = OutText string | OutBinary string | OutClose int cptr

definition ns_ws_max_message :: nat where "ns_ws_max_message = 8 * 1024 * 1024"
definition ns_ws_max_pending :: nat where "ns_ws_max_pending = 256"

record ns_ws =
  ws_state :: ws_state
  ws_out_queue :: "ws_out list"
  ws_exit_requested :: bool
  ws_mailbox :: "ws_event mailbox"
  ws_recv_assembly :: string
  ws_recv_binary :: bool
  ws_recv_in_message :: bool

definition ns_ws_new :: ns_ws where
  "ns_ws_new = \<lparr> ws_state = WsConnecting, ws_out_queue = [], ws_exit_requested = False,
     ws_mailbox = mailbox_init, ws_recv_assembly = [], ws_recv_binary = False,
     ws_recv_in_message = False \<rparr>"

section \<open>Events\<close>

definition ws_droppable :: "ws_event \<Rightarrow> bool" where
  "ws_droppable e = (case e of WsMessage t d \<Rightarrow> True | _ \<Rightarrow> False)"

definition ns_ws_post :: "ws_event \<Rightarrow> ws_event mailbox \<Rightarrow> ws_event mailbox" where
  "ns_ws_post e mb = mailbox_post ns_ws_max_pending (ws_droppable e) e mb"

definition ns_ws_dispatch_run :: "bool \<Rightarrow> ws_event mailbox \<Rightarrow> ws_event option \<times> ws_event mailbox" where
  "ns_ws_dispatch_run busy mb = mailbox_run_idle busy mb"

definition ns_ws_dispatch_timer :: "bool \<Rightarrow> ws_event mailbox \<Rightarrow> ws_event option \<times> ws_event mailbox" where
  "ns_ws_dispatch_timer busy mb = mailbox_run_timer busy mb"

interpretation ws_mail: event_mailbox ns_ws_post ns_ws_dispatch_run ns_ws_dispatch_timer
    ws_droppable ns_ws_max_pending
  by unfold_locales (simp_all add: ns_ws_post_def ns_ws_dispatch_run_def ns_ws_dispatch_timer_def)

text \<open>What the worker does to what it shares with the page, one access at a time: setting the
  state, handing a frame to curl, and the four steps of a post (\<open>detached\<close> is read,
  \<open>pending\<close> is read for an event that may be dropped, \<open>pending\<close> is raised, the event is put in
  the queue of the main loop). \<open>ns_ws_post\<close> is what the four do when nothing comes between.\<close>

datatype sent_frame = SentText string | SentBinary string | SentClose string | SentPong string

datatype ws_act = ActState ws_state | ActSend sent_frame
  | ActPost ws_event | ActPostCount ws_event | ActPostAdd ws_event | ActPostQueue ws_event

definition ns_ws_dispatch_open :: "ws_act list" where
  "ns_ws_dispatch_open = [ActState WsOpenState, ActPost WsOpen]"

definition ns_ws_dispatch_message :: "bool \<Rightarrow> string \<Rightarrow> ws_act list" where
  "ns_ws_dispatch_message is_text d = [ActPost (WsMessage is_text d)]"

definition ns_ws_dispatch_close :: "int \<Rightarrow> string \<Rightarrow> bool \<Rightarrow> ws_act list" where
  "ns_ws_dispatch_close cd reason clean = [ActState WsClosed, ActPost (WsClose cd reason clean)]"

definition ns_ws_dispatch_error :: "string \<Rightarrow> ws_act list" where
  "ns_ws_dispatch_error msg = [ActPost (WsError msg)]"

section \<open>The calls of the page\<close>

text \<open>Again one access at a time; the rest of the call the main thread is in is a list of these.
  \<open>MaEnqueue\<close> reads the state and decides, \<open>MaPush\<close> appends under the lock, \<open>MaJoin\<close> waits for
  the worker to end.\<close>

datatype main_act = MaEnqueue ws_out | MaPush ws_out | MaState ws_state | MaDetach | MaExit | MaJoin

definition ns_ws_enqueue :: "ws_out \<Rightarrow> ws_state \<Rightarrow> main_act list" where
  "ns_ws_enqueue m st =
     (let is_close = (case m of OutClose c r \<Rightarrow> True | _ \<Rightarrow> False);
          len = (case m of OutText d \<Rightarrow> length d | OutBinary d \<Rightarrow> length d | OutClose c r \<Rightarrow> 0)
      in if st = WsClosed then []
         else if \<not> is_close \<and> st = WsClosing then []
         else if \<not> is_close \<and> len > ns_ws_max_message then []
         else [MaPush m])"

definition ns_ws_send_text :: "string \<Rightarrow> main_act list" where
  "ns_ws_send_text d = [MaEnqueue (OutText d)]"

definition ns_ws_send_binary :: "string \<Rightarrow> main_act list" where
  "ns_ws_send_binary d = [MaEnqueue (OutBinary d)]"

text \<open>The call reads the state first.\<close>

definition ns_ws_close :: "int \<Rightarrow> cptr \<Rightarrow> ws_state \<Rightarrow> main_act list" where
  "ns_ws_close cd reason st =
     (if st = WsClosing \<or> st = WsClosed then []
      else
        let c = (if cd \<le> 0 then 1000 else cd);
            r = (case reason of None \<Rightarrow> None | Some s \<Rightarrow> if s = [] then None else Some s)
        in [MaEnqueue (OutClose c r), MaState WsClosing])"

definition ns_ws_free :: "main_act list" where
  "ns_ws_free = [MaDetach, MaExit, MaJoin]"

section \<open>Sending\<close>

text \<open>What one \<open>curl_ws_send\<close> returns; \<open>SendOk n\<close> took \<open>n\<close> bytes.\<close>

datatype send_result = SendOk nat | SendAgain | SendFail

text \<open>The loop of \<open>ns_ws_send_curl\<close>: \<open>env i\<close> is the result of the \<open>i\<close>-th call and
  \<open>stop i\<close> whether the end was requested before it. The result is the answer
  with the number of calls made.\<close>

function ns_ws_send_curl ::
    "(nat \<Rightarrow> send_result) \<Rightarrow> (nat \<Rightarrow> bool) \<Rightarrow> nat \<Rightarrow> nat \<Rightarrow> nat \<Rightarrow> nat \<Rightarrow> bool \<times> nat" where
  "ns_ws_send_curl env stop len i off stalls =
     (if stop i then (False, i)
      else
        case env i of
          SendAgain \<Rightarrow> if stalls + 1 > 5000 then (False, Suc i)
                      else ns_ws_send_curl env stop len (Suc i) off (stalls + 1)
        | SendFail \<Rightarrow> (False, Suc i)
        | SendOk n \<Rightarrow>
            if off + n \<ge> len then (True, Suc i)
            else if n = 0 then
              (if stalls + 1 > 5000 then (False, Suc i)
               else ns_ws_send_curl env stop len (Suc i) off (stalls + 1))
            else ns_ws_send_curl env stop len (Suc i) (off + n) 0)"
  by pat_completeness auto
termination
  by (relation "measures [\<lambda>(env, stop, len, i, off, stalls). len - off,
      \<lambda>(env, stop, len, i, off, stalls). 5001 - stalls]") auto

declare ns_ws_send_curl.simps [simp del]

definition ns_ws_echo_close_code :: "int \<Rightarrow> int" where
  "ns_ws_echo_close_code cd =
     (if cd = 1000 \<or> cd = 1001 \<or> cd = 1002 \<or> cd = 1003
         \<or> (cd \<ge> 1007 \<and> cd \<le> 1014) \<or> (cd \<ge> 3000 \<and> cd \<le> 4999) then cd else 0)"

text \<open>The payload of the close frame.\<close>

definition close_payload :: "int \<Rightarrow> cptr \<Rightarrow> string" where
  "close_payload cd reason =
     (if cd > 0 then
        [char_of (nat (cd div 256 mod 256)), char_of (nat (cd mod 256))]
        @ (case reason of None \<Rightarrow> [] | Some r \<Rightarrow> take 123 r)
      else [])"

definition ns_ws_send_close_frame :: "int \<Rightarrow> cptr \<Rightarrow> ws_act list" where
  "ns_ws_send_close_frame cd reason = [ActSend (SentClose (close_payload cd reason))]"

section \<open>Receiving\<close>

record ws_frame =
  fr_data :: string
  fr_text :: bool
  fr_binary :: bool
  fr_cont :: bool
  fr_close :: bool
  fr_ping :: bool
  fr_offset :: nat
  fr_bytesleft :: nat

datatype frame_outcome = FrGoOn | FrPeerClosed int cptr | FrBadUtf8 | FrTooBig

text \<open>\<open>ns_ws_handle_frame\<close>: the outcome, what it does to shared state and the socket, and the
  assembly buffer, which only the worker uses.\<close>

definition ns_ws_handle_frame ::
    "(string \<Rightarrow> bool) \<Rightarrow> ws_frame \<Rightarrow> ns_ws \<Rightarrow> frame_outcome \<times> ws_act list \<times> ns_ws" where
  "ns_ws_handle_frame utf8 f ws =
     (if fr_close f then
        (let d = fr_data f in
         if length d \<ge> 2 \<and> length d \<le> 125 then
           (FrPeerClosed (int (code (d ! 0)) * 256 + int (code (d ! 1)))
              (if length d > 2 then Some (until_nul (drop 2 d)) else None), [], ws)
         else if length d = 1 then (FrPeerClosed 1002 None, [], ws)
         else (FrPeerClosed 1005 None, [], ws))
      else if fr_ping f then (FrGoOn, [ActSend (SentPong (take 125 (fr_data f)))], ws)
      else if \<not> (fr_text f \<or> fr_binary f \<or> fr_cont f) then (FrGoOn, [], ws)
      else
        let start = (fr_offset f = 0 \<and> \<not> ws_recv_in_message ws \<and> (fr_text f \<or> fr_binary f));
            ws1 = (if start then ws \<lparr> ws_recv_assembly := [], ws_recv_binary := fr_binary f,
                                     ws_recv_in_message := True \<rparr> else ws)
        in if \<not> start \<and> \<not> ws_recv_in_message ws then (FrGoOn, [], ws)
           else if fr_data f \<noteq> []
                   \<and> length (ws_recv_assembly ws1) + length (fr_data f) > ns_ws_max_message
           then (FrTooBig, [], ws1 \<lparr> ws_recv_assembly := [], ws_recv_in_message := False \<rparr>)
           else
             let d = ws_recv_assembly ws1 @ fr_data f;
                 ws2 = ws1 \<lparr> ws_recv_assembly := d \<rparr>
             in if fr_bytesleft f = 0 \<and> \<not> fr_cont f then
                  (let is_text = (\<not> ws_recv_binary ws2);
                       ws3 = ws2 \<lparr> ws_recv_assembly := [], ws_recv_in_message := False \<rparr>
                   in if is_text \<and> d \<noteq> [] \<and> \<not> utf8 d then (FrBadUtf8, [], ws3)
                      else (FrGoOn, ns_ws_dispatch_message is_text d, ws3))
                else (FrGoOn, [], ws2))"

section \<open>The worker\<close>

text \<open>Where the worker is: in the handshake; after it, with the status; at the head of its loop;
  taking messages from the queue; sending one; receiving; or past the loop.\<close>

datatype ws_phase = PhPerform | PhAfter int | PhLoop | PhDrain | PhSend ws_out | PhRecv | PhDone

text \<open>The handshake: no curl handle, a curl error with its text, or the status of the reply.\<close>

datatype handshake = HsNoCurl | HsError string | HsStatus int

definition ws_handshake :: "handshake \<Rightarrow> ws_phase \<times> ws_act list" where
  "ws_handshake hs =
     (case hs of
        HsNoCurl \<Rightarrow> (PhDone, ns_ws_dispatch_error ''curl init failed'' @ ns_ws_dispatch_close 1006 ''init failed'' False)
      | HsError msg \<Rightarrow> (PhDone, ns_ws_dispatch_error msg @ ns_ws_dispatch_close 1006 msg False)
      | HsStatus cd \<Rightarrow> (PhAfter cd, []))"

definition ws_after_handshake :: "int \<Rightarrow> bool \<Rightarrow> ws_phase \<times> ws_act list" where
  "ws_after_handshake cd exit_requested =
     (if exit_requested then (PhDone, ns_ws_dispatch_close 1006 ''aborted'' False)
      else if cd \<noteq> 0 \<and> cd \<noteq> 101 then
        (let msg = ''WebSocket handshake failed (HTTP '' @ int_digits cd @ '')''
         in (PhDone, ns_ws_dispatch_error msg @ ns_ws_dispatch_close 1006 msg False))
      else (PhLoop, ns_ws_dispatch_open))"

definition ws_loop_head :: "bool \<Rightarrow> ws_phase \<times> ws_act list" where
  "ws_loop_head exit_requested =
     (if exit_requested then (PhDone, ns_ws_dispatch_close 1006 [] False) else (PhDrain, []))"

text \<open>The end of the loop by a close frame.\<close>

definition ws_closing :: "int \<Rightarrow> cptr \<Rightarrow> int \<Rightarrow> string \<Rightarrow> bool \<Rightarrow> ws_phase \<times> ws_act list" where
  "ws_closing sent_code sent_reason cd reason clean =
     (PhDone, ActState WsClosing # ns_ws_send_close_frame sent_code sent_reason
        @ ns_ws_dispatch_close cd reason clean)"

text \<open>One round of \<open>ns_ws_drain_outgoing\<close>: the head of the queue is taken.\<close>

definition ns_ws_drain_outgoing :: "ws_out list \<Rightarrow> (ws_phase \<times> ws_act list) \<times> ws_out list" where
  "ns_ws_drain_outgoing q =
     (case q of
        [] \<Rightarrow> ((PhRecv, []), [])
      | OutClose cd reason # r \<Rightarrow>
          (ws_closing cd reason cd (case reason of None \<Rightarrow> [] | Some s \<Rightarrow> s) True, r)
      | m # r \<Rightarrow> ((PhSend m, []), r))"

definition out_frame :: "ws_out \<Rightarrow> sent_frame \<times> nat" where
  "out_frame m = (case m of OutText d \<Rightarrow> (SentText d, length d) | OutBinary d \<Rightarrow> (SentBinary d, length d)
     | OutClose c r \<Rightarrow> (SentClose [], 0))"

text \<open>Sending the message that was taken; whether all of it went out is not looked at. It counts
  as handed to curl when there was a call.\<close>

definition ws_send_message :: "(nat \<Rightarrow> send_result) \<Rightarrow> nat option \<Rightarrow> ws_out \<Rightarrow> ws_phase \<times> ws_act list" where
  "ws_send_message env stop m =
     (PhDrain, if 0 < snd (ns_ws_send_curl env (\<lambda>i. case stop of None \<Rightarrow> False | Some k \<Rightarrow> k \<le> i) (snd (out_frame m)) 0 0 0)
        then [ActSend (fst (out_frame m))] else [])"

text \<open>What \<open>curl_ws_recv\<close> gives in one turn of the loop, and what follows.\<close>

datatype recv_result = RecvAgain | RecvError string | RecvNothing | RecvFrame ws_frame

definition ws_received :: "(string \<Rightarrow> bool) \<Rightarrow> recv_result \<Rightarrow> ns_ws \<Rightarrow> (ws_phase \<times> ws_act list) \<times> ns_ws" where
  "ws_received utf8 rr ws =
     (case rr of
        RecvAgain \<Rightarrow> ((PhLoop, []), ws)
      | RecvNothing \<Rightarrow> ((PhLoop, []), ws)
      | RecvError msg \<Rightarrow> ((PhDone, ns_ws_dispatch_error msg @ ns_ws_dispatch_close 1006 msg False), ws)
      | RecvFrame f \<Rightarrow>
          (let (out, acts, ws') = ns_ws_handle_frame utf8 f ws;
               (ph, more) =
                 (case out of
                    FrGoOn \<Rightarrow> (PhLoop, [])
                  | FrTooBig \<Rightarrow> ws_closing 1009 (Some ''message too big'') 1009 ''message too big'' False
                  | FrBadUtf8 \<Rightarrow> ws_closing 1007 (Some ''invalid utf-8'') 1007 ''invalid utf-8'' False
                  | FrPeerClosed cd reason \<Rightarrow>
                      ws_closing (ns_ws_echo_close_code cd) None cd (case reason of None \<Rightarrow> [] | Some r \<Rightarrow> r) True)
           in ((ph, acts @ more), ws')))"

section \<open>The page and the worker\<close>

text \<open>A connection in progress: the shared state, the rest of the call the main thread is in,
  whether it has called \<open>ns_ws_free\<close>, the callbacks that have taken their event and not yet lowered
  \<open>pending\<close>; where the worker is and what it does next. The other fields are history: the
  frames handed to curl; the events of the connection in their order, each when it is decided
  whether it is queued; those that were queued; those given to the page; and whether the worker
  ever set the state to closed while the page was between the check and the end of \<open>ns_ws_close\<close>.\<close>

record ws_run =
  rn_ws :: ns_ws
  rn_main :: "main_act list"
  rn_freed :: bool
  rn_owed :: nat
  rn_phase :: ws_phase
  rn_todo :: "ws_act list"
  rn_sent :: "sent_frame list"
  rn_events :: "ws_event list"
  rn_queued :: "ws_event list"
  rn_told :: "ws_event list"
  rn_overlap :: bool

definition run_init :: ws_run where
  "run_init = \<lparr>rn_ws = ns_ws_new, rn_main = [], rn_freed = False, rn_owed = 0, rn_phase = PhPerform,
     rn_todo = [], rn_sent = [], rn_events = [], rn_queued = [], rn_told = [], rn_overlap = False\<rparr>"

definition ws_ended :: "ws_run \<Rightarrow> bool" where
  "ws_ended r = (rn_phase r = PhDone \<and> rn_todo r = [])"

definition box :: "ws_run \<Rightarrow> ws_event mailbox" where
  "box r = ws_mailbox (rn_ws r)"

text \<open>One access of the worker.\<close>

fun worker_act :: "ws_act \<Rightarrow> ws_run \<Rightarrow> ws_run" where
  "worker_act (ActState s) r =
     r\<lparr>rn_ws := (rn_ws r)\<lparr>ws_state := s\<rparr>,
       rn_overlap := (rn_overlap r \<or> (s = WsClosed \<and> MaState WsClosing \<in> set (rn_main r)))\<rparr>"
| "worker_act (ActSend f) r = r\<lparr>rn_sent := rn_sent r @ [f]\<rparr>"
| "worker_act (ActPost e) r =
     (if mb_detached (box r) then r\<lparr>rn_events := rn_events r @ [e]\<rparr>
      else r\<lparr>rn_todo := ActPostCount e # rn_todo r\<rparr>)"
| "worker_act (ActPostCount e) r =
     (if ws_droppable e \<and> mb_pending (box r) \<ge> ns_ws_max_pending then r\<lparr>rn_events := rn_events r @ [e]\<rparr>
      else r\<lparr>rn_todo := ActPostAdd e # rn_todo r\<rparr>)"
| "worker_act (ActPostAdd e) r =
     r\<lparr>rn_ws := (rn_ws r)\<lparr>ws_mailbox := (box r)\<lparr>mb_pending := mb_pending (box r) + 1\<rparr>\<rparr>,
       rn_todo := ActPostQueue e # rn_todo r\<rparr>"
| "worker_act (ActPostQueue e) r =
     r\<lparr>rn_ws := (rn_ws r)\<lparr>ws_mailbox := (box r)\<lparr>mb_idle := mb_idle (box r) @ [e]\<rparr>\<rparr>,
       rn_events := rn_events r @ [e], rn_queued := rn_queued r @ [e]\<rparr>"

text \<open>One access of the main thread in a call; joining waits for the worker.\<close>

fun page_act :: "main_act \<Rightarrow> ws_run \<Rightarrow> ws_run option" where
  "page_act (MaEnqueue m) r = Some (r\<lparr>rn_main := ns_ws_enqueue m (ws_state (rn_ws r)) @ rn_main r\<rparr>)"
| "page_act (MaPush m) r = Some (r\<lparr>rn_ws := (rn_ws r)\<lparr>ws_out_queue := ws_out_queue (rn_ws r) @ [m]\<rparr>\<rparr>)"
| "page_act (MaState s) r = Some (r\<lparr>rn_ws := (rn_ws r)\<lparr>ws_state := s\<rparr>\<rparr>)"
| "page_act MaDetach r = Some (r\<lparr>rn_ws := (rn_ws r)\<lparr>ws_mailbox := mailbox_detach (box r)\<rparr>\<rparr>)"
| "page_act MaExit r = Some (r\<lparr>rn_ws := (rn_ws r)\<lparr>ws_exit_requested := True\<rparr>\<rparr>)"
| "page_act MaJoin r = (if ws_ended r then Some r else None)"

text \<open>A callback of the main loop takes its event from the idle queue or a timer; when the page is
  busy it becomes a timer again, otherwise the page is told, and \<open>pending\<close> is lowered when the
  page's handler, which may call the connection again, has returned.\<close>

definition take_event :: "bool \<Rightarrow> ws_event \<Rightarrow> ws_event mailbox \<Rightarrow> ws_run \<Rightarrow> ws_run" where
  "take_event busy e mb r =
     (if \<not> mb_detached mb \<and> busy
      then r\<lparr>rn_ws := (rn_ws r)\<lparr>ws_mailbox := mb\<lparr>mb_timers := mb_timers mb @ [e]\<rparr>\<rparr>\<rparr>
      else r\<lparr>rn_ws := (rn_ws r)\<lparr>ws_mailbox := mb\<rparr>, rn_owed := rn_owed r + 1,
             rn_told := rn_told r @ (if mb_detached mb then [] else [e])\<rparr>)"

datatype ws_choice = ChText string | ChBinary string | ChClose int cptr | ChFree | ChMain
  | ChIdle bool | ChTimer bool | ChReturn
  | ChHandshake handshake | ChWork | ChSend "nat \<Rightarrow> send_result" "nat option" | ChRecv recv_result

definition page_calls :: "ws_run \<Rightarrow> main_act list \<Rightarrow> ws_run option" where
  "page_calls r acts = (if rn_main r = [] \<and> \<not> rn_freed r then Some (r\<lparr>rn_main := acts\<rparr>) else None)"

definition worker_goes :: "ws_phase \<times> ws_act list \<Rightarrow> ws_run \<Rightarrow> ws_run" where
  "worker_goes pa r = r\<lparr>rn_phase := fst pa, rn_todo := snd pa\<rparr>"

text \<open>The steps. The main thread and the worker are one thread each; a worker that has something
  to do does that first. Sending may be cut short only if the end was requested.\<close>

fun ws_do :: "(string \<Rightarrow> bool) \<Rightarrow> ws_choice \<Rightarrow> ws_run \<Rightarrow> ws_run option" where
  "ws_do utf8 (ChText d) r = page_calls r (ns_ws_send_text d)"
| "ws_do utf8 (ChBinary d) r = page_calls r (ns_ws_send_binary d)"
| "ws_do utf8 (ChClose cd reason) r = page_calls r (ns_ws_close cd reason (ws_state (rn_ws r)))"
| "ws_do utf8 ChFree r = map_option (\<lambda>r. r\<lparr>rn_freed := True\<rparr>) (page_calls r ns_ws_free)"
| "ws_do utf8 ChMain r =
     (case rn_main r of [] \<Rightarrow> None | a # rest \<Rightarrow> page_act a (r\<lparr>rn_main := rest\<rparr>))"
| "ws_do utf8 (ChIdle busy) r =
     (if rn_main r \<noteq> [] then None
      else case mb_idle (box r) of [] \<Rightarrow> None
        | e # es \<Rightarrow> Some (take_event busy e ((box r)\<lparr>mb_idle := es\<rparr>) r))"
| "ws_do utf8 (ChTimer busy) r =
     (if rn_main r \<noteq> [] then None
      else case mb_timers (box r) of [] \<Rightarrow> None
        | e # es \<Rightarrow> Some (take_event busy e ((box r)\<lparr>mb_timers := es\<rparr>) r))"
| "ws_do utf8 ChReturn r =
     (if rn_main r \<noteq> [] \<or> rn_owed r = 0 then None
      else Some (r\<lparr>rn_owed := rn_owed r - 1,
                   rn_ws := (rn_ws r)\<lparr>ws_mailbox := (box r)\<lparr>mb_pending := mb_pending (box r) - 1\<rparr>\<rparr>\<rparr>))"
| "ws_do utf8 (ChHandshake hs) r =
     (if rn_phase r = PhPerform \<and> rn_todo r = [] then Some (worker_goes (ws_handshake hs) r) else None)"
| "ws_do utf8 ChWork r =
     (case rn_todo r of
        a # rest \<Rightarrow> Some (worker_act a (r\<lparr>rn_todo := rest\<rparr>))
      | [] \<Rightarrow>
          (case rn_phase r of
             PhAfter cd \<Rightarrow> Some (worker_goes (ws_after_handshake cd (ws_exit_requested (rn_ws r))) r)
           | PhLoop \<Rightarrow> Some (worker_goes (ws_loop_head (ws_exit_requested (rn_ws r))) r)
           | PhDrain \<Rightarrow>
               (let (pa, q) = ns_ws_drain_outgoing (ws_out_queue (rn_ws r))
                in Some (worker_goes pa (r\<lparr>rn_ws := (rn_ws r)\<lparr>ws_out_queue := q\<rparr>\<rparr>)))
           | _ \<Rightarrow> None))"
| "ws_do utf8 (ChSend env stop) r =
     (case rn_phase r of
        PhSend m \<Rightarrow>
          if rn_todo r = [] \<and> (stop \<noteq> None \<longrightarrow> ws_exit_requested (rn_ws r))
          then Some (worker_goes (ws_send_message env stop m) r) else None
      | _ \<Rightarrow> None)"
| "ws_do utf8 (ChRecv rr) r =
     (if rn_phase r = PhRecv \<and> rn_todo r = []
      then (let (pa, ws) = ws_received utf8 rr (rn_ws r) in Some (worker_goes pa (r\<lparr>rn_ws := ws\<rparr>)))
      else None)"

inductive ws_reachable :: "(string \<Rightarrow> bool) \<Rightarrow> ws_run \<Rightarrow> bool" for utf8 where
  ws_start: "ws_reachable utf8 run_init"
| ws_next: "ws_reachable utf8 r \<Longrightarrow> ws_do utf8 c r = Some r' \<Longrightarrow> ws_reachable utf8 r'"

fun ws_plays :: "(string \<Rightarrow> bool) \<Rightarrow> ws_choice list \<Rightarrow> ws_run \<Rightarrow> ws_run option" where
  "ws_plays utf8 [] r = Some r"
| "ws_plays utf8 (c # cs) r = (case ws_do utf8 c r of None \<Rightarrow> None | Some r' \<Rightarrow> ws_plays utf8 cs r')"

lemma ws_plays_reachable:
  "ws_reachable utf8 r \<Longrightarrow> ws_plays utf8 cs r = Some r' \<Longrightarrow> ws_reachable utf8 r'"
  by (induction cs arbitrary: r) (auto split: option.splits intro: ws_next)

text \<open>A post that nothing interrupts is \<open>ns_ws_post\<close>, and a callback whose handler leaves the
  connection alone is \<open>ns_ws_dispatch_run\<close>.\<close>

lemma post_uninterrupted:
  assumes "rn_todo r = ActPost e # rest"
  shows "\<exists>k \<le> 4. \<exists>r'. ws_plays utf8 (replicate k ChWork) r = Some r' \<and> rn_todo r' = rest
    \<and> box r' = ns_ws_post e (box r) \<and> rn_events r' = rn_events r @ [e]"
proof -
  consider "mb_detached (box r)" | "\<not> mb_detached (box r)" "ws_droppable e" "mb_pending (box r) \<ge> ns_ws_max_pending"
    | "\<not> mb_detached (box r)" "\<not> (ws_droppable e \<and> mb_pending (box r) \<ge> ns_ws_max_pending)" by blast
  then show ?thesis
  proof cases
    case 1
    then show ?thesis using assms
      by (intro exI [of _ 1]) (simp add: box_def ns_ws_post_def mailbox_post_def)
  next
    case 2
    then show ?thesis using assms
      by (intro exI [of _ 2]) (simp add: eval_nat_numeral box_def ns_ws_post_def mailbox_post_def)
  next
    case 3
    then show ?thesis using assms
      by (intro exI [of _ 4]) (auto simp: eval_nat_numeral box_def ns_ws_post_def mailbox_post_def)
  qed
qed

lemma callback_uninterrupted:
  assumes "rn_main r = []" "mb_idle (box r) = e # es"
  shows "\<exists>k \<le> 1. \<exists>r'. ws_plays utf8 (ChIdle busy # replicate k ChReturn) r = Some r'
    \<and> box r' = snd (ns_ws_dispatch_run busy (box r)) \<and> rn_owed r' = rn_owed r
    \<and> rn_told r' = rn_told r @ (case fst (ns_ws_dispatch_run busy (box r)) of None \<Rightarrow> [] | Some e \<Rightarrow> [e])"
proof (cases "\<not> mb_detached (box r) \<and> busy")
  case True
  then show ?thesis using assms
    by (intro exI [of _ 0])
      (simp add: take_event_def ns_ws_dispatch_run_def mailbox_run_idle_def mailbox_invoke_def box_def)
next
  case False
  then show ?thesis using assms
    by (intro exI [of _ 1])
      (auto simp: take_event_def ns_ws_dispatch_run_def mailbox_run_idle_def mailbox_invoke_def box_def)
qed

section \<open>A message is delivered whole\<close>

text \<open>The worker over several received frames, up to one that ends the loop, between which the
  page may do to the mailbox whatever it likes. The acts of a frame are done at once.\<close>

fun act_alone :: "ws_act \<Rightarrow> ns_ws \<Rightarrow> ns_ws" where
  "act_alone (ActState s) ws = ws\<lparr>ws_state := s\<rparr>"
| "act_alone (ActPost e) ws = ws\<lparr>ws_mailbox := ns_ws_post e (ws_mailbox ws)\<rparr>"
| "act_alone _ ws = ws"

type_synonym page_frame = "(ws_event mailbox \<Rightarrow> ws_event mailbox) \<times> ws_frame"

fun ws_receive :: "(string \<Rightarrow> bool) \<Rightarrow> page_frame list \<Rightarrow> ns_ws \<Rightarrow> frame_outcome \<times> ns_ws" where
  "ws_receive utf8 [] ws = (FrGoOn, ws)"
| "ws_receive utf8 ((page, f) # fs) ws =
     (let (out, acts, ws1) = ns_ws_handle_frame utf8 f (ws\<lparr>ws_mailbox := page (ws_mailbox ws)\<rparr>);
          ws2 = fold act_alone acts ws1
      in if out = FrGoOn then ws_receive utf8 fs ws2 else (out, ws2))"

text \<open>The frames of one message, cut as the peer and curl like, with pings in
  between.\<close>

definition data_frame :: "ws_frame \<Rightarrow> bool" where
  "data_frame f = (\<not> fr_close f \<and> \<not> fr_ping f \<and> (fr_text f \<or> fr_binary f \<or> fr_cont f))"

definition ping_frame :: "ws_frame \<Rightarrow> bool" where
  "ping_frame f = (\<not> fr_close f \<and> fr_ping f)"

definition final_piece :: "ws_frame \<Rightarrow> bool" where
  "final_piece f = (fr_bytesleft f = 0 \<and> \<not> fr_cont f)"

fun message_rest :: "ws_frame list \<Rightarrow> bool" where
  "message_rest [] = False"
| "message_rest (f # fs) =
     (if ping_frame f then message_rest fs
      else data_frame f \<and> (if final_piece f then fs = [] else message_rest fs))"

definition message_frames :: "ws_frame list \<Rightarrow> bool" where
  "message_frames fs =
     (case fs of [] \<Rightarrow> False
      | f # r \<Rightarrow> data_frame f \<and> (fr_text f \<or> fr_binary f) \<and> fr_offset f = 0
                \<and> (if final_piece f then r = [] else message_rest r))"

definition message_payload :: "ws_frame list \<Rightarrow> string" where
  "message_payload fs = concat (map fr_data (filter data_frame fs))"

definition message_outcome :: "(string \<Rightarrow> bool) \<Rightarrow> bool \<Rightarrow> string \<Rightarrow> frame_outcome" where
  "message_outcome utf8 binary d =
     (if length d > 8 * 1024 * 1024 then FrTooBig
      else if \<not> binary \<and> d \<noteq> [] \<and> \<not> utf8 d then FrBadUtf8 else FrGoOn)"

text \<open>What the page may find afterwards: \<open>m\<close> is the mailbox as the page alone would have it.\<close>

definition message_arrived :: "bool \<Rightarrow> string \<Rightarrow> ws_event mailbox \<Rightarrow> ws_event mailbox \<Rightarrow> bool" where
  "message_arrived binary d m m' \<longleftrightarrow>
     (if mb_detached m \<or> mb_pending m \<ge> 256 then m' = m
      else m' = m\<lparr>mb_pending := mb_pending m + 1, mb_idle := mb_idle m @ [WsMessage (\<not> binary) d]\<rparr>)"

lemma arrived_post: "t = (\<not> binary) \<Longrightarrow> message_arrived binary d m (ns_ws_post (WsMessage t d) m)"
  by (auto simp: message_arrived_def ns_ws_post_def mailbox_post_def ws_droppable_def ns_ws_max_pending_def)

text \<open>One piece of a message that has begun.\<close>

lemma handle_piece:
  assumes "data_frame f" "ws_recv_in_message ws" "length (ws_recv_assembly ws) \<le> ns_ws_max_message"
  defines "d \<equiv> ws_recv_assembly ws @ fr_data f"
  shows "length d > ns_ws_max_message \<Longrightarrow> \<exists>ws'. ns_ws_handle_frame utf8 f ws = (FrTooBig, [], ws')
      \<and> \<not> ws_recv_in_message ws' \<and> ws_mailbox ws' = ws_mailbox ws"
    "length d \<le> ns_ws_max_message \<Longrightarrow> \<not> final_piece f \<Longrightarrow>
      ns_ws_handle_frame utf8 f ws = (FrGoOn, [], ws \<lparr> ws_recv_assembly := d \<rparr>)"
    "length d \<le> ns_ws_max_message \<Longrightarrow> final_piece f \<Longrightarrow>
      \<exists>ws'. ns_ws_handle_frame utf8 f ws =
        (if \<not> ws_recv_binary ws \<and> d \<noteq> [] \<and> \<not> utf8 d then (FrBadUtf8, [], ws')
         else (FrGoOn, [ActPost (WsMessage (\<not> ws_recv_binary ws) d)], ws'))
      \<and> \<not> ws_recv_in_message ws' \<and> ws_mailbox ws' = ws_mailbox ws"
  using assms
  by (auto simp: ns_ws_handle_frame_def Let_def data_frame_def final_piece_def
      ns_ws_dispatch_message_def)

definition received_as :: "(string \<Rightarrow> bool) \<Rightarrow> bool \<Rightarrow> string \<Rightarrow> page_frame list \<Rightarrow> ns_ws \<Rightarrow> frame_outcome \<times> ns_ws \<Rightarrow> bool" where
  "received_as utf8 binary d fs ws r \<longleftrightarrow>
     fst r = message_outcome utf8 binary d \<and> \<not> ws_recv_in_message (snd r)
     \<and> (if message_outcome utf8 binary d = FrGoOn
        then message_arrived binary d (fold fst fs (ws_mailbox ws)) (ws_mailbox (snd r))
        else \<exists>k \<le> length fs. ws_mailbox (snd r) = fold fst (take k fs) (ws_mailbox ws))"

lemma received_as_Cons:
  assumes "received_as utf8 binary d fs ws' r" "ws_mailbox ws' = page (ws_mailbox ws)"
  shows "received_as utf8 binary d ((page, f) # fs) ws r"
proof -
  have "\<exists>k \<le> length ((page, f) # fs). ws_mailbox (snd r) = fold fst (take k ((page, f) # fs)) (ws_mailbox ws)"
    if "k \<le> length fs" "ws_mailbox (snd r) = fold fst (take k fs) (ws_mailbox ws')" for k
    using that assms(2) by (intro exI [of _ "Suc k"]) simp
  then show ?thesis using assms by (auto simp: received_as_def)
qed

lemma receive_rest:
  assumes "message_rest (map snd fs)" "ws_recv_in_message ws" "length (ws_recv_assembly ws) \<le> ns_ws_max_message"
  shows "received_as utf8 (ws_recv_binary ws) (ws_recv_assembly ws @ message_payload (map snd fs)) fs ws (ws_receive utf8 fs ws)"
  using assms
proof (induction fs arbitrary: ws)
  case (Cons x fs)
  obtain page f where x: "x = (page, f)" by (cases x)
  let ?w = "ws\<lparr>ws_mailbox := page (ws_mailbox ws)\<rparr>"
  have w: "ws_recv_in_message ?w" "length (ws_recv_assembly ?w) \<le> ns_ws_max_message"
    "ws_recv_binary ?w = ws_recv_binary ws" "ws_recv_assembly ?w = ws_recv_assembly ws"
    using Cons.prems by simp_all
  show ?case
  proof (cases "ping_frame f")
    case True
    then have "ns_ws_handle_frame utf8 f ?w = (FrGoOn, [ActSend (SentPong (take 125 (fr_data f)))], ?w)"
      "\<not> data_frame f"
      by (simp_all add: ping_frame_def ns_ws_handle_frame_def data_frame_def)
    then have same: "ws_receive utf8 (x # fs) ws = ws_receive utf8 fs ?w"
      "message_payload (map snd (x # fs)) = message_payload (map snd fs)"
      by (simp_all add: x message_payload_def)
    have "message_rest (map snd fs)" using Cons.prems(1) True by (simp add: x)
    note r = Cons.IH [OF this w(1,2), unfolded w(3,4)]
    show ?thesis unfolding same using received_as_Cons [OF r, of page ws f] by (simp add: x)
  next
    case False
    then have f: "data_frame f" using Cons.prems(1) by (simp add: x)
    let ?d = "ws_recv_assembly ws @ fr_data f"
    have pay: "message_payload (map snd (x # fs)) = fr_data f @ message_payload (map snd fs)"
      using f by (simp add: message_payload_def x)
    note piece = handle_piece [OF f w(1,2), of utf8, unfolded w(3,4)]
    show ?thesis
    proof (cases "length ?d > ns_ws_max_message")
      case big: True
      with piece(1) obtain v where "ns_ws_handle_frame utf8 f ?w = (FrTooBig, [], v)"
          "\<not> ws_recv_in_message v" "ws_mailbox v = ws_mailbox ?w" by blast
      moreover have "message_outcome utf8 (ws_recv_binary ws) (ws_recv_assembly ws @ message_payload (map snd (x # fs))) = FrTooBig"
        unfolding pay using big by (simp add: message_outcome_def ns_ws_max_message_def)
      ultimately show ?thesis by (auto simp: received_as_def x intro!: exI [of _ 1])
    next
      case small: False
      show ?thesis
      proof (cases "final_piece f")
        case True
        then have "fs = []" using Cons.prems(1) False by (simp add: x)
        moreover from piece(3) True small obtain v where
          "ns_ws_handle_frame utf8 f ?w =
            (if \<not> ws_recv_binary ws \<and> ?d \<noteq> [] \<and> \<not> utf8 ?d then (FrBadUtf8, [], v)
             else (FrGoOn, [ActPost (WsMessage (\<not> ws_recv_binary ws) ?d)], v))"
          "\<not> ws_recv_in_message v" "ws_mailbox v = page (ws_mailbox ws)" by auto
        ultimately show ?thesis
          using small f by (auto simp: received_as_def x message_payload_def message_outcome_def ns_ws_max_message_def
              arrived_post intro!: exI [of _ 1])
      next
        case nf: False
        let ?v = "?w\<lparr>ws_recv_assembly := ?d\<rparr>"
        have h: "ns_ws_handle_frame utf8 f ?w = (FrGoOn, [], ?v)"
          by (rule piece(2)) (use small nf in auto)
        have "message_rest (map snd fs)" using Cons.prems(1) False nf by (simp add: x)
        then have "received_as utf8 (ws_recv_binary ?v) (ws_recv_assembly ?v @ message_payload (map snd fs)) fs ?v
            (ws_receive utf8 fs ?v)"
          by (rule Cons.IH) (use w small in simp_all)
        then have "received_as utf8 (ws_recv_binary ws) (?d @ message_payload (map snd fs)) ((page, f) # fs) ws (ws_receive utf8 fs ?v)"
          by (intro received_as_Cons [where ws' = ?v]) simp_all
        then show ?thesis unfolding pay by (simp add: h x)
      qed
    qed
  qed
qed simp

section \<open>What the worker is about to do\<close>

definition is_message :: "ws_event \<Rightarrow> bool" where
  "is_message e = (case e of WsMessage t d \<Rightarrow> True | _ \<Rightarrow> False)"

fun act_event :: "ws_act \<Rightarrow> ws_event list" where
  "act_event (ActState s) = []"
| "act_event (ActSend f) = []"
| "act_event (ActPost e) = [e]"
| "act_event (ActPostCount e) = [e]"
| "act_event (ActPostAdd e) = [e]"
| "act_event (ActPostQueue e) = [e]"

definition todo_events :: "ws_act list \<Rightarrow> ws_event list" where
  "todo_events acts = concat (map act_event acts)"

definition todo_sent :: "ws_act list \<Rightarrow> sent_frame list" where
  "todo_sent acts = concat (map (\<lambda>a. case a of ActSend f \<Rightarrow> [f] | _ \<Rightarrow> []) acts)"

definition todo_states :: "ws_act list \<Rightarrow> ws_state list" where
  "todo_states acts = concat (map (\<lambda>a. case a of ActState s \<Rightarrow> [s] | _ \<Rightarrow> []) acts)"

lemma todo_simps [simp]:
  "todo_events [] = []" "todo_events (a # acts) = act_event a @ todo_events acts"
  "todo_events (acts @ acts2) = todo_events acts @ todo_events acts2"
  "todo_sent [] = []" "todo_sent (a # acts) = (case a of ActSend f \<Rightarrow> [f] | _ \<Rightarrow> []) @ todo_sent acts"
  "todo_sent (acts @ acts2) = todo_sent acts @ todo_sent acts2"
  "todo_states [] = []" "todo_states (a # acts) = (case a of ActState s \<Rightarrow> [s] | _ \<Rightarrow> []) @ todo_states acts"
  "todo_states (acts @ acts2) = todo_states acts @ todo_states acts2"
  by (simp_all add: todo_events_def todo_sent_def todo_states_def)

text \<open>The events of a connection: an open first if there is one, then messages, at most one
  error, and one close.\<close>

definition opened_run :: "ws_event list \<Rightarrow> bool" where
  "opened_run evs \<longleftrightarrow> (\<exists>ms. evs = WsOpen # ms \<and> list_all is_message ms)"

definition complete_run :: "ws_event list \<Rightarrow> bool" where
  "complete_run evs \<longleftrightarrow> (\<exists>pre err cd r b. evs = pre @ err @ [WsClose cd r b]
     \<and> (err = [] \<or> (\<exists>e. err = [WsError e])) \<and> (pre = [] \<or> opened_run pre))"

definition events_phase :: "ws_phase \<Rightarrow> ws_event list \<Rightarrow> bool" where
  "events_phase ph evs =
     (case ph of PhPerform \<Rightarrow> evs = [] | PhAfter cd \<Rightarrow> evs = [] | PhDone \<Rightarrow> complete_run evs | _ \<Rightarrow> opened_run evs)"

definition out_ok :: "ws_out \<Rightarrow> bool" where
  "out_ok m = (case m of OutText d \<Rightarrow> length d \<le> ns_ws_max_message
     | OutBinary d \<Rightarrow> length d \<le> ns_ws_max_message | OutClose c r \<Rightarrow> c > 0)"

definition frame_ok :: "sent_frame \<Rightarrow> bool" where
  "frame_ok f = (case f of SentText d \<Rightarrow> length d \<le> ns_ws_max_message
     | SentBinary d \<Rightarrow> length d \<le> ns_ws_max_message
     | SentClose p \<Rightarrow> length p \<le> 125 \<and> length p \<noteq> 1 | SentPong p \<Rightarrow> length p \<le> 125)"

definition is_close_frame :: "sent_frame \<Rightarrow> bool" where
  "is_close_frame f = (case f of SentClose p \<Rightarrow> True | _ \<Rightarrow> False)"

text \<open>No frame follows a close frame, and one is sent only at the end.\<close>

definition sent_ok :: "ws_phase \<Rightarrow> sent_frame list \<Rightarrow> bool" where
  "sent_ok ph fs = (list_all frame_ok fs
     \<and> (if ph = PhDone then list_all (\<lambda>f. \<not> is_close_frame f) (butlast fs)
        else list_all (\<lambda>f. \<not> is_close_frame f) fs))"

definition states_ok :: "ws_phase \<Rightarrow> ws_state list \<Rightarrow> bool" where
  "states_ok ph sts = (if ph = PhDone then sts \<in> {[WsClosed], [WsClosing, WsClosed]} else WsClosed \<notin> set sts)"

fun plain_act :: "ws_act \<Rightarrow> bool" where
  "plain_act (ActPostCount e) = False"
| "plain_act (ActPostAdd e) = False"
| "plain_act (ActPostQueue e) = False"
| "plain_act _ = True"

text \<open>A transition of the worker: where it goes and what it does before it goes on.\<close>

definition goes_ok :: "ws_phase \<Rightarrow> ws_phase \<times> ws_act list \<Rightarrow> bool" where
  "goes_ok ph0 pa \<longleftrightarrow> ph0 \<noteq> PhDone
     \<and> (\<forall>evs. events_phase ph0 evs \<longrightarrow> events_phase (fst pa) (evs @ todo_events (snd pa)))
     \<and> (\<forall>fs. sent_ok ph0 fs \<longrightarrow> sent_ok (fst pa) (fs @ todo_sent (snd pa)))
     \<and> states_ok (fst pa) (todo_states (snd pa)) \<and> list_all plain_act (snd pa)"

lemma complete_runI:
  "complete_run [WsClose cd r b]" "complete_run [WsError e, WsClose cd r b]"
  "opened_run evs \<Longrightarrow> complete_run (evs @ [WsClose cd r b])"
  "opened_run evs \<Longrightarrow> complete_run (evs @ [WsError e, WsClose cd r b])"
proof -
  show "complete_run [WsClose cd r b]" unfolding complete_run_def
    by (intro exI [of _ "[]"] exI [of _ cd] exI [of _ r] exI [of _ b]) simp
  show "complete_run [WsError e, WsClose cd r b]" unfolding complete_run_def
    by (intro exI [of _ "[]"] exI [of _ "[WsError e]"] exI [of _ cd] exI [of _ r] exI [of _ b]) simp
  show "complete_run (evs @ [WsClose cd r b])" if "opened_run evs" unfolding complete_run_def
    using that by (intro exI [of _ evs] exI [of _ "[]"] exI [of _ cd] exI [of _ r] exI [of _ b]) simp
  show "complete_run (evs @ [WsError e, WsClose cd r b])" if "opened_run evs" unfolding complete_run_def
    using that by (intro exI [of _ evs] exI [of _ "[WsError e]"] exI [of _ cd] exI [of _ r] exI [of _ b]) simp
qed

lemma opened_runI: "opened_run [WsOpen]" "opened_run evs \<Longrightarrow> list_all is_message ms \<Longrightarrow> opened_run (evs @ ms)"
  by (auto simp: opened_run_def)

lemma close_payload_length: "length (close_payload cd r) \<le> 125 \<and> length (close_payload cd r) \<noteq> 1"
  by (auto simp: close_payload_def split: option.split)

lemma no_close_butlast: "list_all (\<lambda>f. \<not> is_close_frame f) fs \<Longrightarrow> list_all (\<lambda>f. \<not> is_close_frame f) (butlast fs)"
  by (auto simp: list_all_iff dest: in_set_butlastD)

lemmas dispatch_defs = ns_ws_dispatch_open_def ns_ws_dispatch_message_def ns_ws_dispatch_close_def
  ns_ws_dispatch_error_def ns_ws_send_close_frame_def

text \<open>The ways to end.\<close>

lemma goes_end:
  assumes "ph0 \<noteq> PhDone" "acts \<in> {ns_ws_dispatch_close cd r b, ns_ws_dispatch_error e @ ns_ws_dispatch_close cd r b}"
  shows "goes_ok ph0 (PhDone, acts)"
  using assms complete_runI no_close_butlast
  by (auto simp: goes_ok_def events_phase_def dispatch_defs sent_ok_def states_ok_def split: ws_phase.splits)

lemma goes_closing:
  assumes "ph0 \<in> {PhDrain, PhRecv}"
    and "list_all (\<lambda>a. \<exists>f. a = ActSend f \<and> frame_ok f \<and> \<not> is_close_frame f) acts"
  shows "goes_ok ph0 (fst (ws_closing sc sr cd r b), acts @ snd (ws_closing sc sr cd r b))"
proof -
  have a: "todo_events acts = []" "todo_states acts = []" "list_all frame_ok (todo_sent acts)"
    "list_all (\<lambda>f. \<not> is_close_frame f) (todo_sent acts)" "list_all plain_act acts"
    using assms(2) by (induction acts) auto
  then show ?thesis
    using assms(1) complete_runI close_payload_length [of sc sr]
    by (auto simp: goes_ok_def ws_closing_def events_phase_def dispatch_defs sent_ok_def states_ok_def frame_ok_def
        butlast_append)
qed

lemma goes_on:
  assumes "ph0 \<in> {PhLoop, PhDrain, PhRecv} \<or> (\<exists>m. ph0 = PhSend m)" "ph \<in> {PhLoop, PhDrain, PhRecv} \<or> (\<exists>m. ph = PhSend m)"
    and "list_all (\<lambda>a. (\<exists>f. a = ActSend f \<and> frame_ok f \<and> \<not> is_close_frame f) \<or> (\<exists>t d. a = ActPost (WsMessage t d))) acts"
  shows "goes_ok ph0 (ph, acts)"
proof -
  have a: "list_all is_message (todo_events acts)" "todo_states acts = []" "list_all frame_ok (todo_sent acts)"
    "list_all (\<lambda>f. \<not> is_close_frame f) (todo_sent acts)" "list_all plain_act acts"
    using assms(3) by (induction acts) (auto simp: is_message_def)
  then show ?thesis
    using assms(1,2) opened_runI(2)
    by (auto simp: goes_ok_def events_phase_def sent_ok_def states_ok_def split: ws_phase.splits)
qed

lemma handshake_goes: "goes_ok PhPerform (ws_handshake hs)"
proof (cases hs)
  case (HsStatus cd)
  then show ?thesis by (simp add: ws_handshake_def goes_ok_def events_phase_def sent_ok_def states_ok_def)
qed (auto simp: ws_handshake_def intro!: goes_end)

lemma after_goes: "goes_ok (PhAfter cd) (ws_after_handshake cd ex)"
proof -
  have "goes_ok (PhAfter cd) (PhLoop, ns_ws_dispatch_open)"
    using opened_runI(1) by (simp add: goes_ok_def events_phase_def sent_ok_def states_ok_def dispatch_defs)
  then show ?thesis by (auto simp: ws_after_handshake_def Let_def intro!: goes_end)
qed

lemma loop_goes: "goes_ok PhLoop (ws_loop_head ex)"
  by (auto simp: ws_loop_head_def intro!: goes_end goes_on)

lemma drain_goes: "goes_ok PhDrain (fst (ns_ws_drain_outgoing q))"
proof (cases q)
  case (Cons m r)
  then show ?thesis using goes_closing [of PhDrain "[]"]
    by (cases m) (auto simp: ns_ws_drain_outgoing_def intro!: goes_on)
qed (auto simp: ns_ws_drain_outgoing_def intro!: goes_on)

lemma send_goes: "out_ok m \<Longrightarrow> \<forall>c r. m \<noteq> OutClose c r \<Longrightarrow> goes_ok (PhSend m) (ws_send_message env stop m)"
  unfolding ws_send_message_def
  by (rule goes_on) (auto simp: out_frame_def out_ok_def frame_ok_def is_close_frame_def split: ws_out.splits)

lemma handle_frame_acts:
  assumes "ns_ws_handle_frame utf8 f ws = (out, acts, ws')"
  shows "list_all (\<lambda>a. (\<exists>f. a = ActSend f \<and> frame_ok f \<and> \<not> is_close_frame f) \<or> (\<exists>t d. a = ActPost (WsMessage t d))) acts"
    "out \<noteq> FrGoOn \<Longrightarrow> acts = []"
  using assms unfolding ns_ws_handle_frame_def Let_def
  by (auto simp: frame_ok_def is_close_frame_def dispatch_defs split: if_splits)

lemma received_goes: "goes_ok PhRecv (fst (ws_received utf8 rr ws))"
proof (cases rr)
  case (RecvFrame f)
  obtain out acts ws' where h: "ns_ws_handle_frame utf8 f ws = (out, acts, ws')" by (metis prod_cases3)
  note a = handle_frame_acts [OF h]
  show ?thesis
  proof (cases "out = FrGoOn")
    case True
    then show ?thesis using a(1) by (auto simp: ws_received_def RecvFrame h intro!: goes_on)
  next
    case False
    then show ?thesis using a(2) goes_closing [of PhRecv "[]"]
      by (cases out) (auto simp: ws_received_def RecvFrame h ws_closing_def)
  qed
qed (auto simp: ws_received_def intro!: goes_on goes_end)

section \<open>Invariants\<close>

definition conn_ok :: "ws_run \<Rightarrow> bool" where
  "conn_ok r \<longleftrightarrow> length (ws_recv_assembly (rn_ws r)) \<le> ns_ws_max_message
     \<and> list_all out_ok (ws_out_queue (rn_ws r))
     \<and> list_all (\<lambda>a. case a of MaEnqueue (OutClose c x) \<Rightarrow> c > 0 | MaPush m \<Rightarrow> out_ok m | MaState s \<Rightarrow> s = WsClosing | _ \<Rightarrow> True)
         (rn_main r)
     \<and> (\<forall>m. rn_phase r = PhSend m \<longrightarrow> out_ok m \<and> (\<forall>c x. m \<noteq> OutClose c x))"

text \<open>The steps, by their kind.\<close>

lemma drain_queue_ok:
  assumes "ns_ws_drain_outgoing q = (pa, q')" "list_all out_ok q"
  shows "list_all out_ok q' \<and> (\<forall>m. fst pa = PhSend m \<longrightarrow> out_ok m \<and> (\<forall>c x. m \<noteq> OutClose c x))"
  using assms by (auto simp: ns_ws_drain_outgoing_def ws_closing_def split: list.splits ws_out.splits)

lemma received_fields:
  assumes "ws_received utf8 rr ws = (pa, ws')" "length (ws_recv_assembly ws) \<le> ns_ws_max_message"
  shows "ws_mailbox ws' = ws_mailbox ws \<and> ws_state ws' = ws_state ws \<and> ws_out_queue ws' = ws_out_queue ws
    \<and> ws_exit_requested ws' = ws_exit_requested ws
    \<and> length (ws_recv_assembly ws') \<le> ns_ws_max_message \<and> (\<forall>m. fst pa \<noteq> PhSend m)"
proof (cases rr)
  case (RecvFrame f)
  obtain out acts ws1 where h: "ns_ws_handle_frame utf8 f ws = (out, acts, ws1)" by (metis prod_cases3)
  then have "ws_mailbox ws1 = ws_mailbox ws \<and> ws_state ws1 = ws_state ws \<and> ws_out_queue ws1 = ws_out_queue ws
      \<and> ws_exit_requested ws1 = ws_exit_requested ws
      \<and> length (ws_recv_assembly ws1) \<le> ns_ws_max_message"
    using assms(2) unfolding ns_ws_handle_frame_def Let_def by (auto split: if_splits)
  moreover have "ws' = ws1 \<and> (\<forall>m. fst pa \<noteq> PhSend m)"
    using assms(1) by (cases out) (auto simp: ws_received_def RecvFrame h ws_closing_def)
  ultimately show ?thesis by simp
qed (use assms in \<open>auto simp: ws_received_def\<close>)

lemma ws_do_elim:
  assumes step: "ws_do utf8 c r = Some r'" and ok: "conn_ok r"
  obtains (calls) acts fr where "rn_main r = []" "r' = r\<lparr>rn_main := acts, rn_freed := fr\<rparr>"
      "(\<exists>d. acts = ns_ws_send_text d \<or> acts = ns_ws_send_binary d)
        \<or> (\<exists>cd re. acts = ns_ws_close cd re (ws_state (rn_ws r))) \<or> acts = ns_ws_free"
  | (page) a rest where "rn_main r = a # rest" "page_act a (r\<lparr>rn_main := rest\<rparr>) = Some r'"
  | (take) busy e es mb where "mb_idle (box r) = e # es \<and> mb = (box r)\<lparr>mb_idle := es\<rparr>
        \<or> mb_timers (box r) = e # es \<and> mb = (box r)\<lparr>mb_timers := es\<rparr>" "r' = take_event busy e mb r"
  | (return) "0 < rn_owed r" "r' = r\<lparr>rn_owed := rn_owed r - 1,
        rn_ws := (rn_ws r)\<lparr>ws_mailbox := (box r)\<lparr>mb_pending := mb_pending (box r) - 1\<rparr>\<rparr>\<rparr>"
  | (work) a rest where "rn_todo r = a # rest" "r' = worker_act a (r\<lparr>rn_todo := rest\<rparr>)"
  | (goes) pa ws where "rn_todo r = []" "r' = worker_goes pa (r\<lparr>rn_ws := ws\<rparr>)" "goes_ok (rn_phase r) pa"
      "ws_mailbox ws = ws_mailbox (rn_ws r)" "ws_state ws = ws_state (rn_ws r)"
      "length (ws_recv_assembly ws) \<le> ns_ws_max_message" "list_all out_ok (ws_out_queue ws)"
      "\<forall>m. fst pa = PhSend m \<longrightarrow> out_ok m \<and> (\<forall>c x. m \<noteq> OutClose c x)"
proof -
  have o: "length (ws_recv_assembly (rn_ws r)) \<le> ns_ws_max_message" "list_all out_ok (ws_out_queue (rn_ws r))"
    using ok by (simp_all add: conn_ok_def)
  have stay: "r' = worker_goes pa (r\<lparr>rn_ws := rn_ws r\<rparr>)" if "r' = worker_goes pa r" for pa using that by simp
  show thesis
  proof (cases c)
    case (ChText d)
    then show thesis using step calls [where acts = "ns_ws_send_text d" and fr = "rn_freed r"] by (auto simp: page_calls_def split: if_splits)
  next
    case (ChBinary d)
    then show thesis using step calls [where acts = "ns_ws_send_binary d" and fr = "rn_freed r"] by (auto simp: page_calls_def split: if_splits)
  next
    case (ChClose cd re)
    then show thesis using step calls [where acts = "ns_ws_close cd re (ws_state (rn_ws r))" and fr = "rn_freed r"]
      by (auto simp: page_calls_def split: if_splits)
  next
    case ChFree
    then show thesis using step calls [where acts = ns_ws_free and fr = True] by (auto simp: page_calls_def split: if_splits)
  next
    case ChMain
    then show thesis using step page by (auto split: list.splits)
  next
    case (ChIdle busy)
    then show thesis using step take by (auto split: if_splits list.splits)
  next
    case (ChTimer busy)
    then show thesis using step take by (auto split: if_splits list.splits)
  next
    case ChReturn
    then show thesis using step return by (auto split: if_splits)
  next
    case (ChHandshake hs)
    then have "rn_phase r = PhPerform" "rn_todo r = []" "r' = worker_goes (ws_handshake hs) r"
      using step by (auto split: if_splits)
    then show thesis using goes [where ws = "rn_ws r" and pa = "ws_handshake hs"] o handshake_goes [of hs]
      by (auto simp: ws_handshake_def split: handshake.splits)
  next
    case ChWork
    show thesis
    proof (cases "rn_todo r")
      case (Cons a rest)
      then show thesis using step work ChWork by simp
    next
      case Nil
      show thesis
      proof (cases "rn_phase r")
        case (PhAfter cd)
        have "\<forall>m. fst (ws_after_handshake cd (ws_exit_requested (rn_ws r))) \<noteq> PhSend m"
          by (simp add: ws_after_handshake_def Let_def)
        then show thesis using goes [where ws = "rn_ws r" and pa = "ws_after_handshake cd (ws_exit_requested (rn_ws r))"] o after_goes step
          by (simp add: ChWork Nil PhAfter)
      next
        case PhLoop
        have "\<forall>m. fst (ws_loop_head (ws_exit_requested (rn_ws r))) \<noteq> PhSend m" by (simp add: ws_loop_head_def)
        then show thesis using goes [where ws = "rn_ws r" and pa = "ws_loop_head (ws_exit_requested (rn_ws r))"] o loop_goes step
          by (simp add: ChWork Nil PhLoop)
      next
        case PhDrain
        obtain pa q where d: "ns_ws_drain_outgoing (ws_out_queue (rn_ws r)) = (pa, q)" by (cases "ns_ws_drain_outgoing (ws_out_queue (rn_ws r))")
        then have r': "r' = worker_goes pa (r\<lparr>rn_ws := (rn_ws r)\<lparr>ws_out_queue := q\<rparr>\<rparr>)"
          using step by (simp add: ChWork Nil PhDrain)
        show thesis using goes [OF Nil r'] drain_goes [of "ws_out_queue (rn_ws r)"] drain_queue_ok [OF d o(2)] o(1)
          by (simp add: PhDrain d)
      qed (use step ChWork Nil in simp_all)
    qed
  next
    case (ChSend env stop)
    then obtain m where m: "rn_phase r = PhSend m" "rn_todo r = []" "r' = worker_goes (ws_send_message env stop m) r"
      using step by (auto split: ws_phase.splits if_splits)
    moreover have "goes_ok (PhSend m) (ws_send_message env stop m)"
      by (rule send_goes) (use ok m(1) in \<open>simp_all add: conn_ok_def\<close>)
    moreover have "\<forall>m'. fst (ws_send_message env stop m) \<noteq> PhSend m'" by (simp add: ws_send_message_def)
    ultimately show thesis using goes [where ws = "rn_ws r" and pa = "ws_send_message env stop m"] o by simp
  next
    case (ChRecv rr)
    obtain pa ws where d: "ws_received utf8 rr (rn_ws r) = (pa, ws)" by (cases "ws_received utf8 rr (rn_ws r)")
    then have p: "rn_phase r = PhRecv" "rn_todo r = []" "r' = worker_goes pa (r\<lparr>rn_ws := ws\<rparr>)"
      using step ChRecv by (auto split: if_splits)
    show thesis using goes [OF p(2,3)] received_goes [of utf8 rr "rn_ws r"] received_fields [OF d o(1)] o(2)
      by (simp add: p(1) d)
  qed
qed

lemma conn_ok_step:
  assumes "conn_ok r" "ws_do utf8 c r = Some r'"
  shows "conn_ok r'"
  using assms(2,1)
proof (cases rule: ws_do_elim)
  case (calls acts fr)
  then have "list_all (\<lambda>a. case a of MaEnqueue (OutClose c x) \<Rightarrow> c > 0 | MaPush m \<Rightarrow> out_ok m | MaState s \<Rightarrow> s = WsClosing | _ \<Rightarrow> True) acts"
    by (auto simp: ns_ws_send_text_def ns_ws_send_binary_def ns_ws_close_def ns_ws_free_def Let_def)
  then show ?thesis using assms(1) calls by (simp add: conn_ok_def)
next
  case (page a rest)
  show ?thesis
  proof (cases a)
    case (MaEnqueue m)
    then have "list_all (\<lambda>a. case a of MaEnqueue (OutClose c x) \<Rightarrow> c > 0 | MaPush m \<Rightarrow> out_ok m | MaState s \<Rightarrow> s = WsClosing | _ \<Rightarrow> True)
        (ns_ws_enqueue m (ws_state (rn_ws r)))"
      using assms(1) page(1) by (cases m) (simp_all add: ns_ws_enqueue_def conn_ok_def out_ok_def Let_def)
    then show ?thesis using assms(1) page MaEnqueue by (auto simp: conn_ok_def)
  qed (use assms(1) page in \<open>auto simp: conn_ok_def split: if_splits\<close>)
next
  case (take busy e es mb)
  then show ?thesis using assms(1) by (auto simp: conn_ok_def take_event_def)
next
  case return
  then show ?thesis using assms(1) by (auto simp: conn_ok_def)
next
  case (work a rest)
  then show ?thesis using assms(1) by (cases a) (auto simp: conn_ok_def)
next
  case (goes pa ws)
  then show ?thesis using assms(1) by (auto simp: conn_ok_def worker_goes_def)
qed

text \<open>What the page does leaves the worker's place and its history alone.\<close>

lemma page_act_worker:
  "page_act a r = Some r' \<Longrightarrow> rn_phase r' = rn_phase r \<and> rn_todo r' = rn_todo r \<and> rn_events r' = rn_events r
     \<and> rn_sent r' = rn_sent r \<and> rn_queued r' = rn_queued r \<and> rn_told r' = rn_told r \<and> rn_owed r' = rn_owed r
     \<and> rn_overlap r' = rn_overlap r"
  by (cases a) (auto split: if_splits)

lemma take_event_worker:
  "rn_phase (take_event busy e mb r) = rn_phase r \<and> rn_todo (take_event busy e mb r) = rn_todo r
     \<and> rn_events (take_event busy e mb r) = rn_events r \<and> rn_sent (take_event busy e mb r) = rn_sent r
     \<and> rn_queued (take_event busy e mb r) = rn_queued r \<and> rn_main (take_event busy e mb r) = rn_main r
     \<and> rn_overlap (take_event busy e mb r) = rn_overlap r
     \<and> ws_state (rn_ws (take_event busy e mb r)) = ws_state (rn_ws r)"
  by (simp add: take_event_def)

definition worker_ok :: "ws_run \<Rightarrow> bool" where
  "worker_ok r \<longleftrightarrow> events_phase (rn_phase r) (rn_events r @ todo_events (rn_todo r))
     \<and> sent_ok (rn_phase r) (rn_sent r @ todo_sent (rn_todo r)) \<and> list_all plain_act (tl (rn_todo r))"

lemma worker_ok_step:
  assumes "conn_ok r" "worker_ok r" "ws_do utf8 c r = Some r'"
  shows "worker_ok r'"
  using assms(3,1)
proof (cases rule: ws_do_elim)
  case (calls acts fr)
  then show ?thesis using assms(2) by (simp add: worker_ok_def)
next
  case (page a rest)
  then show ?thesis using assms(2) page_act_worker [OF page(2)] by (simp add: worker_ok_def)
next
  case (take busy e es mb)
  then show ?thesis using assms(2) take_event_worker [of busy e mb r] by (simp add: worker_ok_def)
next
  case return
  then show ?thesis using assms(2) by (simp add: worker_ok_def)
next
  case (work a rest)
  then have p: "list_all plain_act rest" using assms(2) by (simp add: worker_ok_def)
  then have "list_all plain_act (tl rest)" by (cases rest) simp_all
  then show ?thesis using assms(2) work p by (cases a) (auto simp: worker_ok_def)
next
  case (goes pa ws)
  then have "list_all plain_act (tl (snd pa))" by (cases "snd pa") (simp_all add: goes_ok_def)
  then show ?thesis using assms(2) goes by (simp add: worker_ok_def worker_goes_def goes_ok_def)
qed

definition state_ok :: "ws_run \<Rightarrow> bool" where
  "state_ok r \<longleftrightarrow>
     (if todo_states (rn_todo r) = [] \<and> rn_phase r = PhDone
      then rn_overlap r \<or> (ws_state (rn_ws r) = WsClosed \<and> MaState WsClosing \<notin> set (rn_main r))
      else states_ok (rn_phase r) (todo_states (rn_todo r)) \<and> ws_state (rn_ws r) \<noteq> WsClosed)"

lemma state_ok_step:
  assumes "conn_ok r" "state_ok r" "ws_do utf8 c r = Some r'"
  shows "state_ok r'"
  using assms(3,1)
proof (cases rule: ws_do_elim)
  case (calls acts fr)
  then have "ws_state (rn_ws r) = WsClosed \<Longrightarrow> MaState WsClosing \<notin> set acts"
    by (auto simp: ns_ws_send_text_def ns_ws_send_binary_def ns_ws_close_def ns_ws_free_def)
  then show ?thesis using assms(2) calls by (auto simp: state_ok_def)
next
  case (page a rest)
  have "MaState WsClosing \<notin> set (ns_ws_enqueue m st)" for m st by (simp add: ns_ws_enqueue_def Let_def)
  then show ?thesis using assms(1,2) page page_act_worker [OF page(2)]
    by (cases a) (auto simp: state_ok_def conn_ok_def split: if_splits)
next
  case (take busy e es mb)
  then show ?thesis using assms(2) take_event_worker [of busy e mb r] by (simp add: state_ok_def)
next
  case return
  then show ?thesis using assms(2) by (simp add: state_ok_def)
next
  case (work a rest)
  then show ?thesis using assms(2) by (cases a) (auto simp: state_ok_def states_ok_def split: if_splits)
next
  case (goes pa ws)
  then show ?thesis using assms(2)
    by (auto simp: state_ok_def states_ok_def worker_goes_def goes_ok_def split: if_splits)
qed

lemma message_droppable: "ws_droppable e = is_message e"
  by (simp add: ws_droppable_def is_message_def)

definition waiting :: "ws_run \<Rightarrow> ws_event list" where
  "waiting r = mailbox_events (box r)"

definition pending_raised :: "ws_act list \<Rightarrow> nat" where
  "pending_raised acts = (case acts of ActPostQueue e # rest \<Rightarrow> 1 | _ \<Rightarrow> 0)"

definition message_next :: "ws_act list \<Rightarrow> bool" where
  "message_next acts = (case acts of ActPostAdd e # rest \<Rightarrow> is_message e | ActPostQueue e # rest \<Rightarrow> is_message e | _ \<Rightarrow> False)"

lemma next_plain:
  "list_all plain_act acts \<Longrightarrow> pending_raised acts = 0 \<and> \<not> message_next acts"
  by (cases acts rule: list.exhaust; cases "hd acts") (simp_all add: pending_raised_def message_next_def)

definition box_ok :: "ws_run \<Rightarrow> bool" where
  "box_ok r \<longleftrightarrow>
     mb_pending (box r) = length (waiting r) + rn_owed r + pending_raised (rn_todo r)
     \<and> length (filter is_message (waiting r)) \<le> ns_ws_max_pending
     \<and> (message_next (rn_todo r) \<longrightarrow> length (filter is_message (waiting r)) < ns_ws_max_pending)"

lemma box_simps [simp]:
  "box (r\<lparr>rn_main := x1\<rparr>) = box r" "box (r\<lparr>rn_freed := x2\<rparr>) = box r" "box (r\<lparr>rn_owed := x3\<rparr>) = box r"
  "box (r\<lparr>rn_phase := x4\<rparr>) = box r" "box (r\<lparr>rn_todo := x5\<rparr>) = box r" "box (r\<lparr>rn_sent := x6\<rparr>) = box r"
  "box (r\<lparr>rn_events := x7\<rparr>) = box r" "box (r\<lparr>rn_queued := x8\<rparr>) = box r" "box (r\<lparr>rn_told := x9\<rparr>) = box r"
  "box (r\<lparr>rn_overlap := x10\<rparr>) = box r" "box (r\<lparr>rn_ws := ws\<rparr>) = ws_mailbox ws"
  by (simp_all add: box_def)

lemma waiting_box: "box r' = box r \<Longrightarrow> waiting r' = waiting r"
  by (simp add: waiting_def)

lemma page_act_box:
  assumes "page_act a r = Some r'"
  shows "waiting r' = waiting r \<and> mb_pending (box r') = mb_pending (box r) \<and> (mb_detached (box r) \<longrightarrow> mb_detached (box r'))"
  using assms by (cases a) (auto simp: waiting_def mailbox_events_def mailbox_detach_def box_def split: if_splits)

lemma take_event_box:
  assumes "mb_idle (box r) = e # es \<and> mb = (box r)\<lparr>mb_idle := es\<rparr>
        \<or> mb_timers (box r) = e # es \<and> mb = (box r)\<lparr>mb_timers := es\<rparr>"
  shows "mset (waiting r) = mset (waiting (take_event busy e mb r))
           + (if \<not> mb_detached (box r) \<and> busy then {#} else {#e#})"
    "length (waiting r) + rn_owed r = length (waiting (take_event busy e mb r)) + rn_owed (take_event busy e mb r)"
    "length (filter P (waiting (take_event busy e mb r))) \<le> length (filter P (waiting r))"
    "mb_pending (box (take_event busy e mb r)) = mb_pending (box r)"
    "mb_detached (box (take_event busy e mb r)) = mb_detached (box r)"
    "rn_told (take_event busy e mb r) = rn_told r @ (if mb_detached (box r) \<or> busy then [] else [e])"
  using assms by (auto simp: take_event_def waiting_def mailbox_events_def)

lemma box_ok_step:
  assumes "conn_ok r" "worker_ok r" "box_ok r" "ws_do utf8 c r = Some r'"
  shows "box_ok r'"
  using assms(4,1)
proof (cases rule: ws_do_elim)
  case (calls acts fr)
  then show ?thesis using assms(3) by (simp add: box_ok_def waiting_def)
next
  case (page a rest)
  then show ?thesis using assms(3) page_act_worker [OF page(2)] page_act_box [OF page(2)]
    by (simp add: box_ok_def waiting_def)
next
  case (take busy e es mb)
  note t = take_event_box [OF take(1), where busy = busy]
  have "length (filter is_message (waiting r')) \<le> length (filter is_message (waiting r))" using t(3) take(2) by simp
  then show ?thesis using assms(3) t(2,4) take(2) take_event_worker [of busy e mb r]
    by (auto simp: box_ok_def)
next
  case return
  then have "waiting r' = waiting r" "rn_todo r' = rn_todo r" "mb_pending (box r') = mb_pending (box r) - 1"
    by (simp_all add: waiting_def mailbox_events_def)
  then show ?thesis using assms(3) return by (auto simp: box_ok_def)
next
  case (work a rest)
  have rest: "pending_raised rest = 0" "\<not> message_next rest"
    using assms(2) work(1) next_plain [of rest] by (simp_all add: worker_ok_def)
  have le: "length (filter is_message (waiting r)) \<le> length (waiting r)" by simp
  show ?thesis
    using assms(3) work rest le
    by (cases a) (auto simp: box_ok_def waiting_def mailbox_events_def message_droppable pending_raised_def message_next_def box_def)
next
  case (goes pa ws)
  then have "pending_raised (snd pa) = 0" "\<not> message_next (snd pa)"
    using next_plain [of "snd pa"] by (simp_all add: goes_ok_def)
  moreover have "box r' = box r" using goes by (simp add: worker_goes_def box_def)
  ultimately show ?thesis using assms(3) goes(1,2)
    by (simp add: box_ok_def waiting_def worker_goes_def pending_raised_def message_next_def)
qed

definition told_ok :: "ws_run \<Rightarrow> bool" where
  "told_ok r \<longleftrightarrow> mset (rn_told r) + mset (waiting r) \<subseteq># mset (rn_queued r) \<and> subseq (rn_queued r) (rn_events r)
     \<and> (\<not> mb_detached (box r) \<longrightarrow> mset (rn_told r) + mset (waiting r) = mset (rn_queued r)
          \<and> filter (\<lambda>e. \<not> is_message e) (rn_queued r) = filter (\<lambda>e. \<not> is_message e) (rn_events r))"

lemma told_ok_step:
  assumes "conn_ok r" "told_ok r" "ws_do utf8 c r = Some r'"
  shows "told_ok r'"
  using assms(3,1)
proof (cases rule: ws_do_elim)
  case (calls acts fr)
  then show ?thesis using assms(2) by (simp add: told_ok_def waiting_def)
next
  case (page a rest)
  then show ?thesis using assms(2) page_act_worker [OF page(2)] page_act_box [OF page(2)]
    by (auto simp: told_ok_def waiting_def)
next
  case (take busy e es mb)
  note t = take_event_box [OF take(1), where busy = busy]
  show ?thesis
  proof (cases "mb_detached (box r)")
    case True
    have "mset (waiting r') \<subseteq># mset (waiting r)" using t(1) take(2) by simp
    then have "mset (rn_told r) + mset (waiting r') \<subseteq># mset (rn_told r) + mset (waiting r)" by simp
    also have "\<dots> \<subseteq># mset (rn_queued r)" using assms(2) by (simp add: told_ok_def)
    finally show ?thesis using assms(2) True t(5,6) take(2) take_event_worker [of busy e mb r]
      by (simp add: told_ok_def)
  next
    case False
    have "mset (rn_told r') + mset (waiting r') = mset (rn_told r) + mset (waiting r)"
      using t(1,6) take(2) False by (auto simp: ac_simps split: if_splits)
    then show ?thesis using assms(2) False t(5) take(2) take_event_worker [of busy e mb r]
      by (simp add: told_ok_def)
  qed
next
  case return
  then show ?thesis using assms(2) by (simp add: told_ok_def waiting_def mailbox_events_def)
next
  case (work a rest)
  show ?thesis
  proof (cases a)
    case (ActPost e)
    then show ?thesis using assms(2) work
      by (auto simp: told_ok_def waiting_def mailbox_events_def subseq_append_iff intro: list_emb_append2 subseq_rev_drop_many)
  next
    case (ActPostCount e)
    then show ?thesis using assms(2) work
      by (auto simp: told_ok_def waiting_def mailbox_events_def message_droppable intro: subseq_rev_drop_many)
  next
    case (ActPostQueue e)
    then have "subseq (rn_queued r @ [e]) (rn_events r @ [e])" using assms(2) by (simp add: told_ok_def)
    then show ?thesis using assms(2) work ActPostQueue
      by (auto simp: told_ok_def waiting_def mailbox_events_def)
  qed (use assms(2) work in \<open>auto simp: told_ok_def waiting_def mailbox_events_def box_def\<close>)
next
  case (goes pa ws)
  then show ?thesis using assms(2) by (simp add: told_ok_def waiting_def worker_goes_def box_def)
qed

lemma reachable_ok:
  "ws_reachable utf8 r \<Longrightarrow> conn_ok r \<and> worker_ok r \<and> state_ok r \<and> box_ok r \<and> told_ok r"
proof (induction rule: ws_reachable.induct)
  case ws_start
  have w: "waiting run_init = []" by (simp add: waiting_def run_init_def box_def ns_ws_new_def mailbox_init_def mailbox_events_def)
  then show ?case
    by (simp add: run_init_def conn_ok_def worker_ok_def state_ok_def box_ok_def told_ok_def events_phase_def sent_ok_def
        states_ok_def ns_ws_new_def pending_raised_def message_next_def mailbox_init_def box_def)
next
  case (ws_next r c r')
  then show ?case using conn_ok_step worker_ok_step state_ok_step box_ok_step told_ok_step by blast
qed

lemma events_go_on:
  assumes "events_phase ph evs"
  shows "\<exists>rest. complete_run (evs @ rest)"
proof -
  have "complete_run evs \<or> evs = [] \<or> opened_run evs"
    using assms by (auto simp: events_phase_def split: ws_phase.splits)
  then show ?thesis using complete_runI(1,3) by (metis append_Nil append_Nil2)
qed

text \<open>(C33) However the peer fragments a message, curl cuts the fragments, pings come in between
  and the page works on its mailbox meanwhile: the message is put once, with exactly its bytes, at
  the end of the mailbox as the page left it, unless the connection was let go or 256 events wait,
  when it is dropped; it is refused, with nothing put there, exactly when it is larger than 8 MiB
  or a text that is not UTF-8. Either way the next message starts afresh.\<close>

theorem ws_message_reassembly:
  assumes "message_frames (map snd fs)" "\<not> ws_recv_in_message ws"
  defines "d \<equiv> message_payload (map snd fs)" and "binary \<equiv> fr_binary (snd (hd fs))"
  shows "\<exists>ws'. ws_receive utf8 fs ws
        = (if length d > 8 * 1024 * 1024 then FrTooBig
           else if \<not> binary \<and> d \<noteq> [] \<and> \<not> utf8 d then FrBadUtf8 else FrGoOn, ws')
    \<and> \<not> ws_recv_in_message ws'
    \<and> (if length d > 8 * 1024 * 1024 \<or> (\<not> binary \<and> d \<noteq> [] \<and> \<not> utf8 d)
       then \<exists>k \<le> length fs. ws_mailbox ws' = fold fst (take k fs) (ws_mailbox ws)
       else let m = fold fst fs (ws_mailbox ws)
            in ws_mailbox ws' = (if mb_detached m \<or> mb_pending m \<ge> 256 then m
                 else m\<lparr>mb_pending := mb_pending m + 1, mb_idle := mb_idle m @ [WsMessage (\<not> binary) d]\<rparr>))"
proof -
  obtain page f r where fs: "fs = (page, f) # r" using assms(1) by (cases fs) (auto simp: message_frames_def)
  let ?w0 = "ws \<lparr> ws_recv_assembly := [], ws_recv_binary := fr_binary f, ws_recv_in_message := True \<rparr>"
  have f: "data_frame f" "fr_text f \<or> fr_binary f" "fr_offset f = 0" "\<not> ping_frame f"
    using assms(1) by (auto simp: fs message_frames_def data_frame_def ping_frame_def)
  have "ns_ws_handle_frame utf8 f (ws\<lparr>ws_mailbox := m\<rparr>) = ns_ws_handle_frame utf8 f (?w0\<lparr>ws_mailbox := m\<rparr>)" for m
    using f assms(2) by (simp add: ns_ws_handle_frame_def Let_def data_frame_def)
  then have eq: "ws_receive utf8 fs ws = ws_receive utf8 fs ?w0" unfolding fs by simp
  have m: "message_rest (map snd fs)"
    using assms(1) f(1,4) by (simp add: fs message_frames_def)
  have "received_as utf8 binary d fs ?w0 (ws_receive utf8 fs ws)"
    unfolding eq using receive_rest [OF m, of ?w0 utf8] by (simp add: d_def binary_def fs)
  then show ?thesis
    by (intro exI [of _ "snd (ws_receive utf8 fs ws)"])
      (auto simp: received_as_def message_outcome_def message_arrived_def Let_def prod_eq_iff split: if_splits)
qed

definition example_frame :: "string \<Rightarrow> bool \<Rightarrow> ws_frame" where
  "example_frame d unfin = \<lparr> fr_data = d, fr_text = True, fr_binary = False, fr_cont = unfin,
     fr_close = False, fr_ping = False, fr_offset = 0, fr_bytesleft = 0 \<rparr>"

theorem ws_message_reassembly_witness:
  "\<exists>ws'. ws_receive (\<lambda>s. True) [(\<lambda>m. m, example_frame ''ab'' True), (\<lambda>m. m, example_frame ''c'' False)] ns_ws_new
      = (FrGoOn, ws') \<and> mb_idle (ws_mailbox ws') = [WsMessage True ''abc'']"
proof -
  let ?fs = "[(\<lambda>m. m, example_frame ''ab'' True), (\<lambda>m. m, example_frame ''c'' False)] :: page_frame list"
  have f: "message_frames (map snd ?fs)" "\<not> ws_recv_in_message ns_ws_new" by code_simp+
  have p: "message_payload (map snd ?fs) = ''abc''" "fr_binary (snd (hd ?fs)) = False" by code_simp+
  have b: "ws_mailbox ns_ws_new = mailbox_init" by (simp add: ns_ws_new_def)
  show ?thesis
    using ws_message_reassembly [OF f, of "\<lambda>s. True"] unfolding p b
    by (auto simp: mailbox_init_def Let_def)
qed

text \<open>(C10) The page and the worker in every interleaving of their single accesses to what they
  share. The events of a connection are at any time the beginning of a complete run, and such a
  run when the worker has ended: one open first if the handshake succeeded, then messages, at
  most one error, and one close, last. The connection reads as closed only when the worker
  is past its loop, and it does so when the worker has ended, unless the worker closed it
  while the page was in the middle of \<open>ns_ws_close\<close>. No frame follows the close frame; a close
  frame has a payload of at most 125 bytes and never of one. Every event queued is an event of
  the connection, in their order, and reaches the page at most once; until the page lets go
  none is lost but messages, and those only before they are queued. The message being
  assembled stays within 8 MiB and the messages waiting for the page within 256.\<close>

theorem ws_lifecycle:
  assumes "ws_reachable utf8 r"
  shows "(\<exists>rest. complete_run (rn_events r @ rest)) \<and> (ws_ended r \<longrightarrow> complete_run (rn_events r))
    \<and> (ws_state (rn_ws r) = WsClosed \<longrightarrow> rn_phase r = PhDone)
    \<and> (ws_ended r \<and> \<not> rn_overlap r \<longrightarrow> ws_state (rn_ws r) = WsClosed)
    \<and> sent_ok (rn_phase r) (rn_sent r @ todo_sent (rn_todo r))
    \<and> subseq (rn_queued r) (rn_events r) \<and> mset (rn_told r) + mset (waiting r) \<subseteq># mset (rn_queued r)
    \<and> (\<not> mb_detached (box r) \<longrightarrow> mset (rn_told r) + mset (waiting r) = mset (rn_queued r)
         \<and> filter (\<lambda>e. \<not> is_message e) (rn_queued r) = filter (\<lambda>e. \<not> is_message e) (rn_events r))
    \<and> length (ws_recv_assembly (rn_ws r)) \<le> 8388608
    \<and> length (filter is_message (waiting r)) \<le> 256"
proof -
  note ok = reachable_ok [OF assms]
  have "events_phase (rn_phase r) (rn_events r @ todo_events (rn_todo r))" using ok by (simp add: worker_ok_def)
  then have "\<exists>rest. complete_run (rn_events r @ rest)" "ws_ended r \<longrightarrow> complete_run (rn_events r)"
    using events_go_on [of "rn_phase r" "rn_events r @ todo_events (rn_todo r)"]
    by (auto simp: ws_ended_def events_phase_def)
  moreover have "ws_state (rn_ws r) = WsClosed \<longrightarrow> rn_phase r = PhDone"
    "ws_ended r \<and> \<not> rn_overlap r \<longrightarrow> ws_state (rn_ws r) = WsClosed"
    using ok by (auto simp: state_ok_def ws_ended_def split: if_splits)
  ultimately show ?thesis
    using ok by (simp add: worker_ok_def told_ok_def conn_ok_def box_ok_def ns_ws_max_message_def ns_ws_max_pending_def)
qed

definition opened_choices :: "ws_choice list" where
  "opened_choices = [ChHandshake (HsStatus 101), ChWork, ChWork, ChWork, ChWork, ChWork, ChWork]"

lemmas run_defs = opened_choices_def run_init_def box_def page_calls_def take_event_def worker_goes_def
  ws_handshake_def ws_after_handshake_def ws_loop_head_def ns_ws_drain_outgoing_def ws_received_def ns_ws_new_def
  mailbox_init_def dispatch_defs ns_ws_close_def ns_ws_enqueue_def ns_ws_max_pending_def ws_droppable_def
  ws_closing_def ns_ws_send_text_def ns_ws_handle_frame_def example_frame_def ns_ws_max_message_def
  mailbox_events_def waiting_def ws_ended_def

theorem ws_lifecycle_witness:
  "\<exists>r. ws_plays (\<lambda>s. True) (opened_choices @ [ChWork, ChWork, ChRecv (RecvFrame (example_frame ''hi'' False)),
        ChWork, ChWork, ChWork, ChWork, ChIdle False]) run_init = Some r
     \<and> rn_events r = [WsOpen, WsMessage True ''hi''] \<and> rn_told r = [WsOpen] \<and> waiting r = [WsMessage True ''hi'']
     \<and> mset (rn_told r) + mset (waiting r) \<subseteq># mset (rn_queued r)"
proof -
  let ?cs = "opened_choices @ [ChWork, ChWork, ChRecv (RecvFrame (example_frame ''hi'' False)),
        ChWork, ChWork, ChWork, ChWork, ChIdle False]"
  have "map_option (\<lambda>r. (rn_events r, rn_told r, waiting r)) (ws_plays (\<lambda>s. True) ?cs run_init)
      = Some ([WsOpen, WsMessage True ''hi''], [WsOpen], [WsMessage True ''hi''])"
    by (simp add: run_defs)
  then obtain r where r: "ws_plays (\<lambda>s. True) ?cs run_init = Some r" "rn_events r = [WsOpen, WsMessage True ''hi'']"
      "rn_told r = [WsOpen]" "waiting r = [WsMessage True ''hi'']" by auto
  have "ws_reachable (\<lambda>s. True) r" by (rule ws_plays_reachable [OF ws_start r(1)])
  with r show ?thesis using ws_lifecycle [of "\<lambda>s. True" r] by (intro exI [of _ r]) simp
qed

text \<open>The sender of one message: however curl takes the bytes, the loop ends, it
  reports success only when all bytes were taken, and it gives up after 5001
  calls in a row that took none.\<close>

fun taken :: "(nat \<Rightarrow> send_result) \<Rightarrow> nat \<Rightarrow> nat \<Rightarrow> nat" where
  "taken env i 0 = 0"
| "taken env i (Suc n) = (case env i of SendOk k \<Rightarrow> k | _ \<Rightarrow> 0) + taken env (Suc i) n"

lemma send_call:
  assumes r: "Suc i < j" "off' + taken env (Suc i) (j - Suc i) \<ge> len"
      "\<And>k. Suc i \<le> k \<Longrightarrow> k < j \<Longrightarrow> env k \<noteq> SendFail \<and> \<not> stop k"
    and e: "env i \<noteq> SendFail" "\<not> stop i" "off' = off + (case env i of SendOk k \<Rightarrow> k | _ \<Rightarrow> 0)"
  shows "i < j \<and> off + taken env i (j - i) \<ge> len
      \<and> (\<forall>k. i \<le> k \<and> k < j \<longrightarrow> env k \<noteq> SendFail \<and> \<not> stop k)"
proof -
  have "j - i = Suc (j - Suc i)" using r(1) by simp
  moreover have "env k \<noteq> SendFail \<and> \<not> stop k" if "i \<le> k" "k < j" for k
    using that r(3) e by (cases "k = i") auto
  ultimately show ?thesis using r(1,2) e(3) by simp
qed

lemma send_ok:
  "ns_ws_send_curl env stop len i off stalls = (True, j) \<Longrightarrow>
   i < j \<and> off + taken env i (j - i) \<ge> len
   \<and> (\<forall>k. i \<le> k \<and> k < j \<longrightarrow> env k \<noteq> SendFail \<and> \<not> stop k)"
proof (induction env stop len i off stalls rule: ns_ws_send_curl.induct)
  case (1 env stop len i off stalls)
  note call = 1(4) [unfolded ns_ws_send_curl.simps [of env stop len i off stalls]]
  have ns: "\<not> stop i" using call by (auto split: if_splits)
  show ?case
  proof (cases "env i")
    case (SendOk n)
    consider "off + n \<ge> len" | "\<not> off + n \<ge> len" "n = 0" | "\<not> off + n \<ge> len" "n \<noteq> 0" by blast
    then show ?thesis
    proof cases
      case 1
      then have "j = Suc i" using call ns SendOk by simp
      with 1 show ?thesis using SendOk ns by (auto simp: le_less_Suc_eq)
    next
      case 2
      have more: "\<not> stalls + 1 > 5000" and rec: "ns_ws_send_curl env stop len (Suc i) off (stalls + 1) = (True, j)"
        using call ns SendOk 2 by (auto split: if_splits)
      show ?thesis
        by (rule send_call [where off' = off]) (use 1(1) [OF ns SendOk 2 more rec] ns SendOk 2 in auto)
    next
      case 3
      have rec: "ns_ws_send_curl env stop len (Suc i) (off + n) 0 = (True, j)"
        using call ns SendOk 3 by simp
      show ?thesis
        by (rule send_call [where off' = "off + n"])
          (use 1(2) [OF ns SendOk 3 rec] ns SendOk in auto)
    qed
  next
    case SendAgain
    have more: "\<not> stalls + 1 > 5000" and rec: "ns_ws_send_curl env stop len (Suc i) off (stalls + 1) = (True, j)"
      using call ns SendAgain by (auto split: if_splits)
    show ?thesis
      by (rule send_call [where off' = off]) (use 1(3) [OF ns SendAgain more rec] ns SendAgain in auto)
  qed (use call ns in simp)
qed

lemma send_again_fails:
  "stalls \<le> 5000 \<Longrightarrow>
   ns_ws_send_curl (\<lambda>k. SendAgain) (\<lambda>k. False) len i off stalls = (False, i + (5001 - stalls))"
proof (induction "5000 - stalls" arbitrary: i stalls)
  case 0
  then show ?case by (simp add: ns_ws_send_curl.simps)
next
  case (Suc n)
  have "ns_ws_send_curl (\<lambda>k. SendAgain) (\<lambda>k. False) len (Suc i) off (stalls + 1)
      = (False, Suc i + (5001 - (stalls + 1)))"
    by (rule Suc.hyps(1)) (use Suc in simp_all)
  then show ?case
    using Suc(2,3) by (simp add: ns_ws_send_curl.simps [of _ _ len i off stalls]) arith
qed

text \<open>The send loop returns for every behaviour of curl; success means that
  curl took the whole message, over calls of which none failed, and the end was
  not requested before any of them; when curl answers \<open>CURLE_AGAIN\<close> for ever, the
  5001st call is the last and the message is given up.\<close>

theorem ws_send_all_or_fail:
  "(ns_ws_send_curl env stop len 0 0 0 = (True, j) \<longrightarrow>
      0 < j \<and> taken env 0 j \<ge> len \<and> (\<forall>k < j. env k \<noteq> SendFail \<and> \<not> stop k))
   \<and> ns_ws_send_curl (\<lambda>k. SendAgain) (\<lambda>k. False) len 0 0 0 = (False, 5001)"
  using send_ok [of env stop len 0 0 0 j] send_again_fails [of 0 len 0 0] by simp

theorem ws_send_all_or_fail_witness:
  "ns_ws_send_curl (\<lambda>k. if k = 0 then SendAgain else SendOk 2) (\<lambda>k. False) 3 0 0 0 = (True, 3)
   \<and> taken (\<lambda>k. if k = 0 then SendAgain else SendOk 2) 0 3 \<ge> 3
   \<and> ns_ws_send_curl (\<lambda>k. SendAgain) (\<lambda>k. False) 3 0 0 0 = (False, 5001)"
proof -
  have "ns_ws_send_curl (\<lambda>k. if k = 0 then SendAgain else SendOk 2) (\<lambda>k. False) 3 0 0 0 = (True, 3)"
    by (simp add: ns_ws_send_curl.simps)
  then show ?thesis
    using ws_send_all_or_fail [of "\<lambda>k. if k = 0 then SendAgain else SendOk 2" "\<lambda>k. False" 3 3] by simp
qed

section \<open>Races\<close>

text \<open>The page closes a connection that is just ending: it has read that the connection is open,
  the worker closes it and ends, and the page sets it to closing, where it stays. The close event
  has been queued.\<close>

lemma close_race_leaves_closing:
  "map_option (\<lambda>r. (ws_ended r, rn_main r, ws_state (rn_ws r), rn_events r))
     (ws_plays (\<lambda>s. True) (opened_choices @ [ChWork, ChWork, ChClose 1000 None, ChRecv (RecvError ''gone''),
        ChWork, ChWork, ChWork, ChWork, ChWork, ChWork, ChWork, ChWork, ChWork, ChMain, ChMain]) run_init)
   = Some (True, [], WsClosing, [WsOpen, WsError ''gone'', WsClose 1006 ''gone'' False])"
  by (simp add: run_defs)

text \<open>Closing a connection that is still connecting has no effect on its state once the handshake
  succeeds: the page that called \<open>close()\<close> sees it open, and a message sent then is accepted,
  though it stays behind the close in the queue.\<close>

lemma close_while_connecting_reopens:
  "map_option (\<lambda>r. (ws_state (rn_ws r), ws_out_queue (rn_ws r)))
     (ws_plays (\<lambda>s. True) ([ChClose 1000 None, ChMain, ChMain, ChMain] @ opened_choices @ [ChText ''lost'', ChMain, ChMain]) run_init)
   = Some (WsOpenState, [OutClose 1000 None, OutText ''lost''])"
  "map_option (\<lambda>r. (ws_ended r, rn_sent r))
     (ws_plays (\<lambda>s. True) ([ChClose 1000 None, ChMain, ChMain, ChMain] @ opened_choices @ [ChText ''lost'', ChMain, ChMain]
        @ [ChWork, ChWork, ChWork, ChWork, ChWork, ChWork, ChWork, ChWork, ChWork]) run_init)
   = Some (True, [SentClose (close_payload 1000 None)])"
  by (simp_all add: run_defs)

end
