(* ===== verification/Http_Date.thy ===== *)
theory Http_Date
  imports CString
begin

text \<open>
  Dates in HTTP headers: \<open>parse_http_date\<close> of \<open>src/src/cache.c\<close>, with the
  conversions of \<open>sscanf\<close> it uses and the calendar of \<open>g_date_time_new\<close> in UTC. The
  ISO 8601 parser of GLib is the parameter \<open>iso8601\<close>.
\<close>

section \<open>\<open>sscanf\<close>\<close>

datatype scan_item = ScanInt | ScanWord nat | ScanChar | ScanSpace | ScanLit char

datatype scan_val = SInt int | SWord string | SChar char

text \<open>The text after the number that \<open>%d\<close> reads.\<close>

definition after_int :: "string \<Rightarrow> string" where
  "after_int s =
     (let t = dropWhile c_isspace s;
          u = (case t of [] \<Rightarrow> [] | c # cs \<Rightarrow> if c = CHR ''-'' \<or> c = CHR ''+'' then cs else t)
      in dropWhile ascii_isdigit u)"

text \<open>The values converted up to the end of the format or the first mismatch.\<close>

fun sscanf :: "scan_item list \<Rightarrow> string \<Rightarrow> scan_val list" where
  "sscanf [] s = []"
| "sscanf (ScanInt # f) s =
     (if strtoll_any s then SInt (atoi s) # sscanf f (after_int s) else [])"
| "sscanf (ScanWord n # f) s =
     (let t = dropWhile c_isspace s;
          w = take n (takeWhile (\<lambda>c. \<not> c_isspace c) t)
      in if w = [] then [] else SWord w # sscanf f (drop (length w) t))"
| "sscanf (ScanChar # f) s = (case s of [] \<Rightarrow> [] | c # cs \<Rightarrow> SChar c # sscanf f cs)"
| "sscanf (ScanSpace # f) s = sscanf f (dropWhile c_isspace s)"
| "sscanf (ScanLit x # f) s =
     (case s of [] \<Rightarrow> [] | c # cs \<Rightarrow> if c = x then sscanf f cs else [])"

section \<open>The calendar\<close>

definition leap_year :: "int \<Rightarrow> bool" where
  "leap_year y = (4 dvd y \<and> (\<not> 100 dvd y \<or> 400 dvd y))"

definition days_in_month :: "int \<Rightarrow> int \<Rightarrow> int" where
  "days_in_month y m =
     (if m = 2 then (if leap_year y then 29 else 28)
      else if m \<in> {4, 6, 9, 11} then 30 else 31)"

definition days_before_month :: "int \<Rightarrow> int \<Rightarrow> int" where
  "days_before_month y m = (\<Sum>k\<leftarrow>[1..m - 1]. days_in_month y k)"

definition days_before_year :: "int \<Rightarrow> int" where
  "days_before_year y = 365 * (y - 1) + (y - 1) div 4 - (y - 1) div 100 + (y - 1) div 400"

text \<open>Seconds since 1970 of a UTC time; day 719163 of the calendar is the epoch.\<close>

definition utc_seconds :: "int \<Rightarrow> int \<Rightarrow> int \<Rightarrow> int \<Rightarrow> int \<Rightarrow> int \<Rightarrow> int" where
  "utc_seconds y m d hh mm ss =
     (days_before_year y + days_before_month y m + d - 719163) * 86400 + hh * 3600 + mm * 60 + ss"

definition g_date_time_new_utc ::
    "int \<Rightarrow> int \<Rightarrow> int \<Rightarrow> int \<Rightarrow> int \<Rightarrow> int \<Rightarrow> int option" where
  "g_date_time_new_utc y m d hh mm ss =
     (if 1 \<le> y \<and> y \<le> 9999 \<and> 1 \<le> m \<and> m \<le> 12 \<and> 1 \<le> d \<and> d \<le> days_in_month y m
         \<and> 0 \<le> hh \<and> hh < 24 \<and> 0 \<le> mm \<and> mm < 60 \<and> 0 \<le> ss \<and> ss < 60
      then Some (utc_seconds y m d hh mm ss) else None)"

section \<open>The parser\<close>

definition month_names :: "string list" where
  "month_names = [''Jan'', ''Feb'', ''Mar'', ''Apr'', ''May'', ''Jun'',
     ''Jul'', ''Aug'', ''Sep'', ''Oct'', ''Nov'', ''Dec'']"

fun month_index :: "string \<Rightarrow> int \<Rightarrow> string list \<Rightarrow> int" where
  "month_index m i [] = 0"
| "month_index m i (n # ns) = (if strncaseeq 3 m n then i else month_index m (i + 1) ns)"

definition month_from_name :: "string \<Rightarrow> int" where
  "month_from_name m = month_index m 1 month_names"

definition fixdate_format :: "scan_item list" where
  "fixdate_format = [ScanInt, ScanSpace, ScanWord 3, ScanSpace, ScanInt, ScanSpace,
     ScanInt, ScanLit CHR '':'', ScanInt, ScanLit CHR '':'', ScanInt]"

definition rfc850_format :: "scan_item list" where
  "rfc850_format = [ScanInt, ScanChar, ScanWord 3, ScanChar, ScanInt, ScanSpace,
     ScanInt, ScanLit CHR '':'', ScanInt, ScanLit CHR '':'', ScanInt]"

definition asctime_format :: "scan_item list" where
  "asctime_format = [ScanWord 3, ScanSpace, ScanInt, ScanSpace, ScanInt, ScanLit CHR '':'',
     ScanInt, ScanLit CHR '':'', ScanInt, ScanSpace, ScanInt]"

text \<open>Day, month name, year, hours, minutes and seconds.\<close>

definition scan_http_date :: "string \<Rightarrow> (int \<times> string \<times> int \<times> int \<times> int \<times> int) option" where
  "scan_http_date p =
     (case sscanf fixdate_format p of
        [SInt d, SWord mon, SInt y, SInt hh, SInt mm, SInt ss] \<Rightarrow> Some (d, mon, y, hh, mm, ss)
      | _ \<Rightarrow>
        (case sscanf rfc850_format p of
           [SInt d, SChar a, SWord mon, SChar b, SInt y, SInt hh, SInt mm, SInt ss] \<Rightarrow>
             Some (d, mon, if y < 100 then y + (if y < 70 then 2000 else 1900) else y, hh, mm, ss)
         | _ \<Rightarrow>
           (case sscanf asctime_format p of
              [SWord mon, SInt d, SInt hh, SInt mm, SInt ss, SInt y] \<Rightarrow> Some (d, mon, y, hh, mm, ss)
            | _ \<Rightarrow> None)))"

definition parse_http_date :: "(string \<Rightarrow> int option) \<Rightarrow> cptr \<Rightarrow> int" where
  "parse_http_date iso8601 s =
     (case s of None \<Rightarrow> 0
      | Some t \<Rightarrow>
        if t = [] then 0
        else
          case iso8601 t of Some r \<Rightarrow> r
          | None \<Rightarrow>
            let p = dropWhile (\<lambda>c. c = SP) (case strchr t CHR '','' of None \<Rightarrow> t | Some r \<Rightarrow> tl r)
            in case scan_http_date p of None \<Rightarrow> 0
               | Some (d, mon, y, hh, mm, ss) \<Rightarrow>
                   let m = month_from_name mon
                   in if m = 0 then 0
                      else if y < 1970 \<or> y > 9999 \<or> d < 1 \<or> d > 31 \<or> hh < 0 \<or> hh > 23
                              \<or> mm < 0 \<or> mm > 59 \<or> ss < 0 \<or> ss > 60 then 0
                      else (case g_date_time_new_utc y m d hh mm ss of None \<Rightarrow> 0 | Some r \<Rightarrow> r))"

section \<open>The formats of HTTP\<close>

text \<open>The three formats of RFC 9110; \<open>wd\<close> is the name of the weekday.\<close>

definition pad2 :: "nat \<Rightarrow> string" where
  "pad2 n = [char_of (48 + n div 10), char_of (48 + n mod 10)]"

definition pad4 :: "nat \<Rightarrow> string" where
  "pad4 n = pad2 (n div 100) @ pad2 (n mod 100)"

definition time_text :: "nat \<Rightarrow> nat \<Rightarrow> nat \<Rightarrow> string" where
  "time_text hh mm ss = pad2 hh @ '':'' @ pad2 mm @ '':'' @ pad2 ss"

definition fixdate :: "string \<Rightarrow> nat \<Rightarrow> string \<Rightarrow> nat \<Rightarrow> string \<Rightarrow> string" where
  "fixdate wd d mon y t = wd @ '', '' @ pad2 d @ '' '' @ mon @ '' '' @ pad4 y @ '' '' @ t @ '' GMT''"

definition rfc850_date :: "string \<Rightarrow> nat \<Rightarrow> string \<Rightarrow> nat \<Rightarrow> string \<Rightarrow> string" where
  "rfc850_date wd d mon y t =
     wd @ '', '' @ pad2 d @ ''-'' @ mon @ ''-'' @ pad2 (y mod 100) @ '' '' @ t @ '' GMT''"

definition asctime_date :: "string \<Rightarrow> nat \<Rightarrow> string \<Rightarrow> nat \<Rightarrow> string \<Rightarrow> string" where
  "asctime_date wd d mon y t =
     wd @ '' '' @ mon @ '' '' @ (if d < 10 then SP # dec_digits d else dec_digits d)
        @ '' '' @ t @ '' '' @ pad4 y"

lemma pad2_digits: "n < 100 \<Longrightarrow> c \<in> set (pad2 n) \<Longrightarrow> ascii_isdigit c"
  by (auto simp: pad2_def)

lemma pad2_value: "n < 100 \<Longrightarrow> digits_value 0 (pad2 n) = n"
  by (simp add: pad2_def)

lemma pad4_digits: "n < 10000 \<Longrightarrow> c \<in> set (pad4 n) \<Longrightarrow> ascii_isdigit c"
  unfolding pad4_def using pad2_digits [of "n div 100" c] pad2_digits [of "n mod 100" c] by auto

lemma pad4_value: "n < 10000 \<Longrightarrow> digits_value 0 (pad4 n) = n"
proof -
  assume n: "n < 10000"
  have "digits_value 0 (pad4 n) = digits_value (n div 100) (pad2 (n mod 100))"
    unfolding pad4_def using n pad2_digits [of "n div 100"] pad2_value [of "n div 100"]
    by (simp add: digits_value_append)
  also have "\<dots> = n" by (simp add: pad2_def)
  finally show ?thesis .
qed

lemma pad_nonempty [simp]: "pad2 n \<noteq> []" "pad4 n \<noteq> []"
  by (simp_all add: pad2_def pad4_def)

lemma narrow_int: "0 \<le> i \<Longrightarrow> i < 2 ^ 31 \<Longrightarrow> sint (word_of_int i :: 32 word) = i"
  by (simp add: int_word_sint)

declare sscanf.simps(2) [simp del]

text \<open>Reading a number that is written out.\<close>

lemma scan_digits:
  assumes "ds \<noteq> []" "\<And>c. c \<in> set ds \<Longrightarrow> ascii_isdigit c" "r = [] \<or> \<not> ascii_isdigit (hd r)"
    and "digits_value 0 ds < 2 ^ 31"
  shows "sscanf (ScanInt # f) (ds @ r) = SInt (int (digits_value 0 ds)) # sscanf f r"
    "dropWhile c_isspace (ds @ r) = ds @ r"
proof -
  obtain c cs where ds: "ds = c # cs" using assms(1) by (cases ds) auto
  have c: "ascii_isdigit c" "\<not> c_isspace c" "c \<noteq> CHR ''-''" "c \<noteq> CHR ''+''"
    using assms(2) ds digit_not_special [of c] by auto
  show skip: "dropWhile c_isspace (ds @ r) = ds @ r" using c ds by simp
  have val: "digits_value 0 (ds @ r) = digits_value 0 ds"
    by (rule digits_value_stop [OF assms(2,3)])
  have dr: "dropWhile ascii_isdigit (ds @ r) = r"
    using assms(2,3) by (subst dropWhile_append2) (auto simp: dropWhile_eq_self_iff)
  have any: "strtoll_any (ds @ r)" "after_int (ds @ r) = r"
    using c ds skip dr by (simp_all add: strtoll_any_def after_int_def)
  have "strtol10 (ds @ r) = int (digits_value 0 ds)"
    using c skip val assms(4) unfolding strtol10_def skip Let_def
    by (simp add: ds clamp_long_def)
  then have "atoi (ds @ r) = int (digits_value 0 ds)"
    unfolding atoi_def using narrow_int [of "int (digits_value 0 ds)"] assms(4) by (simp only:) simp
  then show "sscanf (ScanInt # f) (ds @ r) = SInt (int (digits_value 0 ds)) # sscanf f r"
    using any by (simp add: sscanf.simps(2))
qed

lemma scan_pad2:
  assumes "n < 100" "r = [] \<or> \<not> ascii_isdigit (hd r)"
  shows "sscanf (ScanInt # f) (pad2 n @ r) = SInt (int n) # sscanf f r"
    "dropWhile c_isspace (pad2 n @ r) = pad2 n @ r"
  using scan_digits(1) [of "pad2 n" r f] scan_digits(2) [of "pad2 n" r] pad2_digits [OF assms(1)] pad2_value [OF assms(1)] assms
  by simp_all

lemma scan_pad4:
  assumes "n < 10000" "r = [] \<or> \<not> ascii_isdigit (hd r)"
  shows "sscanf (ScanInt # f) (pad4 n @ r) = SInt (int n) # sscanf f r"
    "dropWhile c_isspace (pad4 n @ r) = pad4 n @ r"
  using scan_digits(1) [of "pad4 n" r f] scan_digits(2) [of "pad4 n" r] pad4_digits [OF assms(1)] pad4_value [OF assms(1)] assms
  by simp_all

lemma scan_letter:
  "ascii_isalpha c \<Longrightarrow> sscanf (ScanInt # f) (c # r) = []"
  by (auto simp: sscanf.simps(2) strtoll_any_def ascii_class_defs split: if_splits)

lemma month_name:
  assumes "1 \<le> m" "m \<le> 12" "mon = month_names ! (m - 1)"
  shows "month_from_name mon = int m"
    "\<exists>a b c. mon = [a, b, c] \<and> ascii_isalpha a \<and> ascii_isalpha b \<and> ascii_isalpha c"
proof -
  have m: "m = 1 \<or> m = 2 \<or> m = 3 \<or> m = 4 \<or> m = 5 \<or> m = 6 \<or> m = 7 \<or> m = 8 \<or> m = 9 \<or> m = 10
      \<or> m = 11 \<or> m = 12" using assms(1,2) by arith
  have "list_all (\<lambda>k. month_from_name (month_names ! (k - 1)) = int k)
      [1, 2, 3, 4, 5, 6, 7, 8, 9, 10, 11, 12]" by code_simp
  then show "month_from_name mon = int m" using m assms(3) by auto
  have "list_all (\<lambda>n. case n of [a, b, c] \<Rightarrow> ascii_isalpha a \<and> ascii_isalpha b \<and> ascii_isalpha c
      | _ \<Rightarrow> False) month_names" by code_simp
  moreover have "mon \<in> set month_names"
    unfolding assms(3) by (rule nth_mem) (use assms(1,2) in \<open>simp add: month_names_def\<close>)
  ultimately have "case mon of [a, b, c] \<Rightarrow> ascii_isalpha a \<and> ascii_isalpha b \<and> ascii_isalpha c
      | _ \<Rightarrow> False" by (simp add: list_all_iff)
  then show "\<exists>a b c. mon = [a, b, c] \<and> ascii_isalpha a \<and> ascii_isalpha b \<and> ascii_isalpha c"
    by (auto split: list.splits)
qed

lemma alpha_plain: "ascii_isalpha c \<Longrightarrow> \<not> c_isspace c \<and> \<not> ascii_isdigit c \<and> c \<noteq> CHR '','' \<and> c \<noteq> SP
    \<and> c \<noteq> CHR ''-''"
  by (auto simp: ascii_class_defs)

lemma separators [simp]:
  "c_isspace SP" "\<not> c_isspace CHR '':''" "\<not> c_isspace CHR ''-''"
  "\<not> ascii_isdigit SP" "\<not> ascii_isdigit CHR '':''" "\<not> ascii_isdigit CHR ''-''"
  by (simp_all add: ascii_class_defs)

text \<open>The time of day, up to the end of the format.\<close>

lemma scan_time:
  assumes "hh < 24" "mm < 60" "ss \<le> 60" "r = [] \<or> \<not> ascii_isdigit (hd r)"
  shows "sscanf (ScanInt # ScanLit CHR '':'' # ScanInt # ScanLit CHR '':'' # ScanInt # f)
      (time_text hh mm ss @ r) = SInt (int hh) # SInt (int mm) # SInt (int ss) # sscanf f r"
    "dropWhile c_isspace (time_text hh mm ss @ r) = time_text hh mm ss @ r"
  using assms scan_pad2 [of hh] scan_pad2 [of mm] scan_pad2 [of ss]
  by (simp_all add: time_text_def)

lemma scan_fixdate:
  assumes "d < 100" "y < 10000" "hh < 24" "mm < 60" "ss \<le> 60"
    and mon: "mon = [a, b, c]" "ascii_isalpha a" "ascii_isalpha b" "ascii_isalpha c"
  shows "sscanf fixdate_format (pad2 d @ '' '' @ mon @ '' '' @ pad4 y @ '' '' @ time_text hh mm ss @ '' GMT'')
     = [SInt (int d), SWord mon, SInt (int y), SInt (int hh), SInt (int mm), SInt (int ss)]"
  using assms alpha_plain [OF mon(2)] alpha_plain [OF mon(3)] alpha_plain [OF mon(4)]
  by (simp add: fixdate_format_def scan_pad2 scan_pad4 scan_time)

lemma scan_rfc850:
  assumes "d < 100" "y < 100" "hh < 24" "mm < 60" "ss \<le> 60"
    and mon: "mon = [a, b, c]" "ascii_isalpha a" "ascii_isalpha b" "ascii_isalpha c"
  shows "sscanf fixdate_format (pad2 d @ ''-'' @ mon @ ''-'' @ pad2 y @ '' '' @ time_text hh mm ss @ '' GMT'')
     = [SInt (int d), SWord [CHR ''-'', a, b]]"
    "sscanf rfc850_format (pad2 d @ ''-'' @ mon @ ''-'' @ pad2 y @ '' '' @ time_text hh mm ss @ '' GMT'')
     = [SInt (int d), SChar CHR ''-'', SWord mon, SChar CHR ''-'', SInt (int y),
        SInt (int hh), SInt (int mm), SInt (int ss)]"
  using assms alpha_plain [OF mon(2)] alpha_plain [OF mon(3)] alpha_plain [OF mon(4)] scan_letter [OF mon(4)]
  by (simp_all add: fixdate_format_def rfc850_format_def scan_pad2 scan_time)

lemma two_digit_year:
  assumes "1970 \<le> y" "y \<le> 2069"
  shows "(if int (y mod 100) < 100
      then int (y mod 100) + (if int (y mod 100) < 70 then 2000 else 1900) else int (y mod 100)) = int y"
proof (cases "y < 2000")
  case True
  then have "y div 100 = 19" using assms(1) by (intro div_nat_eqI) simp_all
  then have "y mod 100 = y - 1900" using minus_mult_div_eq_mod [of y 100] by simp
  then show ?thesis using True assms(1) by simp
next
  case False
  then have "y div 100 = 20" using assms(2) by (intro div_nat_eqI) simp_all
  then have "y mod 100 = y - 2000" using minus_mult_div_eq_mod [of y 100] by simp
  then show ?thesis using False assms(2) by simp
qed

lemma pad2_no_space: "n < 100 \<Longrightarrow> dropWhile (\<lambda>c. c = SP) (pad2 n @ r) = pad2 n @ r"
proof -
  assume n: "n < 100"
  have "ascii_isdigit (hd (pad2 n))" by (rule pad2_digits [OF n]) simp
  then have "hd (pad2 n) \<noteq> SP" using separators(4) by metis
  then show ?thesis by (simp add: pad2_def)
qed

lemma no_comma:
  "n < 100 \<Longrightarrow> CHR '','' \<notin> set (pad2 n)" "k < 10000 \<Longrightarrow> CHR '','' \<notin> set (pad4 k)"
  "CHR '','' \<notin> set (dec_digits i)"
proof -
  have c: "\<not> ascii_isdigit CHR '',''" by (simp add: ascii_isdigit_def)
  show "n < 100 \<Longrightarrow> CHR '','' \<notin> set (pad2 n)" using pad2_digits c by blast
  show "k < 10000 \<Longrightarrow> CHR '','' \<notin> set (pad4 k)" using pad4_digits c by blast
  show "CHR '','' \<notin> set (dec_digits i)" by (rule dec_digits_not_in [OF c])
qed

lemma weekday_first:
  assumes wd: "wd \<noteq> []" "\<And>c. c \<in> set wd \<Longrightarrow> ascii_isalpha c"
    and mon: "mon = [a, b, c]" "ascii_isalpha a"
    and comma: "CHR '','' \<notin> set (wd @ '' '' @ mon @ r)"
    and no_iso: "iso8601 (wd @ '' '' @ mon @ r) = None"
  shows "parse_http_date iso8601 (Some (wd @ '' '' @ mon @ r)) = 0"
proof -
  let ?s = "wd @ '' '' @ mon @ r"
  obtain w ws where w: "wd = w # ws" "ascii_isalpha w" using wd by (cases wd) auto
  have tw: "takeWhile (\<lambda>c. \<not> c_isspace c) ?s = wd"
    using wd(2) alpha_plain by (subst takeWhile_append2) auto
  have sp: "\<not> c_isspace w" "w \<noteq> SP" using alpha_plain [OF w(2)] by auto
  have "sscanf (ScanInt # f) (dropWhile c_isspace (drop 3 wd @ '' '' @ mon @ r)) = []" for f
  proof (cases "drop 3 wd")
    case Nil
    then show ?thesis using mon alpha_plain [OF mon(2)] scan_letter [OF mon(2)] by simp
  next
    case (Cons x xs)
    then have "ascii_isalpha x" using wd(2) in_set_dropD [of x 3 wd] by simp
    then show ?thesis using Cons alpha_plain [of x] scan_letter [of x] by simp
  qed
  moreover have "drop (length (take 3 wd)) ?s = drop 3 wd @ '' '' @ mon @ r" by (cases "length wd \<le> 3") simp_all
  ultimately have "sscanf asctime_format ?s = [SWord (take 3 wd)]"
    using tw wd(1) sp w(1) by (simp add: asctime_format_def)
  moreover have "sscanf fixdate_format ?s = []" "sscanf rfc850_format ?s = []"
    using scan_letter [OF w(2)] w(1) by (simp_all add: fixdate_format_def rfc850_format_def)
  ultimately have "scan_http_date ?s = None" by (simp add: scan_http_date_def)
  moreover have "strchr ?s CHR '','' = None" using comma strchr_None_iff by blast
  moreover have "dropWhile (\<lambda>c. c = SP) ?s = ?s" using sp w(1) by simp
  ultimately show ?thesis using no_iso wd(1) by (simp add: parse_http_date_def del: append.simps append_Cons)
qed

text \<open>The date a server formats in either of the two formats with a comma is
  read as exactly its time, for every valid date from 1970 to 2069. The third
  format that HTTP allows, of \<open>asctime\<close>, is never read: the pattern of the code has no
  place for the weekday.\<close>

theorem http_date_formats:
  assumes date: "1970 \<le> y" "y \<le> 2069" "1 \<le> m" "m \<le> 12" "1 \<le> d" "int d \<le> days_in_month (int y) (int m)"
    and time: "hh < 24" "mm < 60" "ss < 60"
    and wd: "wd \<noteq> []" "\<And>c. c \<in> set wd \<Longrightarrow> ascii_isalpha c"
    and mon: "mon = month_names ! (m - 1)" and t: "t = time_text hh mm ss"
    and no_iso: "\<And>s. s \<in> {fixdate wd d mon y t, rfc850_date wd d mon y t, asctime_date wd d mon y t} \<Longrightarrow>
      iso8601 s = None"
  shows "parse_http_date iso8601 (Some (fixdate wd d mon y t))
       = utc_seconds (int y) (int m) (int d) (int hh) (int mm) (int ss)
    \<and> parse_http_date iso8601 (Some (rfc850_date wd d mon y t))
       = utc_seconds (int y) (int m) (int d) (int hh) (int mm) (int ss)
    \<and> parse_http_date iso8601 (Some (asctime_date wd d mon y t)) = 0"
proof -
  obtain a b c where abc: "mon = [a, b, c]" "ascii_isalpha a" "ascii_isalpha b" "ascii_isalpha c"
    using month_name(2) [OF date(3,4) mon] by blast
  have d: "d \<le> 31" using date(6) by (simp add: days_in_month_def split: if_splits)
  have valid: "g_date_time_new_utc (int y) (int m) (int d) (int hh) (int mm) (int ss)
      = Some (utc_seconds (int y) (int m) (int d) (int hh) (int mm) (int ss))"
    using date time by (simp add: g_date_time_new_utc_def)
  have wd_comma: "CHR '','' \<notin> set wd" using wd(2) alpha_plain by blast
  have fix_scan: "scan_http_date (pad2 d @ '' '' @ mon @ '' '' @ pad4 y @ '' '' @ t @ '' GMT'')
      = Some (int d, mon, int y, int hh, int mm, int ss)"
    unfolding scan_http_date_def t
    using scan_fixdate [OF _ _ time(1,2) _ abc, of d y ss] d date(2) time(3) by simp
  have rfc_scan: "scan_http_date (pad2 d @ ''-'' @ mon @ ''-'' @ pad2 (y mod 100) @ '' '' @ t @ '' GMT'')
      = Some (int d, mon, int y, int hh, int mm, int ss)"
    unfolding scan_http_date_def t
    using scan_rfc850 [OF _ _ time(1,2) _ abc, of d "y mod 100" ss] d time(3) two_digit_year [OF date(1,2)] by simp
  have fixd: "parse_http_date iso8601 (Some (fixdate wd d mon y t))
       = utc_seconds (int y) (int m) (int d) (int hh) (int mm) (int ss)"
    using no_iso [of "fixdate wd d mon y t"] wd_comma wd(1) fix_scan valid month_name(1) [OF date(3,4) mon]
      date d time
    by (simp add: parse_http_date_def fixdate_def pad2_no_space)
  have rfc: "parse_http_date iso8601 (Some (rfc850_date wd d mon y t))
       = utc_seconds (int y) (int m) (int d) (int hh) (int mm) (int ss)"
    using no_iso [of "rfc850_date wd d mon y t"] wd_comma wd(1) rfc_scan valid month_name(1) [OF date(3,4) mon]
      date d time
    by (simp add: parse_http_date_def rfc850_date_def pad2_no_space)
  have "parse_http_date iso8601 (Some (asctime_date wd d mon y t)) = 0"
    unfolding asctime_date_def t
  proof (rule weekday_first [OF wd abc(1,2)])
    show "CHR '','' \<notin> set (wd @ '' '' @ mon @ '' ''
        @ (if d < 10 then SP # dec_digits d else dec_digits d) @ '' '' @ time_text hh mm ss @ '' '' @ pad4 y)"
      using wd_comma abc alpha_plain [OF abc(2)] alpha_plain [OF abc(3)] alpha_plain [OF abc(4)] time date(2)
      by (auto simp: time_text_def no_comma)
    show "iso8601 (wd @ '' '' @ mon @ '' ''
        @ (if d < 10 then SP # dec_digits d else dec_digits d) @ '' '' @ time_text hh mm ss @ '' '' @ pad4 y) = None"
      by (rule no_iso) (simp add: asctime_date_def t)
  qed
  with fixd rfc show ?thesis by blast
qed

theorem http_date_formats_witness:
  "parse_http_date (\<lambda>s. None) (Some (fixdate ''Sun'' 6 ''Nov'' 1994 (time_text 8 49 37))) = 784111777
   \<and> fixdate ''Sun'' 6 ''Nov'' 1994 (time_text 8 49 37) = ''Sun, 06 Nov 1994 08:49:37 GMT''"
proof -
  have "list_all ascii_isalpha ''Sun''" "utc_seconds 1994 11 6 8 49 37 = 784111777"
    "''Nov'' = month_names ! (11 - 1)" "6 \<le> days_in_month 1994 11"
    "fixdate ''Sun'' 6 ''Nov'' 1994 (time_text 8 49 37) = ''Sun, 06 Nov 1994 08:49:37 GMT''"
    by code_simp+
  then show ?thesis
    using http_date_formats [of 1994 11 6 8 49 37 "''Sun''" "''Nov''" "time_text 8 49 37" "\<lambda>s. None"]
    by (auto simp: list_all_iff)
qed

end
