(* ===== verification/Http_Cache.thy ===== *)
theory Http_Cache
  imports Net_Url Http_Date
begin

text \<open>
  The HTTP cache (\<open>src/src/cache.c\<close>): keys and the \<open>Vary\<close> selection, freshness, and
  the store itself, a table of rows in SQLite with the bodies in files.

  The table is the list of its rows in insertion order; its statements (\<open>INSERT ...
  ON CONFLICT\<close>, \<open>UPDATE\<close>, \<open>DELETE\<close> and the window sum of the eviction) are
  functions on that list. The files are a map from paths below the cache
  directory to contents. SHA-256 in hexadecimal is the parameter \<open>sha\<close>; whether the
  insertion and the writing of a file succeed is an argument. \<open>cap\<close> is
  \<open>cache_cap_bytes ()\<close> and \<open>now\<close> the clock in seconds at the call.
\<close>

section \<open>State\<close>

record cache_row =
  r_key :: string
  r_base :: string
  r_url :: string
  r_final :: string
  r_status :: int
  r_ctype :: cptr
  r_cors :: cptr
  r_etag :: cptr
  r_lastmod :: cptr
  r_vary :: cptr
  r_expires :: int
  r_fetched :: int
  r_used :: int
  r_size :: int

record http_cache =
  c_rows :: "cache_row list"
  c_files :: "string \<Rightarrow> cptr"
  c_dir :: bool
  c_db :: bool
  c_disabled :: bool

record ns_cache_entry =
  ce_final :: string
  ce_status :: int
  ce_ctype :: cptr
  ce_cors :: cptr
  ce_etag :: cptr
  ce_lastmod :: cptr
  ce_expires :: int
  ce_fetched :: int
  ce_body :: string

definition ns_cache_enabled :: "http_cache \<Rightarrow> bool" where
  "ns_cache_enabled c = (\<not> c_disabled c \<and> c_db c)"

definition cache_cap_bytes :: "int option \<Rightarrow> nat" where
  "cache_cap_bytes cap_mb =
     (let mb = (case cap_mb of None \<Rightarrow> 256 | Some m \<Rightarrow> m)
      in nat (if mb \<le> 0 then 256 else mb) * 1024 * 1024)"

section \<open>Keys\<close>

definition base_key_for_url :: "(string \<Rightarrow> string) \<Rightarrow> string \<Rightarrow> cptr \<Rightarrow> string" where
  "base_key_for_url sha url part =
     sha (url @ (case part of None \<Rightarrow> [] | Some p \<Rightarrow> if p = [] then [] else US # p))"

definition body_path_for_key :: "string \<Rightarrow> string" where
  "body_path_for_key key = ''bodies/'' @ take 2 key @ ''/'' @ drop 2 key"

fun request_header_value :: "string list \<Rightarrow> string \<Rightarrow> cptr" where
  "request_header_value [] name = None"
| "request_header_value (h # hs) name =
     (if \<not> strncaseeq (length name) h name then request_header_value hs name
      else (case drop (length name) h of
              [] \<Rightarrow> request_header_value hs name
            | c # cs \<Rightarrow> if c \<noteq> CHR '':'' then request_header_value hs name
                       else Some (dropWhile is_blank cs)))"

definition vary_names :: "string list" where
  "vary_names = [''accept'', ''accept-language'', ''user-agent'', ''origin'']"

fun selector_of :: "string list \<Rightarrow> string list \<Rightarrow> string option" where
  "selector_of hs [] = Some []"
| "selector_of hs (t # ts) =
     (let name = strdown (strstrip t)
      in if name = [] \<or> name = ''accept-encoding'' then selector_of hs ts
         else if name \<notin> set vary_names then None
         else (case request_header_value hs name of None \<Rightarrow> None
               | Some v \<Rightarrow> map_option (\<lambda>s. name @ '':'' @ v @ [LF] @ s) (selector_of hs ts)))"

definition vary_selector :: "cptr \<Rightarrow> string list \<Rightarrow> string option" where
  "vary_selector vary hs =
     (case vary of None \<Rightarrow> Some []
      | Some v \<Rightarrow> if v = [] then Some [] else selector_of hs (strsplit CHR '','' v))"

definition row_key_for :: "(string \<Rightarrow> string) \<Rightarrow> string \<Rightarrow> string \<Rightarrow> string" where
  "row_key_for sha base sel = (if sel = [] then base else sha (base @ US # sel))"

text \<open>The first row of the base key whose \<open>Vary\<close> selects it for these headers.\<close>

fun find_row_key :: "(string \<Rightarrow> string) \<Rightarrow> cache_row list \<Rightarrow> string \<Rightarrow> string list \<Rightarrow> cptr" where
  "find_row_key sha [] base hs = None"
| "find_row_key sha (r # rs) base hs =
     (if r_base r \<noteq> base then find_row_key sha rs base hs
      else (case vary_selector (r_vary r) hs of
              None \<Rightarrow> find_row_key sha rs base hs
            | Some sel \<Rightarrow> if r_key r = row_key_for sha base sel then Some (r_key r)
                          else find_row_key sha rs base hs))"

section \<open>Freshness\<close>

definition freshness_from_headers ::
    "(string \<Rightarrow> int option) \<Rightarrow> int \<Rightarrow> cptr \<Rightarrow> cptr \<Rightarrow> int" where
  "freshness_from_headers iso8601 now cc ex =
     (let by_expires = (case ex of None \<Rightarrow> 0
            | Some e \<Rightarrow> let t = parse_http_date iso8601 (Some e) in if t > 0 then t else 0)
      in case cc of None \<Rightarrow> by_expires
         | Some s \<Rightarrow>
             if str_contains s ''no-store'' then -1
             else if str_contains s ''no-cache'' then 0
             else
               (case (case strstr s ''max-age'' of None \<Rightarrow> None | Some p \<Rightarrow> strchr p CHR ''='') of
                  Some p \<Rightarrow>
                    let ma = strtol10 (tl p);
                        ma = (if ma < 0 then 0 else ma);
                        ma = (if ma > 86400 * 3650 then 86400 * 3650 else ma)
                    in now + ma
                | None \<Rightarrow> if str_contains s ''immutable'' then now + 86400 * 30 else by_expires))"

definition is_cacheable_status :: "int \<Rightarrow> bool" where
  "is_cacheable_status s = (s = 200 \<or> s = 203 \<or> s = 301 \<or> s = 410)"

definition ns_cache_is_fresh :: "int \<Rightarrow> ns_cache_entry option \<Rightarrow> bool" where
  "ns_cache_is_fresh now e = (case e of None \<Rightarrow> False | Some x \<Rightarrow> ce_expires x > now)"

definition url_should_cache :: "cptr \<Rightarrow> bool" where
  "url_should_cache url =
     (case url of None \<Rightarrow> False
      | Some u \<Rightarrow> ns_url_is_http_or_https (Some u)
          \<and> list_all (\<lambda>c. \<not> ((code c :: nat) < 0x20 \<or> (code c :: nat) = 0x7F)) u)"

section \<open>Operations on the store\<close>

definition delete_key :: "string \<Rightarrow> http_cache \<Rightarrow> http_cache" where
  "delete_key key c =
     (let c1 = c \<lparr> c_files := (c_files c)(body_path_for_key key := None) \<rparr>
      in if \<not> c_db c then c1
         else c1 \<lparr> c_rows := filter (\<lambda>r. r_key r \<noteq> key) (c_rows c) \<rparr>)"

definition touch_key :: "int \<Rightarrow> string \<Rightarrow> http_cache \<Rightarrow> http_cache" where
  "touch_key now key c =
     c \<lparr> c_rows := map (\<lambda>r. if r_key r = key then r \<lparr> r_used := now \<rparr> else r) (c_rows c) \<rparr>"

definition evict_by_select :: "string list \<Rightarrow> http_cache \<Rightarrow> http_cache" where
  "evict_by_select keys c = (if \<not> c_db c then c else fold delete_key keys c)"

definition ns_cache_max_age_seconds :: int where
  "ns_cache_max_age_seconds = 30 * 24 * 60 * 60"

definition evict_aged_out :: "int \<Rightarrow> http_cache \<Rightarrow> http_cache" where
  "evict_aged_out now c =
     evict_by_select (map r_key
       (filter (\<lambda>r. r_used r < now - ns_cache_max_age_seconds) (c_rows c))) c"

text \<open>The order \<open>last_used DESC, key DESC\<close> and the window sum over it.\<close>

definition row_before :: "cache_row \<Rightarrow> cache_row \<Rightarrow> bool" where
  "row_before q r = (r_used q > r_used r \<or> (r_used q = r_used r \<and> bytes_le (r_key r) (r_key q)))"

definition running_size :: "cache_row list \<Rightarrow> cache_row \<Rightarrow> int" where
  "running_size rows r = (\<Sum>q\<leftarrow>filter (\<lambda>q. row_before q r) rows. r_size q)"

definition evict_to_cap :: "nat \<Rightarrow> int \<Rightarrow> http_cache \<Rightarrow> http_cache" where
  "evict_to_cap cap now c =
     (if \<not> c_db c then c
      else
        let c1 = evict_aged_out now c
        in evict_by_select (map r_key
             (filter (\<lambda>r. running_size (c_rows c1) r > int cap) (c_rows c1))) c1)"

definition ns_cache_get ::
    "(string \<Rightarrow> string) \<Rightarrow> nat \<Rightarrow> int \<Rightarrow> cptr \<Rightarrow> cptr \<Rightarrow> string list \<Rightarrow> http_cache
     \<Rightarrow> ns_cache_entry option \<times> http_cache" where
  "ns_cache_get sha cap now url part hs c =
     (case url of None \<Rightarrow> (None, c)
      | Some u \<Rightarrow>
        if \<not> ns_cache_enabled c then (None, c)
        else
          (case find_row_key sha (c_rows c) (base_key_for_url sha u part) hs of
             None \<Rightarrow> (None, c)
           | Some key \<Rightarrow>
             (case find (\<lambda>r. r_key r = key) (c_rows c) of
                None \<Rightarrow> (None, c)
              | Some r \<Rightarrow>
                if \<not> is_cacheable_status (r_status r) then (None, delete_key key c)
                else if r_size r < 0 \<or> r_size r > int cap then (None, c)
                else
                  (case c_files c (body_path_for_key key) of
                     None \<Rightarrow> (None, delete_key key c)
                   | Some b \<Rightarrow>
                     if length b > cap \<or> int (length b) > 4294967295 then (None, delete_key key c)
                     else
                       (Some \<lparr> ce_final = r_final r, ce_status = r_status r, ce_ctype = r_ctype r,
                          ce_cors = r_cors r, ce_etag = r_etag r, ce_lastmod = r_lastmod r,
                          ce_expires = r_expires r, ce_fetched = r_fetched r, ce_body = b \<rparr>,
                        touch_key now key c)))))"

text \<open>The arguments of \<open>ns_cache_put\<close>; the body of a null pointer is empty.\<close>

record put_req =
  pq_url :: cptr
  pq_part :: cptr
  pq_final :: cptr
  pq_status :: int
  pq_ctype :: cptr
  pq_cors :: cptr
  pq_etag :: cptr
  pq_lastmod :: cptr
  pq_cc :: cptr
  pq_expires :: cptr
  pq_vary :: cptr
  pq_headers :: "string list"
  pq_body :: string

definition put_row :: "string \<Rightarrow> string \<Rightarrow> string \<Rightarrow> int \<Rightarrow> int \<Rightarrow> put_req \<Rightarrow> cache_row" where
  "put_row key base url expires now p =
     \<lparr> r_key = key, r_base = base, r_url = url,
       r_final = (case pq_final p of None \<Rightarrow> url | Some f \<Rightarrow> f), r_status = pq_status p,
       r_ctype = pq_ctype p, r_cors = pq_cors p, r_etag = pq_etag p, r_lastmod = pq_lastmod p,
       r_vary = pq_vary p, r_expires = expires, r_fetched = now, r_used = now,
       r_size = int (length (pq_body p)) \<rparr>"

text \<open>\<open>INSERT ... ON CONFLICT(key) DO UPDATE\<close>, which leaves \<open>base_key\<close> as it was.\<close>

definition upsert_row :: "cache_row \<Rightarrow> cache_row list \<Rightarrow> cache_row list" where
  "upsert_row r rows =
     (if list_ex (\<lambda>q. r_key q = r_key r) rows
      then map (\<lambda>q. if r_key q = r_key r then r \<lparr> r_base := r_base q \<rparr> else q) rows
      else rows @ [r])"

definition cache_control_forbids :: "cptr \<Rightarrow> bool" where
  "cache_control_forbids cc =
     (case cc of None \<Rightarrow> False
      | Some s \<Rightarrow> str_contains s ''no-store'' \<or> str_contains s ''private'')"

definition ns_cache_put ::
    "(string \<Rightarrow> string) \<Rightarrow> (string \<Rightarrow> int option) \<Rightarrow> nat \<Rightarrow> int \<Rightarrow> bool \<Rightarrow> bool \<Rightarrow> put_req
     \<Rightarrow> http_cache \<Rightarrow> http_cache" where
  "ns_cache_put sha iso8601 cap now insert_ok write_ok p c =
     (case pq_url p of None \<Rightarrow> c
      | Some url \<Rightarrow>
        if \<not> ns_cache_enabled c \<or> \<not> url_should_cache (Some url) then c
        else if cache_control_forbids (pq_cc p) then c
        else if \<not> is_cacheable_status (pq_status p) then c
        else if int (length (pq_body p)) > 2147483647 \<or> length (pq_body p) > cap then c
        else
          let expires = freshness_from_headers iso8601 now (pq_cc p) (pq_expires p)
          in if expires < 0 then c
             else (case vary_selector (pq_vary p) (pq_headers p) of
                     None \<Rightarrow> c
                   | Some sel \<Rightarrow>
                     let base = base_key_for_url sha url (pq_part p);
                         key = row_key_for sha base sel
                     in if \<not> insert_ok then c
                        else
                          let c1 = c \<lparr> c_rows := upsert_row (put_row key base url expires now p) (c_rows c) \<rparr>
                          in if \<not> write_ok then delete_key key c1
                             else evict_to_cap cap now
                               (c1 \<lparr> c_files := (c_files c)(body_path_for_key key \<mapsto> pq_body p) \<rparr>)))"

definition ns_cache_promote_304 ::
    "(string \<Rightarrow> string) \<Rightarrow> (string \<Rightarrow> int option) \<Rightarrow> int \<Rightarrow> cptr \<Rightarrow> cptr \<Rightarrow> string list \<Rightarrow> cptr \<Rightarrow> cptr
     \<Rightarrow> http_cache \<Rightarrow> http_cache" where
  "ns_cache_promote_304 sha iso8601 now url part hs cc ex c =
     (case url of None \<Rightarrow> c
      | Some u \<Rightarrow>
        if \<not> ns_cache_enabled c \<or> \<not> url_should_cache (Some u) then c
        else
          (case find_row_key sha (c_rows c) (base_key_for_url sha u part) hs of
             None \<Rightarrow> c
           | Some key \<Rightarrow>
             (case find (\<lambda>r. r_key r = key) (c_rows c) of
                None \<Rightarrow> c
              | Some r \<Rightarrow>
                let e = freshness_from_headers iso8601 now cc ex;
                    expires = (if e < 0 then 0 else e)
                in if expires \<le> r_expires r then c
                   else c \<lparr> c_rows := map (\<lambda>q. if r_key q = key
                            then q \<lparr> r_expires := expires, r_fetched := now, r_used := now \<rparr>
                            else q) (c_rows c) \<rparr>)))"

definition ns_cache_clear :: "http_cache \<Rightarrow> http_cache" where
  "ns_cache_clear c =
     (let c1 = (if c_db c then c \<lparr> c_rows := [] \<rparr> else c)
      in if c_dir c then c1 \<lparr> c_files := Map.empty \<rparr> else c1)"

definition ns_cache_shutdown :: "http_cache \<Rightarrow> http_cache" where
  "ns_cache_shutdown c = c \<lparr> c_db := False, c_dir := False \<rparr>"

text \<open>Opening the cache an earlier run left: \<open>legacy\<close> says that the table has no
  column \<open>body_size\<close>, \<open>version\<close> is its schema version, and \<open>open_ok\<close> and \<open>schema_ok\<close>
  tell whether the database opens and accepts its first pragmas.\<close>

definition cache_open :: "bool \<Rightarrow> bool \<Rightarrow> bool \<Rightarrow> int \<Rightarrow> nat \<Rightarrow> int \<Rightarrow> http_cache \<Rightarrow> http_cache" where
  "cache_open open_ok legacy schema_ok version cap now c =
     (let c0 = c \<lparr> c_dir := True \<rparr>
      in if \<not> open_ok then c0 \<lparr> c_db := False, c_disabled := True \<rparr>
         else
           let c1 = (if legacy then c0 \<lparr> c_rows := [] \<rparr> else c0)
           in if \<not> schema_ok then c1 \<lparr> c_db := False, c_disabled := True \<rparr>
              else
                let c2 = (if version \<noteq> 2 then c1 \<lparr> c_rows := [], c_files := Map.empty \<rparr> else c1)
                in evict_to_cap cap now (c2 \<lparr> c_db := True \<rparr>))"

definition ns_cache_init ::
    "(bool \<times> bool) option \<Rightarrow> bool \<Rightarrow> bool \<Rightarrow> bool \<Rightarrow> int \<Rightarrow> nat \<Rightarrow> int \<Rightarrow> http_cache \<Rightarrow> http_cache" where
  "ns_cache_init cfg open_ok legacy schema_ok version cap now c =
     (case cfg of
        Some (enabled, private) \<Rightarrow>
          if \<not> enabled \<or> private then c \<lparr> c_disabled := True \<rparr>
          else cache_open open_ok legacy schema_ok version cap now c
      | None \<Rightarrow> cache_open open_ok legacy schema_ok version cap now c)"

end
