(* ===== verification/Cache_Store.thy ===== *)
theory Cache_Store
  imports Http_Cache
begin

text \<open>
  What the HTTP cache of \<open>Http_Cache\<close> keeps true: rows and files agree and the size
  limit holds after every run of calls, and the store refines a map from address,
  partition and selected headers to the last response put.
\<close>

section \<open>Rows and files agree\<close>

definition row_backed :: "(string \<Rightarrow> cptr) \<Rightarrow> cache_row \<Rightarrow> bool" where
  "row_backed files r =
     (case files (body_path_for_key (r_key r)) of None \<Rightarrow> False
      | Some b \<Rightarrow> r_size r = int (length b))"

definition store_consistent :: "http_cache \<Rightarrow> bool" where
  "store_consistent c \<longleftrightarrow>
     c_db c \<and> distinct (map r_key (c_rows c))
     \<and> (\<forall>r\<in>set (c_rows c). 2 \<le> length (r_key r) \<and> row_backed (c_files c) r)
     \<and> (\<forall>f. c_files c f \<noteq> None \<longrightarrow> f \<in> body_path_for_key ` r_key ` set (c_rows c))"

lemma body_path_inject:
  "2 \<le> length k \<Longrightarrow> 2 \<le> length k' \<Longrightarrow> body_path_for_key k = body_path_for_key k' \<longleftrightarrow> k = k'"
proof
  assume l: "2 \<le> length k" "2 \<le> length k'" and "body_path_for_key k = body_path_for_key k'"
  then have "take 2 k @ ''/'' @ drop 2 k = take 2 k' @ ''/'' @ drop 2 k'"
    by (simp add: body_path_for_key_def)
  then have "take 2 k = take 2 k'" "drop 2 k = drop 2 k'"
    using append_eq_append_conv [of "take 2 k" "take 2 k'"] l by simp_all
  then show "k = k'" by (metis append_take_drop_id)
qed simp

lemma delete_key_fields [simp]:
  "c_db (delete_key k c) = c_db c" "c_dir (delete_key k c) = c_dir c"
  "c_disabled (delete_key k c) = c_disabled c"
  "c_db c \<Longrightarrow> c_rows (delete_key k c) = filter (\<lambda>r. r_key r \<noteq> k) (c_rows c)"
  "c_files (delete_key k c) = (c_files c)(body_path_for_key k := None)"
  by (simp_all add: delete_key_def Let_def)

lemma fold_delete_fields:
  "c_db (fold delete_key ks c) = c_db c" "c_dir (fold delete_key ks c) = c_dir c"
  "c_disabled (fold delete_key ks c) = c_disabled c"
  "c_db c \<Longrightarrow> c_rows (fold delete_key ks c) = filter (\<lambda>r. r_key r \<notin> set ks) (c_rows c)"
  "c_files (fold delete_key ks c) f =
     (if f \<in> body_path_for_key ` set ks then None else c_files c f)"
  by (induction ks arbitrary: c) (auto simp: conj_commute)

lemma store_key_length: "store_consistent c \<Longrightarrow> r \<in> set (c_rows c) \<Longrightarrow> 2 \<le> length (r_key r)"
  unfolding store_consistent_def by blast

lemma delete_consistent:
  assumes "store_consistent c" "2 \<le> length k"
  shows "store_consistent (delete_key k c)"
proof -
  have db: "c_db c" using assms(1) by (simp add: store_consistent_def)
  have "row_backed (c_files (delete_key k c)) r" if "r \<in> set (c_rows c)" "r_key r \<noteq> k" for r
    using assms that body_path_inject [of "r_key r" k] by (auto simp: store_consistent_def row_backed_def)
  moreover have "f \<in> body_path_for_key ` r_key ` {r \<in> set (c_rows c). r_key r \<noteq> k}"
    if "f \<noteq> body_path_for_key k" "c_files c f \<noteq> None" for f
  proof -
    obtain r where "r \<in> set (c_rows c)" "f = body_path_for_key (r_key r)"
      using assms(1) \<open>c_files c f \<noteq> None\<close> unfolding store_consistent_def by blast
    with \<open>f \<noteq> body_path_for_key k\<close> show ?thesis by auto
  qed
  ultimately show ?thesis
    using assms db unfolding store_consistent_def
    by (simp add: distinct_map_filter)
qed

lemma fold_delete_consistent:
  "store_consistent c \<Longrightarrow> (\<And>k. k \<in> set ks \<Longrightarrow> 2 \<le> length k) \<Longrightarrow> store_consistent (fold delete_key ks c)"
  by (induction ks arbitrary: c) (simp_all add: delete_consistent)

lemma select_consistent:
  assumes "store_consistent c" "set ks \<subseteq> r_key ` set (c_rows c)"
  shows "store_consistent (evict_by_select ks c)"
  using assms store_key_length [OF assms(1)]
  by (auto simp: evict_by_select_def intro!: fold_delete_consistent)

lemma evict_consistent:
  assumes "store_consistent c"
  shows "store_consistent (evict_to_cap cap now c)"
proof -
  have "store_consistent (evict_aged_out now c)"
    unfolding evict_aged_out_def by (rule select_consistent [OF assms]) auto
  then show ?thesis
    using assms unfolding evict_to_cap_def Let_def by (auto intro!: select_consistent)
qed

text \<open>A step that changes rows but not their keys and sizes.\<close>

lemma update_consistent:
  assumes c: "store_consistent c" and f: "\<And>r. r_key (f r) = r_key r" "\<And>r. r_size (f r) = r_size r"
  shows "store_consistent (c \<lparr> c_rows := map f (c_rows c) \<rparr>)"
proof -
  have m: "map r_key (map f rs) = map r_key rs" for rs
    using f(1) by (induction rs) simp_all
  have "r_key ` f ` S = r_key ` S" for S
    using f(1) by (auto simp: image_iff)
  moreover have "row_backed fs (f r) = row_backed fs r" for fs r
    by (simp add: row_backed_def f split: option.split)
  ultimately show ?thesis
    using c m [of "c_rows c"] unfolding store_consistent_def by (simp add: f(1) del: map_map)
qed

lemma upsert_map_key:
  "map r_key (upsert_row r rows)
   = map r_key rows @ (if list_ex (\<lambda>q. r_key q = r_key r) rows then [] else [r_key r])"
proof -
  have "map r_key (map (\<lambda>q. if r_key q = r_key r then r \<lparr> r_base := r_base q \<rparr> else q) qs) = map r_key qs" for qs
    by (induction qs) simp_all
  then show ?thesis by (simp add: upsert_row_def del: map_map)
qed

lemma upsert_keys: "r_key ` set (upsert_row r rows) = insert (r_key r) (r_key ` set rows)"
proof -
  have "set (map r_key (upsert_row r rows)) = insert (r_key r) (set (map r_key rows))"
    unfolding upsert_map_key by (auto simp: list_ex_iff intro: rev_image_eqI)
  then show ?thesis by simp
qed

lemma upsert_distinct:
  "distinct (map r_key rows) \<Longrightarrow> distinct (map r_key (upsert_row r rows))"
  unfolding upsert_map_key by (auto simp: list_ex_iff)

lemma upsert_member:
  assumes "q \<in> set (upsert_row r rows)"
  shows "(\<exists>b. q = r \<lparr> r_base := b \<rparr> \<and> (b = r_base r \<or> (\<exists>q0\<in>set rows. r_key q0 = r_key r \<and> b = r_base q0)))
    \<or> q \<in> set rows \<and> r_key q \<noteq> r_key r"
proof (cases "list_ex (\<lambda>q. r_key q = r_key r) rows")
  case True
  with assms show ?thesis by (auto simp: upsert_row_def)
next
  case False
  have "r = r \<lparr> r_base := r_base r \<rparr>" by simp
  with False assms show ?thesis by (auto simp: upsert_row_def list_ex_iff)
qed

lemma write_consistent:
  assumes "store_consistent c" "2 \<le> length (r_key r)" "r_size r = int (length b)"
  shows "store_consistent (c \<lparr> c_rows := upsert_row r (c_rows c),
      c_files := (c_files c)(body_path_for_key (r_key r) \<mapsto> b) \<rparr>)"
proof -
  let ?fs = "(c_files c)(body_path_for_key (r_key r) \<mapsto> b)"
  have rows: "2 \<le> length (r_key q) \<and> row_backed ?fs q" if "q \<in> set (upsert_row r (c_rows c))" for q
    using upsert_member [OF that] assms body_path_inject [of "r_key q" "r_key r"]
    by (auto simp: store_consistent_def row_backed_def)
  have "f \<in> body_path_for_key ` r_key ` set (upsert_row r (c_rows c))" if "?fs f \<noteq> None" for f
    using that assms(1) unfolding upsert_keys by (auto simp: store_consistent_def split: if_splits)
  then show ?thesis
    using assms(1) rows upsert_distinct [of "c_rows c" r] by (simp add: store_consistent_def image_image)
qed

lemma failed_write:
  assumes "store_consistent c" "2 \<le> length (r_key r)"
  shows "delete_key (r_key r) (c \<lparr> c_rows := upsert_row r (c_rows c) \<rparr>) = delete_key (r_key r) c"
proof -
  have "filter (\<lambda>q. r_key q \<noteq> r_key r) (upsert_row r rows) = filter (\<lambda>q. r_key q \<noteq> r_key r) rows" for rows
  proof -
    have "filter (\<lambda>q. r_key q \<noteq> r_key r)
        (map (\<lambda>q. if r_key q = r_key r then r \<lparr> r_base := r_base q \<rparr> else q) qs)
      = filter (\<lambda>q. r_key q \<noteq> r_key r) qs" for qs
      by (induction qs) simp_all
    then show ?thesis by (simp add: upsert_row_def)
  qed
  then show ?thesis using assms(1) by (simp add: delete_key_def store_consistent_def)
qed

section \<open>Eviction\<close>

lemma evict_aged_rows:
  "c_db c \<Longrightarrow> distinct (map r_key (c_rows c)) \<Longrightarrow>
   c_rows (evict_aged_out now c) = filter (\<lambda>r. r_used r \<ge> now - ns_cache_max_age_seconds) (c_rows c)"
  by (auto simp: evict_aged_out_def evict_by_select_def fold_delete_fields distinct_map inj_on_def
      intro!: filter_cong)

lemma evict_db: "c_db (evict_aged_out now c) = c_db c" "c_db (evict_to_cap cap now c) = c_db c"
  "c_disabled (evict_to_cap cap now c) = c_disabled c" "c_dir (evict_to_cap cap now c) = c_dir c"
  by (simp_all add: evict_to_cap_def evict_aged_out_def evict_by_select_def fold_delete_fields Let_def)

lemma evict_rows:
  fixes now :: int
  assumes "c_db c" "distinct (map r_key (c_rows c))"
  defines "rows \<equiv> filter (\<lambda>r. r_used r \<ge> now - ns_cache_max_age_seconds) (c_rows c)"
  shows "c_rows (evict_to_cap cap now c) = filter (\<lambda>r. running_size rows r \<le> int cap) rows"
proof -
  let ?c1 = "evict_aged_out now c"
  have r1: "c_rows ?c1 = rows" "c_db ?c1"
    unfolding rows_def using evict_aged_rows [OF assms(1,2)] assms(1) by (simp_all add: evict_db)
  have "distinct (map r_key rows)" using assms(2) by (simp add: rows_def distinct_map_filter)
  then have inj: "inj_on r_key (set rows)" by (simp add: distinct_map)
  have "c_rows (evict_to_cap cap now c)
      = filter (\<lambda>r. r_key r \<notin> r_key ` set (filter (\<lambda>r. running_size rows r > int cap) rows)) rows"
    using assms(1) r1 by (simp add: evict_to_cap_def Let_def evict_by_select_def fold_delete_fields)
  also have "\<dots> = filter (\<lambda>r. running_size rows r \<le> int cap) rows"
    using inj by (intro filter_cong) (auto simp: inj_on_def)
  finally show ?thesis .
qed

lemma bytes_le_refl: "bytes_le a a"
  by (induction a) simp_all

lemma bytes_le_total: "bytes_le a b \<or> bytes_le b a"
  by (induction a b rule: bytes_le.induct) (auto simp: not_less_iff_gr_or_eq)

lemma bytes_le_trans: "bytes_le a b \<Longrightarrow> bytes_le b c \<Longrightarrow> bytes_le a c"
proof (induction a b arbitrary: c rule: bytes_le.induct)
  case (3 x xs y ys)
  show ?case using 3 by (cases c) (auto split: if_splits)
qed auto

lemma row_before_total: "row_before q r \<or> row_before r q"
  unfolding row_before_def using bytes_le_total by auto

lemma row_before_trans: "row_before p q \<Longrightarrow> row_before q r \<Longrightarrow> row_before p r"
  unfolding row_before_def using bytes_le_trans by auto

lemma sum_filter_le:
  fixes f :: "'a \<Rightarrow> int"
  shows "(\<And>r. r \<in> set rs \<Longrightarrow> 0 \<le> f r) \<Longrightarrow>
    (\<Sum>r\<leftarrow>filter Q (filter P rs). f r) \<le> (\<Sum>r\<leftarrow>filter Q rs. f r)"
  by (induction rs) (auto intro: add_increasing)

text \<open>The rows a window sum keeps are within its limit.\<close>

lemma window_sum_le:
  assumes "\<And>r. r \<in> set rows \<Longrightarrow> 0 \<le> r_size r" "0 \<le> cap"
  shows "(\<Sum>r\<leftarrow>filter (\<lambda>r. running_size rows r \<le> cap) rows. r_size r) \<le> cap"
proof (cases "filter (\<lambda>r. running_size rows r \<le> cap) rows = []")
  case False
  let ?kept = "filter (\<lambda>r. running_size rows r \<le> cap) rows"
  have "\<exists>m\<in>set ks. \<forall>q\<in>set ks. row_before q m" if "ks \<noteq> []" for ks
    using that
  proof (induction ks)
    case (Cons k ks)
    show ?case
    proof (cases "ks = []")
      case True
      then show ?thesis by (simp add: row_before_def bytes_le_refl)
    next
      case False
      with Cons.IH obtain m where m: "m \<in> set ks" "\<forall>q\<in>set ks. row_before q m" by blast
      then show ?thesis using row_before_total [of k m] row_before_trans
        by (metis list.set_intros(1,2) row_before_total set_ConsD)
    qed
  qed simp
  from this [OF False] obtain m where m: "m \<in> set ?kept" "\<forall>q\<in>set ?kept. row_before q m" by blast
  have "(\<Sum>r\<leftarrow>?kept. r_size r) = (\<Sum>r\<leftarrow>filter (\<lambda>q. row_before q m) ?kept. r_size r)"
    using filter_True [of ?kept "\<lambda>q. row_before q m"] m(2) by (simp only:)
  also have "\<dots> \<le> (\<Sum>r\<leftarrow>filter (\<lambda>q. row_before q m) rows. r_size r)"
    by (rule sum_filter_le [OF assms(1)])
  also have "\<dots> \<le> cap" using m(1) by (simp add: running_size_def)
  finally show ?thesis .
qed (simp add: assms(2))

lemma running_size_mono:
  assumes "\<And>r. r \<in> set rows \<Longrightarrow> 0 \<le> r_size r" "row_before q r"
  shows "running_size rows q \<le> running_size rows r"
proof -
  have "filter (\<lambda>x. row_before x q) rows = filter (\<lambda>x. row_before x q) (filter (\<lambda>x. row_before x r) rows)"
    using row_before_trans [OF _ assms(2)] by (auto intro!: filter_cong)
  then show ?thesis unfolding running_size_def
    using sum_filter_le [of "filter (\<lambda>x. row_before x r) rows" r_size "\<lambda>_. True" "\<lambda>x. row_before x q"] assms(1) by simp
qed

text \<open>What the window drops was not used after what it keeps, and does not fit with what was used
  no earlier.\<close>

lemma window_drops_oldest:
  assumes "\<And>r. r \<in> set rows \<Longrightarrow> 0 \<le> r_size r" "cap < running_size rows d"
  shows "running_size rows r \<le> cap \<Longrightarrow> r_used d \<le> r_used r"
    and "cap < (\<Sum>q\<leftarrow>filter (\<lambda>q. r_used d \<le> r_used q) rows. r_size q)"
proof -
  show "r_used d \<le> r_used r" if "running_size rows r \<le> cap"
    using that assms(2) running_size_mono [where rows = rows and q = d and r = r, OF assms(1)] row_before_total [of d r]
    by (auto simp: row_before_def)
  have "filter (\<lambda>q. row_before q d) rows = filter (\<lambda>q. row_before q d) (filter (\<lambda>q. r_used d \<le> r_used q) rows)"
    by (auto simp: row_before_def intro!: filter_cong)
  then have "running_size rows d \<le> (\<Sum>q\<leftarrow>filter (\<lambda>q. r_used d \<le> r_used q) rows. r_size q)"
    unfolding running_size_def
    using sum_filter_le [of "filter (\<lambda>q. r_used d \<le> r_used q) rows" r_size "\<lambda>_. True" "\<lambda>q. row_before q d"] assms(1) by simp
  then show "cap < (\<Sum>q\<leftarrow>filter (\<lambda>q. r_used d \<le> r_used q) rows. r_size q)" using assms(2) by simp
qed

section \<open>Every run keeps the store consistent\<close>

datatype cache_op =
    OpGet int nat cptr cptr "string list"
  | OpPut int nat bool bool put_req
  | OpPromote int cptr cptr "string list" cptr cptr
  | OpClear

fun cache_step ::
    "(string \<Rightarrow> string) \<Rightarrow> (string \<Rightarrow> int option) \<Rightarrow> cache_op \<Rightarrow> http_cache \<Rightarrow> http_cache" where
  "cache_step sha iso8601 (OpGet now cap url part hs) c = snd (ns_cache_get sha cap now url part hs c)"
| "cache_step sha iso8601 (OpPut now cap i w p) c = ns_cache_put sha iso8601 cap now i w p c"
| "cache_step sha iso8601 (OpPromote now url part hs cc ex) c =
     ns_cache_promote_304 sha iso8601 now url part hs cc ex c"
| "cache_step sha iso8601 OpClear c = ns_cache_clear c"

definition cache_empty :: http_cache where
  "cache_empty = \<lparr> c_rows = [], c_files = Map.empty, c_dir = False, c_db = False, c_disabled = False \<rparr>"

text \<open>A cache opened for the first time, after some calls.\<close>

definition cache_run ::
    "(string \<Rightarrow> string) \<Rightarrow> (string \<Rightarrow> int option) \<Rightarrow> cache_op list \<Rightarrow> http_cache" where
  "cache_run sha iso8601 ops =
     fold (cache_step sha iso8601) ops (ns_cache_init None True False True 0 0 0 cache_empty)"

lemma cache_run_Nil:
  "cache_run sha iso8601 [] = cache_empty \<lparr> c_dir := True, c_db := True \<rparr>"
  by (simp add: cache_run_def ns_cache_init_def cache_open_def cache_empty_def evict_to_cap_def
      evict_aged_out_def evict_by_select_def Let_def)

lemma cache_run_snoc: "cache_run sha iso8601 (ops @ [x]) = cache_step sha iso8601 x (cache_run sha iso8601 ops)"
  by (simp add: cache_run_def)

lemma find_row_key_Some:
  "find_row_key sha rows base hs = Some k \<Longrightarrow>
   \<exists>r sel. r \<in> set rows \<and> r_key r = k \<and> r_base r = base \<and> vary_selector (r_vary r) hs = Some sel
     \<and> k = row_key_for sha base sel"
  by (induction rows) (auto split: if_splits option.splits)

lemma find_key:
  assumes "distinct (map r_key rows)" "r \<in> set rows"
  shows "find (\<lambda>q. r_key q = r_key r) rows = Some r"
  using assms by (induction rows) (auto simp: image_iff)

text \<open>\<open>ns_cache_get\<close> and \<open>ns_cache_put\<close> by cases.\<close>

lemma get_cases:
  assumes "ns_cache_get sha cap now url part hs c = (e, c')" "store_consistent c"
  obtains (miss) "e = None" "c' = c"
    | (drop) k where "e = None" "c' = delete_key k c" "2 \<le> length k"
    | (hit) u r sel b where "url = Some u" "r \<in> set (c_rows c)" "r_base r = base_key_for_url sha u part"
        "vary_selector (r_vary r) hs = Some sel" "r_key r = row_key_for sha (r_base r) sel"
        "is_cacheable_status (r_status r)" "c_files c (body_path_for_key (r_key r)) = Some b"
        "length b \<le> cap"
        "e = Some \<lparr> ce_final = r_final r, ce_status = r_status r, ce_ctype = r_ctype r,
           ce_cors = r_cors r, ce_etag = r_etag r, ce_lastmod = r_lastmod r,
           ce_expires = r_expires r, ce_fetched = r_fetched r, ce_body = b \<rparr>"
        "c' = touch_key now (r_key r) c"
proof (cases url)
  case None
  with assms(1) show ?thesis by (intro miss) (simp_all add: ns_cache_get_def)
next
  case (Some u)
  note unf = assms(1) [unfolded ns_cache_get_def Some option.case]
  show ?thesis
  proof (cases "find_row_key sha (c_rows c) (base_key_for_url sha u part) hs")
    case None
    with unf show ?thesis by (intro miss) (auto split: if_splits)
  next
    case f: (Some key)
    obtain r sel where r: "r \<in> set (c_rows c)" "r_key r = key" "r_base r = base_key_for_url sha u part"
      "vary_selector (r_vary r) hs = Some sel" "key = row_key_for sha (r_base r) sel"
      using find_row_key_Some [OF f] by metis
    have find: "find (\<lambda>q. r_key q = key) (c_rows c) = Some r"
      using find_key [of "c_rows c" r] r(1,2) assms(2) by (simp add: store_consistent_def)
    have len: "2 \<le> length key" using store_key_length [OF assms(2) r(1)] r(2) by simp
    note unf2 = unf [unfolded f option.case find]
    show ?thesis
    proof (cases "c_files c (body_path_for_key key)")
      case None
      with unf2 show ?thesis using len by (auto split: if_splits intro: miss drop)
    next
      case b: (Some b)
      show ?thesis
        using unf2 b len r Some hit [of u r sel b] by (auto split: if_splits intro: miss drop)
    qed
  qed
qed

lemma base_key_length: "(\<And>s. 2 \<le> length (sha s)) \<Longrightarrow> 2 \<le> length (row_key_for sha (base_key_for_url sha u p) sel)"
  by (simp add: row_key_for_def base_key_for_url_def)

text \<open>What a put does that is not refused.\<close>

definition put_accepted :: "(string \<Rightarrow> int option) \<Rightarrow> nat \<Rightarrow> int \<Rightarrow> put_req \<Rightarrow> bool" where
  "put_accepted iso8601 cap now p =
     (url_should_cache (pq_url p) \<and> \<not> cache_control_forbids (pq_cc p) \<and> is_cacheable_status (pq_status p)
      \<and> int (length (pq_body p)) \<le> 2147483647 \<and> length (pq_body p) \<le> cap
      \<and> 0 \<le> freshness_from_headers iso8601 now (pq_cc p) (pq_expires p)
      \<and> vary_selector (pq_vary p) (pq_headers p) \<noteq> None)"

definition put_key :: "(string \<Rightarrow> string) \<Rightarrow> put_req \<Rightarrow> string" where
  "put_key sha p = row_key_for sha (base_key_for_url sha (the (pq_url p)) (pq_part p))
     (the (vary_selector (pq_vary p) (pq_headers p)))"

definition stored_row :: "(string \<Rightarrow> string) \<Rightarrow> (string \<Rightarrow> int option) \<Rightarrow> int \<Rightarrow> put_req \<Rightarrow> cache_row" where
  "stored_row sha iso8601 now p =
     put_row (put_key sha p) (base_key_for_url sha (the (pq_url p)) (pq_part p)) (the (pq_url p))
       (freshness_from_headers iso8601 now (pq_cc p) (pq_expires p)) now p"

lemma stored_row_simps [simp]:
  "r_key (stored_row sha iso8601 now p) = put_key sha p"
  "r_size (stored_row sha iso8601 now p) = int (length (pq_body p))"
  by (simp_all add: stored_row_def put_row_def)

lemma put_cases:
  "ns_cache_put sha iso8601 cap now insert_ok write_ok p c =
     (if \<not> ns_cache_enabled c \<or> \<not> put_accepted iso8601 cap now p \<or> \<not> insert_ok then c
      else if \<not> write_ok then
        delete_key (put_key sha p) (c \<lparr> c_rows := upsert_row (stored_row sha iso8601 now p) (c_rows c) \<rparr>)
      else evict_to_cap cap now (c \<lparr> c_rows := upsert_row (stored_row sha iso8601 now p) (c_rows c),
             c_files := (c_files c)(body_path_for_key (put_key sha p) \<mapsto> pq_body p) \<rparr>))"
proof (cases "pq_url p")
  case None
  then show ?thesis by (simp add: ns_cache_put_def put_accepted_def url_should_cache_def)
next
  case (Some url)
  show ?thesis
  proof (cases "vary_selector (pq_vary p) (pq_headers p)")
    case None
    then show ?thesis using Some by (simp add: ns_cache_put_def put_accepted_def Let_def)
  next
    case sel: (Some sel)
    have "put_key sha p = row_key_for sha (base_key_for_url sha url (pq_part p)) sel"
      "stored_row sha iso8601 now p = put_row (put_key sha p) (base_key_for_url sha url (pq_part p)) url
         (freshness_from_headers iso8601 now (pq_cc p) (pq_expires p)) now p"
      using Some sel by (simp_all add: put_key_def stored_row_def)
    then show ?thesis using Some sel
      by (auto simp: ns_cache_put_def put_accepted_def Let_def)
  qed
qed

lemma put_consistent:
  assumes "store_consistent c" "\<And>s. 2 \<le> length (sha s)"
  shows "store_consistent (ns_cache_put sha iso8601 cap now i w p c)"
proof -
  let ?r = "stored_row sha iso8601 now p"
  have len: "2 \<le> length (put_key sha p)"
    unfolding put_key_def by (rule base_key_length [OF assms(2)])
  have "store_consistent (delete_key (put_key sha p) (c \<lparr> c_rows := upsert_row ?r (c_rows c) \<rparr>))"
    using failed_write [OF assms(1), of ?r] delete_consistent [OF assms(1) len] len by simp
  moreover have "store_consistent (evict_to_cap cap now (c \<lparr> c_rows := upsert_row ?r (c_rows c),
      c_files := (c_files c)(body_path_for_key (put_key sha p) \<mapsto> pq_body p) \<rparr>))"
    using write_consistent [OF assms(1), of ?r "pq_body p"] len by (intro evict_consistent) simp
  ultimately show ?thesis unfolding put_cases using assms(1) by simp
qed

lemma get_consistent:
  assumes "store_consistent c"
  shows "store_consistent (snd (ns_cache_get sha cap now url part hs c))"
proof -
  obtain e c' where g: "ns_cache_get sha cap now url part hs c = (e, c')" by fastforce
  have "store_consistent (touch_key now k c)" for k
    unfolding touch_key_def by (rule update_consistent [OF assms]) simp_all
  then show ?thesis using get_cases [OF g assms] g assms delete_consistent by (metis snd_conv)
qed

lemma promote_consistent:
  assumes "store_consistent c"
  shows "store_consistent (ns_cache_promote_304 sha iso8601 now url part hs cc ex c)"
proof -
  have "store_consistent (c \<lparr> c_rows := map (\<lambda>q. if r_key q = key
      then q \<lparr> r_expires := e, r_fetched := now, r_used := now \<rparr> else q) (c_rows c) \<rparr>)" for key e
    by (rule update_consistent [OF assms]) simp_all
  then show ?thesis using assms by (auto simp: ns_cache_promote_304_def Let_def split: option.split)
qed

lemma clear_consistent: "store_consistent c \<Longrightarrow> c_dir c \<Longrightarrow> store_consistent (ns_cache_clear c)"
  by (simp add: store_consistent_def ns_cache_clear_def Let_def)

lemma step_fields:
  assumes "store_consistent c"
  shows "c_dir (cache_step sha iso8601 x c) = c_dir c" "c_disabled (cache_step sha iso8601 x c) = c_disabled c"
proof -
  have "c_dir (snd (ns_cache_get sha cap now url part hs c)) = c_dir c
      \<and> c_disabled (snd (ns_cache_get sha cap now url part hs c)) = c_disabled c" for cap now url part hs
  proof -
    obtain e c' where g: "ns_cache_get sha cap now url part hs c = (e, c')" by fastforce
    from g assms have "c_dir c' = c_dir c \<and> c_disabled c' = c_disabled c"
      by (cases rule: get_cases) (simp_all add: touch_key_def)
    then show ?thesis by (simp add: g)
  qed
  then show "c_dir (cache_step sha iso8601 x c) = c_dir c"
    "c_disabled (cache_step sha iso8601 x c) = c_disabled c"
    by (cases x; simp add: put_cases evict_db ns_cache_promote_304_def ns_cache_clear_def Let_def
        split: option.split)+
qed

lemma run_consistent:
  assumes "\<And>s. 2 \<le> length (sha s)"
  shows "store_consistent (cache_run sha iso8601 ops) \<and> ns_cache_enabled (cache_run sha iso8601 ops)
    \<and> c_dir (cache_run sha iso8601 ops)"
proof (induction ops rule: rev_induct)
  case Nil
  show ?case by (simp add: cache_run_Nil store_consistent_def ns_cache_enabled_def cache_empty_def)
next
  case (snoc x ops)
  have "store_consistent (cache_step sha iso8601 x (cache_run sha iso8601 ops))"
    using snoc assms by (cases x) (auto intro: put_consistent get_consistent promote_consistent clear_consistent)
  moreover from this have "c_db (cache_step sha iso8601 x (cache_run sha iso8601 ops))"
    by (simp add: store_consistent_def)
  ultimately show ?case
    using snoc step_fields [of "cache_run sha iso8601 ops"] by (simp add: cache_run_snoc ns_cache_enabled_def)
qed

text \<open>(C12) Whatever is stored, looked up, revalidated and cleared, and whichever
  writes fail: no key has two rows, every row has its body in the file of its key
  with the recorded size, and no file is without a row. After a put that was not
  refused the recorded sizes fit the limit; of the rows used in the last 30 days none that
  was dropped had been used after one that was kept, and the sizes of those used no earlier
  than a dropped one, with its own, are above the limit. (Of rows used in the same second the
  ones with the smaller keys go first.)\<close>

theorem cache_store_consistent:
  assumes "\<And>s. 2 \<le> length (sha s)" and c_def: "c = cache_run sha iso8601 ops"
  shows "store_consistent c
    \<and> (let c' = ns_cache_put sha iso8601 cap now True True p c;
           all = filter (\<lambda>r. r_used r \<ge> now - 2592000)
                   (upsert_row (stored_row sha iso8601 now p) (c_rows c))
       in put_accepted iso8601 cap now p \<longrightarrow>
            c_rows c' = filter (\<lambda>r. running_size all r \<le> int cap) all
            \<and> (\<Sum>r\<leftarrow>c_rows c'. r_size r) \<le> int cap
            \<and> (\<forall>d \<in> set all - set (c_rows c'). \<forall>r \<in> set (c_rows c'). r_used d \<le> r_used r)
            \<and> (\<forall>d \<in> set all - set (c_rows c').
                 int cap < (\<Sum>q\<leftarrow>filter (\<lambda>q. r_used d \<le> r_used q) all. r_size q)))"
proof -
  have c: "store_consistent c" "ns_cache_enabled c" unfolding c_def using run_consistent [of sha iso8601 ops, OF assms(1)] by blast+
  let ?c1 = "c \<lparr> c_rows := upsert_row (stored_row sha iso8601 now p) (c_rows c),
      c_files := (c_files c)(body_path_for_key (put_key sha p) \<mapsto> pq_body p) \<rparr>"
  let ?all = "filter (\<lambda>r. r_used r \<ge> now - 2592000) (c_rows ?c1)"
  have len: "2 \<le> length (put_key sha p)"
    unfolding put_key_def by (rule base_key_length [OF assms(1)])
  have c1: "store_consistent ?c1"
    using write_consistent [OF c(1), of "stored_row sha iso8601 now p" "pq_body p"] len by simp
  let ?kept = "filter (\<lambda>r. running_size ?all r \<le> int cap) ?all"
  have rows: "c_rows (evict_to_cap cap now ?c1) = ?kept"
    using evict_rows [of ?c1 cap now] c1 by (simp add: store_consistent_def ns_cache_max_age_seconds_def)
  have size: "0 \<le> r_size r" if "r \<in> set ?all" for r
    using that c1 by (auto simp: store_consistent_def row_backed_def split: option.splits)
  then have sum: "(\<Sum>r\<leftarrow>?kept. r_size r) \<le> int cap"
    by (rule window_sum_le) simp_all
  have drop: "int cap < running_size ?all d" if "d \<in> set ?all - set ?kept" for d using that by auto
  have old: "\<forall>d \<in> set ?all - set ?kept. \<forall>r \<in> set ?kept. r_used d \<le> r_used r"
    using window_drops_oldest(1) [OF size drop] by auto
  have fit: "\<forall>d \<in> set ?all - set ?kept. int cap < (\<Sum>q\<leftarrow>filter (\<lambda>q. r_used d \<le> r_used q) ?all. r_size q)"
    using window_drops_oldest(2) [OF size drop] by blast
  have "c_rows (ns_cache_put sha iso8601 cap now True True p c) = ?kept" if "put_accepted iso8601 cap now p"
    using c rows that unfolding put_cases Let_def by simp
  then show ?thesis using c(1) sum old fit unfolding Let_def by simp
qed

section \<open>The cache refines a map\<close>

text \<open>What a cache is for: a map from address, partition and selected request
  headers to the last response put there. The store may forget, but it never
  answers with anything else.\<close>

type_synonym entry_id = "string \<times> string \<times> string"

definition part_text :: "cptr \<Rightarrow> string" where
  "part_text part = (case part of None \<Rightarrow> [] | Some p \<Rightarrow> p)"

definition put_id :: "put_req \<Rightarrow> entry_id" where
  "put_id p = (the (pq_url p), part_text (pq_part p), the (vary_selector (pq_vary p) (pq_headers p)))"

fun ideal_step ::
    "(string \<Rightarrow> int option) \<Rightarrow> cache_op \<Rightarrow> (entry_id \<Rightarrow> put_req option) \<Rightarrow> (entry_id \<Rightarrow> put_req option)" where
  "ideal_step iso8601 (OpPut now cap i w p) m =
     (if put_accepted iso8601 cap now p \<and> i then m (put_id p := if w then Some p else None) else m)"
| "ideal_step iso8601 OpClear m = Map.empty"
| "ideal_step iso8601 _ m = m"

definition ideal_run :: "(string \<Rightarrow> int option) \<Rightarrow> cache_op list \<Rightarrow> entry_id \<Rightarrow> put_req option" where
  "ideal_run iso8601 ops = fold (ideal_step iso8601) ops Map.empty"

text \<open>The strings hashed for an entry.\<close>

definition base_text :: "string \<Rightarrow> string \<Rightarrow> string" where
  "base_text url part = url @ (if part = [] then [] else US # part)"

definition id_key :: "(string \<Rightarrow> string) \<Rightarrow> entry_id \<Rightarrow> string" where
  "id_key sha d = (case d of (u, part, sel) \<Rightarrow> row_key_for sha (sha (base_text u part)) sel)"

fun hashed :: "(string \<Rightarrow> string) \<Rightarrow> entry_id \<Rightarrow> string set" where
  "hashed sha (u, part, sel) = {base_text u part, sha (base_text u part) @ US # sel}"

text \<open>The entries that come up: those of the puts, and those under which a lookup
  may find the \<open>Vary\<close> of a put.\<close>

fun op_ids :: "put_req list \<Rightarrow> cache_op \<Rightarrow> entry_id set" where
  "op_ids ps (OpPut now cap i w p) = {put_id p}"
| "op_ids ps (OpGet now cap url part hs) =
     {(the url, part_text part, sel) | p sel. p \<in> set ps \<and> vary_selector (pq_vary p) hs = Some sel}"
| "op_ids ps _ = {}"

definition puts_of :: "cache_op list \<Rightarrow> put_req list" where
  "puts_of ops = concat (map (\<lambda>x. case x of OpPut now cap i w p \<Rightarrow> [p] | _ \<Rightarrow> []) ops)"

definition collision_free :: "(string \<Rightarrow> string) \<Rightarrow> cache_op list \<Rightarrow> bool" where
  "collision_free sha ops = inj_on sha (\<Union>x\<in>set ops. \<Union>d\<in>op_ids (puts_of ops) x. hashed sha d)"

definition digest_text :: "(string \<Rightarrow> string) \<Rightarrow> bool" where
  "digest_text sha = (\<forall>s. 2 \<le> length (sha s) \<and> list_all (\<lambda>c. c \<in> set ''0123456789abcdef'') (sha s))"

lemma base_key_text: "base_key_for_url sha u part = sha (base_text u (part_text part))"
  by (simp add: base_key_for_url_def base_text_def part_text_def split: option.split)

lemma put_key_id: "put_key sha p = id_key sha (put_id p)"
  by (simp add: put_key_def put_id_def id_key_def base_key_text)

lemma should_cache_text:
  assumes "url_should_cache (Some u)"
  shows "US \<notin> set u" "\<exists>v. u = CHR ''h'' # v"
proof -
  show "US \<notin> set u" using assms by (auto simp: url_should_cache_def list_all_iff)
  have "starts_with ''http://'' u \<or> starts_with ''https://'' u"
    using assms by (simp add: url_should_cache_def ns_url_is_http_or_https_def)
  then show "\<exists>v. u = CHR ''h'' # v" by (auto simp: starts_with_iff)
qed

lemma base_text_inject:
  assumes "US \<notin> set u" "US \<notin> set u'"
  shows "base_text u p = base_text u' p' \<longleftrightarrow> u = u' \<and> p = p'"
proof
  assume e: "base_text u p = base_text u' p'"
  have t: "takeWhile (\<lambda>c. c \<noteq> US) (base_text v q) = v" "dropWhile (\<lambda>c. c \<noteq> US) (base_text v q)
      = (if q = [] then [] else US # q)" if "US \<notin> set v" for v q
    using that by (auto simp: base_text_def dropWhile_append takeWhile_append)
  from e t [OF assms(1), of p] t [OF assms(2), of p'] show "u = u' \<and> p = p'"
    by (auto split: if_splits)
qed simp

lemma digest_plain:
  assumes "digest_text sha"
  shows "US \<notin> set (sha s)" "sha s = c # cs \<Longrightarrow> c \<noteq> CHR ''h''" "sha s \<noteq> []" "2 \<le> length (sha s)"
proof -
  have l: "2 \<le> length (sha s)" and h: "\<forall>c\<in>set (sha s). c \<in> set ''0123456789abcdef''"
    using assms by (simp_all add: digest_text_def list_all_iff)
  show "2 \<le> length (sha s)" by (rule l)
  then show "sha s \<noteq> []" by auto
  show "US \<notin> set (sha s)" using h by force
  show "sha s = c # cs \<Longrightarrow> c \<noteq> CHR ''h''" using h by force
qed

text \<open>Without collisions the keys tell entries apart.\<close>

lemma id_key_inject:
  assumes "digest_text sha" "inj_on sha (hashed sha (u, q, s) \<union> hashed sha (u', q', s'))"
    and u: "url_should_cache (Some u)" and u': "url_should_cache (Some u')"
    and k: "id_key sha (u, q, s) = id_key sha (u', q', s')"
  shows "u = u' \<and> q = q' \<and> s = s'"
proof -
  let ?b = "base_text u q" and ?b' = "base_text u' q'"
  have inj: "sha x = sha y \<longleftrightarrow> x = y" if "x \<in> hashed sha (u, q, s) \<union> hashed sha (u', q', s')"
    "y \<in> hashed sha (u, q, s) \<union> hashed sha (u', q', s')" for x y
    by (rule inj_on_eq_iff [OF assms(2) that])
  have h: "\<exists>v. base_text w r = CHR ''h'' # v" if "url_should_cache (Some w)" for w r
    using should_cache_text(2) [OF that] by (auto simp: base_text_def)
  have ne: "base_text w r \<noteq> sha x @ US # y" if "url_should_cache (Some w)" for w r x y
    using h [OF that, of r] digest_plain(2,3) [OF assms(1), of x]
    by (cases "sha x") auto
  have base: "?b = ?b' \<and> s = s'"
  proof (cases "s = []"; cases "s' = []")
    assume "s = []" "s' = []"
    then show ?thesis using k inj [of ?b ?b'] by (simp add: id_key_def row_key_for_def)
  next
    assume "s = []" "s' \<noteq> []"
    then have "?b = sha ?b' @ US # s'"
      using k inj [of ?b "sha ?b' @ US # s'"] by (simp add: id_key_def row_key_for_def)
    then show ?thesis using ne [OF u] by blast
  next
    assume "s \<noteq> []" "s' = []"
    then have "sha ?b @ US # s = ?b'"
      using k inj [of "sha ?b @ US # s" ?b'] by (simp add: id_key_def row_key_for_def)
    then show ?thesis using ne [OF u'] by metis
  next
    assume "s \<noteq> []" "s' \<noteq> []"
    then have e: "sha ?b @ US # s = sha ?b' @ US # s'"
      using k inj [of "sha ?b @ US # s" "sha ?b' @ US # s'"] by (simp add: id_key_def row_key_for_def)
    then have "takeWhile (\<lambda>c. c \<noteq> US) (sha ?b @ US # s) = takeWhile (\<lambda>c. c \<noteq> US) (sha ?b' @ US # s')"
      by simp
    then have "sha ?b = sha ?b'"
      using digest_plain(1) [OF assms(1)] by simp
    then show ?thesis using e inj [of ?b ?b'] by simp
  qed
  then show ?thesis
    using base_text_inject [OF should_cache_text(1) [OF u] should_cache_text(1) [OF u']] by blast
qed

definition erase_times :: "cache_row \<Rightarrow> cache_row" where
  "erase_times r = r \<lparr> r_expires := 0, r_fetched := 0, r_used := 0 \<rparr>"

definition row_of :: "(string \<Rightarrow> string) \<Rightarrow> put_req \<Rightarrow> cache_row" where
  "row_of sha p = erase_times (stored_row sha (\<lambda>s. None) 0 p)"

definition storable :: "put_req \<Rightarrow> bool" where
  "storable p = (\<exists>u. pq_url p = Some u \<and> url_should_cache (Some u) \<and> is_cacheable_status (pq_status p)
     \<and> \<not> cache_control_forbids (pq_cc p) \<and> vary_selector (pq_vary p) (pq_headers p) \<noteq> None)"

definition row_put :: "(string \<Rightarrow> string) \<Rightarrow> (entry_id \<Rightarrow> put_req option) \<Rightarrow> http_cache \<Rightarrow> cache_row \<Rightarrow> put_req \<Rightarrow> bool" where
  "row_put sha m c r p \<longleftrightarrow> m (put_id p) = Some p \<and> storable p \<and> erase_times r = row_of sha p
     \<and> c_files c (body_path_for_key (r_key r)) = Some (pq_body p)"

definition refines_map :: "(string \<Rightarrow> string) \<Rightarrow> (entry_id \<Rightarrow> put_req option) \<Rightarrow> http_cache \<Rightarrow> bool" where
  "refines_map sha m c \<longleftrightarrow> (\<forall>r\<in>set (c_rows c). \<exists>p. row_put sha m c r p)"

lemma erase_stored: "erase_times (stored_row sha iso8601 now p) = row_of sha p"
  by (simp add: row_of_def erase_times_def stored_row_def put_row_def)

lemma erase_fields:
  assumes "erase_times r = row_of sha p"
  shows "r_key r = put_key sha p" "r_base r = base_key_for_url sha (the (pq_url p)) (pq_part p)"
    "r_final r = (case pq_final p of None \<Rightarrow> the (pq_url p) | Some f \<Rightarrow> f)" "r_status r = pq_status p"
    "r_ctype r = pq_ctype p" "r_cors r = pq_cors p" "r_etag r = pq_etag p" "r_lastmod r = pq_lastmod p"
    "r_vary r = pq_vary p"
proof -
  from assms have "r_key (erase_times r) = r_key (row_of sha p)" "r_base (erase_times r) = r_base (row_of sha p)"
    "r_final (erase_times r) = r_final (row_of sha p)" "r_status (erase_times r) = r_status (row_of sha p)"
    "r_ctype (erase_times r) = r_ctype (row_of sha p)" "r_cors (erase_times r) = r_cors (row_of sha p)"
    "r_etag (erase_times r) = r_etag (row_of sha p)" "r_lastmod (erase_times r) = r_lastmod (row_of sha p)"
    "r_vary (erase_times r) = r_vary (row_of sha p)"
    by simp_all
  then show "r_key r = put_key sha p" "r_base r = base_key_for_url sha (the (pq_url p)) (pq_part p)"
    "r_final r = (case pq_final p of None \<Rightarrow> the (pq_url p) | Some f \<Rightarrow> f)" "r_status r = pq_status p"
    "r_ctype r = pq_ctype p" "r_cors r = pq_cors p" "r_etag r = pq_etag p" "r_lastmod r = pq_lastmod p"
    "r_vary r = pq_vary p"
    by (simp_all add: row_of_def erase_times_def stored_row_def put_row_def)
qed

lemma refines_delete:
  assumes "refines_map sha m c" "store_consistent c" "2 \<le> length k"
    and m: "\<And>d. id_key sha d \<noteq> k \<Longrightarrow> m' d = m d"
  shows "refines_map sha m' (delete_key k c)"
  unfolding refines_map_def
proof
  fix r assume "r \<in> set (c_rows (delete_key k c))"
  then have r: "r \<in> set (c_rows c)" "r_key r \<noteq> k"
    using assms(2) by (auto simp: store_consistent_def)
  then obtain p where p: "row_put sha m c r p" using assms(1) unfolding refines_map_def by blast
  then have "id_key sha (put_id p) \<noteq> k"
    using r(2) erase_fields(1) [of r sha p] by (simp add: row_put_def put_key_id)
  then show "\<exists>p. row_put sha m' (delete_key k c) r p"
    using p m body_path_inject [of "r_key r" k] store_key_length [OF assms(2) r(1)] assms(3) r(2)
    by (intro exI [of _ p]) (simp add: row_put_def)
qed

lemma refines_select:
  assumes "refines_map sha m c" "store_consistent c" "set ks \<subseteq> r_key ` set (c_rows c)"
  shows "refines_map sha m (evict_by_select ks c)"
proof -
  have "refines_map sha m (fold delete_key ks c)" if "\<And>k. k \<in> set ks \<Longrightarrow> 2 \<le> length k"
    using assms(1,2) that
  proof (induction ks arbitrary: c)
    case (Cons k ks)
    show ?case
      using Cons.IH [of "delete_key k c"] refines_delete [OF Cons.prems(1,2), of k m]
        delete_consistent [OF Cons.prems(2), of k] Cons.prems(3) by simp
  qed simp
  moreover have "\<And>k. k \<in> set ks \<Longrightarrow> 2 \<le> length k" using assms(2,3) store_key_length by blast
  ultimately show ?thesis using assms(1) by (simp add: evict_by_select_def)
qed

lemma refines_evict:
  assumes "refines_map sha m c" "store_consistent c"
  shows "refines_map sha m (evict_to_cap cap now c)"
proof -
  have "refines_map sha m (evict_aged_out now c)" "store_consistent (evict_aged_out now c)"
    unfolding evict_aged_out_def using assms by (auto intro!: refines_select select_consistent)
  then show ?thesis
    using assms(1) unfolding evict_to_cap_def Let_def by (auto intro!: refines_select)
qed

lemma refines_times:
  assumes "refines_map sha m c" "\<And>r. erase_times (f r) = erase_times r" "\<And>r. r_key (f r) = r_key r"
  shows "refines_map sha m (c \<lparr> c_rows := map f (c_rows c) \<rparr>)"
  using assms unfolding refines_map_def row_put_def by simp

lemma put_id_of_key:
  assumes inj: "inj_on sha (\<Union>d\<in>insert (put_id p) (dom m). hashed sha d)" and sha: "digest_text sha"
    and p0: "m (put_id p0) = Some p0" "storable p0" and p: "storable p"
    and k: "put_key sha p0 = put_key sha p"
  shows "put_id p0 = put_id p"
proof -
  obtain u q s u' q' s' where i: "put_id p0 = (u, q, s)" "put_id p = (u', q', s')" by (metis prod_cases3)
  have "url_should_cache (Some u)" "url_should_cache (Some u')"
    using i p0(2) p by (auto simp: storable_def put_id_def)
  moreover have "(u, q, s) \<in> insert (put_id p) (dom m)" "(u', q', s') \<in> insert (put_id p) (dom m)"
    using p0(1) i by auto
  then have "inj_on sha (hashed sha (u, q, s) \<union> hashed sha (u', q', s'))"
    by (intro inj_on_subset [OF inj] Un_least UN_upper)
  ultimately have "u = u' \<and> q = q' \<and> s = s'"
    using id_key_inject [OF sha, of u q s u' q' s'] k unfolding put_key_id i by blast
  then show ?thesis using i by simp
qed

lemma refines_put:
  assumes ref: "refines_map sha m c" and ok: "store_consistent c"
    and inj: "inj_on sha (\<Union>d\<in>insert (put_id p) (dom m). hashed sha d)" and sha: "digest_text sha"
    and acc: "put_accepted iso8601 cap now p" and en: "ns_cache_enabled c"
  shows "refines_map sha (m (put_id p := if w then Some p else None)) (ns_cache_put sha iso8601 cap now True w p c)"
proof -
  let ?r = "stored_row sha iso8601 now p"
  have len: "\<And>s. 2 \<le> length (sha s)" using digest_plain(4) [OF sha] .
  have klen: "2 \<le> length (put_key sha p)" unfolding put_key_def by (rule base_key_length [OF len])
  have st: "storable p" using acc by (auto simp: put_accepted_def storable_def url_should_cache_def split: option.splits)
  note same = put_id_of_key [OF inj sha _ _ st]
  show ?thesis
  proof (cases w)
    case False
    have "refines_map sha (m (put_id p := None)) (delete_key (put_key sha p) c)"
      by (rule refines_delete [OF ref ok klen]) (auto simp: put_key_id)
    then show ?thesis
      using False acc en failed_write [OF ok, of ?r] klen unfolding put_cases by simp
  next
    case True
    let ?m = "m (put_id p \<mapsto> p)"
    let ?c1 = "c \<lparr> c_rows := upsert_row ?r (c_rows c),
        c_files := (c_files c)(body_path_for_key (put_key sha p) \<mapsto> pq_body p) \<rparr>"
    have "\<exists>p. row_put sha ?m ?c1 q p" if q: "q \<in> set (upsert_row ?r (c_rows c))" for q
    proof -
      consider (written) b where "q = ?r \<lparr> r_base := b \<rparr>"
          "b = r_base ?r \<or> (\<exists>q0\<in>set (c_rows c). r_key q0 = r_key ?r \<and> b = r_base q0)"
        | (other) "q \<in> set (c_rows c)" "r_key q \<noteq> r_key ?r"
        using upsert_member [OF q] by blast
      then show ?thesis
      proof cases
      case b: (written b)
      have "b = r_base ?r"
      proof (rule ccontr)
        assume "b \<noteq> r_base ?r"
        then obtain q0 p0 where q0: "q0 \<in> set (c_rows c)" "r_key q0 = put_key sha p" "b = r_base q0"
          "row_put sha m c q0 p0" using b(2) ref unfolding refines_map_def by auto
        then have "put_key sha p0 = put_key sha p" using erase_fields(1) [of q0 sha p0] by (simp add: row_put_def)
        then have "put_id p0 = put_id p" using q0(4) same by (simp add: row_put_def)
        then have "r_base q0 = r_base ?r"
          using q0(4) erase_fields(2) [of q0 sha p0]
          by (simp add: row_put_def put_id_def base_key_text stored_row_def put_row_def)
        with q0(3) \<open>b \<noteq> r_base ?r\<close> show False by simp
      qed
      then have "q = ?r" using b(1) by simp
      then have "row_put sha ?m ?c1 q p" using st by (simp add: row_put_def erase_stored)
      then show ?thesis by blast
    next
      case q': other
      then obtain p0 where p0: "row_put sha m c q p0" using ref unfolding refines_map_def by blast
      then have "put_id p0 \<noteq> put_id p"
        using q'(2) erase_fields(1) [of q sha p0] by (auto simp: row_put_def put_key_id)
      then have "row_put sha ?m ?c1 q p0"
        using p0 q' store_key_length [OF ok q'(1)] klen body_path_inject [of "r_key q" "put_key sha p"]
        by (simp add: row_put_def)
      then show ?thesis by blast
      qed
    qed
    then have "refines_map sha ?m ?c1" by (simp add: refines_map_def)
    then have "refines_map sha ?m (evict_to_cap cap now ?c1)"
      by (rule refines_evict) (use write_consistent [OF ok, of ?r "pq_body p"] klen in simp)
    then show ?thesis using True acc en unfolding put_cases by simp
  qed
qed

section \<open>Lookups answer from the map\<close>

lemma refines_get:
  assumes "refines_map sha m c" "store_consistent c" "\<And>s. 2 \<le> length (sha s)"
  shows "refines_map sha m (snd (ns_cache_get sha cap now url part hs c))"
proof -
  obtain e c' where g: "ns_cache_get sha cap now url part hs c = (e, c')" by fastforce
  have "refines_map sha m (touch_key now k c)" for k
    unfolding touch_key_def by (rule refines_times [OF assms(1)]) (simp_all add: erase_times_def)
  with g assms(2) have "refines_map sha m c'"
    by (cases rule: get_cases) (simp_all add: assms(1) refines_delete [OF assms(1,2)])
  then show ?thesis by (simp add: g)
qed

lemma refines_promote:
  assumes "refines_map sha m c"
  shows "refines_map sha m (ns_cache_promote_304 sha iso8601 now url part hs cc ex c)"
proof -
  have "refines_map sha m (c \<lparr> c_rows := map (\<lambda>q. if r_key q = key
      then q \<lparr> r_expires := e, r_fetched := now, r_used := now \<rparr> else q) (c_rows c) \<rparr>)" for key e
    by (rule refines_times [OF assms]) (simp_all add: erase_times_def)
  then show ?thesis using assms by (auto simp: ns_cache_promote_304_def Let_def split: option.split)
qed

lemma ideal_dom: "dom (ideal_run iso8601 ops) \<subseteq> put_id ` set (puts_of ops)"
proof (induction ops rule: rev_induct)
  case (snoc x ops)
  then show ?case
    by (cases x) (auto simp: ideal_run_def puts_of_def split: if_splits)
qed (simp add: ideal_run_def)

lemma put_id_op: "p \<in> set (puts_of ops) \<Longrightarrow> \<exists>x\<in>set ops. put_id p \<in> op_ids ps x"
  by (force simp: puts_of_def split: cache_op.splits)

lemma puts_of_append: "puts_of (a @ b) = puts_of a @ puts_of b"
  by (simp add: puts_of_def)

lemma op_ids_mono: "set ps \<subseteq> set qs \<Longrightarrow> op_ids ps x \<subseteq> op_ids qs x"
  by (cases x) auto

lemma collision_free_prefix: "collision_free sha (ops @ xs) \<Longrightarrow> collision_free sha ops"
  unfolding collision_free_def puts_of_append
  by (erule inj_on_subset) (use op_ids_mono [of "puts_of ops" "puts_of ops @ puts_of xs"] in fastforce)

lemma run_refines:
  assumes "digest_text sha" "collision_free sha ops"
  shows "refines_map sha (ideal_run iso8601 ops) (cache_run sha iso8601 ops)"
  using assms(2)
proof (induction ops rule: rev_induct)
  case Nil
  show ?case by (simp add: cache_run_Nil refines_map_def cache_empty_def)
next
  case (snoc x ops)
  let ?c = "cache_run sha iso8601 ops" and ?m = "ideal_run iso8601 ops"
  have IH: "refines_map sha ?m ?c" using snoc collision_free_prefix by blast
  have len: "\<And>s. 2 \<le> length (sha s)" using digest_plain(4) [OF assms(1)] .
  have ok: "store_consistent ?c" "ns_cache_enabled ?c" "c_dir ?c" using run_consistent [of sha, OF len] by blast+
  have m: "ideal_run iso8601 (ops @ [x]) = ideal_step iso8601 x ?m" by (simp add: ideal_run_def)
  show ?case
  proof (cases x)
    case (OpPut now cap i w p)
    show ?thesis
    proof (cases "put_accepted iso8601 cap now p \<and> i")
      case True
      have "insert (put_id p) (dom ?m) \<subseteq> (\<Union>y\<in>set (ops @ [x]). op_ids (puts_of (ops @ [x])) y)"
        using ideal_dom [of iso8601 ops] put_id_op [of _ ops "puts_of (ops @ [x])"] OpPut by fastforce
      then have "inj_on sha (\<Union>d\<in>insert (put_id p) (dom ?m). hashed sha d)"
        using snoc.prems unfolding collision_free_def by (elim inj_on_subset) blast
      from refines_put [OF IH ok(1) this assms(1), of iso8601 cap now w] True ok(2) OpPut
      show ?thesis unfolding m by (cases w) (simp_all add: cache_run_snoc fun_upd_def)
    next
      case False
      then have "ns_cache_put sha iso8601 cap now i w p ?c = ?c" unfolding put_cases by auto
      then show ?thesis unfolding m using IH False OpPut by (auto simp: cache_run_snoc)
    qed
  next
    case OpClear
    then show ?thesis using ok
      by (simp add: cache_run_snoc refines_map_def ns_cache_clear_def store_consistent_def Let_def)
  next
    case (OpGet now cap url part hs)
    then show ?thesis unfolding m cache_run_snoc by (simp add: refines_get [OF IH ok(1) len])
  next
    case (OpPromote now url part hs cc ex)
    then show ?thesis unfolding m cache_run_snoc by (simp add: refines_promote [OF IH])
  qed
qed

lemma ideal_put:
  "ideal_run iso8601 ops d = Some p \<Longrightarrow> p \<in> set (puts_of ops) \<and> put_id p = d"
proof (induction ops rule: rev_induct)
  case (snoc x ops)
  then show ?case
    by (cases x) (auto simp: ideal_run_def puts_of_def split: if_splits)
qed (simp add: ideal_run_def)

lemma same_found:
  assumes sha: "digest_text sha" and free: "collision_free sha (ops @ [OpGet now cap (Some u) part hs])"
    and u: "url_should_cache (Some u)" and v: "vary_selector (pq_vary p) hs = Some sel"
    and p: "p \<in> set (puts_of ops)" "storable p"
    and k: "id_key sha (put_id p) = id_key sha (u, part_text part, sel)"
  shows "put_id p = (u, part_text part, sel)"
proof -
  let ?ops = "ops @ [OpGet now cap (Some u) part hs]"
  obtain u' q' s' where i: "put_id p = (u', q', s')" by (metis prod_cases3)
  have "(u, part_text part, sel) \<in> op_ids (puts_of ?ops) (OpGet now cap (Some u) part hs)"
    using p(1) v by (auto simp: puts_of_append)
  moreover obtain x where "x \<in> set ops" "(u', q', s') \<in> op_ids (puts_of ?ops) x"
    using put_id_op [OF p(1), of "puts_of ?ops"] i by auto
  ultimately have "inj_on sha (hashed sha (u', q', s') \<union> hashed sha (u, part_text part, sel))"
    using free unfolding collision_free_def by (elim inj_on_subset) fastforce
  moreover have "url_should_cache (Some u')" using p(2) i by (auto simp: storable_def put_id_def)
  ultimately show ?thesis
    using id_key_inject [OF sha, of u' q' s' u "part_text part" sel] u k unfolding i by blast
qed

text \<open>(C11) A lookup answers, if at all, with the last response put under the same
  address and partition whose \<open>Vary\<close> selects the same request headers: status,
  address, type, validators and body are those of that put, which was of a
  cacheable status and neither \<open>no-store\<close> nor \<open>private\<close>; in between it was not cleared.
  Nothing of another partition is ever returned. The digests of the strings
  hashed in the run are taken to differ.\<close>

theorem cache_serves_last_put:
  assumes sha: "digest_text sha" and free: "collision_free sha (ops @ [OpGet now cap (Some u) part hs])"
    and u: "url_should_cache (Some u)"
    and get: "ns_cache_get sha cap now (Some u) part hs (cache_run sha iso8601 ops) = (Some e, c')"
  shows "\<exists>p sel. ideal_run iso8601 ops (u, part_text part, sel) = Some p
    \<and> pq_url p = Some u \<and> part_text (pq_part p) = part_text part
    \<and> vary_selector (pq_vary p) hs = Some sel \<and> vary_selector (pq_vary p) (pq_headers p) = Some sel
    \<and> ce_body e = pq_body p \<and> ce_status e = pq_status p \<and> is_cacheable_status (pq_status p)
    \<and> \<not> cache_control_forbids (pq_cc p)
    \<and> ce_final e = (case pq_final p of None \<Rightarrow> u | Some f \<Rightarrow> f) \<and> ce_ctype e = pq_ctype p
    \<and> ce_cors e = pq_cors p \<and> ce_etag e = pq_etag p \<and> ce_lastmod e = pq_lastmod p"
proof -
  let ?c = "cache_run sha iso8601 ops" and ?m = "ideal_run iso8601 ops"
  have len: "\<And>s. 2 \<le> length (sha s)" using digest_plain(4) [OF sha] .
  have ok: "store_consistent ?c" using run_consistent [of sha, OF len] by blast
  obtain r sel b where r: "r \<in> set (c_rows ?c)" "r_base r = base_key_for_url sha u part"
    "vary_selector (r_vary r) hs = Some sel" "r_key r = row_key_for sha (r_base r) sel"
    "c_files ?c (body_path_for_key (r_key r)) = Some b"
    "e = \<lparr> ce_final = r_final r, ce_status = r_status r, ce_ctype = r_ctype r, ce_cors = r_cors r,
       ce_etag = r_etag r, ce_lastmod = r_lastmod r, ce_expires = r_expires r,
       ce_fetched = r_fetched r, ce_body = b \<rparr>"
    using get ok by (cases rule: get_cases) auto
  obtain p where p: "row_put sha ?m ?c r p"
    using run_refines [OF sha collision_free_prefix [OF free]] r(1) unfolding refines_map_def by blast
  then have f: "erase_times r = row_of sha p" "?m (put_id p) = Some p" "storable p" "b = pq_body p"
    using r(5) by (simp_all add: row_put_def)
  note fields = erase_fields [OF f(1)]
  have v: "vary_selector (pq_vary p) hs = Some sel" using r(3) fields(9) by simp
  have "id_key sha (put_id p) = id_key sha (u, part_text part, sel)"
    using r(2,4) fields(1) by (simp add: put_key_id id_key_def base_key_text)
  then have "put_id p = (u, part_text part, sel)"
    using same_found [OF sha free u v _ f(3)] ideal_put [OF f(2)] by blast
  then show ?thesis
    using f v fields r(6) by (intro exI [of _ p] exI [of _ sel]) (auto simp: put_id_def storable_def)
qed

section \<open>Examples\<close>

text \<open>A digest without collisions: the bytes in hexadecimal.\<close>

definition example_sha :: "string \<Rightarrow> string" where
  "example_sha s = ''00'' @ concat (map (\<lambda>c. [''0123456789abcdef'' ! (code c div 16),
     ''0123456789abcdef'' ! (code c mod 16)]) s)"

lemma hex_nth:
  "i < 16 \<Longrightarrow> ''0123456789abcdef'' ! i \<in> set ''0123456789abcdef''"
  "i < 16 \<Longrightarrow> j < 16 \<Longrightarrow> ''0123456789abcdef'' ! i = ''0123456789abcdef'' ! j \<longleftrightarrow> i = j"
proof -
  show "i < 16 \<Longrightarrow> ''0123456789abcdef'' ! i \<in> set ''0123456789abcdef''"
    by (rule nth_mem) simp
  have "distinct ''0123456789abcdef''" by code_simp
  then show "i < 16 \<Longrightarrow> j < 16 \<Longrightarrow> ''0123456789abcdef'' ! i = ''0123456789abcdef'' ! j \<longleftrightarrow> i = j"
    using nth_eq_iff_index_eq [of "''0123456789abcdef''" i j] by simp
qed

lemma example_sha_ok: "digest_text example_sha" "inj example_sha"
proof -
  have lt: "(code c :: nat) div 16 < 16" for c :: char
    using code_less_256 [of c] by (intro less_mult_imp_div_less) simp
  show "digest_text example_sha"
    using hex_nth(1) lt by (auto simp: digest_text_def example_sha_def list_all_iff simp del: nth_Cons_numeral)
  have "a = b" if "concat (map (\<lambda>c. [''0123456789abcdef'' ! (code c div 16),
      ''0123456789abcdef'' ! (code c mod 16)]) a) = concat (map (\<lambda>c. [''0123456789abcdef'' ! (code c div 16),
      ''0123456789abcdef'' ! (code c mod 16)]) b)" for a b
    using that
  proof (induction a b rule: list_induct2')
    case (4 x xs y ys)
    then have "(code x :: nat) div 16 = code y div 16" "(code x :: nat) mod 16 = code y mod 16"
      using hex_nth(2) [OF lt lt, of x y] hex_nth(2) [of "code x mod 16" "code y mod 16"] by simp_all
    then have "(code x :: nat) = code y" by (metis div_mult_mod_eq)
    then show ?case using 4 by simp
  qed simp_all
  then show "inj example_sha" by (auto simp: inj_def example_sha_def)
qed

definition example_put :: "cptr \<Rightarrow> string list \<Rightarrow> string \<Rightarrow> put_req" where
  "example_put vary hs body = \<lparr> pq_url = Some ''http://a/'', pq_part = Some ''p'', pq_final = None,
     pq_status = 200, pq_ctype = Some ''text/css'', pq_cors = None, pq_etag = None, pq_lastmod = None,
     pq_cc = Some ''max-age=60'', pq_expires = None, pq_vary = vary, pq_headers = hs, pq_body = body \<rparr>"

definition example_ops :: "cache_op list" where
  "example_ops = [OpPut 1 10 True True (example_put (Some ''Accept'') [''Accept: x''] ''hi'')]"

theorem cache_store_consistent_witness:
  "store_consistent (cache_run example_sha (\<lambda>s. None) example_ops)"
  by (rule cache_store_consistent [OF _ refl, THEN conjunct1])
    (use example_sha_ok(1) in \<open>simp add: digest_text_def\<close>)

theorem cache_serves_last_put_witness:
  "\<exists>p sel. ideal_run (\<lambda>s. None) example_ops (''http://a/'', ''p'', sel) = Some p \<and> pq_body p = ''hi''"
proof -
  let ?c = "cache_run example_sha (\<lambda>s. None) example_ops"
  let ?g = "ns_cache_get example_sha 10 2 (Some ''http://a/'') (Some ''p'') [''Accept: x''] ?c"
  have hit: "map_option ce_body (fst ?g) = Some ''hi''" by code_simp
  then obtain e where e: "fst ?g = Some e" "ce_body e = ''hi''" by (cases "fst ?g") auto
  have u: "url_should_cache (Some ''http://a/'')" by code_simp
  have free: "collision_free example_sha (example_ops @ [OpGet 2 10 (Some ''http://a/'') (Some ''p'') [''Accept: x'']])"
    unfolding collision_free_def by (rule inj_on_subset [OF example_sha_ok(2)]) simp
  have "?g = (Some e, snd ?g)" using e(1) by (metis prod.collapse)
  from cache_serves_last_put [OF example_sha_ok(1) free u this] e(2) show ?thesis
    by (auto simp: part_text_def)
qed

text \<open>Directives are compared with their case: a response marked \<open>No-Store\<close> or
  \<open>Private\<close> is stored, though their names are case-insensitive in HTTP.\<close>

lemma no_store_in_capitals_is_stored:
  "put_accepted (\<lambda>s. None) 10 1 ((example_put None [] ''secret'') \<lparr> pq_cc := Some ''No-Store'' \<rparr>)
   \<and> put_accepted (\<lambda>s. None) 10 1 ((example_put None [] ''secret'') \<lparr> pq_cc := Some ''Private'' \<rparr>)"
  by code_simp

text \<open>When the server adds a \<open>Vary\<close> header, the new response gets a key of its own,
  and the older row without \<open>Vary\<close>, which comes first and matches every request, is
  still the one that is found.\<close>

lemma older_variant_shadows_newer:
  "let c = cache_run example_sha (\<lambda>s. None)
       [OpPut 1 10 True True (example_put None [''Accept: x''] ''old''),
        OpPut 2 10 True True (example_put (Some ''Accept'') [''Accept: x''] ''new'')]
   in map_option ce_body (fst (ns_cache_get example_sha 10 3 (Some ''http://a/'') (Some ''p'') [''Accept: x''] c))
      = Some ''old'' \<and> length (c_rows c) = 2"
  by code_simp

end
