(* ===== verification/Net_Data.thy ===== *)
theory Net_Data
  imports CString
begin

text \<open>
  Data addresses and form bodies (\<open>src/src/net.c\<close>): the decoders of \<open>data:\<close>
  addresses with their memory budget, the URL encoding of form fields and the
  quoting of multipart names. \<open>budget\<close> is \<open>ns_net_response_budget ()\<close>; the
  character conversion of GLib (\<open>g_convert\<close>) is a parameter.
\<close>

section \<open>The budget\<close>

text \<open>Whether \<open>len\<close> more bytes may be appended after \<open>used\<close>.\<close>

definition append_response_budgeted :: "nat \<Rightarrow> int \<Rightarrow> int \<Rightarrow> bool" where
  "append_response_budgeted len used budget =
     (if len = 0 then True
      else if int len > 4294967295 then False
      else if used > budget then False
      else if int len > budget - used then False
      else if used + int len > 4294967295 then False
      else True)"

text \<open>The outcome of a decoder with the bytes it appended: success, malformed
  input, or too large.\<close>

datatype decoded = DecOk string | DecBad string | DecTooLarge string

section \<open>Base64\<close>

definition base64_value :: "char \<Rightarrow> int" where
  "base64_value c =
     (if ascii_isupper c then int (code c) - 65
      else if ascii_islower c then int (code c) - 97 + 26
      else if ascii_isdigit c then int (code c) - 48 + 52
      else if c = CHR ''+'' then 62
      else if c = CHR ''/'' then 63
      else -1)"

definition hex_pair :: "string \<Rightarrow> (char \<times> string) option" where
  "hex_pair s =
     (case s of a # b # r \<Rightarrow>
        if ascii_isxdigit a \<and> ascii_isxdigit b
        then Some (char_of (xdigit_value a * 16 + xdigit_value b), r) else None
      | _ \<Rightarrow> None)"

lemma hex_pair_length: "hex_pair s = Some (c, r) \<Longrightarrow> length r < length s"
  by (auto simp: hex_pair_def split: list.splits if_splits)

text \<open>The bytes of a full group of four values, \<open>-2\<close> standing for the padding, and
  whether it ends the data. Values are below 64, so that the shifts and
  disjunctions of the code are these sums.\<close>

fun base64_group :: "int list \<Rightarrow> (string \<times> bool) option" where
  "base64_group [a, b, c, d] =
     (if a < 0 \<or> b < 0 then None
      else
        let o1 = char_of (nat (a * 4 + b div 16))
        in if c = -2 then (if d \<noteq> -2 then None else Some ([o1], True))
           else
             let o2 = char_of (nat (b mod 16 * 16 + c div 4))
             in if d = -2 then Some ([o1, o2], True)
                else if d < 0 then None
                else Some ([o1, o2, char_of (nat (c mod 4 * 64 + d))], False))"
| "base64_group _ = None"

text \<open>The bytes of an incomplete last group.\<close>

definition base64_tail :: "int list \<Rightarrow> string option" where
  "base64_tail q =
     (case q of
        [] \<Rightarrow> Some []
      | [a] \<Rightarrow> None
      | [a, b] \<Rightarrow> if a < 0 \<or> b < 0 then None else Some [char_of (nat (a * 4 + b div 16))]
      | [a, b, c] \<Rightarrow>
          if a < 0 \<or> b < 0 then None
          else if c < 0 then None
          else Some [char_of (nat (a * 4 + b div 16)), char_of (nat (b mod 16 * 16 + c div 4))]
      | _ \<Rightarrow> None)"

function base64_loop :: "int \<Rightarrow> string \<Rightarrow> int list \<Rightarrow> bool \<Rightarrow> string \<Rightarrow> decoded" where
  "base64_loop budget [] q ended out =
     (case base64_tail q of None \<Rightarrow> DecBad out
      | Some bs \<Rightarrow> if append_response_budgeted (length bs) (int (length out)) budget
                  then DecOk (out @ bs) else DecTooLarge out)"
| "base64_loop budget (p # ps) q ended out =
     (let (c, rest) = (case (if p = CHR ''%'' then hex_pair ps else None) of
                         Some (c, r) \<Rightarrow> (c, r) | None \<Rightarrow> (p, ps))
      in if ascii_isspace c then base64_loop budget rest q ended out
         else if ended then DecBad out
         else if c \<noteq> CHR ''='' \<and> base64_value c < 0 then DecBad out
         else
           let q1 = q @ [if c = CHR ''='' then -2 else base64_value c]
           in if length q1 < 4 then base64_loop budget rest q1 ended out
              else (case base64_group q1 of None \<Rightarrow> DecBad out
                    | Some (bs, e) \<Rightarrow>
                        if append_response_budgeted (length bs) (int (length out)) budget
                        then base64_loop budget rest [] e (out @ bs) else DecTooLarge out))"
  by pat_completeness auto
termination
  by (relation "measure (\<lambda>(budget, s, q, ended, out). length s)")
    (auto split: option.splits if_splits dest!: hex_pair_length)

definition decode_data_base64_budgeted :: "int \<Rightarrow> string \<Rightarrow> decoded" where
  "decode_data_base64_budgeted budget data = base64_loop budget data [] False []"

section \<open>Percent encoding\<close>

text \<open>\<open>buf\<close> is the block of 8192 bytes that is being filled.\<close>

function uri_loop :: "int \<Rightarrow> string \<Rightarrow> string \<Rightarrow> string \<Rightarrow> decoded" where
  "uri_loop budget [] buf out =
     (if append_response_budgeted (length buf) (int (length out)) budget
      then DecOk (out @ buf) else DecTooLarge out)"
| "uri_loop budget (p # ps) buf out =
     (case (if p = CHR ''%'' then hex_pair ps else Some (p, ps)) of
        None \<Rightarrow> DecBad out
      | Some (b, rest) \<Rightarrow>
          let buf1 = buf @ [b]
          in if length buf1 = 8192 then
               (if append_response_budgeted 8192 (int (length out)) budget
                then uri_loop budget rest [] (out @ buf1) else DecTooLarge out)
             else uri_loop budget rest buf1 out)"
  by pat_completeness auto
termination
  by (relation "measure (\<lambda>(budget, s, buf, out). length s)")
    (auto split: if_splits dest!: hex_pair_length)

definition decode_data_uri_budgeted :: "int \<Rightarrow> string \<Rightarrow> decoded" where
  "decode_data_uri_budgeted budget data = uri_loop budget data [] []"

section \<open>Data addresses\<close>

text \<open>Type and whether the data is base64, from the text before the comma.\<close>

definition data_meta :: "string \<Rightarrow> string \<times> bool" where
  "data_meta meta0 =
     (let meta = strchomp meta0;
          n = length meta;
          b64 = (n \<ge> 7 \<and> strcaseeq (drop (n - 7) meta) '';base64'');
          m = (if b64 then take (n - 7) meta else meta)
      in (if m \<noteq> [] then m else ''text/plain;charset=UTF-8'', b64))"

definition ns_data_url_decode :: "int \<Rightarrow> cptr \<Rightarrow> cptr \<times> decoded" where
  "ns_data_url_decode budget url =
     (case url of None \<Rightarrow> (None, DecBad [])
      | Some u \<Rightarrow>
        if \<not> starts_with ''data:'' u then (None, DecBad [])
        else
          (case strchr (drop 5 u) CHR '','' of
             None \<Rightarrow> (None, DecBad [])
           | Some r \<Rightarrow>
             let (ctype, b64) = data_meta (takeWhile (\<lambda>c. c \<noteq> CHR '','') (drop 5 u));
                 data = tl r
             in (Some ctype, if b64 then decode_data_base64_budgeted budget data
                             else decode_data_uri_budgeted budget data)))"

text \<open>The response for a data address: nothing when there is no type, otherwise
  type, body and whether it failed.\<close>

datatype data_error = DataTooLarge | DataMalformed

definition synthesize_data_response :: "int \<Rightarrow> string \<Rightarrow> (string \<times> string \<times> data_error option) option" where
  "synthesize_data_response budget url =
     (case ns_data_url_decode budget (Some url) of
        (None, d) \<Rightarrow> None
      | (Some ct, DecOk bs) \<Rightarrow> Some (ct, bs, None)
      | (Some ct, DecTooLarge bs) \<Rightarrow> Some (ct, [], Some DataTooLarge)
      | (Some ct, DecBad bs) \<Rightarrow> Some (ct, [], Some DataMalformed))"

section \<open>Form fields\<close>

definition form_hex :: "nat \<Rightarrow> char" where
  "form_hex d = (if d < 10 then char_of (48 + d) else char_of (55 + d))"

definition form_char :: "char \<Rightarrow> string" where
  "form_char c =
     (if ascii_isalnum c \<or> c = CHR ''*'' \<or> c = CHR ''-'' \<or> c = CHR ''.'' \<or> c = CHR ''_'' then [c]
      else if c = SP then [CHR ''+'']
      else [CHR ''%'', form_hex (code c div 16), form_hex (code c mod 16)])"

text \<open>The charset of the submission, and the text appended for \<open>s\<close>.\<close>

definition ns_form_set_submission_charset :: "cptr \<Rightarrow> cptr" where
  "ns_form_set_submission_charset charset =
     (case charset of None \<Rightarrow> None
      | Some t \<Rightarrow>
        if t = [] then None
        else
          let first = takeWhile (\<lambda>c. \<not> (c = SP \<or> c = CHR '','' \<or> c = HT)) (strstrip t)
          in if first \<noteq> [] \<and> \<not> strcaseeq first ''UTF-8'' \<and> \<not> strcaseeq first ''UTF8''
                \<and> \<not> strcaseeq first ''UTF-16LE'' \<and> \<not> strcaseeq first ''UTF-16BE''
             then Some first else None)"

definition ns_form_urlencoded_append :: "(string \<Rightarrow> string \<Rightarrow> cptr) \<Rightarrow> cptr \<Rightarrow> cptr \<Rightarrow> string" where
  "ns_form_urlencoded_append convert charset s =
     (case s of None \<Rightarrow> []
      | Some t \<Rightarrow>
        let u = (case charset of None \<Rightarrow> t
                 | Some cs \<Rightarrow> (case convert cs t of None \<Rightarrow> t | Some v \<Rightarrow> v))
        in concat (map form_char (until_nul u)))"

text \<open>Output and \<open>first\<close> flag after a pair.\<close>

definition ns_form_urlencoded_append_pair ::
    "(string \<Rightarrow> string \<Rightarrow> cptr) \<Rightarrow> cptr \<Rightarrow> cptr \<times> cptr \<Rightarrow> string \<times> bool \<Rightarrow> string \<times> bool" where
  "ns_form_urlencoded_append_pair convert charset pair st =
     (case fst pair of None \<Rightarrow> st
      | Some name \<Rightarrow>
          (fst st @ (if snd st then [] else ''&'')
             @ ns_form_urlencoded_append convert charset (Some name) @ ''=''
             @ ns_form_urlencoded_append convert charset (snd pair), False))"

definition ns_multipart_quote_field :: "cptr \<Rightarrow> string" where
  "ns_multipart_quote_field s =
     (case s of None \<Rightarrow> []
      | Some t \<Rightarrow> concat (map (\<lambda>c.
          if c = DQ then ''%22'' else if c = CR then ''%0D'' else if c = LF then ''%0A'' else [c]) t))"

section \<open>Base64 text is decoded\<close>

text \<open>The encoding of RFC 4648, with and without padding.\<close>

definition base64_alphabet :: string where
  "base64_alphabet = ''ABCDEFGHIJKLMNOPQRSTUVWXYZabcdefghijklmnopqrstuvwxyz0123456789+/''"

definition base64_char :: "nat \<Rightarrow> char" where
  "base64_char v = base64_alphabet ! v"

fun base64_encode :: "bool \<Rightarrow> string \<Rightarrow> string" where
  "base64_encode pad [] = []"
| "base64_encode pad [a] =
     [base64_char (code a div 4), base64_char (code a mod 4 * 16)] @ (if pad then ''=='' else [])"
| "base64_encode pad [a, b] =
     [base64_char (code a div 4), base64_char (code a mod 4 * 16 + code b div 16),
      base64_char (code b mod 16 * 4)] @ (if pad then ''='' else [])"
| "base64_encode pad (a # b # c # r) =
     [base64_char (code a div 4), base64_char (code a mod 4 * 16 + code b div 16),
      base64_char (code b mod 16 * 4 + code c div 64), base64_char (code c mod 64)]
     @ base64_encode pad r"

lemma base64_alphabet_values:
  "list_all2 (\<lambda>v c. base64_value c = v \<and> \<not> ascii_isspace c \<and> c \<noteq> CHR ''='' \<and> c \<noteq> CHR ''%'')
    [0..63] base64_alphabet"
  unfolding base64_alphabet_def
  by (simp add: upto_rec1 base64_value_def ascii_isdigit_def ascii_isupper_def ascii_islower_def
      ascii_isspace_def)

lemma base64_char_value:
  assumes "v < 64"
  shows "base64_value (base64_char v) = int v" "\<not> ascii_isspace (base64_char v)"
    "base64_char v \<noteq> CHR ''=''" "base64_char v \<noteq> CHR ''%''"
proof -
  have "[0..63] ! v = int v" "v < length [0..63]" using assms by simp_all
  then have "base64_value (base64_char v) = int v \<and> \<not> ascii_isspace (base64_char v)
      \<and> base64_char v \<noteq> CHR ''='' \<and> base64_char v \<noteq> CHR ''%''"
    using list_all2_nthD [OF base64_alphabet_values, of v] by (simp add: base64_char_def)
  then show "base64_value (base64_char v) = int v" "\<not> ascii_isspace (base64_char v)"
    "base64_char v \<noteq> CHR ''=''" "base64_char v \<noteq> CHR ''%''" by blast+
qed

lemma base64_loop_spaces:
  "CHR ''%'' \<notin> set s \<Longrightarrow>
   base64_loop budget s q ended out = base64_loop budget (filter (\<lambda>c. \<not> ascii_isspace c) s) q ended out"
proof (induction s arbitrary: q ended out)
  case (Cons p ps)
  have p: "p \<noteq> CHR ''%''" "CHR ''%'' \<notin> set ps" using Cons.prems by auto
  show ?case using p Cons.IH [OF p(2)] by (auto simp: Let_def split: option.split)
qed simp

text \<open>One character of the alphabet.\<close>

lemma base64_step:
  assumes "v < 64" "length q < 3"
  shows "base64_loop budget (base64_char v # r) q False out = base64_loop budget r (q @ [int v]) False out"
  using base64_char_value [OF assms(1)] assms(2) by simp

lemma base64_step_full:
  assumes "v < 64" "length q = 3"
  shows "base64_loop budget (base64_char v # r) q False out =
    (case base64_group (q @ [int v]) of None \<Rightarrow> DecBad out
     | Some (bs, e) \<Rightarrow> if append_response_budgeted (length bs) (int (length out)) budget
                      then base64_loop budget r [] e (out @ bs) else DecTooLarge out)"
  using base64_char_value [OF assms(1)] assms(2) by simp

lemma base64_pad:
  "length q < 3 \<Longrightarrow> base64_loop budget (CHR ''='' # r) q False out = base64_loop budget r (q @ [-2]) False out"
  "length q = 3 \<Longrightarrow> base64_loop budget (CHR ''='' # r) q False out =
    (case base64_group (q @ [-2]) of None \<Rightarrow> DecBad out
     | Some (bs, e) \<Rightarrow> if append_response_budgeted (length bs) (int (length out)) budget
                      then base64_loop budget r [] e (out @ bs) else DecTooLarge out)"
  by (simp_all add: ascii_isspace_def)

text \<open>The sextets of three bytes give the bytes back.\<close>

lemma digit_of_sum: "d < k \<Longrightarrow> (x * k + d) mod k = (d::nat)" "d < k \<Longrightarrow> (x * k + d) div k = (x::nat)"
  by auto

lemma sextets:
  fixes a b c :: nat
  assumes "a < 256" "b < 256" "c < 256"
  shows "a div 4 < 64" "a mod 4 * 16 < 64" "a mod 4 * 16 + b div 16 < 64" "b mod 16 * 4 < 64"
    "b mod 16 * 4 + c div 64 < 64" "c mod 64 < 64"
    "a div 4 * 4 + (a mod 4 * 16) div 16 = a"
    "a div 4 * 4 + (a mod 4 * 16 + b div 16) div 16 = a"
    "(a mod 4 * 16 + b div 16) mod 16 * 16 + (b mod 16 * 4) div 4 = b"
    "(a mod 4 * 16 + b div 16) mod 16 * 16 + (b mod 16 * 4 + c div 64) div 4 = b"
    "(b mod 16 * 4 + c div 64) mod 4 * 64 + c mod 64 = c"
proof -
  have d: "b div 16 < 16" "c div 64 < 4" "a mod 4 < 4" "b mod 16 < 16" using assms by auto
  show "a div 4 < 64" "c mod 64 < 64" using assms by auto
  show "a mod 4 * 16 < 64" "a mod 4 * 16 + b div 16 < 64" "b mod 16 * 4 < 64" "b mod 16 * 4 + c div 64 < 64"
    using d by linarith+
  show "a div 4 * 4 + (a mod 4 * 16) div 16 = a"
    "a div 4 * 4 + (a mod 4 * 16 + b div 16) div 16 = a"
    "(a mod 4 * 16 + b div 16) mod 16 * 16 + (b mod 16 * 4) div 4 = b"
    "(a mod 4 * 16 + b div 16) mod 16 * 16 + (b mod 16 * 4 + c div 64) div 4 = b"
    "(b mod 16 * 4 + c div 64) mod 4 * 64 + c mod 64 = c"
    using digit_of_sum [OF d(1)] digit_of_sum [OF d(2)] by simp_all
qed
lemma byte_back: "x = code c \<Longrightarrow> char_of x = c" for c :: char
  by simp

lemma sextet_bytes:
  fixes a b c :: char
  shows "char_of (nat (int (code a div 4) * 4 + int (code a mod 4 * 16) div 16)) = a"
    "char_of (nat (int (code a div 4) * 4 + int (code a mod 4 * 16 + code b div 16) div 16)) = a"
    "char_of (nat (int (code a mod 4 * 16 + code b div 16) mod 16 * 16 + int (code b mod 16 * 4) div 4)) = b"
    "char_of (nat (int (code a mod 4 * 16 + code b div 16) mod 16 * 16
       + int (code b mod 16 * 4 + code c div 64) div 4)) = b"
    "char_of (nat (int (code b mod 16 * 4 + code c div 64) mod 4 * 64 + int (code c mod 64))) = c"
proof -
  have n: "nat (int x * 4 + int y div 16) = x * 4 + y div 16"
    "nat (int x mod 16 * 16 + int y div 4) = x mod 16 * 16 + y div 4"
    "nat (int x mod 4 * 64 + int y) = x mod 4 * 64 + y" for x y :: nat
    by (simp_all add: nat_add_distrib nat_mult_distrib nat_div_distrib nat_mod_distrib)
  note s = sextets [OF code_less_256 [of a] code_less_256 [of b] code_less_256 [of c]]
  show "char_of (nat (int (code a div 4) * 4 + int (code a mod 4 * 16) div 16)) = a"
    "char_of (nat (int (code a div 4) * 4 + int (code a mod 4 * 16 + code b div 16) div 16)) = a"
    "char_of (nat (int (code a mod 4 * 16 + code b div 16) mod 16 * 16 + int (code b mod 16 * 4) div 4)) = b"
    "char_of (nat (int (code a mod 4 * 16 + code b div 16) mod 16 * 16
       + int (code b mod 16 * 4 + code c div 64) div 4)) = b"
    "char_of (nat (int (code b mod 16 * 4 + code c div 64) mod 4 * 64 + int (code c mod 64))) = c"
    unfolding n by (intro byte_back s)+
qed

text \<open>The most bytes a decoder may return, and what it must do with the bytes \<open>bs\<close>.\<close>

definition data_limit :: "int \<Rightarrow> int" where
  "data_limit budget = min budget 4294967295"

definition decoded_within :: "int \<Rightarrow> string \<Rightarrow> decoded \<Rightarrow> bool" where
  "decoded_within budget bs d =
     (if int (length bs) \<le> data_limit budget then d = DecOk bs
      else (case d of DecTooLarge out \<Rightarrow> take (length out) bs = out \<and> length out < length bs | _ \<Rightarrow> False))"

lemma append_budget:
  "int used \<le> data_limit budget \<Longrightarrow>
   append_response_budgeted len (int used) budget = (int (used + len) \<le> data_limit budget)"
  by (auto simp: append_response_budgeted_def data_limit_def)

lemma decoded_done:
  assumes "int (length out) \<le> data_limit budget"
  shows "decoded_within budget (out @ bs)
    (if append_response_budgeted (length bs) (int (length out)) budget
     then DecOk (out @ bs) else DecTooLarge out)"
  using assms by (auto simp: append_budget decoded_within_def)

lemma decoded_step:
  assumes "int (length out) \<le> data_limit budget" "k = length bs"
    and "int (length (out @ bs)) \<le> data_limit budget \<Longrightarrow> decoded_within budget (out @ bs @ rest) d"
  shows "decoded_within budget (out @ bs @ rest)
    (if append_response_budgeted k (int (length out)) budget then d else DecTooLarge out)"
  using assms by (auto simp: append_budget decoded_within_def)

lemma base64_loop_encode:
  "int (length out) \<le> data_limit budget \<Longrightarrow>
   decoded_within budget (out @ bs) (base64_loop budget (base64_encode pad bs) [] False out)"
proof (induction pad bs arbitrary: out rule: base64_encode.induct)
  case (1 pad)
  then show ?case using decoded_done [OF 1, of "[]"] by (simp add: base64_tail_def)
next
  case (2 pad a)
  note x = sextets [OF code_less_256 [of a] code_less_256 [of a] code_less_256 [of a]]
  have "base64_loop budget (base64_encode pad [a]) [] False out =
    (if append_response_budgeted (length [a]) (int (length out)) budget then DecOk (out @ [a])
     else DecTooLarge out)"
    by (cases pad)
      (simp_all add: base64_step x base64_pad base64_tail_def sextet_bytes [simplified] append_response_budgeted_def
        del: base64_loop.simps(2))
  then show ?case using decoded_done [OF 2, of "[a]"] by simp
next
  case (3 pad a b)
  note x = sextets [OF code_less_256 [of a] code_less_256 [of b] code_less_256 [of b]]
  have "base64_loop budget (base64_encode pad [a, b]) [] False out =
    (if append_response_budgeted (length [a, b]) (int (length out)) budget then DecOk (out @ [a, b])
     else DecTooLarge out)"
    by (cases pad)
      (simp_all add: base64_step x base64_pad base64_tail_def sextet_bytes [simplified] append_response_budgeted_def
        del: base64_loop.simps(2))
  then show ?case using decoded_done [OF 3, of "[a, b]"] by simp
next
  case (4 pad a b c r)
  note x = sextets [OF code_less_256 [of a] code_less_256 [of b] code_less_256 [of c]]
  have "base64_loop budget (base64_encode pad (a # b # c # r)) [] False out =
    (if append_response_budgeted (length [a, b, c]) (int (length out)) budget
     then base64_loop budget (base64_encode pad r) [] False (out @ [a, b, c]) else DecTooLarge out)"
    by (simp add: base64_step base64_step_full x sextet_bytes [simplified] del: base64_loop.simps(2))
  then show ?case
    using decoded_step [OF "4.prems" refl, of "[a, b, c]" r] "4.IH" [of "out @ [a, b, c]"] by simp
qed

section \<open>Percent-encoded text is decoded\<close>

definition percent_encode :: "(char \<Rightarrow> bool) \<Rightarrow> string \<Rightarrow> string" where
  "percent_encode keep bs =
     concat (map (\<lambda>c. if keep c \<and> c \<noteq> CHR ''%'' then [c]
                      else [CHR ''%'', form_hex (code c div 16), form_hex (code c mod 16)]) bs)"

lemma form_hex_value:
  assumes "d < 16"
  shows "ascii_isxdigit (form_hex d)" "xdigit_value (form_hex d) = d"
proof -
  have c: "code (form_hex d) = (if d < 10 then 48 + d else 55 + d)" using assms by (simp add: form_hex_def)
  then show "ascii_isxdigit (form_hex d)" "xdigit_value (form_hex d) = d"
    using assms by (auto simp: xdigit_value_def ascii_isxdigit_def ascii_isdigit_def ascii_isupper_def)
qed

lemma hex_pair_form_hex:
  "hex_pair (form_hex (code c div 16) # form_hex (code c mod 16) # r) = Some (c, r)"
proof -
  have "code c div 16 < (16 :: nat)" using code_less_256 [of c] by (simp add: less_mult_imp_div_less)
  then show ?thesis by (simp add: hex_pair_def form_hex_value)
qed

lemma uri_loop_encode:
  "int (length out) \<le> data_limit budget \<Longrightarrow> length buf < 8192 \<Longrightarrow>
   decoded_within budget (out @ buf @ bs) (uri_loop budget (percent_encode keep bs) buf out)"
proof (induction bs arbitrary: buf out)
  case Nil
  then show ?case using decoded_done [OF Nil(1), of buf] by (simp add: percent_encode_def)
next
  case (Cons b bs)
  have *: "uri_loop budget (percent_encode keep (b # bs)) buf out =
    (if length (buf @ [b]) = 8192 then
       (if append_response_budgeted 8192 (int (length out)) budget
        then uri_loop budget (percent_encode keep bs) [] (out @ buf @ [b]) else DecTooLarge out)
     else uri_loop budget (percent_encode keep bs) (buf @ [b]) out)"
    by (simp add: percent_encode_def hex_pair_form_hex)
  show ?case
  proof (cases "length (buf @ [b]) = 8192")
    case True
    then show ?thesis
      using decoded_step [OF Cons.prems(1), of 8192 "buf @ [b]" bs] Cons.IH [of "out @ buf @ [b]" "[]"]
      unfolding * by simp
  next
    case False
    then show ?thesis using Cons.prems Cons.IH [of out "buf @ [b]"] unfolding * by simp
  qed
qed

section \<open>Data addresses carry their bytes\<close>

lemma data_meta_base64:
  "data_meta (mime @ '';base64'') = (if mime \<noteq> [] then mime else ''text/plain;charset=UTF-8'', True)"
proof -
  have "strchomp (mime @ '';base64'') = mime @ '';base64''"
    by (simp add: strchomp_def ascii_isspace_def)
  then show ?thesis unfolding data_meta_def Let_def by simp
qed

lemma ns_data_url_decode_split:
  assumes "CHR '','' \<notin> set meta"
  shows "ns_data_url_decode budget (Some (''data:'' @ meta @ CHR '','' # data)) =
    (Some (fst (data_meta meta)),
     if snd (data_meta meta) then decode_data_base64_budgeted budget data
     else decode_data_uri_budgeted budget data)"
proof -
  have "takeWhile (\<lambda>c. c \<noteq> CHR '','') (meta @ CHR '','' # data) = meta"
    using assms by (subst takeWhile_append2) auto
  then show ?thesis
    using assms by (simp add: ns_data_url_decode_def split: prod.split)
qed

text \<open>(C24) A data address carries its bytes: base64 text, with any white space in it
  and with or without its padding, and percent-encoded text, whichever characters
  were left as they are, are decoded to exactly the bytes that were encoded when
  these fit the budget, and are refused as too large, with at most a strict prefix
  decoded, when they do not. The type is the text before the marker.\<close>

theorem data_url_roundtrip:
  assumes "0 \<le> budget" and "CHR '','' \<notin> set mime" and "mime \<noteq> []"
    and "filter (\<lambda>c. \<not> ascii_isspace c) body = base64_encode pad bs" and "CHR ''%'' \<notin> set body"
    and "data_meta mime = (mime, False)"
  shows "(let (t, d) = ns_data_url_decode budget (Some (''data:'' @ mime @ '';base64,'' @ body))
          in t = Some mime \<and> decoded_within budget bs d)
    \<and> (let (t, d) = ns_data_url_decode budget (Some (''data:'' @ mime @ '','' @ percent_encode keep bs))
       in t = Some mime \<and> decoded_within budget bs d)"
proof -
  have lim: "0 \<le> data_limit budget" using assms(1) by (simp add: data_limit_def)
  have "decoded_within budget bs (decode_data_base64_budgeted budget body)"
    using base64_loop_encode [of "[]" budget bs pad] lim base64_loop_spaces [OF assms(5)] assms(4)
    by (simp add: decode_data_base64_budgeted_def)
  moreover have "decoded_within budget bs (decode_data_uri_budgeted budget (percent_encode keep bs))"
    using uri_loop_encode [of "[]" budget "[]" bs keep] lim
    by (simp add: decode_data_uri_budgeted_def)
  ultimately show ?thesis
    using ns_data_url_decode_split [of "mime @ '';base64''" budget body] data_meta_base64 [of mime]
      ns_data_url_decode_split [of mime budget "percent_encode keep bs"] assms(2,3,6)
    by simp
qed

theorem data_url_roundtrip_witness:
  "(let (t, d) = ns_data_url_decode 4 (Some (''data:'' @ ''text/css'' @ '';base64,'' @ ''YXsg fQ==''))
      in t = Some ''text/css'' \<and> decoded_within 4 ''a{ }'' d)
    \<and> (let (t, d) = ns_data_url_decode 4 (Some (''data:'' @ ''text/css'' @ '',''
              @ percent_encode (\<lambda>c. c = CHR ''a'') ''a{ }''))
       in t = Some ''text/css'' \<and> decoded_within 4 ''a{ }'' d)"
proof (rule data_url_roundtrip)
  show "filter (\<lambda>c. \<not> ascii_isspace c) ''YXsg fQ=='' = base64_encode True ''a{ }''"
    by (simp add: ascii_isspace_def base64_char_def base64_alphabet_def)
  show "data_meta ''text/css'' = (''text/css'', False)"
    by (simp add: data_meta_def strchomp_def ascii_isspace_def strcaseeq_def ascii_tolower_def
        ascii_isupper_def)
qed simp_all

section \<open>Form bodies carry their fields\<close>

text \<open>The parser of \<open>application/x-www-form-urlencoded\<close>: fields between ampersands,
  name and value around the first equals sign, plus signs and percent triples
  decoded.\<close>

fun form_decode :: "string \<Rightarrow> string" where
  "form_decode [] = []"
| "form_decode (c # r) =
     (if c = CHR ''+'' then SP # form_decode r
      else if c = CHR ''%'' then
        (case r of
           a # b # t \<Rightarrow>
             if ascii_isxdigit a \<and> ascii_isxdigit b
             then char_of (xdigit_value a * 16 + xdigit_value b) # form_decode t
             else c # form_decode r
         | _ \<Rightarrow> c # form_decode r)
      else c # form_decode r)"

definition form_parse :: "string \<Rightarrow> (string \<times> string) list" where
  "form_parse s =
     map (\<lambda>f. (form_decode (takeWhile (\<lambda>c. c \<noteq> CHR ''='') f),
               form_decode (tl (dropWhile (\<lambda>c. c \<noteq> CHR ''='') f))))
       (strsplit CHR ''&'' s)"

text \<open>The bytes a field is submitted as.\<close>

definition form_text :: "(string \<Rightarrow> string \<Rightarrow> cptr) \<Rightarrow> cptr \<Rightarrow> cptr \<Rightarrow> string" where
  "form_text convert charset s =
     (case s of None \<Rightarrow> []
      | Some t \<Rightarrow>
        until_nul (case charset of None \<Rightarrow> t
                   | Some cs \<Rightarrow> (case convert cs t of None \<Rightarrow> t | Some v \<Rightarrow> v)))"

lemma ns_form_urlencoded_append_eq:
  "ns_form_urlencoded_append convert charset s = concat (map form_char (form_text convert charset s))"
  by (simp add: ns_form_urlencoded_append_def form_text_def split: option.split)

lemma form_hex_alnum: "d < 16 \<Longrightarrow> ascii_isalnum (form_hex d)"
  using form_hex_value(1) [of d]
  by (auto simp: ascii_isxdigit_def ascii_isalnum_def ascii_isalpha_def ascii_isupper_def ascii_islower_def)

lemma form_char_chars:
  assumes "x \<in> set (form_char c)"
  shows "x \<noteq> CHR ''&''" "x \<noteq> CHR ''=''"
proof -
  have d: "code c div 16 < (16 :: nat)" "code c mod 16 < (16 :: nat)"
    using code_less_256 [of c] by (simp_all add: less_mult_imp_div_less)
  have n: "\<not> ascii_isalnum CHR ''&''" "\<not> ascii_isalnum CHR ''=''"
    by (simp_all add: ascii_isalnum_def ascii_isalpha_def ascii_isupper_def ascii_islower_def ascii_isdigit_def)
  show "x \<noteq> CHR ''&''" "x \<noteq> CHR ''=''"
    using assms form_hex_alnum [OF d(1)] form_hex_alnum [OF d(2)] n
    by (auto simp: form_char_def split: if_splits)
qed

lemma form_decode_char: "form_decode (form_char c @ r) = c # form_decode r"
proof -
  have d: "code c div 16 < (16 :: nat)" using code_less_256 [of c] by (simp add: less_mult_imp_div_less)
  have n: "\<not> ascii_isalnum CHR ''+''" "\<not> ascii_isalnum CHR ''%''"
    by (simp_all add: ascii_isalnum_def ascii_isalpha_def ascii_isupper_def ascii_islower_def ascii_isdigit_def)
  have "form_decode (CHR ''%'' # form_hex (code c div 16) # form_hex (code c mod 16) # r) = c # form_decode r"
    by (simp add: form_hex_value d)
  moreover have "form_decode (c # r) = c # form_decode r" if "c \<noteq> CHR ''+''" "c \<noteq> CHR ''%''"
    using that by simp
  ultimately show ?thesis
    using n by (cases "ascii_isalnum c \<or> c = CHR ''*'' \<or> c = CHR ''-'' \<or> c = CHR ''.'' \<or> c = CHR ''_''")
      (auto simp: form_char_def simp del: form_decode.simps(2) simp: form_decode.simps(2) [of "CHR ''+''"])
qed

lemma form_decode_chars: "form_decode (concat (map form_char s)) = s"
  by (induction s) (simp_all add: form_decode_char del: form_decode.simps(2))

text \<open>The body is the list of the encoded fields, joined by ampersands.\<close>

definition form_field :: "(string \<Rightarrow> string \<Rightarrow> cptr) \<Rightarrow> cptr \<Rightarrow> cptr \<times> cptr \<Rightarrow> string" where
  "form_field convert charset p =
     concat (map form_char (form_text convert charset (fst p))) @ ''=''
     @ concat (map form_char (form_text convert charset (snd p)))"

definition form_body :: "(string \<Rightarrow> string \<Rightarrow> cptr) \<Rightarrow> cptr \<Rightarrow> (cptr \<times> cptr) list \<Rightarrow> string" where
  "form_body convert charset pairs =
     fst (fold (ns_form_urlencoded_append_pair convert charset) pairs ([], True))"

lemma form_body_fields:
  "fold (ns_form_urlencoded_append_pair convert charset) pairs (out, first) =
   (let fs = map (form_field convert charset) (filter (\<lambda>p. fst p \<noteq> None) pairs)
    in (out @ (if fs = [] then [] else (if first then [] else ''&'') @ strjoin ''&'' fs),
        first \<and> fs = []))"
proof (induction pairs arbitrary: out first)
  case (Cons p ps)
  then show ?case
    by (cases p; cases "fst p"; cases "map (form_field convert charset) (filter (\<lambda>p. fst p \<noteq> None) ps)")
      (auto simp: ns_form_urlencoded_append_pair_def form_field_def ns_form_urlencoded_append_eq Let_def)
qed simp

lemma form_field_parse:
  assumes "f = form_field convert charset p"
  shows "form_decode (takeWhile (\<lambda>c. c \<noteq> CHR ''='') f) = form_text convert charset (fst p)"
    "form_decode (tl (dropWhile (\<lambda>c. c \<noteq> CHR ''='') f)) = form_text convert charset (snd p)"
    "CHR ''&'' \<notin> set f"
proof -
  define n where "n = concat (map form_char (form_text convert charset (fst p)))"
  define v where "v = concat (map form_char (form_text convert charset (snd p)))"
  have f: "f = n @ CHR ''='' # v" by (simp add: assms form_field_def n_def v_def)
  have n: "CHR ''='' \<notin> set n" "CHR ''&'' \<notin> set n" "CHR ''&'' \<notin> set v"
    unfolding n_def v_def using form_char_chars by fastforce+
  have "dropWhile (\<lambda>c. c \<noteq> CHR ''='') f = CHR ''='' # v"
    using n(1) unfolding f by (subst dropWhile_append2) auto
  then show "form_decode (takeWhile (\<lambda>c. c \<noteq> CHR ''='') f) = form_text convert charset (fst p)"
    "form_decode (tl (dropWhile (\<lambda>c. c \<noteq> CHR ''='') f)) = form_text convert charset (snd p)"
    using n(1) by (simp_all add: f) (simp_all add: n_def v_def form_decode_chars)
  show "CHR ''&'' \<notin> set f" using n by (simp add: f)
qed

text \<open>(C25) What a form submits is what the server reads: parsing the body built from
  the fields gives back, in order, the converted name and value of every field that
  has a name, whatever bytes they hold; no byte of a field can start another field.\<close>

theorem form_urlencoded_roundtrip:
  "form_parse (form_body convert charset pairs) =
   map (\<lambda>p. (form_text convert charset (fst p), form_text convert charset (snd p)))
     (filter (\<lambda>p. fst p \<noteq> None) pairs)"
proof -
  define named where "named = filter (\<lambda>p. fst p \<noteq> None) pairs"
  define fs where "fs = map (form_field convert charset) named"
  have body: "form_body convert charset pairs = strjoin ''&'' fs"
    unfolding form_body_def form_body_fields fs_def named_def by (simp add: Let_def)
  have split: "strsplit CHR ''&'' (strjoin ''&'' fs) = fs"
  proof (cases "fs = []")
    case False
    then obtain p ps where p: "fs = form_field convert charset p # ps" by (cases named) (auto simp: fs_def)
    have "strjoin ''&'' fs \<noteq> []" unfolding p by (cases ps) (simp_all add: form_field_def)
    moreover have "split_on (\<lambda>c. c = CHR ''&'') (strjoin ''&'' fs) = fs"
      using False form_field_parse(3) by (intro split_on_strjoin) (auto simp: fs_def)
    ultimately show ?thesis by (simp add: strsplit_set_def)
  qed (simp add: strsplit_set_def)
  show ?thesis
    unfolding body form_parse_def split by (simp add: fs_def named_def form_field_parse)
qed

end
