(* ===== verification/Css_Syntax.thy ===== *)
theory Css_Syntax
  imports CString
begin

text \<open>
  The tokenizer and component-value parser of \<open>src/src/css_syntax.c\<close>. The input
  is a list of bytes, positions are offsets into it as in the code. The recursive
  descent takes fuel; \<open>css_list_total\<close> shows that one more than the number of
  remaining bytes is always enough, so that \<open>ns_css_component_values_parse\<close>, which
  starts with that, never runs out.
\<close>

section \<open>Names, escapes and numbers\<close>

definition css_syntax_whitespace :: "char \<Rightarrow> bool" where
  "css_syntax_whitespace c = (c = SP \<or> c = HT \<or> c = LF \<or> c = CR \<or> c = FF)"

definition css_syntax_name_start :: "char \<Rightarrow> bool" where
  "css_syntax_name_start c = (ascii_isalpha c \<or> c = CHR ''_'' \<or> code c \<ge> 128)"

definition css_syntax_name :: "char \<Rightarrow> bool" where
  "css_syntax_name c = (css_syntax_name_start c \<or> ascii_isdigit c \<or> c = CHR ''-'')"

text \<open>The offset a \<open>while\<close> loop stops at that skips bytes satisfying \<open>P\<close>, and the
  same with a limit on the number of bytes.\<close>

definition skip_while :: "(char \<Rightarrow> bool) \<Rightarrow> string \<Rightarrow> nat \<Rightarrow> nat" where
  "skip_while P input off = off + length (takeWhile P (drop off input))"

definition skip_while_max :: "nat \<Rightarrow> (char \<Rightarrow> bool) \<Rightarrow> string \<Rightarrow> nat \<Rightarrow> nat" where
  "skip_while_max n P input off = off + length (takeWhile P (take n (drop off input)))"

definition css_newline :: "char \<Rightarrow> bool" where
  "css_newline c = (c = LF \<or> c = CR \<or> c = FF)"

definition css_syntax_escape_end :: "string \<Rightarrow> nat \<Rightarrow> nat" where
  "css_syntax_escape_end input off =
     (if off \<ge> length input \<or> input ! off \<noteq> BSL then off
      else
        let o1 = off + 1
        in if o1 \<ge> length input then o1
           else if ascii_isxdigit (input ! o1) then
             (let o2 = skip_while_max 6 ascii_isxdigit input o1
              in if o2 < length input \<and> css_syntax_whitespace (input ! o2) then o2 + 1 else o2)
           else if css_newline (input ! o1) then o1 - 1
           else o1 + 1)"

lemma skip_while_bounds:
  "off \<le> skip_while P input off"
  "off \<le> length input \<Longrightarrow> skip_while P input off \<le> length input"
  using length_takeWhile_le [of P "drop off input"] by (auto simp: skip_while_def)

lemma skip_while_max_bounds:
  "off \<le> skip_while_max n P input off"
  "off \<le> length input \<Longrightarrow> skip_while_max n P input off \<le> length input"
  using length_takeWhile_le [of P "take n (drop off input)"] by (auto simp: skip_while_max_def)

lemma css_syntax_escape_end_bounds:
  "off \<le> css_syntax_escape_end input off"
  "off \<le> length input \<Longrightarrow> css_syntax_escape_end input off \<le> length input"
  using skip_while_max_bounds [where off = "Suc off" and n = 6 and P = ascii_isxdigit and input = input]
  by (auto simp: css_syntax_escape_end_def Let_def)

function css_syntax_name_end :: "string \<Rightarrow> nat \<Rightarrow> nat" where
  "css_syntax_name_end input off =
     (if off < length input then
        if css_syntax_name (input ! off) then css_syntax_name_end input (off + 1)
        else if input ! off = BSL then
          (let next = css_syntax_escape_end input off
           in if next = off then off else css_syntax_name_end input next)
        else off
      else off)"
  by pat_completeness auto
termination
proof (relation "measure (\<lambda>(input, off). length input - off)", goal_cases)
  case (3 input off x)
  then show ?case using css_syntax_escape_end_bounds(1) [of off input] by auto
qed auto

declare css_syntax_name_end.simps [simp del]

definition css_syntax_valid_escape :: "string \<Rightarrow> nat \<Rightarrow> bool" where
  "css_syntax_valid_escape input off =
     (off + 1 < length input \<and> input ! off = BSL \<and> input ! (off + 1) \<noteq> LF
      \<and> input ! (off + 1) \<noteq> CR \<and> input ! (off + 1) \<noteq> FF)"

definition css_syntax_starts_ident :: "string \<Rightarrow> nat \<Rightarrow> bool" where
  "css_syntax_starts_ident input off =
     (if off \<ge> length input then False
      else
        let a = input ! off
        in if css_syntax_name_start a then True
           else if a = BSL then css_syntax_valid_escape input off
           else if a \<noteq> CHR ''-'' then False
           else if off + 1 \<ge> length input then False
           else
             let b = input ! (off + 1)
             in css_syntax_name_start b \<or> b = CHR ''-'' \<or> css_syntax_valid_escape input (off + 1))"

definition css_syntax_starts_number :: "string \<Rightarrow> nat \<Rightarrow> bool" where
  "css_syntax_starts_number input off =
     (if off \<ge> length input then False
      else
        let a = input ! off;
            b = (if off + 1 < length input then input ! (off + 1) else NUL);
            c = (if off + 2 < length input then input ! (off + 2) else NUL)
        in if ascii_isdigit a then True
           else if a = CHR ''.'' then ascii_isdigit b
           else if a = CHR ''+'' \<or> a = CHR ''-''
           then ascii_isdigit b \<or> (b = CHR ''.'' \<and> ascii_isdigit c)
           else False)"

text \<open>The three parts of a number: sign and integer digits, fraction, exponent.\<close>

definition number_integer :: "string \<Rightarrow> nat \<Rightarrow> nat" where
  "number_integer input off =
     skip_while ascii_isdigit input
       (if off < length input \<and> (input ! off = CHR ''+'' \<or> input ! off = CHR ''-'') then off + 1 else off)"

definition number_fraction :: "string \<Rightarrow> nat \<Rightarrow> nat" where
  "number_fraction input off =
     (if off + 1 < length input \<and> input ! off = CHR ''.'' \<and> ascii_isdigit (input ! (off + 1))
      then skip_while ascii_isdigit input (off + 1) else off)"

definition number_exponent :: "string \<Rightarrow> nat \<Rightarrow> nat" where
  "number_exponent input off =
     (if off < length input \<and> (input ! off = CHR ''e'' \<or> input ! off = CHR ''E'') then
        let e0 = off + 1;
            e1 = (if e0 < length input \<and> (input ! e0 = CHR ''+'' \<or> input ! e0 = CHR ''-'') then e0 + 1 else e0)
        in if e1 < length input \<and> ascii_isdigit (input ! e1)
           then skip_while ascii_isdigit input (e1 + 1) else off
      else off)"

definition css_syntax_number_end :: "string \<Rightarrow> nat \<Rightarrow> nat" where
  "css_syntax_number_end input off =
     number_exponent input (number_fraction input (number_integer input off))"

section \<open>Components\<close>

datatype ns_css_component_type =
  CssWhitespace | CssIdent | CssFunction | CssString | CssNumber | CssPercentage | CssDimension
| CssHash | CssAtKeyword | CssColon | CssSemicolon | CssComma | CssDelim | CssBlock

text \<open>The number is kept as the text \<open>g_ascii_strtod\<close> reads; it is empty where the
  code leaves the field at 0.0. \<open>c_delimiter\<close> is \<open>NUL\<close> where it stays unset.\<close>

datatype ns_css_component = CssComponent
  (c_type: ns_css_component_type) (c_start: nat) (c_end: nat) (c_value: cptr)
  (c_number: string) (c_children: "ns_css_component list option") (c_delimiter: char)

record ns_css_syntax_parser =
  p_input :: string
  p_offset :: nat
  p_valid :: bool

abbreviation slice :: "string \<Rightarrow> nat \<Rightarrow> nat \<Rightarrow> string" where
  "slice input a b \<equiv> take (b - a) (drop a input)"

text \<open>The offset of the end of a comment whose \<open>/*\<close> was at \<open>off - 2\<close>.\<close>

function comment_end :: "string \<Rightarrow> nat \<Rightarrow> nat" where
  "comment_end input off =
     (if off + 1 < length input then
        if input ! off = CHR ''*'' \<and> input ! (off + 1) = CHR ''/'' then off + 2
        else comment_end input (off + 1)
      else length input)"
  by pat_completeness auto
termination by (relation "measure (\<lambda>(input, off). length input - off)") auto

declare comment_end.simps [simp del]

lemma comment_end_bounds:
  "off \<le> length input \<Longrightarrow> off \<le> comment_end input off"
  "comment_end input off \<le> length input"
proof (induction input off rule: comment_end.induct)
  case (1 input off)
  { case 1 then show ?case using "1.IH" by (subst comment_end.simps) auto }
  { case 2 then show ?case using "1.IH" by (subst comment_end.simps) auto }
qed

definition css_syntax_skip_comment :: "ns_css_syntax_parser \<Rightarrow> ns_css_syntax_parser" where
  "css_syntax_skip_comment p = p\<lparr>p_offset := comment_end (p_input p) (p_offset p + 2)\<rparr>"

text \<open>The body of a string from \<open>off\<close>: its value, where it ends, and whether it is
  well formed.\<close>

function string_body :: "char \<Rightarrow> string \<Rightarrow> nat \<Rightarrow> string \<Rightarrow> string \<times> nat \<times> bool" where
  "string_body quote input off v =
     (if off < length input then
        let c = input ! off
        in if c = quote then (v, off + 1, True)
           else if css_newline c then (v, off + 1, False)
           else if c = BSL \<and> off + 1 < length input then
             (let next = css_syntax_escape_end input off
              in if next = off then (v, off + 1, False)
                 else string_body quote input next (v @ slice input off next))
           else string_body quote input (off + 1) (v @ [c])
      else (v, off, True))"
  by pat_completeness auto
termination
proof (relation "measure (\<lambda>(quote, input, off, v). length input - off)", goal_cases)
  case (2 quote input off v c x)
  then show ?case using css_syntax_escape_end_bounds(1) [of off input] by auto
qed auto

declare string_body.simps [simp del]

definition css_syntax_consume_string ::
    "ns_css_syntax_parser \<Rightarrow> ns_css_component \<times> ns_css_syntax_parser" where
  "css_syntax_consume_string p =
     (let start = p_offset p;
          quote = p_input p ! start;
          (v, e, ok) = string_body quote (p_input p) (start + 1) []
      in (CssComponent CssString start e (Some v) [] None quote,
          p\<lparr>p_offset := e, p_valid := p_valid p \<and> ok\<rparr>))"

definition css_syntax_consume_numeric ::
    "ns_css_syntax_parser \<Rightarrow> ns_css_component \<times> ns_css_syntax_parser" where
  "css_syntax_consume_numeric p =
     (let input = p_input p;
          start = p_offset p;
          number_end = css_syntax_number_end input start;
          (ty, e) =
            (if number_end < length input \<and> input ! number_end = CHR ''%''
             then (CssPercentage, number_end + 1)
             else if css_syntax_starts_ident input number_end
             then (CssDimension, css_syntax_name_end input number_end)
             else (CssNumber, number_end))
      in (CssComponent ty start e (Some (slice input number_end e)) (slice input start number_end) None NUL,
          p\<lparr>p_offset := e\<rparr>))"

text \<open>What \<open>css_syntax_consume\<close> does with the byte at the offset: white space, a
  string, a number, an identifier (after \<open>@\<close>, after \<open>#\<close>, bare), or one
  character.\<close>

datatype css_branch = BrWhitespace | BrString | BrNumeric | BrAt | BrHash | BrIdent | BrSingle

definition css_branch_at :: "string \<Rightarrow> nat \<Rightarrow> css_branch" where
  "css_branch_at input off =
     (let c = input ! off
      in if css_syntax_whitespace c then BrWhitespace
         else if c = DQ \<or> c = SQ then BrString
         else if css_syntax_starts_number input off then BrNumeric
         else if c = CHR ''@'' \<and> css_syntax_starts_ident input (off + 1) then BrAt
         else if c = CHR ''#'' \<and> off + 1 < length input
           \<and> (css_syntax_name (input ! (off + 1)) \<or> css_syntax_valid_escape input (off + 1)) then BrHash
         else if css_syntax_starts_ident input off then BrIdent
         else BrSingle)"

definition single_type :: "char \<Rightarrow> ns_css_component_type" where
  "single_type c =
     (if c = CHR '':'' then CssColon else if c = CHR '';'' then CssSemicolon
      else if c = CHR '','' then CssComma else CssDelim)"

definition closer :: "char \<Rightarrow> char" where
  "closer c = (if c = CHR ''('' then CHR '')'' else if c = CHR ''['' then CHR '']'' else CHR ''}'')"

abbreviation opens :: "char \<Rightarrow> bool" where
  "opens c \<equiv> c = CHR ''('' \<or> c = CHR ''['' \<or> c = CHR ''{''"

abbreviation closes :: "char \<Rightarrow> bool" where
  "closes c \<equiv> c = CHR '')'' \<or> c = CHR '']'' \<or> c = CHR ''}''"

section \<open>The parser\<close>

text \<open>\<open>closing\<close> is \<open>NUL\<close> at the top level. \<open>None\<close> stands for running out of fuel.\<close>

function (sequential)
  css_syntax_consume_ident ::
    "nat \<Rightarrow> bool \<Rightarrow> bool \<Rightarrow> ns_css_syntax_parser \<Rightarrow> (ns_css_component \<times> ns_css_syntax_parser) option"
and css_syntax_consume ::
    "nat \<Rightarrow> ns_css_syntax_parser \<Rightarrow> (ns_css_component \<times> ns_css_syntax_parser) option"
and css_syntax_parse_list ::
    "nat \<Rightarrow> char \<Rightarrow> ns_css_syntax_parser \<Rightarrow> (ns_css_component list \<times> ns_css_syntax_parser) option" where
  "css_syntax_consume_ident n at hash p =
     (let input = p_input p;
          start = p_offset p;
          name_start = (if at \<or> hash then start + 1 else start);
          name_end = css_syntax_name_end input name_start;
          v = Some (slice input name_start name_end)
      in if \<not> at \<and> \<not> hash \<and> name_end < length input \<and> input ! name_end = CHR ''('' then
           (case css_syntax_parse_list n CHR '')'' (p\<lparr>p_offset := name_end + 1\<rparr>) of
              None \<Rightarrow> None
            | Some (cs, p1) \<Rightarrow>
                Some (CssComponent CssFunction start (p_offset p1) v [] (Some cs) CHR '')'', p1))
         else
           Some (CssComponent (if at then CssAtKeyword else if hash then CssHash else CssIdent)
                   start name_end v [] None NUL, p\<lparr>p_offset := name_end\<rparr>))"
| "css_syntax_consume n p =
     (let input = p_input p;
          start = p_offset p;
          c = input ! start
      in case css_branch_at input start of
           BrWhitespace \<Rightarrow>
             (let e = skip_while css_syntax_whitespace input start
              in Some (CssComponent CssWhitespace start e None [] None NUL, p\<lparr>p_offset := e\<rparr>))
         | BrString \<Rightarrow> Some (css_syntax_consume_string p)
         | BrNumeric \<Rightarrow> Some (css_syntax_consume_numeric p)
         | BrAt \<Rightarrow> css_syntax_consume_ident n True False p
         | BrHash \<Rightarrow> css_syntax_consume_ident n False True p
         | BrIdent \<Rightarrow> css_syntax_consume_ident n False False p
         | BrSingle \<Rightarrow>
             if opens c then
               (case css_syntax_parse_list n (closer c) (p\<lparr>p_offset := start + 1\<rparr>) of
                  None \<Rightarrow> None
                | Some (cs, p1) \<Rightarrow>
                    Some (CssComponent CssBlock start (p_offset p1) None [] (Some cs) (closer c), p1))
             else Some (CssComponent (single_type c) start (start + 1) None [] None c,
                        p\<lparr>p_offset := start + 1\<rparr>))"
| "css_syntax_parse_list 0 closing p = None"
| "css_syntax_parse_list (Suc n) closing p =
     (let input = p_input p
      in if p_offset p < length input then
           (let c = input ! p_offset p
            in if c = CHR ''/'' \<and> p_offset p + 1 < length input \<and> input ! (p_offset p + 1) = CHR ''*''
               then css_syntax_parse_list n closing (css_syntax_skip_comment p)
               else if closing \<noteq> NUL \<and> c = closing then Some ([], p\<lparr>p_offset := p_offset p + 1\<rparr>)
               else if closes c then
                 (let p1 = p\<lparr>p_offset := p_offset p + 1, p_valid := False\<rparr>
                  in if closing \<noteq> NUL then Some ([], p1) else css_syntax_parse_list n closing p1)
               else
                 (case css_syntax_consume n p of
                    None \<Rightarrow> None
                  | Some (co, p1) \<Rightarrow>
                      (case css_syntax_parse_list n closing p1 of
                         None \<Rightarrow> None
                       | Some (cs, p2) \<Rightarrow> Some (co # cs, p2))))
         else Some ([], p))"
  by pat_completeness auto
termination
  by (relation "measure (\<lambda>x. case x of
        Inl (n, _) \<Rightarrow> 3 * n + 1
      | Inr (Inl (n, _)) \<Rightarrow> 3 * n + 2
      | Inr (Inr (n, _)) \<Rightarrow> 3 * n)")
    (auto)

text \<open>Components and validity; \<open>len\<close> is \<open>None\<close> for a negative length.\<close>

definition ns_css_component_values_parse ::
    "cptr \<Rightarrow> nat option \<Rightarrow> (ns_css_component list \<times> bool) option" where
  "ns_css_component_values_parse input len =
     (let s = (case input of None \<Rightarrow> []
               | Some t \<Rightarrow> (case len of None \<Rightarrow> until_nul t | Some n \<Rightarrow> take n t))
      in map_option (\<lambda>(cs, p). (cs, p_valid p))
           (css_syntax_parse_list (length s + 1) NUL \<lparr>p_input = s, p_offset = 0, p_valid = True\<rparr>))"

definition ns_css_component_value_valid :: "cptr \<Rightarrow> bool option" where
  "ns_css_component_value_valid input = map_option snd (ns_css_component_values_parse input None)"

section \<open>Scanning for a terminator\<close>

text \<open>The offset the scanner stops at and the terminator found, \<open>NUL\<close> if none. The
  stack of the code has 128 entries, its top is the head here. \<open>quote\<close> is \<open>NUL\<close>
  outside strings.\<close>

definition scan_stack_max :: nat where "scan_stack_max = 128"

function css_scan :: "string \<Rightarrow> string \<Rightarrow> nat \<Rightarrow> char \<Rightarrow> string \<Rightarrow> nat \<times> char" where
  "css_scan terms input off quote stack =
     (if off < length input then
        let c = input ! off
        in if quote \<noteq> NUL then
             (if c = BSL \<and> off + 1 < length input then css_scan terms input (off + 2) quote stack
              else css_scan terms input (off + 1) (if c = quote then NUL else quote) stack)
           else if c = CHR ''/'' \<and> off + 1 < length input \<and> input ! (off + 1) = CHR ''*''
           then css_scan terms input (comment_end input (off + 2)) NUL stack
           else if c = BSL \<and> off + 1 < length input then css_scan terms input (off + 2) NUL stack
           else if c = DQ \<or> c = SQ then css_scan terms input (off + 1) c stack
           else if stack = [] \<and> (c \<in> set terms \<or> c = NUL) then (off, c)
           else css_scan terms input (off + 1) NUL
                  (if opens c then (if length stack < scan_stack_max then closer c # stack else stack)
                   else if stack \<noteq> [] \<and> c = hd stack then tl stack else stack)
      else (off, NUL))"
  by pat_completeness auto
termination
proof (relation "measure (\<lambda>(terms, input, off, quote, stack). length input - off)", goal_cases)
  case (4 terms input off quote stack c)
  then show ?case using comment_end_bounds(1) [of "off + 2" input] by auto
qed auto

declare css_scan.simps [simp del]

definition ns_css_syntax_scan :: "string \<Rightarrow> string \<Rightarrow> nat \<times> char" where
  "ns_css_syntax_scan input terms = css_scan terms input 0 NUL []"

section \<open>Progress and bounds\<close>

lemma css_syntax_name_end_bounds:
  "off \<le> length input \<Longrightarrow> off \<le> css_syntax_name_end input off \<and> css_syntax_name_end input off \<le> length input"
proof (induction input off rule: css_syntax_name_end.induct)
  case (1 input off)
  have e: "off \<le> css_syntax_escape_end input off" "css_syntax_escape_end input off \<le> length input"
    using css_syntax_escape_end_bounds 1(3) by auto
  show ?case
    using "1.IH"(1) "1.IH"(2) [OF _ _ _ refl] e 1(3)
    by (subst (1 2) css_syntax_name_end.simps) (auto simp: Let_def)
qed

lemma css_syntax_name_end_step:
  assumes "off < length input" "css_syntax_name (input ! off) \<or> css_syntax_valid_escape input off"
  shows "off < css_syntax_name_end input off"
proof (cases "css_syntax_name (input ! off)")
  case True
  then show ?thesis
    using assms(1) css_syntax_name_end_bounds [of "off + 1" input]
    by (subst css_syntax_name_end.simps) auto
next
  case False
  then have v: "css_syntax_valid_escape input off" using assms(2) by blast
  have "off < css_syntax_escape_end input off"
    using v skip_while_max_bounds(1) [of "Suc off" 6 ascii_isxdigit input]
    by (auto simp: css_syntax_escape_end_def css_syntax_valid_escape_def css_newline_def Let_def)
  moreover have "css_syntax_escape_end input off \<le> length input"
    using css_syntax_escape_end_bounds(2) assms(1) by simp
  ultimately show ?thesis
    using False v assms(1) css_syntax_name_end_bounds [of "css_syntax_escape_end input off" input]
    by (subst css_syntax_name_end.simps) (auto simp: css_syntax_valid_escape_def Let_def)
qed

lemma css_syntax_starts_ident_end:
  "css_syntax_starts_ident input off \<Longrightarrow> off < css_syntax_name_end input off"
  by (rule css_syntax_name_end_step)
    (auto simp: css_syntax_starts_ident_def css_syntax_name_def Let_def split: if_splits)

lemma number_parts_bounds:
  assumes "off \<le> length input"
  shows "off \<le> number_integer input off" "number_integer input off \<le> length input"
    "off \<le> number_fraction input off" "number_fraction input off \<le> length input"
    "off \<le> number_exponent input off" "number_exponent input off \<le> length input"
proof -
  have b: "o1 \<le> o2 \<Longrightarrow> o1 \<le> skip_while ascii_isdigit input o2" for o1 o2
    using skip_while_bounds(1) [of o2 ascii_isdigit input] by simp
  show "off \<le> number_integer input off" "off \<le> number_fraction input off" "off \<le> number_exponent input off"
    by (auto simp: number_integer_def number_fraction_def number_exponent_def Let_def intro!: b)
  show "number_integer input off \<le> length input" "number_fraction input off \<le> length input"
    "number_exponent input off \<le> length input"
    using assms
    by (auto simp: number_integer_def number_fraction_def number_exponent_def Let_def
        intro!: skip_while_bounds(2))
qed

lemma css_syntax_number_end_bounds:
  assumes "off \<le> length input"
  shows "off \<le> css_syntax_number_end input off" "css_syntax_number_end input off \<le> length input"
proof -
  note i = number_parts_bounds(1,2) [OF assms]
  note f = number_parts_bounds(3,4) [OF i(2)]
  note e = number_parts_bounds(5,6) [OF f(2)]
  show "off \<le> css_syntax_number_end input off" "css_syntax_number_end input off \<le> length input"
    using i f e by (auto simp: css_syntax_number_end_def)
qed

lemma skip_while_step:
  "off < length input \<Longrightarrow> P (input ! off) \<Longrightarrow> off < skip_while P input off"
  by (cases "drop off input") (auto simp: skip_while_def hd_drop_conv_nth nth_via_drop)

lemma css_syntax_starts_number_end:
  assumes "css_syntax_starts_number input off"
  shows "off < css_syntax_number_end input off"
proof -
  have off: "off < length input" using assms by (auto simp: css_syntax_starts_number_def split: if_splits)
  note i = number_parts_bounds(1,2) [of off input]
  note f = number_parts_bounds(3,4) [of "number_integer input off" input]
  note e = number_parts_bounds(5,6) [of "number_fraction input (number_integer input off)" input]
  have "off < number_integer input off \<or> off < number_fraction input (number_integer input off)"
  proof (cases "input ! off = CHR ''.''")
    case True
    then have d: "off + 1 < length input" "ascii_isdigit (input ! (off + 1))"
      using assms by (auto simp: css_syntax_starts_number_def Let_def ascii_isdigit_def split: if_splits)
    have "number_integer input off = off"
      using True Cons_nth_drop_Suc [OF off, symmetric]
      by (simp add: number_integer_def skip_while_def ascii_isdigit_def)
    moreover have "off < number_fraction input off"
      using True d skip_while_bounds(1) [of "off + 1" ascii_isdigit input] by (simp add: number_fraction_def)
    ultimately show ?thesis by simp
  next
    case False
    then have "input ! off = CHR ''+'' \<or> input ! off = CHR ''-'' \<or> ascii_isdigit (input ! off)"
      using assms by (auto simp: css_syntax_starts_number_def Let_def split: if_splits)
    then show ?thesis
      using off skip_while_step [of off input ascii_isdigit]
        skip_while_bounds(1) [of "off + 1" ascii_isdigit input]
      by (auto simp: number_integer_def)
  qed
  then show ?thesis using off i f e by (auto simp: css_syntax_number_end_def)
qed

section \<open>What the parser returns\<close>

text \<open>The text between two components: comments, and, when the input was found
  malformed, closing brackets that match nothing.\<close>

inductive css_gap :: "string \<Rightarrow> bool \<Rightarrow> nat \<Rightarrow> nat \<Rightarrow> bool" for input v where
  gap_empty: "off \<le> length input \<Longrightarrow> css_gap input v off off"
| gap_comment: "\<lbrakk>off + 1 < length input; input ! off = CHR ''/''; input ! (off + 1) = CHR ''*'';
     css_gap input v (comment_end input (off + 2)) hi\<rbrakk> \<Longrightarrow> css_gap input v off hi"
| gap_stray: "\<lbrakk>\<not> v; off < length input; closes (input ! off); css_gap input v (off + 1) hi\<rbrakk>
     \<Longrightarrow> css_gap input v off hi"

fun css_tiled :: "string \<Rightarrow> bool \<Rightarrow> nat \<Rightarrow> nat \<Rightarrow> ns_css_component list \<Rightarrow> bool" where
  "css_tiled input v lo hi [] = css_gap input v lo hi"
| "css_tiled input v lo hi (c # cs) =
     (css_gap input v lo (c_start c) \<and> c_start c < c_end c \<and> css_tiled input v (c_end c) hi cs)"

text \<open>The end of a string or block: its delimiter, or the end of the input; for
  malformed input a block may end with another bracket, a string at a newline.\<close>

definition css_closed :: "string \<Rightarrow> char \<Rightarrow> nat \<Rightarrow> nat \<Rightarrow> bool" where
  "css_closed input d k e = ((k + 1 = e \<and> k < length input \<and> input ! k = d) \<or> (k = e \<and> e = length input))"

text \<open>What the fields of a component say about the text it spans.\<close>

fun css_text_ok :: "string \<Rightarrow> bool \<Rightarrow> ns_css_component \<Rightarrow> bool" where
  "css_text_ok input v (CssComponent ty s e val num ch d) =
     (s < e \<and> e \<le> length input \<and> (ch = None \<longleftrightarrow> ty \<noteq> CssFunction \<and> ty \<noteq> CssBlock) \<and>
      (case ty of
         CssWhitespace \<Rightarrow> list_all css_syntax_whitespace (slice input s e)
       | CssIdent \<Rightarrow> val = Some (slice input s e)
       | CssHash \<Rightarrow> input ! s = CHR ''#'' \<and> val = Some (slice input (s + 1) e)
       | CssAtKeyword \<Rightarrow> input ! s = CHR ''@'' \<and> val = Some (slice input (s + 1) e)
       | CssFunction \<Rightarrow> (\<exists>k. s + k < e \<and> input ! (s + k) = CHR ''('' \<and> val = Some (slice input s (s + k)))
           \<and> d = CHR '')''
       | CssBlock \<Rightarrow> opens (input ! s) \<and> d = closer (input ! s)
       | CssString \<Rightarrow> (d = DQ \<or> d = SQ) \<and> input ! s = d
           \<and> (\<exists>k. s < k \<and> k \<le> e \<and> val = Some (slice input (s + 1) k) \<and> (v \<longrightarrow> css_closed input d k e))
       | CssNumber \<Rightarrow> num = slice input s e \<and> val = Some []
       | CssPercentage \<Rightarrow> s + 1 < e \<and> num = slice input s (e - 1) \<and> val = Some ''%''
           \<and> input ! (e - 1) = CHR ''%''
       | CssDimension \<Rightarrow> (\<exists>k. s < k \<and> k < e \<and> num = slice input s k \<and> val = Some (slice input k e))
       | _ \<Rightarrow> e = s + 1 \<and> d = input ! s \<and> ty = single_type d))"

fun css_ok :: "string \<Rightarrow> bool \<Rightarrow> ns_css_component \<Rightarrow> bool" where
  "css_ok input v (CssComponent ty s e val num ch d) =
     (css_text_ok input v (CssComponent ty s e val num ch d) \<and>
      (case ch of None \<Rightarrow> True
       | Some cs \<Rightarrow> list_all (css_ok input v) cs
           \<and> (\<exists>lo k. s < lo \<and> lo \<le> k \<and> k \<le> e \<and> css_tiled input v lo k cs
                \<and> (if v then css_closed input d k e
                   else (k + 1 = e \<and> closes (input ! k)) \<or> (k = e \<and> e = length input)))))"

lemma css_gap_mono: "css_gap input True lo hi \<Longrightarrow> css_gap input v lo hi"
  by (induction lo hi rule: css_gap.induct) (auto intro: css_gap.intros)

lemma css_gap_bounds: "css_gap input v lo hi \<Longrightarrow> lo \<le> hi \<and> hi \<le> length input"
proof (induction lo hi rule: css_gap.induct)
  case (gap_comment off hi)
  then show ?case using comment_end_bounds(1) [of "off + 2" input] by auto
qed auto

lemma css_tiled_mono: "css_tiled input True lo hi cs \<Longrightarrow> css_tiled input v lo hi cs"
  by (induction input True lo hi cs rule: css_tiled.induct) (auto intro: css_gap_mono)

lemma css_tiled_bounds: "css_tiled input v lo hi cs \<Longrightarrow> lo \<le> hi \<and> hi \<le> length input"
  by (induction input v lo hi cs rule: css_tiled.induct) (auto dest!: css_gap_bounds)

lemma css_ok_mono: "css_ok input True c \<Longrightarrow> css_ok input v c"
proof (induction input True c rule: css_ok.induct)
  case (1 input ty s e val num ch d)
  show ?case
  proof (cases v)
    case False
    have t: "css_text_ok input False (CssComponent ty s e val num ch d)"
      using 1(2) by (cases ty) auto
    show ?thesis
    proof (cases ch)
      case (Some cs)
      then have d: "closes d" using 1(2) by (cases ty) (auto simp: closer_def)
      have "list_all (css_ok input v) cs"
        using 1(2) Some "1.hyps" [OF Some] by (auto simp: list_all_iff)
      then show ?thesis
        using 1(2) t Some False d by (auto simp: css_closed_def dest!: css_tiled_mono)
    qed (use t False in simp)
  qed (use 1(2) in simp)
qed

lemma css_oks_mono: "list_all (css_ok input True) cs \<Longrightarrow> list_all (css_ok input v) cs"
  using css_ok_mono by (auto simp: list_all_iff)

text \<open>The end of a list: the closing bracket asked for, or the end of the input.\<close>

definition css_list_end :: "string \<Rightarrow> char \<Rightarrow> bool \<Rightarrow> nat \<Rightarrow> nat \<Rightarrow> bool" where
  "css_list_end input closing v k e =
     (if closing = NUL then k = e \<and> e = length input
      else if v then css_closed input closing k e
      else (k + 1 = e \<and> closes (input ! k)) \<or> (k = e \<and> e = length input))"

definition css_list_ok ::
    "string \<Rightarrow> char \<Rightarrow> nat \<Rightarrow> ns_css_component list \<Rightarrow> ns_css_syntax_parser \<Rightarrow> bool" where
  "css_list_ok input closing off cs p =
     (\<exists>k. off \<le> k \<and> k \<le> p_offset p \<and> p_offset p \<le> length input
        \<and> css_tiled input (p_valid p) off k cs \<and> list_all (css_ok input (p_valid p)) cs
        \<and> css_list_end input closing (p_valid p) k (p_offset p))"

definition css_list_total :: "nat \<Rightarrow> bool" where
  "css_list_total n =
     (\<forall>p closing. p_offset p \<le> length (p_input p) \<longrightarrow> length (p_input p) - p_offset p < n
        \<longrightarrow> closing = NUL \<or> closes closing \<longrightarrow>
      (\<exists>cs p'. css_syntax_parse_list n closing p = Some (cs, p') \<and> p_input p' = p_input p
         \<and> (p_valid p' \<longrightarrow> p_valid p) \<and> css_list_ok (p_input p) closing (p_offset p) cs p'))"

lemma css_list_totalE:
  assumes "css_list_total n" "p_offset p \<le> length (p_input p)" "length (p_input p) - p_offset p < n"
    "closing = NUL \<or> closes closing"
  obtains cs p' where "css_syntax_parse_list n closing p = Some (cs, p')" "p_input p' = p_input p"
    "p_valid p' \<longrightarrow> p_valid p" "css_list_ok (p_input p) closing (p_offset p) cs p'"
  using assms(1) [unfolded css_list_total_def, rule_format, OF assms(2-4)] that by (elim exE conjE)

definition css_consumed ::
    "ns_css_syntax_parser \<Rightarrow> (ns_css_component \<times> ns_css_syntax_parser) option \<Rightarrow> bool" where
  "css_consumed p r =
     (case r of None \<Rightarrow> False
      | Some (c, p') \<Rightarrow> p_input p' = p_input p \<and> (p_valid p' \<longrightarrow> p_valid p) \<and> c_start c = p_offset p
          \<and> c_end c = p_offset p' \<and> p_offset p < p_offset p' \<and> p_offset p' \<le> length (p_input p)
          \<and> css_ok (p_input p) (p_valid p') c)"

lemma slice_append:
  assumes "b \<le> off" "off \<le> o2"
  shows "slice input b off @ slice input off o2 = slice input b o2"
proof -
  obtain k where k: "off = b + k" using assms(1) le_Suc_ex by blast
  obtain m where m: "o2 = off + m" using assms(2) le_Suc_ex by blast
  have "drop off input = drop k (drop b input)" unfolding drop_drop k by (simp only: add.commute)
  moreover have "off - b = k" "o2 - off = m" "o2 - b = k + m" using k m by linarith+
  ultimately show ?thesis by (simp only: take_add)
qed

lemma slice_snoc:
  assumes "b \<le> off" "off < length input"
  shows "slice input b off @ [input ! off] = slice input b (off + 1)"
proof -
  have "slice input off (off + 1) = [input ! off]"
    using assms(2) Cons_nth_drop_Suc [of off input, symmetric] by simp
  then show ?thesis using slice_append [of b off "off + 1" input] assms(1) by simp
qed

lemma string_body_unfold:
  "off \<ge> length input \<Longrightarrow> string_body quote input off v = (v, off, True)"
  "off < length input \<Longrightarrow> input ! off = quote \<Longrightarrow> string_body quote input off v = (v, off + 1, True)"
  "off < length input \<Longrightarrow> input ! off \<noteq> quote \<Longrightarrow> css_newline (input ! off) \<Longrightarrow>
   string_body quote input off v = (v, off + 1, False)"
  "off + 1 < length input \<Longrightarrow> input ! off \<noteq> quote \<Longrightarrow> input ! off = BSL \<Longrightarrow>
   string_body quote input off v =
     (let next = css_syntax_escape_end input off
      in if next = off then (v, off + 1, False)
         else string_body quote input next (v @ slice input off next))"
  "off < length input \<Longrightarrow> input ! off \<noteq> quote \<Longrightarrow> \<not> css_newline (input ! off) \<Longrightarrow>
   \<not> (input ! off = BSL \<and> off + 1 < length input) \<Longrightarrow>
   string_body quote input off v = string_body quote input (off + 1) (v @ [input ! off])"
  by (subst string_body.simps; force simp: css_newline_def)+

lemma string_body_ok:
  assumes "off \<le> length input" "b \<le> off"
  shows "\<exists>k e ok. string_body quote input off (slice input b off) = (slice input b k, e, ok)
     \<and> off \<le> k \<and> k \<le> e \<and> e \<le> length input \<and> (ok \<longrightarrow> css_closed input quote k e)"
  using assms
proof (induction "length input - off" arbitrary: off rule: less_induct)
  case less
  let ?v = "slice input b off" and ?c = "input ! off"
  have step: ?case if o2: "off < o2" "o2 \<le> length input"
    and eq: "string_body quote input off ?v = string_body quote input o2 (slice input b o2)" for o2
  proof -
    have "length input - o2 < length input - off" using o2 by simp
    then obtain k e ok where "string_body quote input o2 (slice input b o2) = (slice input b k, e, ok)"
      "o2 \<le> k" "k \<le> e" "e \<le> length input" "ok \<longrightarrow> css_closed input quote k e"
      using less.hyps [of o2] o2 less.prems(2) by auto
    then show ?thesis using o2(1) unfolding eq by auto
  qed
  consider (fin) "off = length input" | (q) "off < length input" "?c = quote"
    | (nl) "off < length input" "?c \<noteq> quote" "css_newline ?c"
    | (esc) "off + 1 < length input" "?c \<noteq> quote" "?c = BSL"
    | (other) "off < length input" "?c \<noteq> quote" "\<not> css_newline ?c" "\<not> (?c = BSL \<and> off + 1 < length input)"
    using less.prems(1) by linarith
  then show ?case
  proof cases
    case fin
    then show ?thesis using string_body_unfold(1) [of input off quote ?v]
      by (intro exI [of _ off] exI [of _ True]) (simp add: css_closed_def)
  next
    case q
    then show ?thesis using string_body_unfold(2) [of off input quote ?v]
      by (intro exI [of _ off] exI [of _ "off + 1"] exI [of _ True]) (simp add: css_closed_def)
  next
    case nl
    then show ?thesis using string_body_unfold(3) [of off input quote ?v]
      by (intro exI [of _ off] exI [of _ "off + 1"] exI [of _ False]) simp
  next
    case esc
    define o2 where "o2 = css_syntax_escape_end input off"
    have b: "off \<le> o2" "o2 \<le> length input"
      using css_syntax_escape_end_bounds [of off input] esc by (auto simp: o2_def)
    show ?thesis
    proof (cases "o2 = off")
      case True
      then show ?thesis using string_body_unfold(4) [OF esc, of ?v] esc(1)
        by (intro exI [of _ off] exI [of _ "off + 1"] exI [of _ False]) (simp add: o2_def)
    next
      case False
      then have "string_body quote input off ?v = string_body quote input o2 (slice input b o2)"
        using string_body_unfold(4) [OF esc, of ?v] slice_append [OF less.prems(2) b(1), of input]
        by (simp add: o2_def Let_def)
      then show ?thesis using step [of o2] b False by simp
    qed
  next
    case other
    then show ?thesis
      using step [of "off + 1"] string_body_unfold(5) [OF other, of ?v] slice_snoc [OF less.prems(2) other(1)]
      by simp
  qed
qed

lemma css_ok_container:
  assumes "css_text_ok input (p_valid p) (CssComponent ty s (p_offset p) val num (Some cs) d)"
    and "css_list_ok input d lo cs p" and "s < lo" and "d \<noteq> NUL"
  shows "css_ok input (p_valid p) (CssComponent ty s (p_offset p) val num (Some cs) d)"
proof -
  obtain k where k: "lo \<le> k" "k \<le> p_offset p" "css_tiled input (p_valid p) lo k cs"
      "list_all (css_ok input (p_valid p)) cs" "css_list_end input d (p_valid p) k (p_offset p)"
    using assms(2) unfolding css_list_ok_def by blast
  have "\<exists>lo k. s < lo \<and> lo \<le> k \<and> k \<le> p_offset p \<and> css_tiled input (p_valid p) lo k cs
     \<and> (if p_valid p then css_closed input d k (p_offset p)
        else (k + 1 = p_offset p \<and> closes (input ! k)) \<or> (k = p_offset p \<and> p_offset p = length input))"
    by (rule exI [of _ lo], rule exI [of _ k]) (use k assms(3,4) in \<open>simp add: css_list_end_def\<close>)
  then show ?thesis using assms(1) k(4) by (simp del: css_text_ok.simps)
qed

lemma css_consume_ident_ok:
  assumes n: "css_list_total n" "length (p_input p) - p_offset p \<le> n" and off: "p_offset p < length (p_input p)"
    and start: "at \<longrightarrow> \<not> hash \<and> p_input p ! p_offset p = CHR ''@'' \<and> css_syntax_starts_ident (p_input p) (p_offset p + 1)"
      "hash \<longrightarrow> p_input p ! p_offset p = CHR ''#'' \<and> p_offset p + 1 < length (p_input p)"
      "\<not> at \<and> \<not> hash \<longrightarrow> css_syntax_starts_ident (p_input p) (p_offset p)"
  shows "css_consumed p (css_syntax_consume_ident n at hash p)"
proof -
  define input where "input = p_input p"
  define s where "s = p_offset p"
  define ns where "ns = (if at \<or> hash then s + 1 else s)"
  define ne where "ne = css_syntax_name_end input ns"
  have ns: "ns \<le> length input" using off by (auto simp: ns_def s_def input_def)
  have ne: "ns \<le> ne" "ne \<le> length input" using css_syntax_name_end_bounds [OF ns] by (auto simp: ne_def)
  have s: "s < ne"
    using start css_syntax_starts_ident_end [of input s] ne(1)
    by (auto simp: ns_def ne_def s_def input_def)
  show ?thesis
  proof (cases "\<not> at \<and> \<not> hash \<and> ne < length input \<and> input ! ne = CHR ''(''")
    case True
    then have nss: "ns = s" by (simp add: ns_def)
    define p1 where "p1 = p\<lparr>p_offset := ne + 1\<rparr>"
    obtain cs p' where r: "css_syntax_parse_list n CHR '')'' p1 = Some (cs, p')" "p_input p' = input"
        "p_valid p' \<longrightarrow> p_valid p" "css_list_ok input CHR '')'' (ne + 1) cs p'"
      by (rule css_list_totalE [of n p1 "CHR '')''"])
        (use n off True s in \<open>auto simp: p1_def input_def s_def\<close>)
    have eq: "css_syntax_consume_ident n at hash p =
        Some (CssComponent CssFunction s (p_offset p') (Some (slice input s ne)) [] (Some cs) CHR '')'', p')"
    proof -
      have "\<not> at" "\<not> hash" "css_syntax_name_end (p_input p) (p_offset p) = ne" "ne < length (p_input p)"
        "p_input p ! ne = CHR ''(''"
        using True nss by (auto simp: ne_def s_def input_def)
      then show ?thesis using r(1) by (simp add: input_def s_def p1_def Let_def)
    qed
    obtain k where k: "ne + 1 \<le> k" "k \<le> p_offset p'" "p_offset p' \<le> length input"
        "css_tiled input (p_valid p') (ne + 1) k cs" "list_all (css_ok input (p_valid p')) cs"
        "css_list_end input CHR '')'' (p_valid p') k (p_offset p')"
      using r(4) unfolding css_list_ok_def by blast
    have t: "css_text_ok input (p_valid p')
        (CssComponent CssFunction s (p_offset p') (Some (slice input s ne)) [] (Some cs) CHR '')'')"
      using True s k by (auto intro!: exI [of _ "ne - s"])
    have "css_ok input (p_valid p')
        (CssComponent CssFunction s (p_offset p') (Some (slice input s ne)) [] (Some cs) CHR '')'')"
      using css_ok_container [OF t r(4)] s by simp
    then show ?thesis
      unfolding css_consumed_def eq using r k s by (simp add: input_def s_def del: css_ok.simps)
  next
    case False
    have eq: "css_syntax_consume_ident n at hash p =
        Some (CssComponent (if at then CssAtKeyword else if hash then CssHash else CssIdent)
                   s ne (Some (slice input ns ne)) [] None NUL, p\<lparr>p_offset := ne\<rparr>)"
      using False by (auto simp: input_def s_def ns_def ne_def Let_def)
    show ?thesis
      unfolding css_consumed_def eq using start s ne False
      by (auto simp: input_def s_def ns_def)
  qed
qed

lemma css_consume_string_ok:
  assumes "p_offset p < length (p_input p)" "p_input p ! p_offset p = DQ \<or> p_input p ! p_offset p = SQ"
  shows "css_consumed p (Some (css_syntax_consume_string p))"
proof -
  define s where "s = p_offset p"
  obtain k e ok where b: "string_body (p_input p ! s) (p_input p) (s + 1) [] = (slice (p_input p) (s + 1) k, e, ok)"
    "s + 1 \<le> k" "k \<le> e" "e \<le> length (p_input p)" "ok \<longrightarrow> css_closed (p_input p) (p_input p ! s) k e"
    using string_body_ok [of "s + 1" "p_input p" "s + 1" "p_input p ! s"] assms(1) by (auto simp: s_def)
  then show ?thesis
    using assms by (auto simp: css_consumed_def css_syntax_consume_string_def s_def Let_def intro!: exI [of _ k])
qed

lemma css_consume_numeric_ok:
  assumes "css_syntax_starts_number (p_input p) (p_offset p)"
  shows "css_consumed p (Some (css_syntax_consume_numeric p))"
proof -
  define s where "s = p_offset p"
  define ne where "ne = css_syntax_number_end (p_input p) s"
  have s: "s < length (p_input p)" using assms by (auto simp: s_def css_syntax_starts_number_def split: if_splits)
  have ne: "s < ne" "ne \<le> length (p_input p)"
    using css_syntax_starts_number_end assms css_syntax_number_end_bounds(2) s by (auto simp: ne_def s_def)
  have d: "ne < css_syntax_name_end (p_input p) ne" "css_syntax_name_end (p_input p) ne \<le> length (p_input p)"
    if "css_syntax_starts_ident (p_input p) ne"
    using css_syntax_starts_ident_end [OF that] css_syntax_name_end_bounds [OF ne(2)] by auto
  show ?thesis
    using ne d Cons_nth_drop_Suc [of ne "p_input p", symmetric]
    by (auto simp: css_consumed_def css_syntax_consume_numeric_def Let_def s_def [symmetric] ne_def [symmetric]
        intro!: exI [of _ ne])
qed

lemma css_consume_total:
  assumes n: "css_list_total n" "length (p_input p) - p_offset p \<le> n" and off: "p_offset p < length (p_input p)"
    and c: "\<not> closes (p_input p ! p_offset p)"
  shows "css_consumed p (css_syntax_consume n p)"
proof (cases "css_branch_at (p_input p) (p_offset p)")
  case BrWhitespace
  define s where "s = p_offset p"
  define e where "e = skip_while css_syntax_whitespace (p_input p) s"
  have e: "s < e" "e \<le> length (p_input p)"
    using BrWhitespace off skip_while_step skip_while_bounds(2)
    by (auto simp: e_def s_def css_branch_at_def Let_def split: if_splits)
  have "slice (p_input p) s e = takeWhile css_syntax_whitespace (drop s (p_input p))"
    unfolding e_def skip_while_def by (simp add: takeWhile_eq_take [symmetric])
  then have "list_all css_syntax_whitespace (slice (p_input p) s e)"
    by (auto simp: list_all_iff dest: set_takeWhileD)
  then show ?thesis using BrWhitespace e by (simp add: css_consumed_def s_def [symmetric] e_def [symmetric] Let_def)
next
  case BrString
  then show ?thesis
    using css_consume_string_ok [OF off] by (auto simp: css_branch_at_def Let_def split: if_splits)
next
  case BrNumeric
  then show ?thesis
    using css_consume_numeric_ok [of p] by (auto simp: css_branch_at_def Let_def split: if_splits)
next
  case BrAt
  then have "p_input p ! p_offset p = CHR ''@'' \<and> css_syntax_starts_ident (p_input p) (p_offset p + 1)"
    by (auto simp: css_branch_at_def Let_def split: if_splits)
  then show ?thesis using css_consume_ident_ok [OF n off, of True False] BrAt
    by (simp del: css_syntax_consume_ident.simps add: Let_def)
next
  case BrHash
  then have "p_input p ! p_offset p = CHR ''#'' \<and> p_offset p + 1 < length (p_input p)
    \<and> (css_syntax_name (p_input p ! (p_offset p + 1)) \<or> css_syntax_valid_escape (p_input p) (p_offset p + 1))"
    by (auto simp: css_branch_at_def Let_def split: if_splits)
  then show ?thesis using css_consume_ident_ok [OF n off, of False True] BrHash
    by (simp del: css_syntax_consume_ident.simps add: Let_def)
next
  case BrIdent
  then have "css_syntax_starts_ident (p_input p) (p_offset p)"
    by (auto simp: css_branch_at_def Let_def split: if_splits)
  then show ?thesis using css_consume_ident_ok [OF n off, of False False] BrIdent
    by (simp del: css_syntax_consume_ident.simps add: Let_def)
next
  case BrSingle
  define s where "s = p_offset p"
  define ch where "ch = p_input p ! s"
  show ?thesis
  proof (cases "opens ch")
    case True
    define p1 where "p1 = p\<lparr>p_offset := s + 1\<rparr>"
    have cl: "closes (closer ch)" by (simp add: closer_def)
    obtain cs p' where r: "css_syntax_parse_list n (closer ch) p1 = Some (cs, p')" "p_input p' = p_input p"
        "p_valid p' \<longrightarrow> p_valid p" "css_list_ok (p_input p) (closer ch) (s + 1) cs p'"
      by (rule css_list_totalE [of n p1 "closer ch"]) (use n off cl in \<open>auto simp: p1_def s_def\<close>)
    have eq: "css_syntax_consume n p =
        Some (CssComponent CssBlock s (p_offset p') None [] (Some cs) (closer ch), p')"
      using BrSingle True r(1) by (simp add: s_def ch_def p1_def Let_def)
    obtain k where k: "s + 1 \<le> k" "k \<le> p_offset p'" "p_offset p' \<le> length (p_input p)"
        "css_tiled (p_input p) (p_valid p') (s + 1) k cs" "list_all (css_ok (p_input p) (p_valid p')) cs"
        "css_list_end (p_input p) (closer ch) (p_valid p') k (p_offset p')"
      using r(4) unfolding css_list_ok_def by blast
    have t: "css_text_ok (p_input p) (p_valid p')
        (CssComponent CssBlock s (p_offset p') None [] (Some cs) (closer ch))"
      using True k by (auto simp: ch_def)
    have "closer ch \<noteq> NUL" by (simp add: closer_def)
    then have "css_ok (p_input p) (p_valid p')
        (CssComponent CssBlock s (p_offset p') None [] (Some cs) (closer ch))"
      by (intro css_ok_container [OF t r(4)]) simp_all
    then show ?thesis
      unfolding css_consumed_def eq using r k by (simp add: s_def del: css_ok.simps)
  next
    case False
    then have eq: "css_syntax_consume n p =
        Some (CssComponent (single_type ch) s (s + 1) None [] None ch, p\<lparr>p_offset := s + 1\<rparr>)"
      using BrSingle by (simp add: s_def ch_def Let_def)
    show ?thesis
      unfolding css_consumed_def eq using off by (auto simp: s_def ch_def single_type_def)
  qed
qed

lemma css_list_ok_cons:
  assumes "css_list_ok input closing (c_end c) cs p" and "css_ok input v c" and "p_valid p \<longrightarrow> v"
    and "c_start c = off" and "off < c_end c" and "off \<le> length input"
  shows "css_list_ok input closing off (c # cs) p"
proof -
  obtain k where k: "c_end c \<le> k" "k \<le> p_offset p" "p_offset p \<le> length input"
      "css_tiled input (p_valid p) (c_end c) k cs" "list_all (css_ok input (p_valid p)) cs"
      "css_list_end input closing (p_valid p) k (p_offset p)"
    using assms(1) unfolding css_list_ok_def by blast
  have "css_ok input (p_valid p) c" using assms(2,3) css_ok_mono by (cases v; cases "p_valid p") auto
  then show ?thesis
    unfolding css_list_ok_def using k assms(4-6)
    by (intro exI [of _ k]) (auto intro: gap_empty)
qed

lemma css_list_ok_gap:
  assumes "css_list_ok input closing mid cs p" and "off \<le> mid"
    and "\<And>hi. css_gap input (p_valid p) mid hi \<Longrightarrow> css_gap input (p_valid p) off hi"
  shows "css_list_ok input closing off cs p"
proof -
  obtain k where k: "mid \<le> k" "k \<le> p_offset p" "p_offset p \<le> length input"
      "css_tiled input (p_valid p) mid k cs" "list_all (css_ok input (p_valid p)) cs"
      "css_list_end input closing (p_valid p) k (p_offset p)"
    using assms(1) unfolding css_list_ok_def by blast
  have "css_tiled input (p_valid p) off k cs" using k(4) assms(3) by (cases cs) auto
  then show ?thesis unfolding css_list_ok_def using k assms(2) by (intro exI [of _ k]) auto
qed

lemma css_list_total: "css_list_total n"
proof (induction n)
  case (Suc n)
  show ?case
    unfolding css_list_total_def
  proof (intro allI impI)
    fix p :: ns_css_syntax_parser and closing
    assume off: "p_offset p \<le> length (p_input p)" and fuel: "length (p_input p) - p_offset p < Suc n"
      and cl: "closing = NUL \<or> closes closing"
    define c where "c = p_input p ! p_offset p"
    let ?goal = "\<exists>cs p'. css_syntax_parse_list (Suc n) closing p = Some (cs, p') \<and> p_input p' = p_input p
         \<and> (p_valid p' \<longrightarrow> p_valid p) \<and> css_list_ok (p_input p) closing (p_offset p) cs p'"
    have lt: "p_offset p = length (p_input p) \<or> p_offset p < length (p_input p)" using off by linarith
    consider (fin) "p_offset p = length (p_input p)"
      | (comment) "p_offset p + 1 < length (p_input p)" "c = CHR ''/''" "p_input p ! (p_offset p + 1) = CHR ''*''"
      | (closed) "p_offset p < length (p_input p)" "closing \<noteq> NUL" "c = closing"
      | (stray) "p_offset p < length (p_input p)" "closes c" "c \<noteq> closing"
      | (other) "p_offset p < length (p_input p)" "\<not> closes c" "c \<noteq> closing \<or> closing = NUL"
          "\<not> (c = CHR ''/'' \<and> p_offset p + 1 < length (p_input p) \<and> p_input p ! (p_offset p + 1) = CHR ''*'')"
      using lt cl by blast
    then show ?goal
    proof cases
      case fin
      then show ?thesis
        by (auto simp: css_list_ok_def css_list_end_def css_closed_def intro: gap_empty)
    next
      case comment
      define p1 where "p1 = css_syntax_skip_comment p"
      have p1: "p_input p1 = p_input p" "p_valid p1 = p_valid p"
        "p_offset p1 = comment_end (p_input p) (p_offset p + 2)"
        by (simp_all add: p1_def css_syntax_skip_comment_def)
      have b: "p_offset p + 2 \<le> p_offset p1" "p_offset p1 \<le> length (p_input p)"
        using comment_end_bounds(1) [of "p_offset p + 2" "p_input p"]
          comment_end_bounds(2) [of "p_input p" "p_offset p + 2"] comment(1) p1(3) by auto
      obtain cs p' where r: "css_syntax_parse_list n closing p1 = Some (cs, p')" "p_input p' = p_input p1"
          "p_valid p' \<longrightarrow> p_valid p1" "css_list_ok (p_input p1) closing (p_offset p1) cs p'"
        by (rule css_list_totalE [OF Suc.IH, of p1 closing]) (use b p1(1) fuel cl in auto)
      have "css_list_ok (p_input p) closing (p_offset p) cs p'"
        by (rule css_list_ok_gap [OF r(4) [unfolded p1(1)]])
          (use b comment p1(3) in \<open>auto simp: c_def intro: gap_comment\<close>)
      then show ?thesis using comment r p1 by (auto simp: c_def p1_def Let_def)
    next
      case closed
      then have "css_syntax_parse_list (Suc n) closing p = Some ([], p\<lparr>p_offset := p_offset p + 1\<rparr>)"
        using cl by (auto simp: c_def Let_def)
      moreover have "css_list_ok (p_input p) closing (p_offset p) [] (p\<lparr>p_offset := p_offset p + 1\<rparr>)"
        using closed cl
        by (auto simp: css_list_ok_def css_list_end_def css_closed_def c_def
            intro!: exI [of _ "p_offset p"] gap_empty)
      ultimately show ?thesis by auto
    next
      case stray
      define p1 where "p1 = p\<lparr>p_offset := p_offset p + 1, p_valid := False\<rparr>"
      show ?thesis
      proof (cases "closing = NUL")
        case False
        then have "css_syntax_parse_list (Suc n) closing p = Some ([], p1)"
          using stray by (auto simp: c_def p1_def Let_def)
        moreover have "css_list_ok (p_input p) closing (p_offset p) [] p1"
          using stray False
          by (auto simp: css_list_ok_def css_list_end_def p1_def c_def
              intro!: exI [of _ "p_offset p"] gap_empty)
        ultimately show ?thesis by (auto simp: p1_def)
      next
        case True
        obtain cs p' where r: "css_syntax_parse_list n closing p1 = Some (cs, p')" "p_input p' = p_input p1"
            "p_valid p' \<longrightarrow> p_valid p1" "css_list_ok (p_input p1) closing (p_offset p1) cs p'"
          by (rule css_list_totalE [OF Suc.IH, of p1 closing]) (use stray fuel cl in \<open>auto simp: p1_def\<close>)
        have "css_list_ok (p_input p) closing (p_offset p) cs p'"
          by (rule css_list_ok_gap [where mid = "p_offset p1"])
            (use r stray in \<open>auto simp: c_def p1_def intro: gap_stray\<close>)
        then show ?thesis using stray r True by (auto simp: c_def p1_def Let_def)
      qed
    next
      case other
      have "css_consumed p (css_syntax_consume n p)"
        by (rule css_consume_total [OF Suc.IH]) (use fuel other in \<open>auto simp: c_def\<close>)
      then obtain co p1 where co: "css_syntax_consume n p = Some (co, p1)" "p_input p1 = p_input p"
          "p_valid p1 \<longrightarrow> p_valid p" "c_start co = p_offset p" "c_end co = p_offset p1"
          "p_offset p < p_offset p1" "p_offset p1 \<le> length (p_input p)" "css_ok (p_input p) (p_valid p1) co"
        unfolding css_consumed_def by (auto split: option.splits)
      obtain cs p' where r: "css_syntax_parse_list n closing p1 = Some (cs, p')" "p_input p' = p_input p1"
          "p_valid p' \<longrightarrow> p_valid p1" "css_list_ok (p_input p1) closing (p_offset p1) cs p'"
        by (rule css_list_totalE [OF Suc.IH, of p1 closing]) (use co fuel cl in auto)
      have "css_syntax_parse_list (Suc n) closing p = Some (co # cs, p')"
        using other co(1) r(1) by (auto simp: c_def Let_def simp del: css_syntax_consume.simps)
      moreover have "css_list_ok (p_input p) closing (p_offset p) (co # cs) p'"
        by (rule css_list_ok_cons [where v = "p_valid p1"]) (use co r off in auto)
      ultimately show ?thesis using co r by auto
    qed
  qed
qed (simp add: css_list_total_def)

text \<open>(C14) Parsing component values always ends and loses nothing: for every input
  there is a list of components that tile it in order, nested within their parents,
  with only comments between them (and stray closing brackets if the input was found
  malformed); every component's fields are the text it spans; and if the input was
  found well formed, every string and bracket ends with its own delimiter or with
  the input.\<close>

theorem css_parse_tiles:
  "\<exists>cs v. ns_css_component_values_parse (Some input) (Some (length input)) = Some (cs, v)
     \<and> css_tiled input v 0 (length input) cs \<and> list_all (css_ok input v) cs"
proof -
  define p where "p = \<lparr>p_input = input, p_offset = 0, p_valid = True\<rparr>"
  obtain cs p' where "css_syntax_parse_list (length input + 1) NUL p = Some (cs, p')"
      "p_input p' = p_input p" "p_valid p' \<longrightarrow> p_valid p" "css_list_ok (p_input p) NUL (p_offset p) cs p'"
    by (rule css_list_totalE [OF css_list_total, of p "length input + 1" NUL]) (auto simp: p_def)
  then show ?thesis
    by (auto simp: ns_css_component_values_parse_def p_def css_list_ok_def css_list_end_def)
qed

end
