(* ===== verification/Dom_Node.thy ===== *)
theory Dom_Node
  imports CString
begin

text \<open>
  Nodes of the document and the attributes of an element (\<open>src/src/dom.h\<close>,
  \<open>src/src/dom.c\<close>). A node is named by a number, its address; a pointer that may be
  null is an option. Attribute values are bytes and may hold NUL (\<open>value_len\<close> is
  their length); the functions that return a \<open>char *\<close> return the C string.
\<close>

section \<open>Data\<close>

datatype ns_node_kind = NodeDocument | NodeDoctype | NodeElement | NodeText | NodeComment

datatype ns_node_flag = FlagFragment | FlagTemplateContent | FlagSvgNs | FlagForeignNs | FlagCdata | FlagPi
  | FlagKeepCase | FlagNotParserInserted | FlagXmlDoc | FlagInputIndeterminate

text \<open>An attribute; \<open>at_lower\<close> is the flag \<open>NS_ATTR_NAME_LOWER\<close>.\<close>

record ns_attr =
  at_name :: string
  at_value :: string
  at_ns :: cptr
  at_prefix :: cptr
  at_local :: cptr
  at_lower :: bool

text \<open>\<open>nd_class_set\<close> is the cache of the class tokens, \<open>nd_attr_bloom\<close> that of the
  attribute names, \<open>nd_attr_gen\<close> the counter of attribute changes.\<close>

record ns_node =
  nd_kind :: ns_node_kind
  nd_name :: cptr
  nd_text :: cptr
  nd_attrs :: "ns_attr list"
  nd_parent :: "nat option"
  nd_first_child :: "nat option"
  nd_last_child :: "nat option"
  nd_prev_sibling :: "nat option"
  nd_next_sibling :: "nat option"
  nd_tpl_content :: "nat option"
  nd_class_set :: "string list option"
  nd_attr_bloom :: "64 word"
  nd_attr_gen :: "32 word"
  nd_flags :: "ns_node_flag set"

definition ns_node_new :: "ns_node_kind \<Rightarrow> ns_node" where
  "ns_node_new k = \<lparr>nd_kind = k, nd_name = None, nd_text = None, nd_attrs = [], nd_parent = None,
     nd_first_child = None, nd_last_child = None, nd_prev_sibling = None, nd_next_sibling = None,
     nd_tpl_content = None, nd_class_set = None, nd_attr_bloom = 0, nd_attr_gen = 0, nd_flags = {}\<rparr>"

definition ns_node_new_document :: ns_node where
  "ns_node_new_document = ns_node_new NodeDocument"

definition ns_node_new_element :: "string \<Rightarrow> ns_node" where
  "ns_node_new_element name = (ns_node_new NodeElement)\<lparr>nd_name := Some name\<rparr>"

definition ns_node_new_text_len :: "cptr \<Rightarrow> ns_node" where
  "ns_node_new_text_len text = (ns_node_new NodeText)\<lparr>nd_text := text\<rparr>"

section \<open>Class tokens\<close>

definition ns_clsset_ws :: "char \<Rightarrow> bool" where
  "ns_clsset_ws c = (c = SP \<or> c = HT \<or> c = LF \<or> c = CR \<or> c = FF)"

function ns_class_set_build :: "string \<Rightarrow> string list" where
  "ns_class_set_build s =
     (let t = dropWhile ns_clsset_ws s
      in if t = [] then []
         else takeWhile (\<lambda>c. \<not> ns_clsset_ws c) t
              # ns_class_set_build (dropWhile (\<lambda>c. \<not> ns_clsset_ws c) t))"
  by pat_completeness auto
termination
proof (relation "measure length", goal_cases)
  case (2 s t)
  then obtain c r where t: "t = c # r" by (meson neq_Nil_conv)
  then have "\<not> ns_clsset_ws c" using 2(1) hd_dropWhile [of ns_clsset_ws s] by simp
  have "length t \<le> length s" using 2(1) length_dropWhile_le by simp
  moreover have "dropWhile (\<lambda>c. \<not> ns_clsset_ws c) t = dropWhile (\<lambda>c. \<not> ns_clsset_ws c) r"
    using t \<open>\<not> ns_clsset_ws c\<close> by simp
  moreover have "length (dropWhile (\<lambda>c. \<not> ns_clsset_ws c) r) \<le> length r" by (rule length_dropWhile_le)
  ultimately show ?case using t by simp
qed simp

declare ns_class_set_build.simps [simp del]

section \<open>Looking attributes up\<close>

definition ns_str_is_ascii_lower :: "string \<Rightarrow> bool" where
  "ns_str_is_ascii_lower s = list_all (\<lambda>c. \<not> ascii_isupper c) s"

text \<open>The search of an element that is not in the SVG namespace for a lower-case
  name: flagged names are compared byte by byte.\<close>

definition attr_matches_lower :: "string \<Rightarrow> ns_attr \<Rightarrow> bool" where
  "attr_matches_lower name a =
     (if at_lower a then take 1 (at_name a) = take 1 name \<and> at_name a = name
      else strcaseeq (at_name a) name)"

definition ns_element_find_attr :: "ns_node \<Rightarrow> cptr \<Rightarrow> ns_attr option" where
  "ns_element_find_attr el name =
     (case name of None \<Rightarrow> None
      | Some n \<Rightarrow>
        if nd_kind el \<noteq> NodeElement then None
        else if FlagSvgNs \<in> nd_flags el then find (\<lambda>a. at_name a = n) (nd_attrs el)
        else if ns_str_is_ascii_lower n then find (attr_matches_lower n) (nd_attrs el)
        else find (\<lambda>a. strcaseeq (at_name a) n) (nd_attrs el))"

definition ns_element_get_attr :: "ns_node \<Rightarrow> cptr \<Rightarrow> cptr" where
  "ns_element_get_attr el name = map_option (until_nul \<circ> at_value) (ns_element_find_attr el name)"

definition ns_element_get_attr_len :: "ns_node \<Rightarrow> cptr \<Rightarrow> cptr" where
  "ns_element_get_attr_len el name = map_option at_value (ns_element_find_attr el name)"

definition ns_attr_local_name :: "ns_attr \<Rightarrow> string" where
  "ns_attr_local_name a = (case at_local a of Some l \<Rightarrow> l | None \<Rightarrow> at_name a)"

definition ns_attr_normalize_namespace :: "cptr \<Rightarrow> cptr" where
  "ns_attr_normalize_namespace u = (case u of None \<Rightarrow> None | Some s \<Rightarrow> if s = [] then None else Some s)"

definition ns_attr_namespace_equal :: "cptr \<Rightarrow> cptr \<Rightarrow> bool" where
  "ns_attr_namespace_equal a b = (ns_attr_normalize_namespace a = ns_attr_normalize_namespace b)"

definition ns_attr_matches_ns :: "cptr \<Rightarrow> string \<Rightarrow> ns_attr \<Rightarrow> bool" where
  "ns_attr_matches_ns u loc a = (ns_attr_namespace_equal (at_ns a) u \<and> ns_attr_local_name a = loc)"

definition ns_element_find_attr_ns :: "ns_node \<Rightarrow> cptr \<Rightarrow> cptr \<Rightarrow> ns_attr option" where
  "ns_element_find_attr_ns el u loc =
     (case loc of None \<Rightarrow> None
      | Some l \<Rightarrow>
        if nd_kind el \<noteq> NodeElement then None
        else find (ns_attr_matches_ns (ns_attr_normalize_namespace u) l) (nd_attrs el))"

definition ns_attr_name_is_internal :: "cptr \<Rightarrow> bool" where
  "ns_attr_name_is_internal name =
     (case name of None \<Rightarrow> False | Some n \<Rightarrow> strcaseeq (take 8 n) ''data-nd-'')"

text \<open>Whether the element has a class, and the element with its cache filled.\<close>

definition ns_node_has_class :: "ns_node \<Rightarrow> string \<Rightarrow> bool \<times> ns_node" where
  "ns_node_has_class el name =
     (if nd_kind el \<noteq> NodeElement then (False, el)
      else
        let cs = (case nd_class_set el of Some cs \<Rightarrow> cs
                  | None \<Rightarrow> (case ns_element_get_attr el (Some ''class'') of None \<Rightarrow> []
                            | Some cls \<Rightarrow> if cls = [] then [] else ns_class_set_build cls))
        in (name \<in> set cs, el\<lparr>nd_class_set := Some cs\<rparr>))"

section \<open>The Bloom filter of attribute names\<close>

definition bloom_hash :: "string \<Rightarrow> 32 word" where
  "bloom_hash name = fold (\<lambda>c h. xor h (word_of_nat (code c)) * 16777619) name 2166136261"

definition ns_attr_name_bloom_bit :: "string \<Rightarrow> 64 word" where
  "ns_attr_name_bloom_bit name = push_bit (unat (and (bloom_hash name) 63)) 1"

definition ns_node_attr_bloom :: "ns_node \<Rightarrow> 64 word \<times> ns_node" where
  "ns_node_attr_bloom el =
     (if nd_attr_bloom el \<noteq> 0 then (nd_attr_bloom el, el)
      else
        let b = fold (\<lambda>a b. or b (ns_attr_name_bloom_bit (at_name a))) (nd_attrs el) 0
        in (b, el\<lparr>nd_attr_bloom := b\<rparr>))"

section \<open>Changing attributes\<close>

text \<open>What every change starts with: the class cache is dropped when \<open>is_class\<close>, the
  filter is reset and the counter goes up.\<close>

definition attrs_touch :: "bool \<Rightarrow> ns_node \<Rightarrow> ns_node" where
  "attrs_touch is_class el =
     el\<lparr>nd_class_set := (if is_class then None else nd_class_set el),
        nd_attr_bloom := 0, nd_attr_gen := nd_attr_gen el + 1\<rparr>"

text \<open>The value of the first attribute that matches is replaced; without one the new
  attribute goes to the end.\<close>

fun attrs_put :: "(ns_attr \<Rightarrow> bool) \<Rightarrow> string \<Rightarrow> ns_attr \<Rightarrow> ns_attr list \<Rightarrow> ns_attr list" where
  "attrs_put P v new [] = [new]"
| "attrs_put P v new (a # as) =
     (if P a then a\<lparr>at_value := v\<rparr> # as else a # attrs_put P v new as)"

fun attrs_drop :: "(ns_attr \<Rightarrow> bool) \<Rightarrow> ns_attr list \<Rightarrow> ns_attr list" where
  "attrs_drop P [] = []"
| "attrs_drop P (a # as) = (if P a then as else a # attrs_drop P as)"

definition plain_attr :: "string \<Rightarrow> string \<Rightarrow> ns_attr" where
  "plain_attr name v = \<lparr>at_name = name, at_value = v, at_ns = None, at_prefix = None, at_local = None,
     at_lower = ns_str_is_ascii_lower name\<rparr>"

definition ns_element_set_attr_len :: "ns_node \<Rightarrow> string \<Rightarrow> string \<Rightarrow> ns_node" where
  "ns_element_set_attr_len el name v =
     (if nd_kind el \<noteq> NodeElement then el
      else
        let el1 = attrs_touch (strcaseeq name ''class'') el
        in el1\<lparr>nd_attrs := attrs_put (\<lambda>a. strcaseeq (at_name a) name) v (plain_attr name v) (nd_attrs el)\<rparr>)"

definition ns_element_set_attr :: "ns_node \<Rightarrow> string \<Rightarrow> cptr \<Rightarrow> ns_node" where
  "ns_element_set_attr el name value =
     ns_element_set_attr_len el name (case value of None \<Rightarrow> [] | Some v \<Rightarrow> until_nul v)"

definition ns_element_set_attr_ns ::
    "ns_node \<Rightarrow> cptr \<Rightarrow> cptr \<Rightarrow> string \<Rightarrow> cptr \<Rightarrow> cptr \<Rightarrow> ns_node" where
  "ns_element_set_attr_ns el u prefix loc name value =
     (if nd_kind el \<noteq> NodeElement then el
      else
        let ns = ns_attr_normalize_namespace u;
            pfx = (case prefix of None \<Rightarrow> None | Some p \<Rightarrow> if p = [] then None else Some p);
            qualified = (case name of None \<Rightarrow> loc | Some n \<Rightarrow> if n = [] then loc else n);
            v = (case value of None \<Rightarrow> [] | Some t \<Rightarrow> until_nul t);
            el1 = attrs_touch (ns = None \<and> strcaseeq loc ''class'') el
        in el1\<lparr>nd_attrs := attrs_put (ns_attr_matches_ns ns loc) v
                 \<lparr>at_name = qualified, at_value = v, at_ns = ns, at_prefix = pfx, at_local = Some loc,
                  at_lower = ns_str_is_ascii_lower qualified\<rparr> (nd_attrs el)\<rparr>)"

definition ns_element_append_attr_borrow :: "ns_node \<Rightarrow> cptr \<Rightarrow> cptr \<Rightarrow> ns_node" where
  "ns_element_append_attr_borrow el name value =
     (case name of None \<Rightarrow> el
      | Some n \<Rightarrow>
        if nd_kind el \<noteq> NodeElement then el
        else
          (attrs_touch True el)\<lparr>nd_attrs := nd_attrs el @
             [plain_attr n (case value of None \<Rightarrow> [] | Some v \<Rightarrow> until_nul v)]\<rparr>)"

definition ns_element_remove_attr :: "ns_node \<Rightarrow> cptr \<Rightarrow> ns_node" where
  "ns_element_remove_attr el name =
     (case name of None \<Rightarrow> el
      | Some n \<Rightarrow>
        if nd_kind el \<noteq> NodeElement then el
        else
          (attrs_touch (strcaseeq n ''class'') el)
            \<lparr>nd_attrs := attrs_drop (\<lambda>a. strcaseeq (at_name a) n) (nd_attrs el)\<rparr>)"

definition ns_element_remove_attr_ns :: "ns_node \<Rightarrow> cptr \<Rightarrow> cptr \<Rightarrow> ns_node" where
  "ns_element_remove_attr_ns el u loc =
     (case loc of None \<Rightarrow> el
      | Some l \<Rightarrow>
        if nd_kind el \<noteq> NodeElement then el
        else
          let ns = ns_attr_normalize_namespace u
          in (attrs_touch (ns = None \<and> strcaseeq l ''class'') el)
               \<lparr>nd_attrs := attrs_drop (ns_attr_matches_ns ns l) (nd_attrs el)\<rparr>)"

definition ns_node_is_element_named :: "ns_node \<Rightarrow> cptr \<Rightarrow> bool" where
  "ns_node_is_element_named n tag =
     (nd_kind n = NodeElement \<and> nd_name n \<noteq> None \<and> tag \<noteq> None \<and> nd_name n = tag)"

section \<open>The caches agree with the attributes\<close>

text \<open>The test of \<open>ns_element_find_attr\<close> on one attribute.\<close>

definition attr_test :: "bool \<Rightarrow> string \<Rightarrow> ns_attr \<Rightarrow> bool" where
  "attr_test svg n a =
     (if svg then at_name a = n
      else if ns_str_is_ascii_lower n then attr_matches_lower n a
      else strcaseeq (at_name a) n)"

lemma ns_element_find_attr_test:
  "nd_kind el = NodeElement \<Longrightarrow>
   ns_element_find_attr el (Some n) = find (attr_test (FlagSvgNs \<in> nd_flags el) n) (nd_attrs el)"
  unfolding ns_element_find_attr_def attr_test_def by simp

lemma attr_test_value [simp]: "attr_test svg n (a\<lparr>at_value := v\<rparr>) = attr_test svg n a"
  by (simp add: attr_test_def attr_matches_lower_def)

lemma attr_test_name: "attr_test svg n a \<Longrightarrow> strcaseeq (at_name a) n"
  by (auto simp: attr_test_def attr_matches_lower_def split: if_splits)

lemma find_put_other:
  assumes "\<And>a. a \<in> set as \<Longrightarrow> P a \<Longrightarrow> \<not> Q a" and "\<not> Q new" and "\<And>a v. Q (a\<lparr>at_value := v\<rparr>) = Q a"
  shows "find Q (attrs_put P v new as) = find Q as"
  using assms(1) by (induction as) (auto simp: assms(2,3))

lemma find_drop_other: "(\<And>a. a \<in> set as \<Longrightarrow> P a \<Longrightarrow> \<not> Q a) \<Longrightarrow> find Q (attrs_drop P as) = find Q as"
  by (induction as) auto

lemma set_attrs_put:
  "a \<in> set (attrs_put P v new as) \<Longrightarrow> a = new \<or> (\<exists>b\<in>set as. a = b \<or> a = b\<lparr>at_value := v\<rparr>)"
  by (induction as) (auto split: if_splits)

lemma set_attrs_drop: "set (attrs_drop P as) \<subseteq> set as"
  by (induction as) auto

text \<open>The flag of lower-case names is right, and an attribute that is called
  \<open>class\<close> has no namespace and \<open>class\<close> as its local name.\<close>

definition attr_ok :: "ns_attr \<Rightarrow> bool" where
  "attr_ok a =
     (at_lower a = ns_str_is_ascii_lower (at_name a) \<and>
      (strcaseeq (at_name a) ''class'' \<longrightarrow>
         ns_attr_normalize_namespace (at_ns a) = None \<and> strcaseeq (ns_attr_local_name a) ''class''))"

lemma attr_ok_value [simp]: "attr_ok (a\<lparr>at_value := v\<rparr>) = attr_ok a"
  by (simp add: attr_ok_def ns_attr_local_name_def split: option.split)

definition class_tokens :: "ns_node \<Rightarrow> string list" where
  "class_tokens el =
     (case ns_element_get_attr el (Some ''class'') of None \<Rightarrow> [] | Some cls \<Rightarrow> ns_class_set_build cls)"

definition name_bloom :: "ns_attr list \<Rightarrow> 64 word" where
  "name_bloom as = fold (\<lambda>a b. or b (ns_attr_name_bloom_bit (at_name a))) as 0"

definition element_ok :: "ns_node \<Rightarrow> bool" where
  "element_ok el =
     (nd_kind el = NodeElement \<and> list_all attr_ok (nd_attrs el)
      \<and> (nd_class_set el = None \<or> nd_class_set el = Some (class_tokens el))
      \<and> (nd_attr_bloom el = 0 \<or> nd_attr_bloom el = name_bloom (nd_attrs el)))"

lemma ns_class_set_build_nil [simp]: "ns_class_set_build [] = []"
  by (simp add: ns_class_set_build.simps)

lemma class_tokens_cong:
  assumes "nd_kind el = NodeElement" "nd_kind el' = NodeElement" "nd_flags el' = nd_flags el"
    and "find (attr_test (FlagSvgNs \<in> nd_flags el) ''class'') (nd_attrs el')
       = find (attr_test (FlagSvgNs \<in> nd_flags el) ''class'') (nd_attrs el)"
  shows "class_tokens el' = class_tokens el"
  using assms by (simp add: class_tokens_def ns_element_get_attr_def ns_element_find_attr_test)

text \<open>Every change: the new attributes are well formed, and unless the cache is
  dropped the attribute found for \<open>class\<close> is the same.\<close>

lemma element_ok_touch:
  assumes "element_ok el" and "list_all attr_ok as"
    and "\<not> c \<Longrightarrow> find (attr_test (FlagSvgNs \<in> nd_flags el) ''class'') as
       = find (attr_test (FlagSvgNs \<in> nd_flags el) ''class'') (nd_attrs el)"
  shows "element_ok ((attrs_touch c el)\<lparr>nd_attrs := as\<rparr>)"
proof -
  have k: "nd_kind el = NodeElement" using assms(1) by (simp add: element_ok_def)
  have "class_tokens ((attrs_touch c el)\<lparr>nd_attrs := as\<rparr>) = class_tokens el" if "\<not> c"
    by (rule class_tokens_cong) (use assms(3) [OF that] k in \<open>simp_all add: attrs_touch_def\<close>)
  then show ?thesis using assms(1,2) by (auto simp: element_ok_def attrs_touch_def)
qed

lemma attrs_put_ok: "list_all attr_ok as \<Longrightarrow> attr_ok new \<Longrightarrow> list_all attr_ok (attrs_put P v new as)"
  by (induction as) auto

lemma attrs_drop_ok: "list_all attr_ok as \<Longrightarrow> list_all attr_ok (attrs_drop P as)"
  using set_attrs_drop [of P as] by (auto simp: list_all_iff)

lemma plain_attr_ok: "attr_ok (plain_attr n v)"
  by (simp add: attr_ok_def plain_attr_def ns_attr_local_name_def ns_attr_normalize_namespace_def)

lemma set_attr_ok: "element_ok el \<Longrightarrow> element_ok (ns_element_set_attr_len el n v)"
proof -
  assume ok: "element_ok el"
  have "find (attr_test svg ''class'') (attrs_put (\<lambda>a. strcaseeq (at_name a) n) v (plain_attr n v) (nd_attrs el))
      = find (attr_test svg ''class'') (nd_attrs el)" if "\<not> strcaseeq n ''class''" for svg
    using that
    by (intro find_put_other)
      (auto dest!: attr_test_name simp: plain_attr_def dest: strcaseeq_trans strcaseeq_sym [THEN iffD1])
  then have "element_ok ((attrs_touch (strcaseeq n ''class'') el)
      \<lparr>nd_attrs := attrs_put (\<lambda>a. strcaseeq (at_name a) n) v (plain_attr n v) (nd_attrs el)\<rparr>)"
    using ok by (intro element_ok_touch attrs_put_ok plain_attr_ok) (simp_all add: element_ok_def)
  then show ?thesis using ok by (simp add: ns_element_set_attr_len_def Let_def)
qed

lemma remove_attr_ok: "element_ok el \<Longrightarrow> element_ok (ns_element_remove_attr el name)"
proof (cases name)
  case (Some n)
  assume ok: "element_ok el"
  have "find (attr_test svg ''class'') (attrs_drop (\<lambda>a. strcaseeq (at_name a) n) (nd_attrs el))
      = find (attr_test svg ''class'') (nd_attrs el)" if "\<not> strcaseeq n ''class''" for svg
    using that
    by (intro find_drop_other) (auto dest!: attr_test_name dest: strcaseeq_trans strcaseeq_sym [THEN iffD1])
  then have "element_ok ((attrs_touch (strcaseeq n ''class'') el)
      \<lparr>nd_attrs := attrs_drop (\<lambda>a. strcaseeq (at_name a) n) (nd_attrs el)\<rparr>)"
    using ok by (intro element_ok_touch attrs_drop_ok) (simp_all add: element_ok_def)
  then show ?thesis using ok Some by (simp add: ns_element_remove_attr_def element_ok_def)
qed (simp add: ns_element_remove_attr_def)

lemma append_attr_ok: "element_ok el \<Longrightarrow> element_ok (ns_element_append_attr_borrow el name value)"
proof (cases name)
  case (Some n)
  assume ok: "element_ok el"
  then have "element_ok ((attrs_touch True el)\<lparr>nd_attrs := nd_attrs el @ [plain_attr n v]\<rparr>)" for v
    by (intro element_ok_touch) (simp_all add: element_ok_def plain_attr_ok)
  then show ?thesis using ok Some by (simp add: ns_element_append_attr_borrow_def)
qed (simp add: ns_element_append_attr_borrow_def)

text \<open>The name a namespaced change gives a new attribute, and when such a change is
  harmless: it is about \<open>class\<close> without a namespace, or not about that name.\<close>

definition qualified_name :: "cptr \<Rightarrow> string \<Rightarrow> string" where
  "qualified_name name loc = (case name of None \<Rightarrow> loc | Some n \<Rightarrow> if n = [] then loc else n)"

definition ns_harmless :: "cptr \<Rightarrow> string \<Rightarrow> cptr \<Rightarrow> bool" where
  "ns_harmless u loc name =
     ((ns_attr_normalize_namespace u = None \<and> strcaseeq loc ''class'')
      \<or> \<not> strcaseeq (qualified_name name loc) ''class'')"

lemma normalize_idem [simp]:
  "ns_attr_normalize_namespace (ns_attr_normalize_namespace u) = ns_attr_normalize_namespace u"
  by (cases u) (auto simp: ns_attr_normalize_namespace_def)

lemma ns_match_not_class:
  assumes "attr_ok a" "ns_attr_matches_ns (ns_attr_normalize_namespace u) l a"
    and "\<not> (ns_attr_normalize_namespace u = None \<and> strcaseeq l ''class'')"
  shows "\<not> attr_test svg ''class'' a"
proof
  assume "attr_test svg ''class'' a"
  then have "strcaseeq (at_name a) ''class''" by (rule attr_test_name)
  then have "ns_attr_normalize_namespace (at_ns a) = None" "strcaseeq (ns_attr_local_name a) ''class''"
    using assms(1) by (auto simp: attr_ok_def)
  then show False using assms(2,3) by (auto simp: ns_attr_matches_ns_def ns_attr_namespace_equal_def)
qed

lemma set_attr_ns_ok:
  assumes ok: "element_ok el" and h: "ns_harmless u loc name"
  shows "element_ok (ns_element_set_attr_ns el u prefix loc name value)"
proof -
  define c where "c = (ns_attr_normalize_namespace u = None \<and> strcaseeq loc ''class'')"
  define v where "v = (case value of None \<Rightarrow> [] | Some t \<Rightarrow> until_nul t)"
  define pfx where "pfx = (case prefix of None \<Rightarrow> None | Some p \<Rightarrow> if p = [] then None else Some p)"
  define new where "new = \<lparr>at_name = qualified_name name loc, at_value = v,
      at_ns = ns_attr_normalize_namespace u, at_prefix = pfx, at_local = Some loc,
      at_lower = ns_str_is_ascii_lower (qualified_name name loc)\<rparr>"
  have new: "attr_ok new" using h by (auto simp: attr_ok_def new_def ns_attr_local_name_def ns_harmless_def)
  have "find (attr_test svg ''class'')
        (attrs_put (ns_attr_matches_ns (ns_attr_normalize_namespace u) loc) v new (nd_attrs el))
      = find (attr_test svg ''class'') (nd_attrs el)" if "\<not> c" for svg
  proof (rule find_put_other)
    show "\<not> attr_test svg ''class'' new"
      using h that by (auto simp: ns_harmless_def c_def new_def dest!: attr_test_name)
    show "\<not> attr_test svg ''class'' a"
      if "a \<in> set (nd_attrs el)" "ns_attr_matches_ns (ns_attr_normalize_namespace u) loc a" for a
      using that ok \<open>\<not> c\<close> by (intro ns_match_not_class) (auto simp: c_def element_ok_def list_all_iff)
  qed simp
  then have "element_ok ((attrs_touch c el)\<lparr>nd_attrs :=
      attrs_put (ns_attr_matches_ns (ns_attr_normalize_namespace u) loc) v new (nd_attrs el)\<rparr>)"
    using ok new by (intro element_ok_touch attrs_put_ok) (simp_all add: element_ok_def)
  then show ?thesis
    using ok unfolding ns_element_set_attr_ns_def c_def new_def v_def pfx_def qualified_name_def
    by (simp add: Let_def element_ok_def)
qed

lemma remove_attr_ns_ok: "element_ok el \<Longrightarrow> element_ok (ns_element_remove_attr_ns el u loc)"
proof (cases loc)
  case (Some l)
  assume ok: "element_ok el"
  define c where "c = (ns_attr_normalize_namespace u = None \<and> strcaseeq l ''class'')"
  have "find (attr_test svg ''class'') (attrs_drop (ns_attr_matches_ns (ns_attr_normalize_namespace u) l) (nd_attrs el))
      = find (attr_test svg ''class'') (nd_attrs el)" if "\<not> c" for svg
    using ok that
    by (intro find_drop_other ns_match_not_class [where u = u and l = l])
      (auto simp: c_def element_ok_def list_all_iff)
  then have "element_ok ((attrs_touch c el)
      \<lparr>nd_attrs := attrs_drop (ns_attr_matches_ns (ns_attr_normalize_namespace u) l) (nd_attrs el)\<rparr>)"
    using ok by (intro element_ok_touch attrs_drop_ok) (simp_all add: element_ok_def)
  then show ?thesis using ok Some by (simp add: ns_element_remove_attr_ns_def element_ok_def c_def Let_def)
qed (simp add: ns_element_remove_attr_ns_def)

lemma has_class_ok:
  assumes "element_ok el"
  shows "element_ok (snd (ns_node_has_class el c))"
    "fst (ns_node_has_class el c) \<longleftrightarrow> c \<in> set (class_tokens el)"
proof -
  have t: "class_tokens (el\<lparr>nd_class_set := x\<rparr>) = class_tokens el" for x
    using assms by (intro class_tokens_cong) (auto simp: element_ok_def)
  have "(case ns_element_get_attr el (Some ''class'') of None \<Rightarrow> []
      | Some cls \<Rightarrow> if cls = [] then [] else ns_class_set_build cls) = class_tokens el"
    by (simp add: class_tokens_def split: option.split)
  then have h: "ns_node_has_class el c = (c \<in> set (class_tokens el), el\<lparr>nd_class_set := Some (class_tokens el)\<rparr>)"
    using assms by (auto simp: ns_node_has_class_def element_ok_def Let_def)
  show "fst (ns_node_has_class el c) \<longleftrightarrow> c \<in> set (class_tokens el)" by (simp add: h)
  show "element_ok (snd (ns_node_has_class el c))"
    using assms by (simp add: h element_ok_def t)
qed

lemma fold_or_keep:
  fixes f :: "'a \<Rightarrow> 64 word"
  shows "or b m = b \<Longrightarrow> or (fold (\<lambda>a b. or b (f a)) as b) m = fold (\<lambda>a b. or b (f a)) as b"
proof (induction as arbitrary: b)
  case (Cons a as)
  have "or (or b (f a)) m = or (or b m) (f a)" by (simp only: or.assoc or.commute or.left_commute)
  then show ?case using Cons by simp
qed simp

lemma fold_or_bits:
  fixes f :: "'a \<Rightarrow> 64 word"
  shows "x \<in> set as \<Longrightarrow> or (fold (\<lambda>a b. or b (f a)) as b) (f x) = fold (\<lambda>a b. or b (f a)) as b"
proof (induction as arbitrary: b)
  case (Cons a as)
  show ?case
  proof (cases "x = a")
    case True
    have "or (or b (f a)) (f a) = or b (f a)" by (simp add: or.assoc)
    then show ?thesis using True by (simp add: fold_or_keep)
  qed (use Cons in simp)
qed simp

lemma bloom_ok:
  assumes "element_ok el"
  shows "element_ok (snd (ns_node_attr_bloom el))"
    "fst (ns_node_attr_bloom el) = name_bloom (nd_attrs el)"
proof -
  have t: "class_tokens (el\<lparr>nd_attr_bloom := x\<rparr>) = class_tokens el" for x
    using assms by (intro class_tokens_cong) (auto simp: element_ok_def)
  show "element_ok (snd (ns_node_attr_bloom el))"
    using assms by (auto simp: ns_node_attr_bloom_def element_ok_def t name_bloom_def Let_def)
  show "fst (ns_node_attr_bloom el) = name_bloom (nd_attrs el)"
    using assms by (auto simp: ns_node_attr_bloom_def element_ok_def name_bloom_def Let_def)
qed

text \<open>An element as scripts and the parser change it.\<close>

datatype attr_op = OpSet string string | OpSetNs cptr cptr string cptr cptr | OpAppend cptr cptr
  | OpRemove cptr | OpRemoveNs cptr cptr | OpHasClass string | OpBloom

fun attr_apply :: "attr_op \<Rightarrow> ns_node \<Rightarrow> ns_node" where
  "attr_apply (OpSet n v) el = ns_element_set_attr_len el n v"
| "attr_apply (OpSetNs u p l n v) el = ns_element_set_attr_ns el u p l n v"
| "attr_apply (OpAppend n v) el = ns_element_append_attr_borrow el n v"
| "attr_apply (OpRemove n) el = ns_element_remove_attr el n"
| "attr_apply (OpRemoveNs u l) el = ns_element_remove_attr_ns el u l"
| "attr_apply (OpHasClass c) el = snd (ns_node_has_class el c)"
| "attr_apply OpBloom el = snd (ns_node_attr_bloom el)"

fun op_harmless :: "attr_op \<Rightarrow> bool" where
  "op_harmless (OpSetNs u p l n v) = ns_harmless u l n"
| "op_harmless op = True"

lemma attr_apply_ok: "element_ok el \<Longrightarrow> op_harmless op \<Longrightarrow> element_ok (attr_apply op el)"
  by (cases op)
    (simp_all add: set_attr_ok set_attr_ns_ok append_attr_ok remove_attr_ok remove_attr_ns_ok has_class_ok bloom_ok)

lemma new_element_ok: "element_ok ((ns_node_new_element name)\<lparr>nd_flags := fl\<rparr>)"
  by (simp add: element_ok_def ns_node_new_element_def ns_node_new_def)

lemma attr_run_ok:
  "list_all op_harmless ops \<Longrightarrow> element_ok el \<Longrightarrow> element_ok (fold attr_apply ops el)"
  by (induction ops arbitrary: el) (auto intro: attr_apply_ok)

lemma find_test_plain:
  "list_all attr_ok as \<Longrightarrow> find (attr_test False n) as = find (\<lambda>a. strcaseeq (at_name a) n) as"
proof (induction as)
  case (Cons a as)
  have "attr_test False n a = strcaseeq (at_name a) n"
    using Cons.prems
    by (auto simp: attr_test_def attr_matches_lower_def attr_ok_def strcaseeq_def ns_str_is_ascii_lower_def
        list_all_iff ascii_tolower_def map_idI cong: map_cong)
  then show ?case using Cons by simp
qed simp

lemma attr_apply_flags: "nd_flags (attr_apply op el) = nd_flags el"
  by (cases op)
    (auto simp: ns_element_set_attr_len_def ns_element_set_attr_ns_def ns_element_append_attr_borrow_def
      ns_element_remove_attr_def ns_element_remove_attr_ns_def ns_node_has_class_def ns_node_attr_bloom_def
      attrs_touch_def Let_def split: option.split)

lemma attr_run_flags: "nd_flags (fold attr_apply ops el) = nd_flags el"
  by (induction ops arbitrary: el) (simp_all add: attr_apply_flags)

text \<open>An element after a run of changes and queries.\<close>

definition element_after :: "string \<Rightarrow> ns_node_flag set \<Rightarrow> attr_op list \<Rightarrow> ns_node" where
  "element_after name fl ops = fold attr_apply ops ((ns_node_new_element name)\<lparr>nd_flags := fl\<rparr>)"

lemma element_after_ok:
  "list_all op_harmless ops \<Longrightarrow> element_ok (element_after name fl ops)"
  unfolding element_after_def by (intro attr_run_ok new_element_ok)

lemma element_after_flags: "nd_flags (element_after name fl ops) = fl"
  unfolding element_after_def by (simp add: attr_run_flags)

text \<open>(C16) The caches of an element never lie: after any sequence of attribute
  changes and queries in which no namespaced attribute is called \<open>class\<close>, an
  element has a class exactly if it is among the tokens of the attribute \<open>class\<close> it
  has now, the Bloom filter has the bit of every attribute name, and the search
  that compares flagged names byte by byte finds what a search ignoring case finds.\<close>

theorem dom_attr_caches:
  assumes "list_all op_harmless ops"
  shows "(let el = element_after name fl ops in
     fst (ns_node_has_class el c) = (c \<in> set (class_tokens el))
     \<and> list_all (\<lambda>a. or (fst (ns_node_attr_bloom el)) (ns_attr_name_bloom_bit (at_name a))
                   = fst (ns_node_attr_bloom el)) (nd_attrs el)
     \<and> ns_element_find_attr el (Some n) =
         find (\<lambda>a. if FlagSvgNs \<in> fl then at_name a = n else strcaseeq (at_name a) n) (nd_attrs el))"
proof -
  define el where "el = element_after name fl ops"
  have ok: "element_ok el" and fl: "nd_flags el = fl"
    using element_after_ok [OF assms] element_after_flags by (simp_all add: el_def)
  have "ns_element_find_attr el (Some n) =
         find (\<lambda>a. if FlagSvgNs \<in> fl then at_name a = n else strcaseeq (at_name a) n) (nd_attrs el)"
  proof (cases "FlagSvgNs \<in> fl")
    case False
    then show ?thesis
      using ok fl find_test_plain [of "nd_attrs el" n] by (simp add: ns_element_find_attr_test element_ok_def)
  next
    case True
    moreover have "attr_test True n = (\<lambda>a. at_name a = n)" by (simp add: attr_test_def fun_eq_iff)
    ultimately show ?thesis using ok fl by (simp add: ns_element_find_attr_test element_ok_def)
  qed
  moreover have "list_all (\<lambda>a. or (fst (ns_node_attr_bloom el)) (ns_attr_name_bloom_bit (at_name a))
                   = fst (ns_node_attr_bloom el)) (nd_attrs el)"
    unfolding bloom_ok(2) [OF ok] name_bloom_def list_all_iff
    by (intro ballI fold_or_bits [where f = "\<lambda>a. ns_attr_name_bloom_bit (at_name a)"])
  ultimately show ?thesis using has_class_ok(2) [OF ok] unfolding el_def [symmetric] Let_def by blast
qed

theorem dom_attr_caches_witness:
  "(let el = element_after ''p'' {} [OpSet ''class'' ''a b'', OpHasClass ''a'', OpSet ''Class'' ''c'']  in
     fst (ns_node_has_class el ''c'') = (''c'' \<in> set (class_tokens el))
     \<and> list_all (\<lambda>a. or (fst (ns_node_attr_bloom el)) (ns_attr_name_bloom_bit (at_name a))
                   = fst (ns_node_attr_bloom el)) (nd_attrs el)
     \<and> ns_element_find_attr el (Some ''CLASS'') =
         find (\<lambda>a. if FlagSvgNs \<in> {} then at_name a = ''CLASS'' else strcaseeq (at_name a) ''CLASS'') (nd_attrs el))"
  by (rule dom_attr_caches) simp

text \<open>The attributes of an HTML element are a map on names without case: reading
  after \<open>ns_element_set_attr_len\<close> gives the new value for every spelling of the name
  and the old value for every other name, and after \<open>ns_element_remove_attr\<close> the
  other names keep their values, while the name itself is gone if it was there once.\<close>

theorem dom_attr_map:
  assumes "list_all op_harmless ops" and "FlagSvgNs \<notin> fl"
  shows "(let el = element_after name fl ops; get = (\<lambda>e m. ns_element_get_attr_len e (Some m)) in
     get (ns_element_set_attr_len el n v) m = (if strcaseeq n m then Some v else get el m)
     \<and> get (ns_element_remove_attr el (Some n)) m =
         (if strcaseeq n m
          then map_option at_value (find (\<lambda>a. strcaseeq (at_name a) m)
                 (tl (dropWhile (\<lambda>a. \<not> strcaseeq (at_name a) m) (nd_attrs el))))
          else get el m))"
proof -
  define el where "el = element_after name fl ops"
  have get: "ns_element_get_attr_len (element_after name fl os) (Some m)
      = map_option at_value (find (\<lambda>a. strcaseeq (at_name a) m) (nd_attrs (element_after name fl os)))"
    if "list_all op_harmless os" for os m
    using element_after_ok [OF that, of name fl] element_after_flags [of name fl os] assms(2)
      find_test_plain [of "nd_attrs (element_after name fl os)" m]
    by (simp add: ns_element_get_attr_len_def ns_element_find_attr_test element_ok_def)
  have set: "ns_element_set_attr_len el n v = element_after name fl (ops @ [OpSet n v])"
    and rem: "ns_element_remove_attr el (Some n) = element_after name fl (ops @ [OpRemove (Some n)])"
    by (simp_all add: el_def element_after_def)
  have k: "nd_kind el = NodeElement" using element_after_ok [OF assms(1)] by (simp add: el_def element_ok_def)
  have put: "map_option at_value (find (\<lambda>a. strcaseeq (at_name a) m)
      (attrs_put (\<lambda>a. strcaseeq (at_name a) n) v (plain_attr n v) as))
      = (if strcaseeq n m then Some v else map_option at_value (find (\<lambda>a. strcaseeq (at_name a) m) as))" for as
    by (induction as) (auto simp: plain_attr_def dest: strcaseeq_trans strcaseeq_sym [THEN iffD1])
  have drop: "find (\<lambda>a. strcaseeq (at_name a) m) (attrs_drop (\<lambda>a. strcaseeq (at_name a) n) as)
      = (if strcaseeq n m
         then find (\<lambda>a. strcaseeq (at_name a) m) (tl (dropWhile (\<lambda>a. \<not> strcaseeq (at_name a) m) as))
         else find (\<lambda>a. strcaseeq (at_name a) m) as)" for as
    by (induction as) (auto dest: strcaseeq_trans strcaseeq_sym [THEN iffD1])
  have "ns_element_get_attr_len (ns_element_set_attr_len el n v) (Some m)
      = (if strcaseeq n m then Some v else ns_element_get_attr_len el (Some m))"
    using get [of "ops @ [OpSet n v]" m] get [OF assms(1), of m] assms(1) put [of "nd_attrs el"] k
    unfolding set [symmetric] el_def [symmetric] by (simp add: ns_element_set_attr_len_def Let_def)
  moreover have "ns_element_get_attr_len (ns_element_remove_attr el (Some n)) (Some m) =
         (if strcaseeq n m
          then map_option at_value (find (\<lambda>a. strcaseeq (at_name a) m)
                 (tl (dropWhile (\<lambda>a. \<not> strcaseeq (at_name a) m) (nd_attrs el))))
          else ns_element_get_attr_len el (Some m))"
    using get [of "ops @ [OpRemove (Some n)]" m] get [OF assms(1), of m] assms(1) drop [of "nd_attrs el"] k
    unfolding rem [symmetric] el_def [symmetric] by (simp add: ns_element_remove_attr_def)
  ultimately show ?thesis unfolding el_def [symmetric] Let_def by blast
qed

theorem dom_attr_map_witness:
  "(let el = element_after ''p'' {} [OpSet ''Title'' ''x'']; get = (\<lambda>e m. ns_element_get_attr_len e (Some m)) in
     get (ns_element_set_attr_len el ''title'' ''y'') ''TITLE''
       = (if strcaseeq ''title'' ''TITLE'' then Some ''y'' else get el ''TITLE'')
     \<and> get (ns_element_remove_attr el (Some ''title'')) ''TITLE'' =
         (if strcaseeq ''title'' ''TITLE''
          then map_option at_value (find (\<lambda>a. strcaseeq (at_name a) ''TITLE'')
                 (tl (dropWhile (\<lambda>a. \<not> strcaseeq (at_name a) ''TITLE'') (nd_attrs el))))
          else get el ''TITLE''))"
  by (rule dom_attr_map) simp_all

text \<open>A namespaced attribute called \<open>class\<close> escapes the cache: after its value is
  replaced, \<open>ns_node_has_class\<close> still answers from the tokens of the old one, which
  in the code point into the freed string.\<close>

lemma namespaced_class_leaves_stale_tokens:
  "(let el = element_after ''p'' {}
       [OpSetNs (Some ''urn:x'') None ''class'' None (Some ''b''), OpHasClass ''b'',
        OpSetNs (Some ''urn:x'') None ''class'' None (Some ''c'')]
    in fst (ns_node_has_class el ''b'') \<and> \<not> fst (ns_node_has_class el ''c'')
       \<and> ns_element_get_attr el (Some ''class'') = Some ''c'')"
  by code_simp

end
