(* ===== verification/Dom_Tree.thy ===== *)
theory Dom_Tree
  imports Dom_Node
begin

text \<open>
  The tree of nodes: the pointers between parents, children and siblings, and the
  functions that change them (\<open>src/src/dom.c\<close>, and the two insertions of
  \<open>src/src/js.c\<close>). The heap maps addresses to nodes; every assignment through a
  pointer is one update of it, in the order of the code. The abstraction is the list
  of children of each node, and each function is one operation on these lists.
\<close>

section \<open>The heap\<close>

type_synonym dom = "nat \<rightharpoonup> ns_node"

definition ptr :: "(ns_node \<Rightarrow> nat option) \<Rightarrow> dom \<Rightarrow> nat \<Rightarrow> nat option" where
  "ptr f h i = (case h i of None \<Rightarrow> None | Some n \<Rightarrow> f n)"

definition upd :: "nat \<Rightarrow> (ns_node \<Rightarrow> ns_node) \<Rightarrow> dom \<Rightarrow> dom" where
  "upd i f h = (case h i of None \<Rightarrow> h | Some n \<Rightarrow> h(i \<mapsto> f n))"

definition set_parent :: "nat \<Rightarrow> nat option \<Rightarrow> dom \<Rightarrow> dom" where
  "set_parent i v = upd i (\<lambda>n. n\<lparr>nd_parent := v\<rparr>)"

definition set_first :: "nat \<Rightarrow> nat option \<Rightarrow> dom \<Rightarrow> dom" where
  "set_first i v = upd i (\<lambda>n. n\<lparr>nd_first_child := v\<rparr>)"

definition set_last :: "nat \<Rightarrow> nat option \<Rightarrow> dom \<Rightarrow> dom" where
  "set_last i v = upd i (\<lambda>n. n\<lparr>nd_last_child := v\<rparr>)"

definition set_prev :: "nat \<Rightarrow> nat option \<Rightarrow> dom \<Rightarrow> dom" where
  "set_prev i v = upd i (\<lambda>n. n\<lparr>nd_prev_sibling := v\<rparr>)"

definition set_next :: "nat \<Rightarrow> nat option \<Rightarrow> dom \<Rightarrow> dom" where
  "set_next i v = upd i (\<lambda>n. n\<lparr>nd_next_sibling := v\<rparr>)"

named_theorems heap_simps \<open>reading a field after an assignment\<close>

lemma ptr_set [heap_simps]:
  "ptr nd_parent (set_parent i v h) j = (if j = i \<and> h i \<noteq> None then v else ptr nd_parent h j)"
  "ptr nd_first_child (set_first i v h) j = (if j = i \<and> h i \<noteq> None then v else ptr nd_first_child h j)"
  "ptr nd_last_child (set_last i v h) j = (if j = i \<and> h i \<noteq> None then v else ptr nd_last_child h j)"
  "ptr nd_prev_sibling (set_prev i v h) j = (if j = i \<and> h i \<noteq> None then v else ptr nd_prev_sibling h j)"
  "ptr nd_next_sibling (set_next i v h) j = (if j = i \<and> h i \<noteq> None then v else ptr nd_next_sibling h j)"
  by (auto simp: ptr_def upd_def set_parent_def set_first_def set_last_def set_prev_def set_next_def
      split: option.split)

lemma ptr_upd_other: "(\<And>n. f (g n) = f n) \<Longrightarrow> ptr f (upd i g h) j = ptr f h j"
  by (auto simp: ptr_def upd_def split: option.split)

lemma ptr_set_other [heap_simps]:
  "ptr nd_first_child (set_parent i v h) = ptr nd_first_child h"
  "ptr nd_last_child (set_parent i v h) = ptr nd_last_child h"
  "ptr nd_prev_sibling (set_parent i v h) = ptr nd_prev_sibling h"
  "ptr nd_next_sibling (set_parent i v h) = ptr nd_next_sibling h"
  "ptr nd_parent (set_first i v h) = ptr nd_parent h"
  "ptr nd_last_child (set_first i v h) = ptr nd_last_child h"
  "ptr nd_prev_sibling (set_first i v h) = ptr nd_prev_sibling h"
  "ptr nd_next_sibling (set_first i v h) = ptr nd_next_sibling h"
  "ptr nd_parent (set_last i v h) = ptr nd_parent h"
  "ptr nd_first_child (set_last i v h) = ptr nd_first_child h"
  "ptr nd_prev_sibling (set_last i v h) = ptr nd_prev_sibling h"
  "ptr nd_next_sibling (set_last i v h) = ptr nd_next_sibling h"
  "ptr nd_parent (set_prev i v h) = ptr nd_parent h"
  "ptr nd_first_child (set_prev i v h) = ptr nd_first_child h"
  "ptr nd_last_child (set_prev i v h) = ptr nd_last_child h"
  "ptr nd_next_sibling (set_prev i v h) = ptr nd_next_sibling h"
  "ptr nd_parent (set_next i v h) = ptr nd_parent h"
  "ptr nd_first_child (set_next i v h) = ptr nd_first_child h"
  "ptr nd_last_child (set_next i v h) = ptr nd_last_child h"
  "ptr nd_prev_sibling (set_next i v h) = ptr nd_prev_sibling h"
  by (simp_all add: fun_eq_iff set_parent_def set_first_def set_last_def set_prev_def set_next_def
      ptr_upd_other)

lemma set_None [heap_simps]:
  "(set_parent i v h j = None) = (h j = None)" "(set_first i v h j = None) = (h j = None)"
  "(set_last i v h j = None) = (h j = None)" "(set_prev i v h j = None) = (h j = None)"
  "(set_next i v h j = None) = (h j = None)"
  by (auto simp: upd_def set_parent_def set_first_def set_last_def set_prev_def set_next_def
      split: option.split)

section \<open>The functions\<close>

definition ns_node_detach :: "nat \<Rightarrow> dom \<Rightarrow> dom" where
  "ns_node_detach child h =
     (case ptr nd_parent h child of None \<Rightarrow> h
      | Some p \<Rightarrow>
        let h1 = (case ptr nd_prev_sibling h child of
                    Some s \<Rightarrow> set_next s (ptr nd_next_sibling h child) h
                  | None \<Rightarrow> set_first p (ptr nd_next_sibling h child) h);
            h2 = (case ptr nd_next_sibling h1 child of
                    Some s \<Rightarrow> set_prev s (ptr nd_prev_sibling h1 child) h1
                  | None \<Rightarrow> set_last p (ptr nd_prev_sibling h1 child) h1)
        in set_next child None (set_prev child None (set_parent child None h2)))"

definition ns_node_remove :: "nat \<Rightarrow> dom \<Rightarrow> dom" where
  "ns_node_remove child h = ns_node_detach child h"

definition ns_node_append_child :: "nat \<Rightarrow> nat \<Rightarrow> dom \<Rightarrow> dom" where
  "ns_node_append_child parent child h =
     (let h1 = ns_node_detach child h;
          h2 = set_parent child (Some parent) h1;
          h3 = set_prev child (ptr nd_last_child h2 parent) h2;
          h4 = (case ptr nd_last_child h3 parent of
                  Some l \<Rightarrow> set_next l (Some child) h3
                | None \<Rightarrow> set_first parent (Some child) h3)
      in set_last parent (Some child) h4)"

text \<open>Inserting before and after a reference node, as \<open>before()\<close>, \<open>after()\<close> and
  \<open>insertAdjacentElement()\<close> do.\<close>

definition ns_insert_sibling_before :: "nat option \<Rightarrow> nat option \<Rightarrow> dom \<Rightarrow> dom" where
  "ns_insert_sibling_before ref newc h =
     (case (ref, newc) of
        (Some r, Some n) \<Rightarrow>
          if ptr nd_parent h r = None \<or> r = n then h
          else
            let h1 = (if ptr nd_parent h n \<noteq> None then ns_node_remove n h else h);
                parent = ptr nd_parent h1 r;
                h2 = set_parent n parent h1;
                h3 = set_next n (Some r) h2;
                h4 = set_prev n (ptr nd_prev_sibling h3 r) h3;
                h5 = (case ptr nd_prev_sibling h4 r of
                        Some s \<Rightarrow> set_next s (Some n) h4
                      | None \<Rightarrow> (case parent of Some p \<Rightarrow> set_first p (Some n) h4 | None \<Rightarrow> h4))
            in set_prev r (Some n) h5
      | _ \<Rightarrow> h)"

definition ns_insert_sibling_after :: "nat option \<Rightarrow> nat option \<Rightarrow> dom \<Rightarrow> dom" where
  "ns_insert_sibling_after ref newc h =
     (case (ref, newc) of
        (Some r, Some n) \<Rightarrow>
          if ptr nd_parent h r = None \<or> r = n then h
          else
            let h1 = (if ptr nd_parent h n \<noteq> None then ns_node_remove n h else h);
                parent = ptr nd_parent h1 r;
                h2 = set_parent n parent h1;
                h3 = set_prev n (Some r) h2;
                h4 = set_next n (ptr nd_next_sibling h3 r) h3;
                h5 = (case ptr nd_next_sibling h4 r of
                        Some s \<Rightarrow> set_prev s (Some n) h4
                      | None \<Rightarrow> (case parent of Some p \<Rightarrow> set_last p (Some n) h4 | None \<Rightarrow> h4))
            in set_next r (Some n) h5
      | _ \<Rightarrow> h)"

section \<open>The lists of children\<close>

definition hd_opt :: "'a list \<Rightarrow> 'a option" where
  "hd_opt xs = (case xs of [] \<Rightarrow> None | x # _ \<Rightarrow> Some x)"

definition last_opt :: "'a list \<Rightarrow> 'a option" where
  "last_opt xs = (if xs = [] then None else Some (last xs))"

text \<open>The nodes \<open>cs\<close> are consecutive children of \<open>p\<close> between \<open>l\<close> and \<open>r\<close>.\<close>

fun siblings :: "dom \<Rightarrow> nat \<Rightarrow> nat option \<Rightarrow> nat list \<Rightarrow> nat option \<Rightarrow> bool" where
  "siblings h p l [] r = True"
| "siblings h p l (c # cs) r =
     (h c \<noteq> None \<and> ptr nd_parent h c = Some p \<and> ptr nd_prev_sibling h c = l
      \<and> ptr nd_next_sibling h c = (case cs of [] \<Rightarrow> r | d # _ \<Rightarrow> Some d)
      \<and> siblings h p (Some c) cs r)"

text \<open>The heap represents the lists \<open>ch\<close>: pointers and lists agree, both ways.\<close>

definition linked :: "dom \<Rightarrow> (nat \<Rightarrow> nat list) \<Rightarrow> bool" where
  "linked h ch \<longleftrightarrow>
     (\<forall>p. h p \<noteq> None \<longrightarrow> ptr nd_first_child h p = hd_opt (ch p) \<and> ptr nd_last_child h p = last_opt (ch p))
     \<and> (\<forall>p. distinct (ch p) \<and> siblings h p None (ch p) None)
     \<and> (\<forall>p. h p = None \<longrightarrow> ch p = [])
     \<and> (\<forall>c. h c \<noteq> None \<longrightarrow> (case ptr nd_parent h c of
            None \<Rightarrow> ptr nd_prev_sibling h c = None \<and> ptr nd_next_sibling h c = None
          | Some p \<Rightarrow> c \<in> set (ch p)))"

lemma hd_opt_simps [simp]: "hd_opt [] = None" "hd_opt (x # xs) = Some x"
  by (simp_all add: hd_opt_def)

lemma last_opt_simps [simp]: "last_opt [] = None" "last_opt (xs @ [x]) = Some x"
  by (simp_all add: last_opt_def)

lemma opt_in:
  "hd_opt xs = Some x \<Longrightarrow> x \<in> set xs" "last_opt xs = Some x \<Longrightarrow> x \<in> set xs"
  by (auto simp: hd_opt_def last_opt_def split: list.splits if_splits)

definition or_else :: "'a option \<Rightarrow> 'a option \<Rightarrow> 'a option" where
  "or_else a b = (case a of None \<Rightarrow> b | Some x \<Rightarrow> Some x)"

lemma or_else_simps [simp]: "or_else None b = b" "or_else (Some x) b = Some x" "or_else a None = a"
  by (simp_all add: or_else_def split: option.split)

lemma or_else_Some [simp]: "or_else (or_else a (Some c)) b = or_else a (Some c)"
  by (cases a) auto

lemma hd_opt_append: "hd_opt (xs @ ys) = or_else (hd_opt xs) (hd_opt ys)"
  by (cases xs) auto

lemma last_opt_append: "last_opt (xs @ ys) = or_else (last_opt ys) (last_opt xs)"
  by (auto simp: last_opt_def or_else_def)

lemma last_opt_Cons: "last_opt (x # xs) = or_else (last_opt xs) (Some x)"
  by (auto simp: last_opt_def or_else_def)

lemma siblings_Cons: "siblings h p l (c # cs) r \<longleftrightarrow>
  h c \<noteq> None \<and> ptr nd_parent h c = Some p \<and> ptr nd_prev_sibling h c = l
  \<and> ptr nd_next_sibling h c = or_else (hd_opt cs) r \<and> siblings h p (Some c) cs r"
  by (cases cs) auto

declare siblings.simps(2) [simp del]

lemma siblings_append:
  "siblings h p l (xs @ ys) r \<longleftrightarrow>
   siblings h p l xs (or_else (hd_opt ys) r) \<and> siblings h p (or_else (last_opt xs) l) ys r"
proof (induction xs arbitrary: l)
  case (Cons x xs)
  have "or_else (or_else (last_opt xs) (Some x)) l = or_else (last_opt xs) (Some x)"
    by (cases "last_opt xs") auto
  moreover have "or_else (or_else (hd_opt xs) (hd_opt ys)) r = or_else (hd_opt xs) (or_else (hd_opt ys) r)"
    by (cases "hd_opt xs") auto
  ultimately show ?case using Cons.IH by (auto simp: siblings_Cons hd_opt_append last_opt_Cons)
qed simp

lemma siblings_mem:
  "siblings h p l cs r \<Longrightarrow> c \<in> set cs \<Longrightarrow> h c \<noteq> None \<and> ptr nd_parent h c = Some p"
  by (induction cs arbitrary: l) (auto simp: siblings_Cons)

text \<open>The same nodes in another heap, with other neighbours at the ends.\<close>

lemma siblings_change:
  assumes "siblings h p l cs r" "distinct cs"
    and "\<And>c. c \<in> set cs \<Longrightarrow> h' c \<noteq> None \<and> ptr nd_parent h' c = ptr nd_parent h c"
    and "\<And>c. c \<in> set cs \<Longrightarrow> ptr nd_prev_sibling h' c =
           (if hd_opt cs = Some c then l' else ptr nd_prev_sibling h c)"
    and "\<And>c. c \<in> set cs \<Longrightarrow> ptr nd_next_sibling h' c =
           (if last_opt cs = Some c then r' else ptr nd_next_sibling h c)"
  shows "siblings h' p l' cs r'"
  using assms
proof (induction cs arbitrary: l l')
  case (Cons c cs)
  have nc: "c \<notin> set cs" using Cons.prems(2) by simp
  have hd: "hd_opt cs \<noteq> Some c" using nc opt_in(1) by fast
  have l: "last_opt cs \<noteq> Some c" using nc opt_in(2) by fast
  have "siblings h' p (Some c) cs r'"
  proof (rule Cons.IH)
    show "siblings h p (Some c) cs r" using Cons.prems(1) by (simp add: siblings_Cons)
    show "distinct cs" using Cons.prems(2) by simp
    fix d assume d: "d \<in> set cs"
    show "h' d \<noteq> None \<and> ptr nd_parent h' d = ptr nd_parent h d" using Cons.prems(3) d by simp
    have "d \<noteq> c" using d nc by auto
    then have "ptr nd_prev_sibling h' d = ptr nd_prev_sibling h d" using Cons.prems(4) [of d] d by simp
    moreover have "ptr nd_prev_sibling h d = Some c" if "hd_opt cs = Some d"
      using Cons.prems(1) that by (cases cs) (auto simp: siblings_Cons)
    ultimately show "ptr nd_prev_sibling h' d = (if hd_opt cs = Some d then Some c else ptr nd_prev_sibling h d)"
      by simp
    have "(last_opt (c # cs) = Some d) = (last_opt cs = Some d)" using d \<open>d \<noteq> c\<close>
      by (cases "last_opt cs") (auto simp: last_opt_Cons last_opt_def)
    then show "ptr nd_next_sibling h' d = (if last_opt cs = Some d then r' else ptr nd_next_sibling h d)"
      using Cons.prems(5) [of d] d by simp
  qed
  moreover note prem1 = Cons.prems(1) and prem5 = Cons.prems(5) [of c]
  have "ptr nd_next_sibling h' c = or_else (hd_opt cs) r'"
  proof (cases cs)
    case Nil
    then show ?thesis using Cons.prems(5) [of c] by (simp add: last_opt_def)
  next
    case (Cons d ds)
    have "last_opt (c # cs) \<noteq> Some c"
      using nc Cons last_in_set [of cs] by (auto simp: last_opt_def)
    then show ?thesis using prem1 prem5 Cons by (simp add: siblings_Cons)
  qed
  ultimately show ?case using Cons.prems(1) Cons.prems(3,4) [of c] by (auto simp: siblings_Cons)
qed simp

section \<open>What the functions do to the pointers\<close>

text \<open>In \<open>h'\<close> the node \<open>c\<close> was taken out from between \<open>a\<close> and \<open>b\<close> under \<open>p\<close>, or put
  there.\<close>

definition taken_out :: "dom \<Rightarrow> dom \<Rightarrow> nat \<Rightarrow> nat \<Rightarrow> nat option \<Rightarrow> nat option \<Rightarrow> bool" where
  "taken_out h h' p c a b \<longleftrightarrow>
     (\<forall>q. (h' q = None) = (h q = None)
        \<and> ptr nd_parent h' q = (if q = c then None else ptr nd_parent h q)
        \<and> ptr nd_prev_sibling h' q = (if q = c then None else if b = Some q then a else ptr nd_prev_sibling h q)
        \<and> ptr nd_next_sibling h' q = (if q = c then None else if a = Some q then b else ptr nd_next_sibling h q)
        \<and> ptr nd_first_child h' q = (if q = p \<and> a = None then b else ptr nd_first_child h q)
        \<and> ptr nd_last_child h' q = (if q = p \<and> b = None then a else ptr nd_last_child h q))"

definition put_in :: "dom \<Rightarrow> dom \<Rightarrow> nat \<Rightarrow> nat \<Rightarrow> nat option \<Rightarrow> nat option \<Rightarrow> bool" where
  "put_in h h' p c a b \<longleftrightarrow>
     (\<forall>q. (h' q = None) = (h q = None)
        \<and> ptr nd_parent h' q = (if q = c then Some p else ptr nd_parent h q)
        \<and> ptr nd_prev_sibling h' q = (if q = c then a else if b = Some q then Some c else ptr nd_prev_sibling h q)
        \<and> ptr nd_next_sibling h' q = (if q = c then b else if a = Some q then Some c else ptr nd_next_sibling h q)
        \<and> ptr nd_first_child h' q = (if q = p \<and> a = None then Some c else ptr nd_first_child h q)
        \<and> ptr nd_last_child h' q = (if q = p \<and> b = None then Some c else ptr nd_last_child h q))"

lemma detach_taken_out:
  assumes "ptr nd_parent h c = Some p" "ptr nd_prev_sibling h c = a" "ptr nd_next_sibling h c = b"
    and "h c \<noteq> None" "h p \<noteq> None" "a \<noteq> Some c" "b \<noteq> Some c"
    and "\<And>s. a = Some s \<Longrightarrow> h s \<noteq> None" "\<And>s. b = Some s \<Longrightarrow> h s \<noteq> None"
  shows "taken_out h (ns_node_detach c h) p c a b"
  using assms
  by (cases a; cases b) (simp_all add: taken_out_def ns_node_detach_def Let_def heap_simps)

lemma linked_mem:
  assumes "linked h ch" "c \<in> set (ch p)"
  shows "h c \<noteq> None" "ptr nd_parent h c = Some p" "h p \<noteq> None"
proof -
  have "siblings h p None (ch p) None" using assms(1) by (simp add: linked_def)
  from siblings_mem [OF this assms(2)] show "h c \<noteq> None" "ptr nd_parent h c = Some p" by auto
  show "h p \<noteq> None" using assms by (cases "h p") (auto simp: linked_def)
qed

lemma linked_node:
  assumes "linked h ch" "ch p = xs @ c # ys"
  shows "ptr nd_prev_sibling h c = last_opt xs" "ptr nd_next_sibling h c = hd_opt ys"
    "c \<notin> set xs" "c \<notin> set ys" "distinct xs" "distinct ys" "set xs \<inter> set ys = {}"
proof -
  have "siblings h p None (xs @ c # ys) None" "distinct (xs @ c # ys)"
    using assms unfolding linked_def by (metis, metis)
  then show "ptr nd_prev_sibling h c = last_opt xs" "ptr nd_next_sibling h c = hd_opt ys"
    "c \<notin> set xs" "c \<notin> set ys" "distinct xs" "distinct ys" "set xs \<inter> set ys = {}"
    by (auto simp: siblings_append siblings_Cons)
qed

lemma linked_elsewhere:
  assumes "linked h ch" "c \<in> set (ch p)" "q \<noteq> p"
  shows "c \<notin> set (ch q)"
  using linked_mem(2) [OF assms(1,2)] linked_mem(2) [OF assms(1), of c q] assms(3) by auto

lemma siblings_ends:
  "siblings h p l cs r \<Longrightarrow> hd_opt cs = Some d \<Longrightarrow> ptr nd_prev_sibling h d = l"
  "siblings h p l cs r \<Longrightarrow> last_opt cs = Some d \<Longrightarrow> ptr nd_next_sibling h d = r"
proof -
  show "siblings h p l cs r \<Longrightarrow> hd_opt cs = Some d \<Longrightarrow> ptr nd_prev_sibling h d = l"
    by (cases cs) (auto simp: siblings_Cons)
  show "siblings h p l cs r \<Longrightarrow> last_opt cs = Some d \<Longrightarrow> ptr nd_next_sibling h d = r"
    by (cases cs rule: rev_cases) (auto simp: siblings_append siblings_Cons)
qed

lemma linkedI:
  assumes "\<And>p. h p \<noteq> None \<Longrightarrow> ptr nd_first_child h p = hd_opt (ch p)"
    "\<And>p. h p \<noteq> None \<Longrightarrow> ptr nd_last_child h p = last_opt (ch p)"
    "\<And>p. distinct (ch p)" "\<And>p. siblings h p None (ch p) None" "\<And>p. h p = None \<Longrightarrow> ch p = []"
    "\<And>c. h c \<noteq> None \<Longrightarrow> ptr nd_parent h c = None \<Longrightarrow>
         ptr nd_prev_sibling h c = None \<and> ptr nd_next_sibling h c = None"
    "\<And>c p. h c \<noteq> None \<Longrightarrow> ptr nd_parent h c = Some p \<Longrightarrow> c \<in> set (ch p)"
  shows "linked h ch"
  using assms unfolding linked_def by (auto split: option.split)

lemma linkedD:
  assumes "linked h ch"
  shows "h p \<noteq> None \<Longrightarrow> ptr nd_first_child h p = hd_opt (ch p)"
    "h p \<noteq> None \<Longrightarrow> ptr nd_last_child h p = last_opt (ch p)"
    "distinct (ch p)" "siblings h p None (ch p) None" "h p = None \<Longrightarrow> ch p = []"
    "h c \<noteq> None \<Longrightarrow> ptr nd_parent h c = None \<Longrightarrow> ptr nd_prev_sibling h c = None \<and> ptr nd_next_sibling h c = None"
    "h c \<noteq> None \<Longrightarrow> ptr nd_parent h c = Some p \<Longrightarrow> c \<in> set (ch p)"
proof -
  show "h p \<noteq> None \<Longrightarrow> ptr nd_first_child h p = hd_opt (ch p)"
    "h p \<noteq> None \<Longrightarrow> ptr nd_last_child h p = last_opt (ch p)"
    "distinct (ch p)" "siblings h p None (ch p) None" "h p = None \<Longrightarrow> ch p = []"
    using assms unfolding linked_def by blast+
  have "h c \<noteq> None \<Longrightarrow> (case ptr nd_parent h c of
            None \<Rightarrow> ptr nd_prev_sibling h c = None \<and> ptr nd_next_sibling h c = None
          | Some p \<Rightarrow> c \<in> set (ch p))"
    using assms unfolding linked_def by blast
  then show "h c \<noteq> None \<Longrightarrow> ptr nd_parent h c = None \<Longrightarrow>
      ptr nd_prev_sibling h c = None \<and> ptr nd_next_sibling h c = None"
    "h c \<noteq> None \<Longrightarrow> ptr nd_parent h c = Some p \<Longrightarrow> c \<in> set (ch p)" by simp_all
qed

text \<open>Nodes whose pointers did not change keep their place.\<close>

lemma siblings_same:
  assumes "siblings h p l cs r" "distinct cs"
    and "\<And>c. c \<in> set cs \<Longrightarrow> h' c \<noteq> None \<and> ptr nd_parent h' c = ptr nd_parent h c
      \<and> ptr nd_prev_sibling h' c = ptr nd_prev_sibling h c \<and> ptr nd_next_sibling h' c = ptr nd_next_sibling h c"
  shows "siblings h' p l cs r"
  by (rule siblings_change [OF assms(1,2)]) (use assms(3) siblings_ends [OF assms(1)] in auto)

lemma linked_taken_out:
  assumes l: "linked h ch" and chp: "ch p = xs @ c # ys"
    and t: "taken_out h h' p c (last_opt xs) (hd_opt ys)"
  shows "linked h' (ch(p := xs @ ys))"
proof -
  note n = linked_node [OF l chp]
  note f = t [unfolded taken_out_def, rule_format]
  have c: "c \<in> set (ch p)" by (simp add: chp)
  have dom: "h' q = None \<longleftrightarrow> h q = None" for q using f by blast
  have sib: "siblings h p None (xs @ c # ys) None" using linkedD(4) [OF l, of p] by (simp add: chp)
  then have sx: "siblings h p None xs (Some c)" and sy: "siblings h p (Some c) ys None"
    by (simp_all add: siblings_append siblings_Cons)
  have inx: "x \<in> set (ch p)" if "hd_opt ys = Some x \<or> last_opt xs = Some x" for x
    using that by (auto simp: chp dest: opt_in)
  show ?thesis
  proof (rule linkedI)
    fix q assume q: "h' q \<noteq> None"
    have "hd_opt (ch p) = or_else (hd_opt xs) (Some c)" "last_opt (ch p) = or_else (last_opt ys) (Some c)"
      by (simp_all add: chp hd_opt_append last_opt_append last_opt_Cons)
    then show "ptr nd_first_child h' q = hd_opt ((ch(p := xs @ ys)) q)"
      "ptr nd_last_child h' q = last_opt ((ch(p := xs @ ys)) q)"
      using f [of q] linkedD(1,2) [OF l, of q] q dom
      by (auto simp: hd_opt_append last_opt_append hd_opt_def last_opt_def split: list.splits)
  next
    fix q show "distinct ((ch(p := xs @ ys)) q)" using n(5-7) linkedD(3) [OF l] by simp
    show "siblings h' q None ((ch(p := xs @ ys)) q) None"
    proof (cases "q = p")
      case True
      have "siblings h' p None xs (hd_opt ys)"
      proof (rule siblings_change [OF sx n(5)])
        fix d assume d: "d \<in> set xs"
        have "d \<noteq> c" "hd_opt ys \<noteq> Some d" using d n by (auto dest: opt_in)
        then show "h' d \<noteq> None \<and> ptr nd_parent h' d = ptr nd_parent h d"
          "ptr nd_prev_sibling h' d = (if hd_opt xs = Some d then None else ptr nd_prev_sibling h d)"
          "ptr nd_next_sibling h' d = (if last_opt xs = Some d then hd_opt ys else ptr nd_next_sibling h d)"
          using f [of d] siblings_mem [OF sx d] siblings_ends [OF sx, of d] by auto
      qed
      moreover have "siblings h' p (last_opt xs) ys None"
      proof (rule siblings_change [OF sy n(6)])
        fix d assume d: "d \<in> set ys"
        have "d \<noteq> c" "last_opt xs \<noteq> Some d" using d n by (auto dest: opt_in)
        then show "h' d \<noteq> None \<and> ptr nd_parent h' d = ptr nd_parent h d"
          "ptr nd_prev_sibling h' d = (if hd_opt ys = Some d then last_opt xs else ptr nd_prev_sibling h d)"
          "ptr nd_next_sibling h' d = (if last_opt ys = Some d then None else ptr nd_next_sibling h d)"
          using f [of d] siblings_mem [OF sy d] siblings_ends [OF sy, of d] by auto
      qed
      ultimately show ?thesis using True by (simp add: siblings_append)
    next
      case False
      have o: "d \<noteq> c" "hd_opt ys \<noteq> Some d" "last_opt xs \<noteq> Some d" if "d \<in> set (ch q)" for d
      proof -
        have "d \<notin> set (ch p)" using linked_elsewhere [OF l that, of p] False by auto
        then show "hd_opt ys \<noteq> Some d" "last_opt xs \<noteq> Some d" using inx by auto
        show "d \<noteq> c" using \<open>d \<notin> set (ch p)\<close> c by auto
      qed
      have "siblings h' q None (ch q) None"
      proof (rule siblings_same [OF linkedD(4,3) [OF l, of q]])
        fix d assume d: "d \<in> set (ch q)"
        show "h' d \<noteq> None \<and> ptr nd_parent h' d = ptr nd_parent h d
          \<and> ptr nd_prev_sibling h' d = ptr nd_prev_sibling h d \<and> ptr nd_next_sibling h' d = ptr nd_next_sibling h d"
          using f [of d] o [OF d] linked_mem(1) [OF l d] by simp
      qed
      then show ?thesis using False by simp
    qed
    show "(ch(p := xs @ ys)) q = []" if "h' q = None"
      using that dom linkedD(5) [OF l, of q] linked_mem(3) [OF l c] by auto
  next
    fix d assume d: "h' d \<noteq> None"
    show "ptr nd_prev_sibling h' d = None \<and> ptr nd_next_sibling h' d = None" if "ptr nd_parent h' d = None"
    proof (cases "d = c")
      case True
      then show ?thesis using f [of d] by simp
    next
      case False
      then have "ptr nd_parent h d = None" using f [of d] that by simp
      moreover from this have "d \<notin> set (ch p)" using linked_mem(2) [OF l] by force
      ultimately show ?thesis using f [of d] False d dom linkedD(6) [OF l, of d] inx by auto
    qed
    show "d \<in> set ((ch(p := xs @ ys)) q)" if "ptr nd_parent h' d = Some q" for q
      using that f [of d] d dom linkedD(7) [OF l, of d q] by (auto simp: chp split: if_splits)
  qed
qed

lemma linked_put_in:
  assumes l: "linked h ch" and chp: "ch p = xs @ ys" and p: "h p \<noteq> None"
    and c: "h c \<noteq> None" "ptr nd_parent h c = None"
    and t: "put_in h h' p c (last_opt xs) (hd_opt ys)"
  shows "linked h' (ch(p := xs @ c # ys))"
proof -
  note f = t [unfolded put_in_def, rule_format]
  have dom: "h' q = None \<longleftrightarrow> h q = None" for q using f by blast
  have cn: "c \<notin> set (ch q)" for q using linked_mem(2) [OF l, of c q] c(2) by auto
  have n: "distinct xs" "distinct ys" "set xs \<inter> set ys = {}" "c \<notin> set xs" "c \<notin> set ys"
    using linkedD(3) [OF l, of p] cn [of p] by (auto simp: chp)
  have sib: "siblings h p None (xs @ ys) None" using linkedD(4) [OF l, of p] by (simp add: chp)
  then have sx: "siblings h p None xs (hd_opt ys)" and sy: "siblings h p (last_opt xs) ys None"
    by (simp_all add: siblings_append)
  have inx: "x \<in> set (ch p)" if "hd_opt ys = Some x \<or> last_opt xs = Some x" for x
    using that by (auto simp: chp dest: opt_in)
  show ?thesis
  proof (rule linkedI)
    fix q assume q: "h' q \<noteq> None"
    have "hd_opt (xs @ c # ys) = or_else (hd_opt xs) (Some c)" "last_opt (xs @ c # ys) = or_else (last_opt ys) (Some c)"
      by (simp_all add: hd_opt_append last_opt_append last_opt_Cons)
    then show "ptr nd_first_child h' q = hd_opt ((ch(p := xs @ c # ys)) q)"
      "ptr nd_last_child h' q = last_opt ((ch(p := xs @ c # ys)) q)"
      using f [of q] linkedD(1,2) [OF l, of q] q dom
      by (auto simp: chp hd_opt_append last_opt_append hd_opt_def last_opt_def split: list.splits)
  next
    fix q show "distinct ((ch(p := xs @ c # ys)) q)" using n linkedD(3) [OF l] by auto
    show "siblings h' q None ((ch(p := xs @ c # ys)) q) None"
    proof (cases "q = p")
      case True
      have "siblings h' p None xs (Some c)"
      proof (rule siblings_change [OF sx n(1)])
        fix d assume d: "d \<in> set xs"
        have "d \<noteq> c" "hd_opt ys \<noteq> Some d" using d n by (auto dest: opt_in)
        then show "h' d \<noteq> None \<and> ptr nd_parent h' d = ptr nd_parent h d"
          "ptr nd_prev_sibling h' d = (if hd_opt xs = Some d then None else ptr nd_prev_sibling h d)"
          "ptr nd_next_sibling h' d = (if last_opt xs = Some d then Some c else ptr nd_next_sibling h d)"
          using f [of d] siblings_mem [OF sx d] siblings_ends [OF sx, of d] by auto
      qed
      moreover have "siblings h' p (Some c) ys None"
      proof (rule siblings_change [OF sy n(2)])
        fix d assume d: "d \<in> set ys"
        have "d \<noteq> c" "last_opt xs \<noteq> Some d" using d n by (auto dest: opt_in)
        then show "h' d \<noteq> None \<and> ptr nd_parent h' d = ptr nd_parent h d"
          "ptr nd_prev_sibling h' d = (if hd_opt ys = Some d then Some c else ptr nd_prev_sibling h d)"
          "ptr nd_next_sibling h' d = (if last_opt ys = Some d then None else ptr nd_next_sibling h d)"
          using f [of d] siblings_mem [OF sy d] siblings_ends [OF sy, of d] by auto
      qed
      ultimately show ?thesis using True f [of c] c(1) by (simp add: siblings_append siblings_Cons)
    next
      case False
      have o: "d \<noteq> c" "hd_opt ys \<noteq> Some d" "last_opt xs \<noteq> Some d" if "d \<in> set (ch q)" for d
      proof -
        have "d \<notin> set (ch p)" using linked_elsewhere [OF l that, of p] False by auto
        then show "hd_opt ys \<noteq> Some d" "last_opt xs \<noteq> Some d" using inx by auto
        show "d \<noteq> c" using that cn by auto
      qed
      have "siblings h' q None (ch q) None"
      proof (rule siblings_same [OF linkedD(4,3) [OF l, of q]])
        fix d assume d: "d \<in> set (ch q)"
        show "h' d \<noteq> None \<and> ptr nd_parent h' d = ptr nd_parent h d
          \<and> ptr nd_prev_sibling h' d = ptr nd_prev_sibling h d \<and> ptr nd_next_sibling h' d = ptr nd_next_sibling h d"
          using f [of d] o [OF d] linked_mem(1) [OF l d] by simp
      qed
      then show ?thesis using False by simp
    qed
    show "(ch(p := xs @ c # ys)) q = []" if "h' q = None"
      using that dom linkedD(5) [OF l, of q] p by auto
  next
    fix d assume d: "h' d \<noteq> None"
    show "ptr nd_prev_sibling h' d = None \<and> ptr nd_next_sibling h' d = None" if "ptr nd_parent h' d = None"
    proof -
      have dc: "d \<noteq> c" "ptr nd_parent h d = None" using f [of d] that by (auto split: if_splits)
      then have "d \<notin> set (ch p)" using linked_mem(2) [OF l] by force
      then show ?thesis using f [of d] dc d dom linkedD(6) [OF l, of d] inx by auto
    qed
    show "d \<in> set ((ch(p := xs @ c # ys)) q)" if "ptr nd_parent h' d = Some q" for q
      using that f [of d] d dom linkedD(7) [OF l, of d q] by (auto simp: chp split: if_splits)
  qed
qed

section \<open>The functions are operations on lists\<close>

lemma removeAll_split: "c \<notin> set xs \<Longrightarrow> c \<notin> set ys \<Longrightarrow> removeAll c (xs @ c # ys) = xs @ ys"
  by simp

lemma detach_linked:
  assumes l: "linked h ch" and c: "h c \<noteq> None"
  shows "linked (ns_node_detach c h) (\<lambda>q. removeAll c (ch q))"
    "ptr nd_parent (ns_node_detach c h) c = None"
    "(ns_node_detach c h q = None) = (h q = None)"
    "q \<noteq> c \<Longrightarrow> ptr nd_parent (ns_node_detach c h) q = ptr nd_parent h q"
proof -
  have "linked (ns_node_detach c h) (\<lambda>q. removeAll c (ch q))
    \<and> ptr nd_parent (ns_node_detach c h) c = None
    \<and> (ns_node_detach c h q = None) = (h q = None)
    \<and> (q \<noteq> c \<longrightarrow> ptr nd_parent (ns_node_detach c h) q = ptr nd_parent h q)"
  proof (cases "ptr nd_parent h c")
    case None
    have "c \<notin> set (ch q)" for q using linked_mem(2) [OF l, of c q] None by auto
    then show ?thesis using l None by (simp add: ns_node_detach_def removeAll_id)
  next
    case (Some p)
    then have "c \<in> set (ch p)" using linkedD(7) [OF l c] by simp
    then obtain xs ys where chp: "ch p = xs @ c # ys" by (meson split_list)
    note n = linked_node [OF l chp]
    have mem: "s \<in> set (ch p) \<and> s \<noteq> c" if "last_opt xs = Some s \<or> hd_opt ys = Some s" for s
      using that n(3,4) by (auto simp: chp dest: opt_in)
    have t: "taken_out h (ns_node_detach c h) p c (last_opt xs) (hd_opt ys)"
      using mem linked_mem(1) [OF l] linked_mem(3) [OF l \<open>c \<in> set (ch p)\<close>]
      by (intro detach_taken_out Some n(1,2) c) blast+
    have "(\<lambda>q. removeAll c (ch q)) = ch(p := xs @ ys)"
    proof
      fix q show "removeAll c (ch q) = (ch(p := xs @ ys)) q"
        using chp n(3,4) linked_elsewhere [OF l \<open>c \<in> set (ch p)\<close>, of q] by (auto simp: removeAll_id)
    qed
    then show ?thesis using linked_taken_out [OF l chp t] t by (auto simp: taken_out_def)
  qed
  then show "linked (ns_node_detach c h) (\<lambda>q. removeAll c (ch q))"
    "ptr nd_parent (ns_node_detach c h) c = None"
    "(ns_node_detach c h q = None) = (h q = None)"
    "q \<noteq> c \<Longrightarrow> ptr nd_parent (ns_node_detach c h) q = ptr nd_parent h q" by auto
qed

lemma append_put_in:
  assumes "h c \<noteq> None" "h p \<noteq> None" "ptr nd_next_sibling h c = None" "ptr nd_last_child h p = l" "l \<noteq> Some c"
    and "\<And>s. l = Some s \<Longrightarrow> h s \<noteq> None" and "ptr nd_parent h c = None"
  shows "put_in h (ns_node_append_child p c h) p c l None"
proof -
  have d: "ns_node_detach c h = h" using assms(7) by (simp add: ns_node_detach_def)
  show ?thesis
    using assms by (cases l) (simp_all add: put_in_def ns_node_append_child_def d Let_def heap_simps)
qed

lemma append_detached: "ns_node_append_child p c h = ns_node_append_child p c (ns_node_detach c h)"
  if "ptr nd_parent (ns_node_detach c h) c = None"
  using that by (simp add: ns_node_append_child_def ns_node_detach_def [of c "ns_node_detach c h"] Let_def)

lemma append_linked:
  assumes l: "linked h ch" and c: "h c \<noteq> None" and p: "h p \<noteq> None"
  shows "linked (ns_node_append_child p c h)
    ((\<lambda>q. removeAll c (ch q))(p := removeAll c (ch p) @ [c]))"
proof -
  define h1 where "h1 = ns_node_detach c h"
  define ch1 where "ch1 = (\<lambda>q. removeAll c (ch q))"
  note d = detach_linked [OF l c, folded h1_def ch1_def]
  have p1: "h1 p \<noteq> None" and c1: "h1 c \<noteq> None" using d(3) p c by auto
  have lst: "ptr nd_last_child h1 p = last_opt (ch1 p)" using linkedD(2) [OF d(1) p1] .
  have "put_in h1 (ns_node_append_child p c h1) p c (last_opt (ch1 p)) None"
  proof (rule append_put_in [OF c1 p1 _ lst])
    show "ptr nd_next_sibling h1 c = None" using linkedD(6) [OF d(1) c1 d(2)] by simp
    show "last_opt (ch1 p) \<noteq> Some c" by (auto simp: ch1_def dest: opt_in)
    show "h1 s \<noteq> None" if "last_opt (ch1 p) = Some s" for s
      using that linked_mem(1) [OF d(1)] by (auto dest: opt_in)
  qed (rule d(2))
  then have "linked (ns_node_append_child p c h1) (ch1(p := ch1 p @ [c]))"
    using linked_put_in [OF d(1), of p "ch1 p" "[]" c] p1 c1 d(2) by simp
  moreover have "ns_node_append_child p c h = ns_node_append_child p c h1"
    unfolding h1_def by (rule append_detached) (use d(2) h1_def in simp)
  ultimately show ?thesis by (simp add: ch1_def)
qed

text \<open>Inserting into a list before or after an element of it.\<close>

definition list_before :: "nat \<Rightarrow> nat \<Rightarrow> nat list \<Rightarrow> nat list" where
  "list_before r n xs = takeWhile (\<lambda>x. x \<noteq> r) xs @ n # dropWhile (\<lambda>x. x \<noteq> r) xs"

definition list_after :: "nat \<Rightarrow> nat \<Rightarrow> nat list \<Rightarrow> nat list" where
  "list_after r n xs = takeWhile (\<lambda>x. x \<noteq> r) xs @ r # n # tl (dropWhile (\<lambda>x. x \<noteq> r) xs)"

lemma insert_put_in:
  assumes "h n \<noteq> None" "h r \<noteq> None" "h p \<noteq> None" "r \<noteq> n" "ptr nd_parent h n = None"
    "ptr nd_prev_sibling h n = None" "ptr nd_next_sibling h n = None"
    "ptr nd_parent h r = Some p" "ptr nd_prev_sibling h r = a" "ptr nd_next_sibling h r = b"
    and "a \<noteq> Some n" "b \<noteq> Some n" "a \<noteq> Some r" "b \<noteq> Some r"
    and "\<And>s. a = Some s \<Longrightarrow> h s \<noteq> None" "\<And>s. b = Some s \<Longrightarrow> h s \<noteq> None"
  shows "put_in h (ns_insert_sibling_before (Some r) (Some n) h) p n a (Some r)"
    "put_in h (ns_insert_sibling_after (Some r) (Some n) h) p n (Some r) b"
proof -
  show "put_in h (ns_insert_sibling_before (Some r) (Some n) h) p n a (Some r)"
    using assms
    by (cases a) (simp_all add: put_in_def ns_insert_sibling_before_def Let_def heap_simps)
  show "put_in h (ns_insert_sibling_after (Some r) (Some n) h) p n (Some r) b"
    using assms
    by (cases b) (simp_all add: put_in_def ns_insert_sibling_after_def Let_def heap_simps)
qed

lemma insert_linked:
  assumes l: "linked h ch" and n: "h n \<noteq> None" and r: "ptr nd_parent h r = Some p" "r \<noteq> n"
  shows "linked (ns_insert_sibling_before (Some r) (Some n) h)
      ((\<lambda>q. removeAll n (ch q))(p := list_before r n (removeAll n (ch p))))"
    "linked (ns_insert_sibling_after (Some r) (Some n) h)
      ((\<lambda>q. removeAll n (ch q))(p := list_after r n (removeAll n (ch p))))"
proof -
  define h1 where "h1 = ns_node_detach n h"
  define ch1 where "ch1 = (\<lambda>q. removeAll n (ch q))"
  note d = detach_linked [OF l n, folded h1_def ch1_def]
  have rh: "h r \<noteq> None" using r(1) by (auto simp: ptr_def split: option.splits)
  have r1: "ptr nd_parent h1 r = Some p" "h1 r \<noteq> None" using d(3,4) r rh by auto
  have n1: "h1 n \<noteq> None" using d(3) n by simp
  have "r \<in> set (ch1 p)" using linkedD(7) [OF d(1) r1(2,1)] .
  then obtain xs ys where chp: "ch1 p = xs @ r # ys" by (meson split_list)
  note nd = linked_node [OF d(1) chp]
  have nn: "n \<notin> set (ch1 q)" for q by (simp add: ch1_def)
  have p1: "h1 p \<noteq> None" using linked_mem(3) [OF d(1) \<open>r \<in> set (ch1 p)\<close>] .
  have free: "ptr nd_prev_sibling h1 n = None" "ptr nd_next_sibling h1 n = None"
    using linkedD(6) [OF d(1) n1 d(2)] by auto
  have s: "s \<noteq> n \<and> s \<noteq> r \<and> h1 s \<noteq> None" if "last_opt xs = Some s \<or> hd_opt ys = Some s" for s
  proof -
    have "s \<in> set (ch1 p)" "s \<noteq> r" using that nd(3,4) by (auto simp: chp dest: opt_in)
    then show ?thesis using linked_mem(1) [OF d(1)] nn by metis
  qed
  note put = insert_put_in [OF n1 r1(2) p1 r(2) d(2) free r1(1) nd(1,2)]
  have e: "(if ptr nd_parent h n \<noteq> None then ns_node_remove n h else h) = h1"
    by (cases "ptr nd_parent h n") (simp_all add: h1_def ns_node_remove_def, simp add: ns_node_detach_def)
  have same: "ns_insert_sibling_before (Some r) (Some n) h = ns_insert_sibling_before (Some r) (Some n) h1"
    "ns_insert_sibling_after (Some r) (Some n) h = ns_insert_sibling_after (Some r) (Some n) h1"
    unfolding ns_insert_sibling_before_def ns_insert_sibling_after_def option.case prod.case e
    using r r1 d(2) by simp_all
  have b: "list_before r n (ch1 p) = xs @ n # r # ys" "list_after r n (ch1 p) = (xs @ [r]) @ n # ys"
    unfolding chp list_before_def list_after_def using nd(3) by (simp_all add: takeWhile_append dropWhile_append)
  have "linked (ns_insert_sibling_before (Some r) (Some n) h1) (ch1(p := xs @ n # r # ys))"
    by (rule linked_put_in [OF d(1) chp p1 n1 d(2)]) (use put(1) s in auto)
  then show "linked (ns_insert_sibling_before (Some r) (Some n) h)
      ((\<lambda>q. removeAll n (ch q))(p := list_before r n (removeAll n (ch p))))"
    using b(1) same(1) by (simp add: ch1_def)
  have "linked (ns_insert_sibling_after (Some r) (Some n) h1) (ch1(p := (xs @ [r]) @ n # ys))"
    by (rule linked_put_in [OF d(1) _ p1 n1 d(2)]) (use put(2) s chp in auto)
  then show "linked (ns_insert_sibling_after (Some r) (Some n) h)
      ((\<lambda>q. removeAll n (ch q))(p := list_after r n (removeAll n (ch p))))"
    using b(2) same(2) by (simp add: ch1_def)
qed

text \<open>Runs of the functions, and of the operations on the lists.\<close>

datatype tree_op = TreeAppend nat nat | TreeRemove nat | TreeBefore nat nat | TreeAfter nat nat

fun tree_apply :: "tree_op \<Rightarrow> dom \<Rightarrow> dom" where
  "tree_apply (TreeAppend p c) h = ns_node_append_child p c h"
| "tree_apply (TreeRemove c) h = ns_node_remove c h"
| "tree_apply (TreeBefore r n) h = ns_insert_sibling_before (Some r) (Some n) h"
| "tree_apply (TreeAfter r n) h = ns_insert_sibling_after (Some r) (Some n) h"

fun op_nodes :: "tree_op \<Rightarrow> nat list" where
  "op_nodes (TreeAppend p c) = [p, c]"
| "op_nodes (TreeRemove c) = [c]"
| "op_nodes (TreeBefore r n) = [r, n]"
| "op_nodes (TreeAfter r n) = [r, n]"

definition is_child :: "(nat \<Rightarrow> nat list) \<Rightarrow> nat \<Rightarrow> bool" where
  "is_child ch r = (\<exists>q. r \<in> set (ch q))"

fun lists_apply :: "tree_op \<Rightarrow> (nat \<Rightarrow> nat list) \<Rightarrow> nat \<Rightarrow> nat list" where
  "lists_apply (TreeAppend p c) ch = (\<lambda>q. removeAll c (ch q) @ (if q = p then [c] else []))"
| "lists_apply (TreeRemove c) ch = (\<lambda>q. removeAll c (ch q))"
| "lists_apply (TreeBefore r n) ch =
     (if r = n \<or> \<not> is_child ch r then ch
      else (\<lambda>q. if r \<in> set (ch q) then list_before r n (removeAll n (ch q)) else removeAll n (ch q)))"
| "lists_apply (TreeAfter r n) ch =
     (if r = n \<or> \<not> is_child ch r then ch
      else (\<lambda>q. if r \<in> set (ch q) then list_after r n (removeAll n (ch q)) else removeAll n (ch q)))"

lemma is_child_parent:
  assumes "linked h ch" "h r \<noteq> None"
  shows "is_child ch r \<longleftrightarrow> ptr nd_parent h r \<noteq> None"
    "ptr nd_parent h r = Some p \<Longrightarrow> r \<in> set (ch q) \<longleftrightarrow> q = p"
proof -
  have m: "r \<in> set (ch q) \<longleftrightarrow> ptr nd_parent h r = Some q" for q
    using linkedD(7) [OF assms] linked_mem(2) [OF assms(1)] by blast
  show "is_child ch r \<longleftrightarrow> ptr nd_parent h r \<noteq> None" by (auto simp: is_child_def m)
  show "ptr nd_parent h r = Some p \<Longrightarrow> r \<in> set (ch q) \<longleftrightarrow> q = p" by (auto simp: m)
qed

lemma tree_apply_linked:
  assumes l: "linked h ch" and n: "list_all (\<lambda>i. h i \<noteq> None) (op_nodes op)"
  shows "linked (tree_apply op h) (lists_apply op ch)"
proof (cases op)
  case (TreeAppend p c)
  have "(\<lambda>q. removeAll c (ch q) @ (if q = p then [c] else [])) =
      (\<lambda>q. removeAll c (ch q))(p := removeAll c (ch p) @ [c])" by auto
  then show ?thesis using append_linked [OF l, of c p] n TreeAppend by simp
next
  case (TreeRemove c)
  then show ?thesis using detach_linked(1) [OF l] n by (simp add: ns_node_remove_def)
next
  case (TreeBefore r m)
  show ?thesis
  proof (cases "r = m \<or> ptr nd_parent h r = None")
    case True
    then show ?thesis using TreeBefore l n is_child_parent(1) [OF l, of r]
      by (auto simp: ns_insert_sibling_before_def)
  next
    case False
    then obtain p where p: "ptr nd_parent h r = Some p" by auto
    have "lists_apply op ch = (\<lambda>q. removeAll m (ch q))(p := list_before r m (removeAll m (ch p)))"
      using False TreeBefore n is_child_parent [OF l, of r] p by (auto simp: fun_eq_iff)
    then show ?thesis using insert_linked(1) [OF l, of m r p] False p TreeBefore n by simp
  qed
next
  case (TreeAfter r m)
  show ?thesis
  proof (cases "r = m \<or> ptr nd_parent h r = None")
    case True
    then show ?thesis using TreeAfter l n is_child_parent(1) [OF l, of r]
      by (auto simp: ns_insert_sibling_after_def)
  next
    case False
    then obtain p where p: "ptr nd_parent h r = Some p" by auto
    have "lists_apply op ch = (\<lambda>q. removeAll m (ch q))(p := list_after r m (removeAll m (ch p)))"
      using False TreeAfter n is_child_parent [OF l, of r] p by (auto simp: fun_eq_iff)
    then show ?thesis using insert_linked(2) [OF l, of m r p] False p TreeAfter n by simp
  qed
qed

lemma tree_apply_dom: "(tree_apply op h i = None) = (h i = None)"
proof -
  have d: "(ns_node_detach c h i = None) = (h i = None)" for c and h :: dom
    by (auto simp: ns_node_detach_def Let_def heap_simps split: option.split)
  show ?thesis
    by (cases op)
      (auto simp: ns_node_append_child_def ns_node_remove_def ns_insert_sibling_before_def
        ns_insert_sibling_after_def Let_def heap_simps d split: option.split)
qed

lemma tree_run_linked:
  "linked h ch \<Longrightarrow> list_all (\<lambda>op. list_all (\<lambda>i. h i \<noteq> None) (op_nodes op)) ops \<Longrightarrow>
   linked (fold tree_apply ops h) (fold lists_apply ops ch)"
proof (induction ops arbitrary: h ch)
  case (Cons op ops)
  have "linked (tree_apply op h) (lists_apply op ch)"
    using Cons.prems by (intro tree_apply_linked) simp_all
  moreover have "list_all (\<lambda>op. list_all (\<lambda>i. tree_apply op' h i \<noteq> None) (op_nodes op)) ops" for op'
    using Cons.prems(2) by (simp add: tree_apply_dom)
  ultimately show ?case using Cons.IH by simp
qed simp

text \<open>The loop \<open>for (c = n->first_child; c; c = c->next_sibling)\<close>, for at most \<open>k\<close>
  rounds.\<close>

fun walk_siblings :: "nat \<Rightarrow> dom \<Rightarrow> nat option \<Rightarrow> nat list" where
  "walk_siblings 0 h c = []"
| "walk_siblings (Suc k) h c =
     (case c of None \<Rightarrow> [] | Some i \<Rightarrow> i # walk_siblings k h (ptr nd_next_sibling h i))"

definition children :: "nat \<Rightarrow> dom \<Rightarrow> nat \<Rightarrow> nat list" where
  "children k h p = walk_siblings k h (ptr nd_first_child h p)"

lemma walk_siblings_eq:
  "siblings h p l cs None \<Longrightarrow> length cs \<le> k \<Longrightarrow> walk_siblings k h (hd_opt cs) = cs"
proof (induction cs arbitrary: l k)
  case (Cons c cs)
  then show ?case by (cases k) (auto simp: siblings_Cons)
next
  case Nil
  then show ?case by (cases k) simp_all
qed

lemma children_linked:
  assumes "linked h ch" "length (ch p) \<le> k"
  shows "children k h p = ch p"
proof (cases "h p")
  case None
  then show ?thesis using linkedD(5) [OF assms(1) None] by (cases k) (simp_all add: children_def ptr_def)
next
  case (Some n)
  then have "ptr nd_first_child h p = hd_opt (ch p)" using linkedD(1) [OF assms(1), of p] by simp
  then show ?thesis using walk_siblings_eq [OF linkedD(4) [OF assms(1)] assms(2)] by (simp add: children_def)
qed

text \<open>(C9) The pointers are lists of children: starting from unconnected nodes, any
  run of appending, removing and inserting leaves a heap in which the children of
  every node, walked from \<open>first_child\<close> along \<open>next_sibling\<close>, are exactly the list
  that the same operations on lists give, in which \<open>parent\<close>, \<open>last_child\<close> and
  \<open>prev_sibling\<close> agree with these lists, and no node is a child twice.\<close>

theorem dom_tree_refines_lists:
  assumes "list_all (\<lambda>op. list_all (\<lambda>i. i < n) (op_nodes op)) ops"
  shows "(let h = fold tree_apply ops (\<lambda>i. if i < n then Some (ns_node_new (kind i)) else None);
              ch = fold lists_apply ops (\<lambda>_. [])
          in linked h ch \<and> list_all (\<lambda>p. children n h p = ch p) [0..<n])"
proof -
  define h0 where "h0 = (\<lambda>i. if i < n then Some (ns_node_new (kind i)) else None)"
  define h where "h = fold tree_apply ops h0"
  define ch where "ch = fold lists_apply ops (\<lambda>_. [])"
  have "linked h0 (\<lambda>_. [])"
    by (auto simp: linked_def h0_def ptr_def ns_node_new_def)
  then have l: "linked h ch"
    unfolding h_def ch_def using assms by (intro tree_run_linked) (auto simp: h0_def list_all_iff)
  have dom: "(fold tree_apply ops h' i = None) = (h' i = None)" for i ops and h' :: dom
    by (induction ops arbitrary: h') (simp_all add: tree_apply_dom)
  have "length (ch p) \<le> n" for p
  proof -
    have "set (ch p) \<subseteq> {..<n}"
    proof
      fix c assume "c \<in> set (ch p)"
      then have "h c \<noteq> None" by (rule linked_mem(1) [OF l])
      then have "h0 c \<noteq> None" using dom [of ops h0 c] by (simp add: h_def)
      then show "c \<in> {..<n}" by (simp add: h0_def split: if_splits)
    qed
    then have "card (set (ch p)) \<le> n" using card_mono [of "{..<n}" "set (ch p)"] by simp
    then show ?thesis using distinct_card [OF linkedD(3) [OF l]] by simp
  qed
  then have "list_all (\<lambda>p. children n h p = ch p) [0..<n]"
    using children_linked [OF l] by (simp add: list_all_iff)
  then show ?thesis using l unfolding h_def h0_def ch_def by (simp add: Let_def)
qed

theorem dom_tree_refines_lists_witness:
  "(let h = fold tree_apply [TreeAppend 0 1, TreeAppend 0 2, TreeBefore 1 3, TreeAfter 3 2, TreeRemove 1]
              (\<lambda>i. if i < 4 then Some (ns_node_new (if i = 0 then NodeDocument else NodeElement)) else None);
        ch = fold lists_apply [TreeAppend 0 1, TreeAppend 0 2, TreeBefore 1 3, TreeAfter 3 2, TreeRemove 1] (\<lambda>_. [])
    in linked h ch \<and> list_all (\<lambda>p. children 4 h p = ch p) [0..<4])"
  by (rule dom_tree_refines_lists) simp

end
