(* ===== verification/Dom_Find.thy ===== *)
theory Dom_Find
  imports Dom_Tree
begin

text \<open>
  Finding elements by id (\<open>src/src/dom.c\<close>): the walk of the tree, the index of a
  document that caches its answers, and the functions that keep the index up to date.
  An index is the hash table from ids to nodes. \<open>k\<close> is the number of rounds of the
  loops over siblings and ancestors; \<open>children_linked\<close> shows that the number of nodes
  is enough.
\<close>

section \<open>Scopes\<close>

definition ns_dom_max_depth :: nat where "ns_dom_max_depth = 512"

definition ns_dom_tree_scope_boundary :: "dom \<Rightarrow> nat \<Rightarrow> bool" where
  "ns_dom_tree_scope_boundary h i =
     (case h i of None \<Rightarrow> False
      | Some n \<Rightarrow> (nd_kind n = NodeDocument \<and> nd_parent n \<noteq> None)
          \<or> (nd_kind n = NodeElement \<and> ns_element_get_attr n (Some ''data-nd-shadow-root'') \<noteq> None))"

definition is_template :: "dom \<Rightarrow> nat \<Rightarrow> bool" where
  "is_template h i = (case h i of None \<Rightarrow> False | Some n \<Rightarrow> ns_node_is_element_named n (Some ''template''))"

definition element_id :: "dom \<Rightarrow> nat \<Rightarrow> cptr" where
  "element_id h i =
     (case h i of None \<Rightarrow> None
      | Some n \<Rightarrow> if nd_kind n = NodeElement then ns_element_get_attr n (Some ''id'') else None)"

text \<open>Whether \<open>ancestor\<close> is on the way up from \<open>node\<close>.\<close>

fun ns_node_contains :: "nat \<Rightarrow> dom \<Rightarrow> nat \<Rightarrow> nat option \<Rightarrow> bool" where
  "ns_node_contains 0 h ancestor node = False"
| "ns_node_contains (Suc k) h ancestor node =
     (case node of None \<Rightarrow> False
      | Some p \<Rightarrow> p = ancestor \<or> ns_node_contains k h ancestor (ptr nd_parent h p))"

fun ns_node_root_from :: "nat \<Rightarrow> dom \<Rightarrow> nat \<Rightarrow> nat" where
  "ns_node_root_from 0 h n = n"
| "ns_node_root_from (Suc d) h n =
     (case ptr nd_parent h n of None \<Rightarrow> n | Some p \<Rightarrow> ns_node_root_from d h p)"

definition ns_node_root :: "dom \<Rightarrow> nat option \<Rightarrow> nat option" where
  "ns_node_root h n = map_option (ns_node_root_from ns_dom_max_depth h) n"

section \<open>The walk\<close>

fun find_some :: "('a \<Rightarrow> 'b option) \<Rightarrow> 'a list \<Rightarrow> 'b option" where
  "find_some f [] = None"
| "find_some f (x # xs) = (case f x of None \<Rightarrow> find_some f xs | Some y \<Rightarrow> Some y)"

lemma find_some_cong [fundef_cong]:
  "xs = ys \<Longrightarrow> (\<And>x. x \<in> set ys \<Longrightarrow> f x = g x) \<Longrightarrow> find_some f xs = find_some g ys"
proof (induction ys arbitrary: xs)
  case (Cons y ys)
  then show ?case by (cases xs) (auto split: option.split)
qed simp

function ns_node_find_by_id_depth :: "nat \<Rightarrow> dom \<Rightarrow> string \<Rightarrow> nat \<Rightarrow> nat \<Rightarrow> nat option" where
  "ns_node_find_by_id_depth k h ident root depth =
     (if h root = None \<or> depth \<ge> ns_dom_max_depth then None
      else if element_id h root = Some ident then Some root
      else if is_template h root then None
      else find_some (\<lambda>c. if ns_dom_tree_scope_boundary h c then None
                        else ns_node_find_by_id_depth k h ident c (depth + 1))
             (children k h root))"
  by pat_completeness auto
termination
  by (relation "measure (\<lambda>(k, h, ident, root, depth). ns_dom_max_depth - depth)") auto

declare ns_node_find_by_id_depth.simps [simp del]

function ns_node_find_first_element_depth :: "nat \<Rightarrow> dom \<Rightarrow> string \<Rightarrow> nat \<Rightarrow> nat \<Rightarrow> nat option" where
  "ns_node_find_first_element_depth k h tag root depth =
     (if depth \<ge> ns_dom_max_depth then None
      else
        case h root of None \<Rightarrow> None
        | Some n \<Rightarrow>
            if ns_node_is_element_named n (Some tag) then Some root
            else find_some (\<lambda>c. if ns_dom_tree_scope_boundary h c then None
                              else ns_node_find_first_element_depth k h tag c (depth + 1))
                   (children k h root))"
  by pat_completeness auto
termination
  by (relation "measure (\<lambda>(k, h, tag, root, depth). ns_dom_max_depth - depth)") auto

declare ns_node_find_first_element_depth.simps [simp del]

section \<open>The index\<close>

type_synonym id_index = "string \<rightharpoonup> nat"

text \<open>Entering an id that is not there yet, and taking one out that belongs to the
  node.\<close>

definition ns_doc_id_index_register :: "id_index option \<Rightarrow> cptr \<Rightarrow> nat option \<Rightarrow> id_index option" where
  "ns_doc_id_index_register idx ident node =
     (case (idx, ident, node) of
        (Some ix, Some s, Some n) \<Rightarrow>
          if s = [] then idx else if ix s \<noteq> None then idx else Some (ix(s \<mapsto> n))
      | _ \<Rightarrow> idx)"

definition ns_doc_id_index_unregister :: "id_index option \<Rightarrow> cptr \<Rightarrow> nat \<Rightarrow> id_index option" where
  "ns_doc_id_index_unregister idx ident node =
     (case (idx, ident) of
        (Some ix, Some s) \<Rightarrow>
          if s = [] then idx else if ix s = Some node then Some (ix(s := None)) else idx
      | _ \<Rightarrow> idx)"

definition register_id :: "dom \<Rightarrow> nat \<Rightarrow> id_index \<Rightarrow> id_index" where
  "register_id h n ix =
     (case element_id h n of None \<Rightarrow> ix
      | Some s \<Rightarrow> if s \<noteq> [] \<and> ix s = None then ix(s \<mapsto> n) else ix)"

function ns_doc_id_index_register_subtree :: "nat \<Rightarrow> dom \<Rightarrow> nat \<Rightarrow> nat \<Rightarrow> nat \<Rightarrow> id_index \<Rightarrow> id_index" where
  "ns_doc_id_index_register_subtree k h doc n depth ix =
     (if h n = None \<or> depth \<ge> ns_dom_max_depth then ix
      else if n \<noteq> doc \<and> ns_dom_tree_scope_boundary h n then ix
      else if is_template h n then register_id h n ix
      else fold (\<lambda>c. ns_doc_id_index_register_subtree k h doc c (depth + 1)) (children k h n)
             (register_id h n ix))"
  by pat_completeness auto
termination
  by (relation "measure (\<lambda>(k, h, doc, n, depth, ix). ns_dom_max_depth - depth)") auto

declare ns_doc_id_index_register_subtree.simps [simp del]

definition ns_doc_id_index_build :: "nat \<Rightarrow> dom \<Rightarrow> nat \<Rightarrow> id_index" where
  "ns_doc_id_index_build k h doc = ns_doc_id_index_register_subtree k h doc doc 0 Map.empty"

definition unregister_id :: "dom \<Rightarrow> nat \<Rightarrow> id_index \<Rightarrow> id_index" where
  "unregister_id h n ix =
     (case element_id h n of None \<Rightarrow> ix
      | Some s \<Rightarrow> if s \<noteq> [] \<and> ix s = Some n then ix(s := None) else ix)"

function ns_doc_id_index_remove_subtree :: "nat \<Rightarrow> dom \<Rightarrow> nat \<Rightarrow> nat \<Rightarrow> nat \<Rightarrow> id_index \<Rightarrow> id_index" where
  "ns_doc_id_index_remove_subtree k h doc n depth ix =
     (if h n = None \<or> depth \<ge> ns_dom_max_depth then ix
      else if n \<noteq> doc \<and> ns_dom_tree_scope_boundary h n then ix
      else if is_template h n then unregister_id h n ix
      else fold (\<lambda>c. ns_doc_id_index_remove_subtree k h doc c (depth + 1)) (children k h n)
             (unregister_id h n ix))"
  by pat_completeness auto
termination
  by (relation "measure (\<lambda>(k, h, doc, n, depth, ix). ns_dom_max_depth - depth)") auto

declare ns_doc_id_index_remove_subtree.simps [simp del]

definition ns_doc_id_index_subtree_added :: "nat \<Rightarrow> dom \<Rightarrow> nat \<Rightarrow> nat \<Rightarrow> id_index option \<Rightarrow> id_index option" where
  "ns_doc_id_index_subtree_added k h doc root idx =
     map_option (ns_doc_id_index_register_subtree k h doc root 0) idx"

definition ns_doc_id_index_subtree_removed :: "nat \<Rightarrow> dom \<Rightarrow> nat \<Rightarrow> nat \<Rightarrow> id_index option \<Rightarrow> id_index option" where
  "ns_doc_id_index_subtree_removed k h doc root idx =
     map_option (ns_doc_id_index_remove_subtree k h doc root 0) idx"

section \<open>The lookup\<close>

text \<open>The nearest document above a node, or the topmost node.\<close>

fun climb_to_document :: "nat \<Rightarrow> dom \<Rightarrow> nat \<Rightarrow> nat" where
  "climb_to_document 0 h n = n"
| "climb_to_document (Suc k) h n =
     (case ptr nd_parent h n of None \<Rightarrow> n
      | Some p \<Rightarrow> if (case h n of Some nd \<Rightarrow> nd_kind nd = NodeDocument | None \<Rightarrow> False) then n
                  else climb_to_document k h p)"

text \<open>Whether an entry of the index may be answered: the node still has the id and is
  still below \<open>root\<close>.\<close>

definition index_hit :: "nat \<Rightarrow> dom \<Rightarrow> nat \<Rightarrow> string \<Rightarrow> nat option \<Rightarrow> bool" where
  "index_hit k h root ident hit =
     (case hit of None \<Rightarrow> False
      | Some x \<Rightarrow> element_id h x = Some ident \<and> ns_node_contains k h root (Some x))"

text \<open>The answer, and the indexes of the documents afterwards.\<close>

definition ns_node_find_by_id ::
    "nat \<Rightarrow> dom \<Rightarrow> (nat \<Rightarrow> id_index option) \<Rightarrow> nat option \<Rightarrow> cptr \<Rightarrow> nat option \<times> (nat \<Rightarrow> id_index option)" where
  "ns_node_find_by_id k h idx root ident =
     (case (root, ident) of
        (Some r, Some s) \<Rightarrow>
          if s = [] then (None, idx)
          else
            (case idx r of
               Some ix \<Rightarrow>
                 if index_hit k h r s (ix s) then (ix s, idx)
                 else
                   let found = ns_node_find_by_id_depth k h s r 0
                   in (found, idx(r := Some (ix(s := found))))
             | None \<Rightarrow>
                 let doc = climb_to_document k h r
                 in case (if doc \<noteq> r then idx doc else None) of
                      Some ix \<Rightarrow>
                        if index_hit k h r s (ix s) then (ix s, idx)
                        else
                          let found = ns_node_find_by_id_depth k h s r 0
                          in (found, if found = None then idx else idx(doc := Some (ix(s := found))))
                    | None \<Rightarrow> (ns_node_find_by_id_depth k h s r 0, idx))
      | _ \<Rightarrow> (None, idx))"

section \<open>The walk is the first in tree order\<close>

text \<open>The nodes the walk reaches, in tree order: children in other scopes and the
  content of templates are left out, and nothing deeper than the limit.\<close>

function scope_order :: "nat \<Rightarrow> dom \<Rightarrow> nat \<Rightarrow> nat \<Rightarrow> nat list" where
  "scope_order k h root depth =
     (if h root = None \<or> depth \<ge> ns_dom_max_depth then []
      else root # (if is_template h root then []
                   else concat (map (\<lambda>c. scope_order k h c (depth + 1))
                          (filter (\<lambda>c. \<not> ns_dom_tree_scope_boundary h c) (children k h root)))))"
  by pat_completeness auto
termination
  by (relation "measure (\<lambda>(k, h, root, depth). ns_dom_max_depth - depth)") auto

declare scope_order.simps [simp del]

lemma find_append: "find P (xs @ ys) = (case find P xs of None \<Rightarrow> find P ys | Some x \<Rightarrow> Some x)"
  by (induction xs) auto

lemma find_some_filter:
  "find_some (\<lambda>c. if Q c then None else f c) xs = find_some f (filter (\<lambda>c. \<not> Q c) xs)"
  by (induction xs) (auto split: option.split)

lemma find_concat: "find P (concat (map f xs)) = find_some (\<lambda>x. find P (f x)) xs"
  by (induction xs) (auto simp: find_append split: option.split)

lemma find_by_id_depth_first:
  "ns_node_find_by_id_depth k h s r d = find (\<lambda>n. element_id h n = Some s) (scope_order k h r d)"
proof (induction k h s r d rule: ns_node_find_by_id_depth.induct)
  case (1 k h s r d)
  show ?case
  proof (cases "h r = None \<or> d \<ge> ns_dom_max_depth \<or> element_id h r = Some s \<or> is_template h r")
    case True
    then show ?thesis
      by (auto simp: ns_node_find_by_id_depth.simps [of k h s r] scope_order.simps [of k h r])
  next
    case False
    have ih: "ns_node_find_by_id_depth k h s c (Suc d) = find (\<lambda>n. element_id h n = Some s) (scope_order k h c (Suc d))"
      if "c \<in> set (children k h r)" "\<not> ns_dom_tree_scope_boundary h c" for c
      using "1.IH" [of c] False that by simp
    have "find_some (\<lambda>c. if ns_dom_tree_scope_boundary h c then None
                        else ns_node_find_by_id_depth k h s c (d + 1)) (children k h r)
      = find_some (\<lambda>c. if ns_dom_tree_scope_boundary h c then None
                        else find (\<lambda>n. element_id h n = Some s) (scope_order k h c (d + 1))) (children k h r)"
      by (intro find_some_cong) (simp_all add: ih)
    then show ?thesis
      using False
      by (auto simp: ns_node_find_by_id_depth.simps [of k h s r] scope_order.simps [of k h r]
          find_concat find_some_filter)
  qed
qed

lemma register_subtree_first:
  "(n = doc \<or> \<not> ns_dom_tree_scope_boundary h n) \<Longrightarrow> doc \<notin> set (concat (map (children k h) (scope_order k h n d))) \<Longrightarrow> s \<noteq> [] \<Longrightarrow>
   ns_doc_id_index_register_subtree k h doc n d ix s =
     (case ix s of Some x \<Rightarrow> Some x | None \<Rightarrow> find (\<lambda>n. element_id h n = Some s) (scope_order k h n d))"
proof (induction k h doc n d ix rule: ns_doc_id_index_register_subtree.induct)
  case (1 k h doc n d ix)
  have reg: "register_id h n ix s = (case ix s of Some x \<Rightarrow> Some x | None \<Rightarrow>
      if element_id h n = Some s then Some n else None)"
    using 1(4) by (auto simp: register_id_def split: option.split)
  show ?case
  proof (cases "h n = None \<or> d \<ge> ns_dom_max_depth \<or> is_template h n")
    case True
    then show ?thesis
      using 1(2) reg by (auto simp: ns_doc_id_index_register_subtree.simps [of k h doc n]
        scope_order.simps [of k h n] split: option.split)
  next
    case False
    have sub: "c \<in> set (children k h n) \<Longrightarrow> \<not> ns_dom_tree_scope_boundary h c \<Longrightarrow>
        set (concat (map (children k h) (scope_order k h c (d + 1))))
        \<subseteq> set (concat (map (children k h) (scope_order k h n d)))" for c
      using False by (auto simp: scope_order.simps [of k h n])
    have nd: "doc \<notin> set (children k h n)" using 1(3) False by (simp add: scope_order.simps [of k h n])
    have step: "ns_doc_id_index_register_subtree k h doc c (d + 1) ix' s =
        (case ix' s of Some x \<Rightarrow> Some x | None \<Rightarrow>
          if ns_dom_tree_scope_boundary h c then None
          else find (\<lambda>n. element_id h n = Some s) (scope_order k h c (d + 1)))"
      if c: "c \<in> set (children k h n)" for c ix'
    proof (cases "ns_dom_tree_scope_boundary h c")
      case True
      then show ?thesis using nd c
        by (auto simp: ns_doc_id_index_register_subtree.simps [of k h doc c] split: option.split)
    next
      case b: False
      then show ?thesis
        using "1.IH" [of c ix'] False 1(2,3,4) c sub [OF c b] by auto
    qed
    have "fold (\<lambda>c. ns_doc_id_index_register_subtree k h doc c (d + 1)) cs ix' s =
        (case ix' s of Some x \<Rightarrow> Some x | None \<Rightarrow>
          find_some (\<lambda>c. if ns_dom_tree_scope_boundary h c then None
                        else find (\<lambda>n. element_id h n = Some s) (scope_order k h c (d + 1))) cs)"
      if "set cs \<subseteq> set (children k h n)" for cs ix'
      using that
    proof (induction cs arbitrary: ix')
      case (Cons c cs)
      then show ?case using step [of c ix'] by (auto split: option.splits)
    qed (simp split: option.split)
    from this [OF order_refl] show ?thesis
      using False 1(2) reg
      by (auto simp: ns_doc_id_index_register_subtree.simps [of k h doc n] scope_order.simps [of k h n]
          find_concat find_some_filter split: option.split)
  qed
qed

lemma contains_mono: "ns_node_contains m h a x \<Longrightarrow> m \<le> n \<Longrightarrow> ns_node_contains n h a x"
proof (induction m h a x arbitrary: n rule: ns_node_contains.induct)
  case (2 k h a node)
  then show ?case by (cases n) (auto split: option.splits)
qed simp

text \<open>The children loop sees children, and nothing is above a node without parent.\<close>

definition sees_children :: "nat \<Rightarrow> dom \<Rightarrow> bool" where
  "sees_children k h = (\<forall>p c. c \<in> set (children k h p) \<longrightarrow> ptr nd_parent h c = Some p)"

lemma linked_sees_children: "linked h ch \<Longrightarrow> (\<And>p. length (ch p) \<le> k) \<Longrightarrow> sees_children k h"
  unfolding sees_children_def using children_linked linked_mem(2) by metis

lemma scope_order_contains:
  "sees_children k h \<Longrightarrow> x \<in> set (scope_order k h r d) \<Longrightarrow> ns_node_contains m h a (Some r) \<Longrightarrow>
   ns_node_contains (m + (ns_dom_max_depth - Suc d)) h a (Some x)"
proof (induction k h r d arbitrary: m rule: scope_order.induct)
  case (1 k h r d)
  note see = 1(2) and x = 1(3) and up = 1(4)
  have d: "h r \<noteq> None" "d < ns_dom_max_depth" using x by (auto simp: scope_order.simps [of k h r] split: if_splits)
  show ?case
  proof (cases "x = r")
    case True
    then show ?thesis using contains_mono [OF up] by simp
  next
    case False
    then obtain c where c: "\<not> is_template h r" "c \<in> set (children k h r)" "\<not> ns_dom_tree_scope_boundary h c"
        "x \<in> set (scope_order k h c (Suc d))"
      using x d by (auto simp: scope_order.simps [of k h r] split: if_splits)
    have "ptr nd_parent h c = Some r" using see c(2) by (simp add: sees_children_def)
    then have "ns_node_contains (Suc m) h a (Some c)" using up by simp
    then have "ns_node_contains (Suc m + (ns_dom_max_depth - Suc (Suc d))) h a (Some x)"
      using "1.IH" [of c "Suc m"] c d see by simp
    moreover have "Suc d < ns_dom_max_depth"
      using c(4) by (auto simp: scope_order.simps [of k h c] split: if_splits)
    ultimately show ?thesis by (simp add: Suc_diff_Suc)
  qed
qed

text \<open>What the walk and every index answer: an element with the id below the root,
  and the walk fails only if there is none in its scope.\<close>

lemma find_by_id_depth_hit:
  assumes "sees_children k h" "ns_dom_max_depth \<le> k" "ns_node_find_by_id_depth k h s r 0 = Some x"
  shows "index_hit k h r s (Some x)"
proof -
  have x: "x \<in> set (scope_order k h r 0)" "element_id h x = Some s"
    using assms(3) by (auto simp: find_by_id_depth_first find_Some_iff)
  have "ns_node_contains 1 h r (Some r)" by simp
  then have "ns_node_contains (1 + (ns_dom_max_depth - Suc 0)) h r (Some x)"
    by (rule scope_order_contains [OF assms(1) x(1)])
  then have "ns_node_contains k h r (Some x)"
    by (rule contains_mono) (use assms(2) in \<open>simp add: ns_dom_max_depth_def\<close>)
  then show ?thesis using x(2) by (simp add: index_hit_def)
qed

lemma find_by_id_sound:
  assumes "sees_children k h" "ns_dom_max_depth \<le> k"
    and "fst (ns_node_find_by_id k h idx (Some r) (Some s)) = Some x"
  shows "index_hit k h r s (Some x)"
  using assms(3) find_by_id_depth_hit [OF assms(1,2)]
  unfolding ns_node_find_by_id_def by (auto simp: Let_def split: option.splits if_splits)

lemma find_by_id_complete:
  assumes "s \<noteq> []" "fst (ns_node_find_by_id k h idx (Some r) (Some s)) = None"
  shows "ns_node_find_by_id_depth k h s r 0 = None"
proof -
  have "\<not> index_hit k h r s None" by (simp add: index_hit_def)
  then show ?thesis
    using assms unfolding ns_node_find_by_id_def by (auto simp: Let_def split: option.splits if_splits)
qed

lemma build_finds_first:
  assumes "sees_children k h" "ptr nd_parent h doc = None" "s \<noteq> []"
  shows "ns_doc_id_index_build k h doc s = ns_node_find_by_id_depth k h s doc 0"
proof -
  have "doc \<notin> set (children k h p)" for p using assms(1,2) unfolding sees_children_def by fastforce
  then show ?thesis
    unfolding ns_doc_id_index_build_def find_by_id_depth_first
    using register_subtree_first [of doc doc h k 0 s Map.empty] assms(3) by simp
qed

text \<open>(C15) The id index is a cache of the tree walk: whatever the index holds, an
  answer is an element that has the id and lies below the root, and no answer is given
  only if the walk, which takes the first such element of the scope in tree order, finds
  none; and right after \<open>ns_doc_id_index_build\<close> the answer is that first element, for
  every id.\<close>

theorem dom_find_by_id:
  assumes "linked h ch" and "ns_dom_max_depth \<le> k" and "\<And>p. length (ch p) \<le> k"
    and "ident \<noteq> []" and "ptr nd_parent h doc = None"
  shows "(case fst (ns_node_find_by_id k h idx (Some r) (Some ident)) of
            None \<Rightarrow> find (\<lambda>n. element_id h n = Some ident) (scope_order k h r 0) = None
          | Some x \<Rightarrow> element_id h x = Some ident \<and> ns_node_contains k h r (Some x))
    \<and> fst (ns_node_find_by_id k h (idx(doc := Some (ns_doc_id_index_build k h doc))) (Some doc) (Some ident))
        = find (\<lambda>n. element_id h n = Some ident) (scope_order k h doc 0)"
proof
  have see: "sees_children k h" by (rule linked_sees_children [OF assms(1,3)])
  show "case fst (ns_node_find_by_id k h idx (Some r) (Some ident)) of
            None \<Rightarrow> find (\<lambda>n. element_id h n = Some ident) (scope_order k h r 0) = None
          | Some x \<Rightarrow> element_id h x = Some ident \<and> ns_node_contains k h r (Some x)"
    using find_by_id_sound [OF see assms(2), of idx r ident] find_by_id_complete [OF assms(4), of k h idx r]
    by (auto simp: index_hit_def find_by_id_depth_first split: option.split)
  define w where "w = ns_node_find_by_id_depth k h ident doc 0"
  have b: "ns_doc_id_index_build k h doc ident = w"
    unfolding w_def by (rule build_finds_first [OF see assms(5,4)])
  have "index_hit k h doc ident w" if "w \<noteq> None"
    using that find_by_id_depth_hit [OF see assms(2), of ident doc] unfolding w_def by auto
  then have "fst (ns_node_find_by_id k h (idx(doc := Some (ns_doc_id_index_build k h doc))) (Some doc) (Some ident)) = w"
    using assms(4) b by (auto simp: ns_node_find_by_id_def Let_def w_def [symmetric])
  then show "fst (ns_node_find_by_id k h (idx(doc := Some (ns_doc_id_index_build k h doc))) (Some doc) (Some ident))
        = find (\<lambda>n. element_id h n = Some ident) (scope_order k h doc 0)"
    by (simp add: w_def find_by_id_depth_first)
qed

text \<open>A document (0) and two paragraphs (1 and 2) with the same id.\<close>

definition twin_nodes :: dom where
  "twin_nodes = (\<lambda>i. if i = 0 then Some ns_node_new_document
     else if i < 3 then Some (ns_element_set_attr (ns_node_new_element ''p'') ''id'' (Some ''x'')) else None)"

lemma twin_nodes_linked: "linked twin_nodes (\<lambda>_. [])"
  by (auto simp: linked_def twin_nodes_def ptr_def ns_node_new_document_def ns_node_new_element_def
      ns_node_new_def ns_element_set_attr_def ns_element_set_attr_len_def attrs_touch_def Let_def)

theorem dom_find_by_id_witness:
  "(case fst (ns_node_find_by_id 512 (fold tree_apply [TreeAppend 0 1, TreeAppend 0 2] twin_nodes) (\<lambda>_. None)
       (Some 2) (Some ''x'')) of
            None \<Rightarrow> find (\<lambda>n. element_id (fold tree_apply [TreeAppend 0 1, TreeAppend 0 2] twin_nodes) n = Some ''x'')
              (scope_order 512 (fold tree_apply [TreeAppend 0 1, TreeAppend 0 2] twin_nodes) 2 0) = None
          | Some x \<Rightarrow> element_id (fold tree_apply [TreeAppend 0 1, TreeAppend 0 2] twin_nodes) x = Some ''x''
              \<and> ns_node_contains 512 (fold tree_apply [TreeAppend 0 1, TreeAppend 0 2] twin_nodes) 2 (Some x))
    \<and> fst (ns_node_find_by_id 512 (fold tree_apply [TreeAppend 0 1, TreeAppend 0 2] twin_nodes)
          ((\<lambda>_. None)(0 := Some (ns_doc_id_index_build 512
              (fold tree_apply [TreeAppend 0 1, TreeAppend 0 2] twin_nodes) 0))) (Some 0) (Some ''x''))
        = find (\<lambda>n. element_id (fold tree_apply [TreeAppend 0 1, TreeAppend 0 2] twin_nodes) n = Some ''x'')
            (scope_order 512 (fold tree_apply [TreeAppend 0 1, TreeAppend 0 2] twin_nodes) 0 0)"
proof (rule dom_find_by_id)
  show l: "linked (fold tree_apply [TreeAppend 0 1, TreeAppend 0 2] twin_nodes)
      (fold lists_apply [TreeAppend 0 1, TreeAppend 0 2] (\<lambda>_. []))"
    by (rule tree_run_linked [OF twin_nodes_linked]) (simp add: twin_nodes_def)
  show "ns_dom_max_depth \<le> 512" by (simp add: ns_dom_max_depth_def)
  show "length (fold lists_apply [TreeAppend 0 1, TreeAppend 0 2] (\<lambda>_. []) p) \<le> 512" for p by simp
  have "fold tree_apply [TreeAppend 0 1, TreeAppend 0 2] twin_nodes 0 \<noteq> None"
    by (simp add: tree_apply_dom twin_nodes_def del: tree_apply.simps)
  then show "ptr nd_parent (fold tree_apply [TreeAppend 0 1, TreeAppend 0 2] twin_nodes) 0 = None"
    using is_child_parent(1) [OF l, of 0] by (auto simp: is_child_def split: if_splits simp del: tree_apply.simps)
qed simp

text \<open>The index is not told apart by position: when a second element with a known id
  is put before the first one, the entry stays, and the lookup answers the later
  element where the walk finds the earlier one.\<close>

lemma earlier_duplicate_is_missed:
  "(let h1 = ns_node_append_child 0 1 twin_nodes;
        ix = ns_doc_id_index_build 3 h1 0;
        h2 = ns_insert_sibling_before (Some 1) (Some 2) h1;
        ix2 = ns_doc_id_index_subtree_added 3 h2 0 2 (Some ix)
    in fst (ns_node_find_by_id 3 h2 ((\<lambda>_. None)(0 := ix2)) (Some 0) (Some ''x'')) = Some 1
     \<and> ns_node_find_by_id_depth 3 h2 ''x'' 0 0 = Some 2)"
  by code_simp

end
