(* ===== verification/Dom_Order.thy ===== *)
theory Dom_Order
  imports Dom_Find
begin

text \<open>
  Tree order (\<open>src/src/dom.c\<close>): the comparison of two nodes, the insertion into the
  arrays of the class and tag indexes that keeps them in tree order, and these
  indexes themselves, as maps from a key to the array of its nodes.
\<close>

section \<open>Comparing two nodes\<close>

text \<open>The number of nodes from \<open>x\<close> up, at most \<open>m\<close>; going up \<open>m\<close> times; going up from
  both nodes until they are siblings.\<close>

fun up_count :: "nat \<Rightarrow> dom \<Rightarrow> nat option \<Rightarrow> nat" where
  "up_count 0 h x = 0"
| "up_count (Suc m) h x = (case x of None \<Rightarrow> 0 | Some i \<Rightarrow> Suc (up_count m h (ptr nd_parent h i)))"

fun climb :: "nat \<Rightarrow> dom \<Rightarrow> nat option \<Rightarrow> nat option" where
  "climb 0 h x = x"
| "climb (Suc m) h x = (case x of None \<Rightarrow> None | Some i \<Rightarrow> climb m h (ptr nd_parent h i))"

fun climb_both :: "nat \<Rightarrow> dom \<Rightarrow> nat option \<Rightarrow> nat option \<Rightarrow> nat option \<times> nat option" where
  "climb_both 0 h a b = (a, b)"
| "climb_both (Suc m) h a b =
     (case (a, b) of
        (Some i, Some j) \<Rightarrow>
          if ptr nd_parent h i \<noteq> ptr nd_parent h j
          then climb_both m h (ptr nd_parent h i) (ptr nd_parent h j) else (a, b)
      | _ \<Rightarrow> (a, b))"

text \<open>Looking for \<open>cb\<close> among the siblings in both directions at once, for at most \<open>k\<close>
  rounds.\<close>

fun scan_siblings :: "nat \<Rightarrow> dom \<Rightarrow> nat \<Rightarrow> nat option \<Rightarrow> nat option \<Rightarrow> int" where
  "scan_siblings 0 h cb fwd back = 0"
| "scan_siblings (Suc k) h cb fwd back =
     (if fwd = None \<and> back = None then 0
      else if fwd = Some cb then -1
      else if back = Some cb then 1
      else scan_siblings k h cb (case fwd of None \<Rightarrow> None | Some i \<Rightarrow> ptr nd_next_sibling h i)
             (case back of None \<Rightarrow> None | Some i \<Rightarrow> ptr nd_prev_sibling h i))"

definition ns_node_document_order_cmp :: "nat \<Rightarrow> dom \<Rightarrow> nat \<Rightarrow> nat \<Rightarrow> int" where
  "ns_node_document_order_cmp k h a b =
     (if a = b then 0
      else
        let da = up_count ns_dom_max_depth h (Some a);
            db = up_count ns_dom_max_depth h (Some b);
            ca = climb (da - db) h (Some a);
            cb = climb (db - da) h (Some b)
        in if ca = cb then (if da < db then -1 else 1)
           else
             (case climb_both ns_dom_max_depth h ca cb of
                (Some x, Some y) \<Rightarrow>
                  let par = ptr nd_parent h x;
                      first = (case par of None \<Rightarrow> None | Some p \<Rightarrow> ptr nd_first_child h p);
                      last = (case par of None \<Rightarrow> None | Some p \<Rightarrow> ptr nd_last_child h p)
                  in if par \<noteq> None \<and> (first = Some x \<or> last = Some y) then -1
                     else if par \<noteq> None \<and> (first = Some y \<or> last = Some x) then 1
                     else scan_siblings k h y (ptr nd_next_sibling h x) (ptr nd_prev_sibling h x)
              | _ \<Rightarrow> if a < b then -1 else 1))"

section \<open>Ordered insertion\<close>

text \<open>The binary search: the place of the node, or \<open>None\<close> when it is there already.\<close>

function order_search :: "(nat \<Rightarrow> nat \<Rightarrow> int) \<Rightarrow> nat list \<Rightarrow> nat \<Rightarrow> nat \<Rightarrow> nat \<Rightarrow> nat option" where
  "order_search cmp arr node lo hi =
     (if lo < hi then
        let mid = (lo + hi) div 2; c = cmp node (arr ! mid)
        in if c = 0 then None
           else if c < 0 then order_search cmp arr node lo mid
           else order_search cmp arr node (mid + 1) hi
      else Some lo)"
  by pat_completeness auto
termination by (relation "measure (\<lambda>(cmp, arr, node, lo, hi). hi - lo)") auto

declare order_search.simps [simp del]

definition ns_doc_index_ordered_insert ::
    "(nat \<Rightarrow> nat \<Rightarrow> int) \<Rightarrow> bool \<Rightarrow> nat list \<Rightarrow> nat \<Rightarrow> nat list" where
  "ns_doc_index_ordered_insert cmp building arr node =
     (if building then (if arr = [] \<or> last arr \<noteq> node then arr @ [node] else arr)
      else if arr = [] \<or> cmp node (last arr) > 0 then arr @ [node]
      else
        (case order_search cmp arr node 0 (length arr) of
           None \<Rightarrow> arr
         | Some i \<Rightarrow> take i arr @ node # drop i arr))"

section \<open>The class and tag indexes\<close>

type_synonym node_index = "string \<rightharpoonup> nat list"

definition index_add :: "(nat \<Rightarrow> nat \<Rightarrow> int) \<Rightarrow> bool \<Rightarrow> string \<Rightarrow> nat \<Rightarrow> node_index \<Rightarrow> node_index" where
  "index_add cmp building key node ix =
     (case ix key of
        Some arr \<Rightarrow> ix(key \<mapsto> ns_doc_index_ordered_insert cmp building arr node)
      | None \<Rightarrow> ix(key \<mapsto> [node]))"

definition index_remove :: "string \<Rightarrow> nat \<Rightarrow> node_index \<Rightarrow> node_index" where
  "index_remove key node ix =
     (case ix key of None \<Rightarrow> ix | Some arr \<Rightarrow> ix(key \<mapsto> remove1 node arr))"

definition ns_doc_class_index_register ::
    "(nat \<Rightarrow> nat \<Rightarrow> int) \<Rightarrow> bool \<Rightarrow> string \<Rightarrow> nat \<Rightarrow> node_index \<Rightarrow> node_index" where
  "ns_doc_class_index_register cmp building cls node ix =
     fold (\<lambda>tok. index_add cmp building tok node) (ns_class_set_build cls) ix"

definition ns_doc_class_index_unregister :: "string \<Rightarrow> nat \<Rightarrow> node_index \<Rightarrow> node_index" where
  "ns_doc_class_index_unregister cls node ix =
     fold (\<lambda>tok. index_remove tok node) (ns_class_set_build cls) ix"

definition element_class :: "dom \<Rightarrow> nat \<Rightarrow> cptr" where
  "element_class h i =
     (case h i of None \<Rightarrow> None
      | Some n \<Rightarrow> if nd_kind n = NodeElement then ns_element_get_attr n (Some ''class'') else None)"

text \<open>Every element of a subtree, in the order of the walk, handed to \<open>f\<close>.\<close>

function subtree_fold :: "nat \<Rightarrow> dom \<Rightarrow> nat \<Rightarrow> (nat \<Rightarrow> 'x \<Rightarrow> 'x) \<Rightarrow> nat \<Rightarrow> nat \<Rightarrow> 'x \<Rightarrow> 'x" where
  "subtree_fold k h doc f n depth x =
     (if h n = None \<or> depth \<ge> ns_dom_max_depth then x
      else if n \<noteq> doc \<and> ns_dom_tree_scope_boundary h n then x
      else if is_template h n then f n x
      else fold (\<lambda>c. subtree_fold k h doc f c (depth + 1)) (children k h n) (f n x))"
  by pat_completeness auto
termination
  by (relation "measure (\<lambda>(k, h, doc, f, n, depth, x). ns_dom_max_depth - depth)") auto

declare subtree_fold.simps [simp del]

definition ns_doc_class_index_add_subtree :: "nat \<Rightarrow> dom \<Rightarrow> bool \<Rightarrow> nat \<Rightarrow> nat \<Rightarrow> node_index \<Rightarrow> node_index" where
  "ns_doc_class_index_add_subtree k h building doc n ix =
     subtree_fold k h doc (\<lambda>i ix. case element_class h i of None \<Rightarrow> ix
        | Some cls \<Rightarrow> if cls = [] then ix
            else ns_doc_class_index_register (ns_node_document_order_cmp k h) building cls i ix) n 0 ix"

definition ns_doc_class_index_remove_subtree :: "nat \<Rightarrow> dom \<Rightarrow> nat \<Rightarrow> nat \<Rightarrow> node_index \<Rightarrow> node_index" where
  "ns_doc_class_index_remove_subtree k h doc n ix =
     subtree_fold k h doc (\<lambda>i ix. case element_class h i of None \<Rightarrow> ix
        | Some cls \<Rightarrow> if cls = [] then ix else ns_doc_class_index_unregister cls i ix) n 0 ix"

definition ns_doc_class_index_build :: "nat \<Rightarrow> dom \<Rightarrow> nat \<Rightarrow> node_index" where
  "ns_doc_class_index_build k h doc = ns_doc_class_index_add_subtree k h True doc doc Map.empty"

definition element_tag :: "dom \<Rightarrow> nat \<Rightarrow> cptr" where
  "element_tag h i =
     (case h i of None \<Rightarrow> None | Some n \<Rightarrow> if nd_kind n = NodeElement then nd_name n else None)"

definition tag_key :: "string \<Rightarrow> string" where
  "tag_key tag = (if ns_str_is_ascii_lower tag then tag else strdown tag)"

definition ns_doc_tag_index_add_single ::
    "(nat \<Rightarrow> nat \<Rightarrow> int) \<Rightarrow> bool \<Rightarrow> string \<Rightarrow> nat \<Rightarrow> node_index \<Rightarrow> node_index" where
  "ns_doc_tag_index_add_single cmp building tag node ix =
     (if tag = [] then ix else index_add cmp building (tag_key tag) node ix)"

definition ns_doc_tag_index_remove_single :: "string \<Rightarrow> nat \<Rightarrow> node_index \<Rightarrow> node_index" where
  "ns_doc_tag_index_remove_single tag node ix =
     (if tag = [] then ix else index_remove (tag_key tag) node ix)"

definition ns_doc_tag_index_add_subtree :: "nat \<Rightarrow> dom \<Rightarrow> bool \<Rightarrow> nat \<Rightarrow> nat \<Rightarrow> node_index \<Rightarrow> node_index" where
  "ns_doc_tag_index_add_subtree k h building doc n ix =
     subtree_fold k h doc (\<lambda>i ix. case element_tag h i of None \<Rightarrow> ix
        | Some tag \<Rightarrow> ns_doc_tag_index_add_single (ns_node_document_order_cmp k h) building tag i ix) n 0 ix"

definition ns_doc_tag_index_remove_subtree :: "nat \<Rightarrow> dom \<Rightarrow> nat \<Rightarrow> nat \<Rightarrow> node_index \<Rightarrow> node_index" where
  "ns_doc_tag_index_remove_subtree k h doc n ix =
     subtree_fold k h doc (\<lambda>i ix. case element_tag h i of None \<Rightarrow> ix
        | Some tag \<Rightarrow> ns_doc_tag_index_remove_single tag i ix) n 0 ix"

definition ns_doc_tag_index_build :: "nat \<Rightarrow> dom \<Rightarrow> nat \<Rightarrow> node_index" where
  "ns_doc_tag_index_build k h doc = ns_doc_tag_index_add_subtree k h True doc doc Map.empty"

definition ns_doc_tag_index_lookup :: "node_index option \<Rightarrow> cptr \<Rightarrow> nat list option" where
  "ns_doc_tag_index_lookup idx tag =
     (case (idx, tag) of
        (Some ix, Some t) \<Rightarrow> if t = [] then None else ix (tag_key t)
      | _ \<Rightarrow> None)"

text \<open>The first element of a name: from the tag index of the root if it has one.\<close>

definition ns_node_find_first_element ::
    "nat \<Rightarrow> dom \<Rightarrow> node_index option \<Rightarrow> nat option \<Rightarrow> cptr \<Rightarrow> nat option" where
  "ns_node_find_first_element k h idx root tag =
     (case (root, tag) of
        (Some r, Some t) \<Rightarrow>
          if t \<noteq> [] \<and> idx \<noteq> None
          then (case ns_doc_tag_index_lookup idx (Some t) of Some (x # xs) \<Rightarrow> Some x | _ \<Rightarrow> None)
          else ns_node_find_first_element_depth k h t r 0
      | _ \<Rightarrow> None)"

section \<open>Depths and ancestors\<close>

definition depth_of :: "dom \<Rightarrow> nat option \<Rightarrow> nat" where
  "depth_of h x = up_count ns_dom_max_depth h x"

lemma up_count_exact: "up_count m h x < m \<Longrightarrow> m \<le> n \<Longrightarrow> up_count n h x = up_count m h x"
proof (induction m h x arbitrary: n rule: up_count.induct)
  case (2 m h x)
  obtain n' where n: "n = Suc n'" using "2.prems"(2) by (cases n) auto
  show ?case
  proof (cases x)
    case (Some i)
    then have "up_count n' h (ptr nd_parent h i) = up_count m h (ptr nd_parent h i)"
      using "2.IH" [of i n'] "2.prems" n by simp
    then show ?thesis using Some n by simp
  qed (use n in simp)
qed simp

lemma depth_of_parent:
  assumes "depth_of h (Some i) < ns_dom_max_depth"
  shows "depth_of h (Some i) = Suc (depth_of h (ptr nd_parent h i))"
proof -
  have m: "ns_dom_max_depth = Suc 511" by (simp add: ns_dom_max_depth_def)
  have c: "up_count (Suc 511) h (Some i) = Suc (up_count 511 h (ptr nd_parent h i))"
    by (simp only: up_count.simps option.case)
  then have "up_count 511 h (ptr nd_parent h i) < 511" using assms unfolding depth_of_def m by simp
  then have "up_count (Suc 511) h (ptr nd_parent h i) = up_count 511 h (ptr nd_parent h i)"
    by (rule up_count_exact) simp
  then show ?thesis unfolding depth_of_def m c by simp
qed

lemma climb_None [simp]: "climb m h None = None"
  by (cases m) auto

lemma climb_add: "climb (m + n) h x = climb n h (climb m h x)"
  by (induction m h x rule: climb.induct) (auto split: option.split)

lemma climb_Suc_outer: "climb (Suc m) h x = (case climb m h x of None \<Rightarrow> None | Some i \<Rightarrow> ptr nd_parent h i)"
  using climb_add [of m 1 h x] by (auto split: option.split)

lemma climb_depth:
  "climb m h (Some a) = Some c \<Longrightarrow> depth_of h (Some a) < ns_dom_max_depth \<Longrightarrow>
   depth_of h (Some a) = m + depth_of h (Some c)"
proof (induction m arbitrary: a)
  case (Suc m)
  then obtain p where p: "ptr nd_parent h a = Some p" by (cases "ptr nd_parent h a") auto
  have "depth_of h (Some a) = Suc (depth_of h (Some p))" using depth_of_parent [OF Suc.prems(2)] p by simp
  moreover from this have "depth_of h (Some p) = m + depth_of h (Some c)"
    using Suc.IH [of p] Suc.prems p by simp
  ultimately show ?case by simp
qed simp

section \<open>Tree order\<close>

text \<open>The nodes of a tree, parents first, children in the order of their list, down to
  \<open>n\<close> levels.\<close>

fun tree_order :: "nat \<Rightarrow> (nat \<Rightarrow> nat list) \<Rightarrow> nat \<Rightarrow> nat list" where
  "tree_order 0 ch r = []"
| "tree_order (Suc n) ch r = r # concat (map (tree_order n ch) (ch r))"

lemma tree_order_climb:
  assumes "linked h ch"
  shows "x \<in> set (tree_order n ch r) \<Longrightarrow> \<exists>m<n. climb m h (Some x) = Some r"
proof (induction n arbitrary: r)
  case (Suc n)
  show ?case
  proof (cases "x = r")
    case True
    then show ?thesis by (intro exI [of _ 0]) simp
  next
    case False
    then obtain c where c: "c \<in> set (ch r)" "x \<in> set (tree_order n ch c)" using Suc.prems by auto
    then obtain m where "m < n" "climb m h (Some x) = Some c" using Suc.IH by blast
    then show ?thesis using linked_mem(2) [OF assms c(1)]
      by (intro exI [of _ "Suc m"]) (simp add: climb_Suc_outer del: climb.simps)
  qed
qed simp

text \<open>One node precedes another: it is above it, or above them are siblings in that
  order.\<close>

definition precedes :: "dom \<Rightarrow> (nat \<Rightarrow> nat list) \<Rightarrow> nat \<Rightarrow> nat \<Rightarrow> bool" where
  "precedes h ch a b \<longleftrightarrow>
     (\<exists>m. m > 0 \<and> climb m h (Some b) = Some a)
     \<or> (\<exists>p xs c ys d zs i j. ch p = xs @ c # ys @ d # zs
          \<and> climb i h (Some a) = Some c \<and> climb j h (Some b) = Some d)"

lemma concat_map_two:
  assumes "concat (map f xs) = us @ a # vs @ b # ws"
  shows "(\<exists>x\<in>set xs. \<exists>us vs ws. f x = us @ a # vs @ b # ws)
    \<or> (\<exists>xs1 x xs2 y xs3. xs = xs1 @ x # xs2 @ y # xs3 \<and> a \<in> set (f x) \<and> b \<in> set (f y))"
  using assms
proof (induction xs arbitrary: us)
  case (Cons x xs)
  have eq: "f x @ concat (map f xs) = us @ a # vs @ b # ws" using Cons.prems by simp
  then consider (later) us' where "us = f x @ us'" "concat (map f xs) = us' @ a # vs @ b # ws"
    | (here) t where "f x = us @ a # t" "t @ concat (map f xs) = vs @ b # ws"
    by (auto simp: append_eq_append_conv2 append_eq_Cons_conv Cons_eq_append_conv)
  then show ?case
  proof cases
    case later
    from Cons.IH [OF later(2)] show ?thesis
    proof
      assume "\<exists>x\<in>set xs. \<exists>us vs ws. f x = us @ a # vs @ b # ws"
      then show ?thesis by auto
    next
      assume "\<exists>xs1 x xs2 y xs3. xs = xs1 @ x # xs2 @ y # xs3 \<and> a \<in> set (f x) \<and> b \<in> set (f y)"
      then obtain xs1 x' xs2 y xs3 where "xs = xs1 @ x' # xs2 @ y # xs3" "a \<in> set (f x')" "b \<in> set (f y)" by blast
      then have "x # xs = (x # xs1) @ x' # xs2 @ y # xs3" by simp
      then show ?thesis using \<open>a \<in> set (f x')\<close> \<open>b \<in> set (f y)\<close> by blast
    qed
  next
    case here
    show ?thesis
    proof (cases "length vs < length t")
      case True
      then obtain t2 where "t = vs @ b # t2"
        using here(2) by (auto simp: append_eq_append_conv2 append_eq_Cons_conv Cons_eq_append_conv)
      then show ?thesis using here(1) by auto
    next
      case False
      then obtain v2 where "vs = t @ v2" "concat (map f xs) = v2 @ b # ws"
        using here(2) by (auto simp: append_eq_append_conv2 append_eq_Cons_conv Cons_eq_append_conv)
      then have "b \<in> set (concat (map f xs))" by simp
      then obtain y where "y \<in> set xs" "b \<in> set (f y)" by auto
      then obtain xs2 xs3 where "xs = xs2 @ y # xs3" by (meson split_list)
      then have "x # xs = [] @ x # xs2 @ y # xs3" by simp
      moreover have "a \<in> set (f x)" by (simp add: here(1))
      ultimately show ?thesis using \<open>b \<in> set (f y)\<close> by blast
    qed
  qed
qed simp

lemma tree_order_precedes:
  assumes l: "linked h ch"
  shows "tree_order n ch r = us @ a # vs @ b # ws \<Longrightarrow> precedes h ch a b"
proof (induction n arbitrary: r us vs ws)
  case (Suc n)
  show ?case
  proof (cases us)
    case Nil
    then have "a = r" and e: "concat (map (tree_order n ch) (ch r)) = vs @ b # ws" using Suc.prems by auto
    have "b \<in> set (concat (map (tree_order n ch) (ch r)))" unfolding e by simp
    then obtain c where "c \<in> set (ch r)" "b \<in> set (tree_order n ch c)" by auto
    then obtain m where m: "climb m h (Some b) = Some c" using tree_order_climb [OF l] by blast
    have "climb (Suc m) h (Some b) = Some r"
      using m linked_mem(2) [OF l \<open>c \<in> set (ch r)\<close>] by (simp add: climb_Suc_outer del: climb.simps)
    then show ?thesis unfolding precedes_def \<open>a = r\<close> by blast
  next
    case (Cons u us')
    have "concat (map (tree_order n ch) (ch r)) = us' @ a # vs @ b # ws"
      using Suc.prems unfolding Cons tree_order.simps append_Cons list.inject by blast
    from concat_map_two [OF this] show ?thesis
    proof
      assume "\<exists>x\<in>set (ch r). \<exists>us vs ws. tree_order n ch x = us @ a # vs @ b # ws"
      then show ?thesis using Suc.IH by blast
    next
      assume "\<exists>xs1 x xs2 y xs3. ch r = xs1 @ x # xs2 @ y # xs3 \<and> a \<in> set (tree_order n ch x) \<and> b \<in> set (tree_order n ch y)"
      then obtain xs1 x xs2 y xs3 where e: "ch r = xs1 @ x # xs2 @ y # xs3"
        "a \<in> set (tree_order n ch x)" "b \<in> set (tree_order n ch y)" by blast
      then obtain i j where "climb i h (Some a) = Some x" "climb j h (Some b) = Some y"
        using tree_order_climb [OF l] by meson
      then show ?thesis unfolding precedes_def using e(1) by blast
    qed
  qed
qed simp

section \<open>The comparison decides tree order\<close>

fun chained :: "(nat \<Rightarrow> nat option) \<Rightarrow> nat list \<Rightarrow> bool" where
  "chained f [] = True"
| "chained f (x # xs) = (f x = hd_opt xs \<and> chained f xs)"

lemma siblings_chained:
  "siblings h p l cs None \<Longrightarrow> chained (ptr nd_next_sibling h) cs"
  "siblings h p None cs r \<Longrightarrow> chained (ptr nd_prev_sibling h) (rev cs)"
proof -
  show "siblings h p l cs None \<Longrightarrow> chained (ptr nd_next_sibling h) cs"
    by (induction cs arbitrary: l) (auto simp: siblings_Cons)
  show "siblings h p None cs r \<Longrightarrow> chained (ptr nd_prev_sibling h) (rev cs)"
  proof (induction cs arbitrary: r rule: rev_induct)
    case (snoc x xs)
    have "last_opt xs = hd_opt (rev xs)" by (cases xs rule: rev_cases) simp_all
    then show ?case using snoc by (auto simp: siblings_append siblings_Cons)
  qed simp
qed

lemma hd_opt_next: "chained f fs \<Longrightarrow> (case hd_opt fs of None \<Rightarrow> None | Some i \<Rightarrow> f i) = hd_opt (tl fs)"
  by (cases fs) auto

lemma chained_tl: "chained f fs \<Longrightarrow> chained f (tl fs)"
  by (cases fs) auto

lemma scan_forward:
  "chained (ptr nd_next_sibling h) fs \<Longrightarrow> chained (ptr nd_prev_sibling h) bs \<Longrightarrow> cb \<in> set fs \<Longrightarrow>
   cb \<notin> set bs \<Longrightarrow> length fs \<le> k \<Longrightarrow> scan_siblings k h cb (hd_opt fs) (hd_opt bs) = -1"
proof (induction k arbitrary: fs bs)
  case (Suc k)
  obtain f fs' where fs: "fs = f # fs'" using Suc.prems(3) by (cases fs) auto
  have b: "hd_opt bs \<noteq> Some cb" using Suc.prems(4) by (auto dest: opt_in)
  show ?case
  proof (cases "f = cb")
    case False
    have "set (tl bs) \<subseteq> set bs" by (cases bs) auto
    then have "scan_siblings k h cb (hd_opt fs') (hd_opt (tl bs)) = -1"
      using Suc.prems False fs chained_tl [OF Suc.prems(2)] by (intro Suc.IH) auto
    then show ?thesis
      using False b hd_opt_next [OF Suc.prems(1)] hd_opt_next [OF Suc.prems(2)] by (simp add: fs)
  qed (simp add: fs)
qed simp

lemma scan_backward:
  "chained (ptr nd_next_sibling h) fs \<Longrightarrow> chained (ptr nd_prev_sibling h) bs \<Longrightarrow> cb \<notin> set fs \<Longrightarrow>
   cb \<in> set bs \<Longrightarrow> length bs \<le> k \<Longrightarrow> scan_siblings k h cb (hd_opt fs) (hd_opt bs) = 1"
proof (induction k arbitrary: fs bs)
  case (Suc k)
  obtain b bs' where bs: "bs = b # bs'" using Suc.prems(4) by (cases bs) auto
  have f: "hd_opt fs \<noteq> Some cb" using Suc.prems(3) by (auto dest: opt_in)
  show ?case
  proof (cases "b = cb")
    case False
    have "set (tl fs) \<subseteq> set fs" by (cases fs) auto
    then have "scan_siblings k h cb (hd_opt (tl fs)) (hd_opt bs') = 1"
      using Suc.prems False bs chained_tl [OF Suc.prems(1)] by (intro Suc.IH) auto
    then show ?thesis
      using False f hd_opt_next [OF Suc.prems(1)] hd_opt_next [OF Suc.prems(2)] by (simp add: bs)
  qed (use f in \<open>simp add: bs\<close>)
qed simp

lemma climb_both_siblings:
  "climb t h x = Some c \<Longrightarrow> climb t h y = Some d \<Longrightarrow> c \<noteq> d \<Longrightarrow> ptr nd_parent h c = ptr nd_parent h d \<Longrightarrow>
   t \<le> m \<Longrightarrow> climb_both m h x y = (Some c, Some d)"
proof (induction t arbitrary: x y m)
  case 0
  then show ?case by (cases m) auto
next
  case (Suc t)
  then obtain i j where ij: "x = Some i" "y = Some j" by (cases x; cases y) auto
  obtain m' where m: "m = Suc m'" using Suc.prems(5) by (cases m) auto
  have "ptr nd_parent h i \<noteq> ptr nd_parent h j" using Suc.prems(1-3) ij by auto
  moreover have "climb_both m' h (ptr nd_parent h i) (ptr nd_parent h j) = (Some c, Some d)"
    using Suc.prems ij m by (intro Suc.IH) auto
  ultimately show ?case by (simp add: ij m)
qed

lemma cmp_siblings:
  assumes l: "linked h ch" and k: "length (ch p) \<le> k" and chp: "ch p = xs @ c # ys @ d # zs"
    and ab: "climb i h (Some a) = Some c" "climb j h (Some b) = Some d"
    and da: "depth_of h (Some a) < ns_dom_max_depth" and db: "depth_of h (Some b) < ns_dom_max_depth"
  shows "ns_node_document_order_cmp k h a b = -1" "ns_node_document_order_cmp k h b a = 1"
proof -
  have dist: "distinct (ch p)" by (rule linkedD(3) [OF l])
  have cd: "c \<in> set (ch p)" "d \<in> set (ch p)" by (simp_all add: chp)
  have ne: "c \<noteq> d" "d \<notin> set xs" "c \<notin> set xs" "c \<notin> set ys" "c \<notin> set zs" "d \<notin> set ys" "d \<notin> set zs"
    using dist unfolding chp by auto
  have par: "ptr nd_parent h c = Some p" "ptr nd_parent h d = Some p" using linked_mem(2) [OF l] cd by auto
  note Da = climb_depth [OF ab(1) da] and Db = climb_depth [OF ab(2) db]
  have D: "depth_of h (Some c) = depth_of h (Some d)"
    using depth_of_parent [of h c] depth_of_parent [of h d] par Da Db da db by simp
  define t where "t = min i j"
  have diff: "depth_of h (Some a) - depth_of h (Some b) = i - j" "depth_of h (Some b) - depth_of h (Some a) = j - i"
    using Da Db D by simp_all
  have ca: "climb t h (climb (i - j) h (Some a)) = Some c" and cb: "climb t h (climb (j - i) h (Some b)) = Some d"
  proof -
    have "i - j + t = i" "j - i + t = j" by (simp_all add: t_def)
    then show "climb t h (climb (i - j) h (Some a)) = Some c" "climb t h (climb (j - i) h (Some b)) = Some d"
      using ab climb_add [of "i - j" t h "Some a"] climb_add [of "j - i" t h "Some b"] by simp_all
  qed
  have nab: "a \<noteq> b" "climb (i - j) h (Some a) \<noteq> climb (j - i) h (Some b)"
  proof -
    show "climb (i - j) h (Some a) \<noteq> climb (j - i) h (Some b)" using ca cb ne(1) by auto
    then show "a \<noteq> b" using Da Db D by (cases "i = j") auto
  qed
  have t: "t \<le> ns_dom_max_depth" using Da da by (simp add: t_def)
  have both: "climb_both ns_dom_max_depth h (climb (i - j) h (Some a)) (climb (j - i) h (Some b)) = (Some c, Some d)"
    "climb_both ns_dom_max_depth h (climb (j - i) h (Some b)) (climb (i - j) h (Some a)) = (Some d, Some c)"
    using climb_both_siblings [OF ca cb ne(1) _ t] climb_both_siblings [OF cb ca _ _ t] ne(1) par by simp_all
  have fl: "ptr nd_first_child h p = hd_opt (xs @ c # ys @ d # zs)" "ptr nd_last_child h p = last_opt (xs @ c # ys @ d # zs)"
    using linkedD(1,2) [OF l linked_mem(3) [OF l cd(1)]] chp by auto
  have nf: "ptr nd_first_child h p \<noteq> Some d" "ptr nd_last_child h p \<noteq> Some c"
    using ne fl by (auto simp: hd_opt_append last_opt_append last_opt_Cons or_else_def split: option.splits dest: opt_in)
  have sib: "siblings h p None (xs @ c # ys @ d # zs) None" using linkedD(4) [OF l, of p] chp by simp
  then have sx: "siblings h p None xs (Some c)" and sc: "siblings h p (Some c) (ys @ d # zs) None"
    "ptr nd_prev_sibling h c = last_opt xs" "ptr nd_next_sibling h c = hd_opt (ys @ d # zs)"
    by (simp_all add: siblings_append siblings_Cons)
  define vs where "vs = xs @ c # ys"
  have "siblings h p None (vs @ d # zs) None" using sib by (simp add: vs_def)
  then have "siblings h p None vs (Some d)" and sd: "siblings h p (Some d) zs None"
    "ptr nd_prev_sibling h d = last_opt vs" "ptr nd_next_sibling h d = hd_opt zs"
    by (simp_all add: siblings_append siblings_Cons)
  then have sy: "siblings h p None (xs @ c # ys) (Some d)" by (simp only: vs_def)
  have hr: "last_opt vs = hd_opt (rev vs)" for vs :: "nat list" by (cases vs rule: rev_cases) simp_all
  have s1: "scan_siblings k h d (hd_opt (ys @ d # zs)) (hd_opt (rev xs)) = -1"
    using ne k chp by (intro scan_forward siblings_chained(1) [OF sc(1)] siblings_chained(2) [OF sx]) auto
  have s2: "scan_siblings k h c (hd_opt zs) (hd_opt (rev (xs @ c # ys))) = 1"
    using ne k chp by (intro scan_backward siblings_chained(1) [OF sd(1)] siblings_chained(2) [OF sy]) auto
  show "ns_node_document_order_cmp k h a b = -1"
    unfolding ns_node_document_order_cmp_def Let_def depth_of_def [symmetric] diff both
    using nab par nf s1 sc(2,3) by (simp add: hr)
  show "ns_node_document_order_cmp k h b a = 1"
    unfolding ns_node_document_order_cmp_def Let_def depth_of_def [symmetric] diff both
    using nab par nf s2 sd(2,3) by (simp add: hr vs_def)
qed

lemma cmp_precedes:
  assumes l: "linked h ch" and k: "\<And>p. length (ch p) \<le> k" and ab: "precedes h ch a b"
    and d: "depth_of h (Some a) < ns_dom_max_depth" "depth_of h (Some b) < ns_dom_max_depth"
  shows "ns_node_document_order_cmp k h a b = -1 \<and> ns_node_document_order_cmp k h b a = 1"
  using ab unfolding precedes_def
proof
  assume "\<exists>m. m > 0 \<and> climb m h (Some b) = Some a"
  then obtain m where m: "m > 0" "climb m h (Some b) = Some a" by blast
  have D: "depth_of h (Some b) = m + depth_of h (Some a)" by (rule climb_depth [OF m(2) d(2)])
  have ne: "a \<noteq> b" using D m(1) by auto
  have diff: "depth_of h (Some a) - depth_of h (Some b) = 0" "depth_of h (Some b) - depth_of h (Some a) = m"
    using D by simp_all
  show ?thesis
    unfolding ns_node_document_order_cmp_def Let_def depth_of_def [symmetric] diff
    using ne m D by simp
next
  assume "\<exists>p xs c ys d zs i j. ch p = xs @ c # ys @ d # zs
          \<and> climb i h (Some a) = Some c \<and> climb j h (Some b) = Some d"
  then obtain p xs c ys e zs i j where e: "ch p = xs @ c # ys @ e # zs"
    "climb i h (Some a) = Some c" "climb j h (Some b) = Some e" by blast
  show ?thesis using cmp_siblings [OF l k [of p] e d] by simp
qed

lemma depth_in_tree:
  assumes l: "linked h ch" and r: "ptr nd_parent h r = None" and n: "n < ns_dom_max_depth"
    and x: "x \<in> set (tree_order n ch r)"
  shows "depth_of h (Some x) < ns_dom_max_depth"
proof -
  obtain m where m: "m < n" "climb m h (Some x) = Some r" using tree_order_climb [OF l x] by blast
  have "climb i h (Some y) = Some r \<Longrightarrow> i < j \<Longrightarrow> up_count j h (Some y) = Suc i" for i j y
  proof (induction i arbitrary: j y)
    case 0
    then show ?case using r by (cases j; cases "j - 1") auto
  next
    case (Suc i)
    then obtain j' z where "j = Suc j'" "ptr nd_parent h y = Some z"
      by (cases j; cases "ptr nd_parent h y") auto
    then show ?case using Suc by simp
  qed
  from this [OF m(2), of ns_dom_max_depth] show ?thesis using m(1) n by (simp add: depth_of_def)
qed

text \<open>What the comparison says about two nodes of one tree.\<close>

lemma cmp_tree_order:
  assumes "linked h ch" "\<And>p. length (ch p) \<le> k" "ptr nd_parent h r = None" "n < ns_dom_max_depth"
    and "tree_order n ch r = us @ a # vs @ b # ws"
  shows "ns_node_document_order_cmp k h a b = -1 \<and> ns_node_document_order_cmp k h b a = 1"
proof (rule cmp_precedes [OF assms(1,2)])
  show "precedes h ch a b" by (rule tree_order_precedes [OF assms(1,5)])
  show "depth_of h (Some a) < ns_dom_max_depth" "depth_of h (Some b) < ns_dom_max_depth"
    by (rule depth_in_tree [OF assms(1,3,4)]; simp add: assms(5))+
qed

lemma tree_order_distinct:
  assumes "linked h ch" "\<And>p. length (ch p) \<le> k" "ptr nd_parent h r = None" "n < ns_dom_max_depth"
  shows "distinct (tree_order n ch r)"
proof (rule ccontr)
  assume "\<not> distinct (tree_order n ch r)"
  then obtain us a vs ws where "tree_order n ch r = us @ [a] @ vs @ [a] @ ws"
    using not_distinct_decomp by blast
  then have "ns_node_document_order_cmp k h a a = -1"
    using cmp_tree_order [OF assms, of us a vs a ws] by simp
  then show False by (simp add: ns_node_document_order_cmp_def)
qed

section \<open>Ordered insertion keeps tree order\<close>

lemma order_search_place:
  assumes "\<And>i. i < length xs \<Longrightarrow> cmp node (xs ! i) > 0" "\<And>i. i < length ys \<Longrightarrow> cmp node (ys ! i) < 0"
  shows "lo \<le> length xs \<Longrightarrow> length xs \<le> hi \<Longrightarrow> hi \<le> length (xs @ ys) \<Longrightarrow>
    order_search cmp (xs @ ys) node lo hi = Some (length xs)"
proof (induction "hi - lo" arbitrary: lo hi rule: less_induct)
  case less
  show ?case
  proof (cases "lo < hi")
    case False
    then show ?thesis using less.prems by (subst order_search.simps) auto
  next
    case True
    define mid where "mid = (lo + hi) div 2"
    have mid: "lo \<le> mid" "mid < hi" using True by (auto simp: mid_def)
    show ?thesis
    proof (cases "mid < length xs")
      case before: True
      then have "cmp node ((xs @ ys) ! mid) > 0" using assms(1) by (simp add: nth_append)
      then have "order_search cmp (xs @ ys) node lo hi = order_search cmp (xs @ ys) node (mid + 1) hi"
        using True by (subst order_search.simps) (simp add: mid_def Let_def)
      then show ?thesis using less.hyps [of hi "mid + 1"] less.prems mid before by simp
    next
      case after: False
      then have "cmp node ((xs @ ys) ! mid) < 0"
        using assms(2) [of "mid - length xs"] mid less.prems by (simp add: nth_append)
      then have "order_search cmp (xs @ ys) node lo hi = order_search cmp (xs @ ys) node lo mid"
        using True by (subst order_search.simps) (simp add: mid_def Let_def)
      then show ?thesis using less.hyps [of mid lo] less.prems mid after by simp
    qed
  qed
qed

lemma order_search_found:
  assumes "\<And>i. i < length xs \<Longrightarrow> cmp node (xs ! i) > 0" "\<And>i. i < length ys \<Longrightarrow> cmp node (ys ! i) < 0"
    and "cmp node node = 0"
  shows "lo \<le> length xs \<Longrightarrow> length xs < hi \<Longrightarrow> hi \<le> length (xs @ node # ys) \<Longrightarrow>
    order_search cmp (xs @ node # ys) node lo hi = None"
proof (induction "hi - lo" arbitrary: lo hi rule: less_induct)
  case less
  define mid where "mid = (lo + hi) div 2"
  have mid: "lo \<le> mid" "mid < hi" "lo < hi" using less.prems by (auto simp: mid_def)
  consider (before) "mid < length xs" | (here) "mid = length xs" | (after) "length xs < mid" by linarith
  then show ?case
  proof cases
    case before
    then have "cmp node ((xs @ node # ys) ! mid) > 0" using assms(1) by (simp add: nth_append)
    then have "order_search cmp (xs @ node # ys) node lo hi = order_search cmp (xs @ node # ys) node (mid + 1) hi"
      using mid by (subst order_search.simps) (simp add: mid_def Let_def)
    then show ?thesis using less.hyps [of hi "mid + 1"] less.prems mid before by simp
  next
    case here
    then show ?thesis using mid assms(3) by (subst order_search.simps) (simp add: mid_def Let_def)
  next
    case after
    then have "mid - length xs = Suc (mid - Suc (length xs))" by simp
    then have "(xs @ node # ys) ! mid = ys ! (mid - Suc (length xs))" using after by (simp add: nth_append)
    then have "cmp node ((xs @ node # ys) ! mid) < 0"
      using assms(2) [of "mid - Suc (length xs)"] mid less.prems after by simp
    then have "order_search cmp (xs @ node # ys) node lo hi = order_search cmp (xs @ node # ys) node lo mid"
      using mid by (subst order_search.simps) (simp add: mid_def Let_def)
    then show ?thesis using less.hyps [of mid lo] less.prems mid after by simp
  qed
qed

lemma ordered_insert_place:
  assumes "\<And>x. x \<in> set xs \<Longrightarrow> cmp node x > 0" "\<And>y. y \<in> set ys \<Longrightarrow> cmp node y < 0" "cmp node node = (0 :: int)"
  shows "ns_doc_index_ordered_insert cmp False (xs @ ys) node = xs @ node # ys"
    "ns_doc_index_ordered_insert cmp False (xs @ node # ys) node = xs @ node # ys"
proof -
  have x: "i < length xs \<Longrightarrow> cmp node (xs ! i) > 0" and y: "i < length ys \<Longrightarrow> cmp node (ys ! i) < 0" for i
    using assms(1,2) by simp_all
  have l: "\<not> cmp node (last ys) > 0" if "ys \<noteq> []" using assms(2) [of "last ys"] that by simp
  show "ns_doc_index_ordered_insert cmp False (xs @ ys) node = xs @ node # ys"
  proof (cases "ys = []")
    case True
    have "xs \<noteq> [] \<Longrightarrow> cmp node (last xs) > 0" using assms(1) by simp
    then show ?thesis using True by (cases "xs = []") (simp_all add: ns_doc_index_ordered_insert_def)
  next
    case False
    then have "\<not> cmp node (last (xs @ ys)) > 0" using l by simp
    then show ?thesis
      using False order_search_place [of xs cmp node ys 0 "length (xs @ ys)", OF x y]
      by (simp add: ns_doc_index_ordered_insert_def)
  qed
  have "\<not> cmp node (last (xs @ node # ys)) > 0" using l assms(3) by simp
  then show "ns_doc_index_ordered_insert cmp False (xs @ node # ys) node = xs @ node # ys"
    using order_search_found [of xs cmp node ys 0 "length (xs @ node # ys)", OF x y assms(3)]
    by (simp add: ns_doc_index_ordered_insert_def)
qed

text \<open>(C13) The arrays of the class and tag indexes stay in tree order: for two nodes of
  one tree the comparison is -1, 0 or 1 as the first comes before, is, or comes after the
  second in tree order, and inserting a node into the array that lists the nodes of a
  set \<open>S\<close> in tree order gives the array that lists \<open>S\<close> with that node in tree order,
  without doubling it.\<close>

theorem dom_index_tree_order:
  assumes "linked h ch" and "\<And>p. length (ch p) \<le> k" and "ptr nd_parent h r = None"
    and "n < ns_dom_max_depth" and "tree_order n ch r = us @ a # ws"
  shows "list_all (\<lambda>x. ns_node_document_order_cmp k h x a = -1 \<and> ns_node_document_order_cmp k h a x = 1) us
    \<and> ns_node_document_order_cmp k h a a = 0
    \<and> list_all (\<lambda>y. ns_node_document_order_cmp k h a y = -1 \<and> ns_node_document_order_cmp k h y a = 1) ws
    \<and> ns_doc_index_ordered_insert (ns_node_document_order_cmp k h) False
        (filter (\<lambda>x. x \<in> S) (tree_order n ch r)) a
      = filter (\<lambda>x. x \<in> insert a S) (tree_order n ch r)"
proof -
  let ?cmp = "ns_node_document_order_cmp k h"
  have u: "?cmp x a = -1 \<and> ?cmp a x = 1" if "x \<in> set us" for x
  proof -
    obtain u1 u2 where "us = u1 @ x # u2" using \<open>x \<in> set us\<close> by (meson split_list)
    then show ?thesis using cmp_tree_order [OF assms(1-4), of u1 x u2 a ws] assms(5) by simp
  qed
  have w: "?cmp a y = -1 \<and> ?cmp y a = 1" if "y \<in> set ws" for y
  proof -
    obtain w1 w2 where "ws = w1 @ y # w2" using \<open>y \<in> set ws\<close> by (meson split_list)
    then show ?thesis using cmp_tree_order [OF assms(1-4), of us a w1 y w2] assms(5) by simp
  qed
  have z: "?cmp a a = 0" by (simp add: ns_node_document_order_cmp_def)
  have na: "a \<notin> set us" "a \<notin> set ws" using u w z by force+
  define xs where "xs = filter (\<lambda>x. x \<in> S) us"
  define ys where "ys = filter (\<lambda>x. x \<in> S) ws"
  have f: "filter (\<lambda>x. x \<in> insert a S) us = xs" "filter (\<lambda>x. x \<in> insert a S) ws = ys"
    unfolding xs_def ys_def using na by (auto intro!: filter_cong)
  have p: "?cmp a x > 0" if "x \<in> set xs" for x using u that by (simp add: xs_def)
  have q: "?cmp a y < 0" if "y \<in> set ys" for y using w that by (simp add: ys_def)
  have "ns_doc_index_ordered_insert ?cmp False (filter (\<lambda>x. x \<in> S) (tree_order n ch r)) a
      = filter (\<lambda>x. x \<in> insert a S) (tree_order n ch r)"
    using ordered_insert_place [of xs ?cmp a ys, OF p q z] f
    unfolding assms(5) by (simp add: xs_def [symmetric] ys_def [symmetric])
  then show ?thesis using u w z by (simp add: list_all_iff)
qed

text \<open>The two paragraphs of \<open>twin_nodes\<close> under their document.\<close>

definition twin_ops :: "tree_op list" where
  "twin_ops = [TreeAppend 0 1, TreeAppend 0 2]"

lemma twin_tree:
  "linked (fold tree_apply twin_ops twin_nodes) (fold lists_apply twin_ops (\<lambda>_. []))"
  "ptr nd_parent (fold tree_apply twin_ops twin_nodes) 0 = None"
proof -
  show l: "linked (fold tree_apply twin_ops twin_nodes) (fold lists_apply twin_ops (\<lambda>_. []))"
    by (rule tree_run_linked [OF twin_nodes_linked]) (simp add: twin_nodes_def twin_ops_def)
  have "fold tree_apply twin_ops twin_nodes 0 \<noteq> None"
    by (simp add: tree_apply_dom twin_nodes_def twin_ops_def del: tree_apply.simps)
  then show "ptr nd_parent (fold tree_apply twin_ops twin_nodes) 0 = None"
    using is_child_parent(1) [OF l, of 0]
    by (auto simp: is_child_def twin_ops_def split: if_splits simp del: tree_apply.simps)
qed

theorem dom_index_tree_order_witness:
  "list_all (\<lambda>x. ns_node_document_order_cmp 2 (fold tree_apply twin_ops twin_nodes) x 1 = -1
        \<and> ns_node_document_order_cmp 2 (fold tree_apply twin_ops twin_nodes) 1 x = 1) [0]
    \<and> ns_node_document_order_cmp 2 (fold tree_apply twin_ops twin_nodes) 1 1 = 0
    \<and> list_all (\<lambda>y. ns_node_document_order_cmp 2 (fold tree_apply twin_ops twin_nodes) 1 y = -1
        \<and> ns_node_document_order_cmp 2 (fold tree_apply twin_ops twin_nodes) y 1 = 1) [2]
    \<and> ns_doc_index_ordered_insert (ns_node_document_order_cmp 2 (fold tree_apply twin_ops twin_nodes)) False
        (filter (\<lambda>x. x \<in> {2}) (tree_order 2 (fold lists_apply twin_ops (\<lambda>_. [])) 0)) 1
      = filter (\<lambda>x. x \<in> insert 1 {2}) (tree_order 2 (fold lists_apply twin_ops (\<lambda>_. [])) 0)"
proof (rule dom_index_tree_order [OF twin_tree(1) _ twin_tree(2)])
  show "length (fold lists_apply twin_ops (\<lambda>_. []) p) \<le> 2" for p by (simp add: twin_ops_def)
  show "2 < ns_dom_max_depth" by (simp add: ns_dom_max_depth_def)
  show "tree_order 2 (fold lists_apply twin_ops (\<lambda>_. [])) 0 = [0] @ 1 # [2]"
    by (simp add: twin_ops_def numeral_2_eq_2)
qed

end
