(* ===== verification/Css_Select.thy ===== *)
theory Css_Select
  imports Dom_Order "HOL-Library.Signed_Division"
begin

text \<open>
  Selectors and the matcher (\<open>src/src/css.h\<close>, \<open>src/src/css.c\<close>): compound selectors,
  attribute tests, pseudo-classes, the combinators walked from the subject to the left,
  \<open>:is\<close>, \<open>:not\<close>, \<open>:has\<close> and \<open>:nth-child(... of ...)\<close>. The counter of match steps
  (\<open>g_sel_match_ops\<close>) is threaded through every call, because a search that exceeds
  its budget answers no. The memo tables of \<open>:has\<close> and \<open>:nth-child\<close> are left out:
  every question is answered anew, as for the queries of scripts. While the styles of a page
  are computed there is a table of \<open>:has\<close> (\<open>g_has_memo\<close>) keyed on the selector list and the
  element alone, so the code then repeats the first answer also where another scope root, or
  what is left of the budget, would give another (the lemma \<open>has_depends_on_scope\<close> of
  \<open>Css_Match\<close>).
\<close>

section \<open>Data\<close>

datatype ns_css_attr_op = AttrPresent | AttrEq | AttrPrefix | AttrSuffix | AttrSubstr | AttrWord | AttrHyphen

record ns_css_attr_pred =
  ap_name :: string
  ap_op :: ns_css_attr_op
  ap_value :: cptr
  ap_ci :: bool
  ap_cs :: bool
  ap_bit :: "64 word"

datatype ns_css_pseudo = PcFirstChild | PcLastChild | PcOnlyChild | PcOnlyOfType | PcFirstOfType
  | PcLastOfType | PcEmpty | PcRoot | PcChecked | PcDisabled | PcEnabled | PcRequired | PcOptional
  | PcValid | PcInvalid | PcInRange | PcOutOfRange | PcDefault | PcIndeterminate | PcNthChild
  | PcNthLastChild | PcNthOfType | PcNthLastOfType | PcLink | PcVisited | PcAnyLink | PcHover
  | PcActive | PcFocus | PcFocusWithin | PcTarget | PcTargetWithin | PcDefined | PcScope
  | PcPlaceholderShown | PcReadOnly | PcReadWrite | PcBlank | PcLang | PcDir | PcOpen | PcPopoverOpen
  | PcModal | PcFullscreen | PcHeading | PcUserValid | PcUserInvalid | PcAutofill | PcPlaying
  | PcPaused | PcMuted | PcSeeking | PcBuffering | PcStalled

datatype ns_css_comb = CombNone | CombDescendant | CombChild | CombAdjacent | CombSibling

datatype ns_css_pseudo_element = PeNone | PeBefore | PeAfter | PeFirstLetter | PeFirstLine
  | PeSelection | PeMarker | PeBackdrop | PePlaceholder | PeFileSelectorButton

text \<open>An absent group array is the empty list.\<close>

datatype ns_css_simple =
    CssSimple (cs_type: cptr) (cs_id: cptr) (cs_classes: "string list")
      (cs_attrs: "ns_css_attr_pred list") (cs_pseudos: "ns_css_pseudo_pred list")
      (cs_any: "ns_css_selector list list") (cs_none: "ns_css_selector list list")
      (cs_has: "ns_css_selector list list") (cs_never: bool) (cs_ns_none: bool)
  and ns_css_pseudo_pred =
    CssPseudo (pp_kind: ns_css_pseudo) (pp_a: int) (pp_b: int) (pp_arg: cptr)
      (pp_of: "ns_css_selector list option")
  and ns_css_selector =
    CssSelector (sl_compounds: "ns_css_simple list") (sl_combs: "ns_css_comb list")
      (sl_pe: ns_css_pseudo_element) (sl_a: int) (sl_b: int) (sl_c: int)

text \<open>The globals the matcher reads. \<open>ce_query\<close> answers the pseudo-classes about the
  value of a form control, the language and the direction of an element;
  \<open>ce_resolve\<close> is \<open>ns_url_resolve\<close>.\<close>

record css_env =
  ce_hover :: "nat option"
  ce_active :: "nat option"
  ce_focus :: "nat option"
  ce_fullscreen :: "nat option"
  ce_modal :: "nat option"
  ce_target :: cptr
  ce_defined :: "string list"
  ce_visited :: "string list"
  ce_base :: cptr
  ce_resolve :: "string \<Rightarrow> string \<Rightarrow> cptr"
  ce_query :: "ns_css_pseudo \<Rightarrow> cptr \<Rightarrow> nat \<Rightarrow> bool"

section \<open>Reading nodes\<close>

fun follow :: "nat \<Rightarrow> (ns_node \<Rightarrow> nat option) \<Rightarrow> dom \<Rightarrow> nat option \<Rightarrow> nat list" where
  "follow 0 f h c = []"
| "follow (Suc k) f h c = (case c of None \<Rightarrow> [] | Some i \<Rightarrow> i # follow k f h (ptr f h i))"

definition node_attr :: "dom \<Rightarrow> nat \<Rightarrow> string \<Rightarrow> cptr" where
  "node_attr h i name = (case h i of None \<Rightarrow> None | Some n \<Rightarrow> ns_element_get_attr n (Some name))"

definition has_attr :: "dom \<Rightarrow> nat \<Rightarrow> string \<Rightarrow> bool" where
  "has_attr h i name = (node_attr h i name \<noteq> None)"

definition is_element :: "dom \<Rightarrow> nat \<Rightarrow> bool" where
  "is_element h i = (case h i of None \<Rightarrow> False | Some n \<Rightarrow> nd_kind n = NodeElement)"

definition is_document :: "dom \<Rightarrow> nat \<Rightarrow> bool" where
  "is_document h i = (case h i of None \<Rightarrow> False | Some n \<Rightarrow> nd_kind n = NodeDocument)"

definition node_name :: "dom \<Rightarrow> nat \<Rightarrow> cptr" where
  "node_name h i = (case h i of None \<Rightarrow> None | Some n \<Rightarrow> nd_name n)"

definition node_flags :: "dom \<Rightarrow> nat \<Rightarrow> ns_node_flag set" where
  "node_flags h i = (case h i of None \<Rightarrow> {} | Some n \<Rightarrow> nd_flags n)"

definition named :: "dom \<Rightarrow> nat \<Rightarrow> cptr \<Rightarrow> bool" where
  "named h i tag = (case h i of None \<Rightarrow> False | Some n \<Rightarrow> ns_node_is_element_named n tag)"

definition attr_is :: "cptr \<Rightarrow> string list \<Rightarrow> bool" where
  "attr_is v words = (case v of None \<Rightarrow> False | Some s \<Rightarrow> list_ex (strcaseeq s) words)"

definition is_ws :: "char \<Rightarrow> bool" where
  "is_ws c = (c = SP \<or> c = HT \<or> c = LF \<or> c = CR \<or> c = FF)"

section \<open>Attribute tests\<close>

definition ns_css_html_ci_attr :: "string \<Rightarrow> bool" where
  "ns_css_html_ci_attr name = list_ex (strcaseeq name)
     [''accept'', ''accept-charset'', ''align'', ''alink'', ''axis'', ''bgcolor'', ''charset'',
      ''checked'', ''clear'', ''codetype'', ''color'', ''compact'', ''declare'', ''defer'', ''dir'',
      ''direction'', ''disabled'', ''enctype'', ''face'', ''frame'', ''hreflang'', ''http-equiv'',
      ''lang'', ''language'', ''link'', ''media'', ''method'', ''multiple'', ''nohref'', ''noresize'',
      ''noshade'', ''nowrap'', ''readonly'', ''rel'', ''rev'', ''rules'', ''scope'', ''scrolling'',
      ''selected'', ''shape'', ''target'', ''text'', ''type'', ''valign'', ''valuetype'', ''vlink'']"

text \<open>\<open>strncmp\<close> or \<open>g_ascii_strncasecmp\<close> on the length of the wanted value.\<close>

definition begins :: "bool \<Rightarrow> string \<Rightarrow> string \<Rightarrow> bool" where
  "begins ci w s = (if ci then strncaseeq (length w) s w else strneq (length w) s w)"

fun substr_ci :: "string \<Rightarrow> string \<Rightarrow> bool" where
  "substr_ci w [] = (w = [])"
| "substr_ci w (c # s) = (if length w \<le> length (c # s) \<and> begins True w (c # s) then True else substr_ci w s)"

function word_in :: "bool \<Rightarrow> string \<Rightarrow> string \<Rightarrow> bool" where
  "word_in ci w s =
     (if s = [] then False
      else
        let t = dropWhile is_ws s; tok = takeWhile (\<lambda>c. \<not> is_ws c) t; r = dropWhile (\<lambda>c. \<not> is_ws c) t
        in if length tok = length w \<and> begins ci w tok then True else word_in ci w r)"
  by pat_completeness auto
termination
proof (relation "measure (\<lambda>(ci, w, s). length s)", goal_cases)
  case (2 ci w s t tok r)
  show ?case
  proof (cases "t = s")
    case True
    then obtain c u where s: "s = c # u" "\<not> is_ws c"
      using 2(1,2) hd_dropWhile [of is_ws s] by (cases s) auto
    then have "r = dropWhile (\<lambda>c. \<not> is_ws c) u" using 2(4) True by simp
    then show ?thesis using s length_dropWhile_le [of "\<lambda>c. \<not> is_ws c" u] by simp
  next
    case False
    then have "length t < length s"
      using 2(2) length_dropWhile_le [of is_ws s] dropWhile_eq_self_iff [of is_ws s]
      by (metis append.left_neutral append_same_eq le_neq_implies_less length_append
          add_right_cancel add_0 length_0_conv takeWhile_dropWhile_id)
    then show ?thesis using 2(4) length_dropWhile_le [of "\<lambda>c. \<not> is_ws c" t] by simp
  qed
qed simp

declare word_in.simps [simp del]

definition attr_value_matches :: "ns_css_attr_op \<Rightarrow> bool \<Rightarrow> string \<Rightarrow> string \<Rightarrow> bool" where
  "attr_value_matches op ci v w =
     (case op of
        AttrEq \<Rightarrow> if ci then strcaseeq v w else v = w
      | AttrPrefix \<Rightarrow> w \<noteq> [] \<and> length w \<le> length v \<and> begins ci w v
      | AttrSuffix \<Rightarrow> w \<noteq> [] \<and> length w \<le> length v
          \<and> (let t = drop (length v - length w) v in if ci then strcaseeq t w else t = w)
      | AttrSubstr \<Rightarrow> w \<noteq> [] \<and> (if ci then substr_ci w v else strstr v w \<noteq> None)
      | AttrWord \<Rightarrow> word_in ci w v
      | AttrHyphen \<Rightarrow> length w \<le> length v \<and> begins ci w v
          \<and> (length w < length v \<longrightarrow> v ! length w = CHR ''-'')
      | AttrPresent \<Rightarrow> True)"

definition attr_pred_matches :: "dom \<Rightarrow> nat \<Rightarrow> ns_css_attr_pred \<Rightarrow> bool" where
  "attr_pred_matches h el a =
     (case h el of None \<Rightarrow> False
      | Some n \<Rightarrow>
        let html_doc = (FlagForeignNs \<notin> nd_flags n \<and> FlagSvgNs \<notin> nd_flags n \<and> FlagXmlDoc \<notin> nd_flags n)
        in if ap_bit a \<noteq> 0 \<and> and (fst (ns_node_attr_bloom n)) (ap_bit a) = 0 then False
           else
             case ns_element_get_attr n (Some (ap_name a)) of None \<Rightarrow> False
             | Some v \<Rightarrow>
               if ap_op a = AttrPresent then True
               else (case ap_value a of None \<Rightarrow> False
                     | Some w \<Rightarrow> attr_value_matches (ap_op a)
                         (ap_ci a \<or> (\<not> ap_cs a \<and> html_doc \<and> ns_css_html_ci_attr (ap_name a))) v w))"

section \<open>Form controls (\<open>dom.c\<close>)\<close>

definition ns_input_type_supports_readonly :: "cptr \<Rightarrow> bool" where
  "ns_input_type_supports_readonly ty =
     (ty = None \<or> ty = Some [] \<or> attr_is ty [''text'', ''search'', ''url'', ''tel'', ''email'', ''password'',
        ''date'', ''month'', ''week'', ''time'', ''datetime-local'', ''number''])"

definition ns_form_control_supports_required :: "dom \<Rightarrow> nat \<Rightarrow> bool" where
  "ns_form_control_supports_required h c =
     (is_element h c \<and>
      (node_name h c = Some ''textarea'' \<or> node_name h c = Some ''select''
       \<or> (node_name h c = Some ''input''
          \<and> \<not> attr_is (node_attr h c ''type'')
              [''hidden'', ''range'', ''color'', ''submit'', ''image'', ''reset'', ''button''])))"

definition ns_element_supports_disabled :: "dom \<Rightarrow> nat \<Rightarrow> bool" where
  "ns_element_supports_disabled h el =
     (is_element h el \<and>
      (case node_name h el of None \<Rightarrow> False
       | Some t \<Rightarrow> t \<in> {''button'', ''fieldset'', ''input'', ''optgroup'', ''option'', ''select'', ''textarea''}))"

definition ns_fieldset_first_legend :: "nat \<Rightarrow> dom \<Rightarrow> nat \<Rightarrow> nat option" where
  "ns_fieldset_first_legend n h f = find (\<lambda>c. named h c (Some ''legend'')) (children n h f)"

definition ns_element_effectively_disabled :: "nat \<Rightarrow> dom \<Rightarrow> nat \<Rightarrow> bool" where
  "ns_element_effectively_disabled n h el =
     (ns_element_supports_disabled h el \<and>
      (has_attr h el ''disabled'' \<or>
       list_ex (\<lambda>p.
           (named h el (Some ''option'') \<and> named h p (Some ''optgroup'') \<and> has_attr h p ''disabled'')
           \<or> (named h p (Some ''fieldset'') \<and> has_attr h p ''disabled''
              \<and> \<not> (case ns_fieldset_first_legend n h p of None \<Rightarrow> False
                   | Some legend \<Rightarrow> ns_node_contains n h legend (Some el))))
         (follow n nd_parent h (ptr nd_parent h el))))"

function collect_text :: "nat \<Rightarrow> dom \<Rightarrow> nat \<Rightarrow> nat \<Rightarrow> string" where
  "collect_text k h n depth =
     (if ns_dom_max_depth \<le> depth then []
      else
        case h n of None \<Rightarrow> []
        | Some nd \<Rightarrow>
          if nd_kind nd = NodeText then (case nd_text nd of None \<Rightarrow> [] | Some t \<Rightarrow> until_nul t)
          else if nd_kind nd = NodeElement
               \<and> nd_name nd \<in> {Some ''style'', Some ''script'', Some ''noscript'', Some ''template''} then []
          else concat (map (\<lambda>c. collect_text k h c (depth + 1)) (children k h n)))"
  by pat_completeness auto
termination by (relation "measure (\<lambda>(k, h, n, d). ns_dom_max_depth - d)") auto

declare collect_text.simps [simp del]

definition ns_node_collect_text :: "nat \<Rightarrow> dom \<Rightarrow> nat \<Rightarrow> string" where
  "ns_node_collect_text k h root = collect_text k h root 0"

section \<open>Pseudo-classes of one element (\<open>css.c\<close>)\<close>

definition ns_input_is_text_entry :: "dom \<Rightarrow> nat \<Rightarrow> bool" where
  "ns_input_is_text_entry h el =
     (let ty = node_attr h el ''type''
      in ty = None \<or> ty = Some []
         \<or> attr_is ty [''text'', ''search'', ''url'', ''tel'', ''email'', ''password'', ''number''])"

definition ns_el_is_read_write :: "nat \<Rightarrow> dom \<Rightarrow> nat \<Rightarrow> bool" where
  "ns_el_is_read_write n h el =
     (case node_name h el of None \<Rightarrow> False
      | Some t \<Rightarrow>
        if t = ''input'' then
          ns_input_type_supports_readonly (node_attr h el ''type'') \<and> \<not> has_attr h el ''readonly''
          \<and> \<not> ns_element_effectively_disabled n h el
        else if t = ''textarea'' then
          \<not> has_attr h el ''readonly'' \<and> \<not> ns_element_effectively_disabled n h el
        else
          node_attr h el ''contenteditable'' = Some []
          \<or> attr_is (node_attr h el ''contenteditable'') [''true'', ''plaintext-only''])"

definition ns_el_placeholder_shown :: "nat \<Rightarrow> dom \<Rightarrow> nat \<Rightarrow> bool" where
  "ns_el_placeholder_shown n h el =
     (case node_name h el of None \<Rightarrow> False
      | Some t \<Rightarrow>
        if \<not> has_attr h el ''placeholder'' then False
        else if t = ''input'' then
          ns_input_is_text_entry h el \<and> node_attr h el ''value'' \<in> {None, Some []}
        else if t = ''textarea'' then list_all is_ws (ns_node_collect_text n h el)
        else False)"

definition ns_el_is_blank :: "nat \<Rightarrow> dom \<Rightarrow> nat \<Rightarrow> bool" where
  "ns_el_is_blank n h el =
     (if named h el (Some ''input'') then
        ns_input_is_text_entry h el \<and> node_attr h el ''value'' \<in> {None, Some []}
      else named h el (Some ''textarea'') \<and> list_all is_ws (ns_node_collect_text n h el))"

definition ns_el_is_empty :: "nat \<Rightarrow> dom \<Rightarrow> nat \<Rightarrow> bool" where
  "ns_el_is_empty n h el =
     list_all (\<lambda>c. case h c of None \<Rightarrow> True
         | Some nd \<Rightarrow> nd_kind nd \<noteq> NodeElement
             \<and> \<not> (nd_kind nd = NodeText \<and> nd_text nd \<noteq> None \<and> until_nul (the (nd_text nd)) \<noteq> []))
       (children n h el)"

definition ns_el_is_link :: "dom \<Rightarrow> nat \<Rightarrow> bool" where
  "ns_el_is_link h el =
     (has_attr h el ''href'' \<and> (named h el (Some ''a'') \<or> named h el (Some ''area'')))"

definition ns_el_is_visited_link :: "css_env \<Rightarrow> dom \<Rightarrow> nat \<Rightarrow> bool" where
  "ns_el_is_visited_link env h el =
     (case ce_base env of None \<Rightarrow> False
      | Some base \<Rightarrow>
        if \<not> ns_el_is_link h el then False
        else (case node_attr h el ''href'' of None \<Rightarrow> False
          | Some href \<Rightarrow>
            if href = [] then False
            else (case ce_resolve env base href of None \<Rightarrow> False | Some u \<Rightarrow> u \<in> set (ce_visited env))))"

definition ns_css_node_is_target :: "css_env \<Rightarrow> dom \<Rightarrow> nat \<Rightarrow> bool" where
  "ns_css_node_is_target env h el =
     (case ce_target env of None \<Rightarrow> False
      | Some t \<Rightarrow> node_attr h el ''id'' = Some t
          \<or> (attr_is (node_name h el) [''a''] \<and> node_attr h el ''name'' = Some t))"

function ns_css_node_has_target_within :: "css_env \<Rightarrow> nat \<Rightarrow> dom \<Rightarrow> nat \<Rightarrow> nat \<Rightarrow> bool" where
  "ns_css_node_has_target_within env n h el depth =
     (if 512 \<le> depth then False
      else if is_element h el \<and> ns_css_node_is_target env h el then True
      else if named h el (Some ''template'') then False
      else list_ex (\<lambda>c. ns_css_node_has_target_within env n h c (depth + 1)) (children n h el))"
  by pat_completeness auto
termination by (relation "measure (\<lambda>(e, n, h, el, d). 512 - d)") auto

declare ns_css_node_has_target_within.simps [simp del]

definition ns_css_is_defined_element :: "css_env \<Rightarrow> string \<Rightarrow> bool" where
  "ns_css_is_defined_element env tag = (strdown tag \<in> set (ce_defined env))"

text \<open>\<open>ns_parse_int\<close> clamps the number of \<open>anb_int_strict\<close> to a million either way.\<close>

definition anb_int_strict :: "string \<Rightarrow> int option" where
  "anb_int_strict s =
     (let neg = (take 1 s = ''-''); d = (if take 1 s = ''+'' \<or> neg then drop 1 s else s)
      in if d = [] \<or> \<not> list_all ascii_isdigit d then None
         else let v = int (digits_value 0 d); w = (if neg then - v else v)
              in Some (max (- 1000000) (min 1000000 w)))"

definition heading_level :: "dom \<Rightarrow> nat \<Rightarrow> int" where
  "heading_level h el =
     (case node_name h el of
        Some [c, d] \<Rightarrow> if c = CHR ''h'' \<and> 49 \<le> code d \<and> code d \<le> 54 then int (code d) - 48 else 0
      | _ \<Rightarrow> 0)"

definition media_element :: "dom \<Rightarrow> nat \<Rightarrow> bool" where
  "media_element h el = (named h el (Some ''video'') \<or> named h el (Some ''audio''))"
text \<open>The cases of the switch that look at the element alone. The four \<open>:nth\<close> cases come
  with the matcher.\<close>

definition prev_siblings :: "nat \<Rightarrow> dom \<Rightarrow> nat \<Rightarrow> nat list" where
  "prev_siblings n h el = follow n nd_prev_sibling h (ptr nd_prev_sibling h el)"

definition next_siblings :: "nat \<Rightarrow> dom \<Rightarrow> nat \<Rightarrow> nat list" where
  "next_siblings n h el = follow n nd_next_sibling h (ptr nd_next_sibling h el)"

definition same_type_in :: "dom \<Rightarrow> nat \<Rightarrow> nat list \<Rightarrow> bool" where
  "same_type_in h el xs = list_ex (\<lambda>s. named h s (node_name h el)) xs"

definition pseudo_matches ::
    "css_env \<Rightarrow> nat \<Rightarrow> dom \<Rightarrow> ns_css_pseudo \<Rightarrow> cptr \<Rightarrow> nat option \<Rightarrow> nat \<Rightarrow> bool" where
  "pseudo_matches env n h k arg scope el =
     (case k of
        PcFirstChild \<Rightarrow> \<not> list_ex (is_element h) (prev_siblings n h el)
      | PcLastChild \<Rightarrow> \<not> list_ex (is_element h) (next_siblings n h el)
      | PcOnlyChild \<Rightarrow> \<not> list_ex (is_element h) (prev_siblings n h el)
          \<and> \<not> list_ex (is_element h) (next_siblings n h el)
      | PcOnlyOfType \<Rightarrow> node_name h el \<noteq> None \<and> \<not> same_type_in h el (prev_siblings n h el)
          \<and> \<not> same_type_in h el (next_siblings n h el)
      | PcFirstOfType \<Rightarrow> node_name h el \<noteq> None \<and> \<not> same_type_in h el (prev_siblings n h el)
      | PcLastOfType \<Rightarrow> node_name h el \<noteq> None \<and> \<not> same_type_in h el (next_siblings n h el)
      | PcEmpty \<Rightarrow> ns_el_is_empty n h el
      | PcRoot \<Rightarrow> (case ptr nd_parent h el of None \<Rightarrow> False
          | Some p \<Rightarrow> is_document h p \<and> FlagFragment \<notin> node_flags h p)
      | PcScope \<Rightarrow> (case scope of Some s \<Rightarrow> el = s
          | None \<Rightarrow> (case ptr nd_parent h el of None \<Rightarrow> True | Some p \<Rightarrow> \<not> is_element h p))
      | PcDisabled \<Rightarrow> ns_element_supports_disabled h el \<and> ns_element_effectively_disabled n h el
      | PcEnabled \<Rightarrow> ns_element_supports_disabled h el \<and> \<not> ns_element_effectively_disabled n h el
      | PcRequired \<Rightarrow> ns_form_control_supports_required h el \<and> has_attr h el ''required''
      | PcOptional \<Rightarrow> ns_form_control_supports_required h el \<and> \<not> has_attr h el ''required''
      | PcAnyLink \<Rightarrow> ns_el_is_link h el
      | PcLink \<Rightarrow> ns_el_is_link h el \<and> \<not> ns_el_is_visited_link env h el
      | PcVisited \<Rightarrow> ns_el_is_visited_link env h el
      | PcHover \<Rightarrow> ns_node_contains n h el (ce_hover env)
      | PcActive \<Rightarrow> ns_node_contains n h el (ce_active env)
      | PcFocus \<Rightarrow> ce_focus env = Some el
      | PcFocusWithin \<Rightarrow> ns_node_contains n h el (ce_focus env)
      | PcTarget \<Rightarrow> ns_css_node_is_target env h el
      | PcTargetWithin \<Rightarrow> ce_target env \<noteq> None \<and> ns_css_node_has_target_within env n h el 0
      | PcDefined \<Rightarrow> (case node_name h el of None \<Rightarrow> False
          | Some t \<Rightarrow> CHR ''-'' \<notin> set t \<or> ns_css_is_defined_element env t)
      | PcPlaceholderShown \<Rightarrow> ns_el_placeholder_shown n h el
      | PcReadWrite \<Rightarrow> ns_el_is_read_write n h el
      | PcReadOnly \<Rightarrow> \<not> ns_el_is_read_write n h el
      | PcBlank \<Rightarrow> ns_el_is_blank n h el
      | PcOpen \<Rightarrow> (named h el (Some ''details'') \<or> named h el (Some ''dialog'')) \<and> has_attr h el ''open''
      | PcPopoverOpen \<Rightarrow> has_attr h el ''popover'' \<and> has_attr h el ''data-nd-popover-open''
      | PcModal \<Rightarrow> ce_modal env = Some el
      | PcFullscreen \<Rightarrow> ce_fullscreen env = Some el
      | PcHeading \<Rightarrow> heading_level h el \<noteq> 0
          \<and> (case arg of None \<Rightarrow> True
             | Some s \<Rightarrow> list_ex (\<lambda>w. anb_int_strict (strstrip w) = Some (heading_level h el)) (strsplit CHR '','' s))
      | PcAutofill \<Rightarrow> has_attr h el ''autofill'' \<or> has_attr h el ''data-nd-autofill''
      | PcPlaying \<Rightarrow> media_element h el \<and> has_attr h el ''data-nd-playing''
      | PcPaused \<Rightarrow> media_element h el \<and> \<not> has_attr h el ''data-nd-playing''
      | PcMuted \<Rightarrow> media_element h el \<and> (has_attr h el ''muted'' \<or> has_attr h el ''data-nd-muted'')
      | PcSeeking \<Rightarrow> media_element h el \<and> has_attr h el ''data-nd-seeking''
      | PcBuffering \<Rightarrow> media_element h el \<and> has_attr h el ''data-nd-buffering''
      | PcStalled \<Rightarrow> media_element h el \<and> has_attr h el ''data-nd-stalled''
      | _ \<Rightarrow> ce_query env k arg el)"

section \<open>Searching with a counter\<close>

text \<open>A question is a function of the counter of match steps; it gives the answer and the
  counter after it.\<close>

type_synonym question = "nat \<Rightarrow> bool \<times> nat"

definition ns_sel_match_budget :: nat where "ns_sel_match_budget = 8000000"

fun any_of :: "question list \<Rightarrow> question" where
  "any_of [] ops = (False, ops)"
| "any_of (q # qs) ops = (let (b, o1) = q ops in if b then (True, o1) else any_of qs o1)"

fun all_of :: "question list \<Rightarrow> question" where
  "all_of [] ops = (True, ops)"
| "all_of (q # qs) ops = (let (b, o1) = q ops in if b then all_of qs o1 else (False, o1))"

definition not_of :: "question \<Rightarrow> question" where
  "not_of q ops = (let (b, o1) = q ops in (\<not> b, o1))"

fun count_of :: "question list \<Rightarrow> nat \<Rightarrow> nat \<times> nat" where
  "count_of [] ops = (0, ops)"
| "count_of (q # qs) ops =
     (let (b, o1) = q ops; (c, o2) = count_of qs o1 in (if b then Suc c else c, o2))"

text \<open>A step of the search counts, and beyond the budget it answers no.\<close>

definition counted :: "question \<Rightarrow> question" where
  "counted q ops = (if ns_sel_match_budget < ops + 1 then (False, ops + 1) else q (ops + 1))"

text \<open>The loops that stop with no as soon as the budget is exceeded.\<close>

fun search :: "question list \<Rightarrow> question" where
  "search [] ops = (False, ops)"
| "search (q # qs) ops =
     (if ns_sel_match_budget < ops + 1 then (False, ops + 1)
      else let (b, o1) = q (ops + 1) in if b then (True, o1) else search qs o1)"

section \<open>Combinators\<close>

text \<open>A compound selector as a question about a node.\<close>

type_synonym matcher = "nat \<Rightarrow> question"

fun match_complex_chain :: "nat \<Rightarrow> dom \<Rightarrow> matcher list \<Rightarrow> ns_css_comb list \<Rightarrow> nat \<Rightarrow> nat \<Rightarrow> question" where
  "match_complex_chain n h ms cs 0 cur = (\<lambda>ops. (True, ops))"
| "match_complex_chain n h ms cs (Suc i) cur =
     (let step = (\<lambda>x. all_of [(ms ! i) x, match_complex_chain n h ms cs i x])
      in case cs ! Suc i of
           CombChild \<Rightarrow> counted (case ptr nd_parent h cur of None \<Rightarrow> (\<lambda>ops. (False, ops)) | Some p \<Rightarrow> step p)
         | CombAdjacent \<Rightarrow> counted (case find (is_element h) (prev_siblings n h cur) of
               None \<Rightarrow> (\<lambda>ops. (False, ops)) | Some s \<Rightarrow> step s)
         | CombSibling \<Rightarrow> search (map (\<lambda>s. if is_element h s then step s else (\<lambda>ops. (False, ops)))
               (follow ns_dom_max_depth nd_prev_sibling h (ptr nd_prev_sibling h cur)))
         | _ \<Rightarrow> search (map step (takeWhile (\<lambda>p. \<not> is_document h p)
               (follow ns_dom_max_depth nd_parent h (ptr nd_parent h cur)))))"

text \<open>\<open>:has\<close>: the compounds of a relative selector, matched downwards from the anchor.
  \<open>fs\<close> tells which of them contain \<open>:scope\<close>. The answers count the depth of the
  recursion, which ends at 512.\<close>

definition has_simple_scope_pseudo :: "ns_css_simple \<Rightarrow> bool" where
  "has_simple_scope_pseudo c = list_ex (\<lambda>p. pp_kind p = PcScope) (cs_pseudos c)"

definition relative_try_candidate :: "dom \<Rightarrow> matcher \<Rightarrow> matcher \<Rightarrow> matcher" where
  "relative_try_candidate h m next c =
     (if is_element h c then all_of [m c, next c] else (\<lambda>ops. (False, ops)))"

text \<open>\<open>relative_descendant_matches\<close>, with the candidate test as a function of the depth.\<close>

function relative_descendant_matches :: "nat \<Rightarrow> dom \<Rightarrow> (nat \<Rightarrow> matcher) \<Rightarrow> nat \<Rightarrow> nat \<Rightarrow> question" where
  "relative_descendant_matches n h cand base depth =
     (if 512 \<le> depth then (\<lambda>ops. (False, ops))
      else any_of (map (\<lambda>c. if is_element h c
             then any_of [cand depth c, relative_descendant_matches n h cand c (depth + 1)]
             else (\<lambda>ops. (False, ops)))
           (children n h base)))"
  by pat_completeness auto
termination by (relation "measure (\<lambda>(n, h, cand, b, d). 512 - d)") auto

declare relative_descendant_matches.simps [simp del]

text \<open>The compounds still to match are the list; \<open>first\<close> marks the beginning of the
  chain, where no combinator means descendant of the anchor.\<close>

fun relative_chain_matches ::
    "nat \<Rightarrow> dom \<Rightarrow> nat \<Rightarrow> bool \<Rightarrow> (matcher \<times> ns_css_comb \<times> bool) list \<Rightarrow> nat \<Rightarrow> nat \<Rightarrow> question" where
  "relative_chain_matches n h anchor first [] base depth = (\<lambda>ops. (depth < 512, ops))"
| "relative_chain_matches n h anchor first ((m, comb, scoped) # rest) base depth =
     (if 512 \<le> depth then (\<lambda>ops. (False, ops))
      else
        let cand = (\<lambda>d. relative_try_candidate h m (\<lambda>c. relative_chain_matches n h anchor False rest c (d + 1)))
        in if first \<and> comb \<in> {CombNone, CombDescendant} then
             any_of [if scoped then cand depth anchor else (\<lambda>ops. (False, ops)),
                     relative_descendant_matches n h cand anchor (depth + 1)]
           else
             case comb of
               CombChild \<Rightarrow> any_of (map (cand depth) (children n h base))
             | CombAdjacent \<Rightarrow> (case find (is_element h) (next_siblings n h base) of
                   None \<Rightarrow> (\<lambda>ops. (False, ops)) | Some s \<Rightarrow> cand depth s)
             | CombSibling \<Rightarrow> any_of (map (cand depth) (filter (is_element h) (next_siblings n h base)))
             | _ \<Rightarrow> relative_descendant_matches n h cand base (depth + 1))"

section \<open>The matcher\<close>

text \<open>The tests of a compound that need no search.\<close>

definition simple_matches :: "dom \<Rightarrow> nat \<Rightarrow> cptr \<Rightarrow> cptr \<Rightarrow> string list \<Rightarrow> ns_css_attr_pred list \<Rightarrow> bool \<Rightarrow> bool" where
  "simple_matches h el ty i cls attrs nsn =
     (case h el of None \<Rightarrow> False
      | Some n \<Rightarrow>
        nd_kind n = NodeElement
        \<and> (nsn \<longrightarrow> FlagForeignNs \<in> nd_flags n \<and> FlagSvgNs \<notin> nd_flags n
              \<and> ns_element_get_attr n (Some ''data-nd-ns-uri'') = None)
        \<and> (case ty of None \<Rightarrow> True
           | Some t \<Rightarrow> t = ''*'' \<or> (case nd_name n of None \<Rightarrow> False
               | Some name \<Rightarrow>
                 if FlagSvgNs \<in> nd_flags n \<or> FlagForeignNs \<in> nd_flags n then t = name
                 else strdown (take 1 name) = strdown (take 1 t) \<and> strcaseeq t name))
        \<and> (case i of None \<Rightarrow> True | Some w \<Rightarrow> ns_element_get_attr n (Some ''id'') = Some w)
        \<and> list_all (\<lambda>c. fst (ns_node_has_class n c)) cls
        \<and> list_all (attr_pred_matches h el) attrs)"

definition is_nth :: "ns_css_pseudo \<Rightarrow> bool" where
  "is_nth k = (k \<in> {PcNthChild, PcNthLastChild, PcNthOfType, PcNthLastOfType})"

text \<open>The siblings \<open>:nth\<close> counts: those on one side, of the type, matching the list after
  \<open>of\<close>.\<close>

definition nth_candidates :: "nat \<Rightarrow> dom \<Rightarrow> ns_css_pseudo \<Rightarrow> nat \<Rightarrow> nat list" where
  "nth_candidates n h k el =
     filter (\<lambda>s. is_element h s
         \<and> (k \<in> {PcNthOfType, PcNthLastOfType} \<longrightarrow> node_name h el \<noteq> None \<and> named h s (node_name h el)))
       (if k \<in> {PcNthLastChild, PcNthLastOfType} then next_siblings n h el else prev_siblings n h el)"

definition ns_css_sibling_counts_for_nth ::
    "nat \<Rightarrow> dom \<Rightarrow> ns_css_pseudo \<Rightarrow> matcher list option \<Rightarrow> nat \<Rightarrow> nat \<Rightarrow> int option \<times> nat" where
  "ns_css_sibling_counts_for_nth n h k of_group el ops =
     (case of_group of
        None \<Rightarrow> (Some (1 + int (length (nth_candidates n h k el))), ops)
      | Some g \<Rightarrow>
        let (c, o1) = count_of (map (\<lambda>s. any_of (map (\<lambda>m. m s) g)) (nth_candidates n h k el)) ops;
            (b, o2) = any_of (map (\<lambda>m. m el) g) o1
        in (if b then Some (1 + int c) else None, o2))"

definition nth_index_matches :: "int \<Rightarrow> int \<Rightarrow> int \<Rightarrow> bool" where
  "nth_index_matches a b idx =
     (if a = 0 then idx = b else (idx - b) smod a = 0 \<and> \<not> (idx - b) sdiv a < 0)"

lemma size_member: "x \<in> set xs \<Longrightarrow> size x < Suc (size_list size xs)"
  by (simp add: less_Suc_eq_le size_list_estimation')

lemma size_group: "x \<in> set g \<Longrightarrow> g \<in> set gs \<Longrightarrow> size x < Suc (size_list (size_list size) gs)"
  by (simp add: less_Suc_eq_le) (meson order.refl size_list_estimation')

function match_simple :: "css_env \<Rightarrow> nat \<Rightarrow> dom \<Rightarrow> ns_css_simple \<Rightarrow> nat option \<Rightarrow> matcher"
  and match_pseudo :: "css_env \<Rightarrow> nat \<Rightarrow> dom \<Rightarrow> ns_css_pseudo_pred \<Rightarrow> nat option \<Rightarrow> matcher"
  and match_selector :: "css_env \<Rightarrow> nat \<Rightarrow> dom \<Rightarrow> ns_css_selector \<Rightarrow> nat option \<Rightarrow> matcher"
  and has_relative_matches :: "css_env \<Rightarrow> nat \<Rightarrow> dom \<Rightarrow> ns_css_selector \<Rightarrow> nat option \<Rightarrow> matcher"
where
  "match_simple env n h (CssSimple ty i cls attrs pps anyg noneg hasg never nsn) scope el =
     (if never \<or> \<not> simple_matches h el ty i cls attrs nsn then (\<lambda>ops. (False, ops))
      else all_of
        (map (\<lambda>p. match_pseudo env n h p scope el) pps
         @ map (\<lambda>g. any_of (map (\<lambda>s. match_selector env n h s scope el) g)) anyg
         @ map (\<lambda>g. not_of (any_of (map (\<lambda>s. match_selector env n h s scope el) g))) noneg
         @ map (\<lambda>g. any_of (map (\<lambda>s. has_relative_matches env n h s scope el) g)) hasg))"
| "match_pseudo env n h (CssPseudo k a b arg ofg) scope el =
     (\<lambda>ops. if is_nth k then
          (let (idx, o1) = ns_css_sibling_counts_for_nth n h k
               (map_option (map (\<lambda>s x. match_selector env n h s scope x)) ofg) el ops
           in (case idx of None \<Rightarrow> False | Some j \<Rightarrow> nth_index_matches a b j, o1))
        else (pseudo_matches env n h k arg scope el, ops))"
| "match_selector env n h (CssSelector comps combs pe sa sb sc) scope el =
     (if pe \<noteq> PeNone \<or> comps = [] then (\<lambda>ops. (False, ops))
      else
        let ms = map (\<lambda>c x. match_simple env n h c scope x) comps; i = length comps - 1
        in all_of [(ms ! i) el, match_complex_chain n h ms combs i el])"
| "has_relative_matches env n h (CssSelector comps combs pe sa sb sc) scope anchor =
     (if pe \<noteq> PeNone then (\<lambda>ops. (False, ops))
      else
        let sc' = (case scope of Some s \<Rightarrow> Some s | None \<Rightarrow> Some anchor);
            ms = map (\<lambda>c x. match_simple env n h c sc' x) comps
        in relative_chain_matches n h anchor True (zip ms (zip combs (map has_simple_scope_pseudo comps))) anchor 0)"
  by pat_completeness auto

termination
proof (relation "measure (case_sum
        (case_sum (\<lambda>(env, n, h, c, sc, x). size c) (\<lambda>(env, n, h, p, sc, x). size p))
        (case_sum (\<lambda>(env, n, h, s, sc, x). size s) (\<lambda>(env, n, h, s, sc, x). size s)))",
    simp_all, goal_cases)
  case (1 h ty i cls attrs pps anyg noneg hasg never nsn el x)
  then show ?case using size_member [of x pps] by simp
next
  case (2 h ty i cls attrs pps anyg noneg hasg never nsn el g x)
  then show ?case using size_group [of x g anyg] by simp
next
  case (3 h ty i cls attrs pps anyg noneg hasg never nsn el g x)
  then show ?case using size_group [of x g noneg] by simp
next
  case (4 h ty i cls attrs pps anyg noneg hasg never nsn el g x)
  then show ?case using size_group [of x g hasg] by simp
next
  case (5 k ofg g x)
  then show ?case using size_member [of x g] by simp
qed (rule size_member, assumption)+

declare match_simple.simps [simp del] match_pseudo.simps [simp del] match_selector.simps [simp del]
  has_relative_matches.simps [simp del]

text \<open>\<open>ns_css_selector_matches\<close> starts with the counter at zero.\<close>

definition ns_css_selector_matches :: "css_env \<Rightarrow> nat \<Rightarrow> dom \<Rightarrow> ns_css_selector \<Rightarrow> nat option \<Rightarrow> nat \<Rightarrow> bool" where
  "ns_css_selector_matches env n h sel scope el = fst (match_selector env n h sel scope el 0)"

end
