(* ===== verification/Css_Match.thy ===== *)
theory Css_Match
  imports Css_Select
begin

text \<open>
  What selectors mean, and that the matcher of \<open>Css_Select\<close> computes it. The meaning is
  that of the standard: a complex selector matches an element if the compounds can be
  given to nodes, the last one to the element, so that neighbours stand in the relation
  of their combinator; the relations are about the lists of children, not about the way
  the code walks them.
\<close>

section \<open>The meaning of selectors\<close>

definition fold_case :: "bool \<Rightarrow> string \<Rightarrow> string" where
  "fold_case ci s = (if ci then strdown s else s)"

definition value_holds :: "ns_css_attr_op \<Rightarrow> string \<Rightarrow> string \<Rightarrow> bool" where
  "value_holds op v w =
     (case op of
        AttrPresent \<Rightarrow> True
      | AttrEq \<Rightarrow> v = w
      | AttrPrefix \<Rightarrow> w \<noteq> [] \<and> (\<exists>r. v = w @ r)
      | AttrSuffix \<Rightarrow> w \<noteq> [] \<and> (\<exists>r. v = r @ w)
      | AttrSubstr \<Rightarrow> w \<noteq> [] \<and> (\<exists>l r. v = l @ w @ r)
      | AttrWord \<Rightarrow> w \<in> set (split_on is_ws v)
      | AttrHyphen \<Rightarrow> v = w \<or> (\<exists>r. v = w @ CHR ''-'' # r))"

definition attr_holds :: "dom \<Rightarrow> nat \<Rightarrow> ns_css_attr_pred \<Rightarrow> bool" where
  "attr_holds h el a =
     (let html_doc = (node_flags h el \<inter> {FlagForeignNs, FlagSvgNs, FlagXmlDoc} = {});
          ci = (ap_ci a \<or> (\<not> ap_cs a \<and> html_doc \<and> ns_css_html_ci_attr (ap_name a)))
      in case (node_attr h el (ap_name a), ap_value a) of
           (None, _) \<Rightarrow> False
         | (Some v, None) \<Rightarrow> ap_op a = AttrPresent
         | (Some v, Some w) \<Rightarrow> value_holds (ap_op a) (fold_case ci v) (fold_case ci w))"

definition type_holds :: "dom \<Rightarrow> nat \<Rightarrow> cptr \<Rightarrow> bool" where
  "type_holds h el ty =
     (ty = None \<or> ty = Some ''*'' \<or>
      (\<exists>t name. ty = Some t \<and> node_name h el = Some name \<and>
         (if node_flags h el \<inter> {FlagForeignNs, FlagSvgNs} = {} then strdown t = strdown name else t = name)))"

definition null_namespace :: "dom \<Rightarrow> nat \<Rightarrow> bool" where
  "null_namespace h el =
     (FlagForeignNs \<in> node_flags h el \<and> FlagSvgNs \<notin> node_flags h el \<and> \<not> has_attr h el ''data-nd-ns-uri'')"

fun comb_rel :: "dom \<Rightarrow> (nat \<Rightarrow> nat list) \<Rightarrow> ns_css_comb \<Rightarrow> nat \<Rightarrow> nat \<Rightarrow> bool" where
  "comb_rel h ch CombChild a b = (b \<in> set (ch a))"
| "comb_rel h ch CombAdjacent a b =
     (\<exists>p us vs ws. ch p = us @ a # vs @ b # ws \<and> list_all (\<lambda>v. \<not> is_element h v) vs)"
| "comb_rel h ch CombSibling a b = (\<exists>p us vs ws. ch p = us @ a # vs @ b # ws)"
| "comb_rel h ch _ a b = (\<lambda>p c. c \<in> set (ch p) \<and> \<not> is_document h p)\<^sup>+\<^sup>+ a b"

definition before :: "dom \<Rightarrow> (nat \<Rightarrow> nat list) \<Rightarrow> nat \<Rightarrow> nat list" where
  "before h ch el = (case ptr nd_parent h el of None \<Rightarrow> [] | Some p \<Rightarrow> takeWhile (\<lambda>x. x \<noteq> el) (ch p))"

definition after :: "dom \<Rightarrow> (nat \<Rightarrow> nat list) \<Rightarrow> nat \<Rightarrow> nat list" where
  "after h ch el = (case ptr nd_parent h el of None \<Rightarrow> [] | Some p \<Rightarrow> tl (dropWhile (\<lambda>x. x \<noteq> el) (ch p)))"

text \<open>The siblings \<open>:nth\<close> counts.\<close>

definition counted_siblings :: "dom \<Rightarrow> (nat \<Rightarrow> nat list) \<Rightarrow> ns_css_pseudo \<Rightarrow> nat \<Rightarrow> nat list" where
  "counted_siblings h ch k el =
     filter (\<lambda>s. is_element h s
         \<and> (k \<in> {PcNthOfType, PcNthLastOfType} \<longrightarrow> node_name h el \<noteq> None \<and> named h s (node_name h el)))
       (if k \<in> {PcNthLastChild, PcNthLastOfType} then after h ch el else before h ch el)"

definition pseudo_means :: "css_env \<Rightarrow> nat \<Rightarrow> dom \<Rightarrow> (nat \<Rightarrow> nat list) \<Rightarrow> ns_css_pseudo \<Rightarrow> cptr \<Rightarrow> nat option \<Rightarrow> nat \<Rightarrow> bool" where
  "pseudo_means env n h ch k arg scope el =
     (case k of
        PcFirstChild \<Rightarrow> filter (is_element h) (before h ch el) = []
      | PcLastChild \<Rightarrow> filter (is_element h) (after h ch el) = []
      | PcOnlyChild \<Rightarrow> filter (is_element h) (before h ch el @ after h ch el) = []
      | PcFirstOfType \<Rightarrow> node_name h el \<noteq> None \<and> filter (\<lambda>s. named h s (node_name h el)) (before h ch el) = []
      | PcLastOfType \<Rightarrow> node_name h el \<noteq> None \<and> filter (\<lambda>s. named h s (node_name h el)) (after h ch el) = []
      | PcOnlyOfType \<Rightarrow> node_name h el \<noteq> None
          \<and> filter (\<lambda>s. named h s (node_name h el)) (before h ch el @ after h ch el) = []
      | _ \<Rightarrow> pseudo_matches env n h k arg scope el)"

primrec simple_holds :: "css_env \<Rightarrow> nat \<Rightarrow> dom \<Rightarrow> (nat \<Rightarrow> nat list) \<Rightarrow> ns_css_simple \<Rightarrow> nat option \<Rightarrow> nat \<Rightarrow> bool"
  and pseudo_holds :: "css_env \<Rightarrow> nat \<Rightarrow> dom \<Rightarrow> (nat \<Rightarrow> nat list) \<Rightarrow> ns_css_pseudo_pred \<Rightarrow> nat option \<Rightarrow> nat \<Rightarrow> bool"
  and selector_holds ::
    "css_env \<Rightarrow> nat \<Rightarrow> dom \<Rightarrow> (nat \<Rightarrow> nat list) \<Rightarrow> ns_css_selector \<Rightarrow> bool \<Rightarrow> nat option \<Rightarrow> nat \<Rightarrow> bool"
where
  "simple_holds env n h ch (CssSimple ty i cls attrs pps anyg noneg hasg never nsn) =
     (\<lambda>scope el. \<not> never \<and> is_element h el \<and> type_holds h el ty \<and> (nsn \<longrightarrow> null_namespace h el)
        \<and> (i \<noteq> None \<longrightarrow> node_attr h el ''id'' = i)
        \<and> list_all (\<lambda>c. c \<in> set (class_tokens (the (h el)))) cls
        \<and> list_all (attr_holds h el) attrs
        \<and> list_all (\<lambda>P. P scope el) (map (pseudo_holds env n h ch) pps)
        \<and> list_all (\<lambda>g. list_ex (\<lambda>P. P False scope el) g) (map (map (selector_holds env n h ch)) anyg)
        \<and> list_all (\<lambda>g. \<not> list_ex (\<lambda>P. P False scope el) g) (map (map (selector_holds env n h ch)) noneg)
        \<and> list_all (\<lambda>g. list_ex (\<lambda>P. P True scope el) g) (map (map (selector_holds env n h ch)) hasg))"
| "pseudo_holds env n h ch (CssPseudo k a b arg ofg) =
     (\<lambda>scope el.
        if is_nth k then
          (let good = (\<lambda>x. case map_option (map (selector_holds env n h ch)) ofg of
                 None \<Rightarrow> True | Some g \<Rightarrow> list_ex (\<lambda>P. P False scope x) g)
           in good el \<and> (\<exists>j::nat. 1 + int (length (filter good (counted_siblings h ch k el))) = a * int j + b))
        else pseudo_means env n h ch k arg scope el)"
| "selector_holds env n h ch (CssSelector comps combs pe sa sb sc) =
     (\<lambda>relative scope el.
        pe = PeNone \<and>
        (if relative then
           \<exists>ns. list_all2 (\<lambda>P x. P (Some (case scope of Some s \<Rightarrow> s | None \<Rightarrow> el)) x)
                  (map (simple_holds env n h ch) comps) ns
             \<and> (\<forall>i < length ns. comb_rel h ch (combs ! i) ((el # ns) ! i) (ns ! i)
                  \<or> (i = 0 \<and> combs ! 0 \<in> {CombNone, CombDescendant} \<and> ns ! 0 = el
                     \<and> has_simple_scope_pseudo (comps ! 0)))
         else
           \<exists>ns. list_all2 (\<lambda>P x. P scope x) (map (simple_holds env n h ch) comps) ns \<and> ns \<noteq> [] \<and> last ns = el
             \<and> (\<forall>i. Suc i < length ns \<longrightarrow> comb_rel h ch (combs ! Suc i) (ns ! i) (ns ! Suc i))))"

section \<open>Questions and answers\<close>

text \<open>A question answers a proposition: the counter never goes down, and if it ends within
  the budget, the answer is right.\<close>

definition answers :: "question \<Rightarrow> bool \<Rightarrow> bool" where
  "answers q P =
     (\<forall>ops. ops \<le> snd (q ops) \<and> (snd (q ops) \<le> ns_sel_match_budget \<longrightarrow> fst (q ops) = P))"

named_theorems answering \<open>propositions answered by combined questions\<close>

lemma answersD:
  assumes "answers q P"
  shows "ops \<le> snd (q ops)" "snd (q ops) \<le> ns_sel_match_budget \<Longrightarrow> fst (q ops) = P"
  using assms by (auto simp: answers_def)

lemma answers_const [answering]: "answers (\<lambda>ops. (P, ops)) P"
  by (simp add: answers_def)

lemma answers_two:
  assumes "answers q P" "answers r Q"
  shows "answers (\<lambda>ops. let (b, o1) = q ops in if b then (True, o1) else r o1) (P \<or> Q)"
    "answers (\<lambda>ops. let (b, o1) = q ops in if b then r o1 else (False, o1)) (P \<and> Q)"
proof -
  have *: "ops \<le> snd (q ops)" "snd (q ops) \<le> ns_sel_match_budget \<Longrightarrow> fst (q ops) = P"
    "ops \<le> snd (r ops)" "snd (r ops) \<le> ns_sel_match_budget \<Longrightarrow> fst (r ops) = Q" for ops
    using assms by (auto dest: answersD)
  show "answers (\<lambda>ops. let (b, o1) = q ops in if b then (True, o1) else r o1) (P \<or> Q)"
    "answers (\<lambda>ops. let (b, o1) = q ops in if b then r o1 else (False, o1)) (P \<and> Q)"
    unfolding answers_def using * by (auto simp: split_beta Let_def intro: order_trans) (meson order_trans *)+
qed

lemma answers_any [answering]:
  "(\<And>x. x \<in> set xs \<Longrightarrow> answers (f x) (P x)) \<Longrightarrow> answers (any_of (map f xs)) (\<exists>x\<in>set xs. P x)"
proof (induction xs)
  case (Cons x xs)
  have "any_of (map f (x # xs)) = (\<lambda>ops. let (b, o1) = f x ops in if b then (True, o1) else any_of (map f xs) o1)"
    by (simp add: fun_eq_iff)
  then show ?case using answers_two(1) [OF Cons.prems [of x] Cons.IH] Cons.prems by simp
qed (simp add: answers_def)

lemma answers_all [answering]:
  "(\<And>x. x \<in> set xs \<Longrightarrow> answers (f x) (P x)) \<Longrightarrow> answers (all_of (map f xs)) (\<forall>x\<in>set xs. P x)"
proof (induction xs)
  case (Cons x xs)
  have "all_of (map f (x # xs)) = (\<lambda>ops. let (b, o1) = f x ops in if b then all_of (map f xs) o1 else (False, o1))"
    by (simp add: fun_eq_iff)
  then show ?case using answers_two(2) [OF Cons.prems [of x] Cons.IH] Cons.prems by simp
qed (simp add: answers_def)

lemma answers_append:
  assumes "answers (all_of qs) P" "answers (all_of rs) Q"
  shows "answers (all_of (qs @ rs)) (P \<and> Q)"
proof -
  have "all_of (qs @ rs) = (\<lambda>ops. let (b, o1) = all_of qs ops in if b then all_of rs o1 else (False, o1))"
    by (rule ext, induct qs) (auto simp: split_beta Let_def)
  then show ?thesis using answers_two(2) [OF assms] by simp
qed

lemma answers_pair [answering]:
  assumes "answers q P" "answers r Q"
  shows "answers (all_of [q, r]) (P \<and> Q)" "answers (any_of [q, r]) (P \<or> Q)"
proof -
  have "all_of [q, r] = (\<lambda>ops. let (b, o1) = q ops in if b then r o1 else (False, o1))"
    "any_of [q, r] = (\<lambda>ops. let (b, o1) = q ops in if b then (True, o1) else r o1)"
    by (auto simp: fun_eq_iff split_beta Let_def prod_eq_iff)
  then show "answers (all_of [q, r]) (P \<and> Q)" "answers (any_of [q, r]) (P \<or> Q)"
    using answers_two [OF assms] by simp_all
qed

lemma answers_not [answering]: "answers q P \<Longrightarrow> answers (not_of q) (\<not> P)"
  by (auto simp: answers_def not_of_def split_beta Let_def)

lemma answers_counted [answering]: "answers q P \<Longrightarrow> answers (counted q) P"
  unfolding answers_def counted_def by (auto simp: Suc_le_eq intro: less_imp_le)
    (metis Suc_leD le_trans)+

lemma search_counted: "answers q P \<Longrightarrow> answers r Q \<Longrightarrow>
    answers (\<lambda>ops. if ns_sel_match_budget < ops + 1 then (False, ops + 1)
      else let (b, o1) = q (ops + 1) in if b then (True, o1) else r o1) (P \<or> Q)"
proof -
  assume "answers q P" "answers r Q"
  from answers_counted [OF answers_two(1) [OF this]] show ?thesis
    by (simp only: counted_def [abs_def])
qed

lemma answers_search [answering]:
  "(\<And>x. x \<in> set xs \<Longrightarrow> answers (f x) (P x)) \<Longrightarrow> answers (search (map f xs)) (\<exists>x\<in>set xs. P x)"
proof (induction xs)
  case (Cons x xs)
  have "search (map f (x # xs)) = (\<lambda>ops. if ns_sel_match_budget < ops + 1 then (False, ops + 1)
      else let (b, o1) = f x (ops + 1) in if b then (True, o1) else search (map f xs) o1)"
    by (simp add: fun_eq_iff)
  then show ?case using search_counted [OF Cons.prems [of x] Cons.IH] Cons.prems by simp
qed (simp add: answers_def)

lemma count_of_answers:
  assumes "\<And>x. x \<in> set xs \<Longrightarrow> answers (f x) (P x)"
  shows "ops \<le> snd (count_of (map f xs) ops)"
    "snd (count_of (map f xs) ops) \<le> ns_sel_match_budget \<Longrightarrow>
       fst (count_of (map f xs) ops) = length (filter P xs)"
proof -
  have "ops \<le> snd (count_of (map f xs) ops) \<and>
    (snd (count_of (map f xs) ops) \<le> ns_sel_match_budget \<longrightarrow>
       fst (count_of (map f xs) ops) = length (filter P xs))"
    using assms
  proof (induction xs arbitrary: ops)
    case (Cons x xs)
    have x: "answers (f x) (P x)" using Cons.prems by simp
    have i: "o1 \<le> snd (count_of (map f xs) o1) \<and>
      (snd (count_of (map f xs) o1) \<le> ns_sel_match_budget \<longrightarrow>
         fst (count_of (map f xs) o1) = length (filter P xs))" for o1
      using Cons.IH Cons.prems by simp
    show ?case
      using answersD [OF x, of ops] i [of "snd (f x ops)"] by (auto simp: split_beta Let_def)
  qed simp
  then show "ops \<le> snd (count_of (map f xs) ops)"
    "snd (count_of (map f xs) ops) \<le> ns_sel_match_budget \<Longrightarrow>
       fst (count_of (map f xs) ops) = length (filter P xs)" by auto
qed

section \<open>Walks are lists of children\<close>

text \<open>What the theorems ask of the document: the pointers represent the lists \<open>ch\<close>, no
  node has more than 512 children or is deeper than 300, only elements and documents
  have children, and the caches of every element are right.\<close>

definition names_ok :: "ns_node \<Rightarrow> bool" where
  "names_ok nd = (FlagSvgNs \<in> nd_flags nd \<or> list_all (\<lambda>a. ns_str_is_ascii_lower (at_name a)) (nd_attrs nd))"

definition document_ok :: "nat \<Rightarrow> dom \<Rightarrow> (nat \<Rightarrow> nat list) \<Rightarrow> bool" where
  "document_ok n h ch \<longleftrightarrow>
     linked h ch \<and> (\<forall>p. length (ch p) \<le> n \<and> length (ch p) \<le> 512)
     \<and> (\<forall>i. depth_of h (Some i) \<le> 300)
     \<and> (\<forall>p. ch p \<noteq> [] \<longrightarrow> is_element h p \<or> is_document h p)
     \<and> (\<forall>i nd. h i = Some nd \<longrightarrow> nd_kind nd = NodeElement \<longrightarrow> element_ok nd \<and> names_ok nd)"

lemma document_okD:
  assumes "document_ok n h ch"
  shows "linked h ch" "length (ch p) \<le> n" "length (ch p) \<le> ns_dom_max_depth"
    "depth_of h (Some i) \<le> 300" "ch p \<noteq> [] \<Longrightarrow> is_element h p \<or> is_document h p"
    "h i = Some nd \<Longrightarrow> nd_kind nd = NodeElement \<Longrightarrow> element_ok nd \<and> names_ok nd"
  using assms unfolding document_ok_def ns_dom_max_depth_def by blast+

lemma follow_prev:
  assumes "siblings h p None (us @ [x]) r" "length us \<le> k"
  shows "follow k nd_prev_sibling h (ptr nd_prev_sibling h x) = rev us"
  using assms
proof (induction us arbitrary: x r k rule: rev_induct)
  case Nil
  then show ?case by (cases k) (auto simp: siblings_Cons)
next
  case (snoc y us)
  obtain j where k: "k = Suc j" using snoc.prems(2) by (cases k) auto
  have "siblings h p None (us @ [y]) (Some x)" "ptr nd_prev_sibling h x = Some y"
    using snoc.prems(1) by (auto simp: siblings_append siblings_Cons last_opt_append)
  then show ?case using snoc.IH [of y "Some x" j] snoc.prems(2) k by simp
qed

lemma follow_next:
  "siblings h p l cs None \<Longrightarrow> length cs \<le> k \<Longrightarrow> follow k nd_next_sibling h (hd_opt cs) = cs"
proof (induction cs arbitrary: l k)
  case (Cons c cs)
  then show ?case by (cases k) (auto simp: siblings_Cons)
next
  case Nil
  then show ?case by (cases k) simp_all
qed

lemma linked_prev:
  assumes "linked h ch" "ch p = us @ x # ws" "length (ch p) \<le> k"
  shows "follow k nd_prev_sibling h (ptr nd_prev_sibling h x) = rev us"
    "follow k nd_next_sibling h (ptr nd_next_sibling h x) = ws"
proof -
  have s: "siblings h p None (us @ x # ws) None" using linkedD(4) [OF assms(1), of p] assms(2) by simp
  then have "siblings h p None (us @ [x]) (hd_opt ws)"
    by (auto simp: siblings_append siblings_Cons)
  then show "follow k nd_prev_sibling h (ptr nd_prev_sibling h x) = rev us"
    using assms(2,3) by (intro follow_prev) auto
  have "siblings h p (Some x) ws None" using s by (auto simp: siblings_append siblings_Cons)
  then show "follow k nd_next_sibling h (ptr nd_next_sibling h x) = ws"
    using follow_next [of h p "Some x" ws k] linked_node(2) [OF assms(1,2)] assms(2,3) by simp
qed

lemma follow_None [simp]: "follow k f h None = []"
  by (cases k) auto

lemma no_parent_no_siblings:
  assumes "linked h ch" "ptr nd_parent h x = None"
  shows "ptr nd_prev_sibling h x = None" "ptr nd_next_sibling h x = None"
proof -
  have "ptr nd_prev_sibling h x = None \<and> ptr nd_next_sibling h x = None"
    using linkedD(6) [OF assms(1) _ assms(2)] by (cases "h x") (auto simp: ptr_def)
  then show "ptr nd_prev_sibling h x = None" "ptr nd_next_sibling h x = None" by auto
qed

lemma ptr_SomeD: "ptr f h x = Some y \<Longrightarrow> h x \<noteq> None"
  by (cases "h x") (auto simp: ptr_def)

lemma split_takeWhile:
  "x \<notin> set us \<Longrightarrow> takeWhile (\<lambda>y. y \<noteq> x) (us @ x # ws) = us"
  "x \<notin> set us \<Longrightarrow> dropWhile (\<lambda>y. y \<noteq> x) (us @ x # ws) = x # ws"
  by (induction us) auto

lemma siblings_walks:
  assumes "linked h ch" "\<And>p. length (ch p) \<le> n"
  shows "prev_siblings n h x = rev (before h ch x)" "next_siblings n h x = after h ch x"
proof -
  show "prev_siblings n h x = rev (before h ch x)" "next_siblings n h x = after h ch x"
  proof (atomize (full), cases "ptr nd_parent h x")
    case None
    then show "prev_siblings n h x = rev (before h ch x) \<and> next_siblings n h x = after h ch x"
      using no_parent_no_siblings [OF assms(1) None]
      by (simp add: prev_siblings_def next_siblings_def before_def after_def)
  next
    case (Some p)
    then have "h x \<noteq> None" by (rule ptr_SomeD)
    then have "x \<in> set (ch p)" using linkedD(7) [OF assms(1) _ Some] by simp
    then obtain us ws where s: "ch p = us @ x # ws" by (meson split_list)
    then have "x \<notin> set us" using linked_node(3) [OF assms(1)] by simp
    then show "prev_siblings n h x = rev (before h ch x) \<and> next_siblings n h x = after h ch x"
      using linked_prev [OF assms(1) s assms(2)] s Some split_takeWhile [of x us ws]
      by (simp add: prev_siblings_def next_siblings_def before_def after_def)
  qed
qed

lemma before_after:
  assumes "linked h ch" "ch p = us @ x # ws"
  shows "before h ch x = us" "after h ch x = ws"
proof -
  have "ptr nd_parent h x = Some p" using linked_mem(2) [OF assms(1), of x p] assms(2) by simp
  moreover have "x \<notin> set us" by (rule linked_node(3) [OF assms])
  ultimately show "before h ch x = us" "after h ch x = ws"
    using assms(2) split_takeWhile [of x us ws] by (simp_all add: before_def after_def)
qed

lemma parent_iff: "linked h ch \<Longrightarrow> c \<in> set (ch p) \<longleftrightarrow> ptr nd_parent h c = Some p"
  using linked_mem(2) linkedD(7) ptr_SomeD by metis

lemma before_after_cases:
  assumes "linked h ch"
  obtains (no) "before h ch x = []" "after h ch x = []" "\<And>p. x \<notin> set (ch p)"
    | (yes) p us ws where "ch p = us @ x # ws" "before h ch x = us" "after h ch x = ws"
      "\<And>q vs zs. ch q = vs @ x # zs \<Longrightarrow> vs = us \<and> zs = ws"
proof (cases "ptr nd_parent h x")
  case None
  then show ?thesis using no parent_iff [OF assms, of x] by (simp add: before_def after_def)
next
  case (Some p)
  then have "x \<in> set (ch p)" using parent_iff [OF assms] by simp
  then obtain us ws where s: "ch p = us @ x # ws" by (meson split_list)
  show ?thesis using yes [OF s before_after [OF assms s]] before_after [OF assms] s by metis
qed

lemma comb_in:
  "comb_rel h ch CombSibling a b \<Longrightarrow> \<exists>q. a \<in> set (ch q) \<and> b \<in> set (ch q)"
  "comb_rel h ch CombAdjacent a b \<Longrightarrow> \<exists>q. a \<in> set (ch q) \<and> b \<in> set (ch q)"
  by (metis comb_rel.simps(3) in_set_conv_decomp append.assoc append_Cons)
    (metis comb_rel.simps(2) in_set_conv_decomp append.assoc append_Cons)

lemma before_iff:
  assumes l: "linked h ch"
  shows "s \<in> set (before h ch x) \<longleftrightarrow> comb_rel h ch CombSibling s x"
  using l
proof (cases rule: before_after_cases [where x = x])
  case no
  then show ?thesis using comb_in(1) [of h ch s x] by auto
next
  case (yes p us ws)
  have "comb_rel h ch CombSibling s x" if "s \<in> set us"
  proof -
    from that obtain vs ts where "us = vs @ s # ts" by (meson split_list)
    then have "ch p = vs @ s # ts @ x # ws" using yes(1) by simp
    then show ?thesis unfolding comb_rel.simps by blast
  qed
  moreover have "s \<in> set us" if q: "ch q = vs @ s # ts @ x # zs" for q vs ts zs
    using yes(4) [of q "vs @ s # ts" zs] q by auto
  ultimately show ?thesis using yes(2) by auto
qed

lemma after_iff:
  assumes l: "linked h ch"
  shows "s \<in> set (after h ch x) \<longleftrightarrow> comb_rel h ch CombSibling x s"
  using l
proof (cases rule: before_after_cases [where x = x])
  case no
  then show ?thesis using comb_in(1) [of h ch x s] by auto
next
  case (yes p us ws)
  have "comb_rel h ch CombSibling x s" if "s \<in> set ws"
    using that yes(1) by (auto simp: in_set_conv_decomp)
  moreover have "s \<in> set ws" if q: "ch q = vs @ x # ts @ s # zs" for q vs ts zs
    using yes(4) [of q vs "ts @ s # zs"] q by auto
  ultimately show ?thesis using yes(3) by auto
qed

lemma find_Some_split:
  "find P xs = Some s \<longleftrightarrow> P s \<and> (\<exists>us ws. xs = us @ s # ws \<and> list_all (\<lambda>v. \<not> P v) us)"
proof (induction xs)
  case (Cons x xs)
  show ?case
  proof (cases "P x")
    case True
    then show ?thesis by (auto simp: Cons_eq_append_conv)
  next
    case False
    have "(\<exists>us ws. x # xs = us @ s # ws \<and> list_all (\<lambda>v. \<not> P v) us)
        \<longleftrightarrow> (\<exists>us ws. xs = us @ s # ws \<and> list_all (\<lambda>v. \<not> P v) us)" if s: "P s"
    proof
      assume "\<exists>us ws. x # xs = us @ s # ws \<and> list_all (\<lambda>v. \<not> P v) us"
      then obtain us ws where u: "x # xs = us @ s # ws" "list_all (\<lambda>v. \<not> P v) us" by blast
      then obtain vs where "us = x # vs" using s False by (cases us) auto
      then show "\<exists>us ws. xs = us @ s # ws \<and> list_all (\<lambda>v. \<not> P v) us" using u by auto
    next
      assume "\<exists>us ws. xs = us @ s # ws \<and> list_all (\<lambda>v. \<not> P v) us"
      then obtain us ws where "xs = us @ s # ws" "list_all (\<lambda>v. \<not> P v) us" by blast
      then have "x # xs = (x # us) @ s # ws \<and> list_all (\<lambda>v. \<not> P v) (x # us)" using False by simp
      then show "\<exists>us ws. x # xs = us @ s # ws \<and> list_all (\<lambda>v. \<not> P v) us" by blast
    qed
    then show ?thesis using Cons False by auto
  qed
qed simp

lemma rev_split_ex:
  "(\<exists>us ws. rev b = us @ s # ws \<and> list_all P us) \<longleftrightarrow> (\<exists>us ws. b = us @ s # ws \<and> list_all P ws)"
proof
  assume "\<exists>us ws. rev b = us @ s # ws \<and> list_all P us"
  then obtain us ws where "rev b = us @ s # ws" "list_all P us" by blast
  then have "b = rev ws @ s # rev us \<and> list_all P (rev us)" unfolding rev_swap by simp
  then show "\<exists>us ws. b = us @ s # ws \<and> list_all P ws" by blast
next
  assume "\<exists>us ws. b = us @ s # ws \<and> list_all P ws"
  then obtain us ws where "b = us @ s # ws" "list_all P ws" by blast
  then have "rev b = rev ws @ s # rev us \<and> list_all P (rev ws)" by simp
  then show "\<exists>us ws. rev b = us @ s # ws \<and> list_all P us" by blast
qed

lemma find_next:
  assumes l: "linked h ch"
  shows "find (is_element h) (after h ch x) = Some s \<longleftrightarrow> comb_rel h ch CombAdjacent x s \<and> is_element h s"
  using l
proof (cases rule: before_after_cases [where x = x])
  case no
  then show ?thesis using comb_in(2) [of h ch x s] by auto
next
  case (yes p us ws)
  show ?thesis unfolding yes(3) find_Some_split comb_rel.simps using yes(1,4) by blast
qed

lemma find_prev:
  assumes l: "linked h ch"
  shows "find (is_element h) (rev (before h ch x)) = Some s \<longleftrightarrow> comb_rel h ch CombAdjacent s x \<and> is_element h s"
  using l
proof (cases rule: before_after_cases [where x = x])
  case no
  then show ?thesis using comb_in(2) [of h ch s x] by auto
next
  case (yes p us ws)
  have "(\<exists>vs ts. us = vs @ s # ts \<and> list_all (\<lambda>v. \<not> is_element h v) ts) \<longleftrightarrow> comb_rel h ch CombAdjacent s x"
  proof
    assume "\<exists>vs ts. us = vs @ s # ts \<and> list_all (\<lambda>v. \<not> is_element h v) ts"
    then obtain vs ts where "us = vs @ s # ts" "list_all (\<lambda>v. \<not> is_element h v) ts" by blast
    then have "ch p = vs @ s # ts @ x # ws \<and> list_all (\<lambda>v. \<not> is_element h v) ts" using yes(1) by simp
    then show "comb_rel h ch CombAdjacent s x" unfolding comb_rel.simps by blast
  next
    assume "comb_rel h ch CombAdjacent s x"
    then obtain q vs ts zs where "ch q = vs @ s # ts @ x # zs" "list_all (\<lambda>v. \<not> is_element h v) ts" by auto
    then show "\<exists>vs ts. us = vs @ s # ts \<and> list_all (\<lambda>v. \<not> is_element h v) ts"
      using yes(4) [of q "vs @ s # ts" zs] by auto
  qed
  then show ?thesis unfolding yes(2) find_Some_split rev_split_ex by auto
qed

abbreviation parent_rel :: "dom \<Rightarrow> (nat \<Rightarrow> nat list) \<Rightarrow> nat \<Rightarrow> nat \<Rightarrow> bool" where
  "parent_rel h ch \<equiv> \<lambda>p c. c \<in> set (ch p) \<and> \<not> is_document h p"

lemma ancestors_iff:
  assumes "linked h ch" and "\<And>i. depth_of h (Some i) \<le> 300"
  shows "depth_of h (Some x) \<le> k \<Longrightarrow>
    a \<in> set (takeWhile (\<lambda>p. \<not> is_document h p) (follow k nd_parent h (ptr nd_parent h x)))
    \<longleftrightarrow> (parent_rel h ch)\<^sup>+\<^sup>+ a x"
proof (induction k arbitrary: x)
  case 0
  have "depth_of h (Some x) < ns_dom_max_depth" using assms(2) [of x] by (simp add: ns_dom_max_depth_def)
  from depth_of_parent [OF this] 0 show ?case by simp
next
  case (Suc k)
  have last: "(parent_rel h ch)\<^sup>+\<^sup>+ a x \<longleftrightarrow> (\<exists>p. ptr nd_parent h x = Some p \<and> \<not> is_document h p
      \<and> (a = p \<or> (parent_rel h ch)\<^sup>+\<^sup>+ a p))"
    by (subst tranclp.simps) (auto simp: parent_iff [OF assms(1)])
  show ?case
  proof (cases "ptr nd_parent h x")
    case (Some p)
    have "depth_of h (Some x) < ns_dom_max_depth" using assms(2) [of x] by (simp add: ns_dom_max_depth_def)
    from depth_of_parent [OF this] have "depth_of h (Some p) \<le> k" using Suc.prems Some by simp
    from Suc.IH [OF this] show ?thesis using Some last by auto
  qed (simp add: last)
qed

section \<open>The search to the left\<close>

fun up_holds :: "dom \<Rightarrow> (nat \<Rightarrow> nat list) \<Rightarrow> (nat \<Rightarrow> bool) list \<Rightarrow> ns_css_comb list \<Rightarrow> nat \<Rightarrow> nat \<Rightarrow> bool" where
  "up_holds h ch Ps cs 0 cur = True"
| "up_holds h ch Ps cs (Suc i) cur = (\<exists>x. comb_rel h ch (cs ! Suc i) x cur \<and> (Ps ! i) x \<and> up_holds h ch Ps cs i x)"

lemma answers_False: "answers (\<lambda>ops. (False, ops)) False"
  by (rule answers_const)

lemma answers_eq: "answers q P \<Longrightarrow> P = Q \<Longrightarrow> answers q Q"
  by simp

lemma match_chain_answers:
  assumes ok: "document_ok n h ch"
    and ms: "\<And>j x. j < k \<Longrightarrow> answers ((ms ! j) x) ((Ps ! j) x)"
    and el: "\<And>j x. j < k \<Longrightarrow> (Ps ! j) x \<Longrightarrow> is_element h x"
  shows "i \<le> k \<Longrightarrow> answers (match_complex_chain n h ms cs i cur) (up_holds h ch Ps cs i cur)"
proof (induction i arbitrary: cur)
  case 0
  then show ?case by (simp add: answers_def)
next
  case (Suc i)
  note l = document_okD(1) [OF ok]
  let ?step = "\<lambda>x. all_of [(ms ! i) x, match_complex_chain n h ms cs i x]"
  let ?good = "\<lambda>x. (Ps ! i) x \<and> up_holds h ch Ps cs i x"
  have attempt: "answers (?step x) (?good x)" for x
    using Suc ms by (intro answers_pair(1)) auto
  have good_el: "?good x \<Longrightarrow> is_element h x" for x using el [of i x] Suc.prems by simp
  have up: "answers (search (map ?step (takeWhile (\<lambda>p. \<not> is_document h p)
        (follow ns_dom_max_depth nd_parent h (ptr nd_parent h cur)))))
      (\<exists>x. (parent_rel h ch)\<^sup>+\<^sup>+ x cur \<and> ?good x)"
  proof (rule answers_eq [OF answers_search [OF attempt]])
    have "depth_of h (Some cur) \<le> ns_dom_max_depth"
      using document_okD(4) [OF ok, of cur] by (simp add: ns_dom_max_depth_def)
    from ancestors_iff [OF l document_okD(4) [OF ok] this]
    show "(\<exists>x\<in>set (takeWhile (\<lambda>p. \<not> is_document h p)
        (follow ns_dom_max_depth nd_parent h (ptr nd_parent h cur))). ?good x)
      = (\<exists>x. (parent_rel h ch)\<^sup>+\<^sup>+ x cur \<and> ?good x)" by blast
  qed
  show ?case
  proof (cases "cs ! Suc i")
    case CombChild
    have "answers (case ptr nd_parent h cur of None \<Rightarrow> (\<lambda>ops. (False, ops)) | Some p \<Rightarrow> ?step p)
        (\<exists>x. cur \<in> set (ch x) \<and> ?good x)"
      using attempt answers_False by (auto simp: parent_iff [OF l] split: option.split)
    from answers_counted [OF this] show ?thesis using CombChild by simp
  next
    case CombAdjacent
    have "answers (case find (is_element h) (prev_siblings n h cur) of
          None \<Rightarrow> (\<lambda>ops. (False, ops)) | Some s \<Rightarrow> ?step s) (\<exists>x. comb_rel h ch CombAdjacent x cur \<and> ?good x)"
    proof (cases "find (is_element h) (prev_siblings n h cur)")
      case None
      then have "\<not> (comb_rel h ch CombAdjacent x cur \<and> is_element h x)" for x
        using find_prev [OF l, of cur x] siblings_walks(1) [OF l document_okD(2) [OF ok], of cur] by simp
      then have "(\<exists>x. comb_rel h ch CombAdjacent x cur \<and> ?good x) = False" using good_el by blast
      then show ?thesis unfolding None option.case by (simp only: answers_False)
    next
      case (Some s)
      then have "comb_rel h ch CombAdjacent x cur \<and> is_element h x \<longleftrightarrow> x = s" for x
        using find_prev [OF l, of cur x] siblings_walks(1) [OF l document_okD(2) [OF ok], of cur] by auto
      then have "(\<exists>x. comb_rel h ch CombAdjacent x cur \<and> ?good x) = ?good s" using good_el by metis
      then show ?thesis unfolding Some option.case using attempt [of s] by (simp only:)
    qed
    from answers_counted [OF this] show ?thesis using CombAdjacent by simp
  next
    case CombSibling
    have "answers (if is_element h s then ?step s else (\<lambda>ops. (False, ops))) (?good s)" for s
    proof (cases "is_element h s")
      case False
      then have "?good s = False" using good_el by blast
      then show ?thesis using False by (simp only: if_False answers_False)
    qed (simp add: attempt)
    note search = answers_search [where f = "\<lambda>s. if is_element h s then ?step s else (\<lambda>ops. (False, ops))", OF this]
    have "set (follow ns_dom_max_depth nd_prev_sibling h (ptr nd_prev_sibling h cur))
        = {x. comb_rel h ch CombSibling x cur}"
      using siblings_walks(1) [OF l document_okD(3) [OF ok], of cur] before_iff [OF l, of _ cur]
      by (auto simp: prev_siblings_def simp del: comb_rel.simps)
    then have "(\<exists>x\<in>set (follow ns_dom_max_depth nd_prev_sibling h (ptr nd_prev_sibling h cur)). ?good x)
        = (\<exists>x. comb_rel h ch CombSibling x cur \<and> ?good x)" by auto
    from answers_eq [OF search this] show ?thesis using CombSibling by simp
  next
    case CombNone
    then show ?thesis using up by simp
  next
    case CombDescendant
    then show ?thesis using up by simp
  qed
qed

lemma up_holds_nodes:
  "up_holds h ch Ps cs i x \<longleftrightarrow>
     (\<exists>ns. length ns = i \<and> (\<forall>j < i. (Ps ! j) (ns ! j))
        \<and> (\<forall>j < i. comb_rel h ch (cs ! Suc j) ((ns @ [x]) ! j) ((ns @ [x]) ! Suc j)))"
proof (induction i arbitrary: x)
  case (Suc i)
  show ?case
  proof
    assume "up_holds h ch Ps cs (Suc i) x"
    then obtain y where y: "comb_rel h ch (cs ! Suc i) y x" "(Ps ! i) y" "up_holds h ch Ps cs i y" by auto
    then obtain ns where ns: "length ns = i" "\<forall>j < i. (Ps ! j) (ns ! j)"
      "\<forall>j < i. comb_rel h ch (cs ! Suc j) ((ns @ [y]) ! j) ((ns @ [y]) ! Suc j)" using Suc.IH by blast
    then show "\<exists>ns. length ns = Suc i \<and> (\<forall>j < Suc i. (Ps ! j) (ns ! j))
        \<and> (\<forall>j < Suc i. comb_rel h ch (cs ! Suc j) ((ns @ [x]) ! j) ((ns @ [x]) ! Suc j))"
    proof (intro exI [of _ "ns @ [y]"] conjI allI impI)
      fix j assume j: "j < Suc i"
      show "(Ps ! j) ((ns @ [y]) ! j)" using j ns(1,2) y(2) by (auto simp: nth_append less_Suc_eq)
      show "comb_rel h ch (cs ! Suc j) (((ns @ [y]) @ [x]) ! j) (((ns @ [y]) @ [x]) ! Suc j)"
      proof (cases "j = i")
        case True
        then show ?thesis using ns(1) y(1) by (simp add: nth_append)
      next
        case False
        then have "((ns @ [y]) @ [x]) ! j = (ns @ [y]) ! j" "((ns @ [y]) @ [x]) ! Suc j = (ns @ [y]) ! Suc j"
          using j ns(1) by (simp_all only: nth_append length_append) auto
        then show ?thesis using ns(3) False j by simp
      qed
    qed (use ns(1) in simp)
  next
    assume "\<exists>ns. length ns = Suc i \<and> (\<forall>j < Suc i. (Ps ! j) (ns ! j))
        \<and> (\<forall>j < Suc i. comb_rel h ch (cs ! Suc j) ((ns @ [x]) ! j) ((ns @ [x]) ! Suc j))"
    then obtain ms y where ns: "length (ms @ [y]) = Suc i" "\<forall>j < Suc i. (Ps ! j) ((ms @ [y]) ! j)"
      "\<forall>j < Suc i. comb_rel h ch (cs ! Suc j) (((ms @ [y]) @ [x]) ! j) (((ms @ [y]) @ [x]) ! Suc j)"
      by (metis append_butlast_last_id length_0_conv nat.distinct(1))
    have "\<exists>ns. length ns = i \<and> (\<forall>j < i. (Ps ! j) (ns ! j))
        \<and> (\<forall>j < i. comb_rel h ch (cs ! Suc j) ((ns @ [y]) ! j) ((ns @ [y]) ! Suc j))"
    proof (intro exI [of _ ms] conjI allI impI)
      show "length ms = i" using ns(1) by simp
      show "(Ps ! j) (ms ! j)" if "j < i" for j
        using ns(1) ns(2) [rule_format, of j] that by (simp add: nth_append)
      show "comb_rel h ch (cs ! Suc j) ((ms @ [y]) ! j) ((ms @ [y]) ! Suc j)" if "j < i" for j
        using ns(1) ns(3) [rule_format, of j] that by (auto simp: nth_append)
    qed
    then have "up_holds h ch Ps cs i y" using Suc.IH by blast
    moreover have "(Ps ! i) y" "comb_rel h ch (cs ! Suc i) y x"
      using ns(1) ns(2) [rule_format, of i] ns(3) [rule_format, of i] by (auto simp: nth_append)
    ultimately show "up_holds h ch Ps cs (Suc i) x" by auto
  qed
qed simp

section \<open>The search downwards\<close>

lemma depth_child:
  assumes ok: "document_ok n h ch" and c: "c \<in> set (ch p)"
  shows "depth_of h (Some c) = Suc (depth_of h (Some p))"
proof -
  have "depth_of h (Some c) < ns_dom_max_depth"
    using document_okD(4) [OF ok, of c] by (simp add: ns_dom_max_depth_def)
  from depth_of_parent [OF this] show ?thesis
    using linked_mem(2) [OF document_okD(1) [OF ok] c] by simp
qed

lemma descendants_step:
  assumes ok: "document_ok n h ch" and e: "is_element h b"
  shows "(\<exists>x. (parent_rel h ch)\<^sup>+\<^sup>+ b x \<and> is_element h x \<and> Q x)
    \<longleftrightarrow> (\<exists>c\<in>set (ch b). is_element h c \<and> (Q c \<or> (\<exists>x. (parent_rel h ch)\<^sup>+\<^sup>+ c x \<and> is_element h x \<and> Q x)))"
proof -
  have nd: "\<not> is_document h b" using e by (auto simp: is_element_def is_document_def split: option.splits)
  have inner: "is_element h c" if "(parent_rel h ch)\<^sup>+\<^sup>+ c x" for c x
  proof -
    have "ch c \<noteq> [] \<and> \<not> is_document h c"
      using that by (induction rule: tranclp_induct) auto
    then show ?thesis using document_okD(5) [OF ok] by blast
  qed
  have step: "(parent_rel h ch)\<^sup>+\<^sup>+ b x \<longleftrightarrow> (\<exists>c\<in>set (ch b). x = c \<or> (parent_rel h ch)\<^sup>+\<^sup>+ c x)" for x
  proof
    assume "(parent_rel h ch)\<^sup>+\<^sup>+ b x"
    from tranclpD [OF this] obtain c where "c \<in> set (ch b)" "(parent_rel h ch)\<^sup>*\<^sup>* c x" by blast
    then show "\<exists>c\<in>set (ch b). x = c \<or> (parent_rel h ch)\<^sup>+\<^sup>+ c x" using rtranclpD by fastforce
  next
    assume "\<exists>c\<in>set (ch b). x = c \<or> (parent_rel h ch)\<^sup>+\<^sup>+ c x"
    then obtain c where "parent_rel h ch b c" "x = c \<or> (parent_rel h ch)\<^sup>+\<^sup>+ c x" using nd by blast
    then show "(parent_rel h ch)\<^sup>+\<^sup>+ b x" by (metis (mono_tags, lifting) tranclp.r_into_trancl tranclp_into_tranclp2 tranclp_into_rtranclp rtranclp_into_tranclp2)
  qed
  show ?thesis
  proof
    assume "\<exists>x. (parent_rel h ch)\<^sup>+\<^sup>+ b x \<and> is_element h x \<and> Q x"
    then obtain x c where x: "is_element h x" "Q x" "c \<in> set (ch b)" "x = c \<or> (parent_rel h ch)\<^sup>+\<^sup>+ c x"
      using step by blast
    then have "is_element h c" using inner [of c x] by blast
    then show "\<exists>c\<in>set (ch b). is_element h c \<and> (Q c \<or> (\<exists>x. (parent_rel h ch)\<^sup>+\<^sup>+ c x \<and> is_element h x \<and> Q x))"
      using x by blast
  next
    assume "\<exists>c\<in>set (ch b). is_element h c \<and> (Q c \<or> (\<exists>x. (parent_rel h ch)\<^sup>+\<^sup>+ c x \<and> is_element h x \<and> Q x))"
    then show "\<exists>x. (parent_rel h ch)\<^sup>+\<^sup>+ b x \<and> is_element h x \<and> Q x" using step by blast
  qed
qed

lemma descendants_answer:
  assumes ok: "document_ok n h ch" and D: "D < 512"
    and cand: "\<And>d c. is_element h c \<Longrightarrow> d + 301 \<le> D + depth_of h (Some c) \<Longrightarrow> answers (cand d c) (Q c)"
  shows "is_element h base \<Longrightarrow> depth + 300 \<le> D + depth_of h (Some base) \<Longrightarrow>
    answers (relative_descendant_matches n h cand base depth)
      (\<exists>x. (parent_rel h ch)\<^sup>+\<^sup>+ base x \<and> is_element h x \<and> Q x)"
  using ok cand
proof (induction n h cand base depth rule: relative_descendant_matches.induct)
  case (1 n h cand base depth)
  note ok = "1.prems"(3)
  have d: "\<not> 512 \<le> depth" using "1.prems"(2) D document_okD(4) [OF ok, of base] by simp
  let ?under = "\<lambda>c. \<exists>x. (parent_rel h ch)\<^sup>+\<^sup>+ c x \<and> is_element h x \<and> Q x"
  have ch: "children n h base = ch base"
    by (rule children_linked [OF document_okD(1,2) [OF ok]])
  have q: "answers (if is_element h c
             then any_of [cand depth c, relative_descendant_matches n h cand c (depth + 1)]
             else (\<lambda>ops. (False, ops))) (is_element h c \<and> (Q c \<or> ?under c))" if c: "c \<in> set (ch base)" for c
  proof (cases "is_element h c")
    case True
    have dc: "depth_of h (Some c) = Suc (depth_of h (Some base))" by (rule depth_child [OF ok c])
    have "answers (cand depth c) (Q c)" using "1.prems"(2,4) True dc by simp
    moreover have "answers (relative_descendant_matches n h cand c (depth + 1)) (?under c)"
      using "1.IH" [OF d _ True] c ch "1.prems" True dc by simp
    ultimately have "answers (any_of [cand depth c, relative_descendant_matches n h cand c (depth + 1)])
        (Q c \<or> ?under c)" by (rule answers_pair(2))
    then show ?thesis using True by simp
  next
    case False
    then show ?thesis by (simp add: answers_False)
  qed
  have "answers (relative_descendant_matches n h cand base depth)
      (\<exists>c\<in>set (ch base). is_element h c \<and> (Q c \<or> ?under c))"
    using answers_any [of "ch base", OF q] d ch
    by (subst relative_descendant_matches.simps) simp
  then show ?case unfolding descendants_step [OF ok "1.prems"(1)] .
qed

text \<open>What the chain of \<open>:has\<close> means, compound by compound.\<close>

fun down_holds ::
    "dom \<Rightarrow> (nat \<Rightarrow> nat list) \<Rightarrow> bool \<Rightarrow> ((nat \<Rightarrow> bool) \<times> ns_css_comb \<times> bool) list \<Rightarrow> nat \<Rightarrow> bool" where
  "down_holds h ch first [] b = True"
| "down_holds h ch first ((P, c, s) # rest) b =
     (\<exists>x. (comb_rel h ch c b x \<or> (first \<and> s \<and> c \<in> {CombNone, CombDescendant} \<and> x = b))
        \<and> P x \<and> down_holds h ch False rest x)"

definition item_answers :: "dom \<Rightarrow> matcher \<times> ns_css_comb \<times> bool \<Rightarrow> (nat \<Rightarrow> bool) \<times> ns_css_comb \<times> bool \<Rightarrow> bool" where
  "item_answers h i j \<longleftrightarrow> snd i = snd j \<and> (\<forall>x. answers (fst i x) (fst j x) \<and> (fst j x \<longrightarrow> is_element h x))"

lemma depth_sibling:
  assumes "document_ok n h ch" "comb_rel h ch CombSibling a b \<or> comb_rel h ch CombAdjacent a b"
  shows "depth_of h (Some a) = depth_of h (Some b)"
  using comb_in [of h ch a b] assms(2) depth_child [OF assms(1)] by metis

lemma relative_chain_answers:
  assumes ok: "document_ok n h ch"
  shows "list_all2 (item_answers h) items pitems \<Longrightarrow> is_element h base \<Longrightarrow> (first \<Longrightarrow> base = anchor) \<Longrightarrow>
    depth + 2 * length items + 300 \<le> 511 + depth_of h (Some base) \<Longrightarrow>
    answers (relative_chain_matches n h anchor first items base depth) (down_holds h ch first pitems base)"
proof (induction items arbitrary: pitems first base depth)
  case Nil
  have "depth < 512" using Nil.prems(4) document_okD(4) [OF ok, of base] by simp
  then show ?case using Nil.prems(1) by (simp add: answers_def)
next
  case (Cons item items)
  note l = document_okD(1) [OF ok]
  note len = document_okD(2) [OF ok]
  obtain m comb scoped where item: "item = (m, comb, scoped)" by (cases item) auto
  obtain j rest where j: "pitems = j # rest" "item_answers h item j" and r: "list_all2 (item_answers h) items rest"
    using Cons.prems(1) by (auto simp: list_all2_Cons1)
  define P where "P = fst j"
  have p: "pitems = (P, comb, scoped) # rest" "\<And>x. answers (m x) (P x)" "\<And>x. P x \<Longrightarrow> is_element h x"
    using j item by (cases j, auto simp: item_answers_def P_def)+
  define len where "len = length items"
  define Q where "Q = (\<lambda>x. P x \<and> down_holds h ch False rest x)"
  define cand where "cand = (\<lambda>d. relative_try_candidate h m
      (\<lambda>c. relative_chain_matches n h anchor False items c (d + 1)))"
  have d: "\<not> 512 \<le> depth" using Cons.prems(4) document_okD(4) [OF ok, of base] by simp
  have Qe: "Q x \<Longrightarrow> is_element h x" for x using p(3) by (simp add: Q_def)
  have cand: "answers (cand d c) (Q c)" if "d + 2 * len + 301 \<le> 511 + depth_of h (Some c)" for d c
  proof (cases "is_element h c")
    case True
    have "answers (relative_chain_matches n h anchor False items c (d + 1)) (down_holds h ch False rest c)"
      using Cons.IH [OF r True, of False "d + 1"] that by (simp add: len_def)
    then have "answers (all_of [m c, relative_chain_matches n h anchor False items c (d + 1)]) (Q c)"
      unfolding Q_def using p(2) by (intro answers_pair(1)) auto
    then show ?thesis using True by (simp add: cand_def relative_try_candidate_def)
  next
    case False
    then have "Q c = False" using Qe by blast
    then show ?thesis using False answers_False by (simp add: cand_def relative_try_candidate_def)
  qed
  have room: "depth + 2 * len + 302 \<le> 511 + depth_of h (Some base)" using Cons.prems(4) by (simp add: len_def)
  have desc: "answers (relative_descendant_matches n h cand base (depth + 1))
      (\<exists>x. (parent_rel h ch)\<^sup>+\<^sup>+ base x \<and> Q x)"
  proof -
    have "answers (relative_descendant_matches n h cand base (depth + 1))
        (\<exists>x. (parent_rel h ch)\<^sup>+\<^sup>+ base x \<and> is_element h x \<and> Q x)"
    proof (rule descendants_answer [OF ok _ _ Cons.prems(2), where D = "511 - 2 * len"])
      show "511 - 2 * len < 512" by simp
      have "2 * len \<le> 511" using room document_okD(4) [OF ok, of base] by simp
      then show "answers (cand d c) (Q c)"
        if "is_element h c" "d + 301 \<le> 511 - 2 * len + depth_of h (Some c)" for d c
        using that by (intro cand) simp
      show "depth + 1 + 300 \<le> 511 - 2 * len + depth_of h (Some base)"
        using room document_okD(4) [OF ok, of base] by simp
    qed
    moreover have "(\<exists>x. (parent_rel h ch)\<^sup>+\<^sup>+ base x \<and> is_element h x \<and> Q x)
        = (\<exists>x. (parent_rel h ch)\<^sup>+\<^sup>+ base x \<and> Q x)" using Qe by blast
    ultimately show ?thesis by (rule answers_eq)
  qed
  have one: "answers (case find (is_element h) (next_siblings n h base) of
        None \<Rightarrow> (\<lambda>ops. (False, ops)) | Some s \<Rightarrow> cand depth s) (\<exists>x. comb_rel h ch CombAdjacent base x \<and> Q x)"
  proof (cases "find (is_element h) (next_siblings n h base)")
    case None
    then have "\<not> (comb_rel h ch CombAdjacent base x \<and> is_element h x)" for x
      using find_next [OF l, of base x] siblings_walks(2) [OF l document_okD(2) [OF ok], of base] by simp
    then have "(\<exists>x. comb_rel h ch CombAdjacent base x \<and> Q x) = False" using Qe by blast
    then show ?thesis unfolding None option.case by (simp only: answers_False)
  next
    case (Some s)
    then have a: "comb_rel h ch CombAdjacent base x \<and> is_element h x \<longleftrightarrow> x = s" for x
      using find_next [OF l, of base x] siblings_walks(2) [OF l document_okD(2) [OF ok], of base] by auto
    then have "(\<exists>x. comb_rel h ch CombAdjacent base x \<and> Q x) = Q s" using Qe by metis
    moreover have "depth_of h (Some base) = depth_of h (Some s)"
      using a [of s] by (intro depth_sibling [OF ok]) blast
    then have "answers (cand depth s) (Q s)" using room by (intro cand) simp
    ultimately show ?thesis unfolding Some option.case by (simp only:)
  qed
  have many: "answers (any_of (map (cand depth) (filter (is_element h) (next_siblings n h base))))
      (\<exists>x. comb_rel h ch CombSibling base x \<and> Q x)"
  proof (rule answers_eq [OF answers_any])
    fix x assume "x \<in> set (filter (is_element h) (next_siblings n h base))"
    then have "comb_rel h ch CombSibling base x"
      using after_iff [OF l] siblings_walks(2) [OF l document_okD(2) [OF ok], of base] by simp
    then have "depth_of h (Some base) = depth_of h (Some x)" by (intro depth_sibling [OF ok]) blast
    then show "answers (cand depth x) (Q x)" using room by (intro cand) simp
  next
    show "(\<exists>x\<in>set (filter (is_element h) (next_siblings n h base)). Q x)
        = (\<exists>x. comb_rel h ch CombSibling base x \<and> Q x)"
      using after_iff [OF l, of _ base] siblings_walks(2) [OF l document_okD(2) [OF ok], of base] Qe
      by (auto simp del: comb_rel.simps)
  qed
  have kids: "answers (any_of (map (cand depth) (children n h base))) (\<exists>x. comb_rel h ch CombChild base x \<and> Q x)"
  proof (rule answers_eq [OF answers_any])
    fix x assume "x \<in> set (children n h base)"
    then have "depth_of h (Some x) = Suc (depth_of h (Some base))"
      using children_linked [OF l document_okD(2) [OF ok]] depth_child [OF ok] by simp
    then show "answers (cand depth x) (Q x)" using room by (intro cand) simp
  qed (use children_linked [OF l document_okD(2) [OF ok]] in auto)
  show ?case
  proof (cases "first \<and> comb \<in> {CombNone, CombDescendant}")
    case True
    then have b: "base = anchor" using Cons.prems(3) by simp
    have "answers (if scoped then cand depth anchor else (\<lambda>ops. (False, ops))) (scoped \<and> Q anchor)"
      using cand [of depth anchor] room b answers_False by simp
    from answers_pair(2) [OF this desc [unfolded b]]
    have "answers (relative_chain_matches n h anchor first (item # items) base depth)
       ((scoped \<and> Q anchor) \<or> (\<exists>x. (parent_rel h ch)\<^sup>+\<^sup>+ anchor x \<and> Q x))"
      using True d unfolding item cand_def by (auto simp: Let_def)
    then show ?thesis by (rule answers_eq) (use True b in \<open>auto simp: p(1) Q_def\<close>)
  next
    case False
    have "answers (case comb of
               CombChild \<Rightarrow> any_of (map (cand depth) (children n h base))
             | CombAdjacent \<Rightarrow> (case find (is_element h) (next_siblings n h base) of
                   None \<Rightarrow> (\<lambda>ops. (False, ops)) | Some s \<Rightarrow> cand depth s)
             | CombSibling \<Rightarrow> any_of (map (cand depth) (filter (is_element h) (next_siblings n h base)))
             | _ \<Rightarrow> relative_descendant_matches n h cand base (depth + 1)) (\<exists>x. comb_rel h ch comb base x \<and> Q x)"
      using one many kids desc by (cases comb) (simp_all del: comb_rel.simps(1-3))
    then have "answers (relative_chain_matches n h anchor first (item # items) base depth)
       (\<exists>x. comb_rel h ch comb base x \<and> Q x)"
      using False d unfolding item cand_def by (simp only: relative_chain_matches.simps Let_def if_False)
    then show ?thesis by (rule answers_eq) (use False in \<open>auto simp: p(1) Q_def simp del: comb_rel.simps\<close>)
  qed
qed

section \<open>Attribute tests\<close>

lemma length_fold_case [simp]: "length (fold_case ci s) = length s"
  by (simp add: fold_case_def)

lemma fold_case_parts:
  "fold_case ci (a @ b) = fold_case ci a @ fold_case ci b"
  "fold_case ci (take k s) = take k (fold_case ci s)"
  "fold_case ci (drop k s) = drop k (fold_case ci s)"
  "(fold_case ci s = []) = (s = [])"
  by (simp_all add: fold_case_def take_map drop_map)

lemma fold_case_split:
  "fold_case ci v = a @ b \<longleftrightarrow>
     (\<exists>x y. v = x @ y \<and> fold_case ci x = a \<and> fold_case ci y = b)"
proof
  assume *: "fold_case ci v = a @ b"
  then have "fold_case ci (take (length a) v) = a" "fold_case ci (drop (length a) v) = b"
    by (simp_all add: fold_case_parts)
  then show "\<exists>x y. v = x @ y \<and> fold_case ci x = a \<and> fold_case ci y = b"
    by (metis append_take_drop_id)
qed (auto simp: fold_case_parts)

lemma begins_fold: "begins ci w s \<longleftrightarrow> take (length w) (fold_case ci s) = fold_case ci w"
  by (simp add: begins_def fold_case_def strncaseeq_def strneq_def take_map)

lemma begins_prefix:
  "length w \<le> length v \<and> begins ci w v \<longleftrightarrow> (\<exists>r. fold_case ci v = fold_case ci w @ r)"
proof
  assume "length w \<le> length v \<and> begins ci w v"
  then have "fold_case ci v = fold_case ci w @ drop (length w) (fold_case ci v)"
    using append_take_drop_id [of "length w" "fold_case ci v"] by (simp add: begins_fold)
  then show "\<exists>r. fold_case ci v = fold_case ci w @ r" ..
next
  assume "\<exists>r. fold_case ci v = fold_case ci w @ r"
  then obtain r where r: "fold_case ci v = fold_case ci w @ r" ..
  from arg_cong [OF this, of length] have "length w \<le> length v" by simp
  then show "length w \<le> length v \<and> begins ci w v" using r by (simp add: begins_fold)
qed

lemma strstr_iff: "strstr s w \<noteq> None \<longleftrightarrow> (\<exists>l r. s = l @ w @ r)"
proof (induction s)
  case (Cons c s)
  have "(\<exists>l r. c # s = l @ w @ r) \<longleftrightarrow> starts_with w (c # s) \<or> (\<exists>l r. s = l @ w @ r)"
    by (auto simp: Cons_eq_append_conv starts_with_iff)
  then show ?case using Cons by auto
qed auto

lemma substr_ci_iff: "substr_ci w s \<longleftrightarrow> (\<exists>l r. fold_case True s = l @ fold_case True w @ r)"
proof (induction s)
  case Nil
  show ?case by (auto simp: fold_case_def)
next
  case (Cons c s)
  have "(\<exists>l r. fold_case True (c # s) = l @ fold_case True w @ r)
      \<longleftrightarrow> (\<exists>r. fold_case True (c # s) = fold_case True w @ r)
        \<or> (\<exists>l r. fold_case True s = l @ fold_case True w @ r)"
  proof
    assume "\<exists>l r. fold_case True (c # s) = l @ fold_case True w @ r"
    then obtain l r where lr: "fold_case True (c # s) = l @ fold_case True w @ r" by blast
    show "(\<exists>r. fold_case True (c # s) = fold_case True w @ r)
        \<or> (\<exists>l r. fold_case True s = l @ fold_case True w @ r)"
      using lr by (cases l) (auto simp: fold_case_def)
  next
    assume *: "(\<exists>r. fold_case True (c # s) = fold_case True w @ r)
        \<or> (\<exists>l r. fold_case True s = l @ fold_case True w @ r)"
    have "fold_case True (c # s) = (ascii_tolower c # l) @ fold_case True w @ r"
      if "fold_case True s = l @ fold_case True w @ r" for l r
      using that by (simp add: fold_case_def)
    moreover have "fold_case True (c # s) = [] @ fold_case True w @ r"
      if "fold_case True (c # s) = fold_case True w @ r" for r
      using that by simp
    ultimately show "\<exists>l r. fold_case True (c # s) = l @ fold_case True w @ r" using * by blast
  qed
  then show ?case using Cons begins_prefix [of w "c # s" True] by auto
qed

lemma is_ws_tolower [simp]: "is_ws (ascii_tolower c) = is_ws c"
proof (cases "ascii_isupper c")
  case True
  then have "\<not> is_ws c" by (auto simp: is_ws_def ascii_isupper_def)
  moreover have "\<not> is_ws (ascii_tolower c)"
    using True code_tolower [of c] by (auto simp: is_ws_def ascii_isupper_def)
  ultimately show ?thesis by simp
qed (simp add: ascii_tolower_def)

lemma split_on_map: "(\<And>c. p (f c) = p c) \<Longrightarrow> split_on p (map f s) = map (map f) (split_on p s)"
  by (induction s) (auto split: list.splits)

lemma split_on_fold: "split_on is_ws (fold_case ci s) = map (fold_case ci) (split_on is_ws s)"
proof (cases ci)
  case False
  then have "fold_case ci = (\<lambda>x. x)" by (simp add: fold_case_def fun_eq_iff)
  then show ?thesis by simp
next
  case True
  then have "fold_case ci = map ascii_tolower" by (simp add: fold_case_def fun_eq_iff)
  then show ?thesis by (simp add: split_on_map)
qed

text \<open>The words of a string: the non-empty pieces between white space.\<close>

lemma words_skip:
  "set (split_on is_ws (dropWhile is_ws s)) - {[]} = set (split_on is_ws s) - {[]}"
  by (induction s) auto

lemma words_first:
  assumes "t = tok @ r" "\<And>c. c \<in> set tok \<Longrightarrow> \<not> is_ws c" "r = [] \<or> is_ws (hd r)"
  shows "set (split_on is_ws t) - {[]} = ({tok} \<union> set (split_on is_ws r)) - {[]}"
proof (cases r)
  case Nil
  then show ?thesis using assms(1) split_on_single [of tok is_ws] assms(2) by auto
next
  case (Cons c u)
  then have c: "is_ws c" using assms(3) by simp
  then have "split_on is_ws t = tok # split_on is_ws u"
    using assms(1) Cons split_on_append [of is_ws c tok u] split_on_single [of tok is_ws] assms(2) by auto
  then show ?thesis using Cons c by auto
qed

lemma word_in_iff: "w \<noteq> [] \<Longrightarrow> word_in ci w s \<longleftrightarrow> fold_case ci w \<in> set (split_on is_ws (fold_case ci s))"
proof (induction ci w s rule: word_in.induct)
  case (1 ci w s)
  show ?case
  proof (cases "s = []")
    case True
    then show ?thesis using "1.prems" by (simp add: word_in.simps fold_case_def)
  next
    case False
    define t where "t = dropWhile is_ws s"
    define tok where "tok = takeWhile (\<lambda>c. \<not> is_ws c) t"
    define r where "r = dropWhile (\<lambda>c. \<not> is_ws c) t"
    have "t = tok @ r" "\<And>c. c \<in> set tok \<Longrightarrow> \<not> is_ws c" "r = [] \<or> is_ws (hd r)"
      unfolding tok_def r_def using hd_dropWhile [of "\<lambda>c. \<not> is_ws c" t] by (auto dest: set_takeWhileD)
    from words_first [OF this]
    have words: "set (split_on is_ws s) - {[]} = ({tok} \<union> set (split_on is_ws r)) - {[]}"
      using words_skip [of s] by (simp add: t_def)
    have fold: "fold_case ci w \<in> set (split_on is_ws (fold_case ci u))
        \<longleftrightarrow> (\<exists>x\<in>set (split_on is_ws u) - {[]}. fold_case ci x = fold_case ci w)" for u
    proof -
      have "fold_case ci x = fold_case ci w \<Longrightarrow> x \<noteq> []" for x
        using "1.prems" fold_case_parts(4) by metis
      then have "(\<exists>x\<in>set (split_on is_ws u). fold_case ci x = fold_case ci w)
          = (\<exists>x\<in>set (split_on is_ws u) - {[]}. fold_case ci x = fold_case ci w)" by blast
      then show ?thesis unfolding split_on_fold by (metis (no_types, lifting) image_iff set_map)
    qed
    have "length tok = length w \<and> begins ci w tok \<longleftrightarrow> fold_case ci tok = fold_case ci w"
      by (metis begins_fold length_fold_case order.refl take_all_iff)
    moreover have "word_in ci w r \<longleftrightarrow> fold_case ci w \<in> set (split_on is_ws (fold_case ci r))"
      if "\<not> (length tok = length w \<and> begins ci w tok)"
      using "1.IH" [OF False t_def tok_def r_def that "1.prems"] .
    moreover have "word_in ci w s = (if length tok = length w \<and> begins ci w tok then True else word_in ci w r)"
      unfolding word_in.simps [of ci w s] Let_def by (simp only: False if_False t_def tok_def r_def)
    moreover have "fold_case ci tok = fold_case ci w \<Longrightarrow> tok \<noteq> []" using "1.prems" fold_case_parts(4) by metis
    moreover have "(\<exists>x\<in>set (split_on is_ws s) - {[]}. fold_case ci x = fold_case ci w) \<longleftrightarrow>
        (tok \<noteq> [] \<and> fold_case ci tok = fold_case ci w)
        \<or> (\<exists>x\<in>set (split_on is_ws r) - {[]}. fold_case ci x = fold_case ci w)"
      unfolding words by blast
    ultimately show ?thesis unfolding fold [of s] fold [of r] by (simp only: if_split) blast
  qed
qed

lemma tolower_dash [simp]: "(ascii_tolower c = CHR ''-'') = (c = CHR ''-'')"
proof -
  have "ascii_isupper c \<Longrightarrow> ascii_tolower c \<noteq> CHR ''-''"
    using code_tolower [of c] by (auto simp: ascii_isupper_def)
  moreover have "\<not> ascii_isupper CHR ''-''" by (simp add: ascii_isupper_def)
  ultimately show ?thesis by (auto simp: ascii_tolower_def)
qed

lemma hyphen_iff:
  "length w \<le> length v \<and> begins ci w v \<and> (length w < length v \<longrightarrow> v ! length w = CHR ''-'') \<longleftrightarrow>
   fold_case ci v = fold_case ci w \<or> (\<exists>r. fold_case ci v = fold_case ci w @ CHR ''-'' # r)"
proof -
  have nth: "fold_case ci v ! k = CHR ''-'' \<longleftrightarrow> v ! k = CHR ''-''" if "k < length v" for k
    using that by (simp add: fold_case_def)
  show ?thesis
  proof
    assume *: "length w \<le> length v \<and> begins ci w v \<and> (length w < length v \<longrightarrow> v ! length w = CHR ''-'')"
    then obtain r where r: "fold_case ci v = fold_case ci w @ r" using begins_prefix by blast
    show "fold_case ci v = fold_case ci w \<or> (\<exists>r. fold_case ci v = fold_case ci w @ CHR ''-'' # r)"
    proof (cases r)
      case (Cons c u)
      from arg_cong [OF r, of length] have "length w < length v" using Cons by simp
      then have "fold_case ci v ! length w = CHR ''-''" using * nth by simp
      then have "c = CHR ''-''" using r Cons by (simp add: nth_append)
      then show ?thesis using r Cons by blast
    qed (use r in simp)
  next
    assume *: "fold_case ci v = fold_case ci w \<or> (\<exists>r. fold_case ci v = fold_case ci w @ CHR ''-'' # r)"
    then have "\<exists>r. fold_case ci v = fold_case ci w @ r" by (metis append_Nil2)
    then have "length w \<le> length v \<and> begins ci w v" using begins_prefix by blast
    moreover have "v ! length w = CHR ''-''" if l: "length w < length v"
    proof -
      have "fold_case ci v \<noteq> fold_case ci w" using l by (metis length_fold_case less_irrefl)
      then obtain r where "fold_case ci v = fold_case ci w @ CHR ''-'' # r" using * by blast
      then have "fold_case ci v ! length w = CHR ''-''" by (simp add: nth_append)
      then show ?thesis using nth [OF l] by simp
    qed
    ultimately show "length w \<le> length v \<and> begins ci w v \<and> (length w < length v \<longrightarrow> v ! length w = CHR ''-'')"
      by blast
  qed
qed

lemma suffix_iff:
  "length w \<le> length v \<and> fold_case ci (drop (length v - length w) v) = fold_case ci w \<longleftrightarrow>
   (\<exists>r. fold_case ci v = r @ fold_case ci w)"
proof
  assume "length w \<le> length v \<and> fold_case ci (drop (length v - length w) v) = fold_case ci w"
  then show "\<exists>r. fold_case ci v = r @ fold_case ci w"
    by (metis append_take_drop_id fold_case_parts(1))
next
  assume "\<exists>r. fold_case ci v = r @ fold_case ci w"
  then obtain r where r: "fold_case ci v = r @ fold_case ci w" ..
  from arg_cong [OF this, of length] have "length v = length r + length w" by simp
  then show "length w \<le> length v \<and> fold_case ci (drop (length v - length w) v) = fold_case ci w"
    using r by (simp add: fold_case_parts)
qed

lemma attr_value_iff:
  "op = AttrWord \<longrightarrow> w \<noteq> [] \<Longrightarrow>
   attr_value_matches op ci v w \<longleftrightarrow> value_holds op (fold_case ci v) (fold_case ci w)"
proof (cases op)
  case AttrSuffix
  have "(if ci then strcaseeq t w else t = w) = (fold_case ci t = fold_case ci w)" for t
    by (simp add: strcaseeq_def fold_case_def)
  then show ?thesis using AttrSuffix suffix_iff [of w v ci]
    by (auto simp: attr_value_matches_def value_holds_def Let_def fold_case_parts)
next
  case AttrPrefix
  then show ?thesis using begins_prefix [of w v ci]
    by (simp add: attr_value_matches_def value_holds_def fold_case_parts)
next
  case AttrSubstr
  have "(if ci then substr_ci w v else strstr v w \<noteq> None) = (\<exists>l r. fold_case ci v = l @ fold_case ci w @ r)"
    using substr_ci_iff [of w v] strstr_iff [of v w] by (cases ci) (auto simp: fold_case_def)
  then show ?thesis using AttrSubstr
    by (simp add: attr_value_matches_def value_holds_def fold_case_parts)
next
  case AttrHyphen
  then show ?thesis using hyphen_iff [of w v ci] by (simp add: attr_value_matches_def value_holds_def)
next
  case AttrEq
  then show ?thesis by (simp add: attr_value_matches_def value_holds_def fold_case_def strcaseeq_def)
next
  case AttrWord
  moreover assume "op = AttrWord \<longrightarrow> w \<noteq> []"
  ultimately show ?thesis using word_in_iff [of w ci v] by (simp add: attr_value_matches_def value_holds_def)
qed (simp_all add: attr_value_matches_def value_holds_def)

section \<open>Compounds\<close>

text \<open>What the parser makes sure of: attribute names are in lower case with their filter
  bit, there is a combinator for each compound, and selectors are not huge. The words of
  \<open>~=\<close> must not be empty, see \<open>empty_word_matches\<close> below.\<close>

definition attr_wf :: "ns_css_attr_pred \<Rightarrow> bool" where
  "attr_wf a =
     (ns_str_is_ascii_lower (ap_name a) \<and> (ap_bit a = 0 \<or> ap_bit a = ns_attr_name_bloom_bit (ap_name a))
      \<and> (ap_op a = AttrWord \<longrightarrow> ap_value a \<noteq> Some []))"

primrec simple_wf :: "ns_css_simple \<Rightarrow> bool"
  and pseudo_wf :: "ns_css_pseudo_pred \<Rightarrow> bool"
  and selector_wf :: "ns_css_selector \<Rightarrow> bool"
where
  "simple_wf (CssSimple ty i cls attrs pps anyg noneg hasg never nsn) =
     (list_all attr_wf attrs \<and> list_all id (map pseudo_wf pps)
      \<and> list_all (list_all id) (map (map selector_wf) anyg)
      \<and> list_all (list_all id) (map (map selector_wf) noneg)
      \<and> list_all (list_all id) (map (map selector_wf) hasg))"
| "pseudo_wf (CssPseudo k a b arg ofg) =
     (case map_option (map selector_wf) ofg of None \<Rightarrow> True | Some g \<Rightarrow> list_all id g)"
| "selector_wf (CssSelector comps combs pe sa sb sc) =
     (list_all id (map simple_wf comps) \<and> comps \<noteq> [] \<and> length combs = length comps \<and> length comps \<le> 100)"

lemma bloom_bit_nonzero: "ns_attr_name_bloom_bit n \<noteq> 0"
proof -
  have "unat (and (bloom_hash n) 63) < 64"
    using word_and_le1 [of "bloom_hash n" 63] by (simp add: word_le_nat_alt)
  then have "bit (ns_attr_name_bloom_bit n) (unat (and (bloom_hash n) 63))"
    unfolding ns_attr_name_bloom_bit_def by (simp add: bit_exp_iff)
  then show ?thesis by (metis bit_0_eq bot_apply bot_bool_def)
qed

lemma and_of_or: "and (or b m) m = (m :: 64 word)"
  by (rule bit_word_eqI) (auto simp: bit_simps)

lemma find_name_in:
  assumes "nd_kind nd = NodeElement" "names_ok nd" "ns_str_is_ascii_lower name"
    and "ns_element_find_attr nd (Some name) = Some a"
  shows "a \<in> set (nd_attrs nd)" "at_name a = name"
proof -
  have f: "find (attr_test (FlagSvgNs \<in> nd_flags nd) name) (nd_attrs nd) = Some a"
    using assms(1,4) by (simp add: ns_element_find_attr_test)
  then show a: "a \<in> set (nd_attrs nd)" by (auto simp: find_Some_iff)
  have t: "attr_test (FlagSvgNs \<in> nd_flags nd) name a" using f by (auto simp: find_Some_iff)
  show "at_name a = name"
  proof (cases "FlagSvgNs \<in> nd_flags nd")
    case True
    then show ?thesis using t by (simp add: attr_test_def)
  next
    case False
    then have "ns_str_is_ascii_lower (at_name a)" using assms(2) a by (auto simp: names_ok_def list_all_iff)
    moreover have "strdown s = s" if "ns_str_is_ascii_lower s" for s
      using that by (auto simp: ns_str_is_ascii_lower_def list_all_iff ascii_tolower_def intro: map_idI)
    ultimately show ?thesis using attr_test_name [OF t] assms(3) by (simp add: strcaseeq_def)
  qed
qed

lemma bloom_passes:
  assumes "nd_kind nd = NodeElement" "element_ok nd" "names_ok nd" "ns_str_is_ascii_lower name"
    and "ns_element_get_attr nd (Some name) \<noteq> None"
  shows "and (fst (ns_node_attr_bloom nd)) (ns_attr_name_bloom_bit name) \<noteq> 0"
proof -
  obtain a where "ns_element_find_attr nd (Some name) = Some a"
    using assms(5) by (auto simp: ns_element_get_attr_def)
  from find_name_in [OF assms(1,3,4) this] have a: "a \<in> set (nd_attrs nd)" "at_name a = name" by auto
  have "or (name_bloom (nd_attrs nd)) (ns_attr_name_bloom_bit name) = name_bloom (nd_attrs nd)"
    unfolding name_bloom_def using fold_or_bits [OF a(1), of "\<lambda>a. ns_attr_name_bloom_bit (at_name a)"] a(2) by simp
  then have "and (name_bloom (nd_attrs nd)) (ns_attr_name_bloom_bit name) = ns_attr_name_bloom_bit name"
    using and_of_or [of "name_bloom (nd_attrs nd)" "ns_attr_name_bloom_bit name"] by simp
  then show ?thesis using bloom_ok(2) [OF assms(2)] bloom_bit_nonzero by simp
qed

lemma attr_pred_iff:
  assumes "h el = Some nd" "nd_kind nd = NodeElement" "element_ok nd" "names_ok nd" "attr_wf a"
  shows "attr_pred_matches h el a \<longleftrightarrow> attr_holds h el a"
proof (cases "ns_element_get_attr nd (Some (ap_name a))")
  case None
  then show ?thesis using assms(1) by (simp add: attr_pred_matches_def attr_holds_def node_attr_def)
next
  case (Some v)
  have b: "\<not> (ap_bit a \<noteq> 0 \<and> and (fst (ns_node_attr_bloom nd)) (ap_bit a) = 0)"
    using bloom_passes [OF assms(2-4), of "ap_name a"] Some assms(5) by (auto simp: attr_wf_def)
  define ci where "ci = (ap_ci a \<or> (\<not> ap_cs a
      \<and> (FlagForeignNs \<notin> nd_flags nd \<and> FlagSvgNs \<notin> nd_flags nd \<and> FlagXmlDoc \<notin> nd_flags nd)
      \<and> ns_css_html_ci_attr (ap_name a)))"
  have c: "attr_pred_matches h el a = (if ap_op a = AttrPresent then True
      else case ap_value a of None \<Rightarrow> False | Some w \<Rightarrow> attr_value_matches (ap_op a) ci v w)"
    unfolding attr_pred_matches_def using assms(1) Some b by (simp only: option.case Let_def if_False ci_def)
  have d: "attr_holds h el a = (case ap_value a of None \<Rightarrow> ap_op a = AttrPresent
      | Some w \<Rightarrow> value_holds (ap_op a) (fold_case ci v) (fold_case ci w))"
  proof -
    have "(nd_flags nd \<inter> {FlagForeignNs, FlagSvgNs, FlagXmlDoc} = {})
        = (FlagForeignNs \<notin> nd_flags nd \<and> FlagSvgNs \<notin> nd_flags nd \<and> FlagXmlDoc \<notin> nd_flags nd)" by blast
    then show ?thesis unfolding attr_holds_def node_attr_def node_flags_def ci_def Let_def
      using assms(1) Some by (cases "ap_value a") simp_all
  qed
  show ?thesis
  proof (cases "ap_value a")
    case (Some w)
    then show ?thesis unfolding c d using attr_value_iff [of "ap_op a" w ci v] assms(5)
      by (auto simp: attr_wf_def value_holds_def)
  qed (simp add: c d)
qed

lemma type_iff:
  assumes "h el = Some nd"
  shows "(case ty of None \<Rightarrow> True
           | Some t \<Rightarrow> t = ''*'' \<or> (case nd_name nd of None \<Rightarrow> False
               | Some name \<Rightarrow>
                 if FlagSvgNs \<in> nd_flags nd \<or> FlagForeignNs \<in> nd_flags nd then t = name
                 else strdown (take 1 name) = strdown (take 1 t) \<and> strcaseeq t name)) \<longleftrightarrow> type_holds h el ty"
proof -
  have "strdown (take 1 a) = strdown (take 1 b)" if "strdown b = strdown a" for a b
    using arg_cong [OF that, of "take 1"] by (simp add: take_map)
  then have first: "strdown (take 1 b) = strdown (take 1 a) \<and> strcaseeq a b \<longleftrightarrow> strdown a = strdown b" for a b
    unfolding strcaseeq_def by metis
  have svg: "(nd_flags nd \<inter> {FlagForeignNs, FlagSvgNs} = {}) = (\<not> (FlagSvgNs \<in> nd_flags nd \<or> FlagForeignNs \<in> nd_flags nd))"
    by blast
  show ?thesis
  proof (cases ty)
    case (Some t)
    show ?thesis
      unfolding type_holds_def node_name_def node_flags_def assms option.case svg Some first
      by (cases "nd_name nd") simp_all
  qed (simp add: type_holds_def)
qed

lemma simple_matches_iff:
  assumes "document_ok n h ch" "list_all attr_wf attrs"
  shows "simple_matches h el ty i cls attrs nsn \<longleftrightarrow>
     is_element h el \<and> type_holds h el ty \<and> (nsn \<longrightarrow> null_namespace h el) \<and> (i \<noteq> None \<longrightarrow> node_attr h el ''id'' = i)
     \<and> list_all (\<lambda>c. c \<in> set (class_tokens (the (h el)))) cls \<and> list_all (attr_holds h el) attrs"
proof (cases "h el")
  case None
  then show ?thesis by (simp add: simple_matches_def is_element_def)
next
  case (Some nd)
  show ?thesis
  proof (cases "nd_kind nd = NodeElement")
    case True
    note ok = document_okD(6) [OF assms(1) Some True]
    have "list_all (attr_pred_matches h el) attrs = list_all (attr_holds h el) attrs"
      using attr_pred_iff [of h el nd] Some True ok assms(2) by (auto simp: list_all_iff)
    moreover have "list_all (\<lambda>c. fst (ns_node_has_class nd c)) cls = list_all (\<lambda>c. c \<in> set (class_tokens nd)) cls"
      using has_class_ok(2) [of nd] ok by simp
    ultimately show ?thesis unfolding simple_matches_def Some option.case type_iff [of h el nd, OF Some, symmetric]
      using True Some
      by (auto simp: is_element_def null_namespace_def node_flags_def has_attr_def node_attr_def split: option.splits)
  next
    case False
    then show ?thesis using Some by (simp add: simple_matches_def is_element_def)
  qed
qed

section \<open>The n-th sibling\<close>

lemma nth_index_iff: "nth_index_matches a b idx \<longleftrightarrow> (\<exists>j::nat. idx = a * int j + b)"
proof (cases "a = 0")
  case False
  let ?d = "idx - b"
  show ?thesis
  proof
    assume "nth_index_matches a b idx"
    then have m: "?d smod a = 0" "0 \<le> ?d sdiv a" using False by (simp_all add: nth_index_matches_def)
    have "?d = a * (?d sdiv a)" using mult_sdiv_smod_eq [of a ?d] m(1) by simp
    then have "idx = a * int (nat (?d sdiv a)) + b" using m(2) by simp
    then show "\<exists>j::nat. idx = a * int j + b" by blast
  next
    assume "\<exists>j::nat. idx = a * int j + b"
    then obtain j :: nat where "idx = a * int j + b" by blast
    then have j: "?d = a * int j" by simp
    have q: "?d sdiv a = int j"
      using False unfolding j by (cases "j = 0") (simp_all add: signed_divide_int_def sgn_mult abs_mult mult.assoc)
    then have "?d smod a = 0" using mult_sdiv_smod_eq [of a ?d] unfolding q j by simp
    then show "nth_index_matches a b idx" using False q by (simp add: nth_index_matches_def)
  qed
qed (auto simp: nth_index_matches_def)

lemma nth_candidates_eq:
  assumes "document_ok n h ch"
  shows "set (nth_candidates n h k el) = set (counted_siblings h ch k el)"
    "length (filter Q (nth_candidates n h k el)) = length (filter Q (counted_siblings h ch k el))"
proof -
  note w = siblings_walks [OF document_okD(1,2) [OF assms], of el]
  have r: "length (filter Q (filter R (rev xs))) = length (filter Q (filter R xs))" for R :: "nat \<Rightarrow> bool" and xs
    by (metis length_rev rev_filter)
  show "set (nth_candidates n h k el) = set (counted_siblings h ch k el)"
    unfolding nth_candidates_def counted_siblings_def w by auto
  show "length (filter Q (nth_candidates n h k el)) = length (filter Q (counted_siblings h ch k el))"
    unfolding nth_candidates_def counted_siblings_def w by (simp only: r split: if_split) simp
qed

lemma nth_answers:
  assumes ok: "document_ok n h ch"
    and g: "\<And>g s x. ofg = Some g \<Longrightarrow> s \<in> set g \<Longrightarrow> answers (m s x) (P s x)"
  defines "good \<equiv> (\<lambda>x. case ofg of None \<Rightarrow> True | Some g \<Rightarrow> \<exists>s\<in>set g. P s x)"
  shows "answers (\<lambda>ops. let (idx, o1) = ns_css_sibling_counts_for_nth n h k (map_option (map m) ofg) el ops
           in (case idx of None \<Rightarrow> False | Some j \<Rightarrow> nth_index_matches a b j, o1))
     (good el \<and> (\<exists>j::nat. 1 + int (length (filter good (counted_siblings h ch k el))) = a * int j + b))"
proof (cases ofg)
  case None
  then show ?thesis using nth_candidates_eq(2) [OF ok, of "\<lambda>_. True" k el]
    by (simp add: good_def ns_css_sibling_counts_for_nth_def nth_index_iff answers_def)
next
  case (Some gs)
  define q where "q = (\<lambda>x. any_of (map (\<lambda>s. m s x) gs))"
  have q: "answers (q x) (good x)" for x
    unfolding q_def good_def using g [OF Some] Some by (simp only: option.case) (rule answers_any)
  let ?c = "nth_candidates n h k el"
  define f where "f = (\<lambda>ops. let (c, o1) = count_of (map q ?c) ops; (b, o2) = q el o1
      in (if b then Some (1 + int c) else None, o2))"
  have f: "ns_css_sibling_counts_for_nth n h k (map_option (map m) ofg) el = f"
    by (simp add: fun_eq_iff ns_css_sibling_counts_for_nth_def f_def q_def Some comp_def)
  show ?thesis unfolding f answers_def
  proof (intro allI conjI impI)
    fix ops
    define c where "c = count_of (map q ?c) ops"
    have c: "ops \<le> snd c" "snd c \<le> ns_sel_match_budget \<Longrightarrow> fst c = length (filter good ?c)"
      using count_of_answers [where xs = ?c and f = q, OF q] by (simp_all add: c_def)
    have fe: "f ops = (if fst (q el (snd c)) then Some (1 + int (fst c)) else None, snd (q el (snd c)))"
      by (simp add: f_def c_def split_beta Let_def)
    have r: "(let (idx, o1) = f ops in (case idx of None \<Rightarrow> False | Some j \<Rightarrow> nth_index_matches a b j, o1))
        = (fst (q el (snd c)) \<and> nth_index_matches a b (1 + int (fst c)), snd (q el (snd c)))"
      by (simp add: fe)
    show "ops \<le> snd (let (idx, o1) = f ops in (case idx of None \<Rightarrow> False | Some j \<Rightarrow> nth_index_matches a b j, o1))"
      unfolding r using c(1) answersD(1) [OF q [of el], of "snd c"] by simp
    assume "snd (let (idx, o1) = f ops in (case idx of None \<Rightarrow> False | Some j \<Rightarrow> nth_index_matches a b j, o1))
        \<le> ns_sel_match_budget"
    then have b: "snd (q el (snd c)) \<le> ns_sel_match_budget" unfolding r by simp
    then have "fst (q el (snd c)) = good el" "fst c = length (filter good ?c)"
      using answersD [OF q [of el], of "snd c"] c(2) by auto
    then show "fst (let (idx, o1) = f ops in (case idx of None \<Rightarrow> False | Some j \<Rightarrow> nth_index_matches a b j, o1)) =
        (good el \<and> (\<exists>j::nat. 1 + int (length (filter good (counted_siblings h ch k el))) = a * int j + b))"
      unfolding r unfolding fst_conv nth_index_iff nth_candidates_eq(2) [OF ok] by (simp only:)
  qed
qed

section \<open>Selectors\<close>

lemma up_spec:
  assumes "comps \<noteq> []"
  shows "(\<exists>ns. list_all2 (\<lambda>P x. P scope x) (map S comps) ns \<and> ns \<noteq> [] \<and> last ns = el
             \<and> (\<forall>i. Suc i < length ns \<longrightarrow> comb_rel h ch (combs ! Suc i) (ns ! i) (ns ! Suc i)))
     \<longleftrightarrow> S (comps ! (length comps - 1)) scope el
         \<and> up_holds h ch (map (\<lambda>c x. S c scope x) comps) combs (length comps - 1) el" (is "?l \<longleftrightarrow> ?r")
proof -
  obtain k where k: "length comps = Suc k" using assms by (cases "length comps") auto
  show ?thesis
  proof
    assume ?l
    then obtain ns where ns: "list_all2 (\<lambda>P x. P scope x) (map S comps) ns" "ns \<noteq> []" "last ns = el"
      "\<forall>i. Suc i < length ns \<longrightarrow> comb_rel h ch (combs ! Suc i) (ns ! i) (ns ! Suc i)" by blast
    define ms where "ms = butlast ns"
    have n: "ns = ms @ [el]" using append_butlast_last_id [OF ns(2)] ns(3) by (simp add: ms_def)
    have len: "length ms = k" using ns(1) k n by (simp add: list_all2_conv_all_nth)
    have h: "S (comps ! j) scope (ns ! j)" if "j < Suc k" for j
      using ns(1) that k by (simp add: list_all2_conv_all_nth)
    have "up_holds h ch (map (\<lambda>c x. S c scope x) comps) combs k el"
      unfolding up_holds_nodes
    proof (intro exI [of _ ms] conjI allI impI)
      fix j assume j: "j < k"
      show "(map (\<lambda>c x. S c scope x) comps ! j) (ms ! j)"
        using h [of j] j len k unfolding n by (simp add: nth_append)
      show "comb_rel h ch (combs ! Suc j) ((ms @ [el]) ! j) ((ms @ [el]) ! Suc j)"
        using ns(4) [rule_format, of j] j len unfolding n by simp
    qed (rule len)
    moreover have "S (comps ! k) scope el" using h [of k] len unfolding n by (simp add: nth_append)
    ultimately show ?r using k by simp
  next
    assume ?r
    then have s: "S (comps ! k) scope el" "up_holds h ch (map (\<lambda>c x. S c scope x) comps) combs k el"
      using k by auto
    from s(2) obtain ms where ms: "length ms = k" "\<forall>j < k. (map (\<lambda>c x. S c scope x) comps ! j) (ms ! j)"
      "\<forall>j < k. comb_rel h ch (combs ! Suc j) ((ms @ [el]) ! j) ((ms @ [el]) ! Suc j)"
      unfolding up_holds_nodes by blast
    show ?l
    proof (intro exI [of _ "ms @ [el]"] conjI allI impI)
      show "list_all2 (\<lambda>P x. P scope x) (map S comps) (ms @ [el])"
        using ms(1,2) s(1) k by (auto simp: list_all2_conv_all_nth nth_append less_Suc_eq)
    qed (use ms in auto)
  qed
qed

lemma chain_shift:
  "(\<exists>x. X x \<and> P x \<and> (\<exists>ns. L ns \<and> (\<forall>i < length ns. R x ns i)))
     \<longleftrightarrow> (\<exists>x ns. (P x \<and> L ns) \<and> X x \<and> (\<forall>i < length ns. R x ns i))"
  by blast

lemma list_all2_exists:
  "(\<exists>x ns. list_all2 F (i # is) (x # ns) \<and> R (x # ns)) \<longleftrightarrow> (\<exists>ns. list_all2 F (i # is) ns \<and> R ns)"
  by (metis list_all2_Cons1)

lemma down_holds_nodes:
  "down_holds h ch first items b \<longleftrightarrow>
     (\<exists>ns. list_all2 (\<lambda>i x. fst i x) items ns
       \<and> (\<forall>i < length ns. comb_rel h ch (fst (snd (items ! i))) ((b # ns) ! i) (ns ! i)
            \<or> (first \<and> i = 0 \<and> snd (snd (items ! 0)) \<and> fst (snd (items ! 0)) \<in> {CombNone, CombDescendant}
               \<and> ns ! 0 = b)))"
proof (induction items arbitrary: first b)
  case Nil
  then show ?case by simp
next
  case (Cons item items)
  obtain P c s where item: "item = (P, c, s)" by (cases item) auto
  have "down_holds h ch first (item # items) b \<longleftrightarrow>
      (\<exists>x. (comb_rel h ch c b x \<or> (first \<and> s \<and> c \<in> {CombNone, CombDescendant} \<and> x = b)) \<and> P x
        \<and> (\<exists>ns. list_all2 (\<lambda>i x. fst i x) items ns
           \<and> (\<forall>i < length ns. comb_rel h ch (fst (snd (items ! i))) ((x # ns) ! i) (ns ! i))))"
    unfolding item down_holds.simps Cons.IH by simp
  also have "\<dots> \<longleftrightarrow> (\<exists>x ns. list_all2 (\<lambda>i x. fst i x) (item # items) (x # ns)
      \<and> (\<forall>i < length (x # ns). comb_rel h ch (fst (snd ((item # items) ! i))) ((b # x # ns) ! i) ((x # ns) ! i)
            \<or> (first \<and> i = 0 \<and> snd (snd ((item # items) ! 0))
               \<and> fst (snd ((item # items) ! 0)) \<in> {CombNone, CombDescendant} \<and> (x # ns) ! 0 = b)))"
    by (simp only: item length_Cons All_less_Suc2 list_all2_Cons nth_Cons_0 nth_Cons_Suc fst_conv snd_conv
        nat.distinct simp_thms chain_shift)
  also have "\<dots> \<longleftrightarrow> (\<exists>ns. list_all2 (\<lambda>i x. fst i x) (item # items) ns
      \<and> (\<forall>i < length ns. comb_rel h ch (fst (snd ((item # items) ! i))) ((b # ns) ! i) (ns ! i)
            \<or> (first \<and> i = 0 \<and> snd (snd ((item # items) ! 0))
               \<and> fst (snd ((item # items) ! 0)) \<in> {CombNone, CombDescendant} \<and> ns ! 0 = b)))"
    by (rule list_all2_exists)
  finally show ?case .
qed

lemma group_answers:
  assumes "\<And>s. s \<in> set g \<Longrightarrow> answers (q s) (P s)"
  shows "answers (any_of (map q g)) (list_ex P g)"
  using answers_any [of g q P] assms by (simp add: list_ex_iff)

lemma groups_answer:
  assumes "\<And>g s. g \<in> set gs \<Longrightarrow> s \<in> set g \<Longrightarrow> answers (q s) (P s)"
  shows "answers (all_of (map (\<lambda>g. any_of (map q g)) gs)) (list_all (list_ex P) gs)"
    "answers (all_of (map (\<lambda>g. not_of (any_of (map q g))) gs)) (list_all (\<lambda>g. \<not> list_ex P g) gs)"
proof -
  have "answers (any_of (map q g)) (list_ex P g)" if "g \<in> set gs" for g
    using assms that by (intro group_answers) auto
  from answers_all [of gs, OF this] answers_all [of gs, OF answers_not [OF this]]
  show "answers (all_of (map (\<lambda>g. any_of (map q g)) gs)) (list_all (list_ex P) gs)"
    "answers (all_of (map (\<lambda>g. not_of (any_of (map q g))) gs)) (list_all (\<lambda>g. \<not> list_ex P g) gs)"
    by (simp_all add: list_all_iff)
qed

lemma simple_holds_element: "simple_holds env n h ch c scope x \<Longrightarrow> is_element h x"
  by (cases c) simp

lemma filter_rev_empty: "(filter P (rev xs) = []) = (filter P xs = [])"
  by (auto simp: filter_empty_conv)

lemma pseudo_means_iff:
  assumes "document_ok n h ch"
  shows "pseudo_matches env n h k arg scope el = pseudo_means env n h ch k arg scope el"
proof -
  have "list_ex Q xs = (filter Q xs \<noteq> [])" for Q :: "nat \<Rightarrow> bool" and xs
    by (auto simp: list_ex_iff filter_empty_conv)
  then show ?thesis
    by (cases k) (auto simp: pseudo_means_def pseudo_matches_def same_type_in_def filter_rev_empty
        siblings_walks [OF document_okD(1,2) [OF assms], of el])
qed

lemma selector_answers:
  assumes ok: "document_ok n h ch"
  shows "simple_wf c \<Longrightarrow> answers (match_simple env n h c scope el) (simple_holds env n h ch c scope el)"
    and "pseudo_wf p \<Longrightarrow> answers (match_pseudo env n h p scope el) (pseudo_holds env n h ch p scope el)"
    and "selector_wf s \<Longrightarrow>
      answers (match_selector env n h s scope el) (selector_holds env n h ch s False scope el)
      \<and> (is_element h el \<longrightarrow>
          answers (has_relative_matches env n h s scope el) (selector_holds env n h ch s True scope el))"
proof (induction c and p and s arbitrary: scope el and scope el and scope el
    rule: ns_css_simple.induct ns_css_pseudo_pred.induct ns_css_selector.induct)
  case (CssSimple ty i cls attrs pps anyg noneg hasg never nsn)
  have w: "list_all attr_wf attrs" "\<And>p. p \<in> set pps \<Longrightarrow> pseudo_wf p"
    "\<And>g s. g \<in> set anyg \<Longrightarrow> s \<in> set g \<Longrightarrow> selector_wf s"
    "\<And>g s. g \<in> set noneg \<Longrightarrow> s \<in> set g \<Longrightarrow> selector_wf s"
    "\<And>g s. g \<in> set hasg \<Longrightarrow> s \<in> set g \<Longrightarrow> selector_wf s"
    using CssSimple.prems by (auto simp: list_all_iff)
  show ?case
  proof (cases "never \<or> \<not> simple_matches h el ty i cls attrs nsn")
    case True
    then have f: "simple_holds env n h ch (CssSimple ty i cls attrs pps anyg noneg hasg never nsn) scope el = False"
      using simple_matches_iff [OF ok w(1), of el ty i cls nsn] by auto
    have "match_simple env n h (CssSimple ty i cls attrs pps anyg noneg hasg never nsn) scope el = (\<lambda>ops. (False, ops))"
      using True by (simp add: match_simple.simps)
    then show ?thesis unfolding f by (simp only: answers_False)
  next
    case False
    let ?sel = "selector_holds env n h ch"
    have e: "is_element h el" using False simple_matches_iff [OF ok w(1)] by blast
    have p: "answers (all_of (map (\<lambda>p. match_pseudo env n h p scope el) pps))
        (\<forall>p\<in>set pps. pseudo_holds env n h ch p scope el)"
      using CssSimple.IH(1) w(2) by (intro answers_all) auto
    have a: "answers (all_of (map (\<lambda>g. any_of (map (\<lambda>s. match_selector env n h s scope el) g)) anyg))
        (list_all (list_ex (\<lambda>s. ?sel s False scope el)) anyg)"
      using CssSimple.IH(2) w(3) by (intro groups_answer(1)) blast
    have o: "answers (all_of (map (\<lambda>g. not_of (any_of (map (\<lambda>s. match_selector env n h s scope el) g))) noneg))
        (list_all (\<lambda>g. \<not> list_ex (\<lambda>s. ?sel s False scope el) g) noneg)"
      using CssSimple.IH(3) w(4) by (intro groups_answer(2)) blast
    have b: "answers (all_of (map (\<lambda>g. any_of (map (\<lambda>s. has_relative_matches env n h s scope el) g)) hasg))
        (list_all (list_ex (\<lambda>s. ?sel s True scope el)) hasg)"
      using CssSimple.IH(4) w(5) e by (intro groups_answer(1)) blast
    have l: "list_all (\<lambda>P. P scope el) (map f xs) = (\<forall>x\<in>set xs. f x scope el)"
      for f :: "ns_css_pseudo_pred \<Rightarrow> nat option \<Rightarrow> nat \<Rightarrow> bool" and xs
      by (simp add: list_all_iff)
    have g: "list_all (\<lambda>g. list_ex (\<lambda>P. P r scope el) g) (map (map ?sel) gs)
        = list_all (list_ex (\<lambda>s. ?sel s r scope el)) gs"
      "list_all (\<lambda>g. \<not> list_ex (\<lambda>P. P r scope el) g) (map (map ?sel) gs)
        = list_all (\<lambda>g. \<not> list_ex (\<lambda>s. ?sel s r scope el) g) gs" for r gs
      by (simp_all add: list_all_iff list_ex_iff)
    have m: "match_simple env n h (CssSimple ty i cls attrs pps anyg noneg hasg never nsn) scope el = all_of
        (map (\<lambda>p. match_pseudo env n h p scope el) pps
         @ map (\<lambda>g. any_of (map (\<lambda>s. match_selector env n h s scope el) g)) anyg
         @ map (\<lambda>g. not_of (any_of (map (\<lambda>s. match_selector env n h s scope el) g))) noneg
         @ map (\<lambda>g. any_of (map (\<lambda>s. has_relative_matches env n h s scope el) g)) hasg)"
      using False by (simp add: match_simple.simps)
    have r: "simple_holds env n h ch (CssSimple ty i cls attrs pps anyg noneg hasg never nsn) scope el \<longleftrightarrow>
        (\<forall>p\<in>set pps. pseudo_holds env n h ch p scope el)
        \<and> list_all (list_ex (\<lambda>s. ?sel s False scope el)) anyg
        \<and> list_all (\<lambda>g. \<not> list_ex (\<lambda>s. ?sel s False scope el) g) noneg
        \<and> list_all (list_ex (\<lambda>s. ?sel s True scope el)) hasg"
      unfolding simple_holds.simps l g using False simple_matches_iff [OF ok w(1), of el ty i cls nsn] by blast
    show ?thesis unfolding m r by (intro answers_append p a o b)
  qed
next
  case (CssPseudo k a b arg ofg)
  have w: "ofg = Some g \<Longrightarrow> s \<in> set g \<Longrightarrow> selector_wf s" for g s
    using CssPseudo.prems by (simp add: list_all_iff)
  have s: "answers (match_selector env n h s scope x) (selector_holds env n h ch s False scope x)"
    if "ofg = Some g" "s \<in> set g" for g s x
    using CssPseudo.IH [of g s] that w by simp
  show ?case
  proof (cases "is_nth k")
    case True
    have m: "match_pseudo env n h (CssPseudo k a b arg ofg) scope el =
        (\<lambda>ops. let (idx, o1) = ns_css_sibling_counts_for_nth n h k
               (map_option (map (\<lambda>s x. match_selector env n h s scope x)) ofg) el ops
           in (case idx of None \<Rightarrow> False | Some j \<Rightarrow> nth_index_matches a b j, o1))"
      using True by (simp add: match_pseudo.simps)
    have p: "pseudo_holds env n h ch (CssPseudo k a b arg ofg) scope el =
        ((case ofg of None \<Rightarrow> True | Some g \<Rightarrow> \<exists>s\<in>set g. selector_holds env n h ch s False scope el)
         \<and> (\<exists>j::nat. 1 + int (length (filter (\<lambda>x. case ofg of None \<Rightarrow> True
              | Some g \<Rightarrow> \<exists>s\<in>set g. selector_holds env n h ch s False scope x) (counted_siblings h ch k el)))
            = a * int j + b))"
      using True by (cases ofg) (simp_all add: Let_def list_ex_iff)
    show ?thesis unfolding m p by (rule nth_answers [OF ok s])
  next
    case False
    then show ?thesis using pseudo_means_iff [OF ok] answers_const by (simp add: match_pseudo.simps)
  qed
next
  case (CssSelector comps combs pe sa sb sc)
  let ?S = "simple_holds env n h ch"
  have w: "\<And>c. c \<in> set comps \<Longrightarrow> simple_wf c" "comps \<noteq> []" "length combs = length comps" "length comps \<le> 100"
    using CssSelector.prems by (auto simp: list_all_iff)
  have c: "answers (match_simple env n h c sc' x) (?S c sc' x)" if "c \<in> set comps" for c sc' x
    using CssSelector.IH [OF that] w(1) [OF that] by blast
  show ?case
  proof (cases "pe = PeNone")
    case False
    then have f: "selector_holds env n h ch (CssSelector comps combs pe sa sb sc) r scope el = False" for r
      by simp
    have "match_selector env n h (CssSelector comps combs pe sa sb sc) scope el = (\<lambda>ops. (False, ops))"
      "has_relative_matches env n h (CssSelector comps combs pe sa sb sc) scope el = (\<lambda>ops. (False, ops))"
      using False by (simp_all add: match_selector.simps has_relative_matches.simps)
    then show ?thesis unfolding f by (simp only: answers_False simp_thms)
  next
    case True
    obtain k where k: "length comps = Suc k" using w(2) by (cases "length comps") auto
    define ms where "ms = map (\<lambda>c x. match_simple env n h c scope x) comps"
    define Ps where "Ps = map (\<lambda>c x. ?S c scope x) comps"
    have mp: "answers ((ms ! j) x) ((Ps ! j) x)" "(Ps ! j) x \<Longrightarrow> is_element h x" if "j < Suc k" for j x
      using that c [of "comps ! j"] k simple_holds_element by (auto simp: ms_def Ps_def)
    have "answers (match_complex_chain n h ms combs k el) (up_holds h ch Ps combs k el)"
    proof (rule match_chain_answers [OF ok, where k = k])
      show "answers ((ms ! j) x) ((Ps ! j) x)" if "j < k" for j x using mp(1) that by simp
      show "is_element h x" if "j < k" "(Ps ! j) x" for j x using mp(2) [of j x] that by simp
    qed simp
    then have "answers (all_of [(ms ! k) el, match_complex_chain n h ms combs k el])
        ((Ps ! k) el \<and> up_holds h ch Ps combs k el)"
      using mp(1) by (intro answers_pair(1)) auto
    moreover have "match_selector env n h (CssSelector comps combs pe sa sb sc) scope el
        = all_of [(ms ! k) el, match_complex_chain n h ms combs k el]"
      using True w(2) k by (simp add: match_selector.simps ms_def Let_def)
    moreover have "selector_holds env n h ch (CssSelector comps combs pe sa sb sc) False scope el
        \<longleftrightarrow> (Ps ! k) el \<and> up_holds h ch Ps combs k el"
      using up_spec [OF w(2), of scope ?S el h ch combs] True k unfolding Ps_def by simp
    ultimately have sel: "answers (match_selector env n h (CssSelector comps combs pe sa sb sc) scope el)
        (selector_holds env n h ch (CssSelector comps combs pe sa sb sc) False scope el)" by simp
    define sc' where "sc' = Some (case scope of Some s \<Rightarrow> s | None \<Rightarrow> el)"
    define items where "items = zip (map (\<lambda>c x. match_simple env n h c sc' x) comps)
        (zip combs (map has_simple_scope_pseudo comps))"
    define pitems where "pitems = zip (map (\<lambda>c x. ?S c sc' x) comps) (zip combs (map has_simple_scope_pseudo comps))"
    have len: "length items = Suc k" "length pitems = Suc k" using k w(3) by (simp_all add: items_def pitems_def)
    have "list_all2 (item_answers h) items pitems"
      unfolding list_all2_conv_all_nth
    proof (intro conjI allI impI)
      fix i assume "i < length items"
      then show "item_answers h (items ! i) (pitems ! i)"
        using c [of "comps ! i"] k w(3) simple_holds_element
        by (auto simp: items_def pitems_def item_answers_def)
    qed (simp add: len)
    from relative_chain_answers [OF ok this, of el True el 0]
    have rel: "answers (relative_chain_matches n h el True items el 0) (down_holds h ch True pitems el)"
      if "is_element h el"
      using that len w(4) k by simp
    have hr: "has_relative_matches env n h (CssSelector comps combs pe sa sb sc) scope el
        = relative_chain_matches n h el True items el 0"
      using True by (simp add: has_relative_matches.simps items_def sc'_def Let_def split: option.split)
    have "down_holds h ch True pitems el \<longleftrightarrow>
        selector_holds env n h ch (CssSelector comps combs pe sa sb sc) True scope el"
    proof -
      have a: "list_all2 (\<lambda>i x. fst i x) pitems ns \<longleftrightarrow> list_all2 (\<lambda>P x. P sc' x) (map ?S comps) ns" for ns
        using w(3) by (auto simp: list_all2_conv_all_nth pitems_def)
      have b: "(\<forall>i<length ns. comb_rel h ch (fst (snd (pitems ! i))) ((el # ns) ! i) (ns ! i)
            \<or> (True \<and> i = 0 \<and> snd (snd (pitems ! 0)) \<and> fst (snd (pitems ! 0)) \<in> {CombNone, CombDescendant}
               \<and> ns ! 0 = el))
          \<longleftrightarrow> (\<forall>i < length ns. comb_rel h ch (combs ! i) ((el # ns) ! i) (ns ! i)
                  \<or> (i = 0 \<and> combs ! 0 \<in> {CombNone, CombDescendant} \<and> ns ! 0 = el
                     \<and> has_simple_scope_pseudo (comps ! 0)))"
        if "list_all2 (\<lambda>i x. fst i x) pitems ns" for ns
      proof -
        have n: "length ns = Suc k" using list_all2_lengthD [OF that] len by simp
        have "pitems ! i = (\<lambda>x. ?S (comps ! i) sc' x, combs ! i, has_simple_scope_pseudo (comps ! i))"
          if "i < Suc k" for i using that k w(3) by (simp add: pitems_def)
        then show ?thesis using n by auto
      qed
      show ?thesis
        unfolding down_holds_nodes selector_holds.simps sc'_def [symmetric] using True a b by (simp cong: conj_cong)
    qed
    then show ?thesis using sel rel hr by simp
  qed
qed

text \<open>(C2) The matcher computes what selectors mean: in a document whose caches are right
  and which is no deeper and no wider than the limits of the walks, a well-formed
  selector with any nesting of \<open>:is\<close>, \<open>:not\<close>, \<open>:has\<close> and \<open>:nth-child(... of ...)\<close> matches
  an element exactly if nodes can be found for its compounds, the last one being the
  element, that stand in the relations of its combinators, whenever the search ends
  within its budget of steps.\<close>

theorem css_selector_meaning:
  assumes "document_ok n h ch" and "selector_wf sel"
    and "snd (match_selector env n h sel scope el 0) \<le> ns_sel_match_budget"
  shows "ns_css_selector_matches env n h sel scope el = selector_holds env n h ch sel False scope el"
  using answersD(2) [OF conjunct1 [OF selector_answers(3) [OF assms(1,2)]] assms(3)]
  by (simp add: ns_css_selector_matches_def)

section \<open>A sample document\<close>

text \<open>A list with two items, the second of class \<open>on\<close>.\<close>

definition list_node ::
    "cptr \<Rightarrow> ns_attr list \<Rightarrow> nat option \<Rightarrow> nat list \<Rightarrow> nat option \<Rightarrow> nat option \<Rightarrow> ns_node" where
  "list_node name attrs parent kids prev next =
     \<lparr>nd_kind = (if name = None then NodeDocument else NodeElement), nd_name = name, nd_text = None,
      nd_attrs = attrs, nd_parent = parent, nd_first_child = hd_opt kids, nd_last_child = last_opt kids,
      nd_prev_sibling = prev, nd_next_sibling = next, nd_tpl_content = None, nd_class_set = None,
      nd_attr_bloom = 0, nd_attr_gen = 0, nd_flags = {}\<rparr>"

definition list_doc :: dom where
  "list_doc i =
     (if i = 0 then Some (list_node None [] None [1] None None)
      else if i = 1 then Some (list_node (Some ''ul'') [] (Some 0) [2, 3] None None)
      else if i = 2 then Some (list_node (Some ''li'') [] (Some 1) [] None (Some 3))
      else if i = 3 then Some (list_node (Some ''li'') [plain_attr ''class'' ''item on''] (Some 1) [] (Some 2) None)
      else None)"

definition list_children :: "nat \<Rightarrow> nat list" where
  "list_children p = (if p = 0 then [1] else if p = 1 then [2, 3] else [])"

definition calm_env :: css_env where
  "calm_env = \<lparr>ce_hover = None, ce_active = None, ce_focus = None, ce_fullscreen = None, ce_modal = None,
     ce_target = None, ce_defined = [], ce_visited = [], ce_base = None, ce_resolve = (\<lambda>_ _. None),
     ce_query = (\<lambda>_ _ _. False)\<rparr>"

lemma list_doc_linked: "linked list_doc list_children"
proof (rule linkedI)
  show "siblings list_doc p None (list_children p) None" for p
    by (simp add: list_children_def list_doc_def list_node_def ptr_def siblings.simps)
qed (auto simp: list_children_def list_doc_def list_node_def ptr_def last_opt_def split: if_splits)

lemma list_doc_ok: "document_ok 4 list_doc list_children"
  unfolding document_ok_def
proof (intro conjI allI impI list_doc_linked)
  show "depth_of list_doc (Some i) \<le> 300" for i
  proof -
    have par: "ptr nd_parent list_doc i = (if i = 1 then Some 0 else if i \<in> {2, 3} then Some 1 else None)" for i
      by (simp add: ptr_def list_doc_def list_node_def)
    have u: "up_count 5 list_doc (Some i) < 5"
      by (simp add: eval_nat_numeral par)
    have "depth_of list_doc (Some i) = up_count 5 list_doc (Some i)"
      unfolding depth_of_def by (rule up_count_exact [OF u]) (simp add: ns_dom_max_depth_def)
    then show ?thesis using u by simp
  qed
  show "is_element list_doc p \<or> is_document list_doc p" if "list_children p \<noteq> []" for p
    using that
    by (auto simp: list_children_def list_doc_def list_node_def is_element_def is_document_def split: if_splits)
  show "element_ok nd" "names_ok nd" if "list_doc i = Some nd" "nd_kind nd = NodeElement" for i nd
    using that plain_attr_ok [of "''class''" "''item on''"]
    by (auto simp: list_doc_def list_node_def element_ok_def names_ok_def plain_attr_def ns_str_is_ascii_lower_def
        ascii_isupper_def split: if_splits)
qed (simp_all add: list_children_def)

text \<open>\<open>ul:has(> li + li) > li.on:nth-child(2n of li):not([title])\<close>\<close>

definition type_sel :: "string \<Rightarrow> ns_css_simple" where
  "type_sel t = CssSimple (Some t) None [] [] [] [] [] [] False False"

definition sample_selector :: ns_css_selector where
  "sample_selector =
     CssSelector
       [CssSimple (Some ''ul'') None [] [] [] [] []
          [[CssSelector [type_sel ''li'', type_sel ''li''] [CombChild, CombAdjacent] PeNone 0 0 2]] False False,
        CssSimple (Some ''li'') None [''on''] []
          [CssPseudo PcNthChild 2 0 None (Some [CssSelector [type_sel ''li''] [CombNone] PeNone 0 0 1])] []
          [[CssSelector [CssSimple None None []
              [\<lparr>ap_name = ''title'', ap_op = AttrPresent, ap_value = None, ap_ci = False, ap_cs = False,
                ap_bit = ns_attr_name_bloom_bit ''title''\<rparr>] [] [] [] [] False False] [CombNone] PeNone 0 1 0]]
          [] False False]
       [CombNone, CombChild] PeNone 0 3 5"

lemma budget_code [code_unfold]:
  "(ns_sel_match_budget < k) = (8000000 < int k)" "(k \<le> ns_sel_match_budget) = (int k \<le> 8000000)"
  by (simp_all add: ns_sel_match_budget_def)

theorem css_selector_meaning_witness:
  "ns_css_selector_matches calm_env 4 list_doc sample_selector None 3
     = selector_holds calm_env 4 list_doc list_children sample_selector False None 3
   \<and> ns_css_selector_matches calm_env 4 list_doc sample_selector None 3"
proof
  have "selector_wf sample_selector" by code_simp
  moreover have "snd (match_selector calm_env 4 list_doc sample_selector None 3 0) \<le> ns_sel_match_budget"
    by code_simp
  ultimately show "ns_css_selector_matches calm_env 4 list_doc sample_selector None 3
     = selector_holds calm_env 4 list_doc list_children sample_selector False None 3"
    by (rule css_selector_meaning [OF list_doc_ok])
  show "ns_css_selector_matches calm_env 4 list_doc sample_selector None 3" by code_simp
qed

section \<open>Where the code departs from the meaning\<close>

text \<open>\<open>[title~=""]\<close> should match nothing; the code finds an empty word where the value
  ends in white space.\<close>

lemma empty_word_matches:
  "attr_value_matches AttrWord False ''a '' ''''" "\<not> attr_value_matches AttrWord False ''a'' ''''"
  by (simp_all add: attr_value_matches_def word_in.simps begins_def strneq_def is_ws_def)

text \<open>The loop of \<open>~\<close> gives up after 512 siblings of any kind: an element that is followed
  by 512 nodes is not found from the one after them.\<close>

lemma follow_take: "j \<le> k \<Longrightarrow> follow j f h x = take j (follow k f h x)"
proof (induction j arbitrary: k x)
  case (Suc j)
  then obtain k' where "k = Suc k'" "j \<le> k'" by (cases k) auto
  then show ?case using Suc.IH by (auto split: option.split)
qed simp

lemma far_sibling_is_missed:
  assumes l: "linked h ch" and c: "ch p = a # ws @ [x]" and w: "length ws = 512"
    and other: "\<And>s. s \<in> set ws \<Longrightarrow> m s = (\<lambda>ops. (False, ops))"
  shows "comb_rel h ch CombSibling a x"
    "\<not> fst (match_complex_chain n h [m] [CombNone, CombSibling] 1 x ops)"
proof -
  show "comb_rel h ch CombSibling a x" using c by (metis append_Nil comb_rel.simps(3))
  have "follow 600 nd_prev_sibling h (ptr nd_prev_sibling h x) = rev (a # ws)"
    using linked_prev(1) [OF l, of p "a # ws" x "[]" 600] c w by simp
  then have f: "follow ns_dom_max_depth nd_prev_sibling h (ptr nd_prev_sibling h x) = rev ws"
    using follow_take [of 512 600 nd_prev_sibling h "ptr nd_prev_sibling h x"] w
    by (simp add: ns_dom_max_depth_def)
  have "fst (search (map q xs) k) = False"
    if "\<And>s. s \<in> set xs \<Longrightarrow> q s = (\<lambda>ops. (False, ops))" for q :: "nat \<Rightarrow> question" and xs k
    using that by (induction xs arbitrary: k) auto
  note no = this
  let ?q = "\<lambda>s. if is_element h s then all_of [m s, \<lambda>ops. (True, ops)] else (\<lambda>ops. (False, ops))"
  have "?q s = (\<lambda>ops. (False, ops))" if "s \<in> set (rev ws)" for s
    using other [of s] that by (simp add: fun_eq_iff)
  from no [of "rev ws" ?q, OF this] show "\<not> fst (match_complex_chain n h [m] [CombNone, CombSibling] 1 x ops)"
    using f by (simp add: Let_def)
qed

text \<open>The answer of \<open>:has(> :scope)\<close> for the list is yes in the scope of its second item and no in
  that of the document; the code's table of answers has one place for both.\<close>

lemma has_depends_on_scope:
  "let s = CssSelector [CssSimple None None [] [] [CssPseudo PcScope 0 0 None None] [] [] [] False False] [CombChild] PeNone 0 1 0
   in fst (has_relative_matches calm_env 4 list_doc s (Some 3) 1 0)
      \<and> \<not> fst (has_relative_matches calm_env 4 list_doc s (Some 0) 1 0)"
  by code_simp

end
