(* ===== verification/Css_Rules.thy ===== *)
theory Css_Rules
  imports Css_Match "HOL-Library.Product_Lexorder" "HOL-Library.Multiset"
begin

text \<open>
  Rules, the index of a style sheet and the gathering of the declarations that apply to
  an element (\<open>src/src/css.c\<close>). The index files every selector under one feature of its
  last compound, the rarest one in the sheet; gathering looks up the features of the
  element, tests the candidates and keeps for every rule and pseudo-element the highest
  specificity. \<open>gather_scans_all\<close> says that nothing is lost by looking up. The cache of selector answers holds answers of the same functions and is
  left out, as are custom properties and pending declarations, which the same loop
  collects.
\<close>

section \<open>Scopes and rules\<close>

record ns_css_scope =
  sc_roots :: "ns_css_selector list"
  sc_limits :: "ns_css_selector list option"

text \<open>Values are told apart by their kind; the cascade looks into keywords and colours only.\<close>

datatype ns_css_value = VKeyword string | VColor nat nat nat nat | VOther string

record ns_css_decl =
  de_prop :: nat
  de_value :: ns_css_value
  de_important :: bool

text \<open>\<open>ru_addr\<close> is the address of the rule, \<open>ru_source\<close> its \<open>source_order\<close>.\<close>

record ns_css_rule =
  ru_addr :: nat
  ru_selectors :: "ns_css_selector list"
  ru_decls :: "ns_css_decl list"
  ru_layer :: cptr
  ru_source :: int
  ru_scopes :: "ns_css_scope list"
  ru_container :: cptr

definition int_max :: int where "int_max = 2147483647"

text \<open>Every test of a rule starts with the counter of match steps at zero. A selector for a
  pseudo-element is tested by its compounds alone.\<close>

definition match_selector_for_pe ::
    "css_env \<Rightarrow> nat \<Rightarrow> dom \<Rightarrow> ns_css_selector \<Rightarrow> nat option \<Rightarrow> ns_css_pseudo_element \<Rightarrow> nat \<Rightarrow> bool" where
  "match_selector_for_pe env n h sel scope pe el =
     (sl_pe sel = pe
      \<and> fst (match_selector env n h
             (CssSelector (sl_compounds sel) (sl_combs sel) PeNone (sl_a sel) (sl_b sel) (sl_c sel)) scope el 0))"

definition selector_group_matches_with_scope ::
    "css_env \<Rightarrow> nat \<Rightarrow> dom \<Rightarrow> ns_css_selector list \<Rightarrow> nat \<Rightarrow> nat option \<Rightarrow> bool" where
  "selector_group_matches_with_scope env n h grp el scope =
     list_ex (\<lambda>s. ns_css_selector_matches env n h s scope el) grp"

definition self_and_ancestors :: "nat \<Rightarrow> dom \<Rightarrow> nat \<Rightarrow> nat list" where
  "self_and_ancestors n h el = follow n nd_parent h (Some el)"

text \<open>The distance from an element up to a root, \<open>INT_MAX\<close> when it is not above it.\<close>

definition css_scope_hops :: "nat \<Rightarrow> dom \<Rightarrow> nat \<Rightarrow> nat \<Rightarrow> int" where
  "css_scope_hops n h root el =
     (let up = takeWhile (\<lambda>x. x \<noteq> root) (self_and_ancestors n h el)
      in if length up < length (self_and_ancestors n h el) then int (length up) else int_max)"

definition css_scope_limit_excludes ::
    "css_env \<Rightarrow> nat \<Rightarrow> dom \<Rightarrow> ns_css_scope \<Rightarrow> nat \<Rightarrow> nat \<Rightarrow> bool" where
  "css_scope_limit_excludes env n h s root el =
     (case sc_limits s of None \<Rightarrow> False
      | Some limits \<Rightarrow>
        let up = self_and_ancestors n h el;
            inside = takeWhile (\<lambda>x. x \<noteq> root) up;
            visited = (if length inside < length up then inside @ [root] else inside)
        in list_ex (\<lambda>x. is_element h x \<and> selector_group_matches_with_scope env n h limits x (Some root)) visited)"

definition css_scope_contains ::
    "css_env \<Rightarrow> nat \<Rightarrow> dom \<Rightarrow> ns_css_scope \<Rightarrow> nat \<Rightarrow> nat \<Rightarrow> bool" where
  "css_scope_contains env n h s root el =
     (css_scope_hops n h root el \<noteq> int_max \<and> \<not> css_scope_limit_excludes env n h s root el)"

text \<open>\<open>g\<close> is the scope set from outside.\<close>

definition css_scope_applies_to ::
    "css_env \<Rightarrow> nat \<Rightarrow> dom \<Rightarrow> ns_css_scope \<Rightarrow> nat option \<Rightarrow> nat \<Rightarrow> bool" where
  "css_scope_applies_to env n h s g el =
     list_ex (\<lambda>root. is_element h root
         \<and> selector_group_matches_with_scope env n h (sc_roots s) root g
         \<and> css_scope_contains env n h s root el) (self_and_ancestors n h el)"

definition rule_outer_scopes_apply ::
    "css_env \<Rightarrow> nat \<Rightarrow> dom \<Rightarrow> ns_css_scope list \<Rightarrow> nat option \<Rightarrow> nat \<Rightarrow> nat \<Rightarrow> bool" where
  "rule_outer_scopes_apply env n h outer g root el =
     list_all (\<lambda>s. css_scope_applies_to env n h s g root \<and> css_scope_applies_to env n h s g el) outer"

text \<open>Whether a selector of a rule matches, and the order of its scope: the nearer the
  root, the higher. A selector may match from several roots; the best order counts.\<close>

definition rule_selector_matches ::
    "css_env \<Rightarrow> nat \<Rightarrow> dom \<Rightarrow> nat option \<Rightarrow> ns_css_rule \<Rightarrow> ns_css_selector \<Rightarrow> nat \<Rightarrow> ns_css_pseudo_element
       \<Rightarrow> int option" where
  "rule_selector_matches env n h g r sel el pe =
     (let test = (\<lambda>scope. if pe = PeNone then ns_css_selector_matches env n h sel scope el
                          else match_selector_for_pe env n h sel scope pe el)
      in if ru_scopes r = [] then (if test g then Some 0 else None)
         else
           let inner = last (ru_scopes r); outer = butlast (ru_scopes r);
               roots = filter (\<lambda>root. is_element h root
                   \<and> selector_group_matches_with_scope env n h (sc_roots inner) root g
                   \<and> css_scope_contains env n h inner root el
                   \<and> rule_outer_scopes_apply env n h outer g root el
                   \<and> test (Some root)) (self_and_ancestors n h el);
               best = fold (\<lambda>root b. let hops = css_scope_hops n h root el
                   in if hops \<noteq> int_max \<and> b < int_max - hops then int_max - hops else b) roots 0
           in if best \<le> 0 then None else Some best)"

section \<open>The index of a sheet\<close>

type_synonym css_candidate = "nat \<times> nat"

record ns_css_rule_index =
  ix_by_id :: "string \<Rightarrow> css_candidate list"
  ix_by_class :: "string \<Rightarrow> css_candidate list"
  ix_by_tag :: "string \<Rightarrow> css_candidate list"
  ix_by_attr :: "string \<Rightarrow> css_candidate list"
  ix_universal :: "css_candidate list"

record css_index_counts =
  ct_by_id :: "string \<Rightarrow> nat"
  ct_by_class :: "string \<Rightarrow> nat"
  ct_by_tag :: "string \<Rightarrow> nat"
  ct_by_attr :: "string \<Rightarrow> nat"

datatype css_index_kind = IndexNone | IndexId | IndexClass nat | IndexTag | IndexAttr nat

definition index_add_candidate_array :: "css_candidate list \<Rightarrow> nat \<Rightarrow> nat \<Rightarrow> css_candidate list" where
  "index_add_candidate_array bucket ri si =
     (if bucket \<noteq> [] \<and> last bucket = (ri, si) then bucket else bucket @ [(ri, si)])"

definition rule_index_add :: "(string \<Rightarrow> css_candidate list) \<Rightarrow> string \<Rightarrow> nat \<Rightarrow> nat \<Rightarrow> string \<Rightarrow> css_candidate list" where
  "rule_index_add t key ri si = t(key := index_add_candidate_array (t key) ri si)"

definition index_add_lowercase ::
    "(string \<Rightarrow> css_candidate list) \<Rightarrow> string \<Rightarrow> nat \<Rightarrow> nat \<Rightarrow> string \<Rightarrow> css_candidate list" where
  "index_add_lowercase t key ri si = rule_index_add t (strdown key) ri si"

definition index_count_inc :: "(string \<Rightarrow> nat) \<Rightarrow> string \<Rightarrow> string \<Rightarrow> nat" where
  "index_count_inc t key = t(key := t key + 1)"

definition named_type :: "cptr \<Rightarrow> bool" where
  "named_type ty = (ty \<noteq> None \<and> ty \<noteq> Some [] \<and> ty \<noteq> Some ''*'')"

definition index_counts_add_subject :: "ns_css_simple \<Rightarrow> css_index_counts \<Rightarrow> css_index_counts" where
  "index_counts_add_subject c k =
     (if cs_never c then k
      else
        let k1 = (if cs_id c \<noteq> None \<and> cs_id c \<noteq> Some []
                  then k\<lparr>ct_by_id := index_count_inc (ct_by_id k) (the (cs_id c))\<rparr> else k);
            k2 = k1\<lparr>ct_by_class := fold (\<lambda>cl t. if cl \<noteq> [] then index_count_inc t cl else t) (cs_classes c) (ct_by_class k1)\<rparr>;
            k3 = (if named_type (cs_type c)
                  then k2\<lparr>ct_by_tag := index_count_inc (ct_by_tag k2) (strdown (the (cs_type c)))\<rparr> else k2)
        in k3\<lparr>ct_by_attr := fold (\<lambda>a t. if ap_name a \<noteq> [] then index_count_inc t (strdown (ap_name a)) else t)
                              (cs_attrs c) (ct_by_attr k3)\<rparr>)"

text \<open>The choice so far is the kind and its count; \<open>None\<close> is \<open>G_MAXUINT\<close>.\<close>

definition index_choice_take :: "nat \<Rightarrow> nat option \<Rightarrow> bool" where
  "index_choice_take cnt best = (cnt \<noteq> 0 \<and> (case best of None \<Rightarrow> True | Some b \<Rightarrow> cnt < b))"

definition index_choose :: "css_index_kind \<Rightarrow> nat \<Rightarrow> css_index_kind \<times> nat option \<Rightarrow> css_index_kind \<times> nat option" where
  "index_choose k cnt st = (if index_choice_take cnt (snd st) then (k, Some cnt) else st)"

definition index_subject_kind :: "css_index_counts \<Rightarrow> ns_css_simple \<Rightarrow> css_index_kind" where
  "index_subject_kind counts c =
     (if cs_never c then IndexNone
      else
        let s1 = (if cs_id c \<noteq> None \<and> cs_id c \<noteq> Some []
                  then index_choose IndexId (ct_by_id counts (the (cs_id c))) (IndexNone, None)
                  else (IndexNone, None));
            s2 = fold (\<lambda>i st. let cl = cs_classes c ! i
                   in if cl = [] then st else index_choose (IndexClass i) (ct_by_class counts cl) st)
                   [0..<length (cs_classes c)] s1;
            s3 = (if named_type (cs_type c)
                  then index_choose IndexTag (ct_by_tag counts (strdown (the (cs_type c)))) s2 else s2);
            s4 = fold (\<lambda>i st. let nm = ap_name (cs_attrs c ! i)
                   in if nm = [] then st else index_choose (IndexAttr i) (ct_by_attr counts (strdown nm)) st)
                   [0..<length (cs_attrs c)] s3
        in fst s4)"

definition index_selector :: "css_index_counts \<Rightarrow> nat \<Rightarrow> nat \<Rightarrow> ns_css_selector \<Rightarrow> ns_css_rule_index \<Rightarrow> ns_css_rule_index" where
  "index_selector counts ri si sel ix =
     (if sl_compounds sel = [] then ix\<lparr>ix_universal := index_add_candidate_array (ix_universal ix) ri si\<rparr>
      else
        let c = last (sl_compounds sel)
        in if cs_never c then ix
           else
             case index_subject_kind counts c of
               IndexId \<Rightarrow> ix\<lparr>ix_by_id := rule_index_add (ix_by_id ix) (the (cs_id c)) ri si\<rparr>
             | IndexClass i \<Rightarrow> ix\<lparr>ix_by_class := rule_index_add (ix_by_class ix) (cs_classes c ! i) ri si\<rparr>
             | IndexTag \<Rightarrow> ix\<lparr>ix_by_tag := index_add_lowercase (ix_by_tag ix) (the (cs_type c)) ri si\<rparr>
             | IndexAttr i \<Rightarrow> ix\<lparr>ix_by_attr := index_add_lowercase (ix_by_attr ix) (ap_name (cs_attrs c ! i)) ri si\<rparr>
             | IndexNone \<Rightarrow> ix\<lparr>ix_universal := index_add_candidate_array (ix_universal ix) ri si\<rparr>)"

text \<open>The selectors of a sheet with their places, in order.\<close>

definition sheet_selectors :: "ns_css_rule list \<Rightarrow> (nat \<times> nat \<times> ns_css_selector) list" where
  "sheet_selectors rules = concat (map (\<lambda>ri. map (\<lambda>si. (ri, si, ru_selectors (rules ! ri) ! si))
     [0..<length (ru_selectors (rules ! ri))]) [0..<length rules])"

definition index_counts_of :: "ns_css_rule list \<Rightarrow> css_index_counts" where
  "index_counts_of rules =
     fold (\<lambda>(ri, si, sel) k. if sl_compounds sel = [] then k
             else index_counts_add_subject (last (sl_compounds sel)) k) (sheet_selectors rules)
       \<lparr>ct_by_id = (\<lambda>_. 0), ct_by_class = (\<lambda>_. 0), ct_by_tag = (\<lambda>_. 0), ct_by_attr = (\<lambda>_. 0)\<rparr>"

definition ns_css_rule_index_build :: "ns_css_rule list \<Rightarrow> ns_css_rule_index" where
  "ns_css_rule_index_build rules =
     fold (\<lambda>(ri, si, sel) ix. index_selector (index_counts_of rules) ri si sel ix) (sheet_selectors rules)
       \<lparr>ix_by_id = (\<lambda>_. []), ix_by_class = (\<lambda>_. []), ix_by_tag = (\<lambda>_. []), ix_by_attr = (\<lambda>_. []),
        ix_universal = []\<rparr>"

text \<open>The bits \<open>pe_mask\<close> of a rule, set while the index is built.\<close>

definition pe_mask :: "ns_css_rule \<Rightarrow> ns_css_pseudo_element set" where
  "pe_mask r = sl_pe ` set (ru_selectors r) - {PeNone}"

section \<open>Gathering\<close>

datatype ns_css_origin = OriginUa | OriginPresentational | OriginAuthor

record match_entry =
  me_origin :: ns_css_origin
  me_spec_a :: int
  me_spec_b :: int
  me_spec_c :: int
  me_sheet_index :: int
  me_layer_order :: int
  me_scope_order :: int
  me_source_order :: int
  me_decl_order :: int
  me_important :: bool
  me_inline_style :: bool
  me_rule :: nat
  me_value :: ns_css_value
  me_prop :: nat

definition ns_css_layer_none :: int where "ns_css_layer_none = int_max"

definition css_layer_rank_for :: "(string \<Rightarrow> nat option) \<Rightarrow> cptr \<Rightarrow> int" where
  "css_layer_rank_for ranks name =
     (case name of None \<Rightarrow> ns_css_layer_none
      | Some l \<Rightarrow> (case ranks l of None \<Rightarrow> ns_css_layer_none | Some r \<Rightarrow> int r))"

definition css_decl_slot :: "nat \<Rightarrow> int" where "css_decl_slot i = int i * 64"

definition css_index_lookup_ci :: "(string \<Rightarrow> css_candidate list) \<Rightarrow> string \<Rightarrow> css_candidate list" where
  "css_index_lookup_ci t name = (if list_ex (\<lambda>c. 65 \<le> code c \<and> code c \<le> 90) name then t (strdown name) else t name)"

text \<open>The loop over the words of the class attribute is the one of
  \<open>ns_class_set_build\<close>.\<close>

definition gather_candidates :: "ns_css_rule_index \<Rightarrow> dom \<Rightarrow> nat \<Rightarrow> css_candidate list" where
  "gather_candidates ix h el =
     (case h el of None \<Rightarrow> []
      | Some nd \<Rightarrow>
        if nd_kind nd \<noteq> NodeElement then []
        else (case ns_element_get_attr nd (Some ''id'') of None \<Rightarrow> [] | Some i \<Rightarrow> if i = [] then [] else ix_by_id ix i)
           @ (case ns_element_get_attr nd (Some ''class'') of None \<Rightarrow> []
              | Some cls \<Rightarrow> concat (map (ix_by_class ix) (ns_class_set_build cls)))
           @ (case nd_name nd of None \<Rightarrow> [] | Some t \<Rightarrow> if t = [] then [] else css_index_lookup_ci (ix_by_tag ix) t)
           @ concat (map (\<lambda>a. css_index_lookup_ci (ix_by_attr ix) (at_name a)) (nd_attrs nd)))
     @ ix_universal ix"

text \<open>A slot of \<open>css_rule_match_accum\<close>: the highest specificity and scope order so far,
  \<open>None\<close> while \<open>any\<close> is false.\<close>

type_synonym match_rank = "int \<times> int \<times> int \<times> int"

definition accum_update :: "match_rank \<Rightarrow> match_rank option \<Rightarrow> match_rank option" where
  "accum_update v best =
     (case v of (a, b, c, order) \<Rightarrow>
        case best of None \<Rightarrow> Some (a, b, c, order)
        | Some (x, y, z, o1) \<Rightarrow>
          if x < a \<or> (a = x \<and> y < b) \<or> (a = x \<and> b = y \<and> z < c) then Some (a, b, c, order)
          else if a = x \<and> b = y \<and> c = z \<and> o1 < order then Some (x, y, z, order)
          else best)"

record gather_state =
  gs_matched :: "nat list"
  gs_accum :: "nat \<Rightarrow> nat \<Rightarrow> match_rank option"

text \<open>One candidate and one destination. \<open>holds\<close> tells whether a container condition
  holds.\<close>

definition gather_dest ::
    "css_env \<Rightarrow> nat \<Rightarrow> dom \<Rightarrow> nat option \<Rightarrow> ns_css_rule \<Rightarrow> ns_css_selector \<Rightarrow> nat \<Rightarrow> nat
       \<Rightarrow> nat \<times> ns_css_pseudo_element \<Rightarrow> gather_state \<Rightarrow> gather_state" where
  "gather_dest env n h g r sel el ri = (\<lambda>(dd, pe) st.
     if (pe \<noteq> PeNone \<and> pe \<notin> pe_mask r) \<or> sl_pe sel \<noteq> pe then st
     else
       case rule_selector_matches env n h g r sel el pe of None \<Rightarrow> st
       | Some order \<Rightarrow>
         let st1 = (if ri \<in> set (gs_matched st) then st
                    else st\<lparr>gs_matched := gs_matched st @ [ri], gs_accum := (gs_accum st)(ri := (\<lambda>_. None))\<rparr>)
         in st1\<lparr>gs_accum := (gs_accum st1)(ri := (gs_accum st1 ri)(dd :=
              accum_update (sl_a sel, sl_b sel, sl_c sel, order) (gs_accum st1 ri dd)))\<rparr>)"

definition gather_candidate ::
    "css_env \<Rightarrow> nat \<Rightarrow> dom \<Rightarrow> nat option \<Rightarrow> (string \<Rightarrow> bool) \<Rightarrow> ns_css_rule list \<Rightarrow> nat
       \<Rightarrow> ns_css_pseudo_element list \<Rightarrow> css_candidate \<Rightarrow> gather_state \<Rightarrow> gather_state" where
  "gather_candidate env n h g holds rules el pes = (\<lambda>(ri, si) st.
     if length rules \<le> ri \<or> length (ru_selectors (rules ! ri)) \<le> si then st
     else if \<not> (case ru_container (rules ! ri) of None \<Rightarrow> True | Some c \<Rightarrow> holds c) then st
     else fold (gather_dest env n h g (rules ! ri) (ru_selectors (rules ! ri) ! si) el ri)
            (enumerate 0 pes) st)"

definition rule_entries ::
    "ns_css_origin \<Rightarrow> int \<Rightarrow> (string \<Rightarrow> nat option) \<Rightarrow> ns_css_rule \<Rightarrow> match_rank option \<Rightarrow> match_entry list" where
  "rule_entries origin sheet_index ranks r best =
     (case best of None \<Rightarrow> []
      | Some (a, b, c, order) \<Rightarrow>
        map (\<lambda>di. let d = ru_decls r ! di in
            \<lparr>me_origin = origin, me_spec_a = a, me_spec_b = b, me_spec_c = c, me_sheet_index = sheet_index,
             me_layer_order = css_layer_rank_for ranks (ru_layer r), me_scope_order = order,
             me_source_order = ru_source r, me_decl_order = css_decl_slot di, me_important = de_important d,
             me_inline_style = False, me_rule = ru_addr r, me_value = de_value d, me_prop = de_prop d\<rparr>)
          [0..<length (ru_decls r)])"

text \<open>A rule has nine slots: when a rule matches and there are more destinations, the code
  reads behind them, which is \<open>None\<close> here.\<close>

definition accum_slots :: nat where "accum_slots = 9"

definition gather_matches_multi ::
    "css_env \<Rightarrow> nat \<Rightarrow> dom \<Rightarrow> nat option \<Rightarrow> (string \<Rightarrow> bool) \<Rightarrow> (string \<Rightarrow> nat option) \<Rightarrow> ns_css_rule list
       \<Rightarrow> ns_css_origin \<Rightarrow> int \<Rightarrow> nat \<Rightarrow> (ns_css_pseudo_element \<times> match_entry list) list
       \<Rightarrow> (ns_css_pseudo_element \<times> match_entry list) list option" where
  "gather_matches_multi env n h g holds ranks rules origin sheet_index el dests =
     (let st = fold (gather_candidate env n h g holds rules el (map fst dests))
            (gather_candidates (ns_css_rule_index_build rules) h el)
            \<lparr>gs_matched = [], gs_accum = (\<lambda>_ _. None)\<rparr>
      in if gs_matched st \<noteq> [] \<and> accum_slots < length dests then None
         else Some (map (\<lambda>(dd, pe, out). (pe, out @ concat (map (\<lambda>ri.
                rule_entries origin sheet_index ranks (rules ! ri) (gs_accum st ri dd)) (gs_matched st))))
              (enumerate 0 dests)))"

section \<open>The scan over all selectors\<close>

definition rule_ranks ::
    "css_env \<Rightarrow> nat \<Rightarrow> dom \<Rightarrow> nat option \<Rightarrow> (string \<Rightarrow> bool) \<Rightarrow> ns_css_rule \<Rightarrow> nat \<Rightarrow> ns_css_pseudo_element
       \<Rightarrow> match_rank list" where
  "rule_ranks env n h g holds r el pe =
     (if (case ru_container r of None \<Rightarrow> True | Some c \<Rightarrow> holds c)
      then concat (map (\<lambda>sel. if sl_pe sel = pe
             then (case rule_selector_matches env n h g r sel el pe of None \<Rightarrow> []
                   | Some order \<Rightarrow> [(sl_a sel, sl_b sel, sl_c sel, order)]) else []) (ru_selectors r))
      else [])"

definition best_rank :: "match_rank list \<Rightarrow> match_rank option" where
  "best_rank vs = (if vs = [] then None else Some (Max (set vs)))"

definition scan_sheet ::
    "css_env \<Rightarrow> nat \<Rightarrow> dom \<Rightarrow> nat option \<Rightarrow> (string \<Rightarrow> bool) \<Rightarrow> (string \<Rightarrow> nat option) \<Rightarrow> ns_css_rule list
       \<Rightarrow> ns_css_origin \<Rightarrow> int \<Rightarrow> nat \<Rightarrow> ns_css_pseudo_element \<Rightarrow> match_entry list" where
  "scan_sheet env n h g holds ranks rules origin sheet_index el pe =
     concat (map (\<lambda>r. rule_entries origin sheet_index ranks r (best_rank (rule_ranks env n h g holds r el pe))) rules)"

section \<open>The highest rank\<close>

lemma accum_update_max:
  "accum_update v best = Some (case best of None \<Rightarrow> v | Some w \<Rightarrow> max w v)"
  by (cases v; cases best) (auto simp: accum_update_def max_def less_eq_prod_def less_prod_def split: prod.split)

lemma fold_accum_from:
  "fold accum_update vs (Some w) = Some (Max (insert w (set vs)))"
proof (induction vs arbitrary: w)
  case (Cons v vs)
  have "insert w (set (v # vs)) = insert w (insert v (set vs))" by auto
  moreover have "Max (insert w (insert v (set vs))) = Max (insert (max w v) (set vs))"
    by (cases "set vs = {}") (simp_all add: max.assoc)
  ultimately show ?case using Cons [of "max w v"] by (simp add: accum_update_max)
qed simp

lemma fold_accum: "fold accum_update vs None = best_rank vs"
  by (cases vs) (simp_all add: fold_accum_from accum_update_max best_rank_def)

lemma best_rank_set: "set vs = set ws \<Longrightarrow> best_rank vs = best_rank ws"
  by (metis best_rank_def set_empty)

section \<open>What the fold over the candidates accumulates\<close>

definition candidate_ranks ::
    "css_env \<Rightarrow> nat \<Rightarrow> dom \<Rightarrow> nat option \<Rightarrow> ns_css_rule \<Rightarrow> ns_css_selector \<Rightarrow> nat \<Rightarrow> ns_css_pseudo_element
       \<Rightarrow> match_rank list" where
  "candidate_ranks env n h g r sel el pe =
     (if (pe \<noteq> PeNone \<and> pe \<notin> pe_mask r) \<or> sl_pe sel \<noteq> pe then []
      else case rule_selector_matches env n h g r sel el pe of None \<Rightarrow> []
           | Some order \<Rightarrow> [(sl_a sel, sl_b sel, sl_c sel, order)])"

text \<open>The list of matched rules holds each rule with a filled slot once.\<close>

definition gather_inv :: "gather_state \<Rightarrow> bool" where
  "gather_inv st \<longleftrightarrow>
     distinct (gs_matched st) \<and> (\<forall>ri. ri \<in> set (gs_matched st) \<longleftrightarrow> (\<exists>dd. gs_accum st ri dd \<noteq> None))"

lemma fold_accum_None: "fold accum_update vs x = None \<longleftrightarrow> x = None \<and> vs = []"
  by (cases x; cases vs) (simp_all add: fold_accum fold_accum_from best_rank_def accum_update_max)

lemma gather_dest_step:
  assumes "gather_inv st"
  shows "gather_inv (gather_dest env n h g r sel el ri (dd, pe) st)" (is ?inv)
    "gs_accum (gather_dest env n h g r sel el ri (dd, pe) st) q d =
       (if q = ri \<and> d = dd then fold accum_update (candidate_ranks env n h g r sel el pe) (gs_accum st q d)
        else gs_accum st q d)"
proof -
  let ?st = "gather_dest env n h g r sel el ri (dd, pe) st" and ?vs = "candidate_ranks env n h g r sel el pe"
  have "gs_accum st ri = (\<lambda>_. None)" if "ri \<notin> set (gs_matched st)"
    using assms that unfolding gather_inv_def fun_eq_iff by blast
  then show acc: "gs_accum ?st q d =
       (if q = ri \<and> d = dd then fold accum_update ?vs (gs_accum st q d) else gs_accum st q d)" for q d
    by (auto simp: gather_dest_def candidate_ranks_def Let_def split: option.split)
  have m: "gs_matched ?st = (if ?vs = [] \<or> ri \<in> set (gs_matched st) then gs_matched st else gs_matched st @ [ri])"
    by (auto simp: gather_dest_def candidate_ranks_def Let_def split: option.split)
  have "(\<exists>d. gs_accum ?st q d \<noteq> None) \<longleftrightarrow> (\<exists>d. gs_accum st q d \<noteq> None) \<or> (q = ri \<and> ?vs \<noteq> [])" for q
    unfolding acc if_distrib [of "\<lambda>x. x \<noteq> None"] fold_accum_None by metis
  then show ?inv using assms unfolding gather_inv_def m
    by (cases "?vs = []"; cases "ri \<in> set (gs_matched st)") (simp_all del: not_None_eq, blast+)
qed

lemma gather_dests:
  assumes "gather_inv st"
  shows "gather_inv (fold (gather_dest env n h g r sel el ri) (enumerate k pes) st)
     \<and> (\<forall>q d. gs_accum (fold (gather_dest env n h g r sel el ri) (enumerate k pes) st) q d =
          (if q = ri \<and> k \<le> d \<and> d < k + length pes
           then fold accum_update (candidate_ranks env n h g r sel el (pes ! (d - k))) (gs_accum st q d)
           else gs_accum st q d))"
  using assms
proof (induction pes arbitrary: k st)
  case (Cons pe pes)
  note s = gather_dest_step [OF Cons.prems, of env n h g r sel el ri k pe]
  note ih = Cons.IH [OF s(1), of "Suc k"]
  show ?case
  proof (intro conjI allI)
    show "gather_inv (fold (gather_dest env n h g r sel el ri) (enumerate k (pe # pes)) st)"
      using ih by simp
    fix q d
    show "gs_accum (fold (gather_dest env n h g r sel el ri) (enumerate k (pe # pes)) st) q d =
        (if q = ri \<and> k \<le> d \<and> d < k + length (pe # pes)
         then fold accum_update (candidate_ranks env n h g r sel el ((pe # pes) ! (d - k))) (gs_accum st q d)
         else gs_accum st q d)"
      using conjunct2 [OF ih, rule_format, of q d] s(2) [of q d]
      by (cases "d = k") (auto simp: Suc_diff_le nth_Cons' Suc_le_eq)
  qed
qed auto

definition ranks_of ::
    "css_env \<Rightarrow> nat \<Rightarrow> dom \<Rightarrow> nat option \<Rightarrow> (string \<Rightarrow> bool) \<Rightarrow> ns_css_rule list \<Rightarrow> nat \<Rightarrow> ns_css_pseudo_element
       \<Rightarrow> css_candidate \<Rightarrow> match_rank list" where
  "ranks_of env n h g holds rules el pe = (\<lambda>(ri, si).
     if length rules \<le> ri \<or> length (ru_selectors (rules ! ri)) \<le> si then []
     else if \<not> (case ru_container (rules ! ri) of None \<Rightarrow> True | Some c \<Rightarrow> holds c) then []
     else candidate_ranks env n h g (rules ! ri) (ru_selectors (rules ! ri) ! si) el pe)"

lemma gather_folds:
  assumes "gather_inv st"
  shows "gather_inv (fold (gather_candidate env n h g holds rules el pes) cs st)
     \<and> (\<forall>q d. gs_accum (fold (gather_candidate env n h g holds rules el pes) cs st) q d =
          (if d < length pes
           then fold accum_update (concat (map (ranks_of env n h g holds rules el (pes ! d)) (filter (\<lambda>c. fst c = q) cs)))
                  (gs_accum st q d)
           else gs_accum st q d))"
  using assms
proof (induction cs arbitrary: st)
  case (Cons c cs)
  obtain ri si where c: "c = (ri, si)" by (cases c)
  have s: "gather_inv (gather_candidate env n h g holds rules el pes c st)
     \<and> (\<forall>q d. gs_accum (gather_candidate env n h g holds rules el pes c st) q d =
          (if q = ri \<and> d < length pes
           then fold accum_update (ranks_of env n h g holds rules el (pes ! d) c) (gs_accum st q d)
           else gs_accum st q d))"
    using gather_dests [OF Cons.prems, of env n h g _ _ el ri 0 pes] Cons.prems
    by (auto simp: gather_candidate_def ranks_of_def c)
  show ?case using Cons.IH [OF conjunct1 [OF s]] conjunct2 [OF s] c by auto
qed simp

lemma gather_accum:
  fixes env n h g holds rules el pes cs
  defines "st \<equiv> fold (gather_candidate env n h g holds rules el pes) cs \<lparr>gs_matched = [], gs_accum = (\<lambda>_ _. None)\<rparr>"
  shows "distinct (gs_matched st)"
    "ri \<in> set (gs_matched st) \<longleftrightarrow> (\<exists>d < length pes. gs_accum st ri d \<noteq> None)"
    "d < length pes \<Longrightarrow> gs_accum st ri d
       = best_rank (concat (map (ranks_of env n h g holds rules el (pes ! d)) (filter (\<lambda>c. fst c = ri) cs)))"
proof -
  have i: "gather_inv \<lparr>gs_matched = [], gs_accum = (\<lambda>_ _. None)\<rparr>" by (simp add: gather_inv_def)
  note f = gather_folds [OF i, of env n h g holds rules el pes cs, folded st_def]
  have a: "gs_accum st q d = (if d < length pes
      then best_rank (concat (map (ranks_of env n h g holds rules el (pes ! d)) (filter (\<lambda>c. fst c = q) cs))) else None)" for q d
    using conjunct2 [OF f, rule_format, of q d] by (simp add: fold_accum)
  show "distinct (gs_matched st)" using f by (simp add: gather_inv_def)
  have "ri \<in> set (gs_matched st) \<longleftrightarrow> (\<exists>d. gs_accum st ri d \<noteq> None)" using f by (simp add: gather_inv_def)
  then show "ri \<in> set (gs_matched st) \<longleftrightarrow> (\<exists>d < length pes. gs_accum st ri d \<noteq> None)"
    unfolding a by (metis (lifting))
  show "gs_accum st ri d
       = best_rank (concat (map (ranks_of env n h g holds rules el (pes ! d)) (filter (\<lambda>c. fst c = ri) cs)))"
    if "d < length pes" using a [of ri d] that by simp
qed

section \<open>The index loses nothing\<close>

text \<open>The subject of a matching selector passes its own tests.\<close>

lemma match_simple_subject:
  "fst (match_simple env n h c scope el ops) \<Longrightarrow>
     \<not> cs_never c \<and> simple_matches h el (cs_type c) (cs_id c) (cs_classes c) (cs_attrs c) (cs_ns_none c)"
  by (cases c) (auto simp: match_simple.simps split: if_splits)

lemma match_selector_subject:
  assumes "fst (match_selector env n h (CssSelector comps combs pe a b c) scope el ops)"
  shows "comps \<noteq> [] \<and> \<not> cs_never (last comps)
    \<and> simple_matches h el (cs_type (last comps)) (cs_id (last comps)) (cs_classes (last comps))
        (cs_attrs (last comps)) (cs_ns_none (last comps))"
proof -
  have c: "comps \<noteq> []" using assms by (auto simp: match_selector.simps split: if_splits)
  have "fst (match_simple env n h (last comps) scope el ops)"
    using assms c
    by (auto simp: match_selector.simps Let_def last_conv_nth split: if_splits prod.splits)
  with c match_simple_subject show ?thesis by blast
qed

lemma rule_match_subject:
  assumes "rule_selector_matches env n h g r sel el pe = Some order"
  defines "c \<equiv> last (sl_compounds sel)"
  shows "sl_compounds sel \<noteq> [] \<and> \<not> cs_never c
    \<and> simple_matches h el (cs_type c) (cs_id c) (cs_classes c) (cs_attrs c) (cs_ns_none c)"
proof -
  let ?test = "\<lambda>scope. if pe = PeNone then ns_css_selector_matches env n h sel scope el
      else match_selector_for_pe env n h sel scope pe el"
  have "\<exists>scope. ?test scope"
  proof (rule ccontr)
    assume "\<not> ?thesis"
    then have t: "?test scope = False" for scope by blast
    show False using assms(1) unfolding rule_selector_matches_def Let_def t by (simp split: if_splits)
  qed
  then obtain scope where "?test scope" by blast
  then obtain pe' where "fst (match_selector env n h
      (CssSelector (sl_compounds sel) (sl_combs sel) pe' (sl_a sel) (sl_b sel) (sl_c sel)) scope el 0)"
    by (cases sel) (auto simp: ns_css_selector_matches_def match_selector_for_pe_def split: if_splits)
  then show ?thesis unfolding c_def by (rule match_selector_subject)
qed

text \<open>The feature a selector is filed under is one of its subject.\<close>

definition kind_fits :: "ns_css_simple \<Rightarrow> css_index_kind \<Rightarrow> bool" where
  "kind_fits c k =
     (case k of IndexNone \<Rightarrow> True
      | IndexId \<Rightarrow> cs_id c \<noteq> None \<and> cs_id c \<noteq> Some []
      | IndexClass i \<Rightarrow> i < length (cs_classes c) \<and> cs_classes c ! i \<noteq> []
      | IndexTag \<Rightarrow> named_type (cs_type c)
      | IndexAttr i \<Rightarrow> i < length (cs_attrs c) \<and> ap_name (cs_attrs c ! i) \<noteq> [])"

lemma index_choose_fits:
  "kind_fits c (fst st) \<Longrightarrow> (P \<Longrightarrow> kind_fits c k) \<Longrightarrow> kind_fits c (fst (if P then index_choose k m st else st))"
  by (simp add: index_choose_def)

lemma if_swap: "(if P then x else y) = (if \<not> P then y else x)"
  by simp

lemma fold_fits:
  assumes "\<And>i st. i < m \<Longrightarrow> kind_fits c (fst st) \<Longrightarrow> kind_fits c (fst (f i st))" "kind_fits c (fst st)"
  shows "kind_fits c (fst (fold f [0..<m] st))"
proof -
  have "kind_fits c (fst (fold f xs st))" if "set xs \<subseteq> {0..<m}" for xs
    using that assms(2)
  proof (induction xs arbitrary: st)
    case (Cons x xs)
    then show ?case using assms(1) [of x st] by simp
  qed simp
  then show ?thesis by simp
qed

lemma subject_kind_fits: "kind_fits c (index_subject_kind counts c)"
proof (cases "cs_never c")
  case False
  define s1 where "s1 = (if cs_id c \<noteq> None \<and> cs_id c \<noteq> Some []
      then index_choose IndexId (ct_by_id counts (the (cs_id c))) (IndexNone, None) else (IndexNone, None))"
  define s2 where "s2 = fold (\<lambda>i st. let cl = cs_classes c ! i
      in if cl = [] then st else index_choose (IndexClass i) (ct_by_class counts cl) st)
      [0..<length (cs_classes c)] s1"
  define s3 where "s3 = (if named_type (cs_type c)
      then index_choose IndexTag (ct_by_tag counts (strdown (the (cs_type c)))) s2 else s2)"
  have "kind_fits c (fst s1)" unfolding s1_def by (rule index_choose_fits) (simp_all add: kind_fits_def)
  then have "kind_fits c (fst s2)" unfolding s2_def Let_def if_swap [of "_ = []"]
    by (intro fold_fits index_choose_fits) (simp_all add: kind_fits_def)
  then have "kind_fits c (fst s3)" unfolding s3_def by (rule index_choose_fits) (simp add: kind_fits_def)
  then have "kind_fits c (fst (fold (\<lambda>i st. let nm = ap_name (cs_attrs c ! i)
      in if nm = [] then st else index_choose (IndexAttr i) (ct_by_attr counts (strdown nm)) st)
      [0..<length (cs_attrs c)] s3))" unfolding Let_def if_swap [of "_ = []"]
    by (intro fold_fits index_choose_fits) (simp_all add: kind_fits_def)
  then show ?thesis using False unfolding index_subject_kind_def Let_def s3_def s2_def s1_def by simp
qed (simp add: index_subject_kind_def kind_fits_def)

text \<open>Whether a candidate is filed where its selector belongs, and that later selectors do not
  remove it.\<close>

definition filed :: "css_index_counts \<Rightarrow> css_candidate \<Rightarrow> ns_css_simple \<Rightarrow> ns_css_rule_index \<Rightarrow> bool" where
  "filed counts cand c ix =
     (cand \<in> set (case index_subject_kind counts c of
        IndexId \<Rightarrow> ix_by_id ix (the (cs_id c))
      | IndexClass i \<Rightarrow> ix_by_class ix (cs_classes c ! i)
      | IndexTag \<Rightarrow> ix_by_tag ix (strdown (the (cs_type c)))
      | IndexAttr i \<Rightarrow> ix_by_attr ix (strdown (ap_name (cs_attrs c ! i)))
      | IndexNone \<Rightarrow> ix_universal ix))"

lemma add_candidate_set: "set (index_add_candidate_array b ri si) = insert (ri, si) (set b)"
  by (cases b rule: rev_cases) (auto simp: index_add_candidate_array_def)

lemma index_selector_files:
  "sl_compounds sel \<noteq> [] \<Longrightarrow> \<not> cs_never (last (sl_compounds sel))
     \<Longrightarrow> filed counts (ri, si) (last (sl_compounds sel)) (index_selector counts ri si sel ix)"
  by (simp add: index_selector_def filed_def Let_def rule_index_add_def index_add_lowercase_def
      add_candidate_set split: css_index_kind.split)

lemma index_selector_keeps:
  "filed counts cand c ix \<Longrightarrow> filed counts cand c (index_selector counts ri si sel ix)"
  by (auto simp: index_selector_def filed_def Let_def rule_index_add_def index_add_lowercase_def
      add_candidate_set split: css_index_kind.splits)

lemma index_build_files:
  assumes "(ri, si, sel) \<in> set (sheet_selectors rules)" "sl_compounds sel \<noteq> []"
    "\<not> cs_never (last (sl_compounds sel))"
  shows "filed (index_counts_of rules) (ri, si) (last (sl_compounds sel)) (ns_css_rule_index_build rules)"
proof -
  let ?f = "\<lambda>(ri, si, sel) ix. index_selector (index_counts_of rules) ri si sel ix"
    and ?P = "filed (index_counts_of rules) (ri, si) (last (sl_compounds sel))"
  have keep: "?P ix \<Longrightarrow> ?P (fold ?f xs ix)" for xs ix
    by (induction xs arbitrary: ix) (auto simp: index_selector_keeps)
  obtain us vs where s: "sheet_selectors rules = us @ (ri, si, sel) # vs"
    using split_list [OF assms(1)] by blast
  show ?thesis unfolding ns_css_rule_index_build_def s
    using keep [OF index_selector_files [OF assms(2,3)]] by simp
qed

lemma lookup_ci: "css_index_lookup_ci t name = t (strdown name)"
proof (cases "list_ex (\<lambda>c. 65 \<le> code c \<and> code c \<le> 90) name")
  case False
  have "ascii_tolower c = c" if "c \<in> set name" for c
    using that False by (auto simp: list_ex_iff ascii_tolower_def ascii_isupper_def)
  then have "strdown name = name" by (simp add: map_idI)
  then show ?thesis by (simp add: css_index_lookup_ci_def)
qed (simp add: css_index_lookup_ci_def)

lemma filed_found:
  assumes "h el = Some nd" "element_ok nd" "filed counts cand c ix"
    "simple_matches h el (cs_type c) (cs_id c) (cs_classes c) (cs_attrs c) (cs_ns_none c)"
  shows "cand \<in> set (gather_candidates ix h el)"
proof -
  note kf = subject_kind_fits [of c counts]
  have e: "nd_kind nd = NodeElement" using assms(2) by (simp add: element_ok_def)
  show ?thesis
  proof (cases "index_subject_kind counts c")
    case IndexNone
    then show ?thesis using assms(3) by (simp add: filed_def gather_candidates_def)
  next
    case IndexId
    then obtain w where "cs_id c = Some w" "w \<noteq> []" using kf by (auto simp: kind_fits_def)
    moreover from this have "ns_element_get_attr nd (Some ''id'') = Some w"
      using assms(1,4) by (simp add: simple_matches_def)
    ultimately show ?thesis using assms(1,3) e IndexId by (simp add: filed_def gather_candidates_def)
  next
    case (IndexClass i)
    then have "i < length (cs_classes c)" using kf by (simp add: kind_fits_def)
    then have "fst (ns_node_has_class nd (cs_classes c ! i))"
      using assms(1,4) by (simp add: simple_matches_def list_all_length)
    then have "cs_classes c ! i \<in> set (class_tokens nd)" using has_class_ok(2) [OF assms(2)] by simp
    then show ?thesis using assms(1,3) e IndexClass
      by (auto simp: filed_def gather_candidates_def class_tokens_def split: option.splits)
  next
    case IndexTag
    then obtain t where t: "cs_type c = Some t" "t \<noteq> []" "t \<noteq> ''*''"
      using kf by (auto simp: kind_fits_def named_type_def)
    then obtain name where n: "nd_name nd = Some name" "strdown name = strdown t"
      using assms(1,4) by (auto simp: simple_matches_def strcaseeq_def split: option.splits if_splits)
    then have "name \<noteq> []" using t(2) by auto
    with n t show ?thesis using assms(1,3) e IndexTag by (simp add: filed_def gather_candidates_def lookup_ci)
  next
    case (IndexAttr i)
    then have "i < length (cs_attrs c)" using kf by (simp add: kind_fits_def)
    then have "attr_pred_matches h el (cs_attrs c ! i)"
      using assms(1,4) by (simp add: simple_matches_def list_all_length)
    then obtain a where f: "ns_element_find_attr nd (Some (ap_name (cs_attrs c ! i))) = Some a"
      using assms(1) by (auto simp: attr_pred_matches_def ns_element_get_attr_def Let_def split: if_splits option.splits)
    then have "find (attr_test (FlagSvgNs \<in> nd_flags nd) (ap_name (cs_attrs c ! i))) (nd_attrs nd) = Some a"
      using e by (simp add: ns_element_find_attr_test)
    then have "a \<in> set (nd_attrs nd)" "strcaseeq (at_name a) (ap_name (cs_attrs c ! i))"
      by (auto simp: find_Some_iff intro: attr_test_name)
    then have "cand \<in> set (concat (map (\<lambda>a. css_index_lookup_ci (ix_by_attr ix) (at_name a)) (nd_attrs nd)))"
      using assms(3) IndexAttr
      by (auto simp: filed_def lookup_ci strcaseeq_def intro!: bexI [where x = a])
    then show ?thesis using assms(1) e by (simp add: gather_candidates_def)
  qed
qed

lemma in_sheet_selectors:
  assumes "ri < length rules" "si < length (ru_selectors (rules ! ri))"
  shows "(ri, si, ru_selectors (rules ! ri) ! si) \<in> set (sheet_selectors rules)"
proof -
  have "(ri, si, ru_selectors (rules ! ri) ! si)
      \<in> set (map (\<lambda>si. (ri, si, ru_selectors (rules ! ri) ! si)) [0..<length (ru_selectors (rules ! ri))])"
    using assms(2) by simp
  then show ?thesis unfolding sheet_selectors_def set_concat set_map using assms(1) by fastforce
qed

text \<open>Every selector of the sheet that matches is among the candidates.\<close>

lemma candidates_complete:
  assumes "h el = Some nd" "element_ok nd" "ri < length rules" "si < length (ru_selectors (rules ! ri))"
    and "rule_selector_matches env n h g r (ru_selectors (rules ! ri) ! si) el pe = Some order"
  shows "(ri, si) \<in> set (gather_candidates (ns_css_rule_index_build rules) h el)"
proof -
  note m = rule_match_subject [OF assms(5)]
  show ?thesis
    using filed_found [where h = h and el = el, OF assms(1,2) index_build_files [OF in_sheet_selectors [OF assms(3,4)]]] m
    by blast
qed

lemma pe_in_mask: "sel \<in> set (ru_selectors r) \<Longrightarrow> sl_pe sel \<noteq> PeNone \<Longrightarrow> sl_pe sel \<in> pe_mask r"
  by (simp add: pe_mask_def)

lemma ranks_gathered:
  assumes "h el = Some nd" "element_ok nd" "ri < length rules"
  shows "set (concat (map (ranks_of env n h g holds rules el pe)
             (filter (\<lambda>c. fst c = ri) (gather_candidates (ns_css_rule_index_build rules) h el))))
       = set (rule_ranks env n h g holds (rules ! ri) el pe)" (is "set (concat (map ?f (filter _ ?cs))) = ?R")
proof (intro set_eqI iffI)
  fix v
  assume "v \<in> set (concat (map ?f (filter (\<lambda>c. fst c = ri) ?cs)))"
  then obtain si where "v \<in> set (?f (ri, si))" by auto
  then show "v \<in> ?R"
    by (auto simp: ranks_of_def candidate_ranks_def rule_ranks_def split: if_splits option.splits
        intro!: bexI [where x = "ru_selectors (rules ! ri) ! si"])
next
  fix v
  assume v: "v \<in> ?R"
  then obtain sel order where s: "sel \<in> set (ru_selectors (rules ! ri))" "sl_pe sel = pe"
      "rule_selector_matches env n h g (rules ! ri) sel el pe = Some order"
      "v = (sl_a sel, sl_b sel, sl_c sel, order)"
      "case ru_container (rules ! ri) of None \<Rightarrow> True | Some c \<Rightarrow> holds c"
    by (auto simp: rule_ranks_def split: if_splits option.splits)
  then obtain si where si: "si < length (ru_selectors (rules ! ri))" "sel = ru_selectors (rules ! ri) ! si"
    by (metis in_set_conv_nth)
  have "v \<in> set (?f (ri, si))"
    using s si assms(3) pe_in_mask [OF s(1)]
    by (auto simp: ranks_of_def candidate_ranks_def not_le split: option.splits)
  moreover have "(ri, si) \<in> set (filter (\<lambda>c. fst c = ri) ?cs)"
    using candidates_complete [where h = h and el = el, OF assms si(1)] s(3) si(2) by simp
  ultimately show "v \<in> set (concat (map ?f (filter (\<lambda>c. fst c = ri) ?cs)))" by auto
qed

lemma mset_concat_some:
  assumes "distinct xs" "set xs \<subseteq> {0..<m}" "\<And>i. i < m \<Longrightarrow> i \<notin> set xs \<Longrightarrow> f i = []"
  shows "mset (concat (map f xs)) = mset (concat (map f [0..<m]))"
proof -
  have s: "mset (concat (map f ys)) = (\<Sum>i\<in>set ys. mset (f i))" if "distinct ys" for ys
    using that by (induction ys) simp_all
  have "(\<Sum>i\<in>set xs. mset (f i)) = (\<Sum>i\<in>{0..<m}. mset (f i))"
    using assms(2,3) by (intro sum.mono_neutral_left) auto
  then show ?thesis using s [OF assms(1)] s [of "[0..<m]"] by simp
qed

lemma gather_scan:
  assumes "h el = Some nd" and "element_ok nd" and "length dests \<le> accum_slots"
  shows "\<exists>outs. gather_matches_multi env n h g holds ranks rules origin sheet_index el dests = Some outs
     \<and> map fst outs = map fst dests
     \<and> (\<forall>dd < length dests. mset (snd (outs ! dd)) = mset (snd (dests ! dd))
          + mset (scan_sheet env n h g holds ranks rules origin sheet_index el (fst (dests ! dd))))"
proof -
  define st where "st = fold (gather_candidate env n h g holds rules el (map fst dests))
      (gather_candidates (ns_css_rule_index_build rules) h el) \<lparr>gs_matched = [], gs_accum = (\<lambda>_ _. None)\<rparr>"
  let ?entries = "\<lambda>dd ri. rule_entries origin sheet_index ranks (rules ! ri) (gs_accum st ri dd)"
  let ?outs = "map (\<lambda>(dd, pe, out). (pe, out @ concat (map (?entries dd) (gs_matched st)))) (enumerate 0 dests)"
  have best: "gs_accum st ri dd = best_rank (rule_ranks env n h g holds (rules ! ri) el (fst (dests ! dd)))"
    if "ri < length rules" "dd < length dests" for ri dd
    using that best_rank_set [OF ranks_gathered [where h = h and el = el, OF assms(1,2) that(1)]]
    unfolding st_def by (subst gather_accum(3)) simp_all
  have "\<exists>pe c. fst c = ri \<and> ranks_of env n h g holds rules el pe c \<noteq> []" if "ri \<in> set (gs_matched st)" for ri
    using that unfolding st_def gather_accum(2)
    by (auto simp: gather_accum(3) best_rank_def split: if_splits) blast
  then have range: "set (gs_matched st) \<subseteq> {0..<length rules}"
    by (fastforce simp: ranks_of_def split: if_splits)
  have "mset (concat (map (?entries dd) (gs_matched st)))
      = mset (scan_sheet env n h g holds ranks rules origin sheet_index el (fst (dests ! dd)))"
    if dd: "dd < length dests" for dd
  proof -
    have none: "?entries dd ri = []" if "ri < length rules" "ri \<notin> set (gs_matched st)" for ri
    proof -
      have "gs_accum st ri dd = None" using that(2) dd unfolding st_def gather_accum(2) by (metis length_map)
      then show ?thesis by (simp add: rule_entries_def)
    qed
    have "distinct (gs_matched st)" unfolding st_def by (rule gather_accum(1))
    then have
      "mset (concat (map (?entries dd) (gs_matched st))) = mset (concat (map (?entries dd) [0..<length rules]))"
      using range none by (rule mset_concat_some)
    also have "map (?entries dd) [0..<length rules]
        = map (\<lambda>r. rule_entries origin sheet_index ranks r (best_rank (rule_ranks env n h g holds r el (fst (dests ! dd))))) rules"
      using best [OF _ dd] by (intro nth_equalityI) simp_all
    finally show ?thesis unfolding scan_sheet_def .
  qed
  then have "gather_matches_multi env n h g holds ranks rules origin sheet_index el dests = Some ?outs
     \<and> map fst ?outs = map fst dests
     \<and> (\<forall>dd < length dests. mset (snd (?outs ! dd)) = mset (snd (dests ! dd))
          + mset (scan_sheet env n h g holds ranks rules origin sheet_index el (fst (dests ! dd))))"
    using assms(3)
    by (auto simp: gather_matches_multi_def st_def [symmetric] Let_def nth_enumerate_eq case_prod_beta
        enumerate_eq_zip intro!: nth_equalityI)
  then show ?thesis by blast
qed

text \<open>(C3) Looking the features of an element up in the index of a sheet loses nothing and
  adds nothing: for the element and every pseudo-element gathered, the entries
  collected are those of a scan over all selectors of all rules, each rule with the
  highest specificity and nearest scope of its matching selectors, whatever feature each
  selector was filed under. It holds for at most nine destinations, the element and eight of
  the nine pseudo-elements, which is what the code's arrays have room for: with all nine it
  writes past them (the lemma \<open>all_pseudo_elements_leave_the_slots\<close>).\<close>

theorem gather_scans_all:
  assumes "h el = Some nd" and "element_ok nd" and "length dests \<le> accum_slots"
  shows "\<exists>outs. gather_matches_multi env n h g holds ranks rules origin sheet_index el dests = Some outs
     \<and> map fst outs = map fst dests
     \<and> (\<forall>dd < length dests. mset (snd (outs ! dd)) = mset (snd (dests ! dd))
          + mset (scan_sheet env n h g holds ranks rules origin sheet_index el (fst (dests ! dd))))"
  using gather_scan [where h = h and el = el, OF assms] .

text \<open>Two rules: \<open>.on, ul > li\<close> in scope of the list, and one for a class the element does not
  have or its marker.\<close>

definition class_sel :: "string \<Rightarrow> ns_css_simple" where
  "class_sel c = CssSimple None None [c] [] [] [] [] [] False False"

definition sample_rules :: "ns_css_rule list" where
  "sample_rules =
     [\<lparr>ru_addr = 100,
       ru_selectors = [CssSelector [class_sel ''on''] [CombNone] PeNone 0 1 0,
                       CssSelector [type_sel ''ul'', type_sel ''LI''] [CombNone, CombChild] PeNone 0 0 2],
       ru_decls = [\<lparr>de_prop = 1, de_value = VKeyword ''red'', de_important = False\<rparr>],
       ru_layer = None, ru_source = 1,
       ru_scopes = [\<lparr>sc_roots = [CssSelector [type_sel ''ul''] [CombNone] PeNone 0 0 1], sc_limits = None\<rparr>],
       ru_container = None\<rparr>,
      \<lparr>ru_addr = 200,
       ru_selectors = [CssSelector [class_sel ''off''] [CombNone] PeNone 0 1 0,
                       CssSelector [type_sel ''li''] [CombNone] PeMarker 0 0 2],
       ru_decls = [\<lparr>de_prop = 1, de_value = VKeyword ''blue'', de_important = True\<rparr>],
       ru_layer = None, ru_source = 2, ru_scopes = [], ru_container = None\<rparr>]"

lemma list_doc_element: "list_doc 3 \<noteq> None" "element_ok (the (list_doc 3))"
  by code_simp+

definition sample_dests :: "(ns_css_pseudo_element \<times> match_entry list) list" where
  "sample_dests = [(PeNone, []), (PeMarker, [])]"

abbreviation sample_scan :: "ns_css_pseudo_element \<Rightarrow> match_entry list" where
  "sample_scan \<equiv> scan_sheet calm_env 4 list_doc None (\<lambda>_. True) (\<lambda>_. None) sample_rules OriginAuthor 1 3"

theorem gather_scans_all_witness:
  "\<exists>outs. gather_matches_multi calm_env 4 list_doc None (\<lambda>_. True) (\<lambda>_. None) sample_rules OriginAuthor 1 3
        sample_dests = Some outs
     \<and> mset (snd (outs ! 0)) = mset (sample_scan PeNone) \<and> length (snd (outs ! 0)) = 1
     \<and> mset (snd (outs ! 1)) = mset (sample_scan PeMarker) \<and> length (snd (outs ! 1)) = 1"
proof -
  obtain nd where nd: "list_doc 3 = Some nd" "element_ok nd" using list_doc_element by auto
  have slots: "length sample_dests \<le> accum_slots" by (simp add: accum_slots_def sample_dests_def)
  obtain outs where o: "gather_matches_multi calm_env 4 list_doc None (\<lambda>_. True) (\<lambda>_. None) sample_rules OriginAuthor 1 3
        sample_dests = Some outs"
    "\<forall>dd < length sample_dests. mset (snd (outs ! dd)) = mset (snd (sample_dests ! dd))
          + mset (sample_scan (fst (sample_dests ! dd)))"
    using gather_scans_all [where h = list_doc and el = 3, OF nd slots] by blast
  have m: "mset (snd (outs ! 0)) = mset (sample_scan PeNone)" "mset (snd (outs ! 1)) = mset (sample_scan PeMarker)"
    using o(2) [rule_format, of 0] o(2) [rule_format, of 1] by (simp_all add: sample_dests_def)
  moreover have "length (sample_scan PeNone) = 1" "length (sample_scan PeMarker) = 1" by code_simp+
  ultimately show ?thesis using o(1) mset_eq_length [OF m(1)] mset_eq_length [OF m(2)] by metis
qed

text \<open>All nine pseudo-elements and the element itself are ten destinations: as soon as a rule
  matches, the code leaves its slots.\<close>

lemma all_pseudo_elements_leave_the_slots:
  "gather_matches_multi calm_env 4 list_doc None (\<lambda>_. True) (\<lambda>_. None) sample_rules OriginAuthor 1 3
     (map (\<lambda>pe. (pe, [])) [PeNone, PeBefore, PeAfter, PeFirstLetter, PeFirstLine, PeSelection, PeMarker,
        PeBackdrop, PePlaceholder, PeFileSelectorButton]) = None"
  by code_simp

end
