(* ===== verification/Css_Layers.thy ===== *)
theory Css_Layers
  imports Css_Rules "HOL-Library.List_Lexorder" "HOL-Library.AList"
begin

text \<open>
  Cascade layers (\<open>src/src/css.c\<close>): the names a sheet registers, the ranks the sheets give
  them together, and the final ranks, for which names are sorted so that the layers inside
  a layer come just before it and the layers of one level by their first appearance. A hash
  table is an association list whose order is any order of iteration.
\<close>

section \<open>Sorting with a comparison function\<close>

text \<open>\<open>g_array_sort\<close> and \<open>g_ptr_array_sort_with_data\<close> are stable.\<close>

fun insert_by :: "('a \<Rightarrow> 'a \<Rightarrow> int) \<Rightarrow> 'a \<Rightarrow> 'a list \<Rightarrow> 'a list" where
  "insert_by cmp x [] = [x]"
| "insert_by cmp x (y # ys) = (if cmp x y \<le> 0 then x # y # ys else y # insert_by cmp x ys)"

definition sort_by :: "('a \<Rightarrow> 'a \<Rightarrow> int) \<Rightarrow> 'a list \<Rightarrow> 'a list" where
  "sort_by cmp xs = foldr (insert_by cmp) xs []"

lemma insert_by_key:
  assumes "\<And>y. y \<in> set ys \<Longrightarrow> cmp x y \<le> 0 \<longleftrightarrow> f x \<le> f y"
  shows "insert_by cmp x ys = insort_key f x ys"
  using assms by (induction ys) simp_all

lemma sort_by_key:
  fixes f :: "'a \<Rightarrow> 'b :: linorder"
  assumes "distinct xs" "\<And>x y. x \<in> set xs \<Longrightarrow> y \<in> set xs \<Longrightarrow> x \<noteq> y \<Longrightarrow> cmp x y \<le> 0 \<longleftrightarrow> f x \<le> f y"
  shows "sort_by cmp xs = sort_key f xs"
  using assms
proof (induction xs)
  case (Cons x xs)
  have "sort_by cmp xs = sort_key f xs" by (rule Cons.IH) (use Cons.prems in auto)
  moreover have "insert_by cmp x (sort_key f xs) = insort_key f x (sort_key f xs)"
    by (rule insert_by_key) (use Cons.prems in auto)
  ultimately show ?case by (simp add: sort_by_def)
qed (simp add: sort_by_def)

section \<open>Names\<close>

abbreviation dot :: char where "dot \<equiv> CHR ''.''"

definition css_layer_join :: "cptr \<Rightarrow> string \<Rightarrow> string" where
  "css_layer_join parent child =
     (case parent of None \<Rightarrow> child
      | Some p \<Rightarrow> if p = [] then child else if child = [] then p else p @ [dot] @ child)"

record css_sheet_layers =
  ly_names :: "string list"
  ly_map :: "(string \<times> nat) list"

definition css_layer_register :: "string \<Rightarrow> css_sheet_layers \<Rightarrow> int \<times> css_sheet_layers" where
  "css_layer_register name sh =
     (if name = [] then (ns_css_layer_none, sh)
      else case map_of (ly_map sh) name of
        Some v \<Rightarrow> (int v - 1, sh)
      | None \<Rightarrow>
        let rank = length (ly_names sh)
        in (int rank, sh\<lparr>ly_names := ly_names sh @ [name], ly_map := (name, rank + 1) # ly_map sh\<rparr>))"

text \<open>\<open>ns_css_stylesheet_force_layer\<close>: the layers of an imported sheet, put below a name.\<close>

definition force_layer_names :: "string \<Rightarrow> string list \<Rightarrow> css_sheet_layers" where
  "force_layer_names name old =
     fold (\<lambda>o1 sh. snd (css_layer_register (css_layer_join (Some name) o1) sh)) old
       (snd (css_layer_register name \<lparr>ly_names = [], ly_map = []\<rparr>))"

definition force_layer_rule :: "string \<Rightarrow> ns_css_rule \<Rightarrow> ns_css_rule" where
  "force_layer_rule name r =
     r\<lparr>ru_layer := Some (case ru_layer r of None \<Rightarrow> name | Some l \<Rightarrow> css_layer_join (Some name) l)\<rparr>"

section \<open>Ranks\<close>

type_synonym layer_table = "(string \<times> nat) list"

definition css_layer_rank_add_sheet :: "string list \<Rightarrow> layer_table \<Rightarrow> layer_table" where
  "css_layer_rank_add_sheet names ranks =
     fold (\<lambda>name t. if map_of t name \<noteq> None then t else (name, length t) # t) names ranks"

text \<open>The end of the component that begins at \<open>k\<close>.\<close>

definition dot_from :: "string \<Rightarrow> nat \<Rightarrow> nat" where
  "dot_from name k = k + length (takeWhile (\<lambda>c. c \<noteq> dot) (drop k name))"

definition note_prefix :: "string \<Rightarrow> nat \<Rightarrow> layer_table \<Rightarrow> layer_table" where
  "note_prefix prefix i first =
     (case map_of first prefix of
        Some prev \<Rightarrow> if prev \<le> i then first else AList.update prefix i first
      | None \<Rightarrow> AList.update prefix i first)"

function css_layer_prefix_note :: "string \<Rightarrow> nat \<Rightarrow> nat \<Rightarrow> layer_table \<Rightarrow> layer_table" where
  "css_layer_prefix_note name i k first =
     (let d = dot_from name k; first1 = note_prefix (take d name) i first
      in if length name \<le> d then first1 else css_layer_prefix_note name i (d + 1) first1)"
  by pat_completeness auto
termination by (relation "measure (\<lambda>(name, i, k, first). length name - k)") (auto simp: dot_from_def)

declare css_layer_prefix_note.simps [simp del]

definition css_layer_first_index :: "layer_table \<Rightarrow> string \<Rightarrow> nat \<Rightarrow> nat" where
  "css_layer_first_index first name len = (case map_of first (take len name) of None \<Rightarrow> nat int_max | Some v \<Rightarrow> v)"

definition strcmp :: "string \<Rightarrow> string \<Rightarrow> int" where
  "strcmp a b = (if a = b then 0 else if bytes_le a b then - 1 else 1)"

text \<open>Both names agree before \<open>k\<close>, where a component begins.\<close>

function css_layer_name_cmp :: "layer_table \<Rightarrow> string \<Rightarrow> string \<Rightarrow> nat \<Rightarrow> int" where
  "css_layer_name_cmp first a b k =
     (let ad = dot_from a k; bd = dot_from b k
      in if ad \<noteq> bd \<or> take (ad - k) (drop k a) \<noteq> take (bd - k) (drop k b) then
           (let ai = css_layer_first_index first a ad; bi = css_layer_first_index first b bd
            in if ai \<noteq> bi then (if ai < bi then - 1 else 1) else strcmp a b)
         else if length a \<le> ad \<and> length b \<le> bd then 0
         else if length a \<le> ad then 1
         else if length b \<le> bd then - 1
         else css_layer_name_cmp first a b (ad + 1))"
  by pat_completeness auto
termination by (relation "measure (\<lambda>(first, a, b, k). length a - k)") (auto simp: dot_from_def)

declare css_layer_name_cmp.simps [simp del]

definition css_layer_ranks_finalize :: "layer_table \<Rightarrow> layer_table" where
  "css_layer_ranks_finalize ranks =
     (if ranks = [] then []
      else
        let first = fold (\<lambda>(name, i) t. css_layer_prefix_note name i 0 t) ranks [];
            names = sort_by (\<lambda>a b. css_layer_name_cmp first a b 0) (map fst first)
        in zip names [0..<length names])"

section \<open>Names as paths\<close>

definition layer_path :: "string \<Rightarrow> string list" where
  "layer_path name = split_on (\<lambda>c. c = dot) name"

lemma layer_path_nonempty [simp]: "layer_path name \<noteq> []"
  by (simp add: layer_path_def)

lemma layer_path_dots: "c \<in> set (layer_path name) \<Longrightarrow> dot \<notin> set c"
  using split_on_no_delim [of c "\<lambda>c. c = dot" name dot] by (auto simp: layer_path_def)

lemma strjoin_Cons: "strjoin [dot] (c # cs) = c @ (if cs = [] then [] else dot # strjoin [dot] cs)"
  by (cases cs) simp_all

lemma strjoin_layer_path: "strjoin [dot] (layer_path name) = name"
proof (induction name)
  case (Cons x name)
  obtain w ws where w: "layer_path name = w # ws" by (cases "layer_path name") auto
  have "layer_path (x # name) = (if x = dot then [] # w # ws else (x # w) # ws)"
    using w by (simp add: layer_path_def)
  moreover have "strjoin [dot] (w # ws) = name" using Cons w by simp
  ultimately show ?case by (simp add: strjoin_Cons split: if_splits)
qed (simp add: layer_path_def)

lemma layer_path_strjoin:
  "us \<noteq> [] \<Longrightarrow> (\<And>c. c \<in> set us \<Longrightarrow> dot \<notin> set c) \<Longrightarrow> layer_path (strjoin [dot] us) = us"
  unfolding layer_path_def by (rule split_on_strjoin) auto

lemma layer_path_inj: "layer_path a = layer_path b \<longleftrightarrow> a = b"
  by (metis strjoin_layer_path)

lemma dot_from_component:
  assumes "dot \<notin> set c"
  shows "dot_from (p @ strjoin [dot] (c # cs)) (length p) = length p + length c"
proof -
  have "takeWhile (\<lambda>x. x \<noteq> dot) (c @ r) = c" if "r = [] \<or> hd r = dot" for r
    using assms that by (cases r) (auto simp: takeWhile_append takeWhile_eq_all_conv)
  then show ?thesis by (simp add: dot_from_def strjoin_Cons)
qed

section \<open>What the loops over names compute\<close>

fun path_prefixes :: "string \<Rightarrow> string list \<Rightarrow> string list" where
  "path_prefixes p [] = []"
| "path_prefixes p (c # cs) = (p @ c) # path_prefixes (p @ c @ [dot]) cs"

lemma prefix_note_folds:
  assumes "cs \<noteq> []" "\<And>c. c \<in> set cs \<Longrightarrow> dot \<notin> set c"
  shows "css_layer_prefix_note (p @ strjoin [dot] cs) i (length p) first
    = fold (\<lambda>q t. note_prefix q i t) (path_prefixes p cs) first"
  using assms
proof (induction cs arbitrary: p first)
  case (Cons c cs)
  note d = dot_from_component [of c p cs]
  show ?case
  proof (cases "cs = []")
    case True
    then show ?thesis using Cons.prems d by (simp add: css_layer_prefix_note.simps)
  next
    case False
    note ih = Cons.IH [OF False, of "p @ c @ [dot]" "note_prefix (p @ c) i first"]
    show ?thesis using False Cons.prems d ih
      by (subst css_layer_prefix_note.simps) (simp add: strjoin_Cons)
  qed
qed simp

lemma path_prefixes_set:
  "set (path_prefixes p cs) = {p @ strjoin [dot] us |us vs. cs = us @ vs \<and> us \<noteq> []}"
proof (induction cs arbitrary: p)
  case (Cons c cs)
  have "{p @ strjoin [dot] us |us vs. c # cs = us @ vs \<and> us \<noteq> []}
      = insert (p @ c) {p @ strjoin [dot] (c # us) |us vs. cs = us @ vs \<and> us \<noteq> []}"
  proof (intro set_eqI iffI)
    fix x
    assume "x \<in> {p @ strjoin [dot] us |us vs. c # cs = us @ vs \<and> us \<noteq> []}"
    then obtain us vs where x: "x = p @ strjoin [dot] us" "c # cs = us @ vs" "us \<noteq> []" by blast
    then obtain us' where "us = c # us'" "cs = us' @ vs" by (cases us) auto
    with x show "x \<in> insert (p @ c) {p @ strjoin [dot] (c # us) |us vs. cs = us @ vs \<and> us \<noteq> []}"
      by (cases "us' = []") auto
  next
    fix x
    assume "x \<in> insert (p @ c) {p @ strjoin [dot] (c # us) |us vs. cs = us @ vs \<and> us \<noteq> []}"
    then consider "x = p @ c" | us vs where "x = p @ strjoin [dot] (c # us)" "cs = us @ vs" by blast
    then show "x \<in> {p @ strjoin [dot] us |us vs. c # cs = us @ vs \<and> us \<noteq> []}"
    proof cases
      case 1
      then have "x = p @ strjoin [dot] [c] \<and> c # cs = [c] @ cs \<and> [c] \<noteq> []" by simp
      then show ?thesis by blast
    next
      case (2 us vs)
      then have "x = p @ strjoin [dot] (c # us) \<and> c # cs = (c # us) @ vs \<and> c # us \<noteq> []" by simp
      then show ?thesis by blast
    qed
  qed
  moreover have "set (path_prefixes (p @ c @ [dot]) cs)
      = {p @ strjoin [dot] (c # us) |us vs. cs = us @ vs \<and> us \<noteq> []}"
    unfolding Cons.IH by (auto simp: strjoin_Cons)
  ultimately show ?case by simp
qed simp

text \<open>The prefixes of a name, as names of layers.\<close>

definition inside :: "string \<Rightarrow> string \<Rightarrow> bool" where
  "inside name p \<longleftrightarrow> (\<exists>rest. layer_path name = layer_path p @ rest)"

lemma prefixes_inside: "p \<in> set (path_prefixes [] (layer_path name)) \<longleftrightarrow> inside name p"
proof
  assume "p \<in> set (path_prefixes [] (layer_path name))"
  then obtain us vs where u: "p = strjoin [dot] us" "layer_path name = us @ vs" "us \<noteq> []"
    by (auto simp: path_prefixes_set)
  then have "layer_path p = us" using layer_path_dots [of _ name] by (auto intro!: layer_path_strjoin)
  with u show "inside name p" by (auto simp: inside_def)
next
  assume "inside name p"
  then obtain vs where "layer_path name = layer_path p @ vs" by (auto simp: inside_def)
  then have "p = strjoin [dot] (layer_path p) \<and> layer_path name = layer_path p @ vs \<and> layer_path p \<noteq> []"
    by (simp add: strjoin_layer_path)
  then show "p \<in> set (path_prefixes [] (layer_path name))" unfolding path_prefixes_set by fastforce
qed

lemma map_of_note:
  "map_of (note_prefix p i t) q
     = (if q = p then Some (case map_of t p of None \<Rightarrow> i | Some v \<Rightarrow> min v i) else map_of t q)"
  by (auto simp: note_prefix_def update_conv' min_def split: option.split)

lemma distinct_note: "distinct (map fst t) \<Longrightarrow> distinct (map fst (note_prefix p i t))"
  by (simp add: note_prefix_def distinct_update split: option.split)

definition least_of :: "nat set \<Rightarrow> nat option" where
  "least_of s = (if s = {} then None else Some (Min s))"

lemma map_of_fold_note:
  "map_of (fold (\<lambda>(p, i) t. note_prefix p i t) ps t) q
     = least_of (set_option (map_of t q) \<union> {i. (q, i) \<in> set ps})"
proof (induction ps arbitrary: t)
  case (Cons x ps)
  obtain p i where x: "x = (p, i)" by (cases x)
  have fin: "finite {i. (q, i) \<in> set ps}"
    by (rule finite_subset [of _ "snd ` set ps"]) force+
  have "least_of (set_option (map_of (note_prefix p i t) q) \<union> {i. (q, i) \<in> set ps})
      = least_of (set_option (map_of t q) \<union> {i. (q, i) \<in> set (x # ps)})"
  proof (cases "q = p")
    case True
    then have s: "{j. (q, j) \<in> set (x # ps)} = insert i {i. (q, i) \<in> set ps}" using x by auto
    show ?thesis
    proof (cases "map_of t q")
      case (Some v)
      have "Min (insert (min v i) {i. (q, i) \<in> set ps}) = Min (insert i (insert v {i. (q, i) \<in> set ps}))"
        using fin by (cases "{i. (q, i) \<in> set ps} = {}") (simp_all add: min.assoc min.commute)
      then show ?thesis using True Some unfolding s by (simp add: map_of_note least_of_def)
    qed (use True s in \<open>simp add: map_of_note least_of_def\<close>)
  next
    case False
    then have "{j. (q, j) \<in> set (x # ps)} = {i. (q, i) \<in> set ps}" using x by auto
    then show ?thesis using False by (simp add: map_of_note)
  qed
  then show ?case using Cons x by simp
next
  case Nil
  then show ?case by (cases "map_of t q") (simp_all add: least_of_def)
qed

section \<open>The order of names\<close>

text \<open>The order of appearance of a name: the least rank of a layer in it.\<close>

definition appears :: "layer_table \<Rightarrow> string \<Rightarrow> nat" where
  "appears ranks p = Min {i. \<exists>name. (name, i) \<in> set ranks \<and> inside name p}"

fun comps_cmp :: "(string \<Rightarrow> nat) \<Rightarrow> int \<Rightarrow> string \<Rightarrow> string list \<Rightarrow> string list \<Rightarrow> int" where
  "comps_cmp f tie p (c # cs) (d # ds) =
     (if c \<noteq> d then (if f (p @ c) \<noteq> f (p @ d) then (if f (p @ c) < f (p @ d) then - 1 else 1) else tie)
      else if cs = [] \<and> ds = [] then 0 else if cs = [] then 1 else if ds = [] then - 1
      else comps_cmp f tie (p @ c @ [dot]) cs ds)"
| "comps_cmp f tie p cs ds = 0"

lemma take_component: "take (length p + length c) (p @ strjoin [dot] (c # cs)) = p @ c"
  by (simp add: strjoin_Cons)

lemma drop_component: "take (length c) (drop (length p) (p @ strjoin [dot] (c # cs))) = c"
  by (simp add: strjoin_Cons)

lemma join_length: "length (p @ strjoin [dot] (c # cs)) \<le> length p + length c \<longleftrightarrow> cs = []"
  by (simp add: strjoin_Cons)

definition index_in :: "layer_table \<Rightarrow> string \<Rightarrow> nat" where
  "index_in first p = (case map_of first p of None \<Rightarrow> nat int_max | Some v \<Rightarrow> v)"

lemma name_cmp_comps:
  assumes "cs \<noteq> []" "ds \<noteq> []" "\<And>c. c \<in> set cs \<union> set ds \<Longrightarrow> dot \<notin> set c"
    and "a = p @ strjoin [dot] cs" "b = p @ strjoin [dot] ds"
  shows "css_layer_name_cmp first a b (length p) = comps_cmp (index_in first) (strcmp a b) p cs ds"
  using assms
proof (induction cs arbitrary: p ds)
  case (Cons c cs)
  obtain d es where ds: "ds = d # es" using Cons.prems(2) by (cases ds) auto
  have ad: "dot_from a (length p) = length p + length c" "dot_from b (length p) = length p + length d"
    using Cons.prems(3-5) ds by (simp_all add: dot_from_component)
  have t: "take (length p + length c) a = p @ c" "take (length p + length d) b = p @ d"
    "take (length c) (drop (length p) a) = c" "take (length d) (drop (length p) b) = d"
    "length a \<le> length p + length c \<longleftrightarrow> cs = []" "length b \<le> length p + length d \<longleftrightarrow> es = []"
    using Cons.prems(4,5) ds by (simp_all only: take_component drop_component join_length)
  have ih: "css_layer_name_cmp first a b (length (p @ c @ [dot]))
      = comps_cmp (index_in first) (strcmp a b) (p @ c @ [dot]) cs es"
    if "cs \<noteq> []" "es \<noteq> []" "c = d"
    by (rule Cons.IH) (use that Cons.prems ds in \<open>auto simp: strjoin_Cons\<close>)
  have cond: "(length p + length c \<noteq> length p + length d
      \<or> take (length p + length c - length p) (drop (length p) a) \<noteq> take (length p + length d - length p) (drop (length p) b))
      = (c \<noteq> d)"
    unfolding diff_add_inverse t(3,4) by auto
  have index: "css_layer_first_index first a (length p + length c) = index_in first (p @ c)"
    "css_layer_first_index first b (length p + length d) = index_in first (p @ d)"
    unfolding css_layer_first_index_def index_in_def t(1,2) by (rule refl)+
  have after_dot: "length p + length c + 1 = length (p @ c @ [dot])" by simp
  show ?case
    unfolding css_layer_name_cmp.simps [of first a b "length p"] Let_def ad cond t(5,6) index after_dot ds comps_cmp.simps
    using ih by simp
qed simp

text \<open>The comparison is that of lists of indices, a name that ends counting as last.\<close>

fun path_key :: "(string \<Rightarrow> nat) \<Rightarrow> string \<Rightarrow> string list \<Rightarrow> nat list" where
  "path_key f p [] = [nat int_max]"
| "path_key f p (c # cs) = f (p @ c) # path_key f (p @ c @ [dot]) cs"

definition siblings_differ :: "(string \<Rightarrow> nat) \<Rightarrow> string \<Rightarrow> string list \<Rightarrow> string list \<Rightarrow> bool" where
  "siblings_differ f p cs ds \<longleftrightarrow>
     (\<forall>us c vs d ws. cs = us @ c # vs \<longrightarrow> ds = us @ d # ws \<longrightarrow> c \<noteq> d
        \<longrightarrow> f (p @ strjoin [dot] (us @ [c])) \<noteq> f (p @ strjoin [dot] (us @ [d])))"

definition below_max :: "(string \<Rightarrow> nat) \<Rightarrow> string \<Rightarrow> string list \<Rightarrow> bool" where
  "below_max f p cs \<longleftrightarrow> (\<forall>q\<in>set (path_prefixes p cs). f q < nat int_max)"

lemma siblings_differ_tail:
  assumes "siblings_differ f p (c # cs) (c # ds)"
  shows "siblings_differ f (p @ c @ [dot]) cs ds"
  unfolding siblings_differ_def
proof (intro allI impI)
  fix us x vs y ws
  assume "cs = us @ x # vs" "ds = us @ y # ws" "x \<noteq> y"
  then show "f ((p @ c @ [dot]) @ strjoin [dot] (us @ [x])) \<noteq> f ((p @ c @ [dot]) @ strjoin [dot] (us @ [y]))"
    using assms [unfolded siblings_differ_def, rule_format, of "c # us" x vs y ws] by (simp add: strjoin_Cons)
qed

lemma comps_cmp_key:
  assumes "siblings_differ f p cs ds" "below_max f p cs" "below_max f p ds" "cs \<noteq> []" "ds \<noteq> []" "cs \<noteq> ds"
  shows "comps_cmp f tie p cs ds \<le> 0 \<longleftrightarrow> path_key f p cs \<le> path_key f p ds"
    and "path_key f p cs \<noteq> path_key f p ds"
proof -
  have "(comps_cmp f tie p cs ds \<le> 0 \<longleftrightarrow> path_key f p cs \<le> path_key f p ds) \<and> path_key f p cs \<noteq> path_key f p ds"
    using assms
  proof (induction cs arbitrary: p ds)
    case (Cons c cs)
    obtain d es where ds: "ds = d # es" using Cons.prems by (cases ds) auto
    show ?case
    proof (cases "c = d")
      case False
      then have "f (p @ c) \<noteq> f (p @ d)"
        using Cons.prems(1) [unfolded siblings_differ_def, rule_format, of "[]" c cs d es] ds by simp
      then show ?thesis using False ds by simp
    next
      case True
      have b: "below_max f (p @ c @ [dot]) cs" "below_max f (p @ c @ [dot]) es"
        using Cons.prems(2,3) ds True by (auto simp: below_max_def)
      show ?thesis
      proof (cases "cs = [] \<or> es = []")
        case True
        with \<open>c = d\<close> ds Cons.prems(6) b show ?thesis by (cases cs; cases es) (auto simp: below_max_def)
      next
        case False
        have "siblings_differ f (p @ c @ [dot]) cs es"
          using Cons.prems(1) ds True by (auto intro: siblings_differ_tail)
        from Cons.IH [OF this b] show ?thesis using False ds True Cons.prems(6) by simp
      qed
    qed
  qed simp
  then show "comps_cmp f tie p cs ds \<le> 0 \<longleftrightarrow> path_key f p cs \<le> path_key f p ds"
    "path_key f p cs \<noteq> path_key f p ds" by blast+
qed

section \<open>The final ranks\<close>

definition ranks_ok :: "layer_table \<Rightarrow> bool" where
  "ranks_ok t \<longleftrightarrow> distinct (map snd t) \<and> set (map snd t) = {..<length t}"

lemma add_sheet_ok: "ranks_ok t \<Longrightarrow> ranks_ok (css_layer_rank_add_sheet names t)"
  unfolding css_layer_rank_add_sheet_def
proof (induction names arbitrary: t)
  case (Cons name names)
  have "ranks_ok ((name, length t) # t)" using Cons.prems by (auto simp: ranks_ok_def lessThan_Suc)
  then show ?case using Cons.IH Cons.prems by simp
qed simp

lemma sheets_ok: "ranks_ok (fold css_layer_rank_add_sheet sheets [])"
proof -
  have "ranks_ok t \<Longrightarrow> ranks_ok (fold css_layer_rank_add_sheet sheets t)" for t
    by (induction sheets arbitrary: t) (simp_all add: add_sheet_ok)
  then show ?thesis by (simp add: ranks_ok_def)
qed

definition first_indices :: "layer_table \<Rightarrow> layer_table" where
  "first_indices ranks = fold (\<lambda>(name, i) t. css_layer_prefix_note name i 0 t) ranks []"

lemma first_indices_notes:
  "first_indices ranks = fold (\<lambda>(p, i) t. note_prefix p i t)
     (concat (map (\<lambda>(name, i). map (\<lambda>p. (p, i)) (path_prefixes [] (layer_path name))) ranks)) []"
proof -
  have "css_layer_prefix_note name i 0 t = fold (\<lambda>p t. note_prefix p i t) (path_prefixes [] (layer_path name)) t" for name i t
    using prefix_note_folds [of "layer_path name" "[]" i t] layer_path_dots by (simp add: strjoin_layer_path)
  moreover have "fold (\<lambda>p. f (p, i)) ps t = fold f (map (\<lambda>p. (p, i)) ps) t"
    for f :: "string \<times> nat \<Rightarrow> layer_table \<Rightarrow> layer_table" and i ps t
    by (simp add: fold_map comp_def)
  moreover have "fold (\<lambda>(name, i) t. fold (\<lambda>p t. note_prefix p i t) (path_prefixes [] (layer_path name)) t) rs t
      = fold (\<lambda>(p, i) t. note_prefix p i t)
          (concat (map (\<lambda>(name, i). map (\<lambda>p. (p, i)) (path_prefixes [] (layer_path name))) rs)) t" for rs t
    by (induction rs arbitrary: t) (auto simp: fold_map comp_def)
  ultimately show ?thesis by (simp add: first_indices_def)
qed

lemma map_of_first:
  "map_of (first_indices ranks) p = (if \<exists>(name, i)\<in>set ranks. inside name p then Some (appears ranks p) else None)"
proof -
  have "{i. (p, i) \<in> set (concat (map (\<lambda>(name, i). map (\<lambda>p. (p, i)) (path_prefixes [] (layer_path name))) ranks))}
      = {i. \<exists>name. (name, i) \<in> set ranks \<and> inside name p}"
    by (auto simp: prefixes_inside) (auto simp: image_iff prefixes_inside)
  then show ?thesis unfolding first_indices_notes map_of_fold_note
    by (auto simp: least_of_def appears_def)
qed

lemma distinct_first: "distinct (map fst (first_indices ranks))"
proof -
  have "distinct (map fst t) \<Longrightarrow> distinct (map fst (fold (\<lambda>(p, i) t. note_prefix p i t) ps t))" for ps t
    by (induction ps arbitrary: t) (auto simp: distinct_note)
  then show ?thesis unfolding first_indices_notes by simp
qed

lemma appears_in:
  assumes "(name, i) \<in> set ranks" "inside name p"
  shows "\<exists>name'. (name', appears ranks p) \<in> set ranks \<and> inside name' p"
proof -
  let ?s = "{i. \<exists>name. (name, i) \<in> set ranks \<and> inside name p}"
  have "finite ?s" by (rule finite_subset [of _ "snd ` set ranks"]) force+
  moreover have "?s \<noteq> {}" using assms by blast
  ultimately have "Min ?s \<in> ?s" by (rule Min_in)
  then show ?thesis by (simp add: appears_def)
qed

lemma inside_trans: "inside a b \<Longrightarrow> inside b c \<Longrightarrow> inside a c"
  by (auto simp: inside_def)

lemma inside_prefix:
  assumes "layer_path name = us @ c # vs"
  shows "inside name (strjoin [dot] (us @ [c]))" "layer_path (strjoin [dot] (us @ [c])) = us @ [c]"
proof -
  show "layer_path (strjoin [dot] (us @ [c])) = us @ [c]"
    by (rule layer_path_strjoin) (use layer_path_dots [of _ name] assms in auto)
  then show "inside name (strjoin [dot] (us @ [c]))" using assms by (simp add: inside_def)
qed

definition known :: "layer_table \<Rightarrow> string \<Rightarrow> bool" where
  "known ranks p \<longleftrightarrow> (\<exists>(name, i)\<in>set ranks. inside name p)"

lemma known_prefix: "known ranks p \<Longrightarrow> inside p q \<Longrightarrow> known ranks q"
  unfolding known_def by (blast intro: inside_trans)

lemma index_known: "known ranks p \<Longrightarrow> index_in (first_indices ranks) p = appears ranks p"
  by (simp add: index_in_def map_of_first known_def)

lemma known_siblings:
  assumes "ranks_ok ranks" "known ranks a" "known ranks b"
  shows "siblings_differ (index_in (first_indices ranks)) [] (layer_path a) (layer_path b)"
  unfolding siblings_differ_def
proof (intro allI impI)
  fix us c vs d ws
  assume p: "layer_path a = us @ c # vs" "layer_path b = us @ d # ws" "c \<noteq> d"
  let ?p = "strjoin [dot] (us @ [c])" and ?q = "strjoin [dot] (us @ [d])"
  note pa = inside_prefix [OF p(1)] and pb = inside_prefix [OF p(2)]
  have k: "known ranks ?p" "known ranks ?q" using assms(2,3) pa(1) pb(1) known_prefix by blast+
  obtain x where x: "(x, appears ranks ?p) \<in> set ranks" "inside x ?p"
    using k(1) appears_in unfolding known_def by blast
  obtain y where y: "(y, appears ranks ?q) \<in> set ranks" "inside y ?q"
    using k(2) appears_in unfolding known_def by blast
  have "appears ranks ?p \<noteq> appears ranks ?q"
  proof
    assume e: "appears ranks ?p = appears ranks ?q"
    have "inj_on snd (set ranks)" using assms(1) by (simp add: ranks_ok_def distinct_map)
    then have "x = y" using x(1) y(1) e by (metis inj_onD Pair_inject snd_conv)
    then show False using x(2) y(2) p(3) by (auto simp: inside_def pa(2) pb(2))
  qed
  then show "index_in (first_indices ranks) ([] @ ?p) \<noteq> index_in (first_indices ranks) ([] @ ?q)"
    using k by (simp add: index_known)
qed

lemma known_below:
  assumes "ranks_ok ranks" "length ranks \<le> nat int_max" "known ranks a"
  shows "below_max (index_in (first_indices ranks)) [] (layer_path a)"
  unfolding below_max_def
proof
  fix q
  assume "q \<in> set (path_prefixes [] (layer_path a))"
  then have k: "known ranks q" using assms(3) known_prefix prefixes_inside by blast
  then obtain x where "(x, appears ranks q) \<in> set ranks" using appears_in unfolding known_def by blast
  then have "appears ranks q \<in> set (map snd ranks)" by force
  then show "index_in (first_indices ranks) q < nat int_max"
    using assms(1,2) by (simp add: index_known [OF k] ranks_ok_def)
qed

definition layer_key :: "layer_table \<Rightarrow> string \<Rightarrow> nat list" where
  "layer_key ranks p = path_key (index_in (first_indices ranks)) [] (layer_path p)"

lemma known_first: "known ranks p \<longleftrightarrow> p \<in> set (map fst (first_indices ranks))"
proof -
  have "p \<in> set (map fst (first_indices ranks)) \<longleftrightarrow> map_of (first_indices ranks) p \<noteq> None"
    by (simp add: map_of_eq_None_iff)
  then show ?thesis by (simp add: map_of_first known_def)
qed

lemma name_cmp_key:
  assumes "ranks_ok ranks" "length ranks \<le> nat int_max" "known ranks a" "known ranks b" "a \<noteq> b"
  shows "css_layer_name_cmp (first_indices ranks) a b 0 \<le> 0 \<longleftrightarrow> layer_key ranks a \<le> layer_key ranks b"
    and "layer_key ranks a \<noteq> layer_key ranks b"
proof -
  have cmp: "css_layer_name_cmp (first_indices ranks) a b (length [])
      = comps_cmp (index_in (first_indices ranks)) (strcmp a b) [] (layer_path a) (layer_path b)"
    using name_cmp_comps [of "layer_path a" "layer_path b" a "[]" b "first_indices ranks"] layer_path_dots
    by (auto simp: strjoin_layer_path)
  note key = comps_cmp_key [OF known_siblings [OF assms(1,3,4)] known_below [OF assms(1,2,3)]
      known_below [OF assms(1,2,4)] layer_path_nonempty layer_path_nonempty]
  have ne: "layer_path a \<noteq> layer_path b" using assms(5) by (simp add: layer_path_inj)
  show "css_layer_name_cmp (first_indices ranks) a b 0 \<le> 0 \<longleftrightarrow> layer_key ranks a \<le> layer_key ranks b"
    using cmp key(1) [OF ne] by (simp add: layer_key_def)
  show "layer_key ranks a \<noteq> layer_key ranks b" using key(2) [OF ne] by (simp add: layer_key_def)
qed

lemma finalize_sorted:
  assumes "ranks_ok ranks" "length ranks \<le> nat int_max"
  defines "names \<equiv> sort_key (layer_key ranks) (map fst (first_indices ranks))"
  shows "css_layer_ranks_finalize ranks = zip names [0..<length names]"
    "set names = {p. known ranks p}" "distinct names" "sorted_wrt (\<lambda>a b. layer_key ranks a < layer_key ranks b) names"
proof -
  have "sort_by (\<lambda>a b. css_layer_name_cmp (first_indices ranks) a b 0) (map fst (first_indices ranks)) = names"
    unfolding names_def
    by (rule sort_by_key [OF distinct_first]) (use name_cmp_key(1) [OF assms(1,2)] known_first in blast)
  then show "css_layer_ranks_finalize ranks = zip names [0..<length names]"
    by (auto simp: css_layer_ranks_finalize_def first_indices_def [symmetric] Let_def names_def first_indices_notes)
  show s: "set names = {p. known ranks p}" by (auto simp: names_def known_first)
  show d: "distinct names" by (simp add: names_def distinct_first)
  have "sorted (map (layer_key ranks) names)" by (simp add: names_def)
  moreover have "distinct (map (layer_key ranks) names)"
    unfolding distinct_map using d s name_cmp_key(2) [OF assms(1,2)] by (auto intro!: inj_onI)
  ultimately have "sorted_wrt (<) (map (layer_key ranks) names)" by (simp add: strict_sorted_iff)
  then show "sorted_wrt (\<lambda>a b. layer_key ranks a < layer_key ranks b) names" by (simp add: sorted_wrt_map)
qed

lemma map_of_positions:
  "distinct xs \<Longrightarrow> map_of (zip xs [0..<length xs]) x = Some i \<longleftrightarrow> i < length xs \<and> xs ! i = x"
  by (subst map_of_eq_Some_iff) (auto simp: in_set_zip distinct_map)

lemma rank_less:
  assumes "ranks_ok ranks" "length ranks \<le> nat int_max"
    and "map_of (css_layer_ranks_finalize ranks) p = Some i" "map_of (css_layer_ranks_finalize ranks) q = Some j"
  shows "i < j \<longleftrightarrow> layer_key ranks p < layer_key ranks q"
proof -
  note f = finalize_sorted [OF assms(1,2)]
  define names where "names = sort_key (layer_key ranks) (map fst (first_indices ranks))"
  have i: "i < length names" "names ! i = p" and j: "j < length names" "names ! j = q"
    using assms(3,4) unfolding f(1) map_of_positions [OF f(3)] names_def by simp_all
  note lt = sorted_wrt_nth_less [OF f(4) [folded names_def]]
  show ?thesis
  proof (cases i j rule: linorder_cases)
    case less
    then show ?thesis using lt [of i j] i j by simp
  next
    case equal
    then show ?thesis using i j by simp
  next
    case greater
    then show ?thesis using lt [of j i] i j by (simp add: less_asym)
  qed
qed

lemma path_key_common:
  "path_key f p (us @ cs) < path_key f p (us @ ds)
     \<longleftrightarrow> path_key f (p @ concat (map (\<lambda>c. c @ [dot]) us)) cs < path_key f (p @ concat (map (\<lambda>c. c @ [dot]) us)) ds"
  by (induction us arbitrary: p) simp_all

lemma concat_dots: "concat (map (\<lambda>c. c @ [dot]) us) @ c = strjoin [dot] (us @ [c])"
  by (induction us) (simp_all add: strjoin_Cons)

text \<open>(C5) The final ranks of cascade layers: whatever layers the sheets register in whatever
  order, the names that get a rank are the registered ones and the layers around them, the
  ranks are exactly \<open>0\<close> to their number less one, a layer comes before every layer it is
  inside of, and of two layers that part at some level, the one whose branch was registered
  first comes first, with everything inside it.\<close>

theorem layer_ranks_order:
  fixes sheets :: "string list list"
  defines "ranks \<equiv> fold css_layer_rank_add_sheet sheets []"
  defines "R \<equiv> map_of (css_layer_ranks_finalize ranks)"
  assumes "length ranks \<le> nat int_max"
  shows "dom R = {p. \<exists>(name, i)\<in>set ranks. inside name p} \<and> inj_on R (dom R)
     \<and> (\<forall>p i. R p = Some i \<longrightarrow> i < card (dom R))
     \<and> (\<forall>p q i j. R p = Some i \<longrightarrow> R q = Some j \<longrightarrow> inside q p \<longrightarrow> q \<noteq> p \<longrightarrow> j < i)
     \<and> (\<forall>p q i j us c vs d ws. R p = Some i \<longrightarrow> R q = Some j \<longrightarrow> layer_path p = us @ c # vs
          \<longrightarrow> layer_path q = us @ d # ws \<longrightarrow> c \<noteq> d
          \<longrightarrow> (i < j \<longleftrightarrow> appears ranks (strjoin [dot] (us @ [c])) < appears ranks (strjoin [dot] (us @ [d]))))"
proof -
  have ok: "ranks_ok ranks" unfolding ranks_def by (rule sheets_ok)
  note f = finalize_sorted [OF ok assms(3)]
  define names where "names = sort_key (layer_key ranks) (map fst (first_indices ranks))"
  have R: "R p = Some i \<longleftrightarrow> i < length names \<and> names ! i = p" for p i
    unfolding R_def f(1) names_def using f(3) by (rule map_of_positions)
  have dom: "dom R = set names" by (auto simp: dom_def R in_set_conv_nth)
  have less: "i < j \<longleftrightarrow> layer_key ranks p < layer_key ranks q" if "R p = Some i" "R q = Some j" for p q i j
    using rank_less [OF ok assms(3)] that unfolding R_def by blast
  have known: "known ranks p" if "R p = Some i" for p i
    using that f(2) [folded names_def] unfolding R by (metis mem_Collect_eq nth_mem)
  have index: "index_in (first_indices ranks) ([] @ concat (map (\<lambda>c. c @ [dot]) us) @ c)
      = appears ranks (strjoin [dot] (us @ [c]))" if "R p = Some i" "layer_path p = us @ c # vs" for p i us c vs
    using index_known [OF known_prefix [OF known [OF that(1)] inside_prefix(1) [OF that(2)]]]
    by (simp add: concat_dots)
  have "j < i" if "R p = Some i" "R q = Some j" "inside q p" "q \<noteq> p" for p q i j
  proof -
    note t = that
    obtain c rest where q: "layer_path q = layer_path p @ c # rest"
      using t(3,4) layer_path_inj [of q p] unfolding inside_def by (metis append_Nil2 neq_Nil_conv)
    have "below_max (index_in (first_indices ranks)) [] (layer_path q)"
      using known_below [OF ok assms(3) known [OF that(2)]] .
    then have "index_in (first_indices ranks) ([] @ concat (map (\<lambda>c. c @ [dot]) (layer_path p)) @ c) < nat int_max"
      using inside_prefix(1) [OF q] prefixes_inside concat_dots unfolding below_max_def by simp
    then have "layer_key ranks q < layer_key ranks p"
      unfolding layer_key_def q
      using path_key_common [of _ "[]" "layer_path p" "c # rest" "[]"] by simp
    then show ?thesis using less [OF that(2,1)] by simp
  qed
  moreover have "i < j \<longleftrightarrow> appears ranks (strjoin [dot] (us @ [c])) < appears ranks (strjoin [dot] (us @ [d]))"
    if "R p = Some i" "R q = Some j" "layer_path p = us @ c # vs" "layer_path q = us @ d # ws" "c \<noteq> d"
    for p q i j us c vs d ws
  proof -
    have "appears ranks (strjoin [dot] (us @ [c])) \<noteq> appears ranks (strjoin [dot] (us @ [d]))"
      using known_siblings [OF ok known [OF that(1)] known [OF that(2)]] index [OF that(1,3)] index [OF that(2,4)] that(3-5)
      unfolding siblings_differ_def by (metis append_Nil concat_dots)
    then show ?thesis
      unfolding less [OF that(1,2)] layer_key_def that(3,4) path_key_common
      using index [OF that(1,3)] index [OF that(2,4)] by simp
  qed
  moreover have "dom R = {p. \<exists>(name, i)\<in>set ranks. inside name p}"
    using f(2) [folded names_def] dom by (simp add: known_def)
  moreover have "inj_on R (dom R)" by (rule inj_onI) (metis R domD)
  moreover have "i < card (dom R)" if "R p = Some i" for p i
    using that f(3) [folded names_def] dom R by (simp add: distinct_card)
  ultimately show ?thesis by blast
qed

definition sample_layers :: "string list list" where
  "sample_layers = [[''a.b'', ''c''], [''b'', ''a'']]"

theorem layer_ranks_order_witness:
  "let R = map_of (css_layer_ranks_finalize (fold css_layer_rank_add_sheet sample_layers []))
   in R ''a.b'' = Some 0 \<and> R ''a'' = Some 1 \<and> R ''c'' = Some 2 \<and> R ''b'' = Some 3 \<and> inj_on R (dom R)"
proof -
  have "length (fold css_layer_rank_add_sheet sample_layers []) = 4" by code_simp
  then have "length (fold css_layer_rank_add_sheet sample_layers []) \<le> nat int_max" by (simp add: int_max_def)
  note layer_ranks_order [OF this]
  then have "inj_on (map_of (css_layer_ranks_finalize (fold css_layer_rank_add_sheet sample_layers [])))
      (dom (map_of (css_layer_ranks_finalize (fold css_layer_rank_add_sheet sample_layers []))))" by blast
  moreover have "map_of (css_layer_ranks_finalize (fold css_layer_rank_add_sheet sample_layers [])) ''a.b'' = Some 0"
    "map_of (css_layer_ranks_finalize (fold css_layer_rank_add_sheet sample_layers [])) ''a'' = Some 1"
    "map_of (css_layer_ranks_finalize (fold css_layer_rank_add_sheet sample_layers [])) ''c'' = Some 2"
    "map_of (css_layer_ranks_finalize (fold css_layer_rank_add_sheet sample_layers [])) ''b'' = Some 3"
    by code_simp+
  ultimately show ?thesis unfolding Let_def by blast
qed

end
