(* ===== verification/Css_Cascade.thy ===== *)
theory Css_Cascade
  imports Css_Layers
begin

text \<open>
  The cascade (\<open>src/src/css.c\<close>): the order of matched declarations, the loop that applies
  them with \<open>revert\<close>, \<open>revert-layer\<close> and \<open>revert-rule\<close>, inheritance and defaulting, and
  the way an element and its pseudo-elements collect declarations from all sheets. Values
  that refer to custom properties, the adjustment of \<open>display\<close> and the resolution of
  relative units come later in the code and are left out; so are the styles that siblings
  share. The specification \<open>cascades_to\<close> knows no sorting and no index, and ranks
  declarations by the criteria of CSS, not by the code's comparison; where the two differ is
  excluded by \<open>importance_plain\<close> and shown at the end.
\<close>

section \<open>The order of declarations\<close>

fun origin_index :: "ns_css_origin \<Rightarrow> int" where
  "origin_index OriginUa = 0"
| "origin_index OriginPresentational = 1"
| "origin_index OriginAuthor = 2"

definition css_layer_cmp :: "int \<Rightarrow> int \<Rightarrow> bool \<Rightarrow> int" where
  "css_layer_cmp a b important =
     (if a = b then 0 else if important then (if b < a then - 1 else 1) else if a < b then - 1 else 1)"

definition match_cmp :: "match_entry \<Rightarrow> match_entry \<Rightarrow> int" where
  "match_cmp a b =
     (if me_important a \<noteq> me_important b then (if me_important a then 1 else - 1)
      else if me_origin a \<noteq> me_origin b then
        (if me_important a then (if origin_index (me_origin b) < origin_index (me_origin a) then - 1 else 1)
         else if origin_index (me_origin a) < origin_index (me_origin b) then - 1 else 1)
      else if css_layer_cmp (me_layer_order a) (me_layer_order b) (me_important a) \<noteq> 0
        then css_layer_cmp (me_layer_order a) (me_layer_order b) (me_important a)
      else if me_spec_a a \<noteq> me_spec_a b then (if me_spec_a a < me_spec_a b then - 1 else 1)
      else if me_spec_b a \<noteq> me_spec_b b then (if me_spec_b a < me_spec_b b then - 1 else 1)
      else if me_spec_c a \<noteq> me_spec_c b then (if me_spec_c a < me_spec_c b then - 1 else 1)
      else if me_scope_order a \<noteq> me_scope_order b then (if me_scope_order a < me_scope_order b then - 1 else 1)
      else if me_sheet_index a \<noteq> me_sheet_index b then (if me_sheet_index a < me_sheet_index b then - 1 else 1)
      else if me_source_order a \<noteq> me_source_order b then (if me_source_order a < me_source_order b then - 1 else 1)
      else if me_decl_order a < me_decl_order b then - 1 else 1)"

section \<open>Applying the declarations\<close>

type_synonym style_values = "nat \<Rightarrow> ns_css_value option"

definition value_is :: "string \<Rightarrow> ns_css_value \<Rightarrow> bool" where
  "value_is word v = (v = VKeyword word)"

definition value_reverts :: "ns_css_value \<Rightarrow> bool" where
  "value_reverts v = (value_is ''revert'' v \<or> value_is ''revert-layer'' v \<or> value_is ''revert-rule'' v)"

definition css_same_revert_origin :: "ns_css_origin \<Rightarrow> ns_css_origin \<Rightarrow> bool" where
  "css_same_revert_origin rollback candidate =
     (if rollback = OriginAuthor then candidate = OriginAuthor \<or> candidate = OriginPresentational
      else rollback = candidate)"

definition rollback_skips :: "match_entry \<Rightarrow> match_entry \<Rightarrow> bool" where
  "rollback_skips rollback prev =
     (if value_is ''revert-rule'' (me_value rollback) then me_rule prev = me_rule rollback
      else if value_is ''revert-layer'' (me_value rollback) then
        me_origin prev = me_origin rollback
        \<and> (if me_inline_style rollback then me_inline_style prev
           else if me_layer_order rollback = ns_css_layer_none then me_layer_order prev = ns_css_layer_none
           else me_layer_order rollback \<le> me_layer_order prev)
      else css_same_revert_origin (me_origin rollback) (me_origin prev))"

text \<open>The entries before the one that rolls back, the nearest first.\<close>

fun cascade_rollback_value :: "match_entry list \<Rightarrow> match_entry \<Rightarrow> ns_css_value option" where
  "cascade_rollback_value [] rollback = None"
| "cascade_rollback_value (prev # earlier) rollback =
     (if me_prop prev \<noteq> me_prop rollback \<or> rollback_skips rollback prev then cascade_rollback_value earlier rollback
      else if value_reverts (me_value prev) then cascade_rollback_value earlier prev
      else Some (me_value prev))"

fun cascade_apply :: "match_entry list \<Rightarrow> match_entry list \<Rightarrow> style_values \<Rightarrow> style_values" where
  "cascade_apply earlier [] out = out"
| "cascade_apply earlier (m # ms) out =
     cascade_apply (m # earlier) ms
       (out(me_prop m := if value_reverts (me_value m) then cascade_rollback_value earlier m else Some (me_value m)))"

text \<open>Properties are numbered as in the enumeration \<open>ns_css_prop\<close>; these are the ones
  \<open>prop_inherits\<close> lists, from \<open>color\<close> (1) and the font properties (3 to 11) to
  \<open>shape-rendering\<close>.\<close>

definition ns_css_prop_count :: nat where "ns_css_prop_count = 223"

definition prop_inherits :: "nat \<Rightarrow> bool" where
  "prop_inherits p = List.member [1, 3, 4, 5, 6, 7, 8, 9, 10, 11, 12, 39, 48, 49, 50, 51, 52, 54,
      55, 56, 58, 60, 93, 94, 115, 116, 117, 121, 122, 123, 124, 133, 145, 146, 147, 150,
      151, 155, 167, 168, 197, 198, 199, 200, 201, 202, 203, 204, 205, 206, 207, 210, 211, 213,
      215] p"





section \<open>The declarations of an element\<close>

type_synonym sheet = "ns_css_rule list"

text \<open>The sheets with their origin and index; a sheet pointer may be NULL.\<close>

definition style_sheets :: "sheet option \<Rightarrow> sheet option list \<Rightarrow> (ns_css_origin \<times> int \<times> sheet) list" where
  "style_sheets ua author =
     (case ua of None \<Rightarrow> [] | Some rules \<Rightarrow> [(OriginUa, 0, rules)])
     @ concat (map (\<lambda>i. case author ! i of None \<Rightarrow> [] | Some rules \<Rightarrow> [(OriginAuthor, int (i + 1), rules)])
         [0..<length author])"




definition int_min :: int where "int_min = - 2147483648"

text \<open>The declarations of presentational attributes and of the \<open>style\<close> attribute.\<close>

definition attached_entry :: "ns_css_origin \<Rightarrow> int \<Rightarrow> int \<Rightarrow> bool \<Rightarrow> ns_css_rule \<Rightarrow> nat \<Rightarrow> match_entry" where
  "attached_entry origin spec source is_inline r di =
     (let d = ru_decls r ! di
      in \<lparr>me_origin = origin, me_spec_a = spec, me_spec_b = 0, me_spec_c = 0, me_sheet_index = 0,
          me_layer_order = ns_css_layer_none, me_scope_order = 0, me_source_order = source,
          me_decl_order = css_decl_slot di, me_important = de_important d, me_inline_style = is_inline,
          me_rule = ru_addr r, me_value = de_value d, me_prop = de_prop d\<rparr>)"

definition attached_entries :: "ns_css_origin \<Rightarrow> int \<Rightarrow> int \<Rightarrow> bool \<Rightarrow> sheet option \<Rightarrow> match_entry list" where
  "attached_entries origin spec source is_inline s =
     (case s of None \<Rightarrow> []
      | Some rules \<Rightarrow> concat (map (\<lambda>r. map (attached_entry origin spec source is_inline r) [0..<length (ru_decls r)]) rules))"

definition element_attached :: "sheet option \<Rightarrow> sheet option \<Rightarrow> match_entry list" where
  "element_attached hints inline =
     attached_entries OriginPresentational 0 int_min False hints
     @ attached_entries OriginAuthor 1000 int_max True inline"



section \<open>The specification\<close>

text \<open>The sorting criteria of the cascade in their order: importance, origin (reversed for
  important declarations), whether the declaration is attached to the element by its
  \<open>style\<close> attribute, layer (reversed again), specificity, scope, order of appearance.\<close>

type_synonym cascade_key = "bool \<times> int \<times> bool \<times> int \<times> int \<times> int \<times> int \<times> int \<times> int \<times> int \<times> int"

definition precedence :: "match_entry \<Rightarrow> cascade_key" where
  "precedence m =
     (me_important m,
      if me_important m then - origin_index (me_origin m) else origin_index (me_origin m),
      me_inline_style m,
      if me_important m then - me_layer_order m else me_layer_order m,
      me_spec_a m, me_spec_b m, me_spec_c m, me_scope_order m, me_sheet_index m, me_source_order m, me_decl_order m)"

definition wins :: "match_entry set \<Rightarrow> nat \<Rightarrow> match_entry \<Rightarrow> bool" where
  "wins s p m \<longleftrightarrow> m \<in> s \<and> me_prop m = p \<and> (\<forall>x\<in>s. me_prop x = p \<longrightarrow> precedence x \<le> precedence m)"

text \<open>What a declaration that rolls back takes out: everything but the earlier origins, where
  authors and presentational attributes are one; its layer, where the \<open>style\<close> attribute is
  one of its own; or its rule.\<close>

definition taken_out :: "match_entry \<Rightarrow> match_entry \<Rightarrow> bool" where
  "taken_out m x =
     (if me_value m = VKeyword ''revert-rule'' then me_rule x = me_rule m
      else if me_value m = VKeyword ''revert-layer'' then
        me_origin x = me_origin m \<and> me_layer_order x = me_layer_order m \<and> me_inline_style x = me_inline_style m
      else me_origin m = OriginUa \<or> me_origin x \<noteq> OriginUa)"

inductive cascades_to :: "match_entry set \<Rightarrow> nat \<Rightarrow> ns_css_value option \<Rightarrow> bool" where
  none_declared: "(\<And>x. x \<in> s \<Longrightarrow> me_prop x \<noteq> p) \<Longrightarrow> cascades_to s p None"
| declared: "wins s p m \<Longrightarrow> \<not> value_reverts (me_value m) \<Longrightarrow> cascades_to s p (Some (me_value m))"
| rolled_back: "wins s p m \<Longrightarrow> value_reverts (me_value m) \<Longrightarrow> cascades_to {x \<in> s. \<not> taken_out m x} p v
     \<Longrightarrow> cascades_to s p v"

text \<open>Declarations as the code collects them: no two alike in precedence, the \<open>style\<close>
  attribute an author's, outside layers and above every other specificity, the declarations
  of a rule next to each other.\<close>

definition rule_place :: "match_entry \<Rightarrow> ns_css_origin \<times> int \<times> int \<times> int \<times> int \<times> int \<times> int \<times> int" where
  "rule_place m = (me_origin m, me_layer_order m, me_spec_a m, me_spec_b m, me_spec_c m, me_scope_order m,
     me_sheet_index m, me_source_order m)"

definition entries_collected :: "match_entry list \<Rightarrow> bool" where
  "entries_collected ms \<longleftrightarrow>
     distinct (map precedence ms)
     \<and> list_all (\<lambda>m. if me_inline_style m
          then me_origin m = OriginAuthor \<and> me_layer_order m = ns_css_layer_none \<and> me_spec_a m = 1000
          else me_layer_order m \<le> ns_css_layer_none \<and> me_spec_a m < 1000) ms
     \<and> list_all (\<lambda>m. list_all (\<lambda>x. (me_rule x = me_rule m) = (rule_place x = rule_place m)) ms) ms"

text \<open>Two uses of \<open>!important\<close> are left out, as the code departs from the cascade on them
  (see the end of the theory): \<open>revert-layer\<close> and \<open>revert-rule\<close> marked important, and the
  important declarations of one property both in a \<open>style\<close> attribute and in an author's
  layer. An important \<open>revert\<close> of an author is in.\<close>

definition importance_plain :: "match_entry list \<Rightarrow> bool" where
  "importance_plain ms \<longleftrightarrow>
     list_all (\<lambda>m. me_important m \<and> value_reverts (me_value m)
        \<longrightarrow> me_value m = VKeyword ''revert'' \<and> me_origin m = OriginAuthor) ms
     \<and> list_all (\<lambda>m. list_all (\<lambda>x. me_inline_style m \<and> me_important m \<and> me_important x \<and> me_prop x = me_prop m
          \<and> me_origin x = OriginAuthor \<longrightarrow> me_layer_order x = ns_css_layer_none) ms) ms"

definition entries_ok :: "match_entry list \<Rightarrow> bool" where
  "entries_ok ms \<longleftrightarrow> entries_collected ms \<and> importance_plain ms"

section \<open>The comparison\<close>

lemma origin_index_inject [simp]: "origin_index a = origin_index b \<longleftrightarrow> a = b"
  by (cases a; cases b) simp_all

text \<open>The order in which the code sorts: the \<open>style\<close> attribute counts as outside layers.\<close>

definition rank :: "match_entry \<Rightarrow> bool \<times> int \<times> int \<times> int \<times> int \<times> int \<times> int \<times> int \<times> int \<times> int" where
  "rank m =
     (me_important m,
      if me_important m then - origin_index (me_origin m) else origin_index (me_origin m),
      if me_important m then - me_layer_order m else me_layer_order m,
      me_spec_a m, me_spec_b m, me_spec_c m, me_scope_order m, me_sheet_index m, me_source_order m, me_decl_order m)"

lemma match_cmp_rank:
  assumes "rank a \<noteq> rank b"
  shows "match_cmp a b \<le> 0 \<longleftrightarrow> rank a \<le> rank b"
proof (cases "me_important a = me_important b")
  case False
  then show ?thesis by (auto simp: match_cmp_def rank_def less_eq_prod_def)
next
  case True
  show ?thesis
  proof (cases "me_important a")
    case imp: True
    then have "me_important b" using True by simp
    with imp assms show ?thesis
      by (simp add: match_cmp_def rank_def css_layer_cmp_def less_eq_prod_def less_prod_def)
  next
    case imp: False
    then have "\<not> me_important b" using True by simp
    with imp assms show ?thesis
      by (simp add: match_cmp_def rank_def css_layer_cmp_def less_eq_prod_def less_prod_def)
  qed
qed

lemma sort_by_rank:
  assumes "distinct (map rank ms)"
  shows "sort_by match_cmp ms = sort_key rank ms"
proof (rule sort_by_key)
  show "distinct ms" using assms by (simp add: distinct_map)
  fix x y
  assume "x \<in> set ms" "y \<in> set ms" "x \<noteq> y"
  then have "rank x \<noteq> rank y" using assms by (auto simp: distinct_map dest: inj_onD)
  then show "match_cmp x y \<le> 0 \<longleftrightarrow> rank x \<le> rank y" by (rule match_cmp_rank)
qed

section \<open>Rolling back\<close>

lemma entries_okD:
  assumes "entries_ok ms" "m \<in> set ms"
  shows "me_inline_style m \<Longrightarrow> me_origin m = OriginAuthor \<and> me_layer_order m = ns_css_layer_none \<and> me_spec_a m = 1000"
    "\<not> me_inline_style m \<Longrightarrow> me_layer_order m \<le> ns_css_layer_none \<and> me_spec_a m < 1000"
    "value_reverts (me_value m) \<Longrightarrow> me_important m \<Longrightarrow> me_value m = VKeyword ''revert'' \<and> me_origin m = OriginAuthor"
    "x \<in> set ms \<Longrightarrow> me_rule x = me_rule m \<longleftrightarrow> rule_place x = rule_place m"
    "x \<in> set ms \<Longrightarrow> me_inline_style m \<Longrightarrow> me_important m \<Longrightarrow> me_important x \<Longrightarrow> me_prop x = me_prop m
       \<Longrightarrow> me_origin x = OriginAuthor \<Longrightarrow> me_layer_order x = ns_css_layer_none"
  using assms unfolding entries_ok_def entries_collected_def importance_plain_def
  by (auto simp: list_all_iff)

lemma rank_eq_precedence:
  assumes "entries_ok ms" "x \<in> set ms" "y \<in> set ms"
  shows "rank x = rank y \<longleftrightarrow> precedence x = precedence y"
  using entries_okD(1,2) [OF assms(1,2)] entries_okD(1,2) [OF assms(1,3)]
  by (cases "me_inline_style x"; cases "me_inline_style y") (auto simp: rank_def precedence_def split: if_splits)

lemma distinct_rank:
  assumes "entries_ok ms"
  shows "distinct (map rank ms)"
  using assms rank_eq_precedence [OF assms] by (auto simp: entries_ok_def entries_collected_def distinct_map inj_on_def)

text \<open>For one property the code's order is that of the criteria.\<close>

lemma rank_precedence_one_way:
  assumes ok: "entries_ok ms" "x \<in> set ms" "y \<in> set ms" and "me_prop x = me_prop y"
    and i: "me_inline_style x" "\<not> me_inline_style y"
  shows "rank x \<le> rank y \<longleftrightarrow> precedence x \<le> precedence y"
proof -
  note x = entries_okD(1) [OF ok(1,2) i(1)] and y = entries_okD(2) [OF ok(1,3) i(2)]
  have "me_important x \<Longrightarrow> me_important y \<Longrightarrow> me_origin y = OriginAuthor \<Longrightarrow> me_layer_order y = ns_css_layer_none"
    using entries_okD(5) [OF ok(1,2,3) i(1)] assms(4) by simp
  then show ?thesis using x y i
    by (cases "me_important x"; cases "me_important y"; cases "me_origin y")
      (auto simp: rank_def precedence_def less_eq_prod_simp less_prod_simp)
qed

lemma rank_precedence:
  assumes ok: "entries_ok ms" "x \<in> set ms" "y \<in> set ms" and p: "me_prop x = me_prop y"
  shows "rank x \<le> rank y \<longleftrightarrow> precedence x \<le> precedence y"
proof (cases "me_inline_style x = me_inline_style y")
  case True
  then show ?thesis by (auto simp: rank_def precedence_def less_eq_prod_simp less_prod_simp)
next
  case False
  then consider "me_inline_style x" "\<not> me_inline_style y" | "me_inline_style y" "\<not> me_inline_style x" by blast
  then show ?thesis
  proof cases
    case 1
    then show ?thesis by (rule rank_precedence_one_way [OF ok p])
  next
    case 2
    have "rank y \<le> rank x \<longleftrightarrow> precedence y \<le> precedence x"
      by (rule rank_precedence_one_way [OF ok(1,3,2) p [symmetric] 2])
    then show ?thesis using rank_eq_precedence [OF ok] by (metis antisym linear)
  qed
qed

lemma wins_by_rank:
  assumes "entries_ok ms" "s \<subseteq> set ms" "m \<in> s" "me_prop m = p"
    and "\<And>x. x \<in> s \<Longrightarrow> me_prop x = p \<Longrightarrow> rank x \<le> rank m"
  shows "wins s p m"
  unfolding wins_def
proof (intro conjI ballI impI assms(3,4))
  fix x
  assume x: "x \<in> s" "me_prop x = p"
  then show "precedence x \<le> precedence m"
    using rank_precedence [OF assms(1), of x m] assms(2,3,4,5) by auto
qed

text \<open>Below a normal declaration all are normal.\<close>

lemma normal_below: "rank x < rank m \<Longrightarrow> \<not> me_important m \<Longrightarrow> \<not> me_important x"
  by (auto simp: rank_def less_prod_def)

lemma normal_rank:
  "\<not> me_important m \<Longrightarrow> rank m = (False, origin_index (me_origin m), me_layer_order m, me_spec_a m,
     me_spec_b m, me_spec_c m, me_scope_order m, me_sheet_index m, me_source_order m, me_decl_order m)"
  by (simp add: rank_def)

lemma origin_between:
  assumes "\<not> me_important x" "\<not> me_important m" "rank x < rank m"
  shows "origin_index (me_origin x) \<le> origin_index (me_origin m)"
    "me_origin x = me_origin m \<Longrightarrow> me_layer_order x \<le> me_layer_order m"
    "me_origin x = me_origin m \<Longrightarrow> me_layer_order x = me_layer_order m \<Longrightarrow> me_spec_a x \<le> me_spec_a m"
  using assms(3) unfolding assms(1,2) [THEN normal_rank] by (auto simp: less_prod_def)

definition place_key :: "match_entry \<Rightarrow> int \<times> int \<times> int \<times> int \<times> int \<times> int \<times> int \<times> int" where
  "place_key m = (origin_index (me_origin m), me_layer_order m, me_spec_a m, me_spec_b m, me_spec_c m,
     me_scope_order m, me_sheet_index m, me_source_order m)"

lemma place_key_mono:
  assumes "\<not> me_important x" "\<not> me_important m" "rank x < rank m"
  shows "place_key x \<le> place_key m"
  using assms(3) unfolding assms(1,2) [THEN normal_rank] place_key_def
  by (simp add: less_prod_simp less_eq_prod_simp) linarith

lemma place_key_eq: "place_key x = place_key m \<longleftrightarrow> rule_place x = rule_place m"
  by (simp add: place_key_def rule_place_def)

text \<open>A declaration between two of the same place has that place.\<close>

lemma same_place_between:
  assumes "\<not> me_important x" "\<not> me_important y" "\<not> me_important m"
    and "rank x < rank y" "rank y < rank m"
  shows "me_origin x = me_origin m \<Longrightarrow> me_layer_order x = me_layer_order m
       \<Longrightarrow> me_origin y = me_origin m \<and> me_layer_order y = me_layer_order m
         \<and> me_spec_a x \<le> me_spec_a y \<and> me_spec_a y \<le> me_spec_a m"
    and "rule_place x = rule_place m \<Longrightarrow> rule_place y = rule_place m"
proof -
  note l = origin_between [OF assms(1,2,4)] and u = origin_between [OF assms(2,3,5)]
  show "me_origin y = me_origin m \<and> me_layer_order y = me_layer_order m
         \<and> me_spec_a x \<le> me_spec_a y \<and> me_spec_a y \<le> me_spec_a m"
    if "me_origin x = me_origin m" "me_layer_order x = me_layer_order m"
  proof -
    have o: "me_origin y = me_origin m" using l(1) u(1) that(1) origin_index_inject by (metis antisym)
    then have "me_layer_order y = me_layer_order m" using l(2) u(2) that by simp
    then show ?thesis using o l(3) u(3) that by simp
  qed
  show "rule_place y = rule_place m" if "rule_place x = rule_place m"
    using place_key_mono [OF assms(1,2,4)] place_key_mono [OF assms(2,3,5)] that
    unfolding place_key_eq [symmetric] by (metis antisym)
qed

lemma skips_taken_out:
  assumes ok: "entries_ok ms" "x \<in> set ms" "m \<in> set ms"
    and low: "rank x < rank m" and rev: "value_reverts (me_value m)"
  shows "rollback_skips m x \<longleftrightarrow> taken_out m x"
proof -
  have layer: "me_origin x = me_origin m \<Longrightarrow> \<not> me_important m \<Longrightarrow>
      (if me_inline_style m then me_inline_style x
       else if me_layer_order m = ns_css_layer_none then me_layer_order x = ns_css_layer_none
       else me_layer_order m \<le> me_layer_order x)
      \<longleftrightarrow> me_layer_order x = me_layer_order m \<and> me_inline_style x = me_inline_style m"
    using origin_between(2,3) [OF normal_below [OF low] _ low] entries_okD(1,2) [OF ok(1,2)] entries_okD(1,2) [OF ok(1,3)]
    by (cases "me_inline_style x"; cases "me_inline_style m") auto
  have origin: "css_same_revert_origin (me_origin m) (me_origin x) \<longleftrightarrow> me_origin m = OriginUa \<or> me_origin x \<noteq> OriginUa"
    if "me_important m \<Longrightarrow> me_origin m = OriginAuthor"
    using that origin_between(1) [OF normal_below [OF low] _ low]
    by (cases "me_origin m"; cases "me_origin x"; cases "me_important m") (auto simp: css_same_revert_origin_def)
  show ?thesis
  proof (cases "me_important m")
    case True
    then show ?thesis
      using origin entries_okD(3) [OF ok(1,3) rev] by (simp add: rollback_skips_def taken_out_def value_is_def)
  next
    case False
    then show ?thesis
      using layer origin by (auto simp: rollback_skips_def taken_out_def value_is_def split: if_splits)
  qed
qed

lemma taken_out_between:
  assumes ok: "entries_ok ms" "x \<in> set ms" "y \<in> set ms" "m \<in> set ms"
    and low: "rank x < rank y" "rank y < rank m" and rev: "value_reverts (me_value m)"
    and out: "taken_out m x"
  shows "taken_out m y"
proof (cases "me_important m")
  case True
  then have m: "me_value m = VKeyword ''revert''" "me_origin m = OriginAuthor"
    using entries_okD(3) [OF ok(1,4) rev] by simp_all
  then have "me_origin x \<noteq> OriginUa" using out by (simp add: taken_out_def)
  then have "me_origin y \<noteq> OriginUa" using low m(2) True
    by (cases "me_origin x"; cases "me_important x"; cases "me_important y")
      (auto simp: rank_def less_prod_simp)
  then show ?thesis using m by (simp add: taken_out_def)
next
  case n: False
  then have ny: "\<not> me_important y" using normal_below [OF low(2)] by blast
  then have nx: "\<not> me_important x" using normal_below [OF low(1)] by blast
  note b = same_place_between [OF nx ny n low]
  consider "me_value m = VKeyword ''revert-rule''" | "me_value m = VKeyword ''revert-layer''"
    | "me_value m = VKeyword ''revert''"
    using rev by (auto simp: value_reverts_def value_is_def)
  then show ?thesis
  proof cases
    case 1
    then show ?thesis
      using out b(2) entries_okD(4) [OF ok(1,4)] ok(2,3) by (simp add: taken_out_def)
  next
    case 2
    then have x: "me_origin x = me_origin m" "me_layer_order x = me_layer_order m" "me_inline_style x = me_inline_style m"
      using out by (simp_all add: taken_out_def)
    have "me_inline_style y = me_inline_style m"
      using b(1) [OF x(1,2)] x(3) entries_okD(1,2) [OF ok(1,2)] entries_okD(1,2) [OF ok(1,3)] entries_okD(1,2) [OF ok(1,4)]
      by (cases "me_inline_style y"; cases "me_inline_style m") auto
    then show ?thesis using 2 b(1) [OF x(1,2)] by (simp add: taken_out_def)
  next
    case 3
    then show ?thesis using out origin_between(1) [OF nx ny low(1)]
      by (cases "me_origin x"; cases "me_origin y") (simp_all add: taken_out_def)
  qed
qed

lemma taken_out_self: "taken_out m m"
  by (simp add: taken_out_def)

lemma rollback_cascades:
  assumes "entries_ok ms" "set earlier \<subseteq> set ms" "sorted_wrt (\<lambda>a b. rank b < rank a) earlier"
    and "m \<in> set ms" "value_reverts (me_value m)" "\<forall>x\<in>set earlier. rank x < rank m"
    and "t \<subseteq> set ms" "{x \<in> t. me_prop x = me_prop m} = {x \<in> set earlier. me_prop x = me_prop m \<and> \<not> taken_out m x}"
  shows "cascades_to t (me_prop m) (cascade_rollback_value earlier m)"
  using assms
proof (induction earlier arbitrary: m t)
  case Nil
  then show ?case using none_declared [of t "me_prop m"] by auto
next
  case (Cons q earlier)
  have q: "q \<in> set ms" "rank q < rank m" "\<forall>x\<in>set earlier. rank x < rank q"
    "set earlier \<subseteq> set ms" "sorted_wrt (\<lambda>a b. rank b < rank a) earlier"
    "\<forall>x\<in>set earlier. rank x < rank m"
    using Cons.prems by simp_all
  have skip: "rollback_skips m q = taken_out m q"
    by (rule skips_taken_out [OF Cons.prems(1) q(1) Cons.prems(4) q(2) Cons.prems(5)])
  show ?case
  proof (cases "me_prop q \<noteq> me_prop m \<or> taken_out m q")
    case True
    then have "{x \<in> t. me_prop x = me_prop m} = {x \<in> set earlier. me_prop x = me_prop m \<and> \<not> taken_out m x}"
      using Cons.prems(8) by auto
    from Cons.IH [OF Cons.prems(1) q(4,5) Cons.prems(4,5) q(6) Cons.prems(7) this] show ?thesis using True skip by auto
  next
    case False
    then have qt: "q \<in> t" "me_prop q = me_prop m" using Cons.prems(8) by auto
    have lower: "x \<in> t \<Longrightarrow> me_prop x = me_prop m \<Longrightarrow> x = q \<or> x \<in> set earlier \<and> \<not> taken_out m x" for x
      using Cons.prems(8) by auto
    then have w: "wins t (me_prop m) q"
      using q(3) by (intro wins_by_rank [OF Cons.prems(1,7)] qt) (metis less_imp_le order_refl)
    show ?thesis
    proof (cases "value_reverts (me_value q)")
      case True
      have "{x \<in> {x \<in> t. \<not> taken_out q x}. me_prop x = me_prop q}
          = {x \<in> set earlier. me_prop x = me_prop q \<and> \<not> taken_out q x}" (is "?l = ?r")
      proof
        show "?l \<subseteq> ?r" using lower taken_out_self qt(2) by auto
        show "?r \<subseteq> ?l"
        proof
          fix x
          assume x: "x \<in> ?r"
          then have xm: "x \<in> set ms" "rank x < rank q" using q(3,4) by auto
          have "\<not> taken_out m x"
            using taken_out_between [OF Cons.prems(1) xm(1) q(1) Cons.prems(4) xm(2) q(2) Cons.prems(5)] False by blast
          then have "x \<in> {x \<in> t. me_prop x = me_prop m}" using x qt(2) unfolding Cons.prems(8) by simp
          then show "x \<in> ?l" using x by simp
        qed
      qed
      moreover have "{x \<in> t. \<not> taken_out q x} \<subseteq> set ms" using Cons.prems(7) by blast
      ultimately have
        "cascades_to {x \<in> t. \<not> taken_out q x} (me_prop q) (cascade_rollback_value earlier q)"
        by (intro Cons.IH [OF Cons.prems(1) q(4,5,1) True q(3)])
      then show ?thesis using rolled_back [OF w True] False skip True qt(2) by simp
    next
      case False
      then show ?thesis using declared [OF w False] \<open>\<not> (me_prop q \<noteq> me_prop m \<or> taken_out m q)\<close> skip by simp
    qed
  qed
qed

lemma apply_other: "\<forall>x\<in>set ms. me_prop x \<noteq> p \<Longrightarrow> cascade_apply earlier ms out p = out p"
  by (induction ms arbitrary: earlier out) auto

lemma apply_last:
  assumes "\<forall>x\<in>set ws. me_prop x \<noteq> me_prop m"
  shows "cascade_apply earlier (us @ m # ws) out (me_prop m)
    = (if value_reverts (me_value m) then cascade_rollback_value (rev us @ earlier) m else Some (me_value m))"
  by (induction us arbitrary: earlier out) (simp_all add: apply_other [OF assms])

lemma cascades_to_unique:
  assumes "cascades_to s p v" "cascades_to s p w" "inj_on precedence s"
  shows "v = w"
  using assms
proof (induction arbitrary: w)
  case (none_declared s p)
  from none_declared(2) show ?case by cases (use none_declared(1) in \<open>auto simp: wins_def\<close>)
next
  case (declared s p m)
  have same: "wins s p m' \<Longrightarrow> m' = m" for m'
    using declared(1,4) unfolding wins_def by (metis antisym inj_onD)
  from declared(3) show ?case
  proof cases
    case none_declared
    then show ?thesis using declared(1) by (auto simp: wins_def)
  next
    case (declared m')
    then show ?thesis using same by simp
  next
    case (rolled_back m')
    then show ?thesis using same declared(2) by simp
  qed
next
  case (rolled_back s p m v)
  have same: "wins s p m' \<Longrightarrow> m' = m" for m'
    using rolled_back(1,6) unfolding wins_def by (metis antisym inj_onD)
  have inj: "inj_on precedence {x \<in> s. \<not> taken_out m x}" using rolled_back(6) by (rule inj_on_subset) blast
  from rolled_back(5) show ?case
  proof cases
    case none_declared
    then show ?thesis using rolled_back(1) by (auto simp: wins_def)
  next
    case (declared m')
    then show ?thesis using same rolled_back(2) by simp
  next
    case rolled: (rolled_back m')
    then show ?thesis using same rolled_back(4) [OF _ inj] by simp
  qed
qed

lemma cascade_apply_cascades:
  assumes ok: "entries_ok ms"
  shows "cascades_to (set ms) p (cascade_apply [] (sort_by match_cmp ms) (\<lambda>_. None) p)"
proof -
  define l where "l = sort_key rank ms"
  have d: "distinct (map rank ms)" using ok by (rule distinct_rank)
  have s: "sort_by match_cmp ms = l" unfolding l_def by (rule sort_by_rank [OF d])
  have set_l: "set l = set ms" by (simp add: l_def)
  have "sorted (map rank l)" "distinct (map rank l)"
    using d by (simp_all add: l_def distinct_map)
  then have "sorted_wrt (<) (map rank l)" by (simp add: strict_sorted_iff)
  then have sorted: "sorted_wrt (\<lambda>a b. rank a < rank b) l" by (simp add: sorted_wrt_map)
  show ?thesis
  proof (cases "\<exists>x\<in>set l. me_prop x = p")
    case False
    then have "\<forall>x\<in>set l. me_prop x \<noteq> p" by blast
    then show ?thesis unfolding s using set_l none_declared [of "set ms" p] by (simp add: apply_other)
  next
    case True
    then obtain us m ws where l: "l = us @ m # ws" "me_prop m = p" "\<forall>x\<in>set ws. me_prop x \<noteq> p"
      using split_list_last_prop [of l "\<lambda>x. me_prop x = p"] by auto
    have m: "m \<in> set ms" "set us \<subseteq> set ms" using l(1) set_l by auto
    have us: "\<forall>x\<in>set us. rank x < rank m" "sorted_wrt (\<lambda>a b. rank a < rank b) us"
      using sorted l(1) by (auto simp: sorted_wrt_append)
    have w: "wins (set ms) p m"
      by (rule wins_by_rank [OF ok subset_refl m(1) l(2)]) (use l us(1) set_l [symmetric] in \<open>auto simp: less_imp_le\<close>)
    have v: "cascade_apply [] l (\<lambda>_. None) p
        = (if value_reverts (me_value m) then cascade_rollback_value (rev us) m else Some (me_value m))"
      using apply_last [of ws m "[]" us] l by auto
    show ?thesis
    proof (cases "value_reverts (me_value m)")
      case True
      have "{x \<in> {x \<in> set ms. \<not> taken_out m x}. me_prop x = me_prop m}
          = {x \<in> set (rev us). me_prop x = me_prop m \<and> \<not> taken_out m x}"
        using l set_l [symmetric] taken_out_self by auto
      then have "cascades_to {x \<in> set ms. \<not> taken_out m x} (me_prop m) (cascade_rollback_value (rev us) m)"
        by (intro rollback_cascades [OF ok]) (use m us True in \<open>auto simp: sorted_wrt_rev\<close>)
      then show ?thesis unfolding s v using rolled_back [OF w True] True l(2) by simp
    next
      case False
      then show ?thesis unfolding s v using declared [OF w False] by simp
    qed
  qed
qed

section \<open>Inheriting\<close>

definition defaulted :: "style_values option \<Rightarrow> nat \<Rightarrow> ns_css_value option \<Rightarrow> ns_css_value option" where
  "defaulted parent p v =
     (let inherited = (case parent of None \<Rightarrow> None | Some s \<Rightarrow> s p)
      in if ns_css_prop_count \<le> p then v
         else if v = Some (VKeyword ''initial'') then None
         else if v = Some (VKeyword ''inherit'') then inherited
         else if v = None \<or> v = Some (VKeyword ''unset'') then (if prop_inherits p then inherited else None)
         else v)"


section \<open>All sheets together\<close>

definition scan_sheets ::
    "css_env \<Rightarrow> nat \<Rightarrow> dom \<Rightarrow> nat option \<Rightarrow> (string \<Rightarrow> bool) \<Rightarrow> (string \<Rightarrow> nat option)
       \<Rightarrow> (ns_css_origin \<times> int \<times> sheet) list \<Rightarrow> nat \<Rightarrow> ns_css_pseudo_element \<Rightarrow> match_entry list" where
  "scan_sheets env n h g holds ranks sheets el pe =
     concat (map (\<lambda>(o1, i, rules). scan_sheet env n h g holds ranks rules o1 i el pe) sheets)"






text \<open>All declarations for an element or one of its pseudo-elements.\<close>

definition declarations ::
    "css_env \<Rightarrow> nat \<Rightarrow> dom \<Rightarrow> nat option \<Rightarrow> (string \<Rightarrow> bool) \<Rightarrow> (string \<Rightarrow> nat option)
       \<Rightarrow> (ns_css_origin \<times> int \<times> sheet) list \<Rightarrow> sheet option \<Rightarrow> sheet option \<Rightarrow> nat \<Rightarrow> ns_css_pseudo_element
       \<Rightarrow> match_entry list" where
  "declarations env n h g holds ranks sheets hints inline el pe =
     scan_sheets env n h g holds ranks sheets el pe @ (if pe = PeNone then element_attached hints inline else [])"


section \<open>Properties\<close>

text \<open>(C4) The loop that sorts the matched declarations and applies them one after the other,
  walking back where one says \<open>revert\<close>, \<open>revert-layer\<close> or \<open>revert-rule\<close>, gives every
  property the value the cascade specifies, and only that one: the value of the declaration
  highest in the order of criteria, where one that rolls back is replaced by the outcome
  without its origin, layer or rule. In which order the declarations were gathered does not
  matter. Two uses of \<open>!important\<close> are excluded, as the code departs from the cascade on
  them: an important \<open>revert-layer\<close> or \<open>revert-rule\<close> (or \<open>revert\<close> outside the author's
  origin), and important declarations of one property both in a \<open>style\<close> attribute and in
  a layer of the author's. Of the declarations it asks what their collection gives: no two
  alike in precedence, those of a rule in one place, the \<open>style\<close> attribute outside layers
  with specificity 1000 and all others below it. Values with \<open>var()\<close> are not modelled.\<close>

theorem cascade_by_precedence:
  assumes "entries_ok ms"
  shows "cascades_to (set ms) p v \<longleftrightarrow> v = cascade_apply [] (sort_by match_cmp ms) (\<lambda>_. None) p"
proof -
  have "inj_on precedence (set ms)" using assms by (simp add: entries_ok_def entries_collected_def distinct_map)
  then show ?thesis using cascade_apply_cascades [OF assms, of p] cascades_to_unique by blast
qed


text \<open>A sheet of the browser that makes list items black, two author rules, and a \<open>style\<close>
  attribute that reverts to the former.\<close>

definition color_rule :: "nat \<Rightarrow> int \<Rightarrow> ns_css_selector list \<Rightarrow> string \<Rightarrow> ns_css_rule" where
  "color_rule addr source sels word =
     \<lparr>ru_addr = addr, ru_selectors = sels,
      ru_decls = [\<lparr>de_prop = 1, de_value = VKeyword word, de_important = False\<rparr>],
      ru_layer = None, ru_source = source, ru_scopes = [], ru_container = None\<rparr>"

definition sample_sheets :: "(ns_css_origin \<times> int \<times> sheet) list" where
  "sample_sheets = style_sheets
     (Some [color_rule 10 1 [CssSelector [type_sel ''li''] [CombNone] PeNone 0 0 1] ''black'',
            color_rule 11 2 [CssSelector [type_sel ''li''] [CombNone] PeMarker 0 0 2] ''gray''])
     [None, Some [color_rule 20 1 [CssSelector [class_sel ''on''] [CombNone] PeNone 0 1 0] ''red'',
                  color_rule 21 2 [CssSelector [class_sel ''off''] [CombNone] PeNone 0 1 0] ''blue'']]"

definition sample_inline :: "sheet option" where
  "sample_inline = Some [color_rule 30 0 [] ''revert'']"

abbreviation sample_declarations :: "ns_css_pseudo_element \<Rightarrow> match_entry list" where
  "sample_declarations \<equiv> declarations calm_env 4 list_doc None (\<lambda>_. True) (\<lambda>_. None) sample_sheets None sample_inline 3"

lemma sample_entries: "entries_ok (sample_declarations PeNone)"
  by code_simp

lemma sample_black:
  "cascade_apply [] (sort_by match_cmp (sample_declarations PeNone)) (\<lambda>_. None) 1 = Some (VKeyword ''black'')"
  by code_simp

theorem cascade_by_precedence_witness:
  "cascades_to (set (sample_declarations PeNone)) 1 (Some (VKeyword ''black''))"
  unfolding cascade_by_precedence [OF sample_entries] sample_black by (rule refl)


section \<open>Where the code departs from the cascade\<close>

definition sample_entry :: "bool \<Rightarrow> int \<Rightarrow> bool \<Rightarrow> string \<Rightarrow> match_entry" where
  "sample_entry is_inline layer important word =
     \<lparr>me_origin = OriginAuthor, me_spec_a = (if is_inline then 1000 else 0), me_spec_b = 0, me_spec_c = 1,
      me_sheet_index = 1, me_layer_order = layer, me_scope_order = 0, me_source_order = layer, me_decl_order = 0,
      me_important = important, me_inline_style = is_inline, me_rule = nat layer, me_value = VKeyword word, me_prop = 1\<rparr>"

text \<open>Element-attached styles come before layers in the cascade, so an important declaration
  of the \<open>style\<close> attribute wins over every important one of the author's sheets; but the
  code ranks it as unlayered and lets an important declaration in any layer win.\<close>

lemma important_layer_beats_style_attribute:
  "match_cmp (sample_entry True ns_css_layer_none True ''red'') (sample_entry False 0 True ''blue'') < 0"
  "precedence (sample_entry False 0 True ''blue'') < precedence (sample_entry True ns_css_layer_none True ''red'')"
  by (simp_all add: match_cmp_def css_layer_cmp_def precedence_def sample_entry_def ns_css_layer_none_def
    int_max_def less_prod_simp)

text \<open>An important \<open>revert\<close> of an author is within \<open>entries_ok\<close>.\<close>

lemma important_revert_allowed:
  "entries_ok [sample_entry False 0 True ''revert'', sample_entry False 1 False ''blue'']"
  by code_simp

text \<open>An important \<open>revert-layer\<close> in the first of two layers should leave the important
  declaration of the second; the code passes over every later layer.\<close>

lemma important_revert_layer_loses_later_layer:
  "cascade_apply [] (sort_by match_cmp [sample_entry False 0 True ''revert-layer'', sample_entry False 1 True ''blue''])
     (\<lambda>_. None) 1 = None"
  "cascades_to {sample_entry False 0 True ''revert-layer'', sample_entry False 1 True ''blue''} 1
     (Some (VKeyword ''blue''))"
proof -
  show "cascade_apply [] (sort_by match_cmp [sample_entry False 0 True ''revert-layer'', sample_entry False 1 True ''blue''])
     (\<lambda>_. None) 1 = None" by code_simp
  let ?r = "sample_entry False 0 True ''revert-layer''" and ?b = "sample_entry False 1 True ''blue''"
  have p: "precedence ?b \<le> precedence ?r" "\<not> taken_out ?r ?b" "value_reverts (me_value ?r)" "\<not> value_reverts (me_value ?b)"
    by code_simp+
  have "wins {?r, ?b} 1 ?r" using p(1) by (simp add: wins_def sample_entry_def)
  moreover have "wins {?b} 1 ?b" by (simp add: wins_def sample_entry_def)
  moreover have "{x \<in> {?r, ?b}. \<not> taken_out ?r x} = {?b}" using p(2) taken_out_self by auto
  moreover have "me_value ?b = VKeyword ''blue''" by (simp add: sample_entry_def)
  ultimately show "cascades_to {?r, ?b} 1 (Some (VKeyword ''blue''))"
    using rolled_back [of "{?r, ?b}" 1 ?r] declared [of "{?b}" 1 ?b] p(3,4) by simp
qed

text \<open>\<open>text-shadow\<close> (114) is an inherited property of CSS.\<close>

lemma text_shadow_not_inherited: "defaulted (Some s) 114 None = None"
  by (simp add: defaulted_def prop_inherits_def ns_css_prop_count_def)

end
