(* ===== verification/Date_Time.thy ===== *)
theory Date_Time
  imports CString "HOL-Library.Signed_Division"
begin

text \<open>
  Calendar dates (\<open>src/src/datetime.c\<close>), the ISO week and weekday functions of
  \<open>src/src/js_date.c\<close>, and the values of date and time inputs (\<open>ns_input_value_to_ms\<close> and
  \<open>ns_input_ms_to_value\<close> of \<open>src/src/js.c\<close>, \<open>ns_input_value_to_number\<close> of
  \<open>src/src/dom.c\<close>). Numbers of days are \<open>long\<close> and years \<open>int\<close>: \<open>c_int\<close>, \<open>c_long\<close> and
  \<open>c_unsigned\<close> are the conversions of the code, and arithmetic that leaves its type, which C
  leaves undefined where it is signed, is written as wrapping. Of inputs, years stay below
  275760 and days below 100 million; but the durations of Temporal reach every number of days
  (\<open>tmp_add_date\<close>). Whole milliseconds are exact in a \<open>double\<close>; the values of number and
  range inputs, which are other doubles, are left out.
\<close>

section \<open>Civil dates\<close>

definition c_int :: "int \<Rightarrow> int" where
  "c_int x = (x + 2147483648) mod 4294967296 - 2147483648"

definition c_long :: "int \<Rightarrow> int" where
  "c_long x = (x + 9223372036854775808) mod 18446744073709551616 - 9223372036854775808"

definition c_unsigned :: "int \<Rightarrow> int" where
  "c_unsigned x = x mod 4294967296"

definition ns_dt_floormod :: "int \<Rightarrow> int \<Rightarrow> int" where
  "ns_dt_floormod a b = (let r = a smod b in if r \<noteq> 0 \<and> (r < 0) \<noteq> (b < 0) then r + b else r)"

definition ns_floordiv :: "int \<Rightarrow> int \<Rightarrow> int" where
  "ns_floordiv a b = (let q = a sdiv b; r = a smod b in if r \<noteq> 0 \<and> (r < 0) \<noteq> (b < 0) then q - 1 else q)"

definition ns_dt_days_from_civil :: "int \<Rightarrow> int \<Rightarrow> int \<Rightarrow> int" where
  "ns_dt_days_from_civil y m d =
     (let yy = c_int (y - (if m \<le> 2 then 1 else 0));
          era = (if 0 \<le> yy then yy else c_int (yy - 399)) sdiv 400;
          yoe = c_unsigned (yy - era * 400);
          doy = c_unsigned ((153 * (m + (if 2 < m then - 3 else 9)) + 2) sdiv 5 + d - 1);
          doe = c_unsigned (yoe * 365 + yoe div 4 - yoe div 100 + doy)
      in era * 146097 + doe - 719468)"

definition ns_dt_civil_from_days :: "int \<Rightarrow> int \<times> int \<times> int" where
  "ns_dt_civil_from_days z0 =
     (let z = c_long (z0 + 719468);
          era = (if 0 \<le> z then z else c_long (z - 146096)) sdiv 146097;
          doe = c_unsigned (z - era * 146097);
          yoe = (doe - doe div 1460 + doe div 36524 - doe div 146096) div 365;
          yy = c_int (c_int yoe + c_int (era * 400));
          doy = doe - (365 * yoe + yoe div 4 - yoe div 100);
          mp = (5 * doy + 2) div 153;
          dd = doy - (153 * mp + 2) div 5 + 1;
          mm = mp + (if mp < 10 then 3 else - 9)
      in (c_int (yy + (if mm \<le> 2 then 1 else 0)), c_int mm, c_int dd))"

definition ns_dt_days_in_month :: "int \<Rightarrow> int \<Rightarrow> int" where
  "ns_dt_days_in_month y m =
     (if m < 1 \<or> 12 < m then 0
      else if m = 2 then (if y smod 4 = 0 \<and> (y smod 100 \<noteq> 0 \<or> y smod 400 = 0) then 29 else 28)
      else [31, 28, 31, 30, 31, 30, 31, 31, 30, 31, 30, 31] ! nat (m - 1))"

definition ns_dt_iso_weeks_in_year :: "int \<Rightarrow> int" where
  "ns_dt_iso_weeks_in_year y =
     (let p = c_int (y + y sdiv 4 - y sdiv 100 + y sdiv 400) smod 7;
          py = c_int (y - 1);
          p1 = c_int (py + py sdiv 4 - py sdiv 100 + py sdiv 400) smod 7
      in if p = 4 \<or> p1 = 3 then 53 else 52)"

definition ns_dt_iso_week1_monday :: "int \<Rightarrow> int" where
  "ns_dt_iso_week1_monday y =
     (let jan4 = ns_dt_days_from_civil y 1 4 in jan4 - ns_dt_floormod (jan4 + 3) 7)"

definition tmp_iso_dow :: "int \<Rightarrow> int \<Rightarrow> int \<Rightarrow> int" where
  "tmp_iso_dow y m d =
     (let dow = ns_dt_floormod (ns_dt_days_from_civil y m d + 4) 7 in if dow = 0 then 7 else dow)"

definition tmp_day_of_year :: "int \<Rightarrow> int \<Rightarrow> int \<Rightarrow> int" where
  "tmp_day_of_year y m d = c_int (ns_dt_days_from_civil y m d - ns_dt_days_from_civil y 1 1) + 1"

definition tmp_days_in_year :: "int \<Rightarrow> int" where
  "tmp_days_in_year y = (if y smod 4 = 0 \<and> (y smod 100 \<noteq> 0 \<or> y smod 400 = 0) then 366 else 365)"

definition tmp_week_of_year :: "int \<Rightarrow> int \<Rightarrow> int \<Rightarrow> int" where
  "tmp_week_of_year y m d =
     (let ord = ns_dt_days_from_civil y m d;
          y1 = (if ord < ns_dt_iso_week1_monday y then y - 1 else y);
          w1 = ns_dt_iso_week1_monday y1
      in if ns_dt_iso_week1_monday (y1 + 1) \<le> ord then 1 else c_int ((ord - w1) sdiv 7) + 1)"

text \<open>Adding a duration of years, months, weeks and days to a date.\<close>

definition tmp_add_date :: "int \<times> int \<times> int \<Rightarrow> int \<Rightarrow> int \<Rightarrow> int \<Rightarrow> int \<Rightarrow> int \<Rightarrow> int \<times> int \<times> int" where
  "tmp_add_date t y mo w d sign =
     (case t of (ty, tm, td) \<Rightarrow>
      let total_mo = c_long (tm - 1 + c_long (sign * mo));
          ny = c_int (c_int (ty + c_int (sign * y))
                 + c_int ((if 0 \<le> total_mo then total_mo else c_long (total_mo - 11)) sdiv 12));
          nmo = c_int (ns_dt_floormod total_mo 12) + 1;
          dim = ns_dt_days_in_month ny nmo;
          nd = (if dim < td then dim else td);
          days = c_long (ns_dt_days_from_civil ny nmo nd + c_long (sign * c_long (w * 7 + d)))
      in ns_dt_civil_from_days days)"

section \<open>Reading and printing\<close>

definition ns_dt_max_year :: int where "ns_dt_max_year = 275760"

definition ns_dt_rd_digits :: "string \<Rightarrow> nat \<Rightarrow> nat \<Rightarrow> (int \<times> string) option" where
  "ns_dt_rd_digits p mn mx =
     (let ds = take mx (takeWhile ascii_isdigit p)
      in if length ds < mn then None else Some (int (digits_value 0 ds), drop (length ds) p))"

definition expect :: "char \<Rightarrow> string \<Rightarrow> string option" where
  "expect c p = (case p of [] \<Rightarrow> None | x # r \<Rightarrow> if x = c then Some r else None)"

definition ns_dt_rd_date :: "string \<Rightarrow> ((int \<times> int \<times> int) \<times> string) option" where
  "ns_dt_rd_date p =
     Option.bind (ns_dt_rd_digits p 4 9) (\<lambda>(y, p1).
     Option.bind (expect (CHR ''-'') p1) (\<lambda>p2.
     Option.bind (ns_dt_rd_digits p2 2 2) (\<lambda>(m, p3).
     Option.bind (expect (CHR ''-'') p3) (\<lambda>p4.
     Option.bind (ns_dt_rd_digits p4 2 2) (\<lambda>(d, p5).
       if y < 1 \<or> ns_dt_max_year < y \<or> m < 1 \<or> 12 < m \<or> d < 1 \<or> ns_dt_days_in_month y m < d then None
       else Some ((y, m, d), p5))))))"

text \<open>The fraction: at most three digits count, and further ones are passed over.\<close>

definition rd_fraction :: "string \<Rightarrow> (int \<times> string) option" where
  "rd_fraction p =
     (let ds = take 3 (takeWhile ascii_isdigit p); c = length ds
      in if c = 0 then None
         else Some (int (digits_value 0 ds) * 10 ^ (3 - c), dropWhile ascii_isdigit (drop c p)))"

text \<open>The optional seconds and their fraction.\<close>

definition rd_seconds :: "string \<Rightarrow> (int \<times> int \<times> string) option" where
  "rd_seconds p3 =
     (case expect (CHR '':'') p3 of
        None \<Rightarrow> Some (0, 0, p3)
      | Some p4 \<Rightarrow>
        Option.bind (ns_dt_rd_digits p4 2 2) (\<lambda>(se, p5).
          case expect (CHR ''.'') p5 of
            None \<Rightarrow> Some (se, 0, p5)
          | Some p6 \<Rightarrow> map_option (\<lambda>(frac, p7). (se, frac, p7)) (rd_fraction p6)))"

definition ns_dt_rd_time :: "string \<Rightarrow> (int \<times> string) option" where
  "ns_dt_rd_time p =
     Option.bind (ns_dt_rd_digits p 2 2) (\<lambda>(h, p1).
     Option.bind (expect (CHR '':'') p1) (\<lambda>p2.
     Option.bind (ns_dt_rd_digits p2 2 2) (\<lambda>(mi, p3).
     Option.bind (rd_seconds p3) (\<lambda>(se, frac, p8).
       if 23 < h \<or> 59 < mi \<or> 59 < se then None
       else Some (((h * 60 + mi) * 60 + se) * 1000 + frac, p8)))))"

text \<open>\<open>%0wd\<close>\<close>

definition print_int :: "nat \<Rightarrow> int \<Rightarrow> string" where
  "print_int w n =
     (if n < 0 then CHR ''-'' # replicate (w - 1 - length (dec_digits (nat (- n)))) CHR ''0'' @ dec_digits (nat (- n))
      else replicate (w - length (dec_digits (nat n))) CHR ''0'' @ dec_digits (nat n))"

definition ns_append_time_ms :: "int \<Rightarrow> string" where
  "ns_append_time_ms ms_of_day =
     (let ms = ns_dt_floormod ms_of_day 86400000;
          h = ms div 3600000; ms1 = ms mod 3600000; mi = ms1 div 60000; ms2 = ms1 mod 60000;
          se = ms2 div 1000; fr = ms2 mod 1000;
          hm = print_int 2 h @ '':'' @ print_int 2 mi
      in if fr \<noteq> 0 then hm @ '':'' @ print_int 2 se @ ''.'' @ print_int 3 fr
         else if se \<noteq> 0 then hm @ '':'' @ print_int 2 se
         else hm)"

text \<open>The kinds of inputs, without number and range.\<close>

datatype ns_input_kind = NdinOther | NdinDate | NdinMonth | NdinWeek | NdinTime | NdinDatetime

text \<open>With \<open>as_date\<close> false this is also \<open>ns_input_value_to_number\<close> of \<open>dom.c\<close>.\<close>

definition at_end :: "('a \<times> string) option \<Rightarrow> 'a option" where
  "at_end r = (case r of Some (v, []) \<Rightarrow> Some v | _ \<Rightarrow> None)"

definition ns_input_value_to_ms :: "ns_input_kind \<Rightarrow> string \<Rightarrow> bool \<Rightarrow> int option" where
  "ns_input_value_to_ms kind v as_date =
     (case kind of
        NdinOther \<Rightarrow> None
      | NdinDate \<Rightarrow> map_option (\<lambda>(y, m, d). ns_dt_days_from_civil y m d * 86400000) (at_end (ns_dt_rd_date v))
      | NdinMonth \<Rightarrow>
          Option.bind (ns_dt_rd_digits v 4 9) (\<lambda>(y, p1).
          Option.bind (expect (CHR ''-'') p1) (\<lambda>p2.
          Option.bind (at_end (ns_dt_rd_digits p2 2 2)) (\<lambda>m.
            if y < 1 \<or> ns_dt_max_year < y \<or> m < 1 \<or> 12 < m then None
            else Some (if as_date then ns_dt_days_from_civil y m 1 * 86400000
                       else (y - 1970) * 12 + (m - 1)))))
      | NdinWeek \<Rightarrow>
          Option.bind (ns_dt_rd_digits v 4 9) (\<lambda>(y, p1).
          Option.bind (Option.bind (expect (CHR ''-'') p1) (expect (CHR ''W''))) (\<lambda>p2.
          Option.bind (at_end (ns_dt_rd_digits p2 2 2)) (\<lambda>w.
            if y < 1 \<or> ns_dt_max_year < y \<or> w < 1 \<or> ns_dt_iso_weeks_in_year y < w then None
            else Some ((ns_dt_iso_week1_monday y + (w - 1) * 7) * 86400000))))
      | NdinTime \<Rightarrow> at_end (ns_dt_rd_time v)
      | NdinDatetime \<Rightarrow>
          if as_date then None else
          Option.bind (ns_dt_rd_date v) (\<lambda>((y, m, d), p1).
          Option.bind (case p1 of c # p2 \<Rightarrow> if c = CHR ''T'' \<or> c = CHR '' '' then Some p2 else None | [] \<Rightarrow> None) (\<lambda>p2.
          map_option (\<lambda>ms. ns_dt_days_from_civil y m d * 86400000 + ms) (at_end (ns_dt_rd_time p2)))))"

definition ns_input_ms_to_value :: "ns_input_kind \<Rightarrow> int \<Rightarrow> string option" where
  "ns_input_ms_to_value kind v =
     (case kind of
        NdinOther \<Rightarrow> None
      | NdinDate \<Rightarrow>
          if v < - 8640000000000000 \<or> 8640000000000000 < v then None
          else (case ns_dt_civil_from_days (v div 86400000) of (y, m, d) \<Rightarrow>
            Some (print_int 4 y @ ''-'' @ print_int 2 m @ ''-'' @ print_int 2 d))
      | NdinMonth \<Rightarrow>
          if v < - 100000000 \<or> 100000000 < v then None
          else Some (print_int 4 (1970 + ns_floordiv v 12) @ ''-'' @ print_int 2 (ns_dt_floormod v 12 + 1))
      | NdinWeek \<Rightarrow>
          if v < - 8640000000000000 \<or> 8640000000000000 < v then None
          else (let monday = v div 86400000; ty = fst (ns_dt_civil_from_days (monday + 3));
                    week = (monday - ns_dt_iso_week1_monday ty) sdiv 7 + 1
                in Some (print_int 4 ty @ ''-W'' @ print_int 2 week))
      | NdinTime \<Rightarrow>
          if v < - 1000000000 \<or> 1000000000 < v then None else Some (ns_append_time_ms v)
      | NdinDatetime \<Rightarrow>
          if v < - 8640000000000000 \<or> 8640000000000000 < v then None
          else (let days = v div 86400000
                in case ns_dt_civil_from_days days of (y, m, d) \<Rightarrow>
                  Some (print_int 4 y @ ''-'' @ print_int 2 m @ ''-'' @ print_int 2 d @ ''T''
                    @ ns_append_time_ms (v - days * 86400000))))"

section \<open>C division\<close>

lemma smod_range:
  fixes a b :: int
  assumes "0 < b"
  shows "- b < a smod b" "a smod b < b" "a = b * (a sdiv b) + a smod b"
proof -
  define m where "m = \<bar>a\<bar> mod b"
  have "m < b" "0 \<le> m" using assms by (simp_all add: m_def)
  moreover have "a smod b = sgn a * m" using assms by (simp add: signed_modulo_int_def m_def)
  ultimately show "- b < a smod b" "a smod b < b" by (auto simp: sgn_if)
  show "a = b * (a sdiv b) + a smod b" by (simp add: mult_sdiv_smod_eq)
qed

lemma smod_mod:
  fixes a b :: int
  assumes "0 < b"
  shows "a mod b = (if a smod b < 0 then a smod b + b else a smod b)"
proof -
  note r = smod_range [OF assms, of a]
  have "a mod b = (b * (a sdiv b) + a smod b) mod b" using r(3) by simp
  also have "\<dots> = (a smod b) mod b" by simp
  also have "\<dots> = (if a smod b < 0 then a smod b + b else a smod b)"
    using r(1,2) by (auto simp: mod_pos_pos_trivial intro: int_mod_pos_eq [where q = "- 1"])
  finally show ?thesis .
qed

lemma smod_zero: "0 < b \<Longrightarrow> (a smod b = 0) = (a mod b = (0 :: int))"
  using smod_range(1,2) [of b a] by (simp add: smod_mod)

lemma floor_division:
  assumes "0 < b"
  shows "ns_dt_floormod a b = a mod b" "ns_floordiv a b = a div b"
proof -
  define q r where "q = a sdiv b" and "r = a smod b"
  have a: "a = b * q + r" using smod_range(3) [OF assms, of a] by (simp add: q_def r_def)
  have m: "a mod b = (if r < 0 then r + b else r)" using smod_mod [OF assms, of a] by (simp add: r_def)
  then show "ns_dt_floormod a b = a mod b" using assms by (simp add: ns_dt_floormod_def Let_def flip: r_def)
  have "b * (a div b) = a - a mod b" by (simp add: minus_mod_eq_mult_div)
  also have "\<dots> = b * (if r < 0 then q - 1 else q)" unfolding m using a by (simp add: algebra_simps)
  finally have "a div b = (if r < 0 then q - 1 else q)" using assms by simp
  then show "ns_floordiv a b = a div b" using assms by (simp add: ns_floordiv_def Let_def flip: r_def q_def)
qed

lemma sdiv_pos: "0 \<le> a \<Longrightarrow> 0 < b \<Longrightarrow> a sdiv b = a div (b :: int)"
  by (cases "a = 0") (simp_all add: signed_divide_int_def)

lemma smod_pos: "0 \<le> a \<Longrightarrow> 0 < b \<Longrightarrow> a smod b = a mod (b :: int)"
  by (cases "a = 0") (simp_all add: signed_modulo_int_def)

lemma era_div: "(if 0 \<le> a then a else a - 399) sdiv 400 = a div (400 :: int)"
  "(if 0 \<le> a then a else a - 146096) sdiv 146097 = a div (146097 :: int)"
proof -
  have "(a - (k - 1)) sdiv k = a div k" if "a < 0" "0 < k" for k
  proof -
    have "(a - (k - 1)) sdiv k = - ((k - 1 - a) div k)" using that by (simp add: signed_divide_int_def)
    also have "\<dots> = a div k"
    proof -
      have "(k - 1 - a) div k = - (a div k)" using pos_mod_bound [OF that(2), of a] pos_mod_sign [OF that(2), of a]
        by (intro int_div_pos_eq [where r = "k - 1 - a mod k"]) (simp_all add: algebra_simps minus_mod_eq_mult_div [symmetric])
      then show ?thesis by simp
    qed
    finally show ?thesis .
  qed
  from this [of 400] this [of 146097] show "(if 0 \<le> a then a else a - 399) sdiv 400 = a div (400 :: int)"
    "(if 0 \<le> a then a else a - 146096) sdiv 146097 = a div (146097 :: int)"
    by (simp_all add: sdiv_pos)
qed

section \<open>The calendar\<close>

definition valid_date :: "int \<times> int \<times> int \<Rightarrow> bool" where
  "valid_date = (\<lambda>(y, m, d). 1 \<le> m \<and> m \<le> 12 \<and> 1 \<le> d \<and> d \<le> ns_dt_days_in_month y m)"

definition civil_leap :: "int \<Rightarrow> bool" where
  "civil_leap y \<longleftrightarrow> y mod 4 = 0 \<and> (y mod 100 \<noteq> 0 \<or> y mod 400 = 0)"

definition next_date :: "int \<times> int \<times> int \<Rightarrow> int \<times> int \<times> int" where
  "next_date = (\<lambda>(y, m, d).
     if d < ns_dt_days_in_month y m then (y, m, d + 1) else if m < 12 then (y, m + 1, 1) else (y + 1, 1, 1))"

text \<open>The formulas of the code over all integers.\<close>

definition civil_days :: "int \<Rightarrow> int \<Rightarrow> int \<Rightarrow> int" where
  "civil_days y m d =
     (let yy = y - (if m \<le> 2 then 1 else 0);
          era = (if 0 \<le> yy then yy else yy - 399) sdiv 400;
          yoe = yy - era * 400;
          doy = (153 * (m + (if 2 < m then - 3 else 9)) + 2) sdiv 5 + d - 1;
          doe = yoe * 365 + yoe div 4 - yoe div 100 + doy
      in era * 146097 + doe - 719468)"

definition civil_date :: "int \<Rightarrow> int \<times> int \<times> int" where
  "civil_date z0 =
     (let z = z0 + 719468;
          era = (if 0 \<le> z then z else z - 146096) sdiv 146097;
          doe = z - era * 146097;
          yoe = (doe - doe div 1460 + doe div 36524 - doe div 146096) div 365;
          yy = yoe + era * 400;
          doy = doe - (365 * yoe + yoe div 4 - yoe div 100);
          mp = (5 * doy + 2) div 153;
          dd = doy - (153 * mp + 2) div 5 + 1;
          mm = mp + (if mp < 10 then 3 else - 9)
      in (yy + (if mm \<le> 2 then 1 else 0), mm, dd))"

definition civil_index :: "int \<times> int \<times> int \<Rightarrow> int" where
  "civil_index = (\<lambda>(y, m, d). civil_days y m d)"

lemma month_cases:
  fixes m :: int
  assumes "1 \<le> m" "m \<le> 12"
  shows "m = 1 \<or> m = 2 \<or> m = 3 \<or> m = 4 \<or> m = 5 \<or> m = 6 \<or> m = 7 \<or> m = 8 \<or> m = 9
    \<or> m = 10 \<or> m = 11 \<or> m = 12"
  using assms by arith

lemma days_in_month:
  "ns_dt_days_in_month y m =
     (if m = 2 then (if civil_leap y then 29 else 28) else if m \<in> {4, 6, 9, 11} then 30
      else if m \<in> {1, 3, 5, 7, 8, 10, 12} then 31 else 0)"
proof (cases "1 \<le> m \<and> m \<le> 12")
  case True
  then have "m = 1 \<or> m = 2 \<or> m = 3 \<or> m = 4 \<or> m = 5 \<or> m = 6 \<or> m = 7 \<or> m = 8 \<or> m = 9
    \<or> m = 10 \<or> m = 11 \<or> m = 12" using month_cases by blast
  then show ?thesis by (elim disjE) (simp_all add: ns_dt_days_in_month_def civil_leap_def smod_zero)
qed (auto simp: ns_dt_days_in_month_def)

definition year_days :: "int \<Rightarrow> int" where
  "year_days yy = 365 * yy + yy div 4 - yy div 100 + yy div 400"

lemma era_parts:
  fixes e r :: int
  assumes "0 \<le> r" "r < 400"
  shows "(e * 400 + r) div 4 = 100 * e + r div 4" "(e * 400 + r) div 100 = 4 * e + r div 100"
    "(e * 400 + r) div 400 = e"
proof -
  have "e * 400 + r = r + (100 * e) * 4" "e * 400 + r = r + (4 * e) * 100" by simp_all
  then show "(e * 400 + r) div 4 = 100 * e + r div 4" "(e * 400 + r) div 100 = 4 * e + r div 100"
    by (metis add.commute div_mult_self1 zero_neq_numeral)+
  show "(e * 400 + r) div 400 = e" using assms by simp
qed

lemma year_days_era:
  assumes "0 \<le> r" "r < 400"
  shows "year_days (e * 400 + r) = e * 146097 + year_days r"
  using era_parts [OF assms] assms by (simp add: year_days_def)

lemma era_split: "yy = yy div 400 * 400 + (yy - yy div 400 * 400)" "0 \<le> yy - yy div 400 * (400 :: int)"
  "yy - yy div 400 * 400 < 400"
  by (simp_all add: minus_div_mult_eq_mod)

definition march_day :: "int \<Rightarrow> int" where
  "march_day m = (153 * (m + (if 2 < m then - 3 else 9)) + 2) div 5"

lemma days_closed:
  assumes "1 \<le> m"
  shows "civil_days y m d = year_days (y - (if m \<le> 2 then 1 else 0)) + march_day m + d - 719469"
proof -
  define yy where "yy = y - (if m \<le> 2 then 1 else 0)"
  define e r where "e = yy div 400" and "r = yy - yy div 400 * 400"
  have yy: "yy = e * 400 + r" "0 \<le> r" "r < 400" using era_split [of yy] by (simp_all add: e_def r_def)
  have doy: "(153 * (m + (if 2 < m then - 3 else 9)) + 2) sdiv 5 = march_day m"
    using assms unfolding march_day_def by (intro sdiv_pos) auto
  have "civil_days y m d = e * 146097 + (r * 365 + r div 4 - r div 100 + (march_day m + d - 1)) - 719468"
    unfolding civil_days_def Let_def era_div doy yy_def [symmetric] r_def e_def ..
  also have "\<dots> = year_days yy + march_day m + d - 719469"
    using yy(2,3) unfolding yy(1) year_days_era [OF yy(2,3)] by (simp add: year_days_def)
  finally show ?thesis by (simp add: yy_def)
qed

lemma div_step:
  fixes y k :: int
  assumes "1 < k"
  shows "y div k = (y - 1) div k + (if y mod k = 0 then 1 else 0)"
proof -
  have y: "y = k * (y div k) + y mod k" "0 \<le> y mod k" "y mod k < k" using assms by simp_all
  show ?thesis
  proof (cases "y mod k = 0")
    case True
    then have "(y - 1) div k = y div k - 1"
      using y assms by (intro int_div_pos_eq [where r = "k - 1"]) (auto simp: algebra_simps)
    then show ?thesis using True by simp
  next
    case False
    then have "(y - 1) div k = y div k"
      using y by (intro int_div_pos_eq [where r = "y mod k - 1"]) linarith+
    then show ?thesis using False by simp
  qed
qed

lemma year_step: "year_days y = year_days (y - 1) + (if civil_leap y then 366 else 365)"
proof -
  have d: "y mod 4 = 0" if "y mod 100 = 0" using that by presburger
  have e: "y mod 100 = 0" if "y mod 400 = 0" using that by presburger
  define a b c where "a = (y - 1) div 4" and "b = (y - 1) div 100" and "c = (y - 1) div 400"
  have q: "y div 4 = a + (if y mod 4 = 0 then 1 else 0)" "y div 100 = b + (if y mod 100 = 0 then 1 else 0)"
    "y div 400 = c + (if y mod 400 = 0 then 1 else 0)"
    unfolding a_def b_def c_def by (rule div_step, simp)+
  have Y: "year_days y = 365 * y + (y div 4 - y div 100 + y div 400)"
    "year_days (y - 1) = 365 * (y - 1) + (a - b + c)"
    by (simp_all add: year_days_def a_def b_def c_def)
  have D: "y div 4 - y div 100 + y div 400 = a - b + c + (if civil_leap y then 1 else 0)"
    unfolding q civil_leap_def using d e by (cases "y mod 400 = 0"; cases "y mod 100 = 0"; cases "y mod 4 = 0") simp_all
  show ?thesis unfolding Y D by simp
qed

lemma march_days:
  "march_day 1 = 306" "march_day 2 = 337" "march_day 3 = 0" "march_day 4 = 31" "march_day 5 = 61"
  "march_day 6 = 92" "march_day 7 = 122" "march_day 8 = 153" "march_day 9 = 184" "march_day 10 = 214"
  "march_day 11 = 245" "march_day 12 = 275"
  by (simp_all add: march_day_def)

lemma civil_index_next:
  assumes "valid_date x"
  shows "civil_index (next_date x) = civil_index x + 1"
proof -
  obtain y m d where x: "x = (y, m, d)" by (cases x) auto
  have m: "1 \<le> m" "m \<le> 12" and d: "1 \<le> d" "d \<le> ns_dt_days_in_month y m"
    using assms by (simp_all add: x valid_date_def)
  show ?thesis
  proof (cases "d < ns_dt_days_in_month y m")
    case True
    then show ?thesis using m by (simp add: x next_date_def civil_index_def days_closed)
  next
    case False
    then have "d = ns_dt_days_in_month y m" using d by simp
    then show ?thesis using month_cases [OF m] year_step [of y]
      by (elim disjE) (simp_all add: x next_date_def civil_index_def days_closed days_in_month march_days split: if_splits)
  qed
qed

lemma valid_next:
  assumes "valid_date x"
  shows "valid_date (next_date x)"
proof -
  obtain y m d where x: "x = (y, m, d)" by (cases x) auto
  have m: "1 \<le> m" "m \<le> 12" and d: "1 \<le> d" "d \<le> ns_dt_days_in_month y m"
    using assms by (simp_all add: x valid_date_def)
  show ?thesis using month_cases [OF m] d
    by (elim disjE) (simp_all add: x valid_date_def next_date_def days_in_month split: if_splits)
qed

definition prev_date :: "int \<times> int \<times> int \<Rightarrow> int \<times> int \<times> int" where
  "prev_date = (\<lambda>(y, m, d).
     if 1 < d then (y, m, d - 1) else if 1 < m then (y, m - 1, ns_dt_days_in_month y (m - 1)) else (y - 1, 12, 31))"

lemma valid_prev:
  assumes "valid_date x"
  shows "valid_date (prev_date x) \<and> next_date (prev_date x) = x"
proof -
  obtain y m d where x: "x = (y, m, d)" by (cases x) auto
  have m: "1 \<le> m" "m \<le> 12" and d: "1 \<le> d" "d \<le> ns_dt_days_in_month y m"
    using assms by (simp_all add: x valid_date_def)
  show ?thesis using month_cases [OF m] d
    by (elim disjE) (auto simp: x valid_date_def next_date_def prev_date_def days_in_month split: if_splits)
qed

lemma epoch: "valid_date (1970, 1, 1)" "civil_index (1970, 1, 1) = 0"
  by (simp_all add: valid_date_def days_in_month civil_index_def days_closed march_days year_days_def)

lemma every_day: "\<exists>x. valid_date x \<and> civil_index x = z"
proof (induction z rule: int_induct [where k = 0])
  case base
  then show ?case using epoch by blast
next
  case (step1 i)
  then show ?case using civil_index_next valid_next by metis
next
  case (step2 i)
  then obtain x where "valid_date x" "civil_index x = i" by blast
  then have "valid_date (prev_date x)" "civil_index (prev_date x) = i - 1"
    using valid_prev [of x] civil_index_next [of "prev_date x"] by simp_all
  then show ?case by blast
qed

section \<open>From days back to dates\<close>

definition year_of_era :: "int \<Rightarrow> int" where
  "year_of_era doe = (doe - doe div 1460 + doe div 36524 - doe div 146096) div 365"

lemma minus_div_mono:
  fixes a b k :: int
  assumes "a \<le> b" "0 < k"
  shows "a - a div k \<le> b - b div k"
proof -
  have "b div k \<le> (a + (b - a) * k) div k"
  proof (rule zdiv_mono1)
    have "(b - a) * 1 \<le> (b - a) * k" using assms by (intro mult_left_mono) auto
    then show "b \<le> a + (b - a) * k" by simp
  qed (use assms in simp)
  also have "\<dots> = a div k + (b - a)" using assms by simp
  finally show ?thesis by simp
qed

lemma year_of_era_mono:
  assumes "a \<le> b"
  shows "year_of_era a \<le> year_of_era b"
proof -
  have "a div 36524 - a div 36524 div 4 \<le> b div 36524 - b div 36524 div 4"
    using assms by (intro minus_div_mono zdiv_mono1) simp_all
  then have "a div 36524 - a div 146096 \<le> b div 36524 - b div 146096" by (simp add: div_mult2_eq [symmetric] zdiv_zmult2_eq [symmetric])
  moreover have "a - a div 1460 \<le> b - b div 1460" using assms by (rule minus_div_mono) simp
  ultimately show ?thesis unfolding year_of_era_def by (intro zdiv_mono1) simp_all
qed

text \<open>The formula is checked at the first and the last day of each of the 400 years of an era.\<close>

lemma year_of_era_ends: "list_all (\<lambda>r. year_of_era (year_days r) = r \<and> year_of_era (year_days (r + 1) - 1) = r) [0..399]"
  by code_simp

lemma year_of_era_days:
  assumes "0 \<le> r" "r < 400" "year_days r \<le> doe" "doe < year_days (r + 1)"
  shows "year_of_era doe = r"
proof -
  have "r \<in> set [0..399]" using assms by simp
  then have "year_of_era (year_days r) = r" "year_of_era (year_days (r + 1) - 1) = r"
    using year_of_era_ends by (auto simp: list_all_iff)
  then show ?thesis using year_of_era_mono [of "year_days r" doe] year_of_era_mono [of doe "year_days (r + 1) - 1"] assms
    by simp
qed

lemma year_days_bounds:
  assumes "0 \<le> r" "r < 400"
  shows "0 \<le> year_days r" "year_days (r + 1) \<le> 146097"
proof -
  show "0 \<le> year_days r" using assms unfolding year_days_def by simp
  have "year_days (r + 1) \<le> year_days 400"
    using assms zdiv_mono1 [of "r + 1" 400 4] minus_div_mono [of "(r + 1) div 4" "100" 25]
    by (simp add: year_days_def zdiv_zmult2_eq [symmetric] zdiv_mono1)
  then show "year_days (r + 1) \<le> 146097" by (simp add: year_days_def)
qed

text \<open>The month from the day of a year that begins in March.\<close>

lemma month_of_march_day:
  assumes "1 \<le> m" "m \<le> 12" "1 \<le> d" "d \<le> ns_dt_days_in_month y m"
  shows "(5 * (march_day m + d - 1) + 2) div 153 = m + (if 2 < m then - 3 else 9)"
    "0 \<le> march_day m + d - 1" "march_day m + d - 1 < (if civil_leap (y - (if m \<le> 2 then 1 else 0) + 1) then 366 else 365)"
proof -
  note m = month_cases [OF assms(1,2)]
  show "(5 * (march_day m + d - 1) + 2) div 153 = m + (if 2 < m then - 3 else 9)"
    using m assms(3,4) by (elim disjE) (simp_all add: march_days days_in_month split: if_splits)
  show "0 \<le> march_day m + d - 1" using m assms(3) by (elim disjE) (simp_all add: march_days)
  show "march_day m + d - 1 < (if civil_leap (y - (if m \<le> 2 then 1 else 0) + 1) then 366 else 365)"
    using m assms(3,4) by (elim disjE) (simp_all add: march_days days_in_month split: if_splits)
qed

lemma civil_leap_era: "civil_leap (e * 400 + r) = civil_leap r"
proof -
  have "(e * 400 + r) mod 4 = r mod 4" "(e * 400 + r) mod 100 = r mod 100" "(e * 400 + r) mod 400 = r mod 400"
    using mod_mult_self2 [of r 4 "100 * e"] mod_mult_self2 [of r 100 "4 * e"] by (simp_all add: ac_simps)
  then show ?thesis by (simp add: civil_leap_def)
qed

lemma civil_from_days_from_civil:
  assumes "1 \<le> m" "m \<le> 12" "1 \<le> d" "d \<le> ns_dt_days_in_month y m"
  shows "civil_date (civil_days y m d) = (y, m, d)"
proof -
  define yy where "yy = y - (if m \<le> 2 then 1 else 0)"
  define e r doy where "e = yy div 400" and "r = yy - yy div 400 * 400" and "doy = march_day m + d - 1"
  have yy: "yy = e * 400 + r" "0 \<le> r" "r < 400" using era_split [of yy] by (simp_all add: e_def r_def)
  note md = month_of_march_day [OF assms, folded doy_def yy_def]
  have "doy < (if civil_leap (r + 1) then 366 else 365)"
    using md(3) civil_leap_era [of e "r + 1"] by (simp add: yy(1) add.assoc)
  then have doy: "0 \<le> doy" "year_days r \<le> year_days r + doy" "year_days r + doy < year_days (r + 1)"
    using md(2) year_step [of "r + 1"] by (simp_all split: if_splits)
  have z: "civil_days y m d + 719468 = e * 146097 + (year_days r + doy)"
    using days_closed [OF assms(1), of y d] year_days_era [OF yy(2,3), of e] by (simp add: yy(1) doy_def flip: yy_def)
  have bound: "0 \<le> year_days r + doy" "year_days r + doy < 146097"
    using doy year_days_bounds [OF yy(2,3)] by simp_all
  then have era: "(e * 146097 + (year_days r + doy)) div 146097 = e" by simp
  have yoe: "year_of_era (year_days r + doy) = r" by (rule year_of_era_days [OF yy(2,3) doy(2,3)])
  have yd: "365 * r + r div 4 - r div 100 = year_days r" using yy(2,3) by (simp add: year_days_def)
  define mp where "mp = m + (if 2 < m then - 3 else 9)"
  have mp: "(5 * doy + 2) div 153 = mp" using md(1) by (simp add: mp_def)
  have dd: "doy - (153 * mp + 2) div 5 + 1 = d" by (simp add: doy_def march_day_def mp_def)
  have mm: "mp + (if mp < 10 then 3 else - 9) = m" using assms(1,2) by (simp add: mp_def)
  show ?thesis
    unfolding civil_date_def Let_def z era_div era
    using yoe dd mm yy(1) by (simp add: year_of_era_def yd mp yy_def)
qed

lemma days_from_civil_from_days:
  obtains y m d where "civil_date z = (y, m, d)" "valid_date (y, m, d)" "civil_days y m d = z"
proof -
  obtain x where "valid_date x" "civil_index x = z" using every_day by blast
  moreover obtain y m d where "x = (y, m, d)" by (cases x) auto
  ultimately show thesis using that civil_from_days_from_civil [of m d y]
    by (auto simp: valid_date_def civil_index_def)
qed

section \<open>Within the integers of C\<close>

lemma c_int_id [simp]: "- 2147483648 \<le> x \<Longrightarrow> x < 2147483648 \<Longrightarrow> c_int x = x"
  by (simp add: c_int_def)

lemma c_long_id [simp]: "- 9223372036854775808 \<le> x \<Longrightarrow> x < 9223372036854775808 \<Longrightarrow> c_long x = x"
  by (simp add: c_long_def)

lemma c_unsigned_id [simp]: "0 \<le> x \<Longrightarrow> x < 4294967296 \<Longrightarrow> c_unsigned x = x"
  by (simp add: c_unsigned_def)

text \<open>The years for which no step leaves its type, and some days of such years.\<close>

definition year_fits :: "int \<Rightarrow> bool" where
  "year_fits y \<longleftrightarrow> - 2147483000 \<le> y \<and> y \<le> 2147483000"

definition day_fits :: "int \<Rightarrow> bool" where
  "day_fits z \<longleftrightarrow> - 784000000000 \<le> z \<and> z \<le> 784000000000"

lemma days_narrow:
  assumes "year_fits y" "1 \<le> m" "m \<le> 12" "1 \<le> d" "d \<le> 31"
  shows "ns_dt_days_from_civil y m d = civil_days y m d"
proof -
  define yy where "yy = y - (if m \<le> 2 then 1 else 0)"
  have yy: "- 2147483001 \<le> yy" "yy \<le> 2147483000" using assms(1) by (auto simp: yy_def year_fits_def)
  define yoe where "yoe = yy - yy div 400 * 400"
  have yoe: "0 \<le> yoe" "yoe < 400" using era_split [of yy] by (simp_all add: yoe_def)
  have doy: "(153 * (m + (if 2 < m then - 3 else 9)) + 2) sdiv 5 = march_day m"
    using assms(2) unfolding march_day_def by (intro sdiv_pos) auto
  have md: "0 \<le> march_day m" "march_day m \<le> 337"
    using month_cases [OF assms(2,3)] by (elim disjE; simp add: march_days)+
  have era: "(if 0 \<le> yy then yy else c_int (yy - 399)) sdiv 400 = yy div 400"
    using yy era_div [of yy] by (simp split: if_splits)
  have doe: "0 \<le> yoe * 365 + yoe div 4 - yoe div 100 + (march_day m + d - 1)"
    "yoe * 365 + yoe div 4 - yoe div 100 + (march_day m + d - 1) < 4294967296"
    using yoe md assms(4,5) by linarith+
  have u: "c_int (y - (if m \<le> 2 then 1 else 0)) = yy" using yy by (simp flip: yy_def)
  have v: "c_unsigned (yy - yy div 400 * 400) = yoe" using yoe by (simp flip: yoe_def)
  have w: "c_unsigned (march_day m + d - 1) = march_day m + d - 1" using md assms(4,5) by (intro c_unsigned_id) linarith+
  show ?thesis
    unfolding ns_dt_days_from_civil_def civil_days_def Let_def u era v doy w c_unsigned_id [OF doe]
    unfolding yy_def [symmetric] era_div yoe_def [symmetric] ..
qed

lemma year_of_era_range:
  assumes "0 \<le> doe" "doe < 146097"
  shows "0 \<le> year_of_era doe" "year_of_era doe < 400"
  using year_of_era_mono [of 0 doe] year_of_era_mono [of doe 146096] assms by (simp_all add: year_of_era_def)

lemma civil_narrow:
  assumes "day_fits z"
  shows "ns_dt_civil_from_days z = civil_date z" and "year_fits (fst (civil_date z))"
proof -
  define e doe yoe where "e = (z + 719468) div 146097" and "doe = (z + 719468) - e * 146097" and "yoe = year_of_era doe"
  have z: "- 784000000000 \<le> z" "z \<le> 784000000000" using assms by (simp_all add: day_fits_def)
  have doe: "0 \<le> doe" "doe < 146097" unfolding doe_def e_def by (simp_all add: minus_div_mult_eq_mod)
  have "z + 719468 = e * 146097 + doe" by (simp add: doe_def)
  then have e: "- 5366300 \<le> e" "e \<le> 5366303" using z doe by linarith+
  have yoe: "0 \<le> yoe" "yoe < 400" unfolding yoe_def by (rule year_of_era_range [OF doe])+
  define doy where "doy = doe - (365 * yoe + yoe div 4 - yoe div 100)"
  define mp where "mp = (5 * doy + 2) div 153"
  define dd where "dd = doy - (153 * mp + 2) div 5 + 1"
  define mm where "mm = mp + (if mp < 10 then 3 else - 9)"
  note parts = yoe_def year_of_era_def doe_def doy_def mp_def dd_def mm_def
  have date: "civil_date z = (yoe + e * 400 + (if mm \<le> 2 then 1 else 0), mm, dd)"
    unfolding civil_date_def Let_def era_div e_def [symmetric] parts ..
  obtain y m d where "civil_date z = (y, m, d)" "valid_date (y, m, d)" by (rule days_from_civil_from_days [of z])
  then have "valid_date (y, mm, dd)" using date by simp
  then have md: "1 \<le> mm" "mm \<le> 12" "1 \<le> dd" "dd \<le> 31"
    using days_in_month [of y mm] by (auto simp: valid_date_def split: if_splits)
  have era: "(if 0 \<le> z + 719468 then z + 719468 else c_long (z + 719468 - 146096)) sdiv 146097 = e"
    using z era_div(2) [of "z + 719468"] by (simp add: e_def split: if_splits)
  have l: "c_long (z + 719468) = z + 719468" using z by simp
  have u: "c_unsigned (z + 719468 - e * 146097) = doe" using doe by (simp add: doe_def)
  have yy: "c_int (c_int yoe + c_int (e * 400)) = yoe + e * 400" using yoe e by simp
  have "ns_dt_civil_from_days z = (c_int (yoe + e * 400 + (if mm \<le> 2 then 1 else 0)), c_int mm, c_int dd)"
    unfolding ns_dt_civil_from_days_def Let_def l era u
    unfolding year_of_era_def [symmetric] yoe_def [symmetric] yy doy_def [symmetric] mp_def [symmetric]
      dd_def [symmetric] mm_def [symmetric] ..
  moreover have "c_int (yoe + e * 400 + (if mm \<le> 2 then 1 else 0)) = yoe + e * 400 + (if mm \<le> 2 then 1 else 0)"
    using yoe e by simp
  ultimately show "ns_dt_civil_from_days z = civil_date z" using date md by simp
  show "year_fits (fst (civil_date z))" using yoe e by (simp add: date year_fits_def)
qed

definition day_number :: "int \<times> int \<times> int \<Rightarrow> int" where
  "day_number = (\<lambda>(y, m, d). ns_dt_days_from_civil y m d)"

lemma days_in_month_31: "ns_dt_days_in_month y m \<le> 31"
  by (simp add: days_in_month)

lemma day_number_narrow:
  assumes "valid_date x" "year_fits (fst x)"
  shows "day_number x = civil_index x"
  using assms days_in_month_31 [of "fst x" "fst (snd x)"]
  by (cases x) (auto simp: valid_date_def day_number_def civil_index_def intro!: days_narrow)


section \<open>ISO weeks\<close>

lemma year_days_week: "year_days y mod 7 = (y + y div 4 - y div 100 + y div 400) mod 7"
proof -
  have "year_days y = (y + y div 4 - y div 100 + y div 400) + (52 * y) * 7" by (simp add: year_days_def)
  then show ?thesis by (metis mod_mult_self1)
qed

lemma week1_closed:
  assumes "year_fits y"
  shows "ns_dt_iso_week1_monday y = year_days (y - 1) - 719159 - (year_days (y - 1) + 3) mod 7"
proof -
  have "ns_dt_days_from_civil y 1 4 = year_days (y - 1) - 719159"
    using days_narrow [OF assms, of 1 4] by (simp add: days_closed march_days)
  moreover have "(year_days (y - 1) - 719159 + 3) mod 7 = (year_days (y - 1) + 3) mod 7"
    using mod_mult_self1 [of "year_days (y - 1) - 719156" 102737 7] by (simp add: add.commute)
  ultimately show ?thesis by (simp add: ns_dt_iso_week1_monday_def Let_def floor_division)
qed

text \<open>Years for which the weeks are counted within \<open>int\<close>, and with positive remainders.\<close>

definition week_year :: "int \<Rightarrow> bool" where
  "week_year y \<longleftrightarrow> 1 \<le> y \<and> y < 1000000000"

lemma week_year_fits: "week_year y \<Longrightarrow> year_fits y \<and> year_fits (y + 1)"
  by (simp add: week_year_def year_fits_def)

lemma weeks_closed:
  assumes "week_year y"
  shows "ns_dt_iso_weeks_in_year y = (if year_days y mod 7 = 4 \<or> year_days (y - 1) mod 7 = 3 then 53 else 52)"
proof -
  have week: "c_int (k + k sdiv 4 - k sdiv 100 + k sdiv 400) smod 7 = year_days k mod 7"
    if "0 \<le> k" "k < 1000000000" for k
  proof -
    have "k div 100 \<le> k div 4" using that by (intro zdiv_mono2) simp_all
    then have "0 \<le> k + k div 4 - k div 100 + k div 400" "k + k div 4 - k div 100 + k div 400 < 2147483648"
      using that by linarith+
    then show ?thesis using that by (simp add: sdiv_pos smod_pos year_days_week)
  qed
  have "c_int (y - 1) = y - 1" using assms by (simp add: week_year_def)
  then show ?thesis using week [of y] week [of "y - 1"] assms
    by (simp add: ns_dt_iso_weeks_in_year_def week_year_def)
qed

lemma weeks_tile:
  assumes "week_year y"
  shows "ns_dt_iso_week1_monday (y + 1) = ns_dt_iso_week1_monday y + 7 * ns_dt_iso_weeks_in_year y"
proof -
  define a p where "a = year_days (y - 1) div 7" and "p = year_days (y - 1) mod 7"
  have Y: "year_days (y - 1) = 7 * a + p" "0 \<le> p" "p < 7" by (simp_all add: a_def p_def)
  then have "p = 0 \<or> p = 1 \<or> p = 2 \<or> p = 3 \<or> p = 4 \<or> p = 5 \<or> p = 6" by arith
  moreover have "(7 * a + k) mod 7 = k mod 7" for k by simp
  ultimately show ?thesis
    unfolding weeks_closed [OF assms] week1_closed [OF week_year_fits [OF assms, THEN conjunct1]]
      week1_closed [OF week_year_fits [OF assms, THEN conjunct2]]
    using year_step [of y]
    by (elim disjE) (simp_all add: Y(1) add.assoc split: if_splits)
qed

lemma week1_monday:
  "(ns_dt_iso_week1_monday y + 3) mod 7 = 0"
  "ns_dt_iso_week1_monday y \<le> ns_dt_days_from_civil y 1 4"
  "ns_dt_days_from_civil y 1 4 < ns_dt_iso_week1_monday y + 7"
proof -
  define j where "j = ns_dt_days_from_civil y 1 4"
  have w: "ns_dt_iso_week1_monday y = j - (j + 3) mod 7" by (simp add: ns_dt_iso_week1_monday_def Let_def floor_division j_def)
  have "(j - (j + 3) mod 7 + 3) mod 7 = ((j + 3) - (j + 3) mod 7) mod 7" by (simp add: algebra_simps)
  then show "(ns_dt_iso_week1_monday y + 3) mod 7 = 0" unfolding w by (simp add: mod_diff_right_eq [symmetric] minus_mod_eq_mult_div)
  show "ns_dt_iso_week1_monday y \<le> ns_dt_days_from_civil y 1 4" "ns_dt_days_from_civil y 1 4 < ns_dt_iso_week1_monday y + 7"
    unfolding w j_def [symmetric] by simp_all
qed

lemma year_days_mono:
  assumes "a \<le> b"
  shows "year_days a \<le> year_days b"
  using assms
proof (induction b rule: int_ge_induct)
  case (step i)
  then show ?case using year_step [of "i + 1"] by (simp split: if_splits)
qed simp

lemma january_first: "civil_days y 1 1 = year_days (y - 1) - 719162"
  by (simp add: days_closed march_days)

lemma in_year:
  assumes "1 \<le> m" "m \<le> 12" "1 \<le> d" "d \<le> ns_dt_days_in_month y m"
  shows "year_days (y - 1) - 719162 \<le> civil_days y m d" "civil_days y m d < year_days y - 719162"
  using month_cases [OF assms(1,2)] assms(3,4) year_step [of y]
  by (elim disjE; simp add: days_closed march_days days_in_month split: if_splits)+

lemma year_of_day:
  assumes "year_days (y - 1) - 719162 \<le> z" "z < year_days y - 719162"
  shows "fst (civil_date z) = y"
proof -
  obtain y1 m d where z: "civil_date z = (y1, m, d)" "valid_date (y1, m, d)" "civil_days y1 m d = z"
    by (rule days_from_civil_from_days [of z])
  then have "year_days (y1 - 1) - 719162 \<le> z" "z < year_days y1 - 719162"
    using in_year [of m d y1] by (simp_all add: valid_date_def)
  then have "\<not> y \<le> y1 - 1" "\<not> y1 \<le> y - 1"
    using assms year_days_mono [of y "y1 - 1"] year_days_mono [of y1 "y - 1"] by linarith+
  then show ?thesis using z(1) by simp
qed

lemma week1_bounds:
  assumes "year_fits y"
  shows "ns_dt_iso_week1_monday y \<le> year_days (y - 1) - 719159" "year_days (y - 1) - 719165 \<le> ns_dt_iso_week1_monday y"
  using week1_monday(2,3) [of y] days_narrow [OF assms, of 1 4] by (simp_all add: days_closed march_days)

lemma thursday_year:
  assumes "week_year y" "1 \<le> w" "w \<le> ns_dt_iso_weeks_in_year y"
  shows "fst (civil_date (ns_dt_iso_week1_monday y + (w - 1) * 7 + 3)) = y"
proof (rule year_of_day)
  show "year_days (y - 1) - 719162 \<le> ns_dt_iso_week1_monday y + (w - 1) * 7 + 3"
    using week1_bounds(2) [of y] week_year_fits [OF assms(1)] assms(2) by simp
  show "ns_dt_iso_week1_monday y + (w - 1) * 7 + 3 < year_days y - 719162"
    using week1_bounds(1) [of "y + 1"] week_year_fits [OF assms(1)] weeks_tile [OF assms(1)] assms(3) by simp
qed

lemma dow_of_monday:
  assumes "(a + 3) mod 7 = 0" "0 \<le> k" "k < 7"
  shows "(let dow = ns_dt_floormod (a + k + 4) 7 in if dow = 0 then 7 else dow) = k + 1"
proof -
  have "(a + k + 4) mod 7 = ((a + 3) + (k + 1)) mod 7" by (simp add: algebra_simps)
  also have "\<dots> = (k + 1) mod 7" using assms(1) by (subst mod_add_left_eq [symmetric]) simp
  finally show ?thesis using assms(2,3) by (cases "k = 6") (simp_all add: floor_division)
qed

lemma iso_date:
  assumes "1 < y" "y < 900000000" "valid_date (y, m, d)"
  shows "\<exists>iso \<in> {y - 1, y, y + 1}.
     ns_dt_days_from_civil y m d
       = ns_dt_iso_week1_monday iso + 7 * (tmp_week_of_year y m d - 1) + (tmp_iso_dow y m d - 1)
     \<and> 1 \<le> tmp_week_of_year y m d \<and> tmp_week_of_year y m d \<le> ns_dt_iso_weeks_in_year iso
     \<and> 1 \<le> tmp_iso_dow y m d \<and> tmp_iso_dow y m d \<le> 7"
proof -
  define ord where "ord = ns_dt_days_from_civil y m d"
  define w1 where "w1 = ns_dt_iso_week1_monday"
  define k where "k = tmp_week_of_year y m d"
  have year: "year_days (y - 1) - 719162 \<le> ord" "ord < year_days y - 719162"
    using in_year [of m d y] assms days_narrow [of y m d] days_in_month_31 [of y m]
    by (simp_all add: ord_def valid_date_def year_fits_def)
  have wy: "week_year (y - 1)" "week_year y" "week_year (y + 1)" using assms(1,2) by (simp_all add: week_year_def)
  have fits: "year_fits (y - 1)" "year_fits (y + 1)" using assms(1,2) by (simp_all add: year_fits_def)
  have weeks: "52 \<le> ns_dt_iso_weeks_in_year z" and most: "ns_dt_iso_weeks_in_year z \<le> 53" for z
    by (simp_all add: ns_dt_iso_weeks_in_year_def Let_def)
  have tile: "w1 (z + 1) = w1 z + 7 * ns_dt_iso_weeks_in_year z" if "week_year z" for z
    using weeks_tile [OF that] by (simp add: w1_def)
  have step: "year_days y - year_days (y - 1) \<ge> 365" using year_step [of y] by (simp split: if_splits)
  have step1: "year_days (y - 1) - year_days (y - 2) \<ge> 365" using year_step [of "y - 1"] by (simp split: if_splits)
  obtain iso where iso: "iso \<in> {y - 1, y, y + 1}" "w1 iso + 7 * (k - 1) \<le> ord" "ord < w1 iso + 7 * k"
      "1 \<le> k" "k \<le> ns_dt_iso_weeks_in_year iso"
  proof -
    have div7: "w1 z + 7 * ((ord - w1 z) sdiv 7 + 1 - 1) \<le> ord \<and> ord < w1 z + 7 * ((ord - w1 z) sdiv 7 + 1)
        \<and> 1 \<le> (ord - w1 z) sdiv 7 + 1 \<and> (ord - w1 z) sdiv 7 + 1 \<le> ns_dt_iso_weeks_in_year z
        \<and> c_int ((ord - w1 z) sdiv 7) = (ord - w1 z) sdiv 7"
      if "w1 z \<le> ord" "ord < w1 (z + 1)" "week_year z" for z
    proof -
      define q where "q = (ord - w1 z) div 7"
      have "7 * q \<le> ord - w1 z" "ord - w1 z < 7 * q + 7" unfolding q_def by simp_all
      moreover have "(ord - w1 z) sdiv 7 = q" using that by (simp add: q_def sdiv_pos)
      moreover have "0 \<le> q" "q + 1 \<le> ns_dt_iso_weeks_in_year z" using calculation that tile [OF that(3)] by linarith+
      moreover have "c_int q = q" using calculation most [of z] by (intro c_int_id) linarith+
      ultimately show ?thesis by simp
    qed
    consider "ord < w1 y" | "w1 y \<le> ord" "ord < w1 (y + 1)" | "w1 (y + 1) \<le> ord" by linarith
    then show thesis
    proof cases
      case 1
      then have "k = c_int ((ord - w1 (y - 1)) sdiv 7) + 1" by (simp add: k_def tmp_week_of_year_def Let_def ord_def w1_def)
      moreover have "w1 (y - 1) \<le> ord" using week1_bounds(1) [OF fits(1)] year(1) step1 by (simp add: w1_def)
      ultimately show thesis using that [of "y - 1"] div7 [of "y - 1"] 1 wy by simp
    next
      case 2
      then have "k = c_int ((ord - w1 y) sdiv 7) + 1" by (simp add: k_def tmp_week_of_year_def Let_def ord_def w1_def)
      then show thesis using that [of y] div7 [of y] 2 wy by simp
    next
      case 3
      have "w1 y \<le> ord" using 3 tile [of y] weeks [of y] wy by simp
      then have "k = 1" using 3 by (simp add: k_def tmp_week_of_year_def Let_def ord_def w1_def)
      moreover have "ord < w1 (y + 1) + 7" using week1_bounds(2) [OF fits(2)] year(2) by (simp add: w1_def)
      ultimately show thesis using that [of "y + 1"] 3 weeks [of "y + 1"] by simp
    qed
  qed
  define j where "j = ord - (w1 iso + 7 * (k - 1))"
  have j: "0 \<le> j" "j < 7" "ord = w1 iso + 7 * (k - 1) + j" using iso(2,3) by (simp_all add: j_def)
  have "(w1 iso + 7 * (k - 1) + 3) mod 7 = 0"
    using week1_monday(1) [of iso] mod_mult_self2 [of "w1 iso + 3" 7 "k - 1"] by (simp add: w1_def algebra_simps)
  from dow_of_monday [OF this j(1,2)] have "tmp_iso_dow y m d = j + 1"
    by (simp add: tmp_iso_dow_def j(3) flip: ord_def)
  then show ?thesis using iso(1,4,5) j unfolding ord_def [symmetric] w1_def [symmetric] k_def [symmetric]
    by (intro bexI [of _ iso]) simp_all
qed

section \<open>Printing and reading back\<close>

lemma dec_digits_length:
  assumes "n < 10 ^ k" "0 < k"
  shows "length (dec_digits n) \<le> k"
  using assms
proof (induction k arbitrary: n)
  case (Suc k)
  show ?case
  proof (cases "n < 10")
    case True
    then show ?thesis by (simp add: dec_digits.simps [of n])
  next
    case False
    then have "0 < k" using Suc.prems by (cases k) auto
    moreover have "n div 10 < 10 ^ k" using Suc.prems(1) by (simp add: less_mult_imp_div_less mult.commute)
    ultimately show ?thesis using Suc.IH [of "n div 10"] False by (simp add: dec_digits.simps [of n])
  qed
qed simp

lemma digits_value_zeros: "digits_value 0 (replicate k CHR ''0'' @ ds) = digits_value 0 ds"
  by (induction k) (simp_all add: ascii_isdigit_def)

lemma digits_value_bound: "digits_value acc ds < (acc + 1) * 10 ^ length ds"
proof (induction ds arbitrary: acc)
  case (Cons c cs)
  show ?case
  proof (cases "ascii_isdigit c")
    case True
    then have "code c - 48 \<le> 9" unfolding ascii_isdigit_def by linarith
    then have "(acc * 10 + (code c - 48) + 1) * 10 ^ length cs \<le> ((acc + 1) * 10) * 10 ^ length cs"
      by (intro mult_right_mono) simp_all
    then show ?thesis using True Cons.IH [of "acc * 10 + (code c - 48)"] by (simp add: algebra_simps)
  next
    case False
    have "acc < (acc + 1) * 1" by simp
    also have "(acc + 1) * 1 \<le> (acc + 1) * 10 ^ length (c # cs)" by (rule mult_left_mono) simp_all
    finally have "acc < (acc + 1) * 10 ^ length (c # cs)" .
    then show ?thesis using False by simp
  qed
qed simp

lemma print_int_digits:
  assumes "0 \<le> n"
  shows "list_all ascii_isdigit (print_int w n)" "digits_value 0 (print_int w n) = nat n" "w \<le> length (print_int w n)"
  using assms dec_digits_all_digits digits_value_dec_digits [of "nat n"]
  by (auto simp: print_int_def list_all_iff digits_value_zeros ascii_isdigit_def)

lemma print_int_length:
  assumes "0 \<le> n" "n < 10 ^ k" "0 < k" "w \<le> k"
  shows "length (print_int w n) \<le> k"
proof -
  have "nat n < 10 ^ k" using assms by (simp add: nat_less_iff)
  then show ?thesis using dec_digits_length [of "nat n" k] assms by (simp add: print_int_def)
qed

lemma rd_digits_print:
  assumes "0 \<le> n" "mn \<le> w" "length (print_int w n) \<le> mx"
    and "length (print_int w n) = mx \<or> (\<forall>c r'. r = c # r' \<longrightarrow> \<not> ascii_isdigit c)"
  shows "ns_dt_rd_digits (print_int w n @ r) mn mx = Some (n, r)"
proof -
  define s where "s = print_int w n"
  note pd = print_int_digits [OF assms(1), of w, folded s_def]
  have "takeWhile ascii_isdigit (s @ r) = s @ takeWhile ascii_isdigit r" using pd(1) by (simp add: list_all_iff)
  moreover have "take mx (s @ takeWhile ascii_isdigit r) = s"
    using assms(3,4) by (cases r) (auto simp: s_def)
  ultimately have "take mx (takeWhile ascii_isdigit (s @ r)) = s" by simp
  then show ?thesis using pd(2,3) assms(1,2) by (simp only: ns_dt_rd_digits_def Let_def flip: s_def) simp
qed

lemma rd_two:
  assumes "0 \<le> n" "n < 100"
  shows "ns_dt_rd_digits (print_int 2 n @ r) 2 2 = Some (n, r)"
  using assms print_int_digits(3) [of n 2] print_int_length [of n 2 2] by (intro rd_digits_print) simp_all

lemma rd_year:
  assumes "0 \<le> y" "y < 1000000000"
  shows "ns_dt_rd_digits (print_int 4 y @ CHR ''-'' # r) 4 9 = Some (y, CHR ''-'' # r)"
  using assms print_int_length [of y 9 4] by (intro rd_digits_print) (simp_all add: ascii_isdigit_def)

lemma expect_simp [simp]: "expect c (c # r) = Some r" "expect c [] = None"
  by (simp_all add: expect_def)

lemma rd_digits_range:
  assumes "ns_dt_rd_digits p mn mx = Some (n, r)"
  shows "0 \<le> n" "n < 10 ^ mx"
proof -
  define ds where "ds = take mx (takeWhile ascii_isdigit p)"
  have n: "n = int (digits_value 0 ds)"
    using assms by (simp add: ns_dt_rd_digits_def Let_def ds_def split: if_splits)
  then show "0 \<le> n" by simp
  have "digits_value 0 ds < 10 ^ length ds" using digits_value_bound [of 0 ds] by simp
  also have "(10 :: nat) ^ length ds \<le> 10 ^ mx" by (rule power_increasing) (simp_all add: ds_def)
  finally show "n < 10 ^ mx" by (simp add: n)
qed

lemma rd_date_print:
  assumes "valid_date (y, m, d)" "1 \<le> y" "y \<le> ns_dt_max_year"
  shows "ns_dt_rd_date (print_int 4 y @ CHR ''-'' # print_int 2 m @ CHR ''-'' # print_int 2 d @ r) = Some ((y, m, d), r)"
proof -
  have m: "1 \<le> m" "m \<le> 12" and d: "1 \<le> d" "d \<le> ns_dt_days_in_month y m" using assms(1) by (simp_all add: valid_date_def)
  then have "d \<le> 31" by (simp add: days_in_month split: if_splits)
  then show ?thesis using assms(2,3) m d by (simp add: ns_dt_rd_date_def rd_year rd_two ns_dt_max_year_def)
qed

lemma rd_date_valid:
  assumes "ns_dt_rd_date p = Some ((y, m, d), r)"
  shows "valid_date (y, m, d)" "1 \<le> y" "y \<le> ns_dt_max_year"
  using assms by (auto simp: ns_dt_rd_date_def valid_date_def bind_eq_Some_conv split: if_splits)

lemma rd_fraction_print:
  assumes "0 \<le> f" "f < 1000"
  shows "rd_fraction (print_int 3 f) = Some (f, [])"
proof -
  note pd = print_int_digits [OF assms(1), of 3]
  have l: "length (print_int 3 f) = 3" using pd(3) print_int_length [of f 3 3] assms by simp
  have "takeWhile ascii_isdigit (print_int 3 f) = print_int 3 f"
    unfolding takeWhile_eq_all_conv using pd(1) by (simp add: list_all_iff)
  then have "take 3 (takeWhile ascii_isdigit (print_int 3 f)) = print_int 3 f" by (simp only:) (simp add: l)
  then show ?thesis using l pd(2) assms(1) by (simp only: rd_fraction_def Let_def) (simp add: l)
qed

lemma rd_fraction_range:
  assumes "rd_fraction p = Some (f, r)"
  shows "0 \<le> f" "f < 1000"
proof -
  define ds where "ds = take 3 (takeWhile ascii_isdigit p)"
  have l: "length ds \<le> 3" by (simp add: ds_def)
  have f: "f = int (digits_value 0 ds) * 10 ^ (3 - length ds)"
    using assms by (simp add: rd_fraction_def Let_def ds_def split: if_splits)
  then show "0 \<le> f" by simp
  have "digits_value 0 ds * 10 ^ (3 - length ds) < 10 ^ length ds * 10 ^ (3 - length ds)"
    using digits_value_bound [of 0 ds] by simp
  also have "(10 :: nat) ^ length ds * 10 ^ (3 - length ds) = 1000" using l by (simp flip: power_add)
  finally have "int (digits_value 0 ds * 10 ^ (3 - length ds)) < int 1000" by (rule of_nat_less_iff [THEN iffD2])
  then show "f < 1000" by (simp add: f)
qed

lemma rd_seconds_range:
  assumes "rd_seconds p = Some (se, f, r)"
  shows "0 \<le> se" "0 \<le> f" "f < 1000"
  using assms
  by (auto simp: rd_seconds_def bind_eq_Some_conv split: option.splits dest: rd_digits_range(1) rd_fraction_range)

lemma rd_time_range:
  assumes "ns_dt_rd_time p = Some (ms, r)"
  shows "0 \<le> ms" "ms < 86400000"
proof -
  obtain h p1 p2 mi p3 se f p4 where rd: "ns_dt_rd_digits p 2 2 = Some (h, p1)" "ns_dt_rd_digits p2 2 2 = Some (mi, p3)"
      "rd_seconds p3 = Some (se, f, p4)"
    and ms: "ms = ((h * 60 + mi) * 60 + se) * 1000 + f" and lim: "h \<le> 23" "mi \<le> 59" "se \<le> 59"
    using assms by (fastforce simp: ns_dt_rd_time_def bind_eq_Some_conv split: if_splits)
  have b: "0 \<le> h" "h \<le> 23" "0 \<le> mi" "mi \<le> 59" "0 \<le> se" "se \<le> 59" "0 \<le> f" "f < 1000"
    using rd_digits_range(1) [OF rd(1)] rd_digits_range(1) [OF rd(2)] rd_seconds_range [OF rd(3)] lim by simp_all
  have "h * 60 + mi \<le> 1439" using b by simp
  then have "(h * 60 + mi) * 60 + se \<le> 86399" using b by simp
  then show "ms < 86400000" using b by (simp add: ms)
  show "0 \<le> ms" using b by (simp add: ms)
qed

lemma rd_seconds_print:
  assumes "0 \<le> se" "se < 60" "0 \<le> fr" "fr < 1000"
  shows "rd_seconds (if fr \<noteq> 0 then '':'' @ print_int 2 se @ ''.'' @ print_int 3 fr
      else if se \<noteq> 0 then '':'' @ print_int 2 se else []) = Some (se, fr, [])"
  using assms rd_two [of se "[]"] by (simp add: rd_seconds_def rd_two rd_fraction_print)

lemma append_time_split:
  "ns_append_time_ms t =
     (let ms = t mod 86400000; se = ms mod 60000 div 1000; fr = ms mod 1000
      in print_int 2 (ms div 3600000) @ CHR '':'' # print_int 2 (ms mod 3600000 div 60000)
         @ (if fr \<noteq> 0 then '':'' @ print_int 2 se @ ''.'' @ print_int 3 fr
            else if se \<noteq> 0 then '':'' @ print_int 2 se else []))"
proof -
  define ms where "ms = t mod 86400000"
  have fm: "ns_dt_floormod t 86400000 = ms" unfolding ms_def by (rule floor_division) simp
  have m: "ms mod 3600000 mod 60000 = ms mod 60000" "ms mod 60000 mod 1000 = ms mod 1000"
    by (simp_all add: mod_mod_cancel)
  define h mi se fr where "h = ms div 3600000" and "mi = ms mod 3600000 div 60000" and "se = ms mod 60000 div 1000"
    and "fr = ms mod 1000"
  show ?thesis
    unfolding ns_append_time_ms_def Let_def fm m ms_def [symmetric]
      h_def [symmetric] mi_def [symmetric] se_def [symmetric] fr_def [symmetric] by simp
qed

lemma time_print:
  assumes "0 \<le> t" "t < 86400000"
  shows "ns_dt_rd_time (ns_append_time_ms t) = Some (t, [])"
proof -
  define h mi se fr where "h = t div 3600000" and "mi = t mod 3600000 div 60000" and "se = t mod 60000 div 1000"
    and "fr = t mod 1000"
  have bound: "0 \<le> a div b" "a div b < c" if "0 \<le> a" "a < b * c" "0 < b" for a b c :: int
  proof -
    show "0 \<le> a div b" using that by (simp add: pos_imp_zdiv_nonneg_iff)
    show "a div b < c"
    proof (rule ccontr)
      assume "\<not> a div b < c"
      then have "b * c \<le> b * (a div b)" using that(3) by simp
      also have "\<dots> \<le> a" using that(3) by (metis minus_mod_eq_mult_div pos_mod_sign diff_le_eq le_add_same_cancel1)
      finally show False using that(2) by simp
    qed
  qed
  have r: "0 \<le> h" "h < 24" unfolding h_def using bound [of t 3600000 24] assms by simp_all
  have r2: "0 \<le> mi" "mi < 60" unfolding mi_def using bound [of "t mod 3600000" 60000 60] by simp_all
  have r3: "0 \<le> se" "se < 60" unfolding se_def using bound [of "t mod 60000" 1000 60] by simp_all
  have r4: "0 \<le> fr" "fr < 1000" by (simp_all add: fr_def)
  have "t = 3600000 * h + t mod 3600000" unfolding h_def by (rule mult_div_mod_eq [symmetric])
  moreover have "t mod 3600000 = 60000 * mi + t mod 60000"
    using mult_div_mod_eq [of 60000 "t mod 3600000"] by (simp add: mi_def mod_mod_cancel)
  moreover have "t mod 60000 = 1000 * se + fr"
    using mult_div_mod_eq [of 1000 "t mod 60000"] by (simp add: se_def fr_def mod_mod_cancel)
  ultimately have "t = 3600000 * h + (60000 * mi + (1000 * se + fr))" by (simp only:)
  then have t: "((h * 60 + mi) * 60 + se) * 1000 + fr = t" by simp
  have day: "t mod 86400000 = t" using assms by simp
  have "ns_append_time_ms t = print_int 2 h @ CHR '':'' # print_int 2 mi @ (if fr \<noteq> 0 then '':'' @ print_int 2 se @ ''.'' @ print_int 3 fr
      else if se \<noteq> 0 then '':'' @ print_int 2 se else [])" (is "_ = _ @ _ # _ @ ?secs")
    unfolding append_time_split day Let_def h_def mi_def se_def fr_def ..
  then show ?thesis
    unfolding ns_dt_rd_time_def using rd_two [of h "CHR '':'' # print_int 2 mi @ ?secs"] rd_two [of mi ?secs]
      rd_seconds_print [OF r3 r4] r r2 r3 t by (simp del: append_assoc)
qed

section \<open>Properties\<close>

lemma day_lower:
  assumes "1 \<le> y"
  shows "- 719162 \<le> year_days (y - 1) - 719162"
proof -
  have "year_days 0 \<le> year_days (y - 1)" using assms by (intro year_days_mono) simp
  moreover have "year_days 0 = 0" by (simp add: year_days_def)
  ultimately show ?thesis by linarith
qed

text \<open>A year that inputs accept, and a number of milliseconds that they print.\<close>

lemma input_narrow:
  assumes "1 \<le> y" "y \<le> ns_dt_max_year"
  shows "week_year y" "1 \<le> m \<Longrightarrow> m \<le> 12 \<Longrightarrow> 1 \<le> d \<Longrightarrow> d \<le> ns_dt_days_in_month y m
      \<Longrightarrow> ns_dt_days_from_civil y m d = civil_days y m d"
  using assms days_narrow [of y m d] days_in_month_31 [of y m]
  by (simp_all add: week_year_def year_fits_def ns_dt_max_year_def)

lemma input_days_date: "- 719200 \<le> z \<Longrightarrow> z \<le> 100000003 \<Longrightarrow> ns_dt_civil_from_days z = civil_date z"
  by (rule civil_narrow(1)) (simp add: day_fits_def)

lemma input_date:
  assumes "valid_date (y, m, d)" "1 \<le> y" "y \<le> ns_dt_max_year"
    and "v = ns_dt_days_from_civil y m d * 86400000" "v \<le> 8640000000000000"
  shows "\<exists>s. ns_input_ms_to_value NdinDate v = Some s \<and> ns_input_value_to_ms NdinDate s False = Some v"
proof -
  have v: "v = civil_days y m d * 86400000"
    using input_narrow(2) [OF assms(2,3), of m d] assms(1,4) by (simp add: valid_date_def)
  have low: "- 719162 \<le> civil_days y m d"
    using day_lower [OF assms(2)] in_year(1) [of m d y] assms(1) by (simp add: valid_date_def)
  moreover have "civil_days y m d \<le> 100000000" using assms(5) v by linarith
  ultimately have "ns_dt_civil_from_days (v div 86400000) = (y, m, d)"
    using civil_from_days_from_civil [of m d y] input_days_date [of "civil_days y m d"] assms(1) v by (simp add: valid_date_def)
  moreover have "- 8640000000000000 \<le> v" using low v by linarith
  ultimately show ?thesis using rd_date_print [OF assms(1-3), of "[]"] assms(4,5)
    by (simp add: ns_input_ms_to_value_def ns_input_value_to_ms_def at_end_def)
qed

lemma input_month:
  assumes "1 \<le> y" "y \<le> ns_dt_max_year" "1 \<le> m" "m \<le> 12" "v = (y - 1970) * 12 + (m - 1)"
  shows "\<exists>s. ns_input_ms_to_value NdinMonth v = Some s \<and> ns_input_value_to_ms NdinMonth s False = Some v"
proof -
  have "v div 12 = y - 1970" "v mod 12 = m - 1" unfolding assms(5) using assms(3,4)
    by (auto intro!: int_div_pos_eq [where r = "m - 1"] int_mod_pos_eq [where q = "y - 1970"])
  then show ?thesis using rd_two [of m "[]"] assms
    by (simp add: ns_input_ms_to_value_def ns_input_value_to_ms_def floor_division rd_year at_end_def ns_dt_max_year_def)
qed

lemma input_week:
  assumes "1 \<le> y" "y \<le> ns_dt_max_year" "1 \<le> w" "w \<le> ns_dt_iso_weeks_in_year y"
    and "v = (ns_dt_iso_week1_monday y + (w - 1) * 7) * 86400000" "v \<le> 8640000000000000"
  shows "\<exists>s. ns_input_ms_to_value NdinWeek v = Some s \<and> ns_input_value_to_ms NdinWeek s False = Some v"
proof -
  define monday where "monday = ns_dt_iso_week1_monday y + (w - 1) * 7"
  have v: "v = monday * 86400000" by (simp add: assms(5) monday_def)
  note wy = input_narrow(1) [OF assms(1,2)]
  have low: "- 719165 \<le> monday"
    using week1_bounds(2) [of y] week_year_fits [OF wy] day_lower [OF assms(1)] assms(3) by (simp add: monday_def)
  moreover have "monday \<le> 100000000" using assms(6) v by linarith
  moreover have "fst (civil_date (monday + 3)) = y" unfolding monday_def by (rule thursday_year [OF wy assms(3,4)])
  moreover have "- 8640000000000000 \<le> v" using low v by linarith
  moreover have "(monday - ns_dt_iso_week1_monday y) sdiv 7 + 1 = w" using assms(3) by (simp add: monday_def sdiv_pos)
  moreover have "monday - ns_dt_iso_week1_monday y = (w - 1) * 7" by (simp add: monday_def)
  moreover have "w < 100" using assms(4) by (simp add: ns_dt_iso_weeks_in_year_def Let_def split: if_splits)
  ultimately show ?thesis using rd_two [of w "[]"] rd_year [of y "CHR ''W'' # print_int 2 w"] assms(1-4,6)
    input_days_date [of "monday + 3"]
    by (simp add: ns_input_ms_to_value_def ns_input_value_to_ms_def v at_end_def ns_dt_max_year_def Let_def)
qed

lemma input_time:
  assumes "0 \<le> v" "v < 86400000"
  shows "\<exists>s. ns_input_ms_to_value NdinTime v = Some s \<and> ns_input_value_to_ms NdinTime s False = Some v"
  using assms by (simp add: ns_input_ms_to_value_def ns_input_value_to_ms_def time_print at_end_def)

lemma input_datetime:
  assumes "valid_date (y, m, d)" "1 \<le> y" "y \<le> ns_dt_max_year" "0 \<le> t" "t < 86400000"
    and "v = ns_dt_days_from_civil y m d * 86400000 + t" "v \<le> 8640000000000000"
  shows "\<exists>s. ns_input_ms_to_value NdinDatetime v = Some s \<and> ns_input_value_to_ms NdinDatetime s False = Some v"
proof -
  have n: "ns_dt_days_from_civil y m d = civil_days y m d"
    using input_narrow(2) [OF assms(2,3), of m d] assms(1) by (simp add: valid_date_def)
  have low: "- 719162 \<le> civil_days y m d"
    using day_lower [OF assms(2)] in_year(1) [of m d y] assms(1) by (simp add: valid_date_def)
  have days: "v div 86400000 = ns_dt_days_from_civil y m d" unfolding assms(6) using assms(4,5) by simp
  have t: "v - ns_dt_days_from_civil y m d * 86400000 = t" "ns_dt_days_from_civil y m d * 86400000 + t = v"
    "- 8640000000000000 \<le> v" using assms(4,6) low n by simp_all
  have "civil_days y m d \<le> 100000000" using assms(4,6,7) n by linarith
  then have "ns_dt_civil_from_days (ns_dt_days_from_civil y m d) = (y, m, d)"
    using civil_from_days_from_civil [of m d y] input_days_date [of "civil_days y m d"] low assms(1) n
    by (simp add: valid_date_def)
  then show ?thesis
    using rd_date_print [OF assms(1-3), of "CHR ''T'' # ns_append_time_ms t"] time_print [OF assms(4,5)] t assms(7)
    by (simp add: ns_input_ms_to_value_def ns_input_value_to_ms_def at_end_def days t(1) Let_def
        del: diff_eq_eq eq_diff_eq)
qed

lemma at_end_Some: "at_end r = Some v \<longleftrightarrow> r = Some (v, [])"
  by (auto simp: at_end_def split: option.splits list.splits)

text \<open>(C20) The calendar of \<open>datetime.c\<close>: day 0 is 1 January 1970; the day after a date of the
  proleptic Gregorian calendar (\<open>valid_date\<close>, \<open>next_date\<close>) has the next number; converting a
  date to its day and back gives the date, and a day number, before or after the epoch, is
  converted to a valid date with that number. Years are of type \<open>int\<close>: this holds for dates
  of the years -2147483000 to 2147483000 whose day numbers are within 784000000000 of the
  epoch, and for those day numbers; beyond, the year of a day is cut to 32 bits (the lemma
  \<open>far_days_wrap\<close>).\<close>

theorem civil_calendar:
  "ns_dt_days_from_civil 1970 1 1 = 0
   \<and> (\<forall>x. valid_date x \<and> year_fits (fst x) \<and> year_fits (fst x + 1)
        \<longrightarrow> valid_date (next_date x) \<and> day_number (next_date x) = day_number x + 1
          \<and> (day_fits (day_number x) \<longrightarrow> ns_dt_civil_from_days (day_number x) = x))
   \<and> (\<forall>z. day_fits z \<longrightarrow> valid_date (ns_dt_civil_from_days z) \<and> day_number (ns_dt_civil_from_days z) = z)"
proof (intro conjI allI impI; (elim conjE)?)
  show "ns_dt_days_from_civil 1970 1 1 = 0"
    using epoch day_number_narrow [of "(1970, 1, 1)"] by (simp add: day_number_def year_fits_def)
  fix x
  assume x: "valid_date x" "year_fits (fst x)" "year_fits (fst x + 1)"
  show v: "valid_date (next_date x)" by (rule valid_next [OF x(1)])
  have "year_fits (fst (next_date x))" using x(2,3) by (cases x) (simp add: next_date_def)
  then show "day_number (next_date x) = day_number x + 1"
    using civil_index_next [OF x(1)] day_number_narrow v x(1,2) by simp
  show "ns_dt_civil_from_days (day_number x) = x" if "day_fits (day_number x)"
    using that civil_narrow(1) civil_from_days_from_civil day_number_narrow [OF x(1,2)] x(1)
    by (cases x) (simp add: valid_date_def civil_index_def)
next
  fix z
  assume z: "day_fits z"
  obtain y m d where c: "civil_date z = (y, m, d)" "valid_date (y, m, d)" "civil_days y m d = z"
    by (rule days_from_civil_from_days [of z])
  then show "valid_date (ns_dt_civil_from_days z)" "day_number (ns_dt_civil_from_days z) = z"
    using civil_narrow [OF z] day_number_narrow [of "(y, m, d)"] by (simp_all add: civil_index_def)
qed

theorem civil_calendar_witness:
  "day_number (2000, 3, 1) = day_number (2000, 2, 29) + 1 \<and> ns_dt_civil_from_days (day_number (2000, 2, 29)) = (2000, 2, 29)"
proof -
  have v: "valid_date (2000, 2, 29)" "next_date (2000, 2, 29) = (2000, 3, 1)" "year_fits (fst (2000, 2, 29))"
    "year_fits (fst (2000, 2, 29) + 1)" "day_fits (day_number (2000, 2, 29))" by code_simp+
  show ?thesis using civil_calendar v by metis
qed

text \<open>A duration of \<open>10^15\<close> days leads from 1970 to a date whose year has lost its upper bits; and
  for a year before 1 the remainder of a division is negative, so that the 53 weeks of
  year -2 are counted as 52.\<close>

lemma far_days_wrap: "ns_dt_civil_from_days 1000000000000000 = (2012841406, 7, 5)"
proof -
  have z: "c_long (1000000000000000 + 719468) = 1000000000719468" by simp
  have era: "(1000000000719468 :: int) sdiv 146097 = 6844767522" by (simp add: sdiv_pos)
  have doe: "c_unsigned (1000000000719468 - 6844767522 * 146097) = 57834" by simp
  have yoe: "((57834 :: int) - 57834 div 1460 + 57834 div 36524 - 57834 div 146096) div 365 = 158" by simp
  have yy: "c_int (c_int 158 + c_int (6844767522 * 400)) = 2012841406" by (simp add: c_int_def)
  have if0: "(if 0 \<le> (1000000000719468 :: int) then 1000000000719468 else c) = 1000000000719468" for c by simp
  show ?thesis
    unfolding ns_dt_civil_from_days_def Let_def z if0 era doe yoe yy by simp
qed

lemma far_duration_wraps: "tmp_add_date (1970, 1, 1) 0 0 0 1000000000000000 1 = (2012841406, 7, 5)"
proof -
  have "ns_dt_days_from_civil 1970 1 1 = 0" by code_simp
  moreover have "c_int (c_int (1970 + c_int (1 * 0)) + c_int ((if 0 \<le> c_long (1 - 1 + c_long (1 * 0)) then c_long (1 - 1 + c_long (1 * 0))
      else c_long (c_long (1 - 1 + c_long (1 * 0)) - 11)) sdiv 12)) = 1970" by code_simp
  moreover have "c_int (ns_dt_floormod (c_long (1 - 1 + c_long (1 * 0))) 12) + 1 = 1" by code_simp
  moreover have "(if ns_dt_days_in_month 1970 1 < 1 then ns_dt_days_in_month 1970 1 else 1) = 1" by code_simp
  moreover have "c_long (0 + c_long (1 * c_long (0 * 7 + 1000000000000000))) = 1000000000000000" by simp
  ultimately show ?thesis
    unfolding tmp_add_date_def Let_def by (simp only: prod.case far_days_wrap)
qed

lemma weeks_of_negative_years:
  "ns_dt_iso_weeks_in_year (- 2) = 52" "ns_dt_iso_week1_monday (- 1) = ns_dt_iso_week1_monday (- 2) + 7 * 53"
  by code_simp+

text \<open>(C23) ISO week dates of the years 2 to 899999999: the week and the day of the week that the
  code gives to a date name that date. Week 1 of a year begins on the Monday on or before
  4 January, the weeks that \<open>ns_dt_iso_weeks_in_year\<close> counts fill the time up to week 1 of the
  next year, and \<open>tmp_week_of_year\<close> with \<open>tmp_iso_dow\<close> is the position of the date in the weeks
  of its ISO year, which may be the year before or after. For years below 0 the function would
  miscount the weeks (the lemma \<open>weeks_of_negative_years\<close>); its callers ask only for years
  from 1 on.\<close>

theorem iso_week_date:
  assumes "1 < y" "y < 900000000" "valid_date (y, m, d)"
  shows "((ns_dt_iso_week1_monday y + 3) mod 7 = 0 \<and> ns_dt_iso_week1_monday y \<le> ns_dt_days_from_civil y 1 4
      \<and> ns_dt_days_from_civil y 1 4 < ns_dt_iso_week1_monday y + 7)
    \<and> ns_dt_iso_week1_monday (y + 1) = ns_dt_iso_week1_monday y + 7 * ns_dt_iso_weeks_in_year y
    \<and> (\<exists>iso \<in> {y - 1, y, y + 1}.
       ns_dt_days_from_civil y m d
         = ns_dt_iso_week1_monday iso + 7 * (tmp_week_of_year y m d - 1) + (tmp_iso_dow y m d - 1)
       \<and> 1 \<le> tmp_week_of_year y m d \<and> tmp_week_of_year y m d \<le> ns_dt_iso_weeks_in_year iso
       \<and> 1 \<le> tmp_iso_dow y m d \<and> tmp_iso_dow y m d \<le> 7)"
  using week1_monday [of y] weeks_tile [of y] iso_date [OF assms] assms(1,2) by (simp add: week_year_def)

theorem iso_week_date_witness:
  "\<exists>iso \<in> {2020, 2021, 2022}. ns_dt_days_from_civil 2021 1 3 = ns_dt_iso_week1_monday iso + 7 * 52 + 6"
proof -
  have v: "valid_date (2021, 1, 3)" "tmp_week_of_year 2021 1 3 = 53" "tmp_iso_dow 2021 1 3 = 7" by code_simp+
  show ?thesis using iso_week_date [of 2021 1 3] v by auto
qed

text \<open>(C22) The values of date, month, week, time and date-time inputs: the number that a value
  stands for (\<open>ns_input_value_to_ms\<close>), as long as it is within the range of script times, is
  printed again (\<open>ns_input_ms_to_value\<close>) as a value that stands for the same number.\<close>

theorem input_value_roundtrip:
  assumes "ns_input_value_to_ms kind s False = Some v" "v \<le> 8640000000000000"
  shows "\<exists>s'. ns_input_ms_to_value kind v = Some s' \<and> ns_input_value_to_ms kind s' False = Some v"
proof (cases kind)
  case NdinOther
  then show ?thesis using assms(1) by (simp add: ns_input_value_to_ms_def)
next
  case NdinDate
  then obtain y m d where "ns_dt_rd_date s = Some ((y, m, d), [])" "v = ns_dt_days_from_civil y m d * 86400000"
    using assms(1) by (auto simp: ns_input_value_to_ms_def at_end_Some)
  then show ?thesis using rd_date_valid input_date assms(2) NdinDate by blast
next
  case NdinMonth
  then obtain y p1 p2 m where "ns_dt_rd_digits s 4 9 = Some (y, p1)" "expect (CHR ''-'') p1 = Some p2"
      "at_end (ns_dt_rd_digits p2 2 2) = Some m"
    using assms(1) by (auto simp: ns_input_value_to_ms_def bind_eq_Some_conv)
  then have "1 \<le> y" "y \<le> ns_dt_max_year" "1 \<le> m" "m \<le> 12" "v = (y - 1970) * 12 + (m - 1)"
    using assms(1) NdinMonth by (simp_all add: ns_input_value_to_ms_def split: if_splits)
  then show ?thesis using input_month NdinMonth by blast
next
  case NdinWeek
  then obtain y p1 p2 p3 w where "ns_dt_rd_digits s 4 9 = Some (y, p1)" "expect (CHR ''-'') p1 = Some p2"
      "expect (CHR ''W'') p2 = Some p3" "at_end (ns_dt_rd_digits p3 2 2) = Some w"
    using assms(1) by (auto simp: ns_input_value_to_ms_def bind_eq_Some_conv)
  then have "1 \<le> y" "y \<le> ns_dt_max_year" "1 \<le> w" "w \<le> ns_dt_iso_weeks_in_year y"
      "v = (ns_dt_iso_week1_monday y + (w - 1) * 7) * 86400000"
    using assms(1) NdinWeek by (simp_all add: ns_input_value_to_ms_def split: if_splits)
  then show ?thesis using input_week assms(2) NdinWeek by blast
next
  case NdinTime
  then show ?thesis using assms(1) rd_time_range input_time
    by (auto simp: ns_input_value_to_ms_def [of _ s] at_end_Some)
next
  case NdinDatetime
  then obtain y m d p t q where dt: "ns_dt_rd_date s = Some ((y, m, d), p)" "ns_dt_rd_time q = Some (t, [])"
      "v = ns_dt_days_from_civil y m d * 86400000 + t"
    using assms(1) by (auto simp: ns_input_value_to_ms_def at_end_Some bind_eq_Some_conv)
  then show ?thesis using input_datetime [OF rd_date_valid [OF dt(1)] rd_time_range [OF dt(2)] dt(3) assms(2)] NdinDatetime by simp
qed

theorem input_value_roundtrip_witness:
  "\<exists>s'. ns_input_ms_to_value NdinDatetime 951827696500 = Some s'
     \<and> ns_input_value_to_ms NdinDatetime s' False = Some 951827696500"
proof -
  have "ns_input_value_to_ms NdinDatetime ''2000-02-29 12:34:56.5'' False = Some 951827696500" by code_simp
  from input_value_roundtrip [OF this] show ?thesis by simp
qed

end
