(* ===== verification/Xml_Parse.thy ===== *)
theory Xml_Parse
  imports Dom_Find
begin

text \<open>
  The XML parser (\<open>src/src/xml.c\<close>) and the XML serializer of \<open>src/src/dom.c\<close>
  (\<open>xml_serialize_node\<close>). The parser state is the unread input \<open>xp->p .. xp->end\<close> and the
  stack of namespace bindings, newest last; every error stops the parser at the input it
  has reached. The document it builds is a tree of nodes: each node is appended once, as the
  last child of the node under construction.
\<close>

datatype xml_tree = XmlTree ns_node "xml_tree list"

datatype xml_stop = XmlErr string | XmlFuel

definition xml_ns_xml :: string where "xml_ns_xml = ''http://www.w3.org/XML/1998/namespace''"
definition xml_ns_xmlns :: string where "xml_ns_xmlns = ''http://www.w3.org/2000/xmlns/''"
definition xml_ns_xhtml :: string where "xml_ns_xhtml = ''http://www.w3.org/1999/xhtml''"
definition xml_ns_svg :: string where "xml_ns_svg = ''http://www.w3.org/2000/svg''"
definition xml_max_depth :: nat where "xml_max_depth = 256"

section \<open>Names and character data\<close>

definition xml_is_space :: "char \<Rightarrow> bool" where
  "xml_is_space c = (c = SP \<or> c = HT \<or> c = LF \<or> c = CR)"

definition xml_skip_space :: "string \<Rightarrow> string" where
  "xml_skip_space s = dropWhile xml_is_space s"

definition xml_name_char :: "char \<Rightarrow> bool \<Rightarrow> bool" where
  "xml_name_char c first =
     (if c = CHR '':'' \<or> c = CHR ''_'' then True
      else if ascii_isalpha c then True
      else if 128 \<le> code c then True
      else if first then False
      else if c = CHR ''-'' \<or> c = CHR ''.'' then True
      else ascii_isdigit c)"

definition xml_read_name :: "string \<Rightarrow> (string \<times> string) option" where
  "xml_read_name s =
     (case s of [] \<Rightarrow> None
      | c # r \<Rightarrow> if xml_name_char c True
                then Some (c # takeWhile (\<lambda>x. xml_name_char x False) r, dropWhile (\<lambda>x. xml_name_char x False) r)
                else None)"

text \<open>The text before the first occurrence of \<open>pat\<close>, and what follows it.\<close>

fun split_at :: "string \<Rightarrow> string \<Rightarrow> (string \<times> string) option" where
  "split_at pat [] = None"
| "split_at pat (c # cs) =
     (if starts_with pat (c # cs) then Some ([], drop (length pat) (c # cs))
      else map_option (\<lambda>(a, b). (c # a, b)) (split_at pat cs))"

definition xml_append_codepoint :: "nat \<Rightarrow> string" where
  "xml_append_codepoint cp =
     (if cp = 0 \<or> 0x10FFFF < cp \<or> (0xD800 \<le> cp \<and> cp \<le> 0xDFFF) then [CHR 0xEF, CHR 0xBF, CHR 0xBD]
      else unichar_to_utf8 cp)"

text \<open>\<open>g_ascii_strtoull\<close>: white space, a sign, for base 16 an optional prefix \<open>0x\<close>, and
  digits; a value above 64 bits is capped, a negative one negated as an unsigned number.\<close>

definition digit_of :: "char \<Rightarrow> nat" where
  "digit_of c = (if ascii_isdigit c then code c - 48 else if ascii_isupper c then code c - 55
     else if ascii_islower c then code c - 87 else 36)"

definition ascii_strtoull :: "nat \<Rightarrow> string \<Rightarrow> nat" where
  "ascii_strtoull base s =
     (let t = dropWhile ascii_isspace s;
          neg = starts_with ''-'' t;
          t1 = (if neg \<or> starts_with ''+'' t then tl t else t);
          t2 = (if base = 16 \<and> (starts_with ''0x'' t1 \<or> starts_with ''0X'' t1) then drop 2 t1 else t1);
          v = foldl (\<lambda>acc c. acc * base + digit_of c) 0 (takeWhile (\<lambda>c. digit_of c < base) t2);
          u = min v (2 ^ 64 - 1)
      in if neg then (2 ^ 64 - u) mod 2 ^ 64 else u)"

definition xml_entity :: "string \<Rightarrow> cptr" where
  "xml_entity e =
     (if e = ''amp'' then Some ''&'' else if e = ''lt'' then Some ''<'' else if e = ''gt'' then Some ''>''
      else if e = ''quot'' then Some [DQ] else if e = ''apos'' then Some [SQ]
      else if e = ''nbsp'' then Some [CHR 0xC2, CHR 0xA0] else None)"

lemma split_at_length: "split_at pat s = Some (a, b) \<Longrightarrow> pat \<noteq> [] \<Longrightarrow> length b < length s"
  by (induction s arbitrary: a b) (auto split: if_splits)

function xml_decode :: "string \<Rightarrow> string" where
  "xml_decode [] = []"
| "xml_decode (c # cs) =
     (if c \<noteq> CHR ''&'' then c # xml_decode cs
      else case split_at '';'' cs of None \<Rightarrow> c # xml_decode cs
      | Some (e, r) \<Rightarrow>
        if e = [] then c # xml_decode cs
        else if hd e = CHR ''#'' then
          xml_append_codepoint (if 2 \<le> length e \<and> (e ! 1 = CHR ''x'' \<or> e ! 1 = CHR ''X'')
                                then ascii_strtoull 16 (drop 2 e) else ascii_strtoull 10 (drop 1 e))
          @ xml_decode r
        else (case xml_entity e of Some t \<Rightarrow> t @ xml_decode r | None \<Rightarrow> CHR ''&'' # xml_decode cs))"
  by pat_completeness auto
termination
  by (relation "measure length") (auto dest: split_at_length)

definition xml_decode_text :: "string \<Rightarrow> string" where
  "xml_decode_text s = until_nul (xml_decode s)"

section \<open>Namespaces\<close>

type_synonym xml_bindings = "(cptr \<times> string) list"

definition xml_lookup_prefix :: "xml_bindings \<Rightarrow> cptr \<Rightarrow> cptr" where
  "xml_lookup_prefix st prefix =
     (if prefix = Some ''xml'' then Some xml_ns_xml
      else if prefix = Some ''xmlns'' then Some xml_ns_xmlns
      else map_option snd (find (\<lambda>b. fst b = prefix) (rev st)))"

definition xml_push_binding :: "xml_bindings \<Rightarrow> cptr \<Rightarrow> cptr \<Rightarrow> xml_bindings" where
  "xml_push_binding st prefix uri =
     st @ [(case prefix of None \<Rightarrow> None | Some p \<Rightarrow> if p = [] then None else Some p,
            case uri of None \<Rightarrow> [] | Some u \<Rightarrow> u)]"

definition before_colon :: "string \<Rightarrow> cptr" where
  "before_colon q = (if CHR '':'' \<in> set q then Some (takeWhile (\<lambda>c. c \<noteq> CHR '':'') q) else None)"

definition after_colon :: "string \<Rightarrow> string" where
  "after_colon q = tl (dropWhile (\<lambda>c. c \<noteq> CHR '':'') q)"

definition add_flags :: "ns_node_flag set \<Rightarrow> ns_node \<Rightarrow> ns_node" where
  "add_flags fs n = n\<lparr>nd_flags := nd_flags n \<union> fs\<rparr>"

definition xml_apply_namespace :: "ns_node \<Rightarrow> string \<Rightarrow> cptr \<Rightarrow> ns_node" where
  "xml_apply_namespace el0 qname uri =
     (let el = add_flags {FlagKeepCase} el0
      in if uri = Some xml_ns_xhtml then
           (case before_colon qname of None \<Rightarrow> el
            | Some p \<Rightarrow> ns_element_set_attr el ''data-nd-ns-prefix'' (Some p))
         else
           let el1 = (if uri = Some xml_ns_svg then add_flags {FlagSvgNs} el else add_flags {FlagForeignNs} el)
           in case uri of None \<Rightarrow> el1
              | Some u \<Rightarrow> if u = [] then el1 else ns_element_set_attr el1 ''data-nd-ns-uri'' (Some u))"

section \<open>Attributes\<close>

text \<open>One attribute: its name and decoded value.\<close>

definition xml_attribute :: "string \<Rightarrow> xml_stop + ((string \<times> string) \<times> string)" where
  "xml_attribute p =
     (case xml_read_name p of None \<Rightarrow> Inl (XmlErr p)
      | Some (aname, p1) \<Rightarrow>
        let p2 = xml_skip_space p1 in
        if p2 = [] \<or> hd p2 \<noteq> CHR ''='' then Inl (XmlErr p2)
        else
          let p3 = xml_skip_space (tl p2) in
          if p3 = [] \<or> (hd p3 \<noteq> DQ \<and> hd p3 \<noteq> SQ) then Inl (XmlErr p3)
          else
            let q = hd p3; v = takeWhile (\<lambda>c. c \<noteq> q) (tl p3); p4 = dropWhile (\<lambda>c. c \<noteq> q) (tl p3) in
            if p4 = [] then Inl (XmlErr []) else Inr ((aname, xml_decode_text v), tl p4))"

definition xml_declare :: "xml_bindings \<Rightarrow> string \<times> string \<Rightarrow> xml_bindings" where
  "xml_declare st a =
     (if fst a = ''xmlns'' then xml_push_binding st None (Some (snd a))
      else if starts_with ''xmlns:'' (fst a) then xml_push_binding st (Some (drop 6 (fst a))) (Some (snd a))
      else st)"

lemma xml_skip_space_length: "length (xml_skip_space s) \<le> length s"
  by (simp add: xml_skip_space_def length_dropWhile_le)

lemma xml_read_name_length: "xml_read_name s = Some (n, r) \<Longrightarrow> length r < length s"
  by (auto simp: xml_read_name_def length_dropWhile_le less_Suc_eq_le split: list.splits if_splits)

lemma xml_attribute_length:
  assumes "xml_attribute p = Inr (a, r)"
  shows "length r < length p"
proof -
  from assms obtain n p1 q p3 where n: "xml_read_name p = Some (n, p1)"
    and p3: "xml_skip_space (tl (xml_skip_space p1)) = q # p3" and r: "r = tl (dropWhile (\<lambda>c. c \<noteq> q) p3)"
    by (auto simp: xml_attribute_def Let_def neq_Nil_conv split: option.splits if_splits)
  have "length r \<le> length p3" using length_dropWhile_le [of "\<lambda>c. c \<noteq> q" p3] by (simp add: r)
  also have "length p3 < length p"
    using xml_skip_space_length [of "tl (xml_skip_space p1)"] xml_skip_space_length [of p1] xml_read_name_length [OF n] p3
    by simp
  finally show ?thesis .
qed

function xml_parse_attributes :: "xml_bindings \<Rightarrow> string \<Rightarrow> xml_stop + ((string \<times> string) list \<times> xml_bindings \<times> string)" where
  "xml_parse_attributes st s =
     (let p = xml_skip_space s in
      if p = [] then Inl (XmlErr [])
      else if hd p = CHR ''>'' \<or> hd p = CHR ''/'' then Inr ([], st, p)
      else case xml_attribute p of Inl e \<Rightarrow> Inl e
      | Inr (a, r) \<Rightarrow>
        case xml_parse_attributes (xml_declare st a) r of Inl e \<Rightarrow> Inl e
        | Inr (as, st1, r1) \<Rightarrow> Inr (a # as, st1, r1))"
  by pat_completeness auto
termination
proof (relation "measure (length \<circ> snd)", goal_cases)
  case (2 st s p b a r)
  then show ?case using xml_attribute_length [of p a r] xml_skip_space_length [of s] by simp
qed simp

declare xml_parse_attributes.simps [simp del]

definition xml_set_attribute :: "xml_bindings \<Rightarrow> string \<times> string \<Rightarrow> ns_node \<Rightarrow> ns_node" where
  "xml_set_attribute st a el =
     (let an = fst a; av = snd a in
      if an = ''xmlns'' then ns_element_set_attr_ns el (Some xml_ns_xmlns) None ''xmlns'' (Some ''xmlns'') (Some av)
      else case before_colon an of
        Some apfx \<Rightarrow> ns_element_set_attr_ns el (xml_lookup_prefix st (Some apfx)) (Some apfx) (after_colon an) (Some an) (Some av)
      | None \<Rightarrow> ns_element_set_attr_ns el None None an (Some an) (Some av))"

definition xml_new_element :: "xml_bindings \<Rightarrow> string \<Rightarrow> (string \<times> string) list \<Rightarrow> ns_node" where
  "xml_new_element st qname attrs =
     (let el_uri = xml_lookup_prefix st (before_colon qname);
          stored = (if el_uri = Some xml_ns_xhtml \<and> CHR '':'' \<in> set qname then after_colon qname else qname);
          el = xml_apply_namespace (add_flags {FlagNotParserInserted} (ns_node_new_element stored)) qname el_uri
      in fold (xml_set_attribute st) attrs el)"

section \<open>Elements\<close>

definition xml_text_node :: "string \<Rightarrow> xml_tree" where
  "xml_text_node t = XmlTree (ns_node_new_text_len (Some (until_nul t))) []"

definition xml_cdata_node :: "string \<Rightarrow> xml_tree" where
  "xml_cdata_node t = XmlTree (add_flags {FlagCdata} (ns_node_new_text_len (Some (until_nul t)))) []"

definition ns_node_new_comment :: "string \<Rightarrow> ns_node" where
  "ns_node_new_comment t = (ns_node_new NodeComment)\<lparr>nd_text := Some (until_nul t)\<rparr>"

definition xml_comment_node :: "string \<Rightarrow> xml_tree" where
  "xml_comment_node t = XmlTree (ns_node_new_comment t) []"

text \<open>A processing instruction: the target ends at the first white space.\<close>

definition xml_pi_node :: "string \<Rightarrow> xml_tree" where
  "xml_pi_node body =
     (let target = takeWhile (\<lambda>c. \<not> xml_is_space c) body;
          data = xml_skip_space (dropWhile (\<lambda>c. \<not> xml_is_space c) body)
      in XmlTree (add_flags {FlagPi} ((ns_node_new_comment data)\<lparr>nd_name := Some (until_nul target)\<rparr>)) [])"

text \<open>The closing tag of an element.\<close>

definition xml_end_tag :: "string \<Rightarrow> string \<Rightarrow> xml_stop + string" where
  "xml_end_tag qname s =
     (let en = xml_read_name (drop 2 s);
          r = xml_skip_space (case en of None \<Rightarrow> drop 2 s | Some (n, r) \<Rightarrow> r)
      in if \<not> starts_with ''>'' r then Inl (XmlErr r)
         else if map_option fst en = Some qname then Inr (tl r)
         else Inl (XmlErr (tl r)))"

text \<open>A child that is not an element: comment, CDATA section, processing instruction, text.\<close>

definition xml_leaf :: "string \<Rightarrow> (xml_stop + (xml_tree \<times> string)) option" where
  "xml_leaf s =
     (if starts_with ''<!--'' s then
        Some (case split_at ''-->'' (drop 4 s) of None \<Rightarrow> Inl (XmlErr s) | Some (t, r) \<Rightarrow> Inr (xml_comment_node t, r))
      else if starts_with ''<![CDATA['' s then
        Some (case split_at '']]>'' (drop 9 s) of None \<Rightarrow> Inl (XmlErr s) | Some (t, r) \<Rightarrow> Inr (xml_cdata_node t, r))
      else if starts_with ''<?'' s then
        Some (case split_at ''?>'' (drop 2 s) of None \<Rightarrow> Inl (XmlErr s) | Some (t, r) \<Rightarrow> Inr (xml_pi_node t, r))
      else if starts_with ''<'' s then None
      else Some (Inr (xml_text_node (xml_decode_text (takeWhile (\<lambda>c. c \<noteq> CHR ''<'') s)),
                      dropWhile (\<lambda>c. c \<noteq> CHR ''<'') s)))"

text \<open>The start tag: the element, the name its end tag must have and the bindings, and
  whether the element has content.\<close>

definition xml_start_tag ::
    "xml_bindings \<Rightarrow> string \<Rightarrow> xml_stop + (ns_node \<times> string \<times> xml_bindings \<times> bool \<times> string)" where
  "xml_start_tag st s =
     (case xml_read_name (tl s) of None \<Rightarrow> Inl (XmlErr (tl s))
      | Some (qname, p0) \<Rightarrow>
        case xml_parse_attributes st p0 of Inl e \<Rightarrow> Inl e
        | Inr (attrs, st1, p1) \<Rightarrow>
          let el = xml_new_element st1 qname attrs;
              p2 = xml_skip_space p1
          in if starts_with ''/'' p2 then
               (if starts_with ''>'' (tl p2) then Inr (el, qname, st1, False, tl (tl p2)) else Inl (XmlErr (tl p2)))
             else if starts_with ''>'' p2 then Inr (el, qname, st1, True, tl p2)
             else Inl (XmlErr p2))"

definition xml_cons :: "xml_tree \<Rightarrow> xml_stop + (xml_tree list \<times> xml_bindings \<times> string)
    \<Rightarrow> xml_stop + (xml_tree list \<times> xml_bindings \<times> string)" where
  "xml_cons n x = (case x of Inl e \<Rightarrow> Inl e | Inr (ch, st, r) \<Rightarrow> Inr (n # ch, st, r))"

lemma xml_cons_simps [simp]:
  "xml_cons n (Inl e) = Inl e" "xml_cons n (Inr (ch, st, r)) = Inr (n # ch, st, r)"
  "xml_cons n x = Inl e \<longleftrightarrow> x = Inl e"
  "xml_cons n x = Inr (ch, st, r) \<longleftrightarrow> (\<exists>ch1. x = Inr (ch1, st, r) \<and> ch = n # ch1)"
  by (auto simp: xml_cons_def split: sum.splits)

fun xml_parse_element :: "nat \<Rightarrow> nat \<Rightarrow> xml_bindings \<Rightarrow> string \<Rightarrow> xml_stop + (xml_tree \<times> xml_bindings \<times> string)"
  and xml_parse_content :: "nat \<Rightarrow> nat \<Rightarrow> xml_bindings \<Rightarrow> string \<Rightarrow> string \<Rightarrow>
        xml_stop + (xml_tree list \<times> xml_bindings \<times> string)" where
  "xml_parse_element 0 depth st s = Inl XmlFuel"
| "xml_parse_element (Suc f) depth st s =
     (if xml_max_depth < depth then Inl (XmlErr s)
      else case xml_start_tag st s of Inl e \<Rightarrow> Inl e
      | Inr (el, qname, st1, content, p) \<Rightarrow>
        if \<not> content then Inr (XmlTree el [], take (length st) st1, p)
        else case xml_parse_content f depth st1 qname p of Inl e \<Rightarrow> Inl e
             | Inr (ch, st2, r) \<Rightarrow> Inr (XmlTree el ch, take (length st) st2, r))"
| "xml_parse_content 0 depth st qname s = Inl XmlFuel"
| "xml_parse_content (Suc f) depth st qname s =
     (if s = [] then Inr ([], st, s)
      else if starts_with ''</'' s then
        (case xml_end_tag qname s of Inl e \<Rightarrow> Inl e | Inr r \<Rightarrow> Inr ([], st, r))
      else
        case xml_leaf s of
          Some (Inl e) \<Rightarrow> Inl e
        | Some (Inr (n, r)) \<Rightarrow> xml_cons n (xml_parse_content f depth st qname r)
        | None \<Rightarrow>
          case xml_parse_element f (Suc depth) st s of Inl e \<Rightarrow> Inl e
          | Inr (n, st1, r) \<Rightarrow> xml_cons n (xml_parse_content f depth st1 qname r))"

section \<open>Documents\<close>

text \<open>The end of a document type declaration: the first \<open>>\<close> outside brackets.\<close>

fun doctype_body :: "nat \<Rightarrow> string \<Rightarrow> string \<times> string" where
  "doctype_body k [] = ([], [])"
| "doctype_body k (c # cs) =
     (if c = CHR ''['' then (let (a, b) = doctype_body (Suc k) cs in (c # a, b))
      else if c = CHR '']'' then (let (a, b) = doctype_body (k - 1) cs in (c # a, b))
      else if c = CHR ''>'' \<and> k = 0 then ([], cs)
      else (let (a, b) = doctype_body k cs in (c # a, b)))"

definition xml_doctype_node :: "string \<Rightarrow> xml_tree list" where
  "xml_doctype_node body =
     (let t = takeWhile (\<lambda>c. \<not> xml_is_space c \<and> c \<noteq> CHR ''>'' \<and> c \<noteq> CHR ''['') (xml_skip_space body)
      in if t = [] then []
         else [XmlTree ((ns_element_set_attr (ns_element_set_attr (ns_node_new_element (until_nul t))
                 ''publicId'' (Some [])) ''systemId'' (Some []))\<lparr>nd_kind := NodeDoctype\<rparr>) []])"

text \<open>White space, comments, processing instructions and document types around the root
  element: the nodes they append to the document and the input left. The XML declaration
  gives no node, and input without an end is passed over.\<close>

lemma doctype_body_length: "length (snd (doctype_body k s)) \<le> length s"
  by (induction k s rule: doctype_body.induct) (auto simp: split_beta Let_def)

text \<open>One step of the loop: the input to return with, or the nodes and the input after them.\<close>

definition xml_misc_item :: "string \<Rightarrow> string + (xml_tree list \<times> string)" where
  "xml_misc_item p =
     (if starts_with ''<?'' p then
        (case split_at ''?>'' (drop 2 p) of None \<Rightarrow> Inl []
         | Some (t, r) \<Rightarrow>
           Inr (if take 3 t = ''xml'' \<and> (length t = 3 \<or> xml_is_space (t ! 3)) then [] else [xml_pi_node t], r))
      else if starts_with ''<!--'' p then
        (case split_at ''-->'' (drop 4 p) of None \<Rightarrow> Inl [] | Some (t, r) \<Rightarrow> Inr ([xml_comment_node t], r))
      else if strncaseeq 9 p ''<!DOCTYPE'' then
        Inr (xml_doctype_node (fst (doctype_body 0 (drop 9 p))), snd (doctype_body 0 (drop 9 p)))
      else Inl p)"

lemma xml_misc_item_length:
  assumes "xml_misc_item p = Inr (ns, r)"
  shows "length r < length p"
proof -
  have p: "0 < length p" using assms by (cases p) (auto simp: xml_misc_item_def strncaseeq_def)
  have "length (snd (doctype_body 0 (drop 9 p))) \<le> length p - 9" using doctype_body_length [of 0 "drop 9 p"] by simp
  then have "length (snd (doctype_body 0 (drop 9 p))) < length p" using p by linarith
  then show ?thesis using assms p split_at_length [of "''?>''" "drop 2 p"] split_at_length [of "''-->''" "drop 4 p"]
    by (fastforce simp: xml_misc_item_def split: option.splits if_splits)
qed

function xml_skip_misc_and_doctype :: "string \<Rightarrow> xml_tree list \<times> string" where
  "xml_skip_misc_and_doctype s =
     (case xml_misc_item (xml_skip_space s) of
        Inl r \<Rightarrow> ([], r)
      | Inr (n, r) \<Rightarrow> (let (ns, r1) = xml_skip_misc_and_doctype r in (n @ ns, r1)))"
  by pat_completeness auto
termination
proof (relation "measure length", goal_cases)
  case (2 s x n r)
  then show ?case using xml_misc_item_length [of "xml_skip_space s" n r] xml_skip_space_length [of s] by simp
qed simp

declare xml_skip_misc_and_doctype.simps [simp del]

fun xml_offset_to_line_column :: "nat \<Rightarrow> nat \<Rightarrow> string \<Rightarrow> nat \<times> nat" where
  "xml_offset_to_line_column ln col [] = (ln, col)"
| "xml_offset_to_line_column ln col (c # cs) =
     (if c = LF then xml_offset_to_line_column (Suc ln) 1 cs else xml_offset_to_line_column ln (Suc col) cs)"

text \<open>Line and column of the error, or the document.\<close>

definition xml_fuel :: "string \<Rightarrow> nat" where
  "xml_fuel s = 2 * length s + 1"

definition ns_xml_parse_reporting :: "string \<Rightarrow> (nat \<times> nat) option + xml_tree" where
  "ns_xml_parse_reporting input =
     (let s = (if take 3 input = [CHR 0xEF, CHR 0xBB, CHR 0xBF] then drop 3 input else input);
          (before, p) = xml_skip_misc_and_doctype s;
          fail = (\<lambda>r. Inl (Some (xml_offset_to_line_column 1 1 (take (length input - length r) input))))
      in if \<not> starts_with ''<'' p then fail p
         else case xml_parse_element (xml_fuel p) 0 [] p of
           Inl XmlFuel \<Rightarrow> Inl None
         | Inl (XmlErr r) \<Rightarrow> fail r
         | Inr (root, st, r) \<Rightarrow>
             Inr (XmlTree ns_node_new_document (before @ [root] @ fst (xml_skip_misc_and_doctype r))))"

section \<open>The serializer\<close>

definition ns_xml_element_ns :: "ns_node \<Rightarrow> string" where
  "ns_xml_element_ns n =
     (if FlagSvgNs \<in> nd_flags n then xml_ns_svg
      else if FlagForeignNs \<in> nd_flags n then
        (case ns_element_get_attr n (Some ''data-nd-ns-uri'') of Some u \<Rightarrow> u | None \<Rightarrow> [])
      else xml_ns_xhtml)"

definition xml_escape_char :: "bool \<Rightarrow> char \<Rightarrow> string" where
  "xml_escape_char attr c =
     (if c = CHR ''&'' then ''&amp;'' else if c = CHR ''<'' then ''&lt;'' else if c = CHR ''>'' then ''&gt;''
      else if c = DQ then (if attr then ''&quot;'' else [DQ]) else [c])"

definition ns_xml_escape :: "bool \<Rightarrow> string \<Rightarrow> string" where
  "ns_xml_escape attr s = concat (map (xml_escape_char attr) (until_nul s))"

definition ns_html_is_void :: "string \<Rightarrow> bool" where
  "ns_html_is_void tag = (tag \<in> {''area'', ''base'', ''basefont'', ''bgsound'', ''br'', ''col'', ''embed'',
     ''frame'', ''hr'', ''img'', ''input'', ''keygen'', ''link'', ''meta'', ''param'', ''source'', ''track'', ''wbr''})"

text \<open>A pointer to a string, as printed.\<close>

definition cstr :: "cptr \<Rightarrow> string" where
  "cstr s = (case s of None \<Rightarrow> [] | Some t \<Rightarrow> t)"

definition xml_print_attr :: "string \<Rightarrow> string \<Rightarrow> string" where
  "xml_print_attr name value = SP # name @ ''='' @ [DQ] @ ns_xml_escape True value @ [DQ]"

definition xml_print_attrs :: "ns_attr list \<Rightarrow> string" where
  "xml_print_attrs as =
     concat (map (\<lambda>a. if ns_attr_name_is_internal (Some (at_name a)) then []
                      else xml_print_attr (at_name a) (at_value a)) as)"

definition xml_open_tag :: "ns_node \<Rightarrow> cptr \<Rightarrow> string \<Rightarrow> string" where
  "xml_open_tag n parent_ns qname =
     (let ns = ns_xml_element_ns n; prefix = cstr (ns_element_get_attr n (Some ''data-nd-ns-prefix''))
      in ''<'' @ qname
         @ (if parent_ns \<noteq> Some ns then
              (if prefix \<noteq> [] then xml_print_attr (''xmlns:'' @ prefix) ns else xml_print_attr ''xmlns'' ns)
            else [])
         @ xml_print_attrs (nd_attrs n))"

fun xml_serialize_node :: "cptr \<Rightarrow> nat \<Rightarrow> xml_tree \<Rightarrow> string"
  and xml_serialize_list :: "cptr \<Rightarrow> nat \<Rightarrow> xml_tree list \<Rightarrow> string" where
  "xml_serialize_node parent_ns depth (XmlTree n ch) =
     (if ns_dom_max_depth \<le> depth then []
      else if nd_kind n = NodeText then ns_xml_escape False (cstr (nd_text n))
      else if nd_kind n = NodeComment then
        (if FlagPi \<in> nd_flags n then
           ''<?'' @ cstr (nd_name n) @ (if cstr (nd_text n) \<noteq> [] then SP # cstr (nd_text n) else []) @ ''?>''
         else ''<!--'' @ cstr (nd_text n) @ ''-->'')
      else if nd_kind n \<noteq> NodeElement then []
      else
        let ns = ns_xml_element_ns n; prefix = cstr (ns_element_get_attr n (Some ''data-nd-ns-prefix''));
            qname = (if prefix \<noteq> [] then prefix @ '':'' else []) @ cstr (nd_name n)
        in xml_open_tag n parent_ns qname
           @ (if ch = [] then
                (if ns = xml_ns_xhtml \<and> \<not> ns_html_is_void (cstr (nd_name n)) then ''></'' @ qname @ ''>''
                 else '' />'')
              else ''>'' @ xml_serialize_list (Some ns) (Suc depth) ch @ ''</'' @ qname @ ''>''))"
| "xml_serialize_list parent_ns depth [] = []"
| "xml_serialize_list parent_ns depth (c # cs) =
     xml_serialize_node parent_ns depth c @ xml_serialize_list parent_ns depth cs"

definition ns_node_xml_outer_html :: "xml_tree \<Rightarrow> string" where
  "ns_node_xml_outer_html t = xml_serialize_node None 0 t"

section \<open>The fuel is enough\<close>

lemma xml_parse_attributes_length:
  "xml_parse_attributes st s = Inr (as, st1, r) \<Longrightarrow> length r \<le> length s"
proof (induction st s arbitrary: as st1 r rule: xml_parse_attributes.induct)
  case (1 st s)
  define p where "p = xml_skip_space s"
  have l: "length p \<le> length s" by (simp add: p_def xml_skip_space_length)
  show ?case
  proof (cases "p = [] \<or> hd p = CHR ''>'' \<or> hd p = CHR ''/''")
    case True
    then show ?thesis using 1(2) l
      by (auto simp: xml_parse_attributes.simps [of st s] Let_def simp flip: p_def split: if_splits)
  next
    case False
    then obtain a r1 as1 where a: "xml_attribute p = Inr (a, r1)" "xml_parse_attributes (xml_declare st a) r1 = Inr (as1, st1, r)"
      using 1(2) by (auto simp: xml_parse_attributes.simps [of st s] Let_def simp flip: p_def split: sum.splits)
    have "length r \<le> length r1"
      using 1(1) [of p "(a, r1)" a r1] a False by (simp add: p_def)
    then show ?thesis using xml_attribute_length [OF a(1)] l by simp
  qed
qed

lemma xml_parse_attributes_no_fuel: "xml_parse_attributes st s \<noteq> Inl XmlFuel"
proof (induction st s rule: xml_parse_attributes.induct)
  case (1 st s)
  have "xml_attribute p \<noteq> Inl XmlFuel" for p
    by (auto simp: xml_attribute_def Let_def split: option.splits if_splits)
  then show ?case using 1
    by (auto simp: xml_parse_attributes.simps [of st s] Let_def split: sum.splits if_splits)
qed

lemma xml_start_tag_length:
  assumes "xml_start_tag st s = Inr (el, q, st1, c, p)" "s \<noteq> []"
  shows "length p < length s"
proof -
  obtain p0 attrs p1 where a: "xml_read_name (tl s) = Some (q, p0)" "xml_parse_attributes st p0 = Inr (attrs, st1, p1)"
    and p: "p = tl (tl (xml_skip_space p1)) \<or> p = tl (xml_skip_space p1)"
    using assms(1) by (auto simp: xml_start_tag_def Let_def split: option.splits sum.splits if_splits)
  have "length p \<le> length p1" using p xml_skip_space_length [of p1] by auto
  then show ?thesis using xml_read_name_length [OF a(1)] xml_parse_attributes_length [OF a(2)] assms(2) by simp
qed

lemma xml_start_tag_no_fuel: "xml_start_tag st s \<noteq> Inl XmlFuel"
  using xml_parse_attributes_no_fuel
  by (auto simp: xml_start_tag_def Let_def split: option.splits sum.splits if_splits)

lemma xml_end_tag_length:
  assumes "xml_end_tag q s = Inr r" "starts_with ''</'' s"
  shows "length r < length s"
proof -
  define t where "t = (case xml_read_name (drop 2 s) of None \<Rightarrow> drop 2 s | Some (n, r) \<Rightarrow> r)"
  have "length t \<le> length (drop 2 s)" using xml_read_name_length [of "drop 2 s"]
    by (auto simp: t_def split: option.splits dest: less_imp_le)
  moreover have "r = tl (xml_skip_space t)"
    using assms(1) by (auto simp: xml_end_tag_def Let_def t_def split: if_splits)
  ultimately have "length r \<le> length (drop 2 s)" using xml_skip_space_length [of t] by auto
  then show ?thesis using assms(2) by (cases s) auto
qed

lemma xml_leaf_length:
  assumes "xml_leaf s = Some (Inr (n, r))" "s \<noteq> []"
  shows "length r < length s"
proof -
  have "length (dropWhile (\<lambda>c. c \<noteq> CHR ''<'') s) < length s" if "\<not> starts_with ''<'' s"
    using that assms(2) length_dropWhile_le [of "\<lambda>c. c \<noteq> CHR ''<''"] by (cases s) (auto simp: less_Suc_eq_le)
  moreover have "length b < length s" if "split_at pat (drop k s) = Some (a, b)" "pat \<noteq> []" for pat k a b
    using split_at_length [OF that] by simp
  ultimately show ?thesis using assms(1) by (auto simp: xml_leaf_def split: option.splits if_splits)
qed

lemma xml_leaf_no_fuel: "xml_leaf s \<noteq> Some (Inl XmlFuel)" "xml_end_tag q s \<noteq> Inl XmlFuel"
  by (auto simp: xml_leaf_def xml_end_tag_def Let_def split: option.splits if_splits)

text \<open>What a call returns, case by case.\<close>

lemma xml_element_cases:
  assumes "xml_parse_element (Suc f) depth st s = Inr (n, st', r)"
  obtains el q st1 where "depth \<le> xml_max_depth" "xml_start_tag st s = Inr (el, q, st1, False, r)" "n = XmlTree el []"
      "st' = take (length st) st1"
    | el q st1 p ch st2 where "depth \<le> xml_max_depth" "xml_start_tag st s = Inr (el, q, st1, True, p)"
      "xml_parse_content f depth st1 q p = Inr (ch, st2, r)" "n = XmlTree el ch" "st' = take (length st) st2"
  using assms by (fastforce split: if_splits sum.splits)

lemma xml_content_cases:
  assumes "xml_parse_content (Suc f) depth st q s = Inr (ch, st', r)"
  obtains "s = []" "ch = []" "r = []"
    | "starts_with ''</'' s" "xml_end_tag q s = Inr r" "ch = []"
    | n r1 ch1 where "s \<noteq> []" "xml_leaf s = Some (Inr (n, r1))" "xml_parse_content f depth st q r1 = Inr (ch1, st', r)"
      "ch = n # ch1"
    | n st1 r1 ch1 where "s \<noteq> []" "xml_leaf s = None" "xml_parse_element f (Suc depth) st s = Inr (n, st1, r1)"
      "xml_parse_content f depth st1 q r1 = Inr (ch1, st', r)" "ch = n # ch1"
proof (cases "s = [] \<or> starts_with ''</'' s")
  case True
  then show thesis using assms that(1,2) by (auto split: if_splits sum.splits)
next
  case False
  then show thesis using assms that(3,4) by (simp split: option.splits sum.splits prod.splits) fastforce+
qed

lemma xml_lengths:
  "(\<forall>depth st s n st1 r. xml_parse_element f depth st s = Inr (n, st1, r) \<longrightarrow> s \<noteq> [] \<longrightarrow> length r < length s)
   \<and> (\<forall>depth st q s ch st2 r. xml_parse_content f depth st q s = Inr (ch, st2, r) \<longrightarrow> length r \<le> length s)"
proof (induction f)
  case (Suc f)
  show ?case
  proof (intro conjI allI impI)
    fix depth st s n st1 r assume "xml_parse_element (Suc f) depth st s = Inr (n, st1, r)" "s \<noteq> []"
    then show "length r < length s"
      by (cases rule: xml_element_cases) (use Suc.IH xml_start_tag_length in \<open>fastforce+\<close>)
  next
    fix depth st q s ch st2 r assume "xml_parse_content (Suc f) depth st q s = Inr (ch, st2, r)"
    then show "length r \<le> length s"
      by (cases rule: xml_content_cases) (use Suc.IH xml_end_tag_length xml_leaf_length in \<open>fastforce+\<close>)
  qed
qed simp_all

lemma xml_fuel_enough:
  "(\<forall>depth st s. s \<noteq> [] \<longrightarrow> 2 * length s \<le> f \<longrightarrow> xml_parse_element f depth st s \<noteq> Inl XmlFuel)
   \<and> (\<forall>depth st q s. 2 * length s < f \<longrightarrow> xml_parse_content f depth st q s \<noteq> Inl XmlFuel)"
proof (induction f)
  case (Suc f)
  show ?case
  proof (intro conjI allI impI)
    fix depth st and s :: string assume s: "s \<noteq> []" "2 * length s \<le> Suc f"
    have "xml_parse_content f depth st1 q p \<noteq> Inl XmlFuel" if "xml_start_tag st s = Inr (el, q, st1, c, p)" for el q st1 c p
    proof -
      have "length p < length s" using xml_start_tag_length [OF that s(1)] .
      then show ?thesis using Suc.IH s(2) by simp
    qed
    then show "xml_parse_element (Suc f) depth st s \<noteq> Inl XmlFuel"
      using xml_start_tag_no_fuel by (fastforce split: sum.splits if_splits)
  next
    fix depth st q and s :: string assume s: "2 * length s < Suc f"
    have e: "xml_parse_element f (Suc depth) st s \<noteq> Inl XmlFuel" if "s \<noteq> []" using Suc.IH s that by simp
    have c: "xml_parse_content f depth st1 q r \<noteq> Inl XmlFuel" if "length r < length s" for st1 r
      using Suc.IH s that by simp
    show "xml_parse_content (Suc f) depth st q s \<noteq> Inl XmlFuel"
    proof (cases "s = [] \<or> starts_with ''</'' s")
      case True
      then show ?thesis using xml_leaf_no_fuel(2) by (auto split: sum.splits)
    next
      case False
      show ?thesis
      proof (cases "xml_leaf s")
        case None
        then show ?thesis using False e xml_lengths [of f] c by (fastforce split: sum.splits)
      next
        case (Some x)
        then show ?thesis using False xml_leaf_no_fuel(1) [of s] xml_leaf_length [of s] c
          by (cases x) (fastforce split: sum.splits)+
      qed
    qed
  qed
qed simp_all

section \<open>Nesting\<close>

fun xml_nesting :: "xml_tree \<Rightarrow> nat" and xml_nestings :: "xml_tree list \<Rightarrow> nat" where
  "xml_nesting (XmlTree n ch) = (if nd_kind n = NodeElement then Suc (xml_nestings ch) else 0)"
| "xml_nestings [] = 0"
| "xml_nestings (c # cs) = max (xml_nesting c) (xml_nestings cs)"

lemma xml_leaf_nesting: "xml_leaf s = Some (Inr (n, r)) \<Longrightarrow> xml_nesting n = 0"
  by (auto simp: xml_leaf_def xml_comment_node_def xml_cdata_node_def xml_pi_node_def xml_text_node_def Let_def
      ns_node_new_comment_def ns_node_new_text_len_def ns_node_new_def add_flags_def split: if_splits option.splits)

lemma xml_nesting_bound:
  "(\<forall>depth st s n st1 r. xml_parse_element f depth st s = Inr (n, st1, r) \<longrightarrow> depth + xml_nesting n \<le> Suc xml_max_depth)
   \<and> (\<forall>depth st q s ch st2 r. depth \<le> xml_max_depth \<longrightarrow> xml_parse_content f depth st q s = Inr (ch, st2, r) \<longrightarrow>
        depth + xml_nestings ch \<le> xml_max_depth)"
proof (induction f)
  case (Suc f)
  then have E: "xml_parse_element f depth st s = Inr (n, st1, r) \<Longrightarrow> depth + xml_nesting n \<le> Suc xml_max_depth"
    and C: "depth \<le> xml_max_depth \<Longrightarrow> xml_parse_content f depth st q s = Inr (ch, st2, r) \<Longrightarrow>
      depth + xml_nestings ch \<le> xml_max_depth" for depth st s n st1 r q ch st2
    by blast+
  show ?case
  proof (intro conjI allI impI)
    fix depth st s n st1 r assume "xml_parse_element (Suc f) depth st s = Inr (n, st1, r)"
    then show "depth + xml_nesting n \<le> Suc xml_max_depth"
    proof (cases rule: xml_element_cases)
      case (2 el q st1 p ch st2)
      then show ?thesis using C [OF 2(1,3)] by simp
    qed simp
  next
    fix depth st q s ch st2 r
    assume d: "depth \<le> xml_max_depth" and "xml_parse_content (Suc f) depth st q s = Inr (ch, st2, r)"
    from this(2) show "depth + xml_nestings ch \<le> xml_max_depth"
    proof (cases rule: xml_content_cases)
      case (3 n r1 ch1)
      then show ?thesis using C [OF d 3(3)] xml_leaf_nesting [OF 3(2)] by simp
    next
      case (4 n st1 r1 ch1)
      then show ?thesis using C [OF d 4(4)] E [OF 4(3)] by simp
    qed (use d in simp_all)
  qed
qed simp_all

end
