(* ===== verification/Xml_Trip.thy ===== *)
theory Xml_Trip
  imports Xml_Parse
begin

text \<open>
  The XML parser reads what the XML serializer writes: documents without namespace prefixes,
  built as the parser builds them, come back the same. The serializer declares the namespace
  of every element that differs from its parent's; an element that has the declaration as an
  attribute gets it twice, which the parser accepts.
\<close>

section \<open>Documents\<close>

text \<open>An element has a namespace, a name without prefix and attributes without prefix.\<close>

datatype xml_item = XElem string string "(string \<times> string) list" "xml_item list"
  | XText string | XComment string | XPi string string

definition xml_plain_name :: "string \<Rightarrow> bool" where
  "xml_plain_name n = (case n of [] \<Rightarrow> False
     | c # r \<Rightarrow> xml_name_char c True \<and> list_all (\<lambda>x. xml_name_char x False) r \<and> CHR '':'' \<notin> set n)"

definition xml_attr_ok :: "string \<times> string \<Rightarrow> bool" where
  "xml_attr_ok a = (xml_plain_name (fst a) \<and> fst a \<noteq> ''xmlns''
     \<and> \<not> ns_attr_name_is_internal (Some (fst a)) \<and> NUL \<notin> set (snd a))"

fun is_xtext :: "xml_item \<Rightarrow> bool" where
  "is_xtext (XText t) = True"
| "is_xtext x = False"

fun xml_item_ok :: "xml_item \<Rightarrow> bool" and xml_items_ok :: "xml_item list \<Rightarrow> bool" where
  "xml_item_ok (XElem u name attrs ch) =
     (NUL \<notin> set u \<and> xml_plain_name name \<and> list_all xml_attr_ok attrs \<and> distinct (map fst attrs) \<and> xml_items_ok ch)"
| "xml_item_ok (XText t) = (t \<noteq> [] \<and> NUL \<notin> set t)"
| "xml_item_ok (XComment t) = (NUL \<notin> set t \<and> \<not> str_contains t ''-->'')"
| "xml_item_ok (XPi target data) =
     (NUL \<notin> set target \<and> NUL \<notin> set data \<and> list_all (\<lambda>c. \<not> xml_is_space c) target
      \<and> (data = [] \<or> \<not> xml_is_space (hd data))
      \<and> \<not> str_contains (target @ (if data \<noteq> [] then SP # data else [])) ''?>'')"
| "xml_items_ok [] = True"
| "xml_items_ok (c # cs) = (xml_item_ok c \<and> xml_items_ok cs \<and> \<not> (is_xtext c \<and> cs \<noteq> [] \<and> is_xtext (hd cs)))"

fun xml_item_nesting :: "xml_item \<Rightarrow> nat" and xml_items_nesting :: "xml_item list \<Rightarrow> nat" where
  "xml_item_nesting (XElem u name attrs ch) = Suc (xml_items_nesting ch)"
| "xml_item_nesting (XText t) = 0"
| "xml_item_nesting (XComment t) = 0"
| "xml_item_nesting (XPi a b) = 0"
| "xml_items_nesting [] = 0"
| "xml_items_nesting (c # cs) = max (xml_item_nesting c) (xml_items_nesting cs)"

text \<open>The nodes of a document; with \<open>decl\<close> the elements carry the declarations that the
  serializer prints.\<close>

definition xml_dom_element :: "(string \<times> string) list \<Rightarrow> string \<Rightarrow> string \<Rightarrow> ns_node" where
  "xml_dom_element attrs u name =
     fold (xml_set_attribute []) attrs
       (xml_apply_namespace (add_flags {FlagNotParserInserted} (ns_node_new_element name)) name (Some u))"

definition xmlns_if :: "bool \<Rightarrow> string \<Rightarrow> (string \<times> string) list" where
  "xmlns_if d u = (if d then [(''xmlns'', u)] else [])"

fun xml_dom :: "bool \<Rightarrow> cptr \<Rightarrow> xml_item \<Rightarrow> xml_tree" and xml_doms :: "bool \<Rightarrow> cptr \<Rightarrow> xml_item list \<Rightarrow> xml_tree list" where
  "xml_dom decl parent (XElem u name attrs ch) =
     XmlTree (xml_dom_element (xmlns_if (decl \<and> parent \<noteq> Some u) u @ attrs) u name) (xml_doms decl (Some u) ch)"
| "xml_dom decl parent (XText t) = xml_text_node t"
| "xml_dom decl parent (XComment t) = xml_comment_node t"
| "xml_dom decl parent (XPi target data) = xml_pi_node (target @ (if data \<noteq> [] then SP # data else []))"
| "xml_doms decl parent [] = []"
| "xml_doms decl parent (c # cs) = xml_dom decl parent c # xml_doms decl parent cs"

text \<open>A tree without the counters of attribute changes.\<close>

fun xml_erase :: "xml_tree \<Rightarrow> xml_tree" where
  "xml_erase (XmlTree n ch) = XmlTree (n\<lparr>nd_attr_gen := 0\<rparr>) (map xml_erase ch)"

section \<open>Characters\<close>

lemma until_nul_id: "NUL \<notin> set s \<Longrightarrow> until_nul s = s"
  unfolding until_nul_def takeWhile_eq_all_conv by auto

lemma decode_escape_char: "xml_decode (xml_escape_char b c @ r) = c # xml_decode r"
proof -
  have e: "split_at '';'' (''amp;'' @ r) = Some (''amp'', r)" "split_at '';'' (''lt;'' @ r) = Some (''lt'', r)"
    "split_at '';'' (''gt;'' @ r) = Some (''gt'', r)" "split_at '';'' (''quot;'' @ r) = Some (''quot'', r)"
    by simp_all
  consider "c = CHR ''&''" | "c = CHR ''<''" | "c = CHR ''>''" | "c = DQ" | "c \<notin> {CHR ''&'', CHR ''<'', CHR ''>'', DQ}"
    by blast
  then show ?thesis using e by cases (simp_all add: xml_escape_char_def xml_entity_def)
qed

lemma decode_escape: "xml_decode (concat (map (xml_escape_char b) s)) = s"
  by (induction s) (simp_all add: decode_escape_char)

lemma decode_text_escape: "NUL \<notin> set s \<Longrightarrow> xml_decode_text (ns_xml_escape b s) = s"
  by (simp add: xml_decode_text_def ns_xml_escape_def until_nul_id decode_escape)

lemma escape_free: "CHR ''<'' \<notin> set (ns_xml_escape b s)" "DQ \<notin> set (ns_xml_escape True s)"
proof -
  have "CHR ''<'' \<notin> set (xml_escape_char b c)" "DQ \<notin> set (xml_escape_char True c)" for c
    by (simp_all add: xml_escape_char_def)
  then show "CHR ''<'' \<notin> set (ns_xml_escape b s)" "DQ \<notin> set (ns_xml_escape True s)"
    unfolding ns_xml_escape_def set_concat set_map by blast+
qed

lemma escape_nonempty:
  assumes "s \<noteq> []" "NUL \<notin> set s"
  shows "ns_xml_escape b s \<noteq> []"
proof -
  obtain c r where s: "s = c # r" using assms(1) by (cases s) auto
  have "xml_escape_char b c \<noteq> []" by (simp add: xml_escape_char_def)
  then show ?thesis using until_nul_id [OF assms(2)] by (simp add: ns_xml_escape_def s)
qed

lemma space_not_name: "xml_is_space c \<Longrightarrow> \<not> xml_name_char c b"
  unfolding xml_is_space_def by (elim disjE) (simp_all add: xml_name_char_def ascii_class_defs)

lemma xml_read_plain_name:
  assumes "xml_plain_name n" "r = [] \<or> \<not> xml_name_char (hd r) False"
  shows "xml_read_name (n @ r) = Some (n, r)"
proof -
  obtain c cs where n: "n = c # cs" "xml_name_char c True" "list_all (\<lambda>x. xml_name_char x False) cs"
    using assms(1) by (auto simp: xml_plain_name_def split: list.splits)
  have "takeWhile (\<lambda>x. xml_name_char x False) (cs @ r) = cs" "dropWhile (\<lambda>x. xml_name_char x False) (cs @ r) = r"
    using n(3) assms(2) by (cases r; simp add: list_all_iff)+
  then show ?thesis by (simp add: xml_read_name_def n(1,2))
qed

lemma plain_name_first:
  assumes "xml_plain_name n"
  obtains c r where "n = c # r" "c \<notin> {CHR ''!'', CHR ''?'', CHR ''/'', CHR ''>'', SP, HT, LF, CR}"
proof -
  obtain c r where n: "n = c # r" "xml_name_char c True"
    using assms by (auto simp: xml_plain_name_def split: list.splits)
  have "\<not> xml_name_char d True" if "d \<in> {CHR ''!'', CHR ''?'', CHR ''/'', CHR ''>'', SP, HT, LF, CR}" for d
    using that by (elim insertE emptyE) (simp_all add: xml_name_char_def ascii_class_defs)
  then show thesis using that n by blast
qed

section \<open>Attributes\<close>

definition print_attrs :: "(string \<times> string) list \<Rightarrow> string" where
  "print_attrs L = concat (map (\<lambda>(n, v). xml_print_attr n v) L)"

lemma attribute_print:
  assumes "xml_plain_name n" "NUL \<notin> set v"
  shows "xml_attribute (n @ ''='' @ [DQ] @ ns_xml_escape True v @ [DQ] @ r) = Inr ((n, v), r)"
proof -
  have "xml_read_name (n @ CHR ''='' # DQ # ns_xml_escape True v @ DQ # r)
      = Some (n, CHR ''='' # DQ # ns_xml_escape True v @ DQ # r)"
    by (rule xml_read_plain_name [OF assms(1)]) (simp add: xml_name_char_def ascii_class_defs)
  moreover have "xml_skip_space (CHR ''='' # z) = CHR ''='' # z" "xml_skip_space (DQ # z) = DQ # z" for z
    by (simp_all add: xml_skip_space_def xml_is_space_def)
  moreover have "takeWhile (\<lambda>c. c \<noteq> DQ) (ns_xml_escape True v @ DQ # r) = ns_xml_escape True v"
    "dropWhile (\<lambda>c. c \<noteq> DQ) (ns_xml_escape True v @ DQ # r) = DQ # r"
    using escape_free(2) [of v] by (auto simp: dropWhile_append3 takeWhile_append2)
  ultimately show ?thesis by (simp add: xml_attribute_def decode_text_escape [OF assms(2)])
qed

definition printable_attr :: "string \<times> string \<Rightarrow> bool" where
  "printable_attr a = (xml_plain_name (fst a) \<and> NUL \<notin> set (snd a))"

lemma attributes_print:
  assumes "list_all printable_attr L" "xml_skip_space r = c # z" "c = CHR ''>'' \<or> c = CHR ''/''"
  shows "xml_parse_attributes st (print_attrs L @ r) = Inr (L, foldl xml_declare st L, c # z)"
  using assms(1)
proof (induction L arbitrary: st)
  case Nil
  then show ?case using assms(2,3) by (simp add: xml_parse_attributes.simps [of st r] print_attrs_def)
next
  case (Cons a L)
  obtain n v where a: "a = (n, v)" by (cases a) auto
  have ok: "xml_plain_name n" "NUL \<notin> set v" using Cons.prems by (simp_all add: a printable_attr_def)
  obtain x y where n: "n = x # y" "x \<notin> {CHR ''!'', CHR ''?'', CHR ''/'', CHR ''>'', SP, HT, LF, CR}"
    using plain_name_first [OF ok(1)] by metis
  define rest where "rest = print_attrs L @ r"
  have p: "print_attrs (a # L) @ r = SP # n @ ''='' @ [DQ] @ ns_xml_escape True v @ [DQ] @ rest"
    by (simp add: print_attrs_def a xml_print_attr_def rest_def)
  have sk: "xml_skip_space (SP # n @ z) = n @ z" for z
    using n by (simp add: xml_skip_space_def xml_is_space_def)
  have "xml_parse_attributes (xml_declare st a) rest = Inr (L, foldl xml_declare (xml_declare st a) L, c # z)"
    using Cons by (simp add: rest_def)
  moreover have "hd (n @ z) \<noteq> CHR ''>''" "hd (n @ z) \<noteq> CHR ''/''" "n @ z \<noteq> []" for z using n by auto
  ultimately show ?case
    unfolding p using attribute_print [OF ok, of rest]
    by (subst xml_parse_attributes.simps) (simp only: sk Let_def if_False simp_thms sum.case prod.case a foldl_Cons)
qed

section \<open>The attributes of the nodes\<close>

definition plain_ns_attr :: "string \<times> string \<Rightarrow> ns_attr" where
  "plain_ns_attr a = \<lparr>at_name = fst a, at_value = snd a, at_ns = None, at_prefix = None, at_local = Some (fst a),
     at_lower = ns_str_is_ascii_lower (fst a)\<rparr>"

definition xmlns_attr :: "string \<Rightarrow> ns_attr" where
  "xmlns_attr u = \<lparr>at_name = ''xmlns'', at_value = u, at_ns = Some xml_ns_xmlns, at_prefix = None,
     at_local = Some ''xmlns'', at_lower = True\<rparr>"

definition uri_attrs :: "string \<Rightarrow> ns_attr list" where
  "uri_attrs u = (if u = [] \<or> u = xml_ns_xhtml then [] else [plain_attr ''data-nd-ns-uri'' u])"

definition ns_flags :: "string \<Rightarrow> ns_node_flag set" where
  "ns_flags u = {FlagNotParserInserted, FlagKeepCase}
     \<union> (if u = xml_ns_xhtml then {} else if u = xml_ns_svg then {FlagSvgNs} else {FlagForeignNs})"

definition xml_node :: "string \<Rightarrow> string \<Rightarrow> ns_attr list \<Rightarrow> 32 word \<Rightarrow> ns_node" where
  "xml_node u name as g = (ns_node_new_element name)\<lparr>nd_attrs := as, nd_attr_gen := g, nd_flags := ns_flags u\<rparr>"

lemma no_colon_before: "CHR '':'' \<notin> set n \<Longrightarrow> before_colon n = None"
  by (simp add: before_colon_def)

lemma plain_name_colon: "xml_plain_name n \<Longrightarrow> CHR '':'' \<notin> set n"
  by (auto simp: xml_plain_name_def split: list.splits)

lemma apply_namespace_node:
  assumes "CHR '':'' \<notin> set name" "NUL \<notin> set u"
  shows "\<exists>g. xml_apply_namespace (add_flags {FlagNotParserInserted} (ns_node_new_element name)) name (Some u)
     = xml_node u name (uri_attrs u) g"
proof (cases "u = [] \<or> u = xml_ns_xhtml")
  case True
  then show ?thesis using no_colon_before [OF assms(1)]
    by (intro exI [of _ 0]) (auto simp: xml_apply_namespace_def xml_node_def uri_attrs_def ns_flags_def add_flags_def
        ns_node_new_element_def ns_node_new_def xml_ns_xhtml_def xml_ns_svg_def)
next
  case False
  then show ?thesis using until_nul_id [OF assms(2)]
    by (intro exI [of _ 1]) (auto simp: xml_apply_namespace_def xml_node_def uri_attrs_def ns_flags_def add_flags_def
        ns_node_new_element_def ns_node_new_def ns_element_set_attr_def ns_element_set_attr_len_def attrs_touch_def
        strcaseeq_def)
qed

lemma attrs_put_end: "list_all (\<lambda>a. \<not> P a) as \<Longrightarrow> attrs_put P v new as = as @ [new]"
  by (induction as) auto

lemma attrs_put_mid: "list_all (\<lambda>a. \<not> P a) as \<Longrightarrow> P a \<Longrightarrow> attrs_put P v new (as @ a # bs) = as @ a\<lparr>at_value := v\<rparr> # bs"
  by (induction as) auto

lemma set_attr_ns_node:
  assumes "NUL \<notin> set v" "name \<noteq> []"
  shows "\<exists>g'. ns_element_set_attr_ns (xml_node u el as g) w None loc (Some name) (Some v)
     = xml_node u el (attrs_put (ns_attr_matches_ns (ns_attr_normalize_namespace w) loc) v
         \<lparr>at_name = name, at_value = v, at_ns = ns_attr_normalize_namespace w, at_prefix = None, at_local = Some loc,
          at_lower = ns_str_is_ascii_lower name\<rparr> as) g'"
  using assms until_nul_id [OF assms(1)]
  by (intro exI [of _ "g + 1"])
    (simp add: ns_element_set_attr_ns_def xml_node_def ns_node_new_element_def ns_node_new_def attrs_touch_def Let_def)

lemma uri_attrs_none:
  "loc \<noteq> ''data-nd-ns-uri'' \<or> w \<noteq> None \<Longrightarrow> (case w of Some x \<Rightarrow> x \<noteq> [] | None \<Rightarrow> True) \<Longrightarrow>
   list_all (\<lambda>a. \<not> ns_attr_matches_ns w loc a) (uri_attrs u)"
  by (auto simp: uri_attrs_def plain_attr_def ns_attr_matches_ns_def ns_attr_namespace_equal_def
      ns_attr_normalize_namespace_def ns_attr_local_name_def split: option.splits if_splits)

lemma internal_uri: "\<not> ns_attr_name_is_internal (Some n) \<Longrightarrow> n \<noteq> ''data-nd-ns-uri''"
  by (auto simp: ns_attr_name_is_internal_def)

lemma xmlns_not_plain: "ns_attr_matches_ns None loc (xmlns_attr u) = False"
  by (simp add: ns_attr_matches_ns_def xmlns_attr_def ns_attr_namespace_equal_def ns_attr_normalize_namespace_def xml_ns_xmlns_def)

text \<open>Setting the declaration, once or twice.\<close>

lemma set_xmlns_node:
  assumes "NUL \<notin> set v"
  shows "\<exists>g'. xml_set_attribute st (''xmlns'', v) (xml_node u el (uri_attrs u @ (if d then [xmlns_attr v] else [])) g)
     = xml_node u el (uri_attrs u @ [xmlns_attr v]) g'"
proof -
  have n: "ns_attr_normalize_namespace (Some xml_ns_xmlns) = Some xml_ns_xmlns"
    by (simp add: ns_attr_normalize_namespace_def xml_ns_xmlns_def)
  have none: "list_all (\<lambda>a. \<not> ns_attr_matches_ns (Some xml_ns_xmlns) ''xmlns'' a) (uri_attrs u)"
    by (rule uri_attrs_none) (simp_all add: xml_ns_xmlns_def)
  have hit: "ns_attr_matches_ns (Some xml_ns_xmlns) ''xmlns'' (xmlns_attr v)"
    by (simp add: ns_attr_matches_ns_def xmlns_attr_def ns_attr_namespace_equal_def ns_attr_local_name_def)
  have new: "\<lparr>at_name = ''xmlns'', at_value = v, at_ns = Some xml_ns_xmlns, at_prefix = None, at_local = Some ''xmlns'',
      at_lower = ns_str_is_ascii_lower ''xmlns''\<rparr> = xmlns_attr v" by (simp add: xmlns_attr_def ns_str_is_ascii_lower_def ascii_class_defs)
  have same: "(xmlns_attr v)\<lparr>at_value := v\<rparr> = xmlns_attr v" by (simp add: xmlns_attr_def)
  show ?thesis
    using set_attr_ns_node [OF assms, of "''xmlns''" u el "uri_attrs u @ (if d then [xmlns_attr v] else [])" g "Some xml_ns_xmlns" "''xmlns''"]
      attrs_put_end [OF none, of v "xmlns_attr v"] attrs_put_mid [OF none hit, of v "xmlns_attr v" "[]"]
    by (cases d) (simp_all add: xml_set_attribute_def Let_def n new same)
qed

lemma set_plain_node:
  assumes "xml_attr_ok a" "fst a \<notin> set (map fst L)" "X = [] \<or> X = [xmlns_attr v]"
  shows "\<exists>g'. xml_set_attribute st a (xml_node u el (uri_attrs u @ X @ map plain_ns_attr L) g)
     = xml_node u el (uri_attrs u @ X @ map plain_ns_attr (L @ [a])) g'"
proof -
  obtain n w where a: "a = (n, w)" by (cases a) auto
  have ok: "xml_plain_name n" "n \<noteq> ''xmlns''" "\<not> ns_attr_name_is_internal (Some n)" "NUL \<notin> set w"
    using assms(1) by (simp_all add: a xml_attr_ok_def)
  have "list_all (\<lambda>a. \<not> ns_attr_matches_ns None n a) (uri_attrs u)"
    using internal_uri [OF ok(3)] by (intro uri_attrs_none) simp_all
  moreover have "list_all (\<lambda>a. \<not> ns_attr_matches_ns None n a) X" using assms(3) xmlns_not_plain by auto
  moreover have "list_all (\<lambda>a. \<not> ns_attr_matches_ns None n a) (map plain_ns_attr L)"
    using assms(2) by (auto simp: list_all_iff ns_attr_matches_ns_def plain_ns_attr_def ns_attr_local_name_def a)
  ultimately have "list_all (\<lambda>a. \<not> ns_attr_matches_ns None n a) (uri_attrs u @ X @ map plain_ns_attr L)" by simp
  from attrs_put_end [OF this] have put: "attrs_put (ns_attr_matches_ns None n) w new (uri_attrs u @ X @ map plain_ns_attr L)
      = uri_attrs u @ X @ map plain_ns_attr L @ [new]" for new by simp
  have "n \<noteq> []" using ok(1) by (auto simp: xml_plain_name_def)
  from set_attr_ns_node [OF ok(4) this, of u el "uri_attrs u @ X @ map plain_ns_attr L" g None n]
  show ?thesis using ok(2) no_colon_before [OF plain_name_colon [OF ok(1)]]
    by (simp add: xml_set_attribute_def a put plain_ns_attr_def ns_attr_normalize_namespace_def)
qed

lemma set_plain_nodes:
  assumes "list_all xml_attr_ok L" "distinct (map fst (K @ L))" "X = [] \<or> X = [xmlns_attr v]"
  shows "\<exists>g'. fold (xml_set_attribute st) L (xml_node u el (uri_attrs u @ X @ map plain_ns_attr K) g)
     = xml_node u el (uri_attrs u @ X @ map plain_ns_attr (K @ L)) g'"
  using assms
proof (induction L arbitrary: K g)
  case (Cons a L)
  obtain g1 where "xml_set_attribute st a (xml_node u el (uri_attrs u @ X @ map plain_ns_attr K) g)
     = xml_node u el (uri_attrs u @ X @ map plain_ns_attr (K @ [a])) g1"
    using set_plain_node [of a K X v st u el g] Cons.prems by auto
  moreover obtain g2 where "fold (xml_set_attribute st) L (xml_node u el (uri_attrs u @ X @ map plain_ns_attr (K @ [a])) g1)
     = xml_node u el (uri_attrs u @ X @ map plain_ns_attr ((K @ [a]) @ L)) g2"
    using Cons.IH [of "K @ [a]" g1] Cons.prems by auto
  ultimately show ?case by auto
qed auto

definition xmlns_attrs :: "bool \<Rightarrow> string \<Rightarrow> ns_attr list" where
  "xmlns_attrs d u = (if d then [xmlns_attr u] else [])"

text \<open>An element built from its attributes, with its declaration given up to twice.\<close>

lemma element_node:
  assumes "CHR '':'' \<notin> set name" "NUL \<notin> set u" "list_all xml_attr_ok L" "distinct (map fst L)"
  shows "\<exists>g. fold (xml_set_attribute st) (xmlns_if b u @ xmlns_if c u @ L)
      (xml_apply_namespace (add_flags {FlagNotParserInserted} (ns_node_new_element name)) name (Some u))
    = xml_node u name (uri_attrs u @ xmlns_attrs (b \<or> c) u @ map plain_ns_attr L) g"
proof -
  obtain g0 where g0: "xml_apply_namespace (add_flags {FlagNotParserInserted} (ns_node_new_element name)) name (Some u)
     = xml_node u name (uri_attrs u) g0" using apply_namespace_node [OF assms(1,2)] by blast
  have one: "\<exists>g'. fold (xml_set_attribute st) (xmlns_if e u) (xml_node u name (uri_attrs u @ xmlns_attrs d u) g)
     = xml_node u name (uri_attrs u @ xmlns_attrs (d \<or> e) u) g'" for d e g
    using set_xmlns_node [OF assms(2), of st u name d g] by (auto simp: xmlns_if_def xmlns_attrs_def)
  obtain g1 where g1: "fold (xml_set_attribute st) (xmlns_if b u) (xml_node u name (uri_attrs u) g0)
     = xml_node u name (uri_attrs u @ xmlns_attrs b u) g1"
    using one [of b False g0] by (auto simp: xmlns_attrs_def)
  obtain g2 where g2: "fold (xml_set_attribute st) (xmlns_if c u) (xml_node u name (uri_attrs u @ xmlns_attrs b u) g1)
     = xml_node u name (uri_attrs u @ xmlns_attrs (b \<or> c) u) g2"
    using one by blast
  have x: "xmlns_attrs (b \<or> c) u = [] \<or> xmlns_attrs (b \<or> c) u = [xmlns_attr u]" by (simp add: xmlns_attrs_def)
  obtain g3 where "fold (xml_set_attribute st) L (xml_node u name (uri_attrs u @ xmlns_attrs (b \<or> c) u) g2)
     = xml_node u name (uri_attrs u @ xmlns_attrs (b \<or> c) u @ map plain_ns_attr L) g3"
    using set_plain_nodes [OF assms(3) _ x, of "[]" st u name g2] assms(4) by auto
  then show ?thesis using g0 g1 g2 by auto
qed

section \<open>Reading the text back\<close>

definition dom_node :: "bool \<Rightarrow> string \<Rightarrow> string \<Rightarrow> (string \<times> string) list \<Rightarrow> 32 word \<Rightarrow> ns_node" where
  "dom_node d u name L g = xml_node u name (uri_attrs u @ xmlns_attrs d u @ map plain_ns_attr L) g"

lemma dom_node_simps [simp]:
  "nd_kind (dom_node d u name L g) = NodeElement" "nd_flags (dom_node d u name L g) = ns_flags u"
  "nd_attrs (dom_node d u name L g) = uri_attrs u @ xmlns_attrs d u @ map plain_ns_attr L"
  "nd_name (dom_node d u name L g) = Some name"
  by (simp_all add: dom_node_def xml_node_def ns_node_new_element_def ns_node_new_def)

lemma internal_attrs:
  assumes "list_all xml_attr_ok L" "ns_attr_name_is_internal (Some nm)" "strdown nm = nm"
  shows "find (attr_matches_lower nm) (xmlns_attrs d u @ map plain_ns_attr L) = None"
    "find (\<lambda>a. at_name a = nm) (xmlns_attrs d u @ map plain_ns_attr L) = None"
proof -
  have xm: "\<not> ns_attr_name_is_internal (Some ''xmlns'')"
    by (simp add: ns_attr_name_is_internal_def strcaseeq_def ascii_tolower_def ascii_class_defs)
  have case_eq: "ns_attr_name_is_internal (Some n)" if "strcaseeq n nm" for n
    using that assms(2,3) by (simp add: ns_attr_name_is_internal_def strcaseeq_def flip: take_map)
  have names: "\<not> ns_attr_name_is_internal (Some (at_name a))" if "a \<in> set (xmlns_attrs d u @ map plain_ns_attr L)" for a
    using that assms(1) xm by (auto simp: xmlns_attrs_def xmlns_attr_def plain_ns_attr_def list_all_iff xml_attr_ok_def split: if_splits)
  show "find (attr_matches_lower nm) (xmlns_attrs d u @ map plain_ns_attr L) = None"
    "find (\<lambda>a. at_name a = nm) (xmlns_attrs d u @ map plain_ns_attr L) = None"
    unfolding find_None_iff attr_matches_lower_def using names case_eq assms(2) by metis+
qed

lemma element_ns:
  assumes "list_all xml_attr_ok L" "NUL \<notin> set u"
  shows "ns_xml_element_ns (dom_node d u name L g) = u"
    "ns_element_get_attr (dom_node d u name L g) (Some ''data-nd-ns-prefix'') = None"
proof -
  have low: "ns_str_is_ascii_lower ''data-nd-ns-uri''" "ns_str_is_ascii_lower ''data-nd-ns-prefix''"
    by (simp_all add: ns_str_is_ascii_lower_def ascii_class_defs)
  have int: "ns_attr_name_is_internal (Some ''data-nd-ns-uri'')" "ns_attr_name_is_internal (Some ''data-nd-ns-prefix'')"
    "strdown ''data-nd-ns-uri'' = ''data-nd-ns-uri''" "strdown ''data-nd-ns-prefix'' = ''data-nd-ns-prefix''"
    by (simp_all add: ns_attr_name_is_internal_def strcaseeq_def ascii_tolower_def ascii_class_defs)
  note no = internal_attrs [OF assms(1) int(1,3), of d u] internal_attrs [OF assms(1) int(2,4), of d u]
  have "find (attr_matches_lower ''data-nd-ns-prefix'') (uri_attrs u) = None"
    "find (\<lambda>a. at_name a = ''data-nd-ns-prefix'') (uri_attrs u) = None"
    by (simp_all add: uri_attrs_def plain_attr_def attr_matches_lower_def low)
  then show "ns_element_get_attr (dom_node d u name L g) (Some ''data-nd-ns-prefix'') = None"
    using no(3,4) low(2) by (simp add: ns_element_get_attr_def ns_element_find_attr_def find_append)
  have hit: "u \<noteq> [] \<Longrightarrow> u \<noteq> xml_ns_xhtml \<Longrightarrow>
      find (attr_matches_lower ''data-nd-ns-uri'') (uri_attrs u) = Some (plain_attr ''data-nd-ns-uri'' u)"
    by (simp add: uri_attrs_def plain_attr_def attr_matches_lower_def low)
  have "xml_ns_svg \<noteq> []" "xml_ns_xhtml \<noteq> []" "xml_ns_svg \<noteq> xml_ns_xhtml" by (simp_all add: xml_ns_svg_def xml_ns_xhtml_def)
  moreover have "uri_attrs [] = []" by (simp add: uri_attrs_def)
  ultimately show "ns_xml_element_ns (dom_node d u name L g) = u"
    using no(1,2) low(1) hit until_nul_id [OF assms(2)]
    by (cases "u = []") (auto simp: ns_xml_element_ns_def ns_flags_def ns_element_get_attr_def ns_element_find_attr_def
        find_append plain_attr_def)
qed

lemma print_dom_attrs:
  assumes "list_all xml_attr_ok L"
  shows "xml_print_attrs (uri_attrs u @ xmlns_attrs d u @ map plain_ns_attr L) = print_attrs (xmlns_if d u @ L)"
proof -
  have "ns_attr_name_is_internal (Some ''data-nd-ns-uri'')" "\<not> ns_attr_name_is_internal (Some ''xmlns'')"
    by (simp_all add: ns_attr_name_is_internal_def strcaseeq_def ascii_tolower_def ascii_class_defs)
  moreover have "xml_print_attrs (map plain_ns_attr L) = print_attrs L"
    using assms by (induction L) (auto simp: xml_print_attrs_def print_attrs_def plain_ns_attr_def xml_attr_ok_def)
  ultimately show ?thesis
    by (simp add: xml_print_attrs_def print_attrs_def uri_attrs_def plain_attr_def xmlns_attrs_def xmlns_attr_def xmlns_if_def)
qed

lemma serialize_element:
  assumes "depth < ns_dom_max_depth" "list_all xml_attr_ok L" "NUL \<notin> set u"
  shows "xml_serialize_node parent depth (XmlTree (dom_node d u name L g) ch)
    = ''<'' @ name @ print_attrs (xmlns_if (parent \<noteq> Some u) u @ xmlns_if d u @ L)
      @ (if ch = [] then (if u = xml_ns_xhtml \<and> \<not> ns_html_is_void name then ''></'' @ name @ ''>'' else '' />'')
         else ''>'' @ xml_serialize_list (Some u) (Suc depth) ch @ ''</'' @ name @ ''>'')"
  using assms element_ns [OF assms(2,3), of d name g] print_dom_attrs [OF assms(2), of u d]
  by (simp add: xml_open_tag_def Let_def cstr_def print_attrs_def xmlns_if_def)

lemma declare_plain: "xml_attr_ok a \<Longrightarrow> xml_declare st a = st"
  using plain_name_colon [of "fst a"] by (auto simp: xml_declare_def xml_attr_ok_def starts_with_iff)

lemma declare_attrs:
  assumes "list_all xml_attr_ok L"
  shows "foldl xml_declare st (xmlns_if b u @ xmlns_if c u @ L)
    = st @ (if b then [(None, u)] else []) @ (if c then [(None, u)] else [])"
proof -
  have "foldl xml_declare st L = st" for st using assms by (induction L) (simp_all add: declare_plain)
  then show ?thesis by (simp add: xmlns_if_def xml_declare_def xml_push_binding_def)
qed

lemma start_tag_print:
  assumes "xml_plain_name name" "list_all printable_attr L" "\<not> xml_name_char (hd (print_attrs L @ r)) False"
    "xml_skip_space r = c # z" "c = CHR ''>'' \<and> content \<and> p = z \<or> c = CHR ''/'' \<and> \<not> content \<and> z = CHR ''>'' # p"
  shows "xml_start_tag st (''<'' @ name @ print_attrs L @ r)
    = Inr (xml_new_element (foldl xml_declare st L) name L, name, foldl xml_declare st L, content, p)"
proof -
  have n: "xml_read_name (name @ print_attrs L @ r) = Some (name, print_attrs L @ r)"
    by (rule xml_read_plain_name [OF assms(1)]) (simp add: assms(3))
  have c: "c = CHR ''>'' \<or> c = CHR ''/''" using assms(5) by auto
  have "xml_skip_space (c # z) = c # z" using c by (auto simp: xml_skip_space_def xml_is_space_def)
  then show ?thesis using n attributes_print [OF assms(2,4) c, of st] assms(5)
    by (auto simp: xml_start_tag_def)
qed

lemma split_at_close:
  assumes "\<not> str_contains t ''-->''"
  shows "split_at ''-->'' (t @ ''-->'' @ r) = Some (t, r)"
  using assms
proof (induction t)
  case (Cons c t)
  have "\<not> starts_with ''-->'' (c # t @ ''-->'' @ r)"
    using Cons.prems by (cases t; cases "tl t") (auto simp: str_contains_def split: if_splits)
  then show ?case using Cons by (auto simp: str_contains_def split: if_splits)
qed simp

lemma split_at_pi:
  assumes "\<not> str_contains t ''?>''"
  shows "split_at ''?>'' (t @ ''?>'' @ r) = Some (t, r)"
  using assms
proof (induction t)
  case (Cons c t)
  have "\<not> starts_with ''?>'' (c # t @ ''?>'' @ r)"
    using Cons.prems by (cases t) (auto simp: str_contains_def split: if_splits)
  then show ?case using Cons by (auto simp: str_contains_def split: if_splits)
qed simp

fun is_xelem :: "xml_item \<Rightarrow> bool" where
  "is_xelem (XElem u name attrs ch) = True"
| "is_xelem x = False"

lemma pi_node_fields:
  assumes "xml_item_ok (XPi target data)"
  shows "xml_dom d parent (XPi target data)
    = XmlTree (add_flags {FlagPi} ((ns_node_new_comment data)\<lparr>nd_name := Some target\<rparr>)) []"
proof -
  define body where "body = target @ (if data \<noteq> [] then SP # data else [])"
  have t: "takeWhile (\<lambda>c. \<not> xml_is_space c) body = target"
    "dropWhile (\<lambda>c. \<not> xml_is_space c) body = (if data \<noteq> [] then SP # data else [])"
    using assms by (auto simp: body_def list_all_iff takeWhile_append2 dropWhile_append2 xml_is_space_def takeWhile_eq_all_conv)
  have "xml_skip_space (if data \<noteq> [] then SP # data else []) = data"
    using assms by (cases data) (auto simp: xml_skip_space_def xml_is_space_def)
  then show ?thesis using assms by (simp add: xml_pi_node_def t until_nul_id flip: body_def)
qed

lemma leaf_print:
  assumes "xml_item_ok t" "\<not> is_xelem t" "depth < ns_dom_max_depth" "is_xtext t \<Longrightarrow> starts_with ''<'' r"
  shows "xml_leaf (xml_serialize_node parent depth (xml_dom d parent t) @ r) = Some (Inr (xml_dom True parent t, r))"
    "xml_serialize_node parent depth (xml_dom d parent t) \<noteq> []"
    "\<not> starts_with ''</'' (xml_serialize_node parent depth (xml_dom d parent t) @ r)"
proof -
  let ?s = "xml_serialize_node parent depth (xml_dom d parent t)"
  have "xml_leaf (?s @ r) = Some (Inr (xml_dom True parent t, r)) \<and> ?s \<noteq> [] \<and> \<not> starts_with ''</'' (?s @ r)"
  proof (cases t)
    case (XText x)
    have x: "x \<noteq> []" "NUL \<notin> set x" using assms(1) by (simp_all add: XText)
    have s: "?s = ns_xml_escape False x"
      using assms(3) x by (simp add: XText xml_text_node_def ns_node_new_text_len_def ns_node_new_def cstr_def until_nul_id)
    obtain z where r: "r = CHR ''<'' # z" using assms(4) XText by (auto simp: starts_with_iff)
    have cut: "takeWhile (\<lambda>c. c \<noteq> CHR ''<'') (ns_xml_escape False x @ r) = ns_xml_escape False x"
      "dropWhile (\<lambda>c. c \<noteq> CHR ''<'') (ns_xml_escape False x @ r) = r"
      using escape_free(1) [of False x] by (auto simp: r dropWhile_append3 takeWhile_append2)
    obtain c cs where e: "ns_xml_escape False x = c # cs" using escape_nonempty [OF x, of False] by (cases "ns_xml_escape False x") auto
    then have "c \<noteq> CHR ''<''" using escape_free(1) [of False x] by auto
    then have "xml_leaf (?s @ r) = Some (Inr (xml_text_node (xml_decode_text (ns_xml_escape False x)), r))"
      unfolding s xml_leaf_def cut by (simp add: e)
    then show ?thesis
      using \<open>c \<noteq> CHR ''<''\<close> s [unfolded XText e] decode_text_escape [OF x(2), of False, unfolded e] by (simp add: XText e)
  next
    case (XComment x)
    then have "?s = ''<!--'' @ x @ ''-->''"
      using assms(1,3) by (simp add: xml_comment_node_def ns_node_new_comment_def ns_node_new_def cstr_def until_nul_id)
    then show ?thesis using split_at_close [of x r] assms(1) XComment by (simp add: xml_leaf_def)
  next
    case (XPi target data)
    define body where "body = target @ (if data \<noteq> [] then SP # data else [])"
    have "?s = ''<?'' @ body @ ''?>''"
      using assms(1,3) pi_node_fields [of target data d parent]
      by (simp add: XPi ns_node_new_comment_def ns_node_new_def add_flags_def cstr_def until_nul_id body_def del: xml_dom.simps)
    then show ?thesis using split_at_pi [of body r] assms(1) XPi by (simp add: xml_leaf_def flip: body_def)
  qed (use assms(2) in simp)
  then show "xml_leaf (?s @ r) = Some (Inr (xml_dom True parent t, r))" "?s \<noteq> []" "\<not> starts_with ''</'' (?s @ r)" by blast+
qed

section \<open>The round trip\<close>

lemma erase_dom_node: "(dom_node d u name L g)\<lparr>nd_attr_gen := 0\<rparr> = dom_node d u name L 0"
  by (simp add: dom_node_def xml_node_def ns_node_new_element_def ns_node_new_def)

lemma xml_dom_elem:
  assumes "xml_item_ok (XElem u name L ch)"
  obtains g where "xml_dom d parent (XElem u name L ch) = XmlTree (dom_node (d \<and> parent \<noteq> Some u) u name L g) (xml_doms d (Some u) ch)"
  using element_node [of name u L "[]" "d \<and> parent \<noteq> Some u" False] assms plain_name_colon [of name]
  by (auto simp: xml_dom_element_def dom_node_def xmlns_if_def)

lemma new_element_print:
  assumes "xml_plain_name name" "NUL \<notin> set u" "list_all xml_attr_ok L" "distinct (map fst L)" "xml_lookup_prefix st None = Some u"
  obtains g where "xml_new_element st name (xmlns_if b u @ xmlns_if c u @ L) = dom_node (b \<or> c) u name L g"
  using element_node [OF plain_name_colon [OF assms(1)] assms(2-4), of st b c] assms(5)
    no_colon_before [OF plain_name_colon [OF assms(1)]] plain_name_colon [OF assms(1)]
  by (auto simp: xml_new_element_def dom_node_def)

lemma lookup_declared:
  assumes "xml_lookup_prefix st None = parent"
  shows "xml_lookup_prefix (st @ (if parent \<noteq> Some u then [(None, u)] else [])
      @ (if d \<and> parent \<noteq> Some u then [(None, u)] else [])) None = Some u"
  using assms by (auto simp: xml_lookup_prefix_def)

lemma printable_ok:
  assumes "NUL \<notin> set u" "list_all xml_attr_ok L"
  shows "list_all printable_attr (xmlns_if b u @ xmlns_if c u @ L)"
proof -
  have "xml_plain_name ''xmlns''" by (simp add: xml_plain_name_def xml_name_char_def ascii_class_defs)
  then show ?thesis using assms by (auto simp: printable_attr_def xmlns_if_def list_all_iff xml_attr_ok_def)
qed

lemma print_attrs_first:
  assumes "\<not> xml_name_char c False"
  shows "\<not> xml_name_char (hd (print_attrs L @ c # r)) False"
  using assms by (cases L) (auto simp: print_attrs_def xml_print_attr_def xml_name_char_def ascii_class_defs)

definition elem_trip :: "xml_item \<Rightarrow> bool" where
  "elem_trip t = (\<forall>f depth st d parent r. is_xelem t \<longrightarrow> xml_item_ok t \<longrightarrow> depth + xml_item_nesting t \<le> Suc xml_max_depth \<longrightarrow>
     xml_lookup_prefix st None = parent \<longrightarrow> 2 * length (xml_serialize_node parent depth (xml_dom d parent t)) \<le> f \<longrightarrow>
     (\<exists>n. xml_parse_element f depth st (xml_serialize_node parent depth (xml_dom d parent t) @ r) = Inr (n, st, r)
        \<and> xml_erase n = xml_erase (xml_dom True parent t)))"

definition content_trip :: "xml_item list \<Rightarrow> bool" where
  "content_trip ts = (\<forall>f depth st d u q r. xml_items_ok ts \<longrightarrow> depth + xml_items_nesting ts \<le> xml_max_depth \<longrightarrow>
     xml_lookup_prefix st None = Some u \<longrightarrow> xml_plain_name q \<longrightarrow>
     2 * length (xml_serialize_list (Some u) (Suc depth) (xml_doms d (Some u) ts)) < f \<longrightarrow>
     (\<exists>ch. xml_parse_content f depth st q
          (xml_serialize_list (Some u) (Suc depth) (xml_doms d (Some u) ts) @ ''</'' @ q @ CHR ''>'' # r) = Inr (ch, st, r)
        \<and> map xml_erase ch = map xml_erase (xml_doms True (Some u) ts)))"

lemma end_tag_print:
  assumes "xml_plain_name q"
  shows "xml_end_tag q (''</'' @ q @ CHR ''>'' # r) = Inr r"
  using xml_read_plain_name [OF assms, of "CHR ''>'' # r"]
  by (simp add: xml_end_tag_def xml_name_char_def ascii_class_defs xml_skip_space_def xml_is_space_def)

lemma elem_trip_step:
  assumes "content_trip ch"
  shows "elem_trip (XElem u name L ch)"
  unfolding elem_trip_def
proof (intro allI impI)
  fix f depth st d parent r
  assume ok: "xml_item_ok (XElem u name L ch)" and depth: "depth + xml_item_nesting (XElem u name L ch) \<le> Suc xml_max_depth"
    and st: "xml_lookup_prefix st None = parent"
    and f: "2 * length (xml_serialize_node parent depth (xml_dom d parent (XElem u name L ch))) \<le> f"
  have okk: "NUL \<notin> set u" "xml_plain_name name" "list_all xml_attr_ok L" "distinct (map fst L)" "xml_items_ok ch"
    using ok by simp_all
  have dep: "depth \<le> xml_max_depth" "depth < ns_dom_max_depth" "depth + xml_items_nesting ch \<le> xml_max_depth"
    using depth by (simp_all add: xml_max_depth_def ns_dom_max_depth_def)
  define b where "b = (parent \<noteq> Some u)"
  define A where "A = xmlns_if b u @ xmlns_if (d \<and> b) u @ L"
  obtain g where g: "xml_dom d parent (XElem u name L ch) = XmlTree (dom_node (d \<and> b) u name L g) (xml_doms d (Some u) ch)"
    using xml_dom_elem [OF ok, of d parent] by (auto simp: b_def)
  obtain g2 where g2: "xml_dom True parent (XElem u name L ch) = XmlTree (dom_node b u name L g2) (xml_doms True (Some u) ch)"
    using xml_dom_elem [OF ok, of True parent] by (auto simp: b_def)
  define st1 where "st1 = foldl xml_declare st A"
  have st1: "st1 = st @ (if parent \<noteq> Some u then [(None, u)] else []) @ (if d \<and> parent \<noteq> Some u then [(None, u)] else [])"
    using declare_attrs [OF okk(3), of st b u "d \<and> b"] by (simp add: st1_def A_def b_def)
  have look: "xml_lookup_prefix st1 None = Some u" unfolding st1 by (rule lookup_declared [OF st])
  have cut: "take (length st) st1 = st" by (simp add: st1)
  have bb: "(b \<or> d \<and> b) = b" by blast
  obtain g3 where g3: "xml_new_element st1 name A = dom_node b u name L g3"
    using new_element_print [OF okk(2,1,3,4) look, of b "d \<and> b", unfolded bb, folded A_def] by blast
  have pr: "list_all printable_attr A" unfolding A_def by (rule printable_ok [OF okk(1,3)])
  define S where "S = xml_serialize_node parent depth (xml_dom d parent (XElem u name L ch))"
  define body where "body = (if xml_doms d (Some u) ch = [] then (if u = xml_ns_xhtml \<and> \<not> ns_html_is_void name then ''></'' @ name @ ''>'' else '' />'')
         else ''>'' @ xml_serialize_list (Some u) (Suc depth) (xml_doms d (Some u) ch) @ ''</'' @ name @ ''>'')"
  have S: "S = ''<'' @ name @ print_attrs A @ body"
    unfolding S_def g serialize_element [OF dep(2) okk(3,1)] A_def b_def body_def by simp
  obtain f1 where f1: "f = Suc f1" using f S by (cases f) (simp_all add: S_def)
  have gt: "\<not> xml_name_char CHR ''>'' False" "\<not> xml_name_char SP False" by (simp_all add: xml_name_char_def ascii_class_defs)
  have sk: "xml_skip_space (CHR ''>'' # z) = CHR ''>'' # z" "xml_skip_space (SP # CHR ''/'' # z) = CHR ''/'' # z" for z
    by (simp_all add: xml_skip_space_def xml_is_space_def)
  have "\<exists>n. xml_parse_element (Suc f1) depth st (S @ r) = Inr (n, st, r)
        \<and> xml_erase n = xml_erase (XmlTree (dom_node b u name L g2) (xml_doms True (Some u) ch))"
  proof (cases "xml_doms d (Some u) ch = [] \<and> \<not> (u = xml_ns_xhtml \<and> \<not> ns_html_is_void name)")
    case True
    then have c: "ch = []" by (cases ch) auto
    have "xml_start_tag st (''<'' @ name @ print_attrs A @ SP # CHR ''/'' # CHR ''>'' # r) = Inr (xml_new_element st1 name A, name, st1, False, r)"
      unfolding st1_def
      by (rule start_tag_print [OF okk(2) pr print_attrs_first [OF gt(2)] sk(2)]) simp
    moreover have "body = '' />''" using True by (auto simp: body_def)
    ultimately show ?thesis using dep(1) g3 by (simp add: S c cut erase_dom_node)
  next
    case False
    define T where "T = xml_serialize_list (Some u) (Suc depth) (xml_doms d (Some u) ch) @ ''</'' @ name @ CHR ''>'' # r"
    have body: "body @ r = CHR ''>'' # T" using False by (cases ch) (auto simp: body_def T_def)
    have tag: "xml_start_tag st (''<'' @ name @ print_attrs A @ CHR ''>'' # T) = Inr (xml_new_element st1 name A, name, st1, True, T)"
      unfolding st1_def
      by (rule start_tag_print [OF okk(2) pr print_attrs_first [OF gt(1)] sk(1)]) simp
    have "length (xml_serialize_list (Some u) (Suc depth) (xml_doms d (Some u) ch)) \<le> length body"
      using False by (cases ch) (auto simp: body_def)
    then have "2 * length (xml_serialize_list (Some u) (Suc depth) (xml_doms d (Some u) ch)) < f1"
      using f S by (simp add: f1 S_def)
    then obtain ns where ns: "xml_parse_content f1 depth st1 name T = Inr (ns, st1, r)"
        "map xml_erase ns = map xml_erase (xml_doms True (Some u) ch)"
      using assms okk(5) dep(3) look okk(2) unfolding content_trip_def T_def by blast
    then show ?thesis using tag dep(1) g3 body
      by (simp add: S cut erase_dom_node)
  qed
  then show "\<exists>n. xml_parse_element f depth st (xml_serialize_node parent depth (xml_dom d parent (XElem u name L ch)) @ r) = Inr (n, st, r)
        \<and> xml_erase n = xml_erase (xml_dom True parent (XElem u name L ch))"
    unfolding S_def [symmetric] g2 f1 .
qed

lemma elem_print_start:
  assumes "xml_item_ok t" "is_xelem t" "depth < ns_dom_max_depth"
  obtains c z where "xml_serialize_node parent depth (xml_dom d parent t) = CHR ''<'' # c # z"
    "c \<notin> {CHR ''!'', CHR ''?'', CHR ''/''}"
proof -
  obtain u name L ch where t: "t = XElem u name L ch" using assms(2) by (cases t) auto
  obtain g where g: "xml_dom d parent t = XmlTree (dom_node (d \<and> parent \<noteq> Some u) u name L g) (xml_doms d (Some u) ch)"
    using xml_dom_elem [OF assms(1) [unfolded t], of d parent] unfolding t by blast
  have ok: "list_all xml_attr_ok L" "NUL \<notin> set u" "xml_plain_name name" using assms(1) by (simp_all add: t)
  obtain c z where n: "name = c # z" "c \<notin> {CHR ''!'', CHR ''?'', CHR ''/'', CHR ''>'', SP, HT, LF, CR}"
    by (rule plain_name_first [OF ok(3)])
  then have cz: "name = c # z" "c \<notin> {CHR ''!'', CHR ''?'', CHR ''/''}" by simp_all
  show thesis by (rule that [OF _ cz(2)], unfold g serialize_element [OF assms(3) ok(1,2)], unfold cz(1) append_Cons append_Nil, rule refl)
qed

lemma nontext_print_start:
  assumes "xml_item_ok t" "\<not> is_xtext t" "depth < ns_dom_max_depth"
  shows "starts_with ''<'' (xml_serialize_node parent depth (xml_dom d parent t) @ r)"
proof (cases "is_xelem t")
  case True
  then show ?thesis using elem_print_start [OF assms(1) True assms(3)] by (metis append_Cons starts_with.simps(1,3))
next
  case False
  then show ?thesis
  proof (cases t)
    case (XPi target data)
    then show ?thesis using assms pi_node_fields [of target data d parent]
      by (simp add: ns_node_new_comment_def ns_node_new_def add_flags_def del: xml_dom.simps)
  qed (use assms in \<open>simp_all add: xml_comment_node_def ns_node_new_comment_def ns_node_new_def\<close>)
qed

lemma content_trip_nil: "content_trip []"
  unfolding content_trip_def
proof (intro allI impI)
  fix f depth st d u q r
  assume q: "xml_plain_name q" and "2 * length (xml_serialize_list (Some u) (Suc depth) (xml_doms d (Some u) [])) < f"
  then obtain f1 where "f = Suc f1" by (cases f) auto
  then show "\<exists>ch. xml_parse_content f depth st q
      (xml_serialize_list (Some u) (Suc depth) (xml_doms d (Some u) []) @ ''</'' @ q @ CHR ''>'' # r) = Inr (ch, st, r)
      \<and> map xml_erase ch = map xml_erase (xml_doms True (Some u) [])"
    using end_tag_print [OF q, of r] by simp
qed

lemma content_trip_step:
  assumes "elem_trip t" "content_trip ts"
  shows "content_trip (t # ts)"
  unfolding content_trip_def
proof (intro allI impI)
  fix f depth st d u q r
  assume ok: "xml_items_ok (t # ts)" and depth: "depth + xml_items_nesting (t # ts) \<le> xml_max_depth"
    and st: "xml_lookup_prefix st None = Some u" and q: "xml_plain_name q"
    and f: "2 * length (xml_serialize_list (Some u) (Suc depth) (xml_doms d (Some u) (t # ts))) < f"
  define S where "S = xml_serialize_node (Some u) (Suc depth) (xml_dom d (Some u) t)"
  define T where "T = xml_serialize_list (Some u) (Suc depth) (xml_doms d (Some u) ts)"
  define R where "R = T @ ''</'' @ q @ CHR ''>'' # r"
  have t: "xml_item_ok t" "xml_items_ok ts" "is_xtext t \<Longrightarrow> ts = [] \<or> \<not> is_xtext (hd ts)" using ok by auto
  have dep: "Suc depth < ns_dom_max_depth" "depth + xml_items_nesting ts \<le> xml_max_depth"
    "Suc depth + xml_item_nesting t \<le> Suc xml_max_depth"
    using depth by (simp_all add: xml_max_depth_def ns_dom_max_depth_def)
  obtain f1 where f1: "f = Suc f1" using f by (cases f) auto
  have len: "2 * length S + 2 * length T \<le> f1" using f by (simp add: f1 S_def T_def)
  have fin: "\<exists>ch. xml_parse_content (Suc f1) depth st q (S @ R) = Inr (ch, st, r)
      \<and> map xml_erase ch = map xml_erase (xml_doms True (Some u) (t # ts))"
  proof (cases "is_xelem t")
    case True
    obtain c z where cz: "S = CHR ''<'' # c # z" "c \<notin> {CHR ''!'', CHR ''?'', CHR ''/''}"
      using elem_print_start [OF t(1) True dep(1)] unfolding S_def by metis
    obtain n where n: "xml_parse_element f1 (Suc depth) st (S @ R) = Inr (n, st, R)" "xml_erase n = xml_erase (xml_dom True (Some u) t)"
    proof -
      have "2 * length S \<le> f1" using len by simp
      then show thesis using assms(1) True t(1) dep(3) st that unfolding elem_trip_def S_def by blast
    qed
    obtain ch where ch: "xml_parse_content f1 depth st q R = Inr (ch, st, r)" "map xml_erase ch = map xml_erase (xml_doms True (Some u) ts)"
    proof -
      have "2 * length T < f1" using len cz by simp
      then show thesis using assms(2) t(2) dep(2) st q that unfolding content_trip_def T_def R_def by blast
    qed
    have c: "CHR ''!'' \<noteq> c" "CHR ''?'' \<noteq> c" "CHR ''/'' \<noteq> c" using cz(2) by auto
    then have "xml_leaf (S @ R) = None" using cz(1) by (simp add: xml_leaf_def)
    then show ?thesis using n ch cz(1) c by simp
  next
    case False
    have next_tag: "starts_with ''<'' R" if "is_xtext t"
    proof (cases ts)
      case Nil
      then show ?thesis by (simp add: R_def T_def)
    next
      case (Cons x xs)
      then show ?thesis using t(2,3) that nontext_print_start [of x "Suc depth" "Some u" d] dep(1) by (simp add: R_def T_def)
    qed
    note leaf = leaf_print [OF t(1) False dep(1) next_tag, of "Some u" d, folded S_def]
    have "0 < length S" using leaf(2) by simp
    then have "2 * length T < f1" using len by linarith
    then obtain ch where ch: "xml_parse_content f1 depth st q R = Inr (ch, st, r)" "map xml_erase ch = map xml_erase (xml_doms True (Some u) ts)"
      using assms(2) t(2) dep(2) st q unfolding content_trip_def T_def R_def by blast
    show ?thesis using leaf ch by simp
  qed
  then show "\<exists>ch. xml_parse_content f depth st q
          (xml_serialize_list (Some u) (Suc depth) (xml_doms d (Some u) (t # ts)) @ ''</'' @ q @ CHR ''>'' # r) = Inr (ch, st, r)
        \<and> map xml_erase ch = map xml_erase (xml_doms True (Some u) (t # ts))"
    by (simp add: f1 S_def R_def T_def)
qed

lemma trips: "elem_trip t" "content_trip ts"
proof (induction t and ts rule: xml_item_nesting_xml_items_nesting.induct)
  case (1 u name attrs ch)
  then show ?case by (rule elem_trip_step)
next
  case 5
  show ?case by (rule content_trip_nil)
next
  case (6 c cs)
  then show ?case by (rule content_trip_step)
qed (simp_all add: elem_trip_def)

section \<open>Properties\<close>

text \<open>What the parser accepts although XML forbids it: an element without its end tag, input after
  the root element, and an attribute given twice.\<close>

definition xml_accepts :: "string \<Rightarrow> bool" where
  "xml_accepts s = (case ns_xml_parse_reporting s of Inl e \<Rightarrow> False | Inr t \<Rightarrow> True)"

lemma accepts_unclosed: "xml_accepts ''<a><b>text''"
  by code_simp

lemma accepts_trailing: "xml_accepts ''<a/>junk<b>''"
  by code_simp

lemma accepts_duplicate: "xml_accepts ''<a x='1' x='2'/>''"
  by code_simp

text \<open>The serializer prints the declaration of a parsed element twice.\<close>

lemma serializes_xmlns_twice:
  "(case ns_xml_parse_reporting ''<a xmlns='u'/>'' of
      Inr (XmlTree doc [root]) \<Rightarrow> ns_node_xml_outer_html root = ''<a xmlns='' @ [DQ] @ ''u'' @ [DQ] @ '' xmlns='' @ [DQ] @ ''u'' @ [DQ] @ '' />''
    | _ \<Rightarrow> False)"
  by code_simp

text \<open>(C18) The parser always ends with a document or an error: the fuel, twice the length of the
  input, is never used up. The elements of an accepted document are nested at most 257 deep, so
  the recursion is bounded whatever the page sends.\<close>

theorem xml_parse_terminates:
  "ns_xml_parse_reporting input \<noteq> Inl None \<and>
   (case ns_xml_parse_reporting input of Inl e \<Rightarrow> True
    | Inr (XmlTree doc nodes) \<Rightarrow> xml_nestings nodes \<le> Suc xml_max_depth)"
proof -
  have leafs: "xml_nestings (fst (xml_skip_misc_and_doctype s)) = 0" for s
  proof (induction s rule: xml_skip_misc_and_doctype.induct)
    case (1 s)
    have append: "xml_nestings (a @ b) = max (xml_nestings a) (xml_nestings b)" for a b by (induction a) auto
    have item: "xml_nestings n = 0" if "xml_misc_item (xml_skip_space s) = Inr (n, r)" for n r
      using that by (auto simp: xml_misc_item_def xml_doctype_node_def xml_pi_node_def xml_comment_node_def Let_def
          ns_node_new_comment_def ns_node_new_def add_flags_def split: if_splits option.splits)
    show ?case using 1 item
      by (auto simp: xml_skip_misc_and_doctype.simps [of s] append Let_def split: sum.splits prod.splits)
  qed
  obtain before p where p: "xml_skip_misc_and_doctype (if take 3 input = [CHR 0xEF, CHR 0xBB, CHR 0xBF] then drop 3 input else input) = (before, p)"
    by (metis surj_pair)
  have "xml_parse_element (xml_fuel p) 0 [] p \<noteq> Inl XmlFuel" if "starts_with ''<'' p"
  proof -
    have "p \<noteq> []" using that by auto
    moreover have "2 * length p \<le> xml_fuel p" by (simp add: xml_fuel_def)
    ultimately show ?thesis using xml_fuel_enough [of "xml_fuel p"] by blast
  qed
  moreover have "xml_nesting n \<le> Suc xml_max_depth" if "xml_parse_element (xml_fuel p) 0 [] p = Inr (n, st, r)" for n st r
    using xml_nesting_bound [of "xml_fuel p"] that by fastforce
  moreover have "xml_nestings before = 0" using leafs p by (metis fst_conv)
  moreover have "xml_nestings (a @ b) = max (xml_nestings a) (xml_nestings b)" for a b by (induction a) auto
  ultimately show ?thesis
    using leafs by (auto simp: ns_xml_parse_reporting_def p split: sum.splits xml_stop.splits)
qed

text \<open>(C17) The XML parser reads what the XML serializer writes. For every document whose
  elements and attributes have no prefix, with any namespaces, nested at most 257 deep, the
  text that \<open>ns_node_xml_outer_html\<close> prints for its nodes is parsed into the same nodes: names,
  namespaces, attributes and values, text, comments and processing instructions, in order. The
  elements carry the namespace declarations that were printed, and printing and parsing once
  more changes nothing.\<close>

theorem xml_roundtrip:
  assumes "xml_item_ok t" "is_xelem t" "xml_item_nesting t \<le> 257"
  shows "\<exists>doc root. ns_xml_parse_reporting (ns_node_xml_outer_html (xml_dom decl None t))
      = Inr (XmlTree doc [root]) \<and> nd_kind doc = NodeDocument \<and> xml_erase root = xml_erase (xml_dom True None t)"
proof -
  define S where "S = xml_serialize_node None 0 (xml_dom decl None t)"
  obtain c z where cz: "S = CHR ''<'' # c # z" "c \<notin> {CHR ''!'', CHR ''?'', CHR ''/''}"
    using elem_print_start [OF assms(1,2)] unfolding S_def by (metis ns_dom_max_depth_def zero_less_numeral)
  have "ascii_tolower c \<noteq> CHR ''!''"
  proof
    assume "ascii_tolower c = CHR ''!''"
    then have "code (ascii_tolower c) = 33" by simp
    then have "code c = code (CHR ''!'')" by (simp add: code_tolower split: if_splits)
    then show False using cz(2) by (simp only: of_char_eq_iff) simp
  qed
  moreover have "ascii_tolower (CHR ''!'') = CHR ''!''" by code_simp
  moreover have "CHR ''!'' \<noteq> c" "CHR ''?'' \<noteq> c" using cz(2) by auto
  ultimately have "xml_misc_item S = Inl S" using cz(1) by (simp add: xml_misc_item_def strncaseeq_def)
  moreover have "xml_skip_space S = S" using cz by (simp add: xml_skip_space_def xml_is_space_def)
  ultimately have misc: "xml_skip_misc_and_doctype S = ([], S)" by (simp add: xml_skip_misc_and_doctype.simps [of S])
  have misc0: "xml_skip_misc_and_doctype [] = ([], [])"
    by (simp add: xml_skip_misc_and_doctype.simps [of "[]"] xml_misc_item_def xml_skip_space_def strncaseeq_def)
  have bom: "take 3 S \<noteq> [CHR 0xEF, CHR 0xBB, CHR 0xBF]" using cz by simp
  obtain n where "xml_parse_element (xml_fuel S) 0 [] (S @ []) = Inr (n, [], [])" "xml_erase n = xml_erase (xml_dom True None t)"
  proof -
    have "0 + xml_item_nesting t \<le> Suc xml_max_depth" "xml_lookup_prefix [] None = None" "2 * length S \<le> xml_fuel S"
      using assms(3) by (simp_all add: xml_max_depth_def xml_lookup_prefix_def xml_fuel_def)
    then show thesis using trips(1) [of t] assms(1,2) that unfolding elem_trip_def S_def by blast
  qed
  then show ?thesis using misc misc0 bom cz
    by (simp add: ns_xml_parse_reporting_def ns_node_xml_outer_html_def ns_node_new_document_def ns_node_new_def flip: S_def)
qed

theorem xml_roundtrip_witness:
  "\<exists>doc root. ns_xml_parse_reporting (ns_node_xml_outer_html (xml_dom False None
        (XElem ''http://www.w3.org/2000/svg'' ''g'' [(''id'', ''a&b'')]
          [XText ''1<2'', XElem [] ''x'' [] [], XPi ''t'' ''d'', XComment ''-'' ])))
      = Inr (XmlTree doc [root]) \<and> nd_kind doc = NodeDocument
      \<and> xml_erase root = xml_erase (xml_dom True None
        (XElem ''http://www.w3.org/2000/svg'' ''g'' [(''id'', ''a&b'')]
          [XText ''1<2'', XElem [] ''x'' [] [], XPi ''t'' ''d'', XComment ''-'' ]))"
  by (rule xml_roundtrip) code_simp+

end
