(* ===== verification/Bytecode_Cache.thy ===== *)
theory Bytecode_Cache
  imports CString
begin

text \<open>
  The cache of compiled scripts (\<open>src/src/bytecode_cache.c\<close>): entries in memory under a budget
  with the least recently used one dropped first, and a file per entry. The digest of a source
  (SHA-256 in hexadecimal) is a parameter \<open>hash\<close>, the clock and the success of a write are
  inputs of the operations. Files are a map from paths to contents; a file that cannot be read
  counts as absent. The hash table is a list of keys and entries in the order of its iteration.
\<close>

definition bc_mem_cap :: nat where "bc_mem_cap = 16 * 1024 * 1024"
definition bc_value_cap :: nat where "bc_value_cap = 4 * 1024 * 1024"
definition bc_format_version :: nat where "bc_format_version = 2026052201"
definition bc_magic :: nat where "bc_magic = 0x4E4A4243"

record bc_entry =
  be_bytes :: string
  be_used_us :: int

record bc_state =
  g_mem :: "(string \<times> bc_entry) list option"
  g_mem_bytes :: "64 word"
  g_dir :: cptr
  bc_files :: "string \<Rightarrow> string option"

definition ns_bytecode_cache_init :: "bool \<Rightarrow> string \<Rightarrow> bc_state \<Rightarrow> bc_state" where
  "ns_bytecode_cache_init cache_enabled dir st =
     (let st1 = (if g_mem st = None then st\<lparr>g_mem := Some []\<rparr> else st)
      in if g_dir st1 = None \<and> cache_enabled then st1\<lparr>g_dir := Some dir\<rparr> else st1)"

definition ns_bytecode_cache_shutdown :: "bc_state \<Rightarrow> bc_state" where
  "ns_bytecode_cache_shutdown st = st\<lparr>g_mem := None, g_mem_bytes := 0, g_dir := None\<rparr>"

section \<open>Files\<close>

definition disk_path_for :: "bc_state \<Rightarrow> string \<Rightarrow> cptr" where
  "disk_path_for st key =
     (case g_dir st of None \<Rightarrow> None
      | Some base \<Rightarrow> if key = [] then None else Some (base @ ''/'' @ take 2 key @ ''/'' @ drop 2 key))"

text \<open>A 32-bit number as four bytes, least significant first.\<close>

definition le32 :: "nat \<Rightarrow> string" where
  "le32 n = [char_of (n mod 256), char_of (n div 256 mod 256), char_of (n div 65536 mod 256), char_of (n div 16777216 mod 256)]"

definition read_disk :: "bc_state \<Rightarrow> string \<Rightarrow> cptr" where
  "read_disk st key =
     (case disk_path_for st key of None \<Rightarrow> None
      | Some path \<Rightarrow>
        case bc_files st path of None \<Rightarrow> None
        | Some contents \<Rightarrow>
          if length contents < 8 \<or> bc_value_cap + 8 < length contents then None
          else if take 4 contents \<noteq> le32 bc_magic \<or> take 4 (drop 4 contents) \<noteq> le32 bc_format_version then None
          else let bc = drop 8 contents in if bc = [] \<or> bc_value_cap < length bc then None else Some bc)"

definition write_disk :: "bool \<Rightarrow> string \<Rightarrow> string \<Rightarrow> bc_state \<Rightarrow> bc_state" where
  "write_disk wrote key bc st =
     (case disk_path_for st key of None \<Rightarrow> st
      | Some path \<Rightarrow>
        if wrote then st\<lparr>bc_files := (bc_files st)(path \<mapsto> le32 bc_magic @ le32 bc_format_version @ bc)\<rparr> else st)"

section \<open>Memory\<close>

text \<open>The entry used longest ago; the search starts from \<open>G_MAXINT64\<close>.\<close>

fun oldest_entry :: "int \<Rightarrow> (string \<times> bc_entry) option \<Rightarrow> (string \<times> bc_entry) list \<Rightarrow> (string \<times> bc_entry) option" where
  "oldest_entry oldest_us best [] = best"
| "oldest_entry oldest_us best ((k, e) # es) =
     (if be_used_us e < oldest_us then oldest_entry (be_used_us e) (Some (k, e)) es else oldest_entry oldest_us best es)"

definition g_maxint64 :: int where "g_maxint64 = 2 ^ 63 - 1"

definition hash_table_remove :: "string \<Rightarrow> (string \<times> 'a) list \<Rightarrow> (string \<times> 'a) list" where
  "hash_table_remove k es = filter (\<lambda>x. fst x \<noteq> k) es"

lemma oldest_entry_in: "oldest_entry us best es = Some x \<Longrightarrow> x \<in> set es \<or> best = Some x"
  by (induction us best es rule: oldest_entry.induct) (auto split: if_splits)

function evict_loop :: "64 word \<Rightarrow> (string \<times> bc_entry) list \<Rightarrow> 64 word \<Rightarrow> (string \<times> bc_entry) list \<times> 64 word" where
  "evict_loop want es used =
     (if unat (used + want) \<le> bc_mem_cap then (es, used)
      else case oldest_entry g_maxint64 None es of None \<Rightarrow> (es, used)
      | Some (k, e) \<Rightarrow> evict_loop want (hash_table_remove k es) (used - word_of_nat (length (be_bytes e))))"
  by pat_completeness auto
termination
proof (relation "measure (length \<circ> fst \<circ> snd)", goal_cases)
  case (2 want es used x k e)
  then have "(k, e) \<in> set es" using oldest_entry_in [of g_maxint64 None es "(k, e)"] by simp
  then show ?case by (auto simp: hash_table_remove_def intro!: length_filter_less)
qed simp

declare evict_loop.simps [simp del]

definition evict_until_fits :: "nat \<Rightarrow> bc_state \<Rightarrow> bc_state" where
  "evict_until_fits want st =
     (case g_mem st of None \<Rightarrow> st
      | Some es \<Rightarrow> let (es1, used) = evict_loop (word_of_nat want) es (g_mem_bytes st)
                  in st\<lparr>g_mem := Some es1, g_mem_bytes := used\<rparr>)"

definition bc_insert :: "string \<Rightarrow> string \<Rightarrow> int \<Rightarrow> bc_state \<Rightarrow> bc_state" where
  "bc_insert key bc now st =
     (let st1 = evict_until_fits (length bc) st
      in st1\<lparr>g_mem := map_option (\<lambda>es. (key, \<lparr>be_bytes = bc, be_used_us = now\<rparr>) # es) (g_mem st1),
             g_mem_bytes := g_mem_bytes st1 + word_of_nat (length bc)\<rparr>)"

definition bc_touch :: "string \<Rightarrow> int \<Rightarrow> bc_state \<Rightarrow> bc_state" where
  "bc_touch key now st =
     st\<lparr>g_mem := map_option (map (\<lambda>(k, e). (k, if k = key then e\<lparr>be_used_us := now\<rparr> else e))) (g_mem st)\<rparr>"

definition bc_lookup :: "string \<Rightarrow> bc_state \<Rightarrow> bc_entry option" where
  "bc_lookup key st = Option.bind (g_mem st) (\<lambda>es. map_of es key)"

definition ns_bytecode_cache_get :: "(string \<Rightarrow> string) \<Rightarrow> int \<Rightarrow> string \<Rightarrow> bc_state \<Rightarrow> cptr \<times> bc_state" where
  "ns_bytecode_cache_get hash now src st =
     (if src = [] then (None, st)
      else let key = hash src in
        if g_mem st = None then (None, st)
        else case bc_lookup key st of
          Some e \<Rightarrow> (Some (be_bytes e), bc_touch key now st)
        | None \<Rightarrow>
          case read_disk st key of None \<Rightarrow> (None, st)
          | Some disk \<Rightarrow>
            (Some disk, if length disk \<le> bc_value_cap then bc_insert key disk now st else st))"

definition ns_bytecode_cache_put ::
    "(string \<Rightarrow> string) \<Rightarrow> int \<Rightarrow> bool \<Rightarrow> bool \<Rightarrow> string \<Rightarrow> string \<Rightarrow> bc_state \<Rightarrow> bc_state" where
  "ns_bytecode_cache_put hash now private_mode wrote src bc st =
     (if src = [] \<or> bc = [] then st
      else if bc_value_cap < length bc then st
      else let key = hash src in
        if g_mem st = None then st
        else case bc_lookup key st of
          Some e \<Rightarrow> bc_touch key now st
        | None \<Rightarrow>
          let st1 = bc_insert key bc now st
          in if \<not> private_mode then write_disk wrote key bc st1 else st1)"

section \<open>The invariant\<close>

definition mem_size :: "(string \<times> bc_entry) list \<Rightarrow> nat" where
  "mem_size es = sum_list (map (\<lambda>x. length (be_bytes (snd x))) es)"

definition mem_ok :: "(string \<times> bc_entry) list \<Rightarrow> 64 word \<Rightarrow> bool" where
  "mem_ok es used = (distinct (map fst es) \<and> unat used = mem_size es \<and> mem_size es \<le> bc_mem_cap
     \<and> list_all (\<lambda>x. be_used_us (snd x) < g_maxint64) es)"

definition bc_ok :: "bc_state \<Rightarrow> bool" where
  "bc_ok st = (case g_mem st of None \<Rightarrow> g_mem_bytes st = 0 | Some es \<Rightarrow> mem_ok es (g_mem_bytes st))"

lemma oldest_entry_none:
  "oldest_entry us best es = None \<Longrightarrow> best = None \<and> list_all (\<lambda>x. us \<le> be_used_us (snd x)) es"
  by (induction us best es rule: oldest_entry.induct) (auto split: if_splits)

text \<open>The search finds an entry no other entry is older than.\<close>

lemma oldest_entry_least:
  assumes "oldest_entry us best es = Some x" "\<And>y. best = Some y \<Longrightarrow> be_used_us (snd y) = us"
  shows "be_used_us (snd x) \<le> us \<and> list_all (\<lambda>y. be_used_us (snd x) \<le> be_used_us (snd y)) es"
  using assms
proof (induction us best es rule: oldest_entry.induct)
  case (2 us best k e es)
  show ?case
  proof (cases "be_used_us e < us")
    case True
    then show ?thesis using 2(1) 2(3) by fastforce
  next
    case False
    then show ?thesis using 2(2) [OF False] 2(3,4) by fastforce
  qed
qed simp

lemma mem_size_remove:
  assumes "distinct (map fst es)" "(k, e) \<in> set es"
  shows "mem_size es = mem_size (hash_table_remove k es) + length (be_bytes e)"
  using assms
proof (induction es)
  case (Cons x es)
  show ?case
  proof (cases "x = (k, e)")
    case True
    then have "hash_table_remove k es = es" using Cons.prems(1) by (force simp: hash_table_remove_def filter_id_conv)
    then show ?thesis using True by (simp add: mem_size_def hash_table_remove_def)
  next
    case False
    then have "(k, e) \<in> set es" using Cons.prems by auto
    moreover from this have "k \<in> fst ` set es" by force
    then have "fst x \<noteq> k" using Cons.prems(1) by auto
    moreover from this have "hash_table_remove k (x # es) = x # hash_table_remove k es" by (simp add: hash_table_remove_def)
    ultimately show ?thesis using Cons by (simp add: mem_size_def)
  qed
qed simp

lemma evict_loop_ok:
  assumes "mem_ok es used" "unat want \<le> bc_value_cap"
  shows "\<exists>es1 t1. evict_loop want es used = (es1, t1) \<and> mem_ok es1 t1 \<and> set es1 \<subseteq> set es
     \<and> mem_size es1 + unat want \<le> bc_mem_cap"
  using assms
proof (induction want es used rule: evict_loop.induct)
  case (1 want es used)
  have small: "unat (used + want) = mem_size es + unat want"
    using 1(2,3) by (subst unat_add_lem [THEN iffD1]) (auto simp: mem_ok_def bc_mem_cap_def bc_value_cap_def)
  show ?case
  proof (cases "unat (used + want) \<le> bc_mem_cap")
    case True
    then show ?thesis using 1(2) small by (simp add: evict_loop.simps [of want es used])
  next
    case False
    show ?thesis
    proof (cases "oldest_entry g_maxint64 None es")
      case None
      then have "es = []" using oldest_entry_none [OF None] 1(2) by (cases es) (auto simp: mem_ok_def)
      then have "unat (used + want) \<le> bc_mem_cap" using small 1(3) by (simp add: mem_size_def bc_mem_cap_def bc_value_cap_def)
      with False show ?thesis by simp
    next
      case (Some x)
      obtain k e where x: "x = (k, e)" by (cases x)
      have mem: "(k, e) \<in> set es" using oldest_entry_in [OF Some] by (simp add: x)
      define es2 where "es2 = hash_table_remove k es"
      have size: "mem_size es = mem_size es2 + length (be_bytes e)"
        using mem_size_remove [OF _ mem] 1(2) by (simp add: mem_ok_def es2_def)
      have sub: "set es2 \<subseteq> set es" by (auto simp: es2_def hash_table_remove_def)
      have "unat (used - word_of_nat (length (be_bytes e))) = mem_size es2"
      proof -
        have l: "length (be_bytes e) \<le> unat used" using size 1(2) by (simp add: mem_ok_def)
        moreover have "unat used < 2 ^ 64" using unsigned_less [of used] by simp
        ultimately have "length (be_bytes e) < 2 ^ 64" by linarith
        then have "unat (word_of_nat (length (be_bytes e)) :: 64 word) = length (be_bytes e)"
          by (simp add: unsigned_of_nat take_bit_nat_eq_self)
        then show ?thesis using l size 1(2) by (subst unat_sub) (simp_all add: word_le_nat_alt mem_ok_def)
      qed
      then have "mem_ok es2 (used - word_of_nat (length (be_bytes e)))"
        using 1(2) size sub by (auto simp: mem_ok_def es2_def hash_table_remove_def distinct_map_filter list_all_iff)
      from 1(1) [OF False Some x [symmetric] this [unfolded es2_def] 1(3)] show ?thesis
        using False Some x sub by (auto simp: evict_loop.simps [of want es used] es2_def)
    qed
  qed
qed

lemma word_length: "n \<le> bc_value_cap \<Longrightarrow> unat (word_of_nat n :: 64 word) = n"
  by (simp add: unsigned_of_nat take_bit_nat_eq_self bc_value_cap_def)

lemma bc_insert_ok:
  assumes "mem_ok es used" "length bc \<le> bc_value_cap" "map_of es key = None" "now < g_maxint64"
    and "g_mem st = Some es" "g_mem_bytes st = used"
  shows "\<exists>es1 t1. g_mem (bc_insert key bc now st) = Some ((key, \<lparr>be_bytes = bc, be_used_us = now\<rparr>) # es1) \<and> set es1 \<subseteq> set es
     \<and> g_mem_bytes (bc_insert key bc now st) = t1 \<and> mem_ok ((key, \<lparr>be_bytes = bc, be_used_us = now\<rparr>) # es1) t1
     \<and> g_dir (bc_insert key bc now st) = g_dir st \<and> bc_files (bc_insert key bc now st) = bc_files st"
proof -
  have w: "unat (word_of_nat (length bc) :: 64 word) = length bc" by (rule word_length [OF assms(2)])
  obtain es1 t1 where ev: "evict_loop (word_of_nat (length bc)) es used = (es1, t1)" "mem_ok es1 t1" "set es1 \<subseteq> set es"
      "mem_size es1 + length bc \<le> bc_mem_cap"
    using evict_loop_ok [OF assms(1), of "word_of_nat (length bc)"] assms(2) w by auto
  have "unat (t1 + word_of_nat (length bc)) = mem_size es1 + length bc"
    using ev(2,4) w by (subst unat_add_lem [THEN iffD1]) (simp_all add: mem_ok_def bc_mem_cap_def)
  moreover have "key \<notin> fst ` set es1" using assms(3) ev(3) by (auto simp: map_of_eq_None_iff)
  ultimately have "mem_ok ((key, \<lparr>be_bytes = bc, be_used_us = now\<rparr>) # es1) (t1 + word_of_nat (length bc))"
    using ev(2,4) assms(4) by (simp add: mem_ok_def mem_size_def)
  then show ?thesis using ev assms(5,6) by (simp add: bc_insert_def evict_until_fits_def Let_def)
qed

lemma bc_touch_ok:
  assumes "bc_ok st" "now < g_maxint64"
  shows "bc_ok (bc_touch key now st)"
proof (cases "g_mem st")
  case None
  then show ?thesis using assms(1) by (simp add: bc_ok_def bc_touch_def)
next
  case (Some es)
  have "mem_size (map (\<lambda>(k, e). (k, if k = key then e\<lparr>be_used_us := now\<rparr> else e)) es) = mem_size es"
    by (induction es) (auto simp: mem_size_def)
  moreover have "map fst (map (\<lambda>(k, e). (k, if k = key then e\<lparr>be_used_us := now\<rparr> else e)) es) = map fst es"
    by (induction es) auto
  ultimately show ?thesis using assms Some
    by (auto simp: bc_ok_def bc_touch_def mem_ok_def list_all_iff simp del: map_map)
qed

section \<open>Runs\<close>

datatype bc_op = BcInit bool string | BcShutdown | BcGet int string | BcPut int bool bool string string

fun bc_step :: "(string \<Rightarrow> string) \<Rightarrow> bc_op \<Rightarrow> bc_state \<Rightarrow> bc_state" where
  "bc_step hash (BcInit cache_enabled dir) st = ns_bytecode_cache_init cache_enabled dir st"
| "bc_step hash BcShutdown st = ns_bytecode_cache_shutdown st"
| "bc_step hash (BcGet now src) st = snd (ns_bytecode_cache_get hash now src st)"
| "bc_step hash (BcPut now private_mode wrote src bc) st = ns_bytecode_cache_put hash now private_mode wrote src bc st"

fun bc_clock :: "bc_op \<Rightarrow> bool" where
  "bc_clock (BcGet now src) = (now < g_maxint64)"
| "bc_clock (BcPut now private_mode wrote src bc) = (now < g_maxint64)"
| "bc_clock op = True"

definition bc_run :: "(string \<Rightarrow> string) \<Rightarrow> bc_op list \<Rightarrow> bc_state \<Rightarrow> bc_state" where
  "bc_run hash ops st = fold (bc_step hash) ops st"

definition bc_start :: "(string \<Rightarrow> string option) \<Rightarrow> bc_state" where
  "bc_start files = \<lparr>g_mem = None, g_mem_bytes = 0, g_dir = None, bc_files = files\<rparr>"

text \<open>The code that was stored for a digest: by a call of \<open>ns_bytecode_cache_put\<close>, or before the
  start in the file of the digest in a directory used since.\<close>

fun bc_puts :: "(string \<Rightarrow> string) \<Rightarrow> bc_op \<Rightarrow> (string \<times> string) set" where
  "bc_puts hash (BcPut now private_mode wrote src bc) = {(hash src, bc)}"
| "bc_puts hash op = {}"

definition disk_codes :: "(string \<Rightarrow> string option) \<Rightarrow> (string \<times> string) set" where
  "disk_codes files = {(key, bc). \<exists>dir. files (dir @ ''/'' @ take 2 key @ ''/'' @ drop 2 key) = Some (le32 bc_magic @ le32 bc_format_version @ bc)}"

definition stored_codes :: "(string \<Rightarrow> string) \<Rightarrow> bc_op list \<Rightarrow> (string \<Rightarrow> string option) \<Rightarrow> (string \<times> string) set" where
  "stored_codes hash ops files = disk_codes files \<union> (\<Union>op \<in> set ops. bc_puts hash op)"

text \<open>Everything in memory and on disk was stored for its digest.\<close>

definition bc_known :: "(string \<times> string) set \<Rightarrow> bc_state \<Rightarrow> bool" where
  "bc_known H st =
     ((\<forall>es. g_mem st = Some es \<longrightarrow> (\<forall>(k, e) \<in> set es. (k, be_bytes e) \<in> H))
      \<and> (\<forall>dir key bc. length key = 64 \<longrightarrow>
           bc_files st (dir @ ''/'' @ take 2 key @ ''/'' @ drop 2 key) = Some (le32 bc_magic @ le32 bc_format_version @ bc) \<longrightarrow>
           (key, bc) \<in> H))"

lemma path_key:
  assumes "length key = 64" "length key' = 64"
    "dir @ ''/'' @ take 2 key @ ''/'' @ drop 2 key = dir' @ ''/'' @ take 2 key' @ ''/'' @ drop 2 key'"
  shows "key = key'"
proof -
  have "length (''/'' @ take 2 key @ ''/'' @ drop 2 key) = length (''/'' @ take 2 key' @ ''/'' @ drop 2 key')"
    using assms(1,2) by simp
  then have "''/'' @ take 2 key @ ''/'' @ drop 2 key = ''/'' @ take 2 key' @ ''/'' @ drop 2 key'"
    using assms(3) by (metis append_eq_append_conv)
  then have "take 2 key @ ''/'' @ drop 2 key = take 2 key' @ ''/'' @ drop 2 key'" by simp
  moreover have "length (take 2 key) = length (take 2 key')" using assms(1,2) by simp
  ultimately have "take 2 key = take 2 key'" "drop 2 key = drop 2 key'" by simp_all
  then show ?thesis by (metis append_take_drop_id)
qed

lemma read_disk_file:
  assumes "read_disk st key = Some bc"
  obtains dir where "bc_files st (dir @ ''/'' @ take 2 key @ ''/'' @ drop 2 key) = Some (le32 bc_magic @ le32 bc_format_version @ bc)"
    "bc \<noteq> []" "length bc \<le> bc_value_cap"
proof -
  obtain dir contents where c: "bc_files st (dir @ ''/'' @ take 2 key @ ''/'' @ drop 2 key) = Some contents"
      "take 4 contents = le32 bc_magic" "take 4 (drop 4 contents) = le32 bc_format_version" "bc = drop 8 contents"
      "bc \<noteq> []" "length bc \<le> bc_value_cap"
    using assms by (auto simp: read_disk_def disk_path_for_def Let_def split: option.splits if_splits)
  have "drop 4 contents = take 4 (drop 4 contents) @ drop 4 (drop 4 contents)" by (rule append_take_drop_id [symmetric])
  then have "contents = take 4 contents @ take 4 (drop 4 contents) @ drop 8 contents"
    using append_take_drop_id [of 4 contents] by simp
  then show thesis using that c by metis
qed

lemma bc_insert_known:
  assumes "bc_ok st" "bc_known H st" "length bc \<le> bc_value_cap" "bc_lookup key st = None" "now < g_maxint64" "(key, bc) \<in> H"
    and "g_mem st \<noteq> None"
  shows "bc_ok (bc_insert key bc now st)" "bc_known H (bc_insert key bc now st)"
    "bc_lookup key (bc_insert key bc now st) = Some \<lparr>be_bytes = bc, be_used_us = now\<rparr>"
    "bc_files (bc_insert key bc now st) = bc_files st" "g_dir (bc_insert key bc now st) = g_dir st"
proof -
  obtain es where es: "g_mem st = Some es" "mem_ok es (g_mem_bytes st)" "map_of es key = None"
    using assms(1,4,7) by (auto simp: bc_ok_def bc_lookup_def)
  obtain es1 t1 where i: "g_mem (bc_insert key bc now st) = Some ((key, \<lparr>be_bytes = bc, be_used_us = now\<rparr>) # es1)" "set es1 \<subseteq> set es"
     "g_mem_bytes (bc_insert key bc now st) = t1" "mem_ok ((key, \<lparr>be_bytes = bc, be_used_us = now\<rparr>) # es1) t1"
     "g_dir (bc_insert key bc now st) = g_dir st" "bc_files (bc_insert key bc now st) = bc_files st"
    using bc_insert_ok [OF es(2) assms(3) es(3) assms(5) es(1) refl] by blast
  show "bc_ok (bc_insert key bc now st)" using i by (simp add: bc_ok_def)
  show "bc_known H (bc_insert key bc now st)" using assms(2,6) i(1,2,6) es(1) by (auto simp: bc_known_def)
  show "bc_lookup key (bc_insert key bc now st) = Some \<lparr>be_bytes = bc, be_used_us = now\<rparr>" using i(1) by (simp add: bc_lookup_def)
  show "bc_files (bc_insert key bc now st) = bc_files st" "g_dir (bc_insert key bc now st) = g_dir st" using i(5,6) by simp_all
qed

lemma bc_touch_known:
  assumes "bc_known H st"
  shows "bc_known H (bc_touch key now st)" "bc_files (bc_touch key now st) = bc_files st"
    "map_option be_bytes (bc_lookup k (bc_touch key now st)) = map_option be_bytes (bc_lookup k st)"
proof -
  show "bc_known H (bc_touch key now st)" using assms by (fastforce simp: bc_known_def bc_touch_def split: if_splits)
  show "bc_files (bc_touch key now st) = bc_files st" by (simp add: bc_touch_def)
  have "map_option be_bytes (map_of (map (\<lambda>(k, e). (k, if k = key then e\<lparr>be_used_us := now\<rparr> else e)) es) k)
      = map_option be_bytes (map_of es k)" for es
    by (induction es) auto
  then show "map_option be_bytes (bc_lookup k (bc_touch key now st)) = map_option be_bytes (bc_lookup k st)"
    by (cases "g_mem st") (simp_all add: bc_lookup_def bc_touch_def)
qed

lemma write_disk_known:
  assumes "bc_known H st" "(key, bc) \<in> H" "length key = 64"
  shows "bc_known H (write_disk wrote key bc st)"
proof -
  have "bc_known H (st\<lparr>bc_files := (bc_files st)(dir @ ''/'' @ take 2 key @ ''/'' @ drop 2 key \<mapsto> le32 bc_magic @ le32 bc_format_version @ bc)\<rparr>)" for dir
  proof -
    have "(key', bc') \<in> H" if "length key' = 64"
      "((bc_files st)(dir @ ''/'' @ take 2 key @ ''/'' @ drop 2 key \<mapsto> le32 bc_magic @ le32 bc_format_version @ bc))
         (dir' @ ''/'' @ take 2 key' @ ''/'' @ drop 2 key') = Some (le32 bc_magic @ le32 bc_format_version @ bc')" for dir' key' bc'
    proof (cases "dir' @ ''/'' @ take 2 key' @ ''/'' @ drop 2 key' = dir @ ''/'' @ take 2 key @ ''/'' @ drop 2 key")
      case True
      then have "key' = key" by (rule path_key [OF that(1) assms(3)])
      moreover have "bc' = bc" using that(2) True by simp
      ultimately show ?thesis using assms(2) by simp
    next
      case False
      then have "bc_files st (dir' @ ''/'' @ take 2 key' @ ''/'' @ drop 2 key') = Some (le32 bc_magic @ le32 bc_format_version @ bc')"
        using that(2) by (simp only: fun_upd_apply if_False)
      then show ?thesis using assms(1) that(1) unfolding bc_known_def by blast
    qed
    then show ?thesis using assms(1) unfolding bc_known_def by simp
  qed
  then show ?thesis using assms(1) by (auto simp: write_disk_def disk_path_for_def split: option.splits)
qed

lemma bc_get_known:
  assumes "bc_ok st" "bc_known H st" "now < g_maxint64" "length (hash src) = 64"
  shows "bc_ok (snd (ns_bytecode_cache_get hash now src st)) \<and> bc_known H (snd (ns_bytecode_cache_get hash now src st))
    \<and> bc_files (snd (ns_bytecode_cache_get hash now src st)) = bc_files st
    \<and> (\<forall>bc. fst (ns_bytecode_cache_get hash now src st) = Some bc \<longrightarrow> (hash src, bc) \<in> H)"
proof (cases "src = [] \<or> g_mem st = None")
  case True
  then show ?thesis using assms by (auto simp: ns_bytecode_cache_get_def)
next
  case False
  then have F: "src \<noteq> []" "g_mem st \<noteq> None" by auto
  show ?thesis
  proof (cases "bc_lookup (hash src) st")
    case (Some e)
    then have "(hash src, be_bytes e) \<in> H"
      using assms(2) by (auto simp: bc_lookup_def bc_known_def Option.bind_eq_Some_conv dest!: map_of_SomeD)
    then show ?thesis using F Some bc_touch_ok [OF assms(1,3)] bc_touch_known(1,2) [OF assms(2)]
      by (simp add: ns_bytecode_cache_get_def Let_def del: not_None_eq)
  next
    case None
    show ?thesis
    proof (cases "read_disk st (hash src)")
      case None
      then show ?thesis using False \<open>bc_lookup (hash src) st = None\<close> assms by (simp add: ns_bytecode_cache_get_def Let_def)
    next
      case (Some bc)
      then obtain dir where d: "bc_files st (dir @ ''/'' @ take 2 (hash src) @ ''/'' @ drop 2 (hash src)) = Some (le32 bc_magic @ le32 bc_format_version @ bc)"
          "length bc \<le> bc_value_cap"
        by (rule read_disk_file)
      then have "(hash src, bc) \<in> H" using assms(2,4) by (auto simp: bc_known_def)
      then show ?thesis
        using F \<open>bc_lookup (hash src) st = None\<close> Some d(2)
          bc_insert_known [OF assms(1,2) d(2) \<open>bc_lookup (hash src) st = None\<close> assms(3)]
        by (simp add: ns_bytecode_cache_get_def Let_def del: not_None_eq)
    qed
  qed
qed

lemma bc_put_known:
  assumes "bc_ok st" "bc_known H st" "now < g_maxint64" "length (hash src) = 64" "(hash src, bc) \<in> H"
  shows "bc_ok (ns_bytecode_cache_put hash now private_mode wrote src bc st)
    \<and> bc_known H (ns_bytecode_cache_put hash now private_mode wrote src bc st)
    \<and> (private_mode \<longrightarrow> bc_files (ns_bytecode_cache_put hash now private_mode wrote src bc st) = bc_files st)
    \<and> (g_mem st \<noteq> None \<longrightarrow> src \<noteq> [] \<longrightarrow> bc \<noteq> [] \<longrightarrow> length bc \<le> bc_value_cap \<longrightarrow>
       map_option be_bytes (bc_lookup (hash src) (ns_bytecode_cache_put hash now private_mode wrote src bc st))
       = Some (case bc_lookup (hash src) st of None \<Rightarrow> bc | Some e \<Rightarrow> be_bytes e))"
proof (cases "src = [] \<or> bc = [] \<or> bc_value_cap < length bc \<or> g_mem st = None")
  case True
  then show ?thesis using assms by (auto simp: ns_bytecode_cache_put_def)
next
  case False
  then have F: "src \<noteq> []" "bc \<noteq> []" "\<not> bc_value_cap < length bc" "g_mem st \<noteq> None" by auto
  have w: "bc_ok (write_disk wrote k b s) = bc_ok s" "bc_lookup x (write_disk wrote k b s) = bc_lookup x s" for k b s x
    by (auto simp: write_disk_def bc_ok_def bc_lookup_def split: option.splits)
  show ?thesis
  proof (cases "bc_lookup (hash src) st")
    case (Some e)
    have "map_option be_bytes (bc_lookup (hash src) (bc_touch (hash src) now st)) = Some (be_bytes e)"
      using bc_touch_known(3) [OF assms(2), of "hash src" "hash src" now] Some by simp
    then show ?thesis using F Some bc_touch_ok [OF assms(1,3)] bc_touch_known(1,2) [OF assms(2)]
      by (simp add: ns_bytecode_cache_put_def Let_def del: not_None_eq map_option_eq_Some)
  next
    case None
    have l: "length bc \<le> bc_value_cap" using False by simp
    note i = bc_insert_known [OF assms(1,2) l None assms(3,5)]
    show ?thesis using False None i write_disk_known [OF i(2) assms(5,4)]
      by (simp add: ns_bytecode_cache_put_def Let_def w)
  qed
qed

lemma bc_run_known:
  assumes "\<And>s. length (hash s) = 64" "list_all bc_clock ops" "bc_ok st" "bc_known H st" "(\<Union>op \<in> set ops. bc_puts hash op) \<subseteq> H"
  shows "bc_ok (bc_run hash ops st) \<and> bc_known H (bc_run hash ops st)"
  using assms(2-5)
proof (induction ops arbitrary: st)
  case (Cons op ops)
  have "bc_ok (bc_step hash op st) \<and> bc_known H (bc_step hash op st)"
  proof (cases op)
    case (BcInit cache_enabled dir)
    then show ?thesis using Cons.prems
      by (auto simp: ns_bytecode_cache_init_def bc_ok_def bc_known_def Let_def mem_ok_def mem_size_def split: option.splits)
  next
    case BcShutdown
    then show ?thesis using Cons.prems by (auto simp: ns_bytecode_cache_shutdown_def bc_ok_def bc_known_def)
  next
    case (BcGet now src)
    then show ?thesis using bc_get_known [of st H now hash src] Cons.prems assms(1) by simp
  next
    case (BcPut now private_mode wrote src bc)
    then show ?thesis using bc_put_known [of st H now hash src bc private_mode wrote] Cons.prems assms(1) by simp
  qed
  then show ?case using Cons.IH [of "bc_step hash op st"] Cons.prems by (simp add: bc_run_def)
qed (simp add: bc_run_def)

text \<open>(C19) The cache of compiled scripts, after any sequence of openings, closings, reads and
  writes: the bytes it counts are those of its entries and stay within 16 MiB; the code it
  answers for a source was stored for a source with the same digest, in this run or in a file of
  an earlier one, and nothing else; a script just stored is found again; and in private mode no
  file changes.\<close>

theorem bytecode_cache_sound:
  fixes files :: "string \<Rightarrow> string option"
  assumes "\<And>s. length (hash s) = 64" "list_all bc_clock ops" "now < g_maxint64"
    and "st = bc_run hash ops (bc_start files)"
  shows "(case g_mem st of None \<Rightarrow> True
      | Some es \<Rightarrow> unat (g_mem_bytes st) = sum_list (map (\<lambda>x. length (be_bytes (snd x))) es)
          \<and> unat (g_mem_bytes st) \<le> bc_mem_cap \<and> distinct (map fst es))
    \<and> (\<forall>bc. fst (ns_bytecode_cache_get hash now src st) = Some bc \<longrightarrow> (hash src, bc) \<in> stored_codes hash ops files)
    \<and> (g_mem st \<noteq> None \<longrightarrow> src \<noteq> [] \<longrightarrow> bc \<noteq> [] \<longrightarrow> length bc \<le> bc_value_cap \<longrightarrow>
       fst (ns_bytecode_cache_get hash now src (ns_bytecode_cache_put hash now private_mode wrote src bc st))
       = Some (case bc_lookup (hash src) st of None \<Rightarrow> bc | Some e \<Rightarrow> be_bytes e))
    \<and> bc_files (ns_bytecode_cache_put hash now True wrote src bc st) = bc_files st"
proof (intro conjI allI impI)
  define H where "H = stored_codes hash ops files"
  have start: "bc_ok (bc_start files)" "bc_known H (bc_start files)"
    by (auto simp: bc_ok_def bc_start_def bc_known_def H_def stored_codes_def disk_codes_def)
  have run: "bc_ok st" "bc_known H st"
    using bc_run_known [OF assms(1,2) start] by (auto simp: assms(4) H_def stored_codes_def)
  then show "case g_mem st of None \<Rightarrow> True
      | Some es \<Rightarrow> unat (g_mem_bytes st) = sum_list (map (\<lambda>x. length (be_bytes (snd x))) es)
          \<and> unat (g_mem_bytes st) \<le> bc_mem_cap \<and> distinct (map fst es)"
    by (auto simp: bc_ok_def mem_ok_def mem_size_def split: option.splits)
  show "(hash src, bc') \<in> stored_codes hash ops files" if "fst (ns_bytecode_cache_get hash now src st) = Some bc'" for bc'
    using bc_get_known [where hash = hash and src = src, OF run assms(3) assms(1)] that by (simp add: H_def)
  have known: "bc_known UNIV st" by (simp add: bc_known_def)
  note put = bc_put_known [where hash = hash and src = src and bc = bc, OF run(1) known assms(3) assms(1) UNIV_I]
  show "fst (ns_bytecode_cache_get hash now src (ns_bytecode_cache_put hash now private_mode wrote src bc st))
       = Some (case bc_lookup (hash src) st of None \<Rightarrow> bc | Some e \<Rightarrow> be_bytes e)"
    if "g_mem st \<noteq> None" "src \<noteq> []" "bc \<noteq> []" "length bc \<le> bc_value_cap"
  proof -
    define st1 where "st1 = ns_bytecode_cache_put hash now private_mode wrote src bc st"
    have "map_option be_bytes (bc_lookup (hash src) st1) = Some (case bc_lookup (hash src) st of None \<Rightarrow> bc | Some e \<Rightarrow> be_bytes e)"
      using put [of private_mode wrote] that by (simp add: st1_def)
    then obtain e where e: "bc_lookup (hash src) st1 = Some e"
        "be_bytes e = (case bc_lookup (hash src) st of None \<Rightarrow> bc | Some e \<Rightarrow> be_bytes e)"
      by auto
    moreover have "g_mem st1 \<noteq> None" using e(1) by (cases "g_mem st1") (simp_all add: bc_lookup_def)
    ultimately show ?thesis using that(2) by (simp add: ns_bytecode_cache_get_def Let_def flip: st1_def)
  qed
  show "bc_files (ns_bytecode_cache_put hash now True wrote src bc st) = bc_files st"
    using put [of True wrote] by simp
qed

text \<open>A digest for the witness: the source padded to 64 characters.\<close>

definition toy_hash :: "string \<Rightarrow> string" where
  "toy_hash s = take 64 (s @ replicate 64 CHR ''0'')"

theorem bytecode_cache_sound_witness:
  "fst (ns_bytecode_cache_get toy_hash 8 ''f()'' (ns_bytecode_cache_put toy_hash 8 True False ''f()'' ''BC''
     (bc_run toy_hash [BcInit True ''/c''] (bc_start (\<lambda>p. None))))) = Some ''BC''"
proof -
  have h: "length (toy_hash s) = 64" for s by (simp add: toy_hash_def)
  have c: "list_all bc_clock [BcInit True ''/c'']" "(8 :: int) < g_maxint64" by (simp_all add: g_maxint64_def)
  have m: "g_mem (bc_run toy_hash [BcInit True ''/c''] (bc_start (\<lambda>p. None))) = Some []"
    by (simp add: bc_run_def bc_start_def ns_bytecode_cache_init_def Let_def)
  show ?thesis using bytecode_cache_sound [where hash = toy_hash and ops = "[BcInit True ''/c'']" and now = 8
      and files = "\<lambda>p. None" and src = "''f()''" and bc = "''BC''" and private_mode = True and wrote = False, OF h c refl] m
    by (simp add: bc_value_cap_def bc_lookup_def)
qed

end
