(* ===== verification/Security_Checks.thy ===== *)
theory Security_Checks
  imports CString
begin

text \<open>
  Two checks on what a page loads: subresource integrity (\<open>ns_security_sri_check\<close> of
  \<open>src/src/security.c\<close>) and the list of dangerous hosts (\<open>src/src/safebrowsing.c\<close>). Digests are
  a parameter: \<open>digest bits body\<close> is the base64 of the SHA-2 digest, \<open>sha\<close> the SHA-256 of a host
  in hexadecimal.
\<close>

section \<open>Subresource integrity\<close>

definition sri_blank :: "char \<Rightarrow> bool" where
  "sri_blank c = (c = SP \<or> c = HT \<or> c = CR \<or> c = LF)"

fun sri_strongest :: "nat \<Rightarrow> string list \<Rightarrow> nat" where
  "sri_strongest strongest [] = strongest"
| "sri_strongest strongest (t # ts) =
     sri_strongest
       (if starts_with ''sha256-'' t \<and> strongest < 256 then 256
        else if starts_with ''sha384-'' t \<and> strongest < 384 then 384
        else if starts_with ''sha512-'' t \<and> strongest < 512 then 512
        else strongest) ts"

definition ns_sri_digest_equal_b64 :: "(nat \<Rightarrow> string \<Rightarrow> string) \<Rightarrow> nat \<Rightarrow> string \<Rightarrow> string \<Rightarrow> bool" where
  "ns_sri_digest_equal_b64 digest ctype want body =
     (let got = digest ctype body in length got = length want \<and> got = want)"

definition ns_security_sri_check :: "(nat \<Rightarrow> string \<Rightarrow> string) \<Rightarrow> cptr \<Rightarrow> cptr \<Rightarrow> bool" where
  "ns_security_sri_check digest integrity_attr body =
     (case integrity_attr of None \<Rightarrow> True
      | Some attr \<Rightarrow>
        if attr = [] then True
        else case body of None \<Rightarrow> False
        | Some b \<Rightarrow>
          if b = [] then False
          else
            let tokens = strsplit_set sri_blank attr; strongest = sri_strongest 0 tokens
            in if strongest = 0 then True
               else
                 let prefix = (if strongest = 384 then ''sha384-'' else if strongest = 512 then ''sha512-'' else ''sha256-'');
                     ctype = (if strongest = 384 then 384 else if strongest = 512 then 512 else 256)
                 in list_ex (\<lambda>t. starts_with prefix t
                      \<and> (let b64 = takeWhile (\<lambda>c. c \<noteq> CHR ''?'') (drop (length prefix) t)
                         in b64 \<noteq> [] \<and> ns_sri_digest_equal_b64 digest ctype b64 b)) tokens)"

text \<open>The specification: a token names an algorithm and a digest, the options after a question
  mark do not count, and one digest of the strongest algorithm must be that of the body.\<close>

definition sri_token :: "string \<Rightarrow> (nat \<times> string) option" where
  "sri_token t =
     (let v = takeWhile (\<lambda>c. c \<noteq> CHR ''?'') (drop 7 t)
      in if starts_with ''sha256-'' t then Some (256, v) else if starts_with ''sha384-'' t then Some (384, v)
         else if starts_with ''sha512-'' t then Some (512, v) else None)"

definition sri_metadata :: "string \<Rightarrow> (nat \<times> string) set" where
  "sri_metadata attr = {x. \<exists>t \<in> set (strsplit_set sri_blank attr). sri_token t = Some x}"

lemma starts_with_disjoint: "starts_with (a @ c # x) t \<Longrightarrow> starts_with (a @ d # y) t \<Longrightarrow> c = d"
  by (auto simp: starts_with_iff)

lemma sri_token_cases:
  "sri_token t = Some (256, v) \<longleftrightarrow> starts_with ''sha256-'' t \<and> v = takeWhile (\<lambda>c. c \<noteq> CHR ''?'') (drop 7 t)"
  "sri_token t = Some (384, v) \<longleftrightarrow> starts_with ''sha384-'' t \<and> v = takeWhile (\<lambda>c. c \<noteq> CHR ''?'') (drop 7 t)"
  "sri_token t = Some (512, v) \<longleftrightarrow> starts_with ''sha512-'' t \<and> v = takeWhile (\<lambda>c. c \<noteq> CHR ''?'') (drop 7 t)"
  by (auto simp: sri_token_def Let_def starts_with_iff)

lemma sri_token_algs: "sri_token t = Some (a, v) \<Longrightarrow> a \<in> {256, 384, 512}"
  by (auto simp: sri_token_def Let_def split: if_splits)

lemma sri_strongest_max:
  assumes "k \<in> {0, 256, 384, 512}"
  shows "sri_strongest k ts = Max (insert k {a. \<exists>t \<in> set ts. \<exists>v. sri_token t = Some (a, v)})"
  using assms
proof (induction ts arbitrary: k)
  case (Cons t ts)
  define A where "A = {a. \<exists>t \<in> set ts. \<exists>v. sri_token t = Some (a, v)}"
  define k1 where "k1 = (if starts_with ''sha256-'' t \<and> k < 256 then 256 else if starts_with ''sha384-'' t \<and> k < 384 then 384
        else if starts_with ''sha512-'' t \<and> k < 512 then 512 else k)"
  have k1: "k1 \<in> {0, 256, 384, 512}" using Cons.prems by (simp add: k1_def)
  have fin: "finite A" using sri_token_algs by (intro finite_subset [of A "{256, 384, 512}"]) (auto simp: A_def)
  have "sri_strongest k (t # ts) = Max (insert k1 A)" using Cons.IH [OF k1] by (simp add: k1_def A_def)
  moreover have "{a. \<exists>t' \<in> set (t # ts). \<exists>v. sri_token t' = Some (a, v)} = {a. \<exists>v. sri_token t = Some (a, v)} \<union> A"
    by (auto simp: A_def)
  moreover have "Max (insert k ({a. \<exists>v. sri_token t = Some (a, v)} \<union> A)) = Max (insert k1 A)"
  proof (cases "sri_token t")
    case None
    then have "k1 = k" by (auto simp: k1_def sri_token_def Let_def split: if_splits)
    then show ?thesis using None by simp
  next
    case (Some x)
    obtain a v where x: "x = (a, v)" by (cases x)
    have "k1 = max k a" using Some Cons.prems
      by (auto simp: x k1_def sri_token_def Let_def max_def starts_with_iff split: if_splits)
    moreover have "{a. \<exists>v. sri_token t = Some (a, v)} = {a}" using Some x by auto
    moreover have "Max (insert k (insert a A)) = Max (insert (max k a) A)"
      using fin by (cases "A = {}") (simp_all add: max.assoc)
    ultimately show ?thesis by simp
  qed
  ultimately show ?case by simp
qed simp

section \<open>Dangerous hosts\<close>

record sb_state =
  sb_blocked :: "string set"
  sb_allow :: "string set"

text \<open>One line of a list, and a file of them.\<close>

definition sb_line :: "string \<Rightarrow> string set" where
  "sb_line text =
     (let line = strstrip text
      in if line = [] \<or> hd line = CHR ''#'' then {}
         else let word = takeWhile (\<lambda>c. \<not> ascii_isspace c) line
              in if 16 \<le> length word then {strdown word} else {})"

definition load_file :: "cptr \<Rightarrow> string set \<Rightarrow> string set" where
  "load_file contents blocked =
     (case contents of None \<Rightarrow> blocked | Some c \<Rightarrow> fold (\<lambda>l b. sb_line l \<union> b) (strsplit LF (until_nul c)) blocked)"

definition ns_safebrowsing_allow_host :: "cptr \<Rightarrow> sb_state \<Rightarrow> sb_state" where
  "ns_safebrowsing_allow_host host st =
     (case host of None \<Rightarrow> st | Some h \<Rightarrow> if h = [] then st else st\<lparr>sb_allow := insert (strdown h) (sb_allow st)\<rparr>)"

definition host_sha256_hex :: "(string \<Rightarrow> string) \<Rightarrow> string \<Rightarrow> cptr" where
  "host_sha256_hex sha host = (if host = [] then None else Some (sha (strdown host)))"

fun after_dot :: "string \<Rightarrow> string" where
  "after_dot [] = []"
| "after_dot (c # cs) = (if c = CHR ''.'' then cs else after_dot cs)"

lemma after_dot_length: "CHR ''.'' \<in> set h \<Longrightarrow> length (after_dot h) < length h"
  by (induction h) (auto simp: less_Suc_eq)

text \<open>The host and its parent domains, as long as they have a dot.\<close>

function sb_hit :: "(string \<Rightarrow> string) \<Rightarrow> string set \<Rightarrow> string \<Rightarrow> bool" where
  "sb_hit sha blocked h =
     (if CHR ''.'' \<notin> set h then False
      else if (case host_sha256_hex sha h of None \<Rightarrow> False | Some hex \<Rightarrow> hex \<in> blocked) then True
      else sb_hit sha blocked (after_dot h))"
  by pat_completeness auto
termination by (relation "measure (length \<circ> snd \<circ> snd)") (auto intro: after_dot_length)

declare sb_hit.simps [simp del]

definition strip_dots :: "string \<Rightarrow> string" where
  "strip_dots s = rev (dropWhile (\<lambda>c. c = CHR ''.'') (rev s))"

definition ns_safebrowsing_blocked :: "(string \<Rightarrow> string) \<Rightarrow> cptr \<Rightarrow> sb_state \<Rightarrow> bool" where
  "ns_safebrowsing_blocked sha host st =
     (case host of None \<Rightarrow> False
      | Some h \<Rightarrow>
        if h = [] then False
        else if sb_blocked st = {} then False
        else let low = strip_dots (strdown h)
             in if low \<in> sb_allow st then False else sb_hit sha (sb_blocked st) low)"

text \<open>The domains of a host: its suffixes at a dot that have a dot themselves.\<close>

definition domains_of :: "string \<Rightarrow> string set" where
  "domains_of h = {s. CHR ''.'' \<in> set s \<and> (s = h \<or> (\<exists>p. h = p @ CHR ''.'' # s))}"

lemma domains_of_step:
  assumes "CHR ''.'' \<in> set h"
  shows "domains_of h = insert h (domains_of (after_dot h))"
proof -
  obtain a r where h: "h = a @ CHR ''.'' # r" "CHR ''.'' \<notin> set a" using assms by (meson split_list_first)
  have r: "after_dot h = r" using h by (induction a arbitrary: h) auto
  have "s = r \<or> (\<exists>p. r = p @ CHR ''.'' # s)" if eq: "h = p @ CHR ''.'' # s" for p s
  proof -
    have "a @ CHR ''.'' # r = p @ CHR ''.'' # s" using eq h(1) by simp
    then consider us where "p = a @ us" "us @ CHR ''.'' # s = CHR ''.'' # r" | us where "a = p @ us" "us @ CHR ''.'' # r = CHR ''.'' # s"
      by (auto simp: append_eq_append_conv2)
    then show ?thesis
    proof cases
      case 1
      then show ?thesis by (cases us) auto
    next
      case 2
      then show ?thesis using h(2) by (cases us) auto
    qed
  qed
  moreover have "\<exists>p. h = p @ CHR ''.'' # r" using h(1) by blast
  moreover have "\<exists>p'. h = p' @ CHR ''.'' # s" if "r = p @ CHR ''.'' # s" for p s
    using h(1) that by (intro exI [of _ "a @ CHR ''.'' # p"]) simp
  ultimately show ?thesis using assms unfolding domains_of_def r by blast
qed

lemma sb_hit_domains: "sb_hit sha blocked h = (\<exists>d \<in> domains_of h. sha (strdown d) \<in> blocked)"
proof (induction sha blocked h rule: sb_hit.induct)
  case (1 sha blocked h)
  show ?case
  proof (cases "CHR ''.'' \<in> set h")
    case True
    then have "h \<noteq> []" by auto
    then show ?thesis using 1 True domains_of_step [OF True]
      by (auto simp: sb_hit.simps [of sha blocked h] host_sha256_hex_def)
  next
    case False
    then have "domains_of h = {}" by (auto simp: domains_of_def)
    then show ?thesis using False by (simp add: sb_hit.simps [of sha blocked h])
  qed
qed

text \<open>The user's exception for a host with a dot at its end does not take effect.\<close>

lemma allow_with_final_dot:
  assumes "sha ''a.b'' \<in> B"
  shows "ns_safebrowsing_blocked sha (Some ''a.b.'') (ns_safebrowsing_allow_host (Some ''a.b.'') \<lparr>sb_blocked = B, sb_allow = {}\<rparr>)"
proof -
  have "strdown ''a.b.'' = ''a.b.''" "strip_dots ''a.b.'' = ''a.b''" "strdown ''a.b'' = ''a.b''" by code_simp+
  moreover have "''a.b'' \<in> domains_of ''a.b''" by (simp add: domains_of_def)
  ultimately show ?thesis using assms
    by (auto simp: ns_safebrowsing_blocked_def ns_safebrowsing_allow_host_def sb_hit_domains Let_def intro!: bexI [of _ "''a.b''"])
qed

text \<open>A script that is empty never passes, not even with the digest of the empty text.\<close>

lemma empty_body_fails: "attr \<noteq> [] \<Longrightarrow> \<not> ns_security_sri_check digest (Some attr) (Some [])"
  by (simp add: ns_security_sri_check_def)

lemma sri_nonempty:
  assumes "attr \<noteq> []" "b \<noteq> []" "\<And>n. digest n b \<noteq> []"
  shows "ns_security_sri_check digest (Some attr) (Some b) =
    (sri_metadata attr = {} \<or> (let a = Max (fst ` sri_metadata attr) in (a, digest a b) \<in> sri_metadata attr))"
proof -
  define ts where "ts = strsplit_set sri_blank attr"
  define A where "A = {a. \<exists>t \<in> set ts. \<exists>v. sri_token t = Some (a, v)}"
  have A: "fst ` sri_metadata attr = A" by (force simp: sri_metadata_def A_def ts_def)
  have algs: "A \<subseteq> {256, 384, 512}" using sri_token_algs by (auto simp: A_def)
  then have fin: "finite A" by (rule finite_subset) simp
  have str: "sri_strongest 0 ts = Max (insert 0 A)" unfolding A_def by (rule sri_strongest_max) simp
  show ?thesis
  proof (cases "A = {}")
    case True
    then have "sri_metadata attr = {}" using A by auto
    then show ?thesis using True assms(1,2) str by (simp add: ns_security_sri_check_def Let_def flip: ts_def)
  next
    case False
    define m where "m = Max A"
    have m: "m \<in> A" using Max_in [OF fin False] by (simp add: m_def)
    then have cases: "m = 256 \<or> m = 384 \<or> m = 512" using algs by auto
    have s: "sri_strongest 0 ts = m" using str fin False by (simp add: m_def)
    have "(m, digest m b) \<in> sri_metadata attr \<longleftrightarrow> (\<exists>t \<in> set ts. sri_token t = Some (m, digest m b))"
      by (simp add: sri_metadata_def ts_def)
    moreover have "sri_metadata attr \<noteq> {}" using A False by auto
    moreover have "Max (fst ` sri_metadata attr) = m" by (simp add: A m_def)
    moreover have "drop (Suc (Suc (Suc (Suc (Suc (Suc (Suc 0))))))) t = drop 7 t" for t :: string
      by (simp add: eval_nat_numeral)
    moreover have "(b64 \<noteq> [] \<and> ns_sri_digest_equal_b64 digest n b64 b) = (b64 = digest n b)" for n b64
      using assms(3) by (auto simp: ns_sri_digest_equal_b64_def Let_def)
    ultimately show ?thesis using cases assms(1,2)
      by (elim disjE) (simp_all add: ns_security_sri_check_def Let_def s sri_token_cases list_ex_iff eq_commute [of "digest _ b"]
          flip: ts_def)
  qed
qed

section \<open>Properties\<close>

text \<open>(C21) Subresource integrity: with an attribute that is not empty, a body passes exactly when it
  is not empty and the attribute names no known algorithm, or one of the digests it gives for the
  strongest algorithm it names is the digest of the body. Digests of weaker algorithms never let a
  body pass; an empty body never passes, and without an attribute every body does.\<close>

theorem sri_strongest_decides:
  assumes "\<And>n. digest n b \<noteq> []"
  shows "ns_security_sri_check digest (Some attr) (Some b) =
    (attr = [] \<or> b \<noteq> []
      \<and> (sri_metadata attr = {} \<or> (let a = Max (fst ` sri_metadata attr) in (a, digest a b) \<in> sri_metadata attr)))"
proof (cases "attr = [] \<or> b = []")
  case True
  then show ?thesis by (auto simp: ns_security_sri_check_def)
next
  case False
  then show ?thesis using sri_nonempty [of attr b digest] assms by simp
qed

theorem sri_strongest_decides_witness:
  "\<not> ns_security_sri_check (\<lambda>n b. CHR ''d'' # b) (Some ''sha256-dx sha512-bad'') (Some ''x'')"
proof -
  have m: "sri_metadata ''sha256-dx sha512-bad'' = {(256, ''dx''), (512, ''bad'')}"
  proof -
    have "strsplit_set sri_blank ''sha256-dx sha512-bad'' = [''sha256-dx'', ''sha512-bad'']" by code_simp
    moreover have "sri_token ''sha256-dx'' = Some (256, ''dx'')" "sri_token ''sha512-bad'' = Some (512, ''bad'')" by code_simp+
    ultimately show ?thesis by (auto simp: sri_metadata_def)
  qed
  show ?thesis using sri_strongest_decides [of "\<lambda>n b. CHR ''d'' # b" "''x''" "''sha256-dx sha512-bad''"]
    by (simp add: m)
qed

text \<open>The list of dangerous hosts: a host is blocked exactly when, without the dots at its
  end and in lower case, it is not one the user let through and the list holds the digest of it
  or of one of the domains above it that have a dot.\<close>

theorem dangerous_hosts_blocked:
  "ns_safebrowsing_blocked sha (Some h) st =
     (h \<noteq> [] \<and> strip_dots (strdown h) \<notin> sb_allow st
      \<and> (\<exists>d \<in> domains_of (strip_dots (strdown h)). sha (strdown d) \<in> sb_blocked st))"
  by (auto simp: ns_safebrowsing_blocked_def sb_hit_domains Let_def)

end
