(* ===== verification/Bookmarks.thy ===== *)
theory Bookmarks
  imports CString
begin

text \<open>
  The bookmarks (\<open>src/src/bookmarks.c\<close>): a list of addresses with titles and the text file
  it is read from and written to. Writing may fail; the list in memory is kept then.
\<close>

record ns_bookmark =
  bm_url :: string
  bm_title :: string

text \<open>The bookmarks in memory, and the contents of the file, if there is one.\<close>

record ns_bookmarks =
  bm_items :: "ns_bookmark list"
  bm_file :: cptr

section \<open>Reading\<close>

definition bookmark_line :: "string \<Rightarrow> ns_bookmark list" where
  "bookmark_line text =
     (let line = strstrip text
      in if line = [] \<or> hd line = CHR ''#'' then []
         else case strchr line HT of
           Some tab \<Rightarrow> [\<lparr>bm_url = takeWhile (\<lambda>c. c \<noteq> HT) line, bm_title = tl tab\<rparr>]
         | None \<Rightarrow> [\<lparr>bm_url = line, bm_title = line\<rparr>])"

definition ns_bookmarks_load :: "cptr \<Rightarrow> ns_bookmarks" where
  "ns_bookmarks_load file =
     \<lparr>bm_items = (case file of None \<Rightarrow> [] | Some contents \<Rightarrow> concat (map bookmark_line (strsplit LF (until_nul contents)))),
      bm_file = file\<rparr>"

section \<open>Writing\<close>

definition bookmark_append_sanitized :: "string \<Rightarrow> string" where
  "bookmark_append_sanitized s = map (\<lambda>c. if c = HT \<or> c = LF \<or> c = CR then SP else c) s"

definition bookmark_text :: "ns_bookmark \<Rightarrow> string" where
  "bookmark_text b = bookmark_append_sanitized (bm_url b) @ [HT] @ bookmark_append_sanitized (bm_title b) @ [LF]"

definition ns_bookmarks_save :: "bool \<Rightarrow> ns_bookmarks \<Rightarrow> ns_bookmarks" where
  "ns_bookmarks_save written bm =
     (if written then bm\<lparr>bm_file := Some (concat (map bookmark_text (bm_items bm)))\<rparr> else bm)"

section \<open>Operations\<close>

definition ns_bookmarks_count :: "ns_bookmarks \<Rightarrow> nat" where
  "ns_bookmarks_count bm = length (bm_items bm)"

definition ns_bookmarks_get :: "ns_bookmarks \<Rightarrow> nat \<Rightarrow> ns_bookmark option" where
  "ns_bookmarks_get bm i = (if length (bm_items bm) \<le> i then None else Some (bm_items bm ! i))"

definition ns_bookmarks_contains :: "ns_bookmarks \<Rightarrow> cptr \<Rightarrow> bool" where
  "ns_bookmarks_contains bm url = (case url of None \<Rightarrow> False | Some u \<Rightarrow> list_ex (\<lambda>b. bm_url b = u) (bm_items bm))"

definition ns_bookmarks_add :: "bool \<Rightarrow> cptr \<Rightarrow> cptr \<Rightarrow> ns_bookmarks \<Rightarrow> ns_bookmarks" where
  "ns_bookmarks_add written url title bm =
     (case url of None \<Rightarrow> bm
      | Some u \<Rightarrow>
        if ns_bookmarks_contains bm url then bm
        else ns_bookmarks_save written
          (bm\<lparr>bm_items := bm_items bm @ [\<lparr>bm_url = u, bm_title = (case title of None \<Rightarrow> u | Some t \<Rightarrow> t)\<rparr>]\<rparr>))"

fun remove_first :: "string \<Rightarrow> ns_bookmark list \<Rightarrow> ns_bookmark list option" where
  "remove_first u [] = None"
| "remove_first u (b # bs) = (if bm_url b = u then Some bs else map_option ((#) b) (remove_first u bs))"

definition ns_bookmarks_remove :: "bool \<Rightarrow> cptr \<Rightarrow> ns_bookmarks \<Rightarrow> ns_bookmarks" where
  "ns_bookmarks_remove written url bm =
     (case url of None \<Rightarrow> bm
      | Some u \<Rightarrow>
        case remove_first u (bm_items bm) of None \<Rightarrow> bm
        | Some items \<Rightarrow> ns_bookmarks_save written (bm\<lparr>bm_items := items\<rparr>))"

section \<open>Lemmas\<close>

text \<open>A bookmark that a line of the file can hold: no control white space, no white space at
  the ends of the line, an address that is not empty or a comment, and a title.\<close>

definition line_safe :: "string \<Rightarrow> bool" where
  "line_safe s = list_all (\<lambda>c. c \<notin> {HT, LF, CR, NUL}) s"

definition bookmark_ok :: "ns_bookmark \<Rightarrow> bool" where
  "bookmark_ok b = (line_safe (bm_url b) \<and> line_safe (bm_title b)
     \<and> bm_url b \<noteq> [] \<and> \<not> ascii_isspace (hd (bm_url b)) \<and> hd (bm_url b) \<noteq> CHR ''#''
     \<and> bm_title b \<noteq> [] \<and> \<not> ascii_isspace (last (bm_title b)))"

lemma sanitized_safe: "line_safe s \<Longrightarrow> bookmark_append_sanitized s = s"
  by (induction s) (auto simp: bookmark_append_sanitized_def line_safe_def)

lemma strstrip_id:
  assumes "s \<noteq> []" "\<not> ascii_isspace (hd s)" "\<not> ascii_isspace (last s)"
  shows "strstrip s = s"
proof -
  have "dropWhile ascii_isspace s = s" using assms by (cases s) auto
  moreover have "dropWhile ascii_isspace (rev s) = rev s" using assms by (cases "rev s") (auto simp: hd_rev [symmetric])
  ultimately show ?thesis by (simp add: strstrip_def strchomp_def strchug_def)
qed

lemma bookmark_line_text:
  assumes "bookmark_ok b"
  shows "bookmark_line (bm_url b @ [HT] @ bm_title b) = [b]"
proof -
  have s: "strstrip (bm_url b @ [HT] @ bm_title b) = bm_url b @ [HT] @ bm_title b"
    using assms by (intro strstrip_id) (auto simp: bookmark_ok_def)
  have "HT \<notin> set (bm_url b)" using assms by (auto simp: bookmark_ok_def line_safe_def list_all_iff)
  then have "strchr (bm_url b @ [HT] @ bm_title b) HT = Some (HT # bm_title b)"
    "takeWhile (\<lambda>c. c \<noteq> HT) (bm_url b @ [HT] @ bm_title b) = bm_url b" by simp_all
  moreover have "bm_url b @ [HT] @ bm_title b \<noteq> []" "hd (bm_url b @ [HT] @ bm_title b) \<noteq> CHR ''#''"
    using assms by (auto simp: bookmark_ok_def)
  ultimately show ?thesis unfolding bookmark_line_def s by (simp only: Let_def if_False simp_thms option.case list.sel) simp
qed

lemma load_lines:
  assumes "list_all bookmark_ok items"
  shows "concat (map bookmark_line (split_on (\<lambda>c. c = LF) (concat (map bookmark_text items)))) = items"
  using assms
proof (induction items)
  case Nil
  then show ?case by (simp add: bookmark_line_def strstrip_def strchomp_def strchug_def)
next
  case (Cons b items)
  have ok: "bookmark_ok b" using Cons.prems by simp
  then have t: "bookmark_text b = (bm_url b @ [HT] @ bm_title b) @ [LF]"
    by (simp add: bookmark_text_def sanitized_safe bookmark_ok_def)
  have "split_on (\<lambda>c. c = LF) (bm_url b @ [HT] @ bm_title b) = [bm_url b @ [HT] @ bm_title b]"
    using ok by (intro split_on_single) (auto simp: bookmark_ok_def line_safe_def list_all_iff)
  then have "split_on (\<lambda>c. c = LF) (concat (map bookmark_text (b # items)))
      = (bm_url b @ [HT] @ bm_title b) # split_on (\<lambda>c. c = LF) (concat (map bookmark_text items))"
    using split_on_append [of "\<lambda>c. c = LF" LF "bm_url b @ [HT] @ bm_title b" "concat (map bookmark_text items)"] by (simp add: t)
  then show ?case using Cons bookmark_line_text [OF ok] by simp
qed

lemma load_saved:
  assumes "list_all bookmark_ok (bm_items bm)"
  shows "bm_items (ns_bookmarks_load (bm_file (ns_bookmarks_save True bm))) = bm_items bm"
proof -
  have "NUL \<notin> set (bookmark_text b)" if "bookmark_ok b" for b
    using that by (auto simp: bookmark_text_def sanitized_safe bookmark_ok_def line_safe_def list_all_iff)
  then have "NUL \<notin> set (concat (map bookmark_text (bm_items bm)))" using assms by (auto simp: list_all_iff)
  then have u: "until_nul (concat (map bookmark_text (bm_items bm))) = concat (map bookmark_text (bm_items bm))"
    unfolding until_nul_def takeWhile_eq_all_conv by auto
  have "concat (map bookmark_line (strsplit LF s)) = concat (map bookmark_line (split_on (\<lambda>c. c = LF) s))" for s
    by (simp add: strsplit_set_def bookmark_line_def strstrip_def strchomp_def strchug_def)
  then show ?thesis using load_lines [OF assms] by (simp add: ns_bookmarks_load_def ns_bookmarks_save_def u)
qed

definition urls :: "ns_bookmarks \<Rightarrow> string list" where
  "urls bm = map bm_url (bm_items bm)"

lemma remove_first_urls:
  "remove_first u items = None \<longleftrightarrow> u \<notin> bm_url ` set items"
  "remove_first u items = Some items' \<Longrightarrow> map bm_url items' = remove1 u (map bm_url items) \<and> set items' \<subseteq> set items"
proof -
  show "remove_first u items = None \<longleftrightarrow> u \<notin> bm_url ` set items" by (induction items) auto
  show "map bm_url items' = remove1 u (map bm_url items) \<and> set items' \<subseteq> set items" if "remove_first u items = Some items'"
    using that by (induction items arbitrary: items') (auto split: if_splits)
qed

datatype bookmark_op = BmAdd cptr cptr | BmRemove cptr

fun bookmark_step :: "bookmark_op \<Rightarrow> ns_bookmarks \<Rightarrow> ns_bookmarks" where
  "bookmark_step (BmAdd url title) bm = ns_bookmarks_add True url title bm"
| "bookmark_step (BmRemove url) bm = ns_bookmarks_remove True url bm"

fun bookmark_op_ok :: "bookmark_op \<Rightarrow> bool" where
  "bookmark_op_ok (BmAdd (Some u) title) = bookmark_ok \<lparr>bm_url = u, bm_title = (case title of None \<Rightarrow> u | Some t \<Rightarrow> t)\<rparr>"
| "bookmark_op_ok op = True"

fun set_step :: "bookmark_op \<Rightarrow> string set \<Rightarrow> string set" where
  "set_step (BmAdd (Some u) title) S = insert u S"
| "set_step (BmRemove (Some u)) S = S - {u}"
| "set_step op S = S"

lemma bookmark_steps:
  assumes "list_all bookmark_ok (bm_items bm)" "distinct (urls bm)" "bm_items (ns_bookmarks_load (bm_file bm)) = bm_items bm"
    "bookmark_op_ok op"
  shows "list_all bookmark_ok (bm_items (bookmark_step op bm)) \<and> distinct (urls (bookmark_step op bm))
    \<and> bm_items (ns_bookmarks_load (bm_file (bookmark_step op bm))) = bm_items (bookmark_step op bm)
    \<and> set (urls (bookmark_step op bm)) = set_step op (set (urls bm))"
proof (cases op)
  case (BmAdd url title)
  show ?thesis
  proof (cases "url = None \<or> ns_bookmarks_contains bm url")
    case True
    then show ?thesis using assms BmAdd
      by (auto simp: ns_bookmarks_add_def ns_bookmarks_contains_def urls_def list_ex_iff split: option.splits)
  next
    case False
    then obtain u where u: "url = Some u" by auto
    define b where "b = \<lparr>bm_url = u, bm_title = (case title of None \<Rightarrow> u | Some t \<Rightarrow> t)\<rparr>"
    define bm1 where "bm1 = bm\<lparr>bm_items := bm_items bm @ [b]\<rparr>"
    have step: "bookmark_step op bm = ns_bookmarks_save True bm1"
      using False u BmAdd by (simp add: ns_bookmarks_add_def bm1_def b_def)
    have ok: "list_all bookmark_ok (bm_items bm1)" using assms(1,4) u BmAdd by (simp add: bm1_def b_def)
    have "u \<notin> set (urls bm)" using False u by (auto simp: ns_bookmarks_contains_def urls_def list_ex_iff)
    then show ?thesis unfolding step using load_saved [OF ok] ok assms(2) BmAdd u
      by (simp add: ns_bookmarks_save_def urls_def bm1_def b_def)
  qed
next
  case (BmRemove url)
  show ?thesis
  proof (cases url)
    case None
    then show ?thesis using assms BmRemove by (simp add: ns_bookmarks_remove_def)
  next
    case (Some u)
    show ?thesis
    proof (cases "remove_first u (bm_items bm)")
      case None
      then show ?thesis using assms BmRemove Some remove_first_urls(1) [of u "bm_items bm"]
        by (auto simp: ns_bookmarks_remove_def urls_def)
    next
      case items: (Some items)
      note r = remove_first_urls(2) [OF items]
      define bm1 where "bm1 = bm\<lparr>bm_items := items\<rparr>"
      have step: "bookmark_step op bm = ns_bookmarks_save True bm1"
        using items Some BmRemove by (simp add: ns_bookmarks_remove_def bm1_def)
      have ok: "list_all bookmark_ok (bm_items bm1)" using assms(1) r by (auto simp: bm1_def list_all_iff)
      show ?thesis unfolding step using load_saved [OF ok] ok assms(2) BmRemove Some r
        by (simp add: ns_bookmarks_save_def urls_def bm1_def distinct_remove1 set_remove1_eq)
    qed
  qed
qed

text \<open>A title that is empty, or an address that begins with \<open>#\<close>, does not survive the file.\<close>

lemma empty_title_lost:
  "bm_items (ns_bookmarks_load (bm_file (ns_bookmarks_add True (Some ''a'') (Some []) (ns_bookmarks_load None))))
     = [\<lparr>bm_url = ''a'', bm_title = ''a''\<rparr>]"
  by code_simp

section \<open>Properties\<close>

text \<open>The bookmarks are a set of addresses kept on disk: after any additions and removals the
  addresses are those that a set of them would hold, each once, and reading the file back gives
  the same bookmarks with the same titles in the same order.\<close>

theorem bookmarks_kept:
  assumes "list_all bookmark_op_ok ops"
  shows "let bm = fold bookmark_step ops (ns_bookmarks_load None)
    in set (urls bm) = fold set_step ops {} \<and> distinct (urls bm)
     \<and> bm_items (ns_bookmarks_load (bm_file bm)) = bm_items bm"
proof -
  have "set (urls (fold bookmark_step ops bm)) = fold set_step ops (set (urls bm)) \<and> distinct (urls (fold bookmark_step ops bm))
     \<and> bm_items (ns_bookmarks_load (bm_file (fold bookmark_step ops bm))) = bm_items (fold bookmark_step ops bm)"
    if "list_all bookmark_ok (bm_items bm)" "distinct (urls bm)" "bm_items (ns_bookmarks_load (bm_file bm)) = bm_items bm" for bm
    using assms that
  proof (induction ops arbitrary: bm)
    case (Cons op ops)
    then show ?case using bookmark_steps [of bm op] by simp
  qed simp
  from this [of "ns_bookmarks_load None"] show ?thesis by (simp add: ns_bookmarks_load_def urls_def)
qed

theorem bookmarks_kept_witness:
  "set (urls (fold bookmark_step [BmAdd (Some ''http://a/'') (Some ''A b''), BmAdd (Some ''x'') None, BmRemove (Some ''x'')]
     (ns_bookmarks_load None))) = {''http://a/''}"
proof -
  have ok: "list_all bookmark_op_ok [BmAdd (Some ''http://a/'') (Some ''A b''), BmAdd (Some ''x'') None, BmRemove (Some ''x'')]"
    by code_simp
  show ?thesis using bookmarks_kept [OF ok] by (auto simp: Let_def)
qed

end
