(* ===== verification/Spec2Isabelle.thy ===== *)
theory Spec2Isabelle
  imports Ipc_Messages Net_Cookies Net_Fetch Net_Share Csp Event_Source Web_Socket
    Cache_Store Net_Data Css_Syntax Css_Cascade Date_Time Xml_Trip
    Bytecode_Cache Security_Checks Bookmarks
begin

text \<open>
  Nordstjernen is a web browser in C: a GTK shell that starts one renderer
  process per tab, and in each renderer an engine over a vendored HTML library
  (lexbor) and script engine (QuickJS), with its own style, layout, painting,
  networking, security and media code under \<open>src/src\<close>. This development
  models the parts in which the browser decides by itself, byte for byte or step
  by step, what is read, sent, stored or allowed: the protocol between shell and
  renderer, the network module, the content security policy, and the two
  long-lived network clients of a page.

  \<^bold>\<open>Theories and the code they model.\<close>

  \<^item> \<open>CString\<close>: the C and GLib string routines the code calls (\<open>strchr\<close>,
    \<open>strtol\<close>, \<open>g_ascii_strcasecmp\<close>, \<open>g_strsplit\<close>, \<open>g_strstrip\<close>, number
    printing) on HOL strings, and lemmas on them. A C string is a list of
    characters without its final NUL; \<open>cptr\<close> is a pointer that may be NULL.
  \<^item> \<open>Ipc_Http\<close>: \<open>ipc_http.c\<close>. The connection buffer, heads and bodies over any
    sequence of short reads and writes, and the JSON string codec. The kernel is a
    script of \<open>read\<close> and \<open>write\<close> results.
  \<^item> \<open>Ipc_Messages\<close>: the messages \<open>rproc_http.c\<close> and \<open>renderer_serve.c\<close> exchange
    over it.
  \<^item> \<open>Net_Url\<close>: the address helpers of \<open>net.c\<close>: origins, sites, referrer, HSTS,
    https-first, tracking filter, \<open>refresh\<close>, \<open>nosniff\<close>.
  \<^item> \<open>Net_Cookies\<close>: the cookie files of \<open>net.c\<close>: reading (\<open>ns_cookie_collect\<close>) and
    storing (\<open>ns_cookie_store_impl\<close>) with every guard.
  \<^item> \<open>Net_Fetch\<close>: the redirect loop \<open>ns_fetch_sync\<close>, request keys, dead hosts.
  \<^item> \<open>Net_Share\<close>: preloads, joined fetches, the throttle, the slots of an origin.
  \<^item> \<open>Net_Data\<close>: the decoders of \<open>data:\<close> addresses and the encoding of form fields
    in \<open>net.c\<close>.
  \<^item> \<open>Http_Date\<close>, \<open>Http_Cache\<close>: \<open>cache.c\<close>, its dates, keys, rows and body files and
    every operation on them; \<open>Cache_Store\<close> has the proofs about them.
  \<^item> \<open>Css_Syntax\<close>: \<open>css_syntax.c\<close>, the tokenizer and component-value parser.
  \<^item> \<open>Dom_Node\<close>, \<open>Dom_Tree\<close>, \<open>Dom_Find\<close>, \<open>Dom_Order\<close>: the core of \<open>dom.c\<close>. A heap maps
    addresses to nodes; attributes with the caches built from them, the pointers of
    the tree, the id index and lookup, tree order and the class and tag indexes.
  \<^item> \<open>Css_Select\<close>: the selector matcher of \<open>css.c\<close> on that heap, with its counter of
    steps, and the form helpers of \<open>dom.c\<close> it calls; \<open>Css_Match\<close> says what selectors mean
    and proves that the matcher computes it.
  \<^item> \<open>Css_Rules\<close>: scopes, the index of a sheet and \<open>gather_matches_multi\<close>; \<open>Css_Layers\<close>: the
    names and ranks of cascade layers; \<open>Css_Cascade\<close>: \<open>match_cmp\<close>, \<open>cascade_for\<close> and the part
    of \<open>cascade_walk\<close> that collects the declarations of an element.
  \<^item> \<open>Date_Time\<close>: \<open>datetime.c\<close>, the ISO weeks of \<open>js_date.c\<close> and the values of date, month,
    week and time fields in \<open>js.c\<close> and \<open>dom.c\<close>.
  \<^item> \<open>Xml_Parse\<close>: \<open>xml.c\<close>, the parser of XML documents, which builds its tree with the
    operations of \<open>Dom_Tree\<close>; \<open>Xml_Trip\<close>: the XML serializer of \<open>dom.c\<close> and the round trip.
  \<^item> \<open>Csp\<close>: \<open>csp.c\<close>, parsing and all checks.
  \<^item> \<open>Security_Checks\<close>: the integrity attribute (\<open>security.c\<close>) and the lists of dangerous
    hosts (\<open>safebrowsing.c\<close>).
  \<^item> \<open>Bytecode_Cache\<close>: \<open>bytecode_cache.c\<close>, compiled scripts in files and in memory.
  \<^item> \<open>Bookmarks\<close>: \<open>bookmarks.c\<close>, the list and its file.
  \<^item> \<open>Event_Mailbox\<close>: how a network thread posts to the main loop; \<open>Event_Source\<close>
    (\<open>eventsource.c\<close>) and \<open>Web_Socket\<close> (\<open>ws.c\<close>) use it.

  \<^bold>\<open>How they interact.\<close> \<open>Ipc_Messages\<close> formats and parses with the codec of
  \<open>Ipc_Http\<close>. \<open>Net_Cookies\<close>, \<open>Net_Fetch\<close>, \<open>Net_Share\<close> and \<open>Csp\<close> compare addresses
  through \<open>Net_Url\<close>. \<open>Event_Source\<close> and \<open>Web_Socket\<close> interpret the locale
  \<open>event_mailbox\<close> on their own posting functions; \<open>Net_Url\<close> interprets
  \<open>origin_relation\<close> on same-origin and same-site, \<open>Csp\<close> interprets
  \<open>conjunctive_check\<close> on its three checks. \<open>Css_Select\<close> reads attributes and classes
  through the caches of \<open>Dom_Node\<close> and walks the pointers of \<open>Dom_Tree\<close>; \<open>Css_Match\<close>
  rests on the lemmas that caches and pointers agree with the attributes and the lists of
  children. \<open>Css_Rules\<close> asks the matcher for every candidate of the index and relies on its
  tests of the subject; \<open>Css_Cascade\<close> sorts what \<open>Css_Rules\<close> gathers from all sheets, with the
  ranks of \<open>Css_Layers\<close>.

  \<^bold>\<open>State and effects.\<close> A struct is a record, a table or a set of files a map, a
  file a string, and the wall clock an argument. Threads that share a structure
  are inductive step relations in which each locked region, and where there is no
  lock each access, is one step (\<open>share_step\<close>, \<open>throttle_step\<close>, \<open>ws_do\<close>); invariants
  are proved by rule induction over every interleaving.

  \<^bold>\<open>Code outside the repository\<close> is a parameter: the address parser of lexbor
  (\<open>lxb\<close>), the public-suffix list (\<open>psl\<close>), digests and base64 (\<open>sha\<close>), the time parsers of curl and GLib
  (\<open>iso8601\<close>), character conversion (\<open>convert\<close>), one hop of a fetch (\<open>hop\<close>), UTF-8 validation (\<open>utf8\<close>);
  the state of form controls, languages and directions that selectors ask for is
  the field \<open>ce_query\<close>. What the code relies
  on is a named hypothesis of the property (\<open>lexbor_url_ok\<close>), and a witness gives a
  concrete function that satisfies it. Curl in the two clients is the list of its
  callback calls, or the result of each call.

  \<^bold>\<open>What the properties show.\<close>

  \<^item> Framing: what one side writes the other reads, under any splitting of the
    stream; every field fits its buffer; strings survive escaping.
  \<^item> Fetching: at most eleven hops, credentials never cross an origin, upgrades and
    referrers are exactly as specified; joined waiters are neither lost nor
    answered twice; the throttle keeps its bounds and lets nothing wait without a reason once
    its threads have left the dispatch loop.
  \<^item> Cookies: a cookie changes only what the rules allow, comes back as it was set,
    stays in its site, and scripts do not see HttpOnly ones.
  \<^item> Data and forms: what was encoded in a data address, or put in a form, is what
    comes out, within the memory budget.
  \<^item> Cache: rows and files stay in step, entries never cross partitions, a lookup
    gives the last response stored under the same key; two of the three date formats
    are read exactly.
  \<^item> Style sheets: the component parser ends, loses nothing and reports its verdict
    truly.
  \<^item> Selectors: a selector matches exactly if nodes can be found for its compounds that
    stand in the relations of its combinators.
  \<^item> Styles: the index of a sheet loses no rule; the ranks of layers follow nesting and
    first registration; sorting, rolling back, inheriting and defaulting give each property
    the value of the declarative cascade, two uses of \<open>!important\<close> apart on which the code
    departs from it (\<open>importance_plain\<close>).
  \<^item> Document: the pointer functions are operations on lists of children; the
    comparison of nodes is tree order and the indexes stay sorted by it; the lookup by
    id agrees with the walk; the caches of an element agree with its attributes.
  \<^item> Dates: days and civil dates are inverse as far as years fit their type, weeks are the
    ISO weeks, the value of a date field is read back as it was printed.
  \<^item> XML: the parser ends on every input, and what the serializer prints is parsed to the
    same tree.
  \<^item> Scripts: a lookup of compiled code returns only code stored under the same source and
    version; the strongest digests of an integrity attribute alone decide.
  \<^item> Policy: the checks agree with a specification by fallback lists; policies only
    ever restrict.
  \<^item> Streams and sockets: results do not depend on how the bytes are cut; each
    connection opens at most once and closes once, whatever the page does meanwhile; a message
    reaches the mailbox whole; buffers are bounded; every loop ends.

  \<^bold>\<open>Bounds and termination.\<close> All loops are structural recursion or have a
  termination proof, except the redirect loop, whose fuel is the code's own limit of
  ten redirects, and the component parser of style sheets, whose fuel of one more than
  the length of the input is proved to be enough, and the XML parser, whose fuel of one more
  than twice the length is enough, as what costs at most two units reads at least one
  character. The loops over siblings and ancestors run for a given number
  of rounds, for which the number of nodes is enough (\<open>children_linked\<close>). Sizes are natural numbers where the code checks them against its limit
  before use; where an overflow can be reached (\<open>Max-Age\<close>, the fields of the
  reply to \<open>/open\<close>, the days of a duration) the width is written out.

  The matcher of selectors is total; it answers no beyond 8,000,000 steps, 512 ancestors,
  512 levels of \<open>:has\<close> and 512 siblings under \<open>~\<close>, so its correctness is stated for
  documents within these limits (\<open>document_ok\<close>) and searches within the budget. A rule has
  nine slots for specificities; gathering and the cascade are stated for pages that use at
  most eight pseudo-elements. The memo of \<open>:has\<close>, which the code keeps while it computes the
  styles of a page, is left out (\<open>Css_Select\<close>).

  \<^bold>\<open>Not modelled.\<close> The transport itself (curl options, sockets, TLS), memory
  management and reference counts, generated pages, and the engine above:
  style, layout, painting, the script bindings and the
  shells, which work on vendored libraries, floating point or toolkit state. Of the parts that are
  modelled in part, the open ones are the values of properties, media queries (whose
  lengths are floating point), the cloning of subtrees, the HTML serializer and the settings.
\<close>

end
